(* ===== verification/Prelude.thy ===== *)
theory Prelude
  imports Main "HOL-Library.Multiset"
begin

text \<open>
  What every component shares.  First the value types of the C++ code that have no
  counterpart in HOL: a nullable pointer is an \<open>option\<close>, and a call that may block or throw
  has an \<open>outcome\<close>.  Then executions: \<open>run_steps\<close> runs a step function over a schedule (a list
  of labels), \<open>reach\<close> is the set of states some schedule leads to, and two locales lift
  what is proved of one step to all of them: \<open>step_invariant\<close> (an invariant) and
  \<open>step_simulation\<close> (a refinement).  Last, the facts on lists and multisets that the pool
  proofs need: replacing one element of a list of components changes a sum over the list by
  the difference at that element.
\<close>

section \<open>Values of the C++ code\<close>

text \<open>\<open>None\<close> is the null pointer.\<close>
type_synonym 'a ptr = "'a option"

text \<open>
  A call returns a value, throws \<open>std::runtime_error\<close> with a message, or does not return
  before another thread has acted.
\<close>
datatype 'a outcome = Returns 'a | Throws string | Blocked

text \<open>The tasks a pointer owns: none when it is null.\<close>
definition ptr_tasks :: "'a ptr \<Rightarrow> 'a multiset" where
  "ptr_tasks p = (case p of None \<Rightarrow> {#} | Some t \<Rightarrow> {#t#})"

lemma ptr_tasks_simps [simp]:
  "ptr_tasks None = {#}"
  "ptr_tasks (Some t) = {#t#}"
  by (simp_all add: ptr_tasks_def)

lemma Returns_if_iff [simp]:
  "(if b then Returns x else Blocked) = Returns y \<longleftrightarrow> b \<and> x = y"
  "(if b then Blocked else Returns x) = Returns y \<longleftrightarrow> \<not> b \<and> x = y"
  by auto

section \<open>Executions of a step function\<close>

text \<open>
  The collection \<open>step_defs\<close> holds the definitions that unfold one step of a component, the
  collection \<open>inv_defs\<close> those of its invariants.
\<close>
named_theorems step_defs
named_theorems inv_defs

text \<open>Runs a schedule; \<open>None\<close> when some label is not enabled where the schedule has it.\<close>
fun run_steps :: "('s \<Rightarrow> 'l \<Rightarrow> 's option) \<Rightarrow> 's \<Rightarrow> 'l list \<Rightarrow> 's option" where
  "run_steps step s [] = Some s"
| "run_steps step s (l # ls) =
     (case step s l of None \<Rightarrow> None | Some s' \<Rightarrow> run_steps step s' ls)"

text \<open>The states an execution from \<open>s0\<close> can be in, whatever the scheduler does.\<close>
inductive reach :: "('s \<Rightarrow> 'l \<Rightarrow> 's option) \<Rightarrow> 's \<Rightarrow> 's \<Rightarrow> bool" for step s0 where
  reach_refl: "reach step s0 s0"
| reach_step: "reach step s0 s \<Longrightarrow> step s l = Some s' \<Longrightarrow> reach step s0 s'"

declare reach_refl [intro!, simp]

lemma reach_trans: "reach step b c \<Longrightarrow> reach step a b \<Longrightarrow> reach step a c"
  by (induction rule: reach.induct) (auto intro: reach_step)

lemma reach_one: "step s l = Some s' \<Longrightarrow> reach step s s'"
  by (rule reach_step [OF reach_refl])

lemma run_steps_append:
  "run_steps step s (xs @ ys) =
     (case run_steps step s xs of None \<Rightarrow> None | Some s' \<Rightarrow> run_steps step s' ys)"
  by (induction xs arbitrary: s) (auto split: option.splits)

lemma run_steps_reach: "run_steps step s ls = Some s' \<Longrightarrow> reach step s s'"
proof (induction ls arbitrary: s)
  case Nil
  then show ?case by simp
next
  case (Cons l ls)
  then obtain u where "step s l = Some u" and "run_steps step u ls = Some s'"
    by (auto split: option.splits)
  then show ?case
    using Cons.IH reach_one reach_trans by metis
qed

lemma reach_run_steps: "reach step s s' \<Longrightarrow> \<exists>ls. run_steps step s ls = Some s'"
proof (induction rule: reach.induct)
  case reach_refl
  show ?case by (rule exI [of _ "[]"]) simp
next
  case (reach_step u l v)
  then obtain ls where "run_steps step s ls = Some u" by blast
  with reach_step.hyps have "run_steps step s (ls @ [l]) = Some v"
    by (simp add: run_steps_append)
  then show ?case by blast
qed

text \<open>The contract of an invariant: one step keeps it.  Then every execution does.\<close>

locale step_invariant =
  fixes step :: "'s \<Rightarrow> 'l \<Rightarrow> 's option"
    and inv :: "'s \<Rightarrow> bool"
  assumes inv_step: "inv s \<Longrightarrow> step s l = Some s' \<Longrightarrow> inv s'"
begin

lemma inv_reach: "reach step s0 s \<Longrightarrow> inv s0 \<Longrightarrow> inv s"
  by (induction rule: reach.induct) (auto intro: inv_step)

lemma inv_run: "run_steps step s0 ls = Some s \<Longrightarrow> inv s0 \<Longrightarrow> inv s"
  by (blast intro: inv_reach run_steps_reach)

end

text \<open>
  The contract of a refinement: under the invariant, one step of the detailed system is a
  sequence of steps (possibly none) of the abstract one.
\<close>

locale step_simulation = step_invariant step inv
  for step :: "'s \<Rightarrow> 'l \<Rightarrow> 's option" and inv :: "'s \<Rightarrow> bool" +
  fixes astep :: "'a \<Rightarrow> 'k \<Rightarrow> 'a option"
    and abs :: "'s \<Rightarrow> 'a"
  assumes sim_step: "inv s \<Longrightarrow> step s l = Some s' \<Longrightarrow> reach astep (abs s) (abs s')"
begin

lemma sim_reach: "reach step s0 s \<Longrightarrow> inv s0 \<Longrightarrow> reach astep (abs s0) (abs s)"
proof (induction rule: reach.induct)
  case reach_refl
  show ?case by simp
next
  case (reach_step u l v)
  have "inv u" by (rule inv_reach [OF reach_step.hyps(1) reach_step.prems])
  then have "reach astep (abs u) (abs v)" by (rule sim_step [OF _ reach_step.hyps(2)])
  then show ?case by (rule reach_trans [OF _ reach_step.IH [OF reach_step.prems]])
qed

end

section \<open>Lists of components\<close>

text \<open>Removes the element at index \<open>i\<close>; nothing when there is none.\<close>
definition remove_at :: "nat \<Rightarrow> 'a list \<Rightarrow> 'a list" where
  "remove_at i xs = take i xs @ drop (Suc i) xs"

lemma set_remove_at_subset: "set (remove_at i xs) \<subseteq> set xs"
  by (auto simp: remove_at_def dest: in_set_takeD in_set_dropD)

lemma distinct_remove_at: "distinct xs \<Longrightarrow> distinct (remove_at i xs)"
  using set_take_disj_set_drop_if_distinct [of xs i "Suc i"] by (simp add: remove_at_def)

lemma remove_at_single [simp]: "remove_at 0 [x] = []"
  by (simp add: remove_at_def)

text \<open>What the components of a list own together.\<close>
definition owned :: "('a \<Rightarrow> 'b multiset) \<Rightarrow> 'a list \<Rightarrow> 'b multiset" where
  "owned f xs = sum_list (map f xs)"

lemma owned_Nil [simp]: "owned f [] = {#}"
  by (simp add: owned_def)

lemma owned_Cons [simp]: "owned f (x # xs) = f x + owned f xs"
  by (simp add: owned_def)

lemma owned_append [simp]: "owned f (xs @ ys) = owned f xs + owned f ys"
  by (simp add: owned_def)

lemma owned_update:
  "i < length xs \<Longrightarrow> owned f (xs[i := y]) + f (xs ! i) = owned f xs + f y"
proof (induction xs arbitrary: i)
  case Nil
  then show ?case by simp
next
  case (Cons x xs)
  show ?case
  proof (cases i)
    case 0
    then show ?thesis by (simp add: add.commute add.left_commute)
  next
    case (Suc j)
    with Cons.prems Cons.IH [of j]
    have "owned f (xs[j := y]) + f (xs ! j) = owned f xs + f y" by simp
    with Suc show ?thesis by (simp add: add.assoc)
  qed
qed

lemma owned_update_same:
  "i < length xs \<Longrightarrow> f y = f (xs ! i) \<Longrightarrow> owned f (xs[i := y]) = owned f xs"
  using owned_update [of i xs f y] by simp

lemma owned_update_add:
  "i < length xs \<Longrightarrow> f y = f (xs ! i) + d \<Longrightarrow> owned f (xs[i := y]) = owned f xs + d"
  using owned_update [of i xs f y] by (simp add: add.left_commute)

lemma owned_update_sub:
  "i < length xs \<Longrightarrow> f y + d = f (xs ! i) \<Longrightarrow> owned f (xs[i := y]) + d = owned f xs"
  using owned_update [of i xs f y] by (metis add.assoc add.commute add_right_cancel)

lemma owned_all_empty: "(\<And>i. i < length xs \<Longrightarrow> f (xs ! i) = {#}) \<Longrightarrow> owned f xs = {#}"
proof (induction xs)
  case (Cons x xs)
  from Cons.prems [of 0] Cons.prems [of "Suc _"] have "f x = {#}" "owned f xs = {#}"
    by (auto intro: Cons.IH)
  then show ?case by simp
qed simp

lemma owned_member: "x \<in> set xs \<Longrightarrow> f x \<subseteq># owned f xs"
  by (induction xs) (auto intro: subset_mset.add_increasing2 subset_mset.add_increasing)

text \<open>The same for a sum of numbers.\<close>
lemma sum_list_at:
  fixes f :: "'a \<Rightarrow> nat"
  shows "i < length xs \<Longrightarrow> sum_list (map f (xs[i := y])) + f (xs ! i) = sum_list (map f xs) + f y"
proof (induction xs arbitrary: i)
  case (Cons x xs)
  then show ?case by (cases i) simp_all
qed simp

lemma all_nth_update:
  "(\<And>j. j < length xs \<Longrightarrow> j \<noteq> i \<Longrightarrow> P j (xs ! j)) \<Longrightarrow> P i y \<Longrightarrow> j < length xs \<Longrightarrow>
   P j (xs[i := y] ! j)"
  by (cases "i = j") auto

lemma filter_one:
  "j < length us \<Longrightarrow> length (filter P (us[j := u])) + (if P (us ! j) then 1 else 0) =
     length (filter P us) + (if P u then 1 else 0)"
proof (induction us arbitrary: j)
  case (Cons v us)
  show ?case
  proof (cases j)
    case (Suc i)
    with Cons.IH [of i] Cons.prems show ?thesis by auto
  qed simp
qed simp

end
