(* ===== verification/Pthread.thy ===== *)
theory Pthread
  imports Prelude
begin

text \<open>
  The part of POSIX threads the code calls: the error numbers, a mutex of type
  \<open>PTHREAD_MUTEX_ERRORCHECK\<close> and a condition variable.  A mutex is its owner, a condition
  variable the list of the threads asleep on it.  The functions say what the standard says of
  the calls the code makes: locking a mutex one owns is \<open>EDEADLK\<close>, trying to lock an owned
  mutex is \<open>EBUSY\<close> whoever owns it, unlocking a mutex one does not own is \<open>EPERM\<close>, a wait
  releases the mutex and falls asleep in one step, and a signal wakes one of the sleeping
  threads, chosen by the system (the argument \<open>k\<close>).
\<close>

section \<open>Error numbers\<close>

datatype errno =
  EPERM | EINTR | ESRCH | EAGAIN | ENOMEM | EBUSY | EINVAL | EDEADLK | ETIMEDOUT

text \<open>A call succeeds with a new value, fails with an error number, or blocks.\<close>
datatype 'a pcall = Ok 'a | Err errno | Block

section \<open>The error checking mutex\<close>

type_synonym 't mutex = "'t option"

definition mutex_lock :: "'t mutex \<Rightarrow> 't \<Rightarrow> 't mutex pcall" where
  "mutex_lock m t =
     (case m of None \<Rightarrow> Ok (Some t)
      | Some u \<Rightarrow> if u = t then Err EDEADLK else Block)"

definition mutex_trylock :: "'t mutex \<Rightarrow> 't \<Rightarrow> 't mutex pcall" where
  "mutex_trylock m t = (case m of None \<Rightarrow> Ok (Some t) | Some _ \<Rightarrow> Err EBUSY)"

text \<open>The flag says whether the deadline passes before the mutex is free.\<close>
definition mutex_timedlock :: "bool \<Rightarrow> 't mutex \<Rightarrow> 't \<Rightarrow> 't mutex pcall" where
  "mutex_timedlock expired m t =
     (case m of None \<Rightarrow> Ok (Some t)
      | Some u \<Rightarrow> if u = t then Err EDEADLK
                  else if expired then Err ETIMEDOUT else Block)"

definition mutex_unlock :: "'t mutex \<Rightarrow> 't \<Rightarrow> 't mutex pcall" where
  "mutex_unlock m t = (if m = Some t then Ok None else Err EPERM)"

section \<open>Condition variables\<close>

type_synonym 't condvar = "'t list"

text \<open>
  Falling asleep: the fault is an error the system reports for the objects themselves (such
  as \<open>EINVAL\<close>); without one the caller must own the mutex.
\<close>
definition cond_wait ::
  "errno option \<Rightarrow> 't mutex \<Rightarrow> 't condvar \<Rightarrow> 't \<Rightarrow> ('t mutex \<times> 't condvar) pcall" where
  "cond_wait fault m c t =
     (case fault of
        Some e \<Rightarrow> Err e
      | None \<Rightarrow> if m = Some t then Ok (None, c @ [t]) else Err EPERM)"

definition cond_signal :: "nat \<Rightarrow> 't condvar \<Rightarrow> 't condvar" where
  "cond_signal k c = (if c = [] then [] else remove_at (k mod length c) c)"

definition cond_broadcast :: "'t condvar \<Rightarrow> 't condvar" where
  "cond_broadcast c = []"

text \<open>POSIX lets a sleeping thread wake without a signal.\<close>
definition cond_spurious :: "'t condvar \<Rightarrow> 't \<Rightarrow> 't condvar" where
  "cond_spurious c t = removeAll t c"

lemma set_cond_signal: "set (cond_signal k c) \<subseteq> set c"
  by (simp add: cond_signal_def set_remove_at_subset)

lemma distinct_cond_signal: "distinct c \<Longrightarrow> distinct (cond_signal k c)"
  by (simp add: cond_signal_def distinct_remove_at)

lemma cond_signal_Nil [simp]: "cond_signal k [] = []"
  by (simp add: cond_signal_def)

lemma cond_signal_single [simp]: "cond_signal k [t] = []"
  by (simp add: cond_signal_def)

lemma length_cond_signal: "length (cond_signal k c) = length c - 1"
proof (cases "c = []")
  case False
  then have "k mod length c < length c" by simp
  then show ?thesis by (simp add: cond_signal_def remove_at_def)
qed simp

lemmas mutex_defs = mutex_lock_def mutex_trylock_def mutex_timedlock_def mutex_unlock_def

end
