(* ===== verification/Timespec.thy ===== *)
theory Timespec
  imports Prelude "HOL-Library.Word" "HOL-Library.Signed_Division"
begin

text \<open>
  Time values of the POSIX calls and the arithmetic the code does on them.  A \<open>long\<close> or
  \<open>time_t\<close> is an \<open>int\<close> with C++'s truncating division (\<open>sdiv\<close>, \<open>smod\<close>); an
  \<open>unsigned long\<close> is a 64 bit word, read as signed where the code casts it to \<open>time_t\<close>.
\<close>

record timespec =
  tv_sec :: int
  tv_nsec :: int

text \<open>A time in nanoseconds, and the range \<open>tv_nsec\<close> must be in for the calls to take it.\<close>
definition time_ns :: "timespec \<Rightarrow> int" where
  "time_ns ts = tv_sec ts * 1000000000 + tv_nsec ts"

definition valid_ts :: "timespec \<Rightarrow> bool" where
  "valid_ts ts \<longleftrightarrow> 0 \<le> tv_nsec ts \<and> tv_nsec ts < 1000000000"

lemma sdiv_nonneg: "(0::int) \<le> a \<Longrightarrow> 0 < b \<Longrightarrow> a sdiv b = a div b"
  by (cases "a = 0") (simp_all add: signed_divide_int_def)

lemma smod_nonneg: "(0::int) \<le> a \<Longrightarrow> 0 < b \<Longrightarrow> a smod b = a mod b"
  by (cases "a = 0") (simp_all add: signed_modulo_int_def)

text \<open>
  The arithmetic both timed calls share: \<open>secs\<close> and \<open>rest\<close> are the seconds and the
  milliseconds of the timeout, and the nanoseconds of \<open>now\<close> are cut to milliseconds.
\<close>
definition add_millis :: "timespec \<Rightarrow> int \<Rightarrow> int \<Rightarrow> timespec" where
  "add_millis now secs rest =
     (let sec = tv_sec now + secs;
          millis = tv_nsec now sdiv 1000000 + rest
      in \<lparr>tv_sec = (if 1000 \<le> millis then sec + 1 else sec),
          tv_nsec = (millis smod 1000) * 1000000\<rparr>)"

lemma add_millis_valid:
  assumes "valid_ts now" and "0 \<le> rest"
  shows "valid_ts (add_millis now secs rest)"
proof -
  have "0 \<le> tv_nsec now sdiv 1000000 + rest"
    using assms by (simp add: valid_ts_def sdiv_nonneg pos_imp_zdiv_nonneg_iff add_nonneg_nonneg)
  then show ?thesis
    by (simp add: add_millis_def valid_ts_def Let_def smod_nonneg)
qed

lemma mod_below_twice:
  fixes m :: int
  assumes "0 \<le> m" and "m < 2000"
  shows "m mod 1000 = (if 1000 \<le> m then m - 1000 else m)"
proof (cases "1000 \<le> m")
  case True
  have "m mod 1000 = (m - 1000) mod 1000" by simp
  also have "\<dots> = m - 1000" using True assms by (intro mod_pos_pos_trivial) simp_all
  finally show ?thesis using True by simp
next
  case False
  then show ?thesis using assms by simp
qed

lemma add_millis_time:
  assumes "valid_ts now" and "0 \<le> rest" and "rest < 1000"
  shows "time_ns (add_millis now secs rest) =
         (tv_sec now + secs) * 1000000000 + (tv_nsec now div 1000000 + rest) * 1000000"
proof -
  define m where "m = tv_nsec now div 1000000 + rest"
  have m: "0 \<le> m" "m < 2000"
    using assms by (auto simp: m_def valid_ts_def)
  have eq: "add_millis now secs rest =
    \<lparr>tv_sec = (if 1000 \<le> m then tv_sec now + secs + 1 else tv_sec now + secs),
     tv_nsec = (m mod 1000) * 1000000\<rparr>"
    using assms m by (simp add: add_millis_def Let_def m_def valid_ts_def sdiv_nonneg smod_nonneg)
  have "m mod 1000 = (if 1000 \<le> m then m - 1000 else m)"
    using m by (rule mod_below_twice)
  then show ?thesis
    by (simp add: eq time_ns_def algebra_simps) (simp add: m_def algebra_simps)
qed

lemma nsec_millis_bounds:
  fixes n :: int
  shows "(n div 1000000) * 1000000 \<le> n" and "n - 1000000 < (n div 1000000) * 1000000"
  by presburger+

end
