(* ===== verification/Synchronized.thy ===== *)
theory Synchronized
  imports Pthread Timespec
begin

text \<open>
  The class \<open>Synchronized\<close> of \<open>posix/threadpool.cpp\<close> and the scoped \<open>Lock\<close>.  Its state is
  the record \<open>sync\<close>: the owner of the mutex \<open>monitor\<close> and the threads asleep on \<open>cond\<close>.  Each
  member function takes the calling thread and returns its result with the new state, throws, or
  is blocked.  A wait is two steps, falling asleep (which releases the mutex) and returning
  (which takes it again).  The errors the system itself may report are arguments.
  The model is the build on Linux: \<open>NO_FAST_MUTEXES\<close> is defined, \<open>_POSIX_TIMEOUTS\<close> and
  \<open>_POSIX_TIMERS\<close> are positive, \<open>_WIN32\<close> is not defined, and the log macros are empty.
\<close>

section \<open>The object and its construction\<close>

record 't sync =
  monitor :: "'t mutex"
  cond :: "'t condvar"

text \<open>The library calls of the constructor, each of which may report an error.\<close>
datatype init_call =
  Mutexattr_init | Mutexattr_settype | Mutex_init | Mutexattr_destroy | Cond_init

fun first_error :: "(init_call \<Rightarrow> errno option) \<Rightarrow> init_call list \<Rightarrow> errno option" where
  "first_error env [] = None"
| "first_error env (c # cs) =
     (case env c of Some e \<Rightarrow> Some e | None \<Rightarrow> first_error env cs)"

text \<open>\<open>ERR_CHK_WITH_EXCEPTIONS\<close>: the first call that fails ends the construction.\<close>
definition sync_construct :: "(init_call \<Rightarrow> errno option) \<Rightarrow> 't sync outcome" where
  "sync_construct env =
     (case first_error env
             [Mutexattr_init, Mutexattr_settype, Mutex_init, Mutexattr_destroy, Cond_init] of
        Some e \<Rightarrow> Throws ''strerror''
      | None \<Rightarrow> Returns \<lparr>monitor = None, cond = []\<rparr>)"

abbreviation new_sync :: "'t sync" where
  "new_sync \<equiv> \<lparr>monitor = None, cond = []\<rparr>"

section \<open>Locking\<close>

definition sync_lock :: "'t sync \<Rightarrow> 't \<Rightarrow> (bool \<times> 't sync) outcome" where
  "sync_lock s t =
     (case mutex_lock (monitor s) t of
        Ok m \<Rightarrow> Returns (True, s\<lparr>monitor := m\<rparr>)
      | Err e \<Rightarrow> if e = EDEADLK then Throws ''lock: recursive locking detected''
                 else Returns (False, s)
      | Block \<Rightarrow> Blocked)"

text \<open>The deadline \<open>lock(unsigned long timeout)\<close> computes from the current time.\<close>
definition lock_deadline :: "timespec \<Rightarrow> 64 word \<Rightarrow> timespec" where
  "lock_deadline now timeout =
     add_millis now (sint timeout sdiv 1000) (uint (timeout mod 1000))"

definition sync_lock_timed ::
  "bool \<Rightarrow> 't sync \<Rightarrow> 't \<Rightarrow> (bool \<times> 't sync) outcome" where
  "sync_lock_timed expired s t =
     (case mutex_timedlock expired (monitor s) t of
        Ok m \<Rightarrow> Returns (True, s\<lparr>monitor := m\<rparr>)
      | Err e \<Rightarrow> if e = EDEADLK then Throws ''timedlock: recursive lock detected''
                 else Returns (False, s)
      | Block \<Rightarrow> Blocked)"

definition sync_unlock :: "'t sync \<Rightarrow> 't \<Rightarrow> bool \<times> 't sync" where
  "sync_unlock s t =
     (case mutex_unlock (monitor s) t of
        Ok m \<Rightarrow> (True, s\<lparr>monitor := m\<rparr>)
      | _ \<Rightarrow> (False, s))"

datatype try_lock_result = LOCKED | BUSY | OWNED

definition sync_trylock :: "'t sync \<Rightarrow> 't \<Rightarrow> (try_lock_result \<times> 't sync) outcome" where
  "sync_trylock s t =
     (case mutex_trylock (monitor s) t of
        Ok m \<Rightarrow> Returns (LOCKED, s\<lparr>monitor := m\<rparr>)
      | Err e \<Rightarrow> if e = EDEADLK then Throws ''trylock: recursive lock detected''
                 else Returns (BUSY, s)
      | Block \<Rightarrow> Blocked)"

section \<open>Waiting and notifying\<close>

text \<open>
  The first half of \<open>wait()\<close>.  The flag of the result says whether the thread now sleeps: when
  the wait call fails with an error other than \<open>EINVAL\<close>, the function returns at once.
\<close>
definition sync_wait :: "errno option \<Rightarrow> 't sync \<Rightarrow> 't \<Rightarrow> (bool \<times> 't sync) outcome" where
  "sync_wait fault s t =
     (case cond_wait fault (monitor s) (cond s) t of
        Ok (m, c) \<Rightarrow> Returns (True, s\<lparr>monitor := m, cond := c\<rparr>)
      | Err e \<Rightarrow> if e = EINVAL
                 then Throws ''pthread_cond_wait: The cond or the mutex is invalid!''
                 else Returns (False, s)
      | Block \<Rightarrow> Blocked)"

text \<open>The second half: a thread that is no longer asleep takes the mutex again and returns.\<close>
definition sync_resume :: "'t sync \<Rightarrow> 't \<Rightarrow> 't sync outcome" where
  "sync_resume s t =
     (if t \<in> set (cond s) then Blocked
      else case monitor s of None \<Rightarrow> Returns (s\<lparr>monitor := Some t\<rparr>) | Some _ \<Rightarrow> Blocked)"

text \<open>The deadline \<open>wait(long timeout)\<close> computes from the current time.\<close>
definition wait_deadline :: "timespec \<Rightarrow> int \<Rightarrow> timespec" where
  "wait_deadline now timeout = add_millis now (timeout sdiv 1000) (timeout smod 1000)"

text \<open>What the timed wait returned to \<open>cond_timed_wait\<close> and what that makes of it.\<close>
definition cond_timed_wait :: "errno option \<Rightarrow> errno option outcome" where
  "cond_timed_wait err =
     (if err = Some EINVAL
      then Throws ''pthread_cond_timedwait: The cond or the mutex ot the timespec is invalid!''
      else Returns err)"

text \<open>The switch of \<open>wait(long timeout)\<close>: the flag says that the timeout occurred.\<close>
definition timeout_occurred :: "errno option \<Rightarrow> bool" where
  "timeout_occurred err =
     (case err of
        None \<Rightarrow> False
      | Some e \<Rightarrow> if e = EINVAL then True else if e = ETIMEDOUT then True else False)"

text \<open>The end of \<open>wait(long timeout)\<close>, from the error the timed wait ended with.\<close>
definition sync_wait_timed :: "errno option \<Rightarrow> bool outcome" where
  "sync_wait_timed err =
     (case cond_timed_wait err of
        Returns e \<Rightarrow> Returns (timeout_occurred e)
      | Throws msg \<Rightarrow> Throws msg
      | Blocked \<Rightarrow> Blocked)"

definition sync_notify :: "nat \<Rightarrow> 't sync \<Rightarrow> 't sync" where
  "sync_notify k s = s\<lparr>cond := cond_signal k (cond s)\<rparr>"

definition sync_notify_all :: "'t sync \<Rightarrow> 't sync" where
  "sync_notify_all s = s\<lparr>cond := cond_broadcast (cond s)\<rparr>"

text \<open>A thread leaves its wait without a notification.\<close>
definition sync_spurious :: "'t sync \<Rightarrow> 't \<Rightarrow> 't sync" where
  "sync_spurious s t = s\<lparr>cond := cond_spurious (cond s) t\<rparr>"

section \<open>The scoped lock\<close>

text \<open>The constructor locks and ignores the result; the destructor unlocks and ignores it.\<close>
definition lock_enter :: "'t sync \<Rightarrow> 't \<Rightarrow> 't sync outcome" where
  "lock_enter s t =
     (case sync_lock s t of
        Returns (_, s') \<Rightarrow> Returns s'
      | Throws msg \<Rightarrow> Throws msg
      | Blocked \<Rightarrow> Blocked)"

definition lock_leave :: "'t sync \<Rightarrow> 't \<Rightarrow> 't sync" where
  "lock_leave s t = snd (sync_unlock s t)"

text \<open>\<open>Lock::wait(long timeout)\<close>: a negative timeout waits without a deadline.\<close>
definition lock_wait_deadline :: "timespec \<Rightarrow> int \<Rightarrow> timespec option" where
  "lock_wait_deadline now timeout =
     (if timeout < 0 then None else Some (wait_deadline now timeout))"

section \<open>Destruction\<close>

text \<open>
  One round of the loop of \<open>~Synchronized\<close>, as its library calls answer: the first
  \<open>pthread_mutex_trylock\<close>, the timed \<open>lock(10)\<close>, \<open>pthread_mutex_destroy\<close>, and the
  \<open>pthread_mutex_unlock\<close> of the branch for a mutex that is not free.  Other threads act
  between the calls, so any answers may come together.
\<close>
record dtor_round =
  r_trylock :: "errno option"
  r_lock10 :: bool
  r_destroy :: "errno option"
  r_unlock :: "errno option"

text \<open>The state of the loop: the last error, the number of errors, and what the round did.\<close>
record dtor_state =
  d_error :: "errno option"
  d_errors :: nat
  d_destroyed :: bool
  d_break :: bool

definition dtor_body :: "nat \<Rightarrow> dtor_round \<Rightarrow> dtor_state" where
  "dtor_body errors r =
     (if r_trylock r = None then
        (if r_lock10 r then
           (case r_destroy r of
              None \<Rightarrow> \<lparr>d_error = None, d_errors = errors, d_destroyed = True, d_break = False\<rparr>
            | Some e \<Rightarrow> \<lparr>d_error = Some e, d_errors = errors + 1, d_destroyed = False,
                         d_break = False\<rparr>)
         else \<lparr>d_error = None, d_errors = errors, d_destroyed = False, d_break = False\<rparr>)
      else if r_unlock r \<noteq> Some EPERM
      then \<lparr>d_error = r_unlock r, d_errors = errors, d_destroyed = False, d_break = True\<rparr>
      else \<lparr>d_error = Some EPERM, d_errors = errors + 1, d_destroyed = False,
             d_break = False\<rparr>)"

text \<open>\<open>AGENTPP_SYNCHRONIZED_UNLOCK_RETRIES\<close>\<close>
definition unlock_retries :: nat where
  "unlock_retries = 10"

text \<open>The loop; \<open>None\<close> when the rounds given run out before it ends.\<close>
fun dtor_loop :: "nat \<Rightarrow> dtor_round list \<Rightarrow> dtor_state option" where
  "dtor_loop errors [] = None"
| "dtor_loop errors (r # rs) =
     (let d = dtor_body errors r in
      if d_break d \<or> unlock_retries < d_errors d then Some d
      else if d_error d = Some EBUSY then dtor_loop (d_errors d) rs
      else Some d)"

text \<open>The whole destructor; the flag of its result says that the mutex was destroyed.\<close>
definition sync_destroy :: "dtor_round list \<Rightarrow> errno option \<Rightarrow> bool outcome option" where
  "sync_destroy rs cond_err =
     (case dtor_loop 0 rs of
        None \<Rightarrow> None
      | Some d \<Rightarrow>
          Some (if d_error d = Some EBUSY then Throws ''pthread_mutex_destroy: failed''
                else if cond_err = Some EBUSY then Throws ''pthread_cond_destroy: failed''
                else Returns (d_destroyed d)))"

section \<open>Lemmas on single calls\<close>

lemmas sync_defs = sync_lock_def sync_lock_timed_def sync_unlock_def sync_trylock_def
  sync_wait_def sync_resume_def sync_notify_def sync_notify_all_def sync_spurious_def
  lock_enter_def lock_leave_def mutex_defs cond_wait_def cond_broadcast_def

lemma lock_enter_Returns_iff [simp]:
  "lock_enter s t = Returns s' \<longleftrightarrow> monitor s = None \<and> s' = s\<lparr>monitor := Some t\<rparr>"
  by (auto simp: sync_defs split: option.splits)

lemma lock_enter_Throws_iff [simp]:
  "lock_enter s t = Throws msg \<longleftrightarrow>
   monitor s = Some t \<and> msg = ''lock: recursive locking detected''"
  by (auto simp: sync_defs split: option.splits)

lemma lock_enter_Blocked_iff [simp]:
  "lock_enter s t = Blocked \<longleftrightarrow> (\<exists>u. monitor s = Some u \<and> u \<noteq> t)"
  by (auto simp: sync_defs split: option.splits)

lemma lock_enter_free: "monitor s = None \<Longrightarrow> lock_enter s t = Returns (s\<lparr>monitor := Some t\<rparr>)"
  by simp

lemma lock_leave_own: "monitor s = Some t \<Longrightarrow> lock_leave s t = s\<lparr>monitor := None\<rparr>"
  by (simp add: sync_defs)

lemma lock_leave_other: "monitor s \<noteq> Some t \<Longrightarrow> lock_leave s t = s"
  by (simp add: sync_defs)

lemma sync_wait_own:
  "monitor s = Some t \<Longrightarrow>
   sync_wait None s t = Returns (True, s\<lparr>monitor := None, cond := cond s @ [t]\<rparr>)"
  by (simp add: sync_defs)

lemma sync_resume_Returns_iff [simp]:
  "sync_resume s t = Returns s' \<longleftrightarrow>
   t \<notin> set (cond s) \<and> monitor s = None \<and> s' = s\<lparr>monitor := Some t\<rparr>"
  by (auto simp: sync_defs split: option.splits)

lemma sync_notify_monitor [simp]: "monitor (sync_notify k s) = monitor s"
  by (simp add: sync_notify_def)

lemma sync_notify_cond: "set (cond (sync_notify k s)) \<subseteq> set (cond s)"
  by (simp add: sync_notify_def set_cond_signal)

lemma sync_notify_distinct: "distinct (cond s) \<Longrightarrow> distinct (cond (sync_notify k s))"
  by (simp add: sync_notify_def distinct_cond_signal)

section \<open>The contract of a lock\<close>

text \<open>
  What the clients of a scoped lock rely on: it is taken only when it is free, it is then held
  by the thread that took it, nobody else enters while it is held, and leaving frees it.
\<close>

locale scoped_lock =
  fixes holder :: "'s \<Rightarrow> 't option"
    and enter :: "'s \<Rightarrow> 't \<Rightarrow> 's outcome"
    and leave :: "'s \<Rightarrow> 't \<Rightarrow> 's"
  assumes enter_holds: "enter s t = Returns s' \<Longrightarrow> holder s = None \<and> holder s' = Some t"
    and enter_free: "holder s = None \<Longrightarrow> \<exists>s'. enter s t = Returns s'"
    and enter_other: "holder s = Some u \<Longrightarrow> u \<noteq> t \<Longrightarrow> enter s t = Blocked"
    and leave_frees: "holder s = Some t \<Longrightarrow> holder (leave s t) = None"
    and leave_foreign: "holder s \<noteq> Some t \<Longrightarrow> leave s t = s"
begin

lemma section_frees: "enter s t = Returns s' \<Longrightarrow> holder (leave s' t) = None"
  using enter_holds leave_frees by blast

lemma section_excludes: "enter s t = Returns s' \<Longrightarrow> u \<noteq> t \<Longrightarrow> enter s' u = Blocked"
  using enter_holds enter_other by metis

lemma section_reenter: "enter s t = Returns s' \<Longrightarrow> \<exists>s''. enter (leave s' t) u = Returns s''"
  using section_frees enter_free by blast

lemma foreign_leave_excludes:
  "enter s t = Returns s' \<Longrightarrow> u \<noteq> t \<Longrightarrow> holder (leave s' u) = Some t"
  using enter_holds leave_foreign by (metis option.inject)

end

interpretation posix_lock: scoped_lock monitor lock_enter lock_leave
  by unfold_locales (auto simp: lock_leave_own lock_leave_other)

end
