(* ===== verification/Sync_Exclusion.thy ===== *)
theory Sync_Exclusion
  imports Synchronized
begin

text \<open>
  The calls of \<open>Synchronized\<close> by any number of threads in any order: a thread may also unlock
  what it does not hold, wait without holding the mutex, or be woken without a notification.
  A ghost set records who is inside the critical section by its own account: the threads whose
  last lock, trylock or wait returned with the mutex and that have not unlocked or slept since.
\<close>

datatype sync_call =
  Call_lock | Call_lock_timed bool | Call_trylock | Call_unlock | Call_wait | Call_resume
| Call_notify nat | Call_notify_all | Call_spurious

record 't excl =
  object :: "'t sync"
  inside :: "'t set"
  waiting :: "'t set"

text \<open>A call of thread \<open>t\<close>; a thread inside a wait can only return from it.\<close>
fun excl_step :: "'t excl \<Rightarrow> 't \<times> sync_call \<Rightarrow> 't excl option" where
  "excl_step x (t, Call_resume) =
     (if t \<in> waiting x
      then (case sync_resume (object x) t of
              Returns s \<Rightarrow> Some (x\<lparr>object := s, waiting := waiting x - {t},
                                   inside := insert t (inside x)\<rparr>)
            | _ \<Rightarrow> None)
      else None)"
| "excl_step x (t, Call_spurious) = Some (x\<lparr>object := sync_spurious (object x) t\<rparr>)"
| "excl_step x (t, c) =
     (if t \<in> waiting x then None else
      case c of
        Call_lock \<Rightarrow>
          (case sync_lock (object x) t of
             Returns (ok, s) \<Rightarrow>
               Some (x\<lparr>object := s, inside := (if ok then insert t (inside x) else inside x)\<rparr>)
           | Throws _ \<Rightarrow> Some x
           | Blocked \<Rightarrow> None)
      | Call_lock_timed expired \<Rightarrow>
          (case sync_lock_timed expired (object x) t of
             Returns (ok, s) \<Rightarrow>
               Some (x\<lparr>object := s, inside := (if ok then insert t (inside x) else inside x)\<rparr>)
           | Throws _ \<Rightarrow> Some x
           | Blocked \<Rightarrow> None)
      | Call_trylock \<Rightarrow>
          (case sync_trylock (object x) t of
             Returns (r, s) \<Rightarrow>
               Some (x\<lparr>object := s,
                       inside := (if r = LOCKED then insert t (inside x) else inside x)\<rparr>)
           | Throws _ \<Rightarrow> Some x
           | Blocked \<Rightarrow> None)
      | Call_unlock \<Rightarrow>
          (let (ok, s) = sync_unlock (object x) t in
           Some (x\<lparr>object := s, inside := (if ok then inside x - {t} else inside x)\<rparr>))
      | Call_wait \<Rightarrow>
          (case sync_wait None (object x) t of
             Returns (asleep, s) \<Rightarrow>
               Some (if asleep
                     then x\<lparr>object := s, inside := inside x - {t},
                            waiting := insert t (waiting x)\<rparr>
                     else x\<lparr>object := s\<rparr>)
           | Throws _ \<Rightarrow> Some x
           | Blocked \<Rightarrow> None)
      | Call_notify k \<Rightarrow> Some (x\<lparr>object := sync_notify k (object x)\<rparr>)
      | Call_notify_all \<Rightarrow> Some (x\<lparr>object := sync_notify_all (object x)\<rparr>)
      | _ \<Rightarrow> None)"

definition excl_init :: "'t excl" where
  "excl_init = \<lparr>object = new_sync, inside = {}, waiting = {}\<rparr>"

text \<open>Who is inside is exactly who owns the mutex; who sleeps is waiting and not inside.\<close>
definition excl_inv :: "'t excl \<Rightarrow> bool" where
  "excl_inv x \<longleftrightarrow> inside x = set_option (monitor (object x)) \<and>
     set (cond (object x)) \<subseteq> waiting x \<and> inside x \<inter> waiting x = {}"

lemma excl_inv_init: "excl_inv excl_init"
  by (simp add: excl_inv_def excl_init_def)

lemma excl_inv_step:
  assumes inv: "excl_inv x" and step: "excl_step x l = Some x'"
  shows "excl_inv x'"
proof -
  obtain t c where l: "l = (t, c)" by (cases l)
  note defs = excl_inv_def sync_defs cond_spurious_def
  show ?thesis
  proof (cases c)
    case (Call_notify k)
    then have "x' = x\<lparr>object := sync_notify k (object x)\<rparr>"
      using step l by (simp split: if_splits)
    then show ?thesis
      using inv order_trans [OF sync_notify_cond [of k "object x"]]
      by (clarsimp simp: excl_inv_def)
  qed (use inv step l in \<open>auto simp: defs split: if_splits option.splits\<close>)
qed

interpretation excl: step_invariant excl_step excl_inv
  by unfold_locales (rule excl_inv_step)

lemma excl_reach_inv: "reach excl_step excl_init x \<Longrightarrow> excl_inv x"
  using excl.inv_reach excl_inv_init by blast

text \<open>
  C9: mutual exclusion.  Whatever calls the threads make on one \<open>Synchronized\<close> object, in any
  order, two threads are never both inside its critical section.
\<close>
theorem sync_mutual_exclusion:
  assumes "reach excl_step excl_init x" and "t \<in> inside x" and "u \<in> inside x"
  shows "t = u"
proof -
  have "inside x = set_option (monitor (object x))"
    using excl_reach_inv [OF assms(1)] by (simp add: excl_inv_def)
  with assms(2,3) show ?thesis by (auto simp: elem_set)
qed

definition excl_example :: "nat excl" where
  "excl_example =
     \<lparr>object = \<lparr>monitor = Some 1, cond = []\<rparr>, inside = {1}, waiting = {}\<rparr>"

lemma excl_example_reached:
  "reach excl_step excl_init excl_example"
proof -
  have "run_steps excl_step (excl_init :: nat excl)
          [(0, Call_lock), (1, Call_trylock), (0, Call_wait), (1, Call_lock), (1, Call_notify 0),
           (1, Call_wait), (0, Call_resume), (0, Call_notify_all), (0, Call_unlock),
           (1, Call_resume)] = Some excl_example"
    by (auto simp: excl_init_def excl_example_def sync_defs cond_signal_def remove_at_def)
  then show ?thesis by (rule run_steps_reach)
qed

theorem sync_mutual_exclusion_witness:
  "reach excl_step excl_init excl_example \<and> 1 \<in> inside excl_example \<and>
   inside excl_example \<subseteq> {1}"
proof (intro conjI subsetI)
  show "reach excl_step excl_init excl_example" by (rule excl_example_reached)
  show one: "1 \<in> inside excl_example" by (simp add: excl_example_def)
  fix t assume "t \<in> inside excl_example"
  then have "t = 1" by (rule sync_mutual_exclusion [OF excl_example_reached _ one])
  then show "t \<in> {1}" by simp
qed

end
