(* ===== verification/Sync_Contract.thy ===== *)
theory Sync_Contract
  imports Synchronized
begin

text \<open>
  What single calls of \<open>Synchronized\<close> promise: the result of every locking call on every
  state of the mutex, the deadlines of the timed calls, the result of the timed wait, and the
  rounds of the destructor.
\<close>

section \<open>Locking\<close>

text \<open>
  The three locking calls on every state of the mutex.  A free mutex is taken; \<open>lock\<close> and
  \<open>lock(timeout)\<close> by the owner throw, although the comments of the class say that such a call
  succeeds; \<open>trylock\<close> by the owner is \<open>BUSY\<close> and never \<open>OWNED\<close>; on a mutex another thread owns
  \<open>lock\<close> blocks, \<open>lock(timeout)\<close> returns false at its deadline and \<open>trylock\<close> is \<open>BUSY\<close>.
\<close>
theorem sync_lock_results:
  "sync_lock s t =
     (case monitor s of
        None \<Rightarrow> Returns (True, s\<lparr>monitor := Some t\<rparr>)
      | Some u \<Rightarrow> if u = t then Throws ''lock: recursive locking detected'' else Blocked) \<and>
   sync_lock_timed expired s t =
     (case monitor s of
        None \<Rightarrow> Returns (True, s\<lparr>monitor := Some t\<rparr>)
      | Some u \<Rightarrow> if u = t then Throws ''timedlock: recursive lock detected''
                  else if expired then Returns (False, s) else Blocked) \<and>
   sync_trylock s t =
     Returns (case monitor s of None \<Rightarrow> (LOCKED, s\<lparr>monitor := Some t\<rparr>) | Some u \<Rightarrow> (BUSY, s))"
  by (simp add: sync_defs split: option.splits)

section \<open>Deadlines\<close>

lemma add_millis_window:
  assumes "valid_ts now" and "0 \<le> rest" and "rest < 1000"
    and "t = (secs * 1000 + rest) * 1000000"
  shows "time_ns (add_millis now secs rest) \<le> time_ns now + t"
    and "time_ns now + t - 1000000 < time_ns (add_millis now secs rest)"
  unfolding add_millis_time [OF assms(1-3)] assms(4)
  using nsec_millis_bounds [of "tv_nsec now"] by (simp_all add: time_ns_def algebra_simps)

lemma sint_neg_of_large:
  fixes w :: "64 word"
  assumes "\<not> uint w < 2 ^ 63"
  shows "sint w < 0"
proof -
  have "uint w div 2 ^ 63 = 1"
    using assms uint_lt2p [of w] by (intro int_div_pos_eq [of _ _ _ "uint w - 2 ^ 63"]) simp_all
  then have "bit (uint w) 63" by (simp add: bit_iff_odd)
  then have "bit w (LENGTH(64) - Suc 0)" by (simp add: bit_uint_iff)
  then show ?thesis by (simp only: bit_last_iff)
qed

lemma sdiv_neg: "(a::int) < 0 \<Longrightarrow> a sdiv 1000 \<le> 0"
  by (simp add: signed_divide_int_def pos_imp_zdiv_nonneg_iff)

text \<open>
  C10: the deadline of \<open>wait(long timeout)\<close>.  For a timeout that is not negative, from any
  valid current time, it is a time the system call accepts, it is never later than the current
  time plus the timeout, and it is less than one millisecond earlier.
\<close>
theorem wait_deadline_window:
  assumes "valid_ts now" and "0 \<le> timeout"
  shows "valid_ts (wait_deadline now timeout) \<and>
    time_ns (wait_deadline now timeout) \<le> time_ns now + timeout * 1000000 \<and>
    time_ns now + timeout * 1000000 - 1000000 < time_ns (wait_deadline now timeout)"
proof -
  have rest: "0 \<le> timeout mod 1000" "timeout mod 1000 < 1000" by simp_all
  have "timeout * 1000000 = (timeout div 1000 * 1000 + timeout mod 1000) * 1000000" by simp
  with assms rest show ?thesis
    using add_millis_window [OF assms(1) rest, of "timeout * 1000000" "timeout div 1000"]
      add_millis_valid [OF assms(1) rest(1)]
    by (simp add: wait_deadline_def sdiv_nonneg smod_nonneg)
qed

theorem wait_deadline_window_witness:
  "time_ns (wait_deadline \<lparr>tv_sec = 5, tv_nsec = 999999999\<rparr> 1501) \<le>
     time_ns \<lparr>tv_sec = 5, tv_nsec = 999999999\<rparr> + 1501 * 1000000 \<and>
   wait_deadline \<lparr>tv_sec = 5, tv_nsec = 999999999\<rparr> 1501 = \<lparr>tv_sec = 7, tv_nsec = 500000000\<rparr>"
proof -
  have "valid_ts \<lparr>tv_sec = 5, tv_nsec = 999999999\<rparr>" by (simp add: valid_ts_def)
  from wait_deadline_window [OF this, of 1501] show ?thesis
    by (simp add: wait_deadline_def add_millis_def Let_def sdiv_nonneg smod_nonneg)
qed

text \<open>
  A negative timeout is not a deadline in the past.  At the start of a second, \<open>wait(-1)\<close>
  asks for negative nanoseconds, which the system call rejects, so the call throws; only
  \<open>Lock::wait\<close> turns a negative timeout into a wait without a deadline.
\<close>
theorem wait_negative_timeout:
  "\<not> valid_ts (wait_deadline \<lparr>tv_sec = s, tv_nsec = 0\<rparr> (- 1)) \<and>
   sync_wait_timed (Some EINVAL) =
     Throws ''pthread_cond_timedwait: The cond or the mutex ot the timespec is invalid!'' \<and>
   lock_wait_deadline \<lparr>tv_sec = s, tv_nsec = 0\<rparr> (- 1) = None"
  by (simp add: wait_deadline_def add_millis_def valid_ts_def sync_wait_timed_def
      cond_timed_wait_def lock_wait_deadline_def signed_divide_int_def signed_modulo_int_def)

text \<open>
  The deadline of \<open>lock(unsigned long timeout)\<close>.  It is always a valid time.  For a
  timeout below \<open>2 ^ 63\<close> milliseconds it is in the same window as that of the timed wait; from
  there on the cast to \<open>time_t\<close> is negative and the call, asked to wait for ages, gives up
  after less than a second.
\<close>
theorem lock_deadline_window:
  assumes "valid_ts now"
  shows "valid_ts (lock_deadline now w) \<and>
    (if uint w < 2 ^ 63
     then time_ns (lock_deadline now w) \<le> time_ns now + uint w * 1000000 \<and>
          time_ns now + uint w * 1000000 - 1000000 < time_ns (lock_deadline now w)
     else time_ns (lock_deadline now w) < time_ns now + 1000000000)"
proof -
  have rest: "0 \<le> uint (w mod 1000)" "uint (w mod 1000) < 1000"
    by (simp_all add: uint_mod)
  have valid: "valid_ts (lock_deadline now w)"
    unfolding lock_deadline_def by (rule add_millis_valid [OF assms rest(1)])
  show ?thesis
  proof (cases "uint w < 2 ^ 63")
    case True
    then have "sint w = uint w"
      using order_trans [OF _ uint_ge_0, of "- (2 ^ 63)" w]
      by (simp add: sint_uint signed_take_bit_int_eq_self_iff)
    moreover have "uint w * 1000000 = (uint w div 1000 * 1000 + uint (w mod 1000)) * 1000000"
      by (simp add: uint_mod)
    ultimately show ?thesis
      using True valid add_millis_window [OF assms rest, of "uint w * 1000000" "uint w div 1000"]
      by (simp add: lock_deadline_def sdiv_nonneg)
  next
    case False
    then have "sint w < 0" by (rule sint_neg_of_large)
    then have "sint w sdiv 1000 \<le> 0" by (rule sdiv_neg)
    with False valid show ?thesis
      using add_millis_window(1) [OF assms rest refl, of "sint w sdiv 1000"] rest
      by (simp add: lock_deadline_def)
  qed
qed

theorem lock_deadline_window_witness:
  "time_ns (lock_deadline \<lparr>tv_sec = 5, tv_nsec = 0\<rparr> (2 ^ 63)) < 6000000000 \<and>
   time_ns (lock_deadline \<lparr>tv_sec = 5, tv_nsec = 0\<rparr> 1500) \<le> 6500000000"
proof -
  have "valid_ts \<lparr>tv_sec = 5, tv_nsec = 0\<rparr>" by (simp add: valid_ts_def)
  from lock_deadline_window [OF this, of "2 ^ 63"] lock_deadline_window [OF this, of 1500]
  show ?thesis by (simp add: time_ns_def)
qed

section \<open>The timed wait\<close>

text \<open>
  The result of \<open>wait(long timeout)\<close> is whether the timed wait ended with \<open>ETIMEDOUT\<close>.
  The \<open>EINVAL\<close> case of its switch is dead code, because \<open>cond_timed_wait\<close> has thrown before.
\<close>
theorem sync_wait_timed_result:
  "sync_wait_timed err =
     (if err = Some EINVAL
      then Throws ''pthread_cond_timedwait: The cond or the mutex ot the timespec is invalid!''
      else Returns (err = Some ETIMEDOUT))"
  by (auto simp: sync_wait_timed_def cond_timed_wait_def timeout_occurred_def
      split: option.splits)

section \<open>Destruction\<close>

lemma dtor_body_errors: "d_errors (dtor_body n r) \<le> n + 1"
  by (simp add: dtor_body_def split: option.splits)

lemma dtor_body_busy:
  "d_error (dtor_body n r) = Some EBUSY \<Longrightarrow> \<not> d_break (dtor_body n r) \<Longrightarrow>
   d_errors (dtor_body n r) = n + 1"
  by (auto simp: dtor_body_def split: option.splits if_splits)

lemma dtor_loop_rounds:
  "n \<le> unlock_retries \<Longrightarrow> unlock_retries < n + length rs \<Longrightarrow>
   \<exists>d. dtor_loop n rs = Some d \<and> d_errors d \<le> unlock_retries + 1"
proof (induction rs arbitrary: n)
  case Nil
  then show ?case by simp
next
  case (Cons r rs)
  let ?d = "dtor_body n r"
  show ?case
  proof (cases "d_break ?d \<or> unlock_retries < d_errors ?d \<or> d_error ?d \<noteq> Some EBUSY")
    case True
    then show ?thesis
      using dtor_body_errors [of n r] Cons.prems(1) by (auto simp: Let_def)
  next
    case False
    then have "d_errors ?d = n + 1" using dtor_body_busy by blast
    with False Cons.prems show ?thesis
      using Cons.IH [of "n + 1"] by (simp add: Let_def)
  qed
qed

text \<open>
  The destructor ends.  Whatever its library calls answer, it leaves its loop after at most
  eleven rounds, with at most eleven errors counted.
\<close>
theorem sync_destroy_ends:
  assumes "11 \<le> length rs"
  shows "\<exists>d r. dtor_loop 0 rs = Some d \<and> d_errors d \<le> 11 \<and> sync_destroy rs err = Some r"
  using dtor_loop_rounds [of 0 rs] assms by (auto simp: unlock_retries_def sync_destroy_def)

definition busy_round :: dtor_round where
  "busy_round = \<lparr>r_trylock = None, r_lock10 = True, r_destroy = Some EBUSY, r_unlock = None\<rparr>"

theorem sync_destroy_ends_witness:
  "(\<exists>d r. dtor_loop 0 (replicate 11 busy_round) = Some d \<and> d_errors d \<le> 11 \<and>
      sync_destroy (replicate 11 busy_round) None = Some r) \<and>
   dtor_loop 0 (replicate 10 busy_round) = None"
proof -
  have "11 \<le> length (replicate 11 busy_round)" by simp
  from sync_destroy_ends [OF this] show ?thesis
    by (simp add: dtor_body_def busy_round_def unlock_retries_def numeral_eq_Suc)
qed

text \<open>
  A mutex another thread holds is not waited for.  When the trylock of the first round finds
  the mutex busy and the unlock finds it foreign, the loop ends in that round although it is
  written to retry: its condition asks for \<open>EBUSY\<close> and the error is \<open>EPERM\<close>.  The destructor
  then returns with the mutex neither destroyed nor reported.
\<close>
theorem sync_destroy_foreign_owner:
  assumes "r_trylock r \<noteq> None" and "r_unlock r = Some EPERM"
  shows "sync_destroy (r # rs) None = Some (Returns False)"
  using assms by (auto simp: sync_destroy_def dtor_body_def unlock_retries_def)

theorem sync_destroy_foreign_owner_witness:
  "sync_destroy [\<lparr>r_trylock = Some EBUSY, r_lock10 = False, r_destroy = None,
                   r_unlock = Some EPERM\<rparr>] None = Some (Returns False)"
  by (rule sync_destroy_foreign_owner) simp_all

text \<open>
  In quiet surroundings the destructor works.  When nobody else holds or waits for the mutex,
  one round destroys it.
\<close>
theorem sync_destroy_quiet:
  "sync_destroy [\<lparr>r_trylock = None, r_lock10 = True, r_destroy = None, r_unlock = u\<rparr>] None =
   Some (Returns True)"
  by (simp add: sync_destroy_def dtor_body_def unlock_retries_def)

end
