(* ===== verification/Posix_Thread.thy ===== *)
theory Posix_Thread
  imports Synchronized
begin

text \<open>
  The class \<open>Thread\<close> of \<open>posix/threadpool.cpp\<close>, the list of running threads and the function
  every thread starts in.  A thread object is its status, the \<open>Runnable\<close> it was made for (itself
  when there is none), its stack size, and, as a ghost field, the number of system threads
  created for it and not joined.  What \<open>pthread_create\<close>, \<open>pthread_join\<close> and
  \<open>nanosleep\<close> answer is an argument.
\<close>

section \<open>Status and life cycle\<close>

datatype thread_status = IDLE | RUNNING | FINISHED

record thread =
  status :: thread_status
  runnable :: "nat option"
  stack_size :: nat
  unjoined :: nat

definition default_stacksize :: nat where
  "default_stacksize = 65536"

text \<open>\<open>Thread(size_t)\<close>: the thread is its own \<open>Runnable\<close>.\<close>
definition thread_new :: "nat \<Rightarrow> thread" where
  "thread_new n = \<lparr>status = IDLE, runnable = None, stack_size = n, unjoined = 0\<rparr>"

text \<open>\<open>Thread(Runnable&)\<close>\<close>
definition thread_new_for :: "nat \<Rightarrow> thread" where
  "thread_new_for r =
     \<lparr>status = IDLE, runnable = Some r, stack_size = default_stacksize, unjoined = 0\<rparr>"

definition set_stack_size :: "thread \<Rightarrow> nat \<Rightarrow> thread" where
  "set_stack_size th s = th\<lparr>stack_size := s\<rparr>"

definition is_alive :: "thread \<Rightarrow> bool" where
  "is_alive th \<longleftrightarrow> status th = RUNNING"

definition clone_thread :: "thread \<Rightarrow> thread" where
  "clone_thread th = thread_new (stack_size th)"

definition thread_start :: "errno option \<Rightarrow> thread \<Rightarrow> thread" where
  "thread_start create_err th =
     (if status th = IDLE then
        (case create_err of
           Some e \<Rightarrow> th\<lparr>status := FINISHED\<rparr>
         | None \<Rightarrow> th\<lparr>status := RUNNING, unjoined := unjoined th + 1\<rparr>)
      else th)"

definition thread_join :: "errno option \<Rightarrow> thread \<Rightarrow> thread" where
  "thread_join join_err th =
     (if status th = RUNNING then
        (case join_err of
           Some e \<Rightarrow> th\<lparr>status := FINISHED\<rparr>
         | None \<Rightarrow> th\<lparr>status := IDLE, unjoined := unjoined th - 1\<rparr>)
      else th\<lparr>status := IDLE\<rparr>)"

text \<open>\<open>~Thread\<close>\<close>
definition thread_destroy :: "errno option \<Rightarrow> thread \<Rightarrow> thread" where
  "thread_destroy join_err th =
     (if status th = RUNNING then thread_join join_err th else th)"

section \<open>The list of running threads\<close>

text \<open>\<open>ThreadList\<close>, each operation under the lock of the list.\<close>
type_synonym thread_list = "nat list"

definition tl_add :: "thread_list \<Rightarrow> nat \<Rightarrow> thread_list" where
  "tl_add l t = l @ [t]"

definition tl_remove :: "thread_list \<Rightarrow> nat \<Rightarrow> thread_list" where
  "tl_remove l t = removeAll t l"

definition tl_size :: "thread_list \<Rightarrow> nat" where
  "tl_size l = length l"

text \<open>\<open>last()\<close> on an empty list is undefined behaviour: \<open>None\<close>.\<close>
definition tl_last :: "thread_list \<Rightarrow> nat option" where
  "tl_last l = (if l = [] then None else Some (last l))"

text \<open>How a call of \<open>run()\<close> ends.\<close>
datatype run_end = Run_returns | Run_throws_std | Run_throws_other

text \<open>
  \<open>thread_starter\<close>: registers the thread, runs its \<open>Runnable\<close>, swallows what it throws,
  and unregisters it.  The lists are the registered threads while it runs and after it.
\<close>
definition thread_starter :: "thread_list \<Rightarrow> nat \<Rightarrow> run_end \<Rightarrow> thread_list \<times> thread_list" where
  "thread_starter l t e =
     (let during = tl_add l t;
          after_run = (case e of Run_returns \<Rightarrow> during | Run_throws_std \<Rightarrow> during
                       | Run_throws_other \<Rightarrow> during)
      in (during, tl_remove after_run t))"

section \<open>Sleeping\<close>

text \<open>\<open>nsleep\<close> first carries whole seconds over from the nanoseconds.\<close>
definition nsleep_interval :: "int \<Rightarrow> int \<Rightarrow> timespec" where
  "nsleep_interval secs nanos =
     \<lparr>tv_sec = secs + nanos sdiv 1000000000, tv_nsec = nanos smod 1000000000\<rparr>"

definition sleep_millis :: "int \<Rightarrow> timespec" where
  "sleep_millis millis = nsleep_interval (millis sdiv 1000) ((millis smod 1000) * 1000000)"

definition sleep_millis_nanos :: "int \<Rightarrow> int \<Rightarrow> timespec" where
  "sleep_millis_nanos millis nanos =
     nsleep_interval (millis sdiv 1000) ((millis smod 1000) * 1000000 + nanos)"

text \<open>How a call of \<open>nanosleep\<close> ends: slept through, interrupted with a remainder, or failed.\<close>
datatype nanosleep_end = Slept | Interrupted timespec | Failed errno

text \<open>
  The loop of \<open>nsleep\<close> over the ends of its calls, with the intervals it asks for; \<open>None\<close> when
  the ends given run out while it is still asleep.
\<close>
fun nsleep_loop :: "timespec \<Rightarrow> nanosleep_end list \<Rightarrow> timespec list option" where
  "nsleep_loop interval [] = None"
| "nsleep_loop interval (Slept # es) = Some [interval]"
| "nsleep_loop interval (Failed e # es) = Some [interval]"
| "nsleep_loop interval (Interrupted remainder # es) =
     map_option (Cons interval) (nsleep_loop remainder es)"

section \<open>Lemmas\<close>

lemmas thread_defs = thread_new_def thread_new_for_def set_stack_size_def is_alive_def
  clone_thread_def thread_start_def thread_join_def thread_destroy_def

text \<open>The calls a thread object may see, with the answer of the system.\<close>
datatype thread_call = Do_start "errno option" | Do_join "errno option" | Do_stack nat

fun thread_call_step :: "thread \<Rightarrow> thread_call \<Rightarrow> thread option" where
  "thread_call_step th (Do_start e) = Some (thread_start e th)"
| "thread_call_step th (Do_join e) = (if e = None then Some (thread_join None th) else None)"
| "thread_call_step th (Do_stack n) = Some (set_stack_size th n)"

definition thread_inv :: "thread \<Rightarrow> bool" where
  "thread_inv th \<longleftrightarrow> unjoined th = (if status th = RUNNING then 1 else 0)"

lemma thread_inv_step: "thread_inv th \<Longrightarrow> thread_call_step th c = Some th' \<Longrightarrow> thread_inv th'"
  by (cases c) (auto simp: thread_inv_def thread_defs split: if_splits option.splits)

interpretation thread_life: step_invariant thread_call_step thread_inv
  by unfold_locales (rule thread_inv_step)

text \<open>
  No system thread is lost or joined twice.  However often a thread object is started and
  joined, whether or not the system grants a new thread, it has at most one thread that is not
  joined, it has one exactly while it says it is alive, and its destructor leaves none.
\<close>
theorem thread_joined_once:
  assumes "reach thread_call_step (thread_new n) th"
  shows "unjoined th = (if is_alive th then 1 else 0) \<and> unjoined (thread_destroy None th) = 0"
proof -
  have "thread_inv (thread_new n)" by (simp add: thread_inv_def thread_new_def)
  with assms have "thread_inv th" by (rule thread_life.inv_reach)
  then show ?thesis by (auto simp: thread_inv_def thread_defs)
qed

theorem thread_joined_once_witness:
  "unjoined (thread_destroy None (thread_start None (thread_join None (thread_new 4)))) = 0"
proof -
  have "run_steps thread_call_step (thread_new 4) [Do_join None, Do_start None] =
        Some (thread_start None (thread_join None (thread_new 4)))" by simp
  from thread_joined_once [OF run_steps_reach [OF this]] show ?thesis by simp
qed

text \<open>
  A thread that could not be created is not alive, cannot be started again before a join,
  and is startable after it.
\<close>
theorem thread_start_failed:
  "\<not> is_alive (thread_start (Some e) (thread_new n)) \<and>
   thread_start a (thread_start (Some e) (thread_new n)) = thread_start (Some e) (thread_new n) \<and>
   is_alive (thread_start None (thread_join b (thread_start (Some e) (thread_new n))))"
  by (simp add: thread_defs)

text \<open>
  The list of running threads.  A thread is registered while its \<open>run\<close> executes and is
  not registered afterwards, however \<open>run\<close> ends; the other entries stay as they were.
\<close>
theorem thread_starter_registers:
  "thread_starter l t e = (tl_add l t, tl_remove l t) \<and>
   t \<in> set (fst (thread_starter l t e)) \<and> t \<notin> set (snd (thread_starter l t e)) \<and>
   (\<forall>u. u \<noteq> t \<longrightarrow> count_list (snd (thread_starter l t e)) u = count_list l u)"
proof -
  have "u \<noteq> t \<Longrightarrow> count_list (removeAll t l) u = count_list l u" for u
    by (induction l) auto
  then show ?thesis
    by (cases e) (simp_all add: thread_starter_def tl_add_def tl_remove_def)
qed

theorem thread_starter_registers_witness:
  "thread_starter [7, 8] 9 Run_throws_other = ([7, 8, 9], [7, 8]) \<and>
   count_list (snd (thread_starter [7, 8] 9 Run_throws_other)) 8 = 1"
  using thread_starter_registers [of "[7, 8]" 9 Run_throws_other]
  by (simp add: tl_add_def tl_remove_def)

text \<open>
  A sleep asks for the time it was given.  For times that are not negative the interval
  passed to \<open>nanosleep\<close> is valid and is exactly the milliseconds plus the nanoseconds.
\<close>
theorem sleep_interval_exact:
  assumes "0 \<le> millis" and "0 \<le> nanos"
  shows "valid_ts (sleep_millis_nanos millis nanos) \<and>
    time_ns (sleep_millis_nanos millis nanos) = millis * 1000000 + nanos \<and>
    valid_ts (sleep_millis millis) \<and> time_ns (sleep_millis millis) = millis * 1000000"
proof -
  have split: "(millis mod 1000) * 1000000 + (millis div 1000) * 1000000000 =
      millis * 1000000"
    using div_mult_mod_eq [of millis 1000] by linarith
  have pos: "0 \<le> (millis mod 1000) * 1000000 + nanos" "0 \<le> (millis mod 1000) * 1000000"
    using assms by simp_all
  have carry: "(x div 1000000000) * 1000000000 + x mod 1000000000 = x" for x :: int by simp
  show ?thesis
    using assms pos split carry [of "(millis mod 1000) * 1000000 + nanos"]
      carry [of "(millis mod 1000) * 1000000"]
    by (simp add: sleep_millis_nanos_def sleep_millis_def nsleep_interval_def valid_ts_def
        time_ns_def sdiv_nonneg smod_nonneg algebra_simps)
qed

theorem sleep_interval_exact_witness:
  "time_ns (sleep_millis_nanos 2500 999999) = 2500999999 \<and>
   sleep_millis_nanos 2500 999999 = \<lparr>tv_sec = 2, tv_nsec = 500999999\<rparr>"
proof -
  have "(0::int) \<le> 2500" and "(0::int) \<le> 999999" by simp_all
  from sleep_interval_exact [OF this] show ?thesis
    by (simp add: sleep_millis_nanos_def nsleep_interval_def sdiv_nonneg smod_nonneg)
qed

text \<open>What an interrupted sleep still has to sleep, as the system reports it.\<close>
fun remainders_ok :: "timespec \<Rightarrow> nanosleep_end list \<Rightarrow> bool" where
  "remainders_ok i [] = True"
| "remainders_ok i (Interrupted r # es) = (time_ns r \<le> time_ns i \<and> remainders_ok r es)"
| "remainders_ok i (_ # es) = True"

text \<open>
  An interrupted sleep goes on with the remainder.  A sleep that is interrupted any number
  of times and then slept through asks once per interruption and once more, for the remainders
  in their order, and never for more than the first interval.
\<close>
theorem nsleep_resumes:
  assumes "remainders_ok i (map Interrupted rs @ [Slept])"
  shows "nsleep_loop i (map Interrupted rs @ Slept # es) = Some (i # rs) \<and>
    (\<forall>r \<in> set rs. time_ns r \<le> time_ns i)"
  using assms
proof (induction rs arbitrary: i)
  case Nil
  then show ?case by simp
next
  case (Cons r rs)
  then have "time_ns r \<le> time_ns i" and "remainders_ok r (map Interrupted rs @ [Slept])"
    by simp_all
  with Cons.IH [of r] show ?case by auto
qed

theorem nsleep_resumes_witness:
  "nsleep_loop \<lparr>tv_sec = 2, tv_nsec = 0\<rparr> [Interrupted \<lparr>tv_sec = 1, tv_nsec = 5\<rparr>, Slept] =
   Some [\<lparr>tv_sec = 2, tv_nsec = 0\<rparr>, \<lparr>tv_sec = 1, tv_nsec = 5\<rparr>]"
proof -
  have "remainders_ok \<lparr>tv_sec = 2, tv_nsec = 0\<rparr>
          (map Interrupted [\<lparr>tv_sec = 1, tv_nsec = 5\<rparr>] @ [Slept])"
    by (simp add: time_ns_def)
  from nsleep_resumes [OF this, of "[]"] show ?thesis by simp
qed

end
