(* ===== verification/Task_Host.thy ===== *)
theory Task_Host
  imports Prelude
begin

text \<open>
  The contract between a thread pool and its task managers, stated once for both variants of
  the library: what a task manager holds, what its worker reports, and that handing a task over
  and one step of the worker neither lose nor duplicate a task.  The pools account for their
  tasks with the lemmas of the locale \<open>task_host\<close>; each variant's task manager is an
  interpretation of it.
\<close>

type_synonym task = nat

text \<open>What a step of a worker does outside its task manager.\<close>
datatype worker_event =
  Ev_none | Ev_started task | Ev_finished task | Ev_idle | Ev_discarded "task ptr"

fun ev_started :: "worker_event \<Rightarrow> task multiset" where
  "ev_started (Ev_started t) = {#t#}"
| "ev_started _ = {#}"

fun ev_finished :: "worker_event \<Rightarrow> task multiset" where
  "ev_finished (Ev_finished t) = {#t#}"
| "ev_finished _ = {#}"

fun ev_discarded :: "worker_event \<Rightarrow> task multiset" where
  "ev_discarded (Ev_discarded p) = ptr_tasks p"
| "ev_discarded _ = {#}"

text \<open>
  \<open>wf w h\<close>: the task manager \<open>h\<close> of the thread \<open>w\<close> is in a state it can be in; \<open>held h\<close> the
  task in its slot; \<open>running h\<close> the task its worker is executing.
\<close>
locale task_host =
  fixes wf :: "'w \<Rightarrow> 'h \<Rightarrow> bool"
    and held :: "'h \<Rightarrow> task multiset"
    and running :: "'h \<Rightarrow> task multiset"
    and offer :: "nat \<Rightarrow> 'w \<Rightarrow> task ptr \<Rightarrow> 'h \<Rightarrow> (bool \<times> 'h) outcome"
    and step :: "'w \<Rightarrow> 'e \<Rightarrow> 'h \<Rightarrow> ('h \<times> worker_event) option"
  assumes offer_taken:
      "offer k c t h = Returns (True, h') \<Longrightarrow> held h = {#} \<and> held h' = ptr_tasks t"
    and offer_refused: "offer k c t h = Returns (False, h') \<Longrightarrow> held h' = held h"
    and offer_running: "wf w h \<Longrightarrow> offer k c t h = Returns (b, h') \<Longrightarrow> running h' = running h"
    and running_held: "running h \<subseteq># held h"
    and step_held:
      "wf w h \<Longrightarrow> step w e h = Some (h', ev) \<Longrightarrow>
       held h = held h' + ev_finished ev + ev_discarded ev"
    and step_running:
      "wf w h \<Longrightarrow> step w e h = Some (h', ev) \<Longrightarrow>
       running h + ev_started ev = running h' + ev_finished ev"
begin

lemma taken_owned:
  "i < length hs \<Longrightarrow> offer k c t (hs ! i) = Returns (True, h') \<Longrightarrow>
   owned held (hs[i := h']) = owned held hs + ptr_tasks t"
  by (rule owned_update_add) (auto dest: offer_taken)

lemma refused_owned:
  "i < length hs \<Longrightarrow> offer k c t (hs ! i) = Returns (False, h') \<Longrightarrow>
   owned held (hs[i := h']) = owned held hs"
  by (rule owned_update_same) (auto dest: offer_refused)

lemma offer_owned_running:
  "i < length hs \<Longrightarrow> wf w (hs ! i) \<Longrightarrow> offer k c t (hs ! i) = Returns (b, h') \<Longrightarrow>
   owned running (hs[i := h']) = owned running hs"
  by (rule owned_update_same) (auto dest: offer_running)

lemma step_owned:
  assumes "i < length hs" and "wf w (hs ! i)" and "step w e (hs ! i) = Some (h', ev)"
  shows "owned held (hs[i := h']) + (ev_finished ev + ev_discarded ev) = owned held hs"
  using step_held [OF assms(2,3)] assms(1) by (intro owned_update_sub) (simp_all add: add.assoc)

lemma step_owned_running:
  assumes "i < length hs" and "wf w (hs ! i)" and "step w e (hs ! i) = Some (h', ev)"
  shows "owned running (hs[i := h']) + ev_finished ev = owned running hs + ev_started ev"
proof -
  have "owned running (hs[i := h']) + ev_finished ev + running h' =
        owned running (hs[i := h']) + (running (hs ! i) + ev_started ev)"
    using step_running [OF assms(2,3)] by (simp only: ac_simps)
  also have "\<dots> = owned running hs + running h' + ev_started ev"
    using owned_update [OF assms(1), of running h'] by (simp only: add.assoc [symmetric])
  finally show ?thesis by (simp add: ac_simps)
qed

lemma running_owned: "owned running hs \<subseteq># owned held hs"
  by (induction hs) (auto intro: subset_mset.add_mono running_held)

end

end
