(* ===== verification/Task_Manager.thy ===== *)
theory Task_Manager
  imports Posix_Thread Task_Host
begin

text \<open>
  The class \<open>TaskManager\<close> of \<open>posix/threadpool.cpp\<close>: a worker thread with a slot for one
  task.  The functions other threads call are one critical section each, so each is one step,
  enabled when the lock is free.  The worker's own function \<open>run\<close> keeps the lock while it runs
  a task and gives it up in its waits only; it is a state machine over the locations of
  \<open>worker_pc\<close>, and \<open>worker_step\<close> is one step of it, together with what the pool sees of the
  step.  A task is a number; the null pointer is a value of the slot like any other.
\<close>

section \<open>State\<close>

text \<open>The threads: the worker of the task manager at an index, a client, the dispatcher.\<close>
datatype tid = Worker nat | Client nat | Dispatcher

text \<open>
  Where the worker is in \<open>run\<close>: before the lock, at the outer loop, inside \<open>task->run()\<close>,
  before \<open>idle_notification\<close>, at the inner loop, asleep in \<open>wait\<close>, after the outer loop,
  returned; or thrown out of it.
\<close>
datatype worker_pc =
  W_enter | W_while | W_run | W_notify | W_inner | W_asleep | W_exit | W_done | W_threw

record task_manager =
  tm_sync :: "tid sync"
  tm_thread :: thread
  tm_task :: "task ptr"
  tm_go :: bool
  tm_pc :: worker_pc

section \<open>The functions other threads call\<close>

text \<open>A critical section: \<open>body\<close> between the constructor and the destructor of a \<open>Lock\<close>.\<close>
definition locked ::
  "'t sync \<Rightarrow> 't \<Rightarrow> ('t sync \<Rightarrow> 'a \<times> 't sync) \<Rightarrow> ('a \<times> 't sync) outcome" where
  "locked s t body =
     (case lock_enter s t of
        Returns s1 \<Rightarrow> (let (a, s2) = body s1 in Returns (a, lock_leave s2 t))
      | Throws msg \<Rightarrow> Throws msg
      | Blocked \<Rightarrow> Blocked)"

text \<open>The constructor; the thread starts unless the system refuses it.\<close>
definition tm_construct :: "errno option \<Rightarrow> nat \<Rightarrow> task_manager" where
  "tm_construct create_err n =
     (let th = thread_start create_err (set_stack_size (thread_new_for 0) n)
      in \<lparr>tm_sync = new_sync, tm_thread = th, tm_task = None, tm_go = True,
          tm_pc = (if is_alive th then W_enter else W_done)\<rparr>)"

definition tm_is_idle :: "tid \<Rightarrow> task_manager \<Rightarrow> bool outcome" where
  "tm_is_idle c tm =
     (case locked (tm_sync tm) c (\<lambda>s. (tm_task tm = None \<and> is_alive (tm_thread tm), s)) of
        Returns (b, s) \<Rightarrow> Returns b
      | Throws msg \<Rightarrow> Throws msg
      | Blocked \<Rightarrow> Blocked)"

definition tm_set_task ::
  "nat \<Rightarrow> tid \<Rightarrow> task ptr \<Rightarrow> task_manager \<Rightarrow> (bool \<times> task_manager) outcome" where
  "tm_set_task k c t tm =
     (case locked (tm_sync tm) c
             (\<lambda>s. if tm_task tm = None then ((True, t), sync_notify k s)
                  else ((False, tm_task tm), s)) of
        Returns ((ok, t'), s) \<Rightarrow> Returns (ok, tm\<lparr>tm_task := t', tm_sync := s\<rparr>)
      | Throws msg \<Rightarrow> Throws msg
      | Blocked \<Rightarrow> Blocked)"

definition tm_stop :: "tid \<Rightarrow> task_manager \<Rightarrow> task_manager outcome" where
  "tm_stop c tm =
     (case locked (tm_sync tm) c (\<lambda>s. (False, s)) of
        Returns (go, s) \<Rightarrow> Returns (tm\<lparr>tm_go := go, tm_sync := s\<rparr>)
      | Throws msg \<Rightarrow> Throws msg
      | Blocked \<Rightarrow> Blocked)"

text \<open>\<open>~TaskManager\<close> up to the join, and the join, which waits until \<open>run\<close> has returned.\<close>
definition tm_destroy_begin :: "nat \<Rightarrow> tid \<Rightarrow> task_manager \<Rightarrow> task_manager outcome" where
  "tm_destroy_begin k c tm =
     (case locked (tm_sync tm) c (\<lambda>s. (False, sync_notify k s)) of
        Returns (go, s) \<Rightarrow> Returns (tm\<lparr>tm_go := go, tm_sync := s\<rparr>)
      | Throws msg \<Rightarrow> Throws msg
      | Blocked \<Rightarrow> Blocked)"

definition tm_destroy_join :: "task_manager \<Rightarrow> task_manager outcome" where
  "tm_destroy_join tm =
     (if is_alive (tm_thread tm) \<and> tm_pc tm \<noteq> W_done then Blocked
      else Returns (tm\<lparr>tm_thread := thread_join None (tm_thread tm)\<rparr>))"

section \<open>The worker\<close>

text \<open>
  One step of \<open>TaskManager::run\<close> on the thread \<open>w\<close>.  The argument \<open>e\<close> is how the task's
  \<open>run\<close> ends: whatever it throws is caught, and the task is deleted in any case.
\<close>
definition worker_step ::
  "tid \<Rightarrow> run_end \<Rightarrow> task_manager \<Rightarrow> (task_manager \<times> worker_event) option" where
  "worker_step w e tm =
     (case tm_pc tm of
        W_enter \<Rightarrow>
          (case lock_enter (tm_sync tm) w of
             Returns s \<Rightarrow> Some (tm\<lparr>tm_sync := s, tm_pc := W_while\<rparr>, Ev_none)
           | Throws _ \<Rightarrow> Some (tm\<lparr>tm_pc := W_threw\<rparr>, Ev_none)
           | Blocked \<Rightarrow> None)
      | W_while \<Rightarrow>
          (if tm_go tm then
             (case tm_task tm of
                Some t \<Rightarrow> Some (tm\<lparr>tm_pc := W_run\<rparr>, Ev_started t)
              | None \<Rightarrow> Some (tm\<lparr>tm_pc := W_inner\<rparr>, Ev_none))
           else Some (tm\<lparr>tm_pc := W_exit\<rparr>, Ev_none))
      | W_run \<Rightarrow>
          (case tm_task tm of
             Some t \<Rightarrow>
               (case e of
                  Run_returns \<Rightarrow> Some (tm\<lparr>tm_task := None, tm_pc := W_notify\<rparr>, Ev_finished t)
                | Run_throws_std \<Rightarrow>
                    Some (tm\<lparr>tm_task := None, tm_pc := W_notify\<rparr>, Ev_finished t)
                | Run_throws_other \<Rightarrow>
                    Some (tm\<lparr>tm_task := None, tm_pc := W_notify\<rparr>, Ev_finished t))
           | None \<Rightarrow> None)
      | W_notify \<Rightarrow> Some (tm\<lparr>tm_pc := W_inner\<rparr>, Ev_idle)
      | W_inner \<Rightarrow>
          (if tm_go tm \<and> tm_task tm = None then
             (case sync_wait None (tm_sync tm) w of
                Returns (asleep, s) \<Rightarrow>
                  Some (tm\<lparr>tm_sync := s, tm_pc := (if asleep then W_asleep else W_inner)\<rparr>,
                        Ev_none)
              | Throws _ \<Rightarrow> Some (tm\<lparr>tm_pc := W_threw\<rparr>, Ev_none)
              | Blocked \<Rightarrow> None)
           else Some (tm\<lparr>tm_pc := W_while\<rparr>, Ev_none))
      | W_asleep \<Rightarrow>
          (case sync_resume (tm_sync tm) w of
             Returns s \<Rightarrow> Some (tm\<lparr>tm_sync := s, tm_pc := W_inner\<rparr>, Ev_none)
           | Throws _ \<Rightarrow> Some (tm\<lparr>tm_pc := W_threw\<rparr>, Ev_none)
           | Blocked \<Rightarrow> None)
      | W_exit \<Rightarrow>
          Some (tm\<lparr>tm_task := None, tm_sync := lock_leave (tm_sync tm) w, tm_pc := W_done\<rparr>,
                Ev_discarded (tm_task tm))
      | W_done \<Rightarrow> None
      | W_threw \<Rightarrow> None)"

text \<open>The worker is woken without a notification.\<close>
definition worker_spurious :: "tid \<Rightarrow> task_manager \<Rightarrow> task_manager" where
  "worker_spurious w tm = tm\<lparr>tm_sync := sync_spurious (tm_sync tm) w\<rparr>"

section \<open>The invariant of a task manager\<close>

text \<open>Where the worker holds the lock.\<close>
definition worker_holds :: "worker_pc \<Rightarrow> bool" where
  "worker_holds pc \<longleftrightarrow> pc \<in> {W_while, W_run, W_notify, W_inner, W_exit}"

text \<open>
  Between the steps only the worker can hold the lock, and it holds it exactly at those
  locations; nobody but the worker sleeps on the condition, and when it sleeps there the slot is
  empty.
\<close>
definition tm_inv :: "tid \<Rightarrow> task_manager \<Rightarrow> bool" where
  "tm_inv w tm \<longleftrightarrow>
     monitor (tm_sync tm) = (if worker_holds (tm_pc tm) then Some w else None) \<and>
     (cond (tm_sync tm) = [] \<or>
      cond (tm_sync tm) = [w] \<and> tm_pc tm = W_asleep \<and> tm_task tm = None) \<and>
     (tm_pc tm = W_run \<longrightarrow> tm_task tm \<noteq> None) \<and>
     (tm_pc tm = W_notify \<longrightarrow> tm_task tm = None) \<and>
     (tm_pc tm = W_exit \<longrightarrow> \<not> tm_go tm) \<and>
     tm_pc tm \<noteq> W_threw"

text \<open>The task in the slot, and the task the worker executes.\<close>
definition tm_held :: "task_manager \<Rightarrow> task multiset" where
  "tm_held tm = ptr_tasks (tm_task tm)"

definition tm_running :: "task_manager \<Rightarrow> task multiset" where
  "tm_running tm = (if tm_pc tm = W_run then ptr_tasks (tm_task tm) else {#})"

lemmas tm_defs = tm_inv_def tm_held_def tm_running_def worker_holds_def

lemma locked_Returns_iff:
  "locked s t body = Returns (a, s') \<longleftrightarrow>
   monitor s = None \<and> a = fst (body (s\<lparr>monitor := Some t\<rparr>)) \<and>
   s' = lock_leave (snd (body (s\<lparr>monitor := Some t\<rparr>))) t"
  by (auto simp: locked_def split: outcome.splits prod.splits)

lemma locked_Blocked_iff:
  "locked s t body = Blocked \<longleftrightarrow> (\<exists>u. monitor s = Some u \<and> u \<noteq> t)"
  by (auto simp: locked_def split: outcome.splits prod.splits)

lemma locked_Throws_iff:
  "locked s t body = Throws msg \<longleftrightarrow>
   monitor s = Some t \<and> msg = ''lock: recursive locking detected''"
  by (auto simp: locked_def split: outcome.splits prod.splits)

lemma leave_after_enter [simp]: "lock_leave (s\<lparr>monitor := Some t\<rparr>) t = s\<lparr>monitor := None\<rparr>"
  by (simp add: lock_leave_own)

lemma leave_after_notify [simp]:
  "lock_leave (sync_notify k (s\<lparr>monitor := Some t\<rparr>)) t =
   s\<lparr>monitor := None, cond := cond_signal k (cond s)\<rparr>"
  by (simp add: lock_leave_own sync_notify_def)

lemma same_monitor [simp]: "monitor s = None \<Longrightarrow> s\<lparr>monitor := None\<rparr> = s"
  by simp

lemma tm_is_idle_Returns_iff:
  "tm_is_idle c tm = Returns b \<longleftrightarrow>
   monitor (tm_sync tm) = None \<and> b = (tm_task tm = None \<and> is_alive (tm_thread tm))"
  by (auto simp: tm_is_idle_def locked_def split: outcome.splits)

lemma tm_set_task_Returns_iff:
  "tm_set_task k c t tm = Returns (b, tm') \<longleftrightarrow>
   monitor (tm_sync tm) = None \<and> b = (tm_task tm = None) \<and>
   tm' = (if tm_task tm = None
          then tm\<lparr>tm_task := t,
                  tm_sync := (tm_sync tm)\<lparr>cond := cond_signal k (cond (tm_sync tm))\<rparr>\<rparr>
          else tm)"
  by (auto simp: tm_set_task_def locked_def split: outcome.splits if_splits)

lemma tm_stop_Returns_iff:
  "tm_stop c tm = Returns tm' \<longleftrightarrow>
   monitor (tm_sync tm) = None \<and> tm' = tm\<lparr>tm_go := False\<rparr>"
  by (auto simp: tm_stop_def locked_def split: outcome.splits)

lemma tm_destroy_begin_Returns_iff:
  "tm_destroy_begin k c tm = Returns tm' \<longleftrightarrow>
   monitor (tm_sync tm) = None \<and>
   tm' = tm\<lparr>tm_go := False,
            tm_sync := (tm_sync tm)\<lparr>cond := cond_signal k (cond (tm_sync tm))\<rparr>\<rparr>"
  by (auto simp: tm_destroy_begin_def locked_def split: outcome.splits)

lemmas tm_calls = tm_is_idle_Returns_iff tm_set_task_Returns_iff tm_stop_Returns_iff
  tm_destroy_begin_Returns_iff

section \<open>Every operation keeps the invariant\<close>

lemma alive_started [simp]:
  "is_alive (thread_start err (set_stack_size (thread_new_for r) n)) \<longleftrightarrow> err = None"
  by (simp add: thread_defs split: option.splits)

lemma tm_inv_construct: "tm_inv w (tm_construct err n)"
  by (simp add: tm_construct_def tm_defs)

lemma tm_construct_fields [simp]:
  "tm_task (tm_construct err n) = None" "tm_go (tm_construct err n)"
  "monitor (tm_sync (tm_construct err n)) = None"
  "tm_held (tm_construct err n) = {#}" "tm_running (tm_construct err n) = {#}"
  by (simp_all add: tm_construct_def tm_defs)

lemma tm_inv_free: "tm_inv w tm \<Longrightarrow> monitor (tm_sync tm) = None \<longleftrightarrow> \<not> worker_holds (tm_pc tm)"
  by (simp add: tm_inv_def)

lemma tm_inv_owner: "tm_inv w tm \<Longrightarrow> monitor (tm_sync tm) = Some u \<Longrightarrow> u = w"
  by (simp add: tm_inv_def split: if_splits)

lemma tm_inv_set_task:
  "tm_inv w tm \<Longrightarrow> tm_set_task k c t tm = Returns (b, tm') \<Longrightarrow> tm_inv w tm'"
  by (auto simp: tm_set_task_Returns_iff tm_defs split: if_splits)

lemma tm_inv_stop: "tm_inv w tm \<Longrightarrow> tm_stop c tm = Returns tm' \<Longrightarrow> tm_inv w tm'"
  by (auto simp: tm_stop_Returns_iff tm_defs split: if_splits)

lemma tm_inv_destroy_begin:
  "tm_inv w tm \<Longrightarrow> tm_destroy_begin k c tm = Returns tm' \<Longrightarrow>
   tm_inv w tm' \<and> cond (tm_sync tm') = [] \<and> \<not> tm_go tm'"
  by (auto simp: tm_destroy_begin_Returns_iff tm_defs split: if_splits)

lemma tm_inv_thread [simp]: "tm_inv w (tm\<lparr>tm_thread := th\<rparr>) \<longleftrightarrow> tm_inv w tm"
  by (simp add: tm_inv_def)

lemma tm_destroy_join_Returns_iff:
  "tm_destroy_join tm = Returns tm' \<longleftrightarrow>
   (is_alive (tm_thread tm) \<longrightarrow> tm_pc tm = W_done) \<and>
   tm' = tm\<lparr>tm_thread := thread_join None (tm_thread tm)\<rparr>"
  unfolding tm_destroy_join_def by (cases "is_alive (tm_thread tm) \<and> tm_pc tm \<noteq> W_done") auto

lemma worker_wait [simp]:
  "monitor s = Some w \<Longrightarrow>
   sync_wait None s w = Returns (True, s\<lparr>monitor := None, cond := cond s @ [w]\<rparr>)"
  by (rule sync_wait_own)

text \<open>One step of a worker, location by location.\<close>

lemma sync_resume_cases:
  "sync_resume s t =
     (if t \<notin> set (cond s) \<and> monitor s = None then Returns (s\<lparr>monitor := Some t\<rparr>) else Blocked)"
  by (auto simp: sync_resume_def split: option.splits)

lemma lock_enter_cases:
  "lock_enter s t =
     (case monitor s of
        None \<Rightarrow> Returns (s\<lparr>monitor := Some t\<rparr>)
      | Some u \<Rightarrow> if u = t then Throws ''lock: recursive locking detected'' else Blocked)"
  by (auto simp: sync_defs split: option.splits)

lemma tm_inv_step:
  assumes inv: "tm_inv w tm" and step: "worker_step w e tm = Some (tm', ev)"
  shows "tm_inv w tm'"
proof (cases "tm_pc tm")
  case W_inner
  then show ?thesis
    using inv step by (auto simp: worker_step_def tm_defs split: if_splits)
next
  case W_exit
  then show ?thesis
    using inv step by (auto simp: worker_step_def tm_defs lock_leave_own)
qed (use inv step in \<open>auto simp: worker_step_def tm_defs sync_resume_cases lock_enter_cases
       split: if_splits option.splits run_end.splits\<close>)

lemma tm_inv_spurious: "tm_inv w tm \<Longrightarrow> tm_inv w (worker_spurious w tm)"
  by (auto simp: worker_spurious_def tm_defs sync_spurious_def cond_spurious_def split: if_splits)

section \<open>What a task manager promises the pool\<close>

text \<open>The worker never asks to stop, and while asked not to stop it discards nothing.\<close>

lemma worker_step_go:
  "tm_inv w tm \<Longrightarrow> worker_step w e tm = Some (tm', ev) \<Longrightarrow>
   tm_go tm' = tm_go tm \<and> tm_thread tm' = tm_thread tm \<and> (tm_go tm \<longrightarrow> ev_discarded ev = {#})"
  by (cases "tm_pc tm")
    (auto simp: worker_step_def tm_defs sync_resume_cases lock_enter_cases
       split: if_splits option.splits run_end.splits)

lemma worker_step_stopping:
  "tm_inv w tm \<Longrightarrow> worker_step w e tm = Some (tm', ev) \<Longrightarrow> \<not> tm_go tm \<Longrightarrow>
   cond (tm_sync tm) = [] \<Longrightarrow> cond (tm_sync tm') = []"
  by (cases "tm_pc tm")
    (auto simp: worker_step_def tm_defs sync_resume_cases lock_enter_cases lock_leave_own
       split: if_splits option.splits run_end.splits)

text \<open>
  A worker is stuck only when it has returned, or is asleep on its condition, or another thread
  is inside its lock; between steps no other thread is.
\<close>
lemma worker_step_enabled:
  "tm_inv w tm \<Longrightarrow> tm_pc tm \<noteq> W_done \<Longrightarrow> cond (tm_sync tm) = [] \<Longrightarrow>
   \<exists>tm' ev. worker_step w e tm = Some (tm', ev)"
  by (cases "tm_pc tm"; cases e)
    (auto simp: worker_step_def tm_defs sync_resume_cases lock_enter_cases
       split: option.splits)

interpretation posix_host: task_host tm_inv tm_held tm_running tm_set_task worker_step
proof
  fix k c t h h'
  assume "tm_set_task k c t h = Returns (True, h')"
  then show "tm_held h = {#} \<and> tm_held h' = ptr_tasks t"
    by (auto simp: tm_set_task_Returns_iff tm_held_def)
next
  fix k c t h h'
  assume "tm_set_task k c t h = Returns (False, h')"
  then show "tm_held h' = tm_held h"
    by (auto simp: tm_set_task_Returns_iff tm_held_def)
next
  fix w h k c t b h'
  assume "tm_inv w h" and "tm_set_task k c t h = Returns (b, h')"
  then show "tm_running h' = tm_running h"
    by (auto simp: tm_set_task_Returns_iff tm_defs split: if_splits)
next
  fix h
  show "tm_running h \<subseteq># tm_held h" by (simp add: tm_running_def tm_held_def)
next
  fix w h e h' ev
  assume "tm_inv w h" and "worker_step w e h = Some (h', ev)"
  then show "tm_held h = tm_held h' + ev_finished ev + ev_discarded ev"
    by (cases "tm_pc h")
      (auto simp: worker_step_def tm_defs sync_resume_cases lock_enter_cases
         split: if_splits option.splits run_end.splits)
next
  fix w h e h' ev
  assume "tm_inv w h" and "worker_step w e h = Some (h', ev)"
  then show "tm_running h + ev_started ev = tm_running h' + ev_finished ev"
    by (cases "tm_pc h")
      (auto simp: worker_step_def tm_defs sync_resume_cases lock_enter_cases
         split: if_splits option.splits run_end.splits)
qed

end
