(* ===== verification/Thread_Pool.thy ===== *)
theory Thread_Pool
  imports Task_Manager
begin

text \<open>
  The class \<open>ThreadPool\<close> of \<open>posix/threadpool.cpp\<close> with its task managers and any number of
  client threads.  A client inside a member function is a program counter; \<open>pool_step\<close> runs one
  step of a client or of a worker, so that an execution of the pool is any interleaving of them.
  Five ghost fields record what became of the tasks.  A client that has returned from a call may
  make any other.  Destroying a task manager is part of \<open>terminate\<close>; its entry of the list stays
  until the list is cleared, as in the code, and only the client inside the lock looks at it.
\<close>

section \<open>State\<close>

text \<open>Where \<open>execute\<close> is.\<close>
datatype execute_pc = X_enter | X_head | X_scan nat | X_set nat | X_wait | X_asleep

text \<open>The two queries, and where they are.\<close>
datatype query = Q_is_idle | Q_is_busy

datatype query_pc = Q_enter | Q_head | Q_scan nat

text \<open>Where \<open>terminate\<close> is.\<close>
datatype term_pc = T_enter | T_stop nat | T_delete nat | T_join nat | T_clear

text \<open>A client: outside the pool with the answer of its last query, inside a call, or thrown out.\<close>
datatype client_pc =
  C_outside "bool option"
| C_execute "task ptr" execute_pc
| C_query query query_pc
| C_terminate term_pc
| C_threw

record pool =
  p_sync :: "tid sync"
  p_tasks :: "task_manager list"
  p_stack :: nat
  p_clients :: "client_pc list"
  p_submitted :: "task multiset"
  p_started :: "task multiset"
  p_finished :: "task multiset"
  p_discarded :: "task multiset"
  p_terminating :: bool

definition set_client :: "nat \<Rightarrow> client_pc \<Rightarrow> pool \<Rightarrow> pool" where
  "set_client j pc p = p\<lparr>p_clients := (p_clients p)[j := pc]\<rparr>"

definition set_manager :: "nat \<Rightarrow> task_manager \<Rightarrow> pool \<Rightarrow> pool" where
  "set_manager i tm p = p\<lparr>p_tasks := (p_tasks p)[i := tm]\<rparr>"

definition set_sync :: "tid sync \<Rightarrow> pool \<Rightarrow> pool" where
  "set_sync s p = p\<lparr>p_sync := s\<rparr>"

text \<open>The constructors: \<open>errs i\<close> is what the creation of the \<open>i\<close>-th thread reports.\<close>
definition pool_construct_stack ::
  "(nat \<Rightarrow> errno option) \<Rightarrow> nat \<Rightarrow> nat \<Rightarrow> nat \<Rightarrow> pool" where
  "pool_construct_stack errs n_threads stack n_clients =
     \<lparr>p_sync = new_sync, p_tasks = map (\<lambda>i. tm_construct (errs i) stack) [0..<n_threads],
      p_stack = stack, p_clients = replicate n_clients (C_outside None),
      p_submitted = {#}, p_started = {#}, p_finished = {#}, p_discarded = {#},
      p_terminating = False\<rparr>"

definition pool_construct :: "(nat \<Rightarrow> errno option) \<Rightarrow> nat \<Rightarrow> nat \<Rightarrow> pool" where
  "pool_construct errs n_threads n_clients =
     pool_construct_stack errs n_threads default_stacksize n_clients"

section \<open>The steps of a client\<close>

text \<open>The end of a call: the \<open>Lock\<close> is destroyed.\<close>
definition client_return :: "nat \<Rightarrow> bool option \<Rightarrow> pool \<Rightarrow> pool" where
  "client_return j r p =
     set_client j (C_outside r) (set_sync (lock_leave (p_sync p) (Client j)) p)"

text \<open>The start of a call: the \<open>Lock\<close> is constructed.\<close>
definition client_enter :: "nat \<Rightarrow> client_pc \<Rightarrow> pool \<Rightarrow> pool option" where
  "client_enter j pc p =
     (case lock_enter (p_sync p) (Client j) of
        Returns s \<Rightarrow> Some (set_client j pc (set_sync s p))
      | Throws _ \<Rightarrow> Some (set_client j C_threw p)
      | Blocked \<Rightarrow> None)"

definition execute_step :: "nat \<Rightarrow> nat \<Rightarrow> task ptr \<Rightarrow> execute_pc \<Rightarrow> pool \<Rightarrow> pool option" where
  "execute_step j k t pc p =
     (case pc of
        X_enter \<Rightarrow> client_enter j (C_execute t X_head) p
      | X_head \<Rightarrow>
          (if p_tasks p = []
           then Some (client_return j None (p\<lparr>p_discarded := p_discarded p + ptr_tasks t\<rparr>))
           else Some (set_client j (C_execute t (X_scan 0)) p))
      | X_scan i \<Rightarrow>
          (if i < length (p_tasks p) then
             (case tm_is_idle (Client j) (p_tasks p ! i) of
                Returns True \<Rightarrow> Some (set_client j (C_execute t (X_set i)) p)
              | Returns False \<Rightarrow> Some (set_client j (C_execute t (X_scan (Suc i))) p)
              | Throws _ \<Rightarrow> Some (set_client j C_threw p)
              | Blocked \<Rightarrow> None)
           else Some (set_client j (C_execute t X_wait) p))
      | X_set i \<Rightarrow>
          (case tm_set_task k (Client j) t (p_tasks p ! i) of
             Returns (True, tm) \<Rightarrow> Some (client_return j None (set_manager i tm p))
           | Returns (False, tm) \<Rightarrow>
               Some (set_client j (C_execute t (X_scan (Suc i))) (set_manager i tm p))
           | Throws _ \<Rightarrow> Some (set_client j C_threw p)
           | Blocked \<Rightarrow> None)
      | X_wait \<Rightarrow>
          (case sync_wait None (p_sync p) (Client j) of
             Returns (asleep, s) \<Rightarrow>
               Some (set_client j (C_execute t (if asleep then X_asleep else X_head))
                       (set_sync s p))
           | Throws _ \<Rightarrow> Some (set_client j C_threw p)
           | Blocked \<Rightarrow> None)
      | X_asleep \<Rightarrow>
          (case sync_resume (p_sync p) (Client j) of
             Returns s \<Rightarrow> Some (set_client j (C_execute t X_head) (set_sync s p))
           | Throws _ \<Rightarrow> Some (set_client j C_threw p)
           | Blocked \<Rightarrow> None))"

text \<open>\<open>is_idle\<close>: false when there is no thread, and when some thread is not idle.\<close>
definition is_idle_step :: "nat \<Rightarrow> query_pc \<Rightarrow> pool \<Rightarrow> pool option" where
  "is_idle_step j pc p =
     (case pc of
        Q_enter \<Rightarrow> client_enter j (C_query Q_is_idle Q_head) p
      | Q_head \<Rightarrow>
          (if p_tasks p = [] then Some (client_return j (Some False) p)
           else Some (set_client j (C_query Q_is_idle (Q_scan 0)) p))
      | Q_scan i \<Rightarrow>
          (if i < length (p_tasks p) then
             (case tm_is_idle (Client j) (p_tasks p ! i) of
                Returns True \<Rightarrow> Some (set_client j (C_query Q_is_idle (Q_scan (Suc i))) p)
              | Returns False \<Rightarrow> Some (client_return j (Some False) p)
              | Throws _ \<Rightarrow> Some (set_client j C_threw p)
              | Blocked \<Rightarrow> None)
           else Some (client_return j (Some True) p)))"

text \<open>\<open>is_busy\<close>: true when there is no thread, and when some thread is not idle.\<close>
definition is_busy_step :: "nat \<Rightarrow> query_pc \<Rightarrow> pool \<Rightarrow> pool option" where
  "is_busy_step j pc p =
     (case pc of
        Q_enter \<Rightarrow> client_enter j (C_query Q_is_busy Q_head) p
      | Q_head \<Rightarrow>
          (if p_tasks p = [] then Some (client_return j (Some True) p)
           else Some (set_client j (C_query Q_is_busy (Q_scan 0)) p))
      | Q_scan i \<Rightarrow>
          (if i < length (p_tasks p) then
             (case tm_is_idle (Client j) (p_tasks p ! i) of
                Returns True \<Rightarrow> Some (set_client j (C_query Q_is_busy (Q_scan (Suc i))) p)
              | Returns False \<Rightarrow> Some (client_return j (Some True) p)
              | Throws _ \<Rightarrow> Some (set_client j C_threw p)
              | Blocked \<Rightarrow> None)
           else Some (client_return j (Some False) p)))"

definition terminate_step :: "nat \<Rightarrow> nat \<Rightarrow> term_pc \<Rightarrow> pool \<Rightarrow> pool option" where
  "terminate_step j k pc p =
     (case pc of
        T_enter \<Rightarrow> client_enter j (C_terminate (T_stop 0)) p
      | T_stop i \<Rightarrow>
          (if i < length (p_tasks p) then
             (case tm_stop (Client j) (p_tasks p ! i) of
                Returns tm \<Rightarrow>
                  Some (set_client j (C_terminate (T_stop (Suc i))) (set_manager i tm p))
              | Throws _ \<Rightarrow> Some (set_client j C_threw p)
              | Blocked \<Rightarrow> None)
           else Some (set_client j (C_terminate (T_delete 0)) p))
      | T_delete i \<Rightarrow>
          (if i < length (p_tasks p) then
             (case tm_destroy_begin k (Client j) (p_tasks p ! i) of
                Returns tm \<Rightarrow> Some (set_client j (C_terminate (T_join i)) (set_manager i tm p))
              | Throws _ \<Rightarrow> Some (set_client j C_threw p)
              | Blocked \<Rightarrow> None)
           else Some (set_client j (C_terminate T_clear) p))
      | T_join i \<Rightarrow>
          (case tm_destroy_join (p_tasks p ! i) of
             Returns tm \<Rightarrow>
               Some (set_client j (C_terminate (T_delete (Suc i))) (set_manager i tm p))
           | Throws _ \<Rightarrow> Some (set_client j C_threw p)
           | Blocked \<Rightarrow> None)
      | T_clear \<Rightarrow>
          Some (client_return j None
                  (set_sync (sync_notify k (p_sync p)) (p\<lparr>p_tasks := []\<rparr>))))"

definition client_step :: "nat \<Rightarrow> nat \<Rightarrow> pool \<Rightarrow> pool option" where
  "client_step j k p =
     (case p_clients p ! j of
        C_outside _ \<Rightarrow> None
      | C_execute t pc \<Rightarrow> execute_step j k t pc p
      | C_query Q_is_idle pc \<Rightarrow> is_idle_step j pc p
      | C_query Q_is_busy pc \<Rightarrow> is_busy_step j pc p
      | C_terminate pc \<Rightarrow> terminate_step j k pc p
      | C_threw \<Rightarrow> None)"

section \<open>The steps of the pool\<close>

text \<open>The calls a client can make.\<close>
datatype pool_call = Do_execute "task ptr" | Do_query query | Do_terminate

definition client_call :: "nat \<Rightarrow> pool_call \<Rightarrow> pool \<Rightarrow> pool" where
  "client_call j c p =
     (case c of
        Do_execute t \<Rightarrow>
          set_client j (C_execute t X_enter) (p\<lparr>p_submitted := p_submitted p + ptr_tasks t\<rparr>)
      | Do_query q \<Rightarrow> set_client j (C_query q Q_enter) p
      | Do_terminate \<Rightarrow>
          set_client j (C_terminate T_enter) (p\<lparr>p_terminating := True\<rparr>))"

text \<open>
  The virtual \<open>idle_notification\<close> of the pool: \<open>k\<close> is which of the waiting clients the system
  wakes.  The worker calls it inside its own lock, not inside the pool's.
\<close>
definition idle_notification :: "nat \<Rightarrow> pool \<Rightarrow> pool" where
  "idle_notification k p = set_sync (sync_notify k (p_sync p)) p"

definition record_event :: "worker_event \<Rightarrow> pool \<Rightarrow> pool" where
  "record_event ev p =
     p\<lparr>p_started := p_started p + ev_started ev, p_finished := p_finished p + ev_finished ev,
       p_discarded := p_discarded p + ev_discarded ev\<rparr>"

datatype pool_label =
  L_call nat pool_call | L_client nat nat | L_worker nat run_end nat
| L_client_spurious nat | L_worker_spurious nat

definition pool_step :: "pool \<Rightarrow> pool_label \<Rightarrow> pool option" where
  "pool_step p l =
     (case l of
        L_call j c \<Rightarrow>
          (if j < length (p_clients p)
           then (case p_clients p ! j of C_outside _ \<Rightarrow> Some (client_call j c p) | _ \<Rightarrow> None)
           else None)
      | L_client j k \<Rightarrow> if j < length (p_clients p) then client_step j k p else None
      | L_worker i e k \<Rightarrow>
          (if i < length (p_tasks p) then
             (case worker_step (Worker i) e (p_tasks p ! i) of
                Some (tm, ev) \<Rightarrow>
                  Some (record_event ev ((if ev = Ev_idle then idle_notification k else id)
                                           (set_manager i tm p)))
              | None \<Rightarrow> None)
           else None)
      | L_client_spurious j \<Rightarrow> Some (set_sync (sync_spurious (p_sync p) (Client j)) p)
      | L_worker_spurious i \<Rightarrow>
          (if i < length (p_tasks p)
           then Some (set_manager i (worker_spurious (Worker i) (p_tasks p ! i)) p)
           else None))"

lemmas pool_upd = set_client_def set_manager_def set_sync_def
lemmas pool_step_defs = client_return_def client_enter_def execute_step_def is_idle_step_def
  is_busy_step_def terminate_step_def

end
