(* ===== verification/Pool_Invariant.thy ===== *)
theory Pool_Invariant
  imports Thread_Pool
begin

text \<open>
  The invariant of the pool and the accounting of its tasks, kept by every step of every
  interleaving, and the properties that follow from them: only one client is inside the pool, no
  call throws, every task submitted is in exactly one place and is executed at most once.
\<close>

section \<open>The invariant\<close>

text \<open>Where a client holds the lock of the pool.\<close>
fun client_holds :: "client_pc \<Rightarrow> bool" where
  "client_holds (C_execute t x) = (x \<noteq> X_enter \<and> x \<noteq> X_asleep)"
| "client_holds (C_query q x) = (x \<noteq> Q_enter)"
| "client_holds (C_terminate x) = (x \<noteq> T_enter)"
| "client_holds (C_outside r) = False"
| "client_holds C_threw = False"

text \<open>What the location of a client says of the task managers.\<close>
fun client_sees :: "task_manager list \<Rightarrow> client_pc \<Rightarrow> bool" where
  "client_sees tms (C_execute t (X_set i)) = (i < length tms)"
| "client_sees tms (C_terminate (T_join i)) =
     (i < length tms \<and> \<not> tm_go (tms ! i) \<and> cond (tm_sync (tms ! i)) = [])"
| "client_sees tms C_threw = False"
| "client_sees tms _ = True"

definition client_ok :: "tid sync \<Rightarrow> task_manager list \<Rightarrow> nat \<Rightarrow> client_pc \<Rightarrow> bool" where
  "client_ok s tms j pc \<longleftrightarrow>
     (monitor s = Some (Client j) \<longleftrightarrow> client_holds pc) \<and>
     (Client j \<in> set (cond s) \<longrightarrow> (\<exists>t. pc = C_execute t X_asleep)) \<and>
     client_sees tms pc"

definition managers_ok :: "task_manager list \<Rightarrow> bool" where
  "managers_ok tms \<longleftrightarrow> (\<forall>i < length tms. tm_inv (Worker i) (tms ! i))"

definition pool_inv :: "pool \<Rightarrow> bool" where
  "pool_inv p \<longleftrightarrow> managers_ok (p_tasks p) \<and>
     (\<forall>j < length (p_clients p). client_ok (p_sync p) (p_tasks p) j (p_clients p ! j)) \<and>
     (\<forall>u. monitor (p_sync p) = Some u \<longrightarrow> (\<exists>j < length (p_clients p). u = Client j)) \<and>
     set (cond (p_sync p)) \<subseteq> Client ` {..<length (p_clients p)}"

lemma managers_ok_update:
  "managers_ok tms \<Longrightarrow> tm_inv (Worker i) tm \<Longrightarrow> managers_ok (tms[i := tm])"
  unfolding managers_ok_def by (metis length_list_update nth_list_update_eq nth_list_update_neq)

lemma managers_ok_nth: "managers_ok tms \<Longrightarrow> i < length tms \<Longrightarrow> tm_inv (Worker i) (tms ! i)"
  by (simp add: managers_ok_def)

lemma pool_inv_client:
  "pool_inv p \<Longrightarrow> j < length (p_clients p) \<Longrightarrow>
   client_ok (p_sync p) (p_tasks p) j (p_clients p ! j)"
  by (simp add: pool_inv_def)

lemma pool_inv_managers [intro]: "pool_inv p \<Longrightarrow> managers_ok (p_tasks p)"
  by (simp add: pool_inv_def)

lemma client_outside_view:
  "\<not> client_holds pc \<Longrightarrow> pc \<noteq> C_threw \<Longrightarrow> client_sees tms pc"
  by (cases "(tms, pc)" rule: client_sees.cases) auto

text \<open>
  The one lemma behind every step of a client: the others do not hold the lock, so they neither
  notice the change of the shared state nor constrain it.
\<close>
lemma pool_inv_update:
  assumes inv: "pool_inv p" and j: "j < length (p_clients p)"
    and before: "monitor (p_sync p) = None \<or> monitor (p_sync p) = Some (Client j)"
    and after: "monitor s = None \<or> monitor s = Some (Client j)"
    and conds: "set (cond s) \<subseteq> insert (Client j) (set (cond (p_sync p)))"
    and tms: "managers_ok tms" and ok: "client_ok s tms j pc"
    and p': "p_sync p' = s" "p_tasks p' = tms" "p_clients p' = (p_clients p)[j := pc]"
  shows "pool_inv p'"
proof -
  have "client_ok s tms i ((p_clients p)[j := pc] ! i)" if i: "i < length (p_clients p)" for i
  proof (cases "i = j")
    case True
    then show ?thesis using ok j by simp
  next
    case False
    from pool_inv_client [OF inv i] have old: "client_ok (p_sync p) (p_tasks p) i (p_clients p ! i)" .
    with before False have out: "\<not> client_holds (p_clients p ! i)"
      by (auto simp: client_ok_def)
    moreover have "p_clients p ! i \<noteq> C_threw" using old by (auto simp: client_ok_def)
    ultimately show ?thesis
      using old False after conds by (auto simp: client_ok_def client_outside_view)
  qed
  moreover have "set (cond s) \<subseteq> Client ` {..<length (p_clients p)}"
    using conds inv j by (auto simp: pool_inv_def)
  ultimately show ?thesis
    using tms j after p' by (auto simp: pool_inv_def)
qed

text \<open>The shapes of a client's step.\<close>

lemma inv_enter:
  assumes "pool_inv p" "j < length (p_clients p)" "\<not> client_holds (p_clients p ! j)"
    and "client_enter j pc p = Some p'"
    and "client_holds pc" "client_sees (p_tasks p) pc" "\<And>t. p_clients p ! j \<noteq> C_execute t X_asleep"
  shows "pool_inv p'"
proof -
  from pool_inv_client [OF assms(1,2)] assms(3)
  have "monitor (p_sync p) \<noteq> Some (Client j)" by (simp add: client_ok_def)
  with assms(4) have free: "monitor (p_sync p) = None"
    and p': "p' = set_client j pc (set_sync ((p_sync p)\<lparr>monitor := Some (Client j)\<rparr>) p)"
    by (auto simp: client_enter_def lock_enter_cases split: option.splits if_splits)
  have "Client j \<notin> set (cond (p_sync p))"
    using pool_inv_client [OF assms(1,2)] assms(7) by (auto simp: client_ok_def)
  then show ?thesis
    using assms free
    by (intro pool_inv_update [OF assms(1,2), where pc = pc and p' = p'])
      (auto simp: p' pool_upd client_ok_def)
qed

lemma inv_move:
  assumes "pool_inv p" "j < length (p_clients p)" "client_holds (p_clients p ! j)"
    and "client_holds pc" "client_sees tms pc" "managers_ok tms"
    and "p_sync p' = p_sync p" "p_tasks p' = tms" "p_clients p' = (p_clients p)[j := pc]"
  shows "pool_inv p'"
proof -
  have "monitor (p_sync p) = Some (Client j)" "Client j \<notin> set (cond (p_sync p))"
    using pool_inv_client [OF assms(1,2)] assms(3) by (auto simp: client_ok_def)
  then show ?thesis
    using assms by (intro pool_inv_update [OF assms(1,2)]) (auto simp: client_ok_def)
qed

lemma inv_move_client:
  assumes "pool_inv p" "j < length (p_clients p)" "client_holds (p_clients p ! j)"
    and "client_holds pc" "client_sees (p_tasks p) pc"
  shows "pool_inv (set_client j pc p)"
  by (rule inv_move [OF assms(1-5)]) (auto simp: pool_upd pool_inv_managers assms(1))

lemma inv_move_manager:
  assumes "pool_inv p" "j < length (p_clients p)" "client_holds (p_clients p ! j)"
    and "client_holds pc" "client_sees ((p_tasks p)[i := tm]) pc" "tm_inv (Worker i) tm"
  shows "pool_inv (set_client j pc (set_manager i tm p))"
  by (rule inv_move [OF assms(1-5)])
    (auto simp: pool_upd assms(1,6) intro!: managers_ok_update pool_inv_managers)

lemma inv_return:
  assumes "pool_inv p" "j < length (p_clients p)" "client_holds (p_clients p ! j)"
    and "managers_ok (p_tasks q)" "monitor (p_sync q) = monitor (p_sync p)"
    and "set (cond (p_sync q)) \<subseteq> set (cond (p_sync p))" "p_clients q = p_clients p"
  shows "pool_inv (client_return j r q)"
proof -
  have "monitor (p_sync p) = Some (Client j)" "Client j \<notin> set (cond (p_sync p))"
    using pool_inv_client [OF assms(1,2)] assms(3) by (auto simp: client_ok_def)
  then show ?thesis
    using assms
    by (intro pool_inv_update [OF assms(1,2)])
      (auto simp: client_return_def pool_upd client_ok_def lock_leave_own)
qed

text \<open>The steps of \<open>execute\<close>.\<close>

lemma pool_upd_fields [simp]:
  "p_sync (set_client j pc p) = p_sync p" "p_tasks (set_client j pc p) = p_tasks p"
  "p_clients (set_client j pc p) = (p_clients p)[j := pc]"
  "p_sync (set_manager i tm p) = p_sync p" "p_tasks (set_manager i tm p) = (p_tasks p)[i := tm]"
  "p_clients (set_manager i tm p) = p_clients p"
  "p_sync (set_sync s p) = s" "p_tasks (set_sync s p) = p_tasks p"
  "p_clients (set_sync s p) = p_clients p"
  by (simp_all add: pool_upd)

lemma client_owner:
  assumes "pool_inv p" "j < length (p_clients p)" "client_holds (p_clients p ! j)"
  shows "monitor (p_sync p) = Some (Client j)"
  using pool_inv_client [OF assms(1,2)] assms(3) by (simp add: client_ok_def)

lemma manager_not_client:
  "managers_ok tms \<Longrightarrow> i < length tms \<Longrightarrow> monitor (tm_sync (tms ! i)) \<noteq> Some (Client j)"
  using tm_inv_owner managers_ok_nth by blast

lemma tm_is_idle_no_throw:
  "managers_ok tms \<Longrightarrow> i < length tms \<Longrightarrow> tm_is_idle (Client j) (tms ! i) \<noteq> Throws msg"
  using manager_not_client [of tms i j]
  by (auto simp: tm_is_idle_def locked_Throws_iff split: outcome.splits)

lemma tm_set_task_no_throw:
  "managers_ok tms \<Longrightarrow> i < length tms \<Longrightarrow> tm_set_task k (Client j) t (tms ! i) \<noteq> Throws msg"
  using manager_not_client [of tms i j]
  by (auto simp: tm_set_task_def locked_Throws_iff split: outcome.splits)

lemma tm_stop_no_throw:
  "managers_ok tms \<Longrightarrow> i < length tms \<Longrightarrow> tm_stop (Client j) (tms ! i) \<noteq> Throws msg"
  using manager_not_client [of tms i j]
  by (auto simp: tm_stop_def locked_Throws_iff split: outcome.splits)

lemma tm_destroy_begin_no_throw:
  "managers_ok tms \<Longrightarrow> i < length tms \<Longrightarrow> tm_destroy_begin k (Client j) (tms ! i) \<noteq> Throws msg"
  using manager_not_client [of tms i j]
  by (auto simp: tm_destroy_begin_def locked_Throws_iff split: outcome.splits)

lemmas tm_no_throw = tm_is_idle_no_throw tm_set_task_no_throw tm_stop_no_throw
  tm_destroy_begin_no_throw

lemma inv_execute:
  assumes inv: "pool_inv p" and j: "j < length (p_clients p)"
    and pc: "p_clients p ! j = C_execute t x" and step: "execute_step j k t x p = Some p'"
  shows "pool_inv p'"
proof (cases x)
  case X_enter
  then show ?thesis
    using step pc by (intro inv_enter [OF inv j]) (auto simp: execute_step_def)
next
  case X_head
  then show ?thesis
    using step pc pool_inv_managers [OF inv]
    by (auto simp: execute_step_def intro!: inv_return [OF inv j] inv_move_client [OF inv j]
        split: if_splits)
next
  case (X_scan i)
  then show ?thesis
    using step pc pool_inv_managers [OF inv] tm_is_idle_no_throw
    by (auto simp: execute_step_def intro!: inv_move_client [OF inv j]
        split: if_splits outcome.splits bool.splits)
next
  case (X_set i)
  have i: "i < length (p_tasks p)"
    using pool_inv_client [OF inv j] pc X_set by (simp add: client_ok_def)
  show ?thesis
  proof (cases "tm_set_task k (Client j) t (p_tasks p ! i)")
    case (Returns r)
    obtain b tm where r: "r = (b, tm)" by (cases r)
    have tm: "tm_inv (Worker i) tm"
      using Returns r i pool_inv_managers [OF inv] tm_inv_set_task managers_ok_nth by blast
    then have ok: "managers_ok ((p_tasks p)[i := tm])"
      using pool_inv_managers [OF inv] managers_ok_update by blast
    show ?thesis
      using step Returns r X_set pc ok tm
      by (cases b)
        (auto simp: execute_step_def intro!: inv_return [OF inv j] inv_move_manager [OF inv j])
  next
    case (Throws msg)
    then show ?thesis using tm_set_task_no_throw pool_inv_managers [OF inv] i by blast
  next
    case Blocked
    then show ?thesis using step X_set by (simp add: execute_step_def)
  qed
next
  case X_wait
  then have "monitor (p_sync p) = Some (Client j)"
    using client_owner [OF inv j] pc by simp
  then show ?thesis
    using step X_wait pool_inv_managers [OF inv]
    by (intro pool_inv_update [OF inv j]) (auto simp: execute_step_def client_ok_def)
next
  case X_asleep
  then have "monitor (p_sync p) = None" "Client j \<notin> set (cond (p_sync p))"
    using step by (auto simp: execute_step_def sync_resume_cases split: if_splits)
  then show ?thesis
    using step X_asleep pool_inv_managers [OF inv]
    by (intro pool_inv_update [OF inv j, where pc = "C_execute t X_head"])
      (auto simp: execute_step_def client_ok_def sync_resume_cases)
qed

lemma inv_query:
  assumes inv: "pool_inv p" and j: "j < length (p_clients p)"
    and pc: "p_clients p ! j = C_query q x"
    and step: "q = Q_is_idle \<and> is_idle_step j x p = Some p' \<or>
               q = Q_is_busy \<and> is_busy_step j x p = Some p'"
  shows "pool_inv p'"
proof (cases x)
  case Q_enter
  then show ?thesis
    using step pc
    by (intro inv_enter [OF inv j, where pc = "C_query q Q_head"])
      (auto simp: is_idle_step_def is_busy_step_def)
next
  case Q_head
  then show ?thesis
    using step pc pool_inv_managers [OF inv]
    by (auto simp: is_idle_step_def is_busy_step_def
        intro!: inv_return [OF inv j] inv_move_client [OF inv j] split: if_splits)
next
  case (Q_scan i)
  then show ?thesis
    using step pc pool_inv_managers [OF inv] tm_is_idle_no_throw
    by (auto simp: is_idle_step_def is_busy_step_def
        intro!: inv_return [OF inv j] inv_move_client [OF inv j]
        split: if_splits outcome.splits bool.splits)
qed

lemma inv_terminate:
  assumes inv: "pool_inv p" and j: "j < length (p_clients p)"
    and pc: "p_clients p ! j = C_terminate x" and step: "terminate_step j k x p = Some p'"
  shows "pool_inv p'"
proof (cases x)
  case T_enter
  then show ?thesis
    using step pc
    by (intro inv_enter [OF inv j, where pc = "C_terminate (T_stop 0)"])
      (auto simp: terminate_step_def)
next
  case (T_stop i)
  then show ?thesis
    using step pc pool_inv_managers [OF inv] tm_stop_no_throw
      tm_inv_stop [OF managers_ok_nth [OF pool_inv_managers [OF inv], of i]]
    by (auto simp: terminate_step_def
        intro!: inv_move_client [OF inv j] inv_move_manager [OF inv j]
        split: if_splits outcome.splits)
next
  case (T_delete i)
  then show ?thesis
    using step pc pool_inv_managers [OF inv] tm_destroy_begin_no_throw
      tm_inv_destroy_begin [OF managers_ok_nth [OF pool_inv_managers [OF inv], of i]]
    by (auto simp: terminate_step_def
        intro!: inv_move_client [OF inv j] inv_move_manager [OF inv j]
        split: if_splits outcome.splits)
next
  case (T_join i)
  have "i < length (p_tasks p)"
    using pool_inv_client [OF inv j] pc T_join by (simp add: client_ok_def)
  from managers_ok_nth [OF pool_inv_managers [OF inv] this] T_join show ?thesis
    using step pc
    by (auto simp: terminate_step_def tm_destroy_join_def
        intro!: inv_move_manager [OF inv j] split: if_splits)
next
  case T_clear
  then have "client_holds (p_clients p ! j)" using pc by simp
  moreover have "p' = client_return j None
      (set_sync (sync_notify k (p_sync p)) (p\<lparr>p_tasks := []\<rparr>))"
    using step T_clear by (simp add: terminate_step_def)
  ultimately show ?thesis
    using sync_notify_cond [of k "p_sync p"]
    by (auto simp: managers_ok_def pool_upd intro!: inv_return [OF inv j])
qed

section \<open>Every step of the pool keeps it\<close>

lemma pool_inv_client_step:
  assumes inv: "pool_inv p" and j: "j < length (p_clients p)"
    and step: "client_step j k p = Some p'"
  shows "pool_inv p'"
proof (cases "p_clients p ! j")
  case (C_execute t x)
  then show ?thesis using inv_execute [OF inv j] step by (simp add: client_step_def)
next
  case (C_query q x)
  then show ?thesis
    using inv_query [OF inv j] step by (cases q) (auto simp: client_step_def)
next
  case (C_terminate x)
  then show ?thesis using inv_terminate [OF inv j] step by (simp add: client_step_def)
qed (use step in \<open>auto simp: client_step_def\<close>)

text \<open>A step that only wakes sleeping clients or changes a worker keeps what clients see.\<close>

lemma client_sees_worker:
  assumes "client_sees tms pc"
    and "i < length tms \<Longrightarrow> \<not> tm_go (tms ! i) \<Longrightarrow> cond (tm_sync (tms ! i)) = [] \<Longrightarrow>
         \<not> tm_go tm \<and> cond (tm_sync tm) = []"
  shows "client_sees (tms[i := tm]) pc"
  using assms
proof (induction tms pc rule: client_sees.induct)
  case (2 tms j)
  then show ?case by (cases "i = j") auto
qed auto

lemma inv_background:
  assumes inv: "pool_inv p"
    and "monitor s = monitor (p_sync p)" and "set (cond s) \<subseteq> set (cond (p_sync p))"
    and "managers_ok tms"
    and "\<And>pc. client_sees (p_tasks p) pc \<Longrightarrow> client_sees tms pc"
    and "p_sync p' = s" "p_tasks p' = tms" "p_clients p' = p_clients p"
  shows "pool_inv p'"
  using assms by (auto simp: pool_inv_def client_ok_def)

lemma pool_inv_worker_step:
  assumes inv: "pool_inv p" and i: "i < length (p_tasks p)"
    and step: "worker_step (Worker i) e (p_tasks p ! i) = Some (tm, ev)"
    and p': "p_tasks p' = (p_tasks p)[i := tm]" "p_clients p' = p_clients p"
      "monitor (p_sync p') = monitor (p_sync p)" "set (cond (p_sync p')) \<subseteq> set (cond (p_sync p))"
  shows "pool_inv p'"
proof -
  have ok: "tm_inv (Worker i) (p_tasks p ! i)"
    using pool_inv_managers [OF inv] i by (rule managers_ok_nth)
  have "managers_ok ((p_tasks p)[i := tm])"
    using pool_inv_managers [OF inv] tm_inv_step [OF ok step] by (rule managers_ok_update)
  moreover have "client_sees (p_tasks p) pc \<Longrightarrow> client_sees ((p_tasks p)[i := tm]) pc" for pc
    using worker_step_go [OF ok step] worker_step_stopping [OF ok step]
    by (intro client_sees_worker) auto
  ultimately show ?thesis by (intro inv_background [OF inv p'(3,4)]) (auto simp: p')
qed

lemma pool_inv_worker_spurious:
  assumes inv: "pool_inv p" and i: "i < length (p_tasks p)"
  shows "pool_inv (set_manager i (worker_spurious (Worker i) (p_tasks p ! i)) p)"
proof -
  have "managers_ok ((p_tasks p)[i := worker_spurious (Worker i) (p_tasks p ! i)])"
    using managers_ok_update tm_inv_spurious managers_ok_nth pool_inv_managers [OF inv] i
    by blast
  moreover have "client_sees (p_tasks p) pc \<Longrightarrow>
      client_sees ((p_tasks p)[i := worker_spurious (Worker i) (p_tasks p ! i)]) pc" for pc
    by (intro client_sees_worker)
      (auto simp: worker_spurious_def sync_spurious_def cond_spurious_def)
  ultimately show ?thesis by (intro inv_background [OF inv]) auto
qed

lemma record_event_fields [simp]:
  "p_sync (record_event ev p) = p_sync p" "p_tasks (record_event ev p) = p_tasks p"
  "p_clients (record_event ev p) = p_clients p"
  by (simp_all add: record_event_def)

lemma idle_notification_fields [simp]:
  "p_sync (idle_notification k p) = sync_notify k (p_sync p)"
  "p_tasks (idle_notification k p) = p_tasks p" "p_clients (idle_notification k p) = p_clients p"
  by (simp_all add: idle_notification_def)

lemma pool_inv_call:
  assumes inv: "pool_inv p" and j: "j < length (p_clients p)"
    and pc: "p_clients p ! j = C_outside r"
  shows "pool_inv (client_call j c p)"
proof -
  from pool_inv_client [OF inv j] pc
  have out: "monitor (p_sync p) \<noteq> Some (Client j)" "Client j \<notin> set (cond (p_sync p))"
    by (auto simp: client_ok_def)
  have "client_ok (p_sync p) (p_tasks p) i ((p_clients p)[j := new] ! i)"
    if "i < length (p_clients p)" and "\<not> client_holds new" and "new \<noteq> C_threw" for i new
    using that out pool_inv_client [OF inv that(1)]
    by (cases "i = j") (auto simp: client_ok_def client_outside_view)
  then show ?thesis
    using inv by (cases c) (auto simp: client_call_def pool_inv_def)
qed

lemma pool_inv_step:
  assumes inv: "pool_inv p" and step: "pool_step p l = Some p'"
  shows "pool_inv p'"
proof (cases l)
  case (L_call j c)
  then show ?thesis
    using step pool_inv_call [OF inv]
    by (auto simp: pool_step_def split: if_splits client_pc.splits)
next
  case (L_client j k)
  then show ?thesis
    using step pool_inv_client_step [OF inv] by (auto simp: pool_step_def split: if_splits)
next
  case (L_worker i e k)
  then obtain tm ev where i: "i < length (p_tasks p)"
    and w: "worker_step (Worker i) e (p_tasks p ! i) = Some (tm, ev)"
    and p': "p' = record_event ev ((if ev = Ev_idle then idle_notification k else id)
                                     (set_manager i tm p))"
    using step by (auto simp: pool_step_def split: if_splits option.splits)
  show ?thesis
    using sync_notify_cond [of k "p_sync p"]
    by (intro pool_inv_worker_step [OF inv i w]) (auto simp: p')
next
  case (L_client_spurious j)
  then show ?thesis
    using step pool_inv_managers [OF inv]
    by (intro inv_background [OF inv])
      (auto simp: pool_step_def sync_spurious_def cond_spurious_def)
next
  case (L_worker_spurious i)
  then show ?thesis
    using step pool_inv_worker_spurious [OF inv] by (auto simp: pool_step_def split: if_splits)
qed

interpretation pool_life: step_invariant pool_step pool_inv
  by unfold_locales (rule pool_inv_step)

lemma pool_inv_construct: "pool_inv (pool_construct_stack errs n stack m)"
  by (auto simp: pool_construct_stack_def pool_inv_def managers_ok_def tm_inv_construct
      client_ok_def)

end
