(* ===== verification/Pool_Tasks.thy ===== *)
theory Pool_Tasks
  imports Pool_Invariant
begin

text \<open>
  What becomes of the tasks of a pool.  \<open>settled\<close> says what the pool knows about its workers: a
  worker that has returned left an empty slot, nobody is asked to stop while another client may
  still use the pool, and the list is cleared only when every worker has returned.  \<open>ledger\<close> is
  the account: each task submitted is finished, discarded, in a slot, or with a client that has
  not yet handed it over.  The properties at the end follow from the two.
\<close>

section \<open>What is known of the workers\<close>

definition manager_settled :: "task_manager \<Rightarrow> bool" where
  "manager_settled tm \<longleftrightarrow>
     (tm_pc tm = W_done \<longrightarrow> tm_task tm = None \<and> (is_alive (tm_thread tm) \<longrightarrow> \<not> tm_go tm)) \<and>
     (\<not> is_alive (tm_thread tm) \<longrightarrow> tm_pc tm = W_done)"

definition managers_settled :: "task_manager list \<Rightarrow> bool" where
  "managers_settled tms \<longleftrightarrow> (\<forall>i < length tms. manager_settled (tms ! i))"

definition all_go :: "task_manager list \<Rightarrow> bool" where
  "all_go tms \<longleftrightarrow> (\<forall>i < length tms. tm_go (tms ! i))"

text \<open>A client that is inside \<open>terminate\<close>, and how many workers it has joined.\<close>
fun is_terminate :: "client_pc \<Rightarrow> bool" where
  "is_terminate (C_terminate x) = True"
| "is_terminate _ = False"

fun joined_upto :: "nat \<Rightarrow> client_pc \<Rightarrow> nat" where
  "joined_upto n (C_terminate (T_delete i)) = i"
| "joined_upto n (C_terminate (T_join i)) = i"
| "joined_upto n (C_terminate T_clear) = n"
| "joined_upto n _ = 0"

fun about_to_set :: "task_manager list \<Rightarrow> client_pc \<Rightarrow> bool" where
  "about_to_set tms (C_execute t (X_set i)) = is_alive (tm_thread (tms ! i))"
| "about_to_set tms _ = True"

definition client_knows :: "task_manager list \<Rightarrow> client_pc \<Rightarrow> bool" where
  "client_knows tms pc \<longleftrightarrow>
     (client_holds pc \<and> \<not> is_terminate pc \<longrightarrow> all_go tms) \<and> about_to_set tms pc \<and>
     (\<forall>i < length tms. i < joined_upto (length tms) pc \<longrightarrow> tm_pc (tms ! i) = W_done)"

definition settled :: "pool \<Rightarrow> bool" where
  "settled p \<longleftrightarrow> managers_settled (p_tasks p) \<and>
     (\<forall>j < length (p_clients p). client_knows (p_tasks p) (p_clients p ! j)) \<and>
     (monitor (p_sync p) = None \<longrightarrow> all_go (p_tasks p)) \<and>
     (\<not> p_terminating p \<longrightarrow> (\<forall>j < length (p_clients p). \<not> is_terminate (p_clients p ! j)))"

lemma client_knows_outside: "\<not> client_holds pc \<Longrightarrow> client_knows tms pc"
  by (cases "(0 :: nat, pc)" rule: joined_upto.cases; cases "(tms, pc)" rule: about_to_set.cases)
    (auto simp: client_knows_def)

lemma settledD:
  assumes "settled p"
  shows "managers_settled (p_tasks p)"
    and "j < length (p_clients p) \<Longrightarrow> client_knows (p_tasks p) (p_clients p ! j)"
    and "monitor (p_sync p) = None \<Longrightarrow> all_go (p_tasks p)"
    and "j < length (p_clients p) \<Longrightarrow> \<not> p_terminating p \<Longrightarrow> \<not> is_terminate (p_clients p ! j)"
  using assms by (auto simp: settled_def)

lemma settled_update:
  assumes inv: "pool_inv p" and old: "settled p" and j: "j < length (p_clients p)"
    and before: "monitor (p_sync p) = None \<or> monitor (p_sync p) = Some (Client j)"
    and p': "p_tasks p' = tms" "p_clients p' = (p_clients p)[j := pc]"
      "p_terminating p' = p_terminating p"
    and tms: "managers_settled tms" and knows: "client_knows tms pc"
    and go: "monitor (p_sync p') = None \<Longrightarrow> all_go tms"
    and kind: "is_terminate pc \<Longrightarrow> is_terminate (p_clients p ! j)"
  shows "settled p'"
proof -
  have "client_knows tms ((p_clients p)[j := pc] ! i) \<and>
      (\<not> p_terminating p \<longrightarrow> \<not> is_terminate ((p_clients p)[j := pc] ! i))"
    if i: "i < length (p_clients p)" for i
  proof (cases "i = j")
    case True
    then show ?thesis using knows kind j settledD(4) [OF old j] by auto
  next
    case False
    with before pool_inv_client [OF inv i] have "\<not> client_holds (p_clients p ! i)"
      by (auto simp: client_ok_def)
    then show ?thesis using False settledD(4) [OF old i] by (simp add: client_knows_outside)
  qed
  then show ?thesis using tms go p' by (auto simp: settled_def)
qed

lemma managers_settled_update:
  "managers_settled tms \<Longrightarrow> manager_settled tm \<Longrightarrow> managers_settled (tms[i := tm])"
  unfolding managers_settled_def
  by (metis length_list_update nth_list_update_eq nth_list_update_neq)

lemma all_go_update: "all_go tms \<Longrightarrow> tm_go tm \<Longrightarrow> all_go (tms[i := tm])"
  unfolding all_go_def by (metis length_list_update nth_list_update_eq nth_list_update_neq)

text \<open>The shapes of a step of a client inside the lock.\<close>

lemma settled_enter:
  assumes "pool_inv p" "settled p" "j < length (p_clients p)" "\<not> client_holds (p_clients p ! j)"
    and "client_enter j pc p = Some p'" and "client_holds pc"
    and "is_terminate pc \<longleftrightarrow> is_terminate (p_clients p ! j)"
    and "about_to_set (p_tasks p) pc" and "joined_upto (length (p_tasks p)) pc = 0"
  shows "settled p'"
proof -
  from pool_inv_client [OF assms(1,3)] assms(4)
  have "monitor (p_sync p) \<noteq> Some (Client j)" by (simp add: client_ok_def)
  with assms(5) have free: "monitor (p_sync p) = None"
    and p': "p' = set_client j pc (set_sync ((p_sync p)\<lparr>monitor := Some (Client j)\<rparr>) p)"
    by (auto simp: client_enter_def lock_enter_cases split: option.splits if_splits)
  show ?thesis
    using assms(6-9) settledD(1,3) [OF assms(2)] free
    by (intro settled_update [OF assms(1,2,3), where tms = "p_tasks p" and pc = pc])
      (auto simp: p' pool_upd client_knows_def)
qed

lemma settled_move:
  assumes "pool_inv p" "settled p" "j < length (p_clients p)" "client_holds (p_clients p ! j)"
    and "client_holds pc" and "is_terminate pc \<longleftrightarrow> is_terminate (p_clients p ! j)"
    and "managers_settled tms" and "about_to_set tms pc"
    and "\<not> is_terminate pc \<Longrightarrow> all_go (p_tasks p) \<Longrightarrow> all_go tms"
    and "\<And>i. i < length tms \<Longrightarrow> i < joined_upto (length tms) pc \<Longrightarrow> tm_pc (tms ! i) = W_done"
    and "p_tasks p' = tms" "p_clients p' = (p_clients p)[j := pc]"
      "p_terminating p' = p_terminating p" "p_sync p' = p_sync p"
  shows "settled p'"
  using assms(4-10,14) settledD(2) [OF assms(2,3)] client_owner [OF assms(1,3,4)]
  by (intro settled_update [OF assms(1-3) _ assms(11-13)]) (auto simp: client_knows_def)

lemma settled_return:
  assumes "pool_inv p" "settled p" "j < length (p_clients p)" "client_holds (p_clients p ! j)"
    and "managers_settled (p_tasks q)" and "p_tasks q = [] \<or> all_go (p_tasks q)"
    and "p_clients q = p_clients p" "p_terminating q = p_terminating p"
  shows "settled (client_return j r q)"
  using assms(4-8) client_owner [OF assms(1,3,4)]
  by (intro settled_update [OF assms(1-3), where pc = "C_outside r" and tms = "p_tasks q"])
    (auto simp: client_return_def pool_upd client_knows_outside all_go_def)

lemma pool_upd_terminating [simp]:
  "p_terminating (set_client j pc p) = p_terminating p"
  "p_terminating (set_manager i tm p) = p_terminating p"
  "p_terminating (set_sync s p) = p_terminating p"
  by (simp_all add: pool_upd)

text \<open>Two instances: the client moves on, and it moves on after a call of a task manager.\<close>

lemma settled_move_client:
  assumes "pool_inv p" "settled p" "j < length (p_clients p)" "client_holds (p_clients p ! j)"
    and "client_holds pc" "is_terminate pc \<longleftrightarrow> is_terminate (p_clients p ! j)"
    and "about_to_set (p_tasks p) pc"
    and "\<And>i. i < length (p_tasks p) \<Longrightarrow> i < joined_upto (length (p_tasks p)) pc \<Longrightarrow>
         tm_pc (p_tasks p ! i) = W_done"
  shows "settled (set_client j pc p)"
  by (rule settled_move [OF assms(1-6), where tms = "p_tasks p"])
    (use assms(7,8) settledD(1) [OF assms(2)] in auto)

lemma settled_move_manager:
  assumes "pool_inv p" "settled p" "j < length (p_clients p)" "client_holds (p_clients p ! j)"
    and "client_holds pc" "is_terminate pc \<longleftrightarrow> is_terminate (p_clients p ! j)"
    and "manager_settled tm" and "about_to_set ((p_tasks p)[i := tm]) pc"
    and "\<not> is_terminate pc \<Longrightarrow> all_go (p_tasks p) \<Longrightarrow> tm_go tm"
    and "\<And>n. n < length (p_tasks p) \<Longrightarrow> n < joined_upto (length (p_tasks p)) pc \<Longrightarrow>
         tm_pc ((p_tasks p)[i := tm] ! n) = W_done"
  shows "settled (set_client j pc (set_manager i tm p))"
  by (rule settled_move [OF assms(1-6), where tms = "(p_tasks p)[i := tm]"])
    (use assms(7-10) settledD(1) [OF assms(2)] all_go_update in
      \<open>auto simp: managers_settled_update\<close>)

lemma settled_execute:
  assumes inv: "pool_inv p" and old: "settled p" and j: "j < length (p_clients p)"
    and pc: "p_clients p ! j = C_execute t x" and step: "execute_step j k t x p = Some p'"
  shows "settled p'"
proof (cases x)
  case X_enter
  then show ?thesis
    using step pc
    by (intro settled_enter [OF inv old j]) (auto simp: execute_step_def)
next
  case X_head
  then show ?thesis
    using step pc settledD(1) [OF old]
    by (auto simp: execute_step_def split: if_splits
        intro!: settled_return [OF inv old j] settled_move_client [OF inv old j])
next
  case (X_scan i)
  then show ?thesis
    using step pc tm_is_idle_no_throw pool_inv_managers [OF inv]
    by (auto simp: execute_step_def tm_is_idle_Returns_iff
        intro!: settled_move_client [OF inv old j] split: if_splits outcome.splits bool.splits)
next
  case (X_set i)
  have i: "i < length (p_tasks p)"
    using pool_inv_client [OF inv j] pc X_set by (simp add: client_ok_def)
  have alive: "is_alive (tm_thread (p_tasks p ! i))" and go: "all_go (p_tasks p)"
    using settledD(2) [OF old j] pc X_set by (simp_all add: client_knows_def)
  have this_settled: "manager_settled (p_tasks p ! i)" and this_go: "tm_go (p_tasks p ! i)"
    using settledD(1) [OF old] go i by (simp_all add: managers_settled_def all_go_def)
  obtain b tm where r: "tm_set_task k (Client j) t (p_tasks p ! i) = Returns (b, tm)"
    using step X_set tm_set_task_no_throw [OF pool_inv_managers [OF inv] i]
    by (auto simp: execute_step_def split: outcome.splits)
  have "manager_settled tm" and "tm_go tm"
    using r this_settled this_go alive
    by (auto simp: tm_set_task_Returns_iff manager_settled_def split: if_splits)
  then show ?thesis
    using step pc X_set r settledD(1) [OF old] go
    by (cases b) (auto simp: execute_step_def managers_settled_update all_go_update
        intro!: settled_return [OF inv old j] settled_move_manager [OF inv old j])
next
  case X_wait
  then have "monitor (p_sync p) = Some (Client j)" "all_go (p_tasks p)"
    using client_owner [OF inv j] settledD(2) [OF old j] pc by (simp_all add: client_knows_def)
  then show ?thesis
    using step X_wait settledD(1) [OF old] pc
    by (intro settled_update [OF inv old j, where tms = "p_tasks p"
          and pc = "C_execute t X_asleep"])
      (auto simp: execute_step_def client_knows_outside)
next
  case X_asleep
  then have "monitor (p_sync p) = None"
    using step by (auto simp: execute_step_def sync_resume_cases split: if_splits)
  moreover from this have "all_go (p_tasks p)" by (rule settledD(3) [OF old])
  ultimately show ?thesis
    using step X_asleep settledD(1) [OF old] pc
    by (intro settled_update [OF inv old j, where tms = "p_tasks p" and pc = "C_execute t X_head"])
      (auto simp: execute_step_def client_knows_def sync_resume_cases split: if_splits)
qed

lemma settled_query:
  assumes inv: "pool_inv p" and old: "settled p" and j: "j < length (p_clients p)"
    and pc: "p_clients p ! j = C_query q x"
    and step: "q = Q_is_idle \<and> is_idle_step j x p = Some p' \<or>
               q = Q_is_busy \<and> is_busy_step j x p = Some p'"
  shows "settled p'"
proof (cases x)
  case Q_enter
  then show ?thesis
    using step pc
    by (intro settled_enter [OF inv old j, where pc = "C_query q Q_head"])
      (auto simp: is_idle_step_def is_busy_step_def)
next
  case Q_head
  then show ?thesis
    using step pc settledD(1) [OF old]
    by (auto simp: is_idle_step_def is_busy_step_def split: if_splits
        intro!: settled_return [OF inv old j] settled_move_client [OF inv old j])
next
  case (Q_scan i)
  have "all_go (p_tasks p)" using settledD(2) [OF old j] pc Q_scan by (simp add: client_knows_def)
  with Q_scan show ?thesis
    using step pc tm_is_idle_no_throw pool_inv_managers [OF inv] settledD(1) [OF old]
    by (auto simp: is_idle_step_def is_busy_step_def
        intro!: settled_return [OF inv old j] settled_move_client [OF inv old j]
        split: if_splits outcome.splits bool.splits)
qed

lemma settled_terminate:
  assumes inv: "pool_inv p" and old: "settled p" and j: "j < length (p_clients p)"
    and pc: "p_clients p ! j = C_terminate x" and step: "terminate_step j k x p = Some p'"
  shows "settled p'"
proof (cases x)
  case T_enter
  then show ?thesis
    using step pc
    by (intro settled_enter [OF inv old j, where pc = "C_terminate (T_stop 0)"])
      (auto simp: terminate_step_def)
next
  case (T_stop i)
  have "i < length (p_tasks p) \<Longrightarrow> manager_settled (p_tasks p ! i)"
    using settledD(1) [OF old] by (simp add: managers_settled_def)
  with T_stop show ?thesis
    using step pc tm_stop_no_throw pool_inv_managers [OF inv]
    by (auto simp: terminate_step_def tm_stop_Returns_iff manager_settled_def
        intro!: settled_move_client [OF inv old j] settled_move_manager [OF inv old j]
        split: if_splits outcome.splits)
next
  case (T_delete i)
  have known: "\<And>n. n < length (p_tasks p) \<Longrightarrow> n < i \<Longrightarrow> tm_pc (p_tasks p ! n) = W_done"
    using settledD(2) [OF old j] pc T_delete by (auto simp: client_knows_def)
  have "i < length (p_tasks p) \<Longrightarrow> manager_settled (p_tasks p ! i)"
    using settledD(1) [OF old] by (simp add: managers_settled_def)
  with T_delete known show ?thesis
    using step pc tm_destroy_begin_no_throw pool_inv_managers [OF inv]
    by (auto simp: terminate_step_def tm_destroy_begin_Returns_iff manager_settled_def
        intro!: settled_move_client [OF inv old j] settled_move_manager [OF inv old j]
        split: if_splits outcome.splits)
next
  case (T_join i)
  have known: "\<And>n. n < length (p_tasks p) \<Longrightarrow> n < i \<Longrightarrow> tm_pc (p_tasks p ! n) = W_done"
    using settledD(2) [OF old j] pc T_join by (auto simp: client_knows_def)
  have i: "i < length (p_tasks p)"
    using pool_inv_client [OF inv j] pc T_join by (simp add: client_ok_def)
  then have "manager_settled (p_tasks p ! i)"
    using settledD(1) [OF old] by (simp add: managers_settled_def)
  then obtain tm where tm: "tm_destroy_join (p_tasks p ! i) = Returns tm"
    and done_tm: "tm_pc tm = W_done" "manager_settled tm"
    using step T_join by (auto simp: terminate_step_def tm_destroy_join_def manager_settled_def
        thread_join_def is_alive_def split: if_splits)
  have "tm_pc ((p_tasks p)[i := tm] ! n) = W_done" if "n < length (p_tasks p)" "n < Suc i" for n
    using that known done_tm by (cases "n = i") auto
  then show ?thesis
    using step pc T_join tm done_tm
    by (auto simp: terminate_step_def intro!: settled_move_manager [OF inv old j])
next
  case T_clear
  then have "client_holds (p_clients p ! j)" using pc by simp
  moreover have "p' = client_return j None
      (set_sync (sync_notify k (p_sync p)) (p\<lparr>p_tasks := []\<rparr>))"
    using step T_clear by (simp add: terminate_step_def)
  ultimately show ?thesis
    by (auto simp: managers_settled_def pool_upd intro!: settled_return [OF inv old j])
qed

lemma settled_client_step:
  assumes inv: "pool_inv p" and old: "settled p" and j: "j < length (p_clients p)"
    and step: "client_step j k p = Some p'"
  shows "settled p'"
proof (cases "p_clients p ! j")
  case (C_execute t x)
  then show ?thesis using settled_execute [OF inv old j] step by (simp add: client_step_def)
next
  case (C_query q x)
  then show ?thesis
    using settled_query [OF inv old j] step by (cases q) (auto simp: client_step_def)
next
  case (C_terminate x)
  then show ?thesis using settled_terminate [OF inv old j] step by (simp add: client_step_def)
qed (use step in \<open>auto simp: client_step_def\<close>)

text \<open>The other steps.\<close>

lemma settled_call:
  assumes old: "settled p" and pc: "p_clients p ! j = C_outside r"
  shows "settled (client_call j c p)"
proof -
  have "client_knows (p_tasks p) ((p_clients p)[j := new] ! i)"
    if "i < length (p_clients p)" and "\<not> client_holds new" for i new
    using that settledD(2) [OF old that(1)] by (cases "i = j") (auto simp: client_knows_outside)
  moreover have "\<not> is_terminate ((p_clients p)[j := new] ! i)"
    if "i < length (p_clients p)" and "\<not> is_terminate new" and "\<not> p_terminating p" for i new
    using that settledD(4) [OF old that(1)] by (cases "i = j") auto
  ultimately show ?thesis
    using old by (cases c) (auto simp: client_call_def settled_def)
qed

lemma manager_settled_step:
  assumes "tm_inv w tm" and "manager_settled tm" and "worker_step w e tm = Some (tm', ev)"
  shows "manager_settled tm'"
  using assms
  by (cases "tm_pc tm")
    (auto simp: worker_step_def tm_defs manager_settled_def sync_resume_cases lock_enter_cases
       split: if_splits option.splits run_end.splits)

lemma worker_step_not_done: "worker_step w e tm = Some (tm', ev) \<Longrightarrow> tm_pc tm \<noteq> W_done"
  by (auto simp: worker_step_def)

lemma about_to_set_update:
  "about_to_set tms pc \<Longrightarrow> (i < length tms \<Longrightarrow> tm_thread tm = tm_thread (tms ! i)) \<Longrightarrow>
   about_to_set (tms[i := tm]) pc"
proof (induction tms pc rule: about_to_set.induct)
  case (1 tms t n)
  then show ?case
    by (cases "i < length tms") (auto simp: nth_list_update list_update_beyond not_less)
qed auto

lemma settled_background:
  assumes old: "settled p" and i: "i < length (p_tasks p)"
    and tm: "manager_settled tm" "tm_thread tm = tm_thread (p_tasks p ! i)"
      "tm_go tm = tm_go (p_tasks p ! i)"
      "tm_pc (p_tasks p ! i) = W_done \<Longrightarrow> tm_pc tm = W_done"
    and p': "p_tasks p' = (p_tasks p)[i := tm]" "p_clients p' = p_clients p"
      "monitor (p_sync p') = monitor (p_sync p)" "p_terminating p' = p_terminating p"
  shows "settled p'"
proof -
  have go: "all_go (p_tasks p) \<Longrightarrow> all_go ((p_tasks p)[i := tm])"
    using tm(3) i all_go_update [of "p_tasks p" tm i] by (simp add: all_go_def)
  have "client_knows ((p_tasks p)[i := tm]) pc" if "client_knows (p_tasks p) pc" for pc
  proof -
    have "tm_pc ((p_tasks p)[i := tm] ! n) = W_done"
      if "n < length (p_tasks p)" "tm_pc (p_tasks p ! n) = W_done" for n
      using that tm(4) by (cases "n = i") auto
    then show ?thesis
      using that go tm(2) about_to_set_update [of "p_tasks p" pc i tm]
      by (auto simp: client_knows_def)
  qed
  then show ?thesis
    using settledD [OF old] go tm(1) p' by (auto simp: settled_def managers_settled_update)
qed

lemma record_event_terminating [simp]:
  "p_terminating (record_event ev p) = p_terminating p"
  "p_terminating (idle_notification k p) = p_terminating p"
  by (simp_all add: record_event_def idle_notification_def)

lemma settled_step:
  assumes inv: "pool_inv p" and old: "settled p" and step: "pool_step p l = Some p'"
  shows "settled p'"
proof (cases l)
  case (L_call j c)
  then show ?thesis
    using step settled_call [OF old]
    by (auto simp: pool_step_def split: if_splits client_pc.splits)
next
  case (L_client j k)
  then show ?thesis
    using step settled_client_step [OF inv old] by (auto simp: pool_step_def split: if_splits)
next
  case (L_worker i e k)
  then obtain tm ev where i: "i < length (p_tasks p)"
    and w: "worker_step (Worker i) e (p_tasks p ! i) = Some (tm, ev)"
    and p': "p' = record_event ev ((if ev = Ev_idle then idle_notification k else id)
                                     (set_manager i tm p))"
    using step by (auto simp: pool_step_def split: if_splits option.splits)
  have ok: "tm_inv (Worker i) (p_tasks p ! i)" "manager_settled (p_tasks p ! i)"
    using managers_ok_nth [OF pool_inv_managers [OF inv] i] settledD(1) [OF old] i
    by (simp_all add: managers_settled_def)
  show ?thesis
    using manager_settled_step [OF ok w] worker_step_go [OF ok(1) w] worker_step_not_done [OF w]
    by (intro settled_background [OF old i, of tm]) (auto simp: p')
next
  case (L_client_spurious j)
  then show ?thesis
    using step old by (auto simp: pool_step_def settled_def sync_spurious_def)
next
  case (L_worker_spurious i)
  then have i: "i < length (p_tasks p)"
    and p': "p' = set_manager i (worker_spurious (Worker i) (p_tasks p ! i)) p"
    using step by (auto simp: pool_step_def split: if_splits)
  have "manager_settled (p_tasks p ! i)"
    using settledD(1) [OF old] i by (simp add: managers_settled_def)
  then show ?thesis
    by (intro settled_background [OF old i, of "worker_spurious (Worker i) (p_tasks p ! i)"])
      (auto simp: p' worker_spurious_def manager_settled_def)
qed

section \<open>The account of the tasks\<close>

text \<open>The task a client is still trying to hand over.\<close>
fun in_flight :: "client_pc \<Rightarrow> task multiset" where
  "in_flight (C_execute t x) = ptr_tasks t"
| "in_flight _ = {#}"

definition ledger :: "pool \<Rightarrow> bool" where
  "ledger p \<longleftrightarrow>
     p_submitted p = p_finished p + p_discarded p + owned tm_held (p_tasks p)
                       + owned in_flight (p_clients p) \<and>
     p_started p = p_finished p + owned tm_running (p_tasks p) \<and>
     (\<not> p_terminating p \<and> p_tasks p \<noteq> [] \<longrightarrow> p_discarded p = {#})"

lemma ledger_client:
  assumes old: "ledger p" and j: "j < length (p_clients p)"
    and flight: "in_flight pc + d = in_flight (p_clients p ! j)"
    and p': "p_clients p' = (p_clients p)[j := pc]" "p_submitted p' = p_submitted p"
      "p_started p' = p_started p" "p_finished p' = p_finished p"
      "p_terminating p' = p_terminating p"
    and held: "p_discarded p' + owned tm_held (p_tasks p') =
               p_discarded p + owned tm_held (p_tasks p) + d"
    and running: "owned tm_running (p_tasks p') = owned tm_running (p_tasks p)"
    and disc: "\<not> p_terminating p \<Longrightarrow> p_tasks p' \<noteq> [] \<Longrightarrow>
               p_tasks p \<noteq> [] \<and> p_discarded p' = p_discarded p"
  shows "ledger p'"
proof -
  have flights: "owned in_flight (p_clients p) = owned in_flight ((p_clients p)[j := pc]) + d"
    by (rule owned_update_sub [OF j flight, symmetric])
  have "p_submitted p =
      p_finished p + p_discarded p + owned tm_held (p_tasks p) + owned in_flight (p_clients p)"
    using old by (simp add: ledger_def)
  also have "\<dots> = p_finished p + (p_discarded p + owned tm_held (p_tasks p) + d)
      + owned in_flight ((p_clients p)[j := pc])"
    by (simp only: flights ac_simps)
  also have "\<dots> = p_finished p + (p_discarded p' + owned tm_held (p_tasks p'))
      + owned in_flight ((p_clients p)[j := pc])"
    by (simp only: held)
  finally have "p_submitted p' = p_finished p' + p_discarded p' + owned tm_held (p_tasks p')
      + owned in_flight (p_clients p')"
    by (simp add: p' ac_simps)
  moreover have "p_started p' = p_finished p' + owned tm_running (p_tasks p')"
    using old p' running by (simp add: ledger_def)
  moreover have "\<not> p_terminating p' \<and> p_tasks p' \<noteq> [] \<longrightarrow> p_discarded p' = {#}"
    using old p'(5) disc by (auto simp: ledger_def)
  ultimately show ?thesis by (simp add: ledger_def)
qed

lemma ledger_move:
  assumes "ledger p" "j < length (p_clients p)" "in_flight pc = in_flight (p_clients p ! j)"
  shows "ledger (set_client j pc p)"
  by (rule ledger_client [OF assms(1,2), where d = "{#}" and pc = pc])
    (auto simp: assms(3) pool_upd)

lemma ledger_sync [simp]: "ledger (set_sync s p) \<longleftrightarrow> ledger p"
  by (simp add: ledger_def pool_upd)

lemma ledger_return:
  assumes "ledger p" "j < length (p_clients p)" "in_flight (p_clients p ! j) = {#}"
  shows "ledger (client_return j r p)"
  unfolding client_return_def by (rule ledger_move) (use assms in simp_all)

lemma ledger_manager:
  assumes "ledger p" "i < length (p_tasks p)"
    and "tm_held tm = tm_held (p_tasks p ! i)" "tm_running tm = tm_running (p_tasks p ! i)"
  shows "ledger (set_manager i tm p)"
  using assms owned_update_same [OF assms(2), of tm_held tm]
    owned_update_same [OF assms(2), of tm_running tm]
  by (simp add: ledger_def pool_upd)

lemma pool_upd_ghosts [simp]:
  "p_submitted (set_client j pc p) = p_submitted p" "p_started (set_client j pc p) = p_started p"
  "p_finished (set_client j pc p) = p_finished p"
  "p_discarded (set_client j pc p) = p_discarded p"
  "p_submitted (set_manager i tm p) = p_submitted p" "p_started (set_manager i tm p) = p_started p"
  "p_finished (set_manager i tm p) = p_finished p"
  "p_discarded (set_manager i tm p) = p_discarded p"
  "p_submitted (set_sync s p) = p_submitted p" "p_started (set_sync s p) = p_started p"
  "p_finished (set_sync s p) = p_finished p" "p_discarded (set_sync s p) = p_discarded p"
  by (simp_all add: pool_upd)

lemma client_return_fields [simp]:
  "p_tasks (client_return j r p) = p_tasks p"
  "p_clients (client_return j r p) = (p_clients p)[j := C_outside r]"
  "p_submitted (client_return j r p) = p_submitted p" "p_started (client_return j r p) = p_started p"
  "p_finished (client_return j r p) = p_finished p"
  "p_discarded (client_return j r p) = p_discarded p"
  "p_terminating (client_return j r p) = p_terminating p"
  by (simp_all add: client_return_def)

lemma client_enter_ledger:
  assumes "ledger p" "j < length (p_clients p)" "client_enter j pc p = Some p'"
    and "in_flight pc = in_flight (p_clients p ! j)" "monitor (p_sync p) \<noteq> Some (Client j)"
  shows "ledger p'"
  using assms(3,5) assms(1,2,4)
  by (auto simp: client_enter_def lock_enter_cases intro!: ledger_move
      split: option.splits if_splits)

lemma not_owner:
  "pool_inv p \<Longrightarrow> j < length (p_clients p) \<Longrightarrow> \<not> client_holds (p_clients p ! j) \<Longrightarrow>
   monitor (p_sync p) \<noteq> Some (Client j)"
  using pool_inv_client [of p j] by (simp add: client_ok_def)

lemma ledger_execute:
  assumes inv: "pool_inv p" and old: "ledger p" and j: "j < length (p_clients p)"
    and pc: "p_clients p ! j = C_execute t x" and step: "execute_step j k t x p = Some p'"
  shows "ledger p'"
proof (cases x)
  case X_enter
  then show ?thesis
    using step pc not_owner [OF inv j]
    by (intro client_enter_ledger [OF old j]) (auto simp: execute_step_def)
next
  case X_head
  show ?thesis
  proof (cases "p_tasks p = []")
    case True
    then have "p' = client_return j None (p\<lparr>p_discarded := p_discarded p + ptr_tasks t\<rparr>)"
      using step X_head by (simp add: execute_step_def)
    then show ?thesis
      using True pc
      by (intro ledger_client [OF old j, where d = "ptr_tasks t" and pc = "C_outside None"]) auto
  next
    case False
    then show ?thesis
      using step X_head pc old j by (auto simp: execute_step_def intro!: ledger_move)
  qed
next
  case (X_scan i)
  then show ?thesis
    using step pc old j tm_is_idle_no_throw pool_inv_managers [OF inv]
    by (auto simp: execute_step_def intro!: ledger_move
        split: if_splits outcome.splits bool.splits)
next
  case (X_set i)
  have i: "i < length (p_tasks p)"
    using pool_inv_client [OF inv j] pc X_set by (simp add: client_ok_def)
  have ok: "tm_inv (Worker i) (p_tasks p ! i)" by (rule managers_ok_nth [OF pool_inv_managers [OF inv] i])
  obtain b tm where r: "tm_set_task k (Client j) t (p_tasks p ! i) = Returns (b, tm)"
    using step X_set tm_set_task_no_throw [OF pool_inv_managers [OF inv] i]
    by (auto simp: execute_step_def split: outcome.splits)
  note running = posix_host.offer_owned_running [OF i ok r]
  show ?thesis
  proof (cases b)
    case True
    then have "p' = client_return j None (set_manager i tm p)"
      using step X_set r by (simp add: execute_step_def)
    then show ?thesis
      using True pc r posix_host.taken_owned [OF i, of k "Client j" t tm] running i
      by (intro ledger_client [OF old j, where d = "ptr_tasks t" and pc = "C_outside None"])
        (auto simp: ac_simps)
  next
    case False
    then have "p' = set_client j (C_execute t (X_scan (Suc i))) (set_manager i tm p)"
      using step X_set r by (simp add: execute_step_def)
    then show ?thesis
      using False pc r posix_host.refused_owned [OF i, of k "Client j" t tm] running i
      by (intro ledger_client [OF old j, where d = "{#}" and
            pc = "C_execute t (X_scan (Suc i))"]) auto
  qed
next
  case X_wait
  then show ?thesis
    using step pc old j client_owner [OF inv j]
    by (auto simp: execute_step_def intro!: ledger_move)
next
  case X_asleep
  then show ?thesis
    using step pc old j
    by (auto simp: execute_step_def sync_resume_cases intro!: ledger_move split: if_splits)
qed

lemma ledger_query:
  assumes inv: "pool_inv p" and old: "ledger p" and j: "j < length (p_clients p)"
    and pc: "p_clients p ! j = C_query q x"
    and step: "q = Q_is_idle \<and> is_idle_step j x p = Some p' \<or>
               q = Q_is_busy \<and> is_busy_step j x p = Some p'"
  shows "ledger p'"
proof (cases x)
  case Q_enter
  then show ?thesis
    using step pc not_owner [OF inv j]
    by (intro client_enter_ledger [OF old j, where pc = "C_query q Q_head"])
      (auto simp: is_idle_step_def is_busy_step_def)
next
  case Q_head
  then show ?thesis
    using step pc old j
    by (auto simp: is_idle_step_def is_busy_step_def intro!: ledger_move ledger_return
        split: if_splits)
next
  case (Q_scan i)
  then show ?thesis
    using step pc old j tm_is_idle_no_throw pool_inv_managers [OF inv]
    by (auto simp: is_idle_step_def is_busy_step_def intro!: ledger_move ledger_return
        split: if_splits outcome.splits bool.splits)
qed

lemma ledger_terminate:
  assumes inv: "pool_inv p" and sett: "settled p" and old: "ledger p"
    and j: "j < length (p_clients p)"
    and pc: "p_clients p ! j = C_terminate x" and step: "terminate_step j k x p = Some p'"
  shows "ledger p'"
proof (cases x)
  case T_enter
  then show ?thesis
    using step pc not_owner [OF inv j]
    by (intro client_enter_ledger [OF old j, where pc = "C_terminate (T_stop 0)"])
      (auto simp: terminate_step_def)
next
  case (T_stop i)
  then show ?thesis
    using step pc old j tm_stop_no_throw pool_inv_managers [OF inv]
    by (auto simp: terminate_step_def tm_stop_Returns_iff tm_held_def tm_running_def
        intro!: ledger_move ledger_manager split: if_splits outcome.splits)
next
  case (T_delete i)
  then show ?thesis
    using step pc old j tm_destroy_begin_no_throw pool_inv_managers [OF inv]
    by (auto simp: terminate_step_def tm_destroy_begin_Returns_iff tm_held_def tm_running_def
        intro!: ledger_move ledger_manager split: if_splits outcome.splits)
next
  case (T_join i)
  have "i < length (p_tasks p)"
    using pool_inv_client [OF inv j] pc T_join by (simp add: client_ok_def)
  then show ?thesis
    using step pc old j T_join
    by (auto simp: terminate_step_def tm_destroy_join_def tm_held_def tm_running_def
        intro!: ledger_move ledger_manager split: if_splits)
next
  case T_clear
  have done_all: "tm_pc (p_tasks p ! i) = W_done \<and> tm_task (p_tasks p ! i) = None"
    if "i < length (p_tasks p)" for i
    using that settledD(1) [OF sett] settledD(2) [OF sett j] pc T_clear
    by (auto simp: client_knows_def managers_settled_def manager_settled_def)
  have "owned tm_held (p_tasks p) = {#}" "owned tm_running (p_tasks p) = {#}"
    using done_all by (auto simp: tm_held_def tm_running_def intro!: owned_all_empty)
  moreover have "p' = client_return j None
      (set_sync (sync_notify k (p_sync p)) (p\<lparr>p_tasks := []\<rparr>))"
    using step T_clear by (simp add: terminate_step_def)
  ultimately show ?thesis
    using pc T_clear settledD(4) [OF sett j]
    by (intro ledger_client [OF old j, where d = "{#}" and pc = "C_outside None"]) auto
qed

lemma ledger_call:
  assumes old: "ledger p" and j: "j < length (p_clients p)" and pc: "p_clients p ! j = C_outside r"
  shows "ledger (client_call j c p)"
proof -
  have none: "in_flight (p_clients p ! j) = {#}" using pc by simp
  then have "owned in_flight ((p_clients p)[j := C_execute t X_enter]) =
      owned in_flight (p_clients p) + ptr_tasks t" for t
    by (intro owned_update_add [OF j]) simp
  moreover have "owned in_flight ((p_clients p)[j := new]) = owned in_flight (p_clients p)"
    if "in_flight new = {#}" for new
    by (rule owned_update_same [OF j]) (simp add: none that)
  ultimately show ?thesis
    using old by (cases c) (auto simp: client_call_def ledger_def pool_upd ac_simps)
qed

lemma ledger_worker:
  assumes old: "ledger p" and i: "i < length (p_tasks p)"
    and ok: "tm_inv (Worker i) (p_tasks p ! i)" and live: "all_go (p_tasks p) \<or> p_terminating p"
    and w: "worker_step (Worker i) e (p_tasks p ! i) = Some (tm, ev)"
    and p': "p_tasks p' = (p_tasks p)[i := tm]" "p_clients p' = p_clients p"
      "p_submitted p' = p_submitted p" "p_started p' = p_started p + ev_started ev"
      "p_finished p' = p_finished p + ev_finished ev"
      "p_discarded p' = p_discarded p + ev_discarded ev" "p_terminating p' = p_terminating p"
  shows "ledger p'"
proof -
  note held = posix_host.step_owned [OF i ok w]
  note running = posix_host.step_owned_running [OF i ok w]
  have "p_submitted p' = p_finished p + p_discarded p + owned tm_held (p_tasks p)
      + owned in_flight (p_clients p)"
    using old p' by (simp add: ledger_def)
  also have "\<dots> = p_finished p' + p_discarded p' + owned tm_held (p_tasks p')
      + owned in_flight (p_clients p')"
    by (simp only: held [symmetric] p' ac_simps)
  finally have sub: "p_submitted p' = \<dots>" .
  have "p_started p' = p_finished p + (owned tm_running (p_tasks p) + ev_started ev)"
    using old p' by (simp add: ledger_def ac_simps)
  also have "\<dots> = p_finished p + (owned tm_running ((p_tasks p)[i := tm]) + ev_finished ev)"
    by (simp only: running)
  also have "\<dots> = p_finished p' + owned tm_running (p_tasks p')"
    by (simp only: p' ac_simps)
  finally have started: "p_started p' = \<dots>" .
  have "\<not> p_terminating p \<Longrightarrow> ev_discarded ev = {#}"
    using worker_step_go [OF ok w] live i by (auto simp: all_go_def)
  then have "\<not> p_terminating p' \<and> p_tasks p' \<noteq> [] \<longrightarrow> p_discarded p' = {#}"
    using old p' by (auto simp: ledger_def)
  with sub started show ?thesis by (simp add: ledger_def)
qed

lemma not_terminating_all_go:
  assumes "pool_inv p" and "settled p"
  shows "all_go (p_tasks p) \<or> p_terminating p"
proof (cases "monitor (p_sync p)")
  case None
  then show ?thesis using settledD(3) [OF assms(2)] by simp
next
  case (Some u)
  then obtain j where j: "j < length (p_clients p)" "u = Client j"
    using assms(1) by (auto simp: pool_inv_def)
  then have "client_holds (p_clients p ! j)"
    using pool_inv_client [OF assms(1) j(1)] Some by (simp add: client_ok_def)
  then show ?thesis
    using settledD(2,4) [OF assms(2) j(1)] by (auto simp: client_knows_def)
qed

lemma ledger_step:
  assumes inv: "pool_inv p" and sett: "settled p" and old: "ledger p"
    and step: "pool_step p l = Some p'"
  shows "ledger p'"
proof (cases l)
  case (L_call j c)
  then show ?thesis
    using step ledger_call [OF old] by (auto simp: pool_step_def split: if_splits client_pc.splits)
next
  case (L_client j k)
  then have j: "j < length (p_clients p)" and c: "client_step j k p = Some p'"
    using step by (auto simp: pool_step_def split: if_splits)
  show ?thesis
    using c ledger_execute [OF inv old j] ledger_query [OF inv old j]
      ledger_terminate [OF inv sett old j]
    by (auto simp: client_step_def split: client_pc.splits query.splits)
next
  case (L_worker i e k)
  then obtain tm ev where i: "i < length (p_tasks p)"
    and w: "worker_step (Worker i) e (p_tasks p ! i) = Some (tm, ev)"
    and p': "p' = record_event ev ((if ev = Ev_idle then idle_notification k else id)
                                     (set_manager i tm p))"
    using step by (auto simp: pool_step_def split: if_splits option.splits)
  show ?thesis
    by (rule ledger_worker [OF old i managers_ok_nth [OF pool_inv_managers [OF inv] i]
          not_terminating_all_go [OF inv sett] w])
      (auto simp: p' record_event_def idle_notification_def)
next
  case (L_client_spurious j)
  then show ?thesis using step old by (auto simp: pool_step_def)
next
  case (L_worker_spurious i)
  then show ?thesis
    using step old
    by (auto simp: pool_step_def worker_spurious_def tm_held_def tm_running_def
        intro!: ledger_manager split: if_splits)
qed

section \<open>The whole invariant\<close>

definition pool_good :: "pool \<Rightarrow> bool" where
  "pool_good p \<longleftrightarrow> pool_inv p \<and> settled p \<and> ledger p"

lemma pool_good_step: "pool_good p \<Longrightarrow> pool_step p l = Some p' \<Longrightarrow> pool_good p'"
  by (auto simp: pool_good_def intro: pool_inv_step settled_step ledger_step)

interpretation pool_account: step_invariant pool_step pool_good
  by unfold_locales (rule pool_good_step)

lemma manager_settled_construct: "manager_settled (tm_construct err n)"
  by (auto simp: manager_settled_def tm_construct_def)

lemma pool_good_construct: "pool_good (pool_construct_stack errs n stack m)"
proof -
  have "owned tm_held (map (\<lambda>i. tm_construct (errs i) stack) [0..<n]) = {#}"
    "owned tm_running (map (\<lambda>i. tm_construct (errs i) stack) [0..<n]) = {#}"
    "owned in_flight (replicate m (C_outside None)) = {#}"
    by (auto intro!: owned_all_empty)
  then show ?thesis
    using pool_inv_construct [of errs n stack m]
    by (auto simp: pool_good_def ledger_def settled_def client_knows_outside
        pool_construct_stack_def managers_settled_def manager_settled_construct all_go_def)
qed

lemma pool_reach_good: "reach pool_step (pool_construct_stack errs n stack m) p \<Longrightarrow> pool_good p"
  using pool_account.inv_reach pool_good_construct by blast

end
