(* ===== verification/Pool_Progress.thy ===== *)
theory Pool_Progress
  imports Pool_Tasks
begin

text \<open>
  Progress of the pool.  A worker inside its lock comes out of it, a worker asked to stop and
  woken returns, and so a call that is inside the pool's lock can always go on; \<open>terminate\<close>,
  once inside, returns.  Tasks are taken to return, which is what the step of the location
  \<open>W_run\<close> says.
\<close>

section \<open>A worker comes out of its lock\<close>

text \<open>How many steps the worker is from releasing its lock, and from returning.\<close>
definition steps_to_free :: "task_manager \<Rightarrow> nat" where
  "steps_to_free tm =
     (case tm_pc tm of
        W_inner \<Rightarrow> if \<not> tm_go tm then 7 else if tm_task tm = None then 1 else 11
      | W_notify \<Rightarrow> 8
      | W_run \<Rightarrow> 9
      | W_while \<Rightarrow> if \<not> tm_go tm then 6 else if tm_task tm = None then 2 else 10
      | W_exit \<Rightarrow> 5
      | _ \<Rightarrow> 0)"

definition steps_to_done :: "task_manager \<Rightarrow> nat" where
  "steps_to_done tm =
     (case tm_pc tm of
        W_exit \<Rightarrow> 1 | W_while \<Rightarrow> 2 | W_inner \<Rightarrow> 3 | W_notify \<Rightarrow> 4 | W_run \<Rightarrow> 5 | W_asleep \<Rightarrow> 6
      | W_enter \<Rightarrow> 7 | _ \<Rightarrow> 0)"

lemma worker_towards_free:
  assumes "tm_inv w tm" and "worker_holds (tm_pc tm)"
  shows "\<exists>tm' ev. worker_step w Run_returns tm = Some (tm', ev) \<and>
    steps_to_free tm' < steps_to_free tm"
  using assms
  by (cases "tm_pc tm") (auto simp: worker_step_def tm_defs steps_to_free_def)

lemma worker_towards_done:
  assumes "tm_inv w tm" and "tm_pc tm \<noteq> W_done" and "\<not> tm_go tm" and "cond (tm_sync tm) = []"
  shows "\<exists>tm' ev. worker_step w Run_returns tm = Some (tm', ev) \<and>
    steps_to_done tm' < steps_to_done tm"
  using assms
  by (cases "tm_pc tm")
    (auto simp: worker_step_def tm_defs steps_to_done_def sync_resume_cases lock_enter_cases)

text \<open>
  The steps of the threads of a call that nobody helps: those of the client \<open>j\<close> and of the
  workers, without a spurious wake-up and without a step of any other client.
\<close>
definition unaided_step :: "nat \<Rightarrow> pool \<Rightarrow> pool_label \<Rightarrow> pool option" where
  "unaided_step j p l =
     (case l of
        L_client i k \<Rightarrow> if i = j then pool_step p l else None
      | L_worker i e k \<Rightarrow> pool_step p l
      | _ \<Rightarrow> None)"

lemma unaided_step_simps [simp]:
  "unaided_step j p (L_client j k) = pool_step p (L_client j k)"
  "unaided_step j p (L_worker i e k) = pool_step p (L_worker i e k)"
  by (simp_all add: unaided_step_def)

text \<open>What a run of one worker leaves alone.\<close>
definition only_worker :: "nat \<Rightarrow> pool \<Rightarrow> pool \<Rightarrow> bool" where
  "only_worker i p p' \<longleftrightarrow> p_clients p' = p_clients p \<and>
     monitor (p_sync p') = monitor (p_sync p) \<and> length (p_tasks p') = length (p_tasks p) \<and>
     tm_go (p_tasks p' ! i) = tm_go (p_tasks p ! i)"

lemma only_worker_refl [simp]: "only_worker i p p"
  by (simp add: only_worker_def)

lemma only_worker_trans: "only_worker i p q \<Longrightarrow> only_worker i q r \<Longrightarrow> only_worker i p r"
  by (simp add: only_worker_def)

lemma pool_worker_step:
  assumes good: "pool_good p" and i: "i < length (p_tasks p)"
    and w: "worker_step (Worker i) Run_returns (p_tasks p ! i) = Some (tm, ev)"
  shows "\<exists>p'. pool_step p (L_worker i Run_returns 0) = Some p' \<and> pool_good p' \<and>
    only_worker i p p' \<and> p_tasks p' ! i = tm"
proof -
  let ?p = "record_event ev ((if ev = Ev_idle then idle_notification 0 else id)
              (set_manager i tm p))"
  have step: "pool_step p (L_worker i Run_returns 0) = Some ?p"
    using i w by (simp add: pool_step_def)
  have "tm_inv (Worker i) (p_tasks p ! i)"
    using good i managers_ok_nth by (auto simp: pool_good_def)
  from worker_step_go [OF this w] have "tm_go tm = tm_go (p_tasks p ! i)" by simp
  then show ?thesis
    using step pool_good_step [OF good step] i by (auto simp: only_worker_def)
qed

lemma pool_manager_inv:
  "pool_good p \<Longrightarrow> i < length (p_tasks p) \<Longrightarrow> tm_inv (Worker i) (p_tasks p ! i)"
  using managers_ok_nth by (auto simp: pool_good_def)

lemma pool_worker_frees:
  assumes "pool_good p" and "i < length (p_tasks p)"
  shows "\<exists>p'. reach (unaided_step j) p p' \<and> pool_good p' \<and> only_worker i p p' \<and>
    monitor (tm_sync (p_tasks p' ! i)) = None"
  using assms
proof (induction "steps_to_free (p_tasks p ! i)" arbitrary: p rule: less_induct)
  case less
  note inv = pool_manager_inv [OF less.prems]
  show ?case
  proof (cases "worker_holds (tm_pc (p_tasks p ! i))")
    case False
    then show ?thesis using less.prems tm_inv_free [OF inv] by (intro exI [of _ p]) simp
  next
    case True
    from worker_towards_free [OF inv True] obtain tm ev
      where w: "worker_step (Worker i) Run_returns (p_tasks p ! i) = Some (tm, ev)"
        and less_tm: "steps_to_free tm < steps_to_free (p_tasks p ! i)" by blast
    from pool_worker_step [OF less.prems w] obtain q
      where step: "pool_step p (L_worker i Run_returns 0) = Some q" and q: "pool_good q"
        "only_worker i p q" "p_tasks q ! i = tm" by blast
    from q less.prems have i: "i < length (p_tasks q)" by (simp add: only_worker_def)
    from less.hyps [of q, OF _ q(1) i] q(3) less_tm obtain p'
      where "reach (unaided_step j) q p'" "pool_good p'" "only_worker i q p'"
        "monitor (tm_sync (p_tasks p' ! i)) = None" by blast
    note p' = this
    have "reach (unaided_step j) p q"
      using step by (intro reach_one [of _ _ "L_worker i Run_returns 0"]) simp
    from reach_trans [OF p'(1) this] p'(2,4) only_worker_trans [OF q(2) p'(3)] show ?thesis
      by blast
  qed
qed

lemma pool_worker_returns:
  assumes "pool_good p" and "i < length (p_tasks p)"
    and "\<not> tm_go (p_tasks p ! i)" and "cond (tm_sync (p_tasks p ! i)) = []"
  shows "\<exists>p'. reach (unaided_step j) p p' \<and> pool_good p' \<and> only_worker i p p' \<and>
    tm_pc (p_tasks p' ! i) = W_done"
  using assms
proof (induction "steps_to_done (p_tasks p ! i)" arbitrary: p rule: less_induct)
  case less
  note inv = pool_manager_inv [OF less.prems(1,2)]
  show ?case
  proof (cases "tm_pc (p_tasks p ! i) = W_done")
    case True
    then show ?thesis using less.prems by (intro exI [of _ p]) simp
  next
    case False
    from worker_towards_done [OF inv False less.prems(3,4)] obtain tm ev
      where w: "worker_step (Worker i) Run_returns (p_tasks p ! i) = Some (tm, ev)"
        and less_tm: "steps_to_done tm < steps_to_done (p_tasks p ! i)" by blast
    from pool_worker_step [OF less.prems(1,2) w] obtain q
      where step: "pool_step p (L_worker i Run_returns 0) = Some q" and q: "pool_good q"
        "only_worker i p q" "p_tasks q ! i = tm" by blast
    from q less.prems have i: "i < length (p_tasks q)" and stopped: "\<not> tm_go (p_tasks q ! i)"
      by (simp_all add: only_worker_def)
    have "cond (tm_sync (p_tasks q ! i)) = []"
      using worker_step_stopping [OF inv w less.prems(3,4)] q(3) by simp
    from less.hyps [of q, OF _ q(1) i stopped this] q(3) less_tm obtain p'
      where "reach (unaided_step j) q p'" "pool_good p'" "only_worker i q p'"
        "tm_pc (p_tasks p' ! i) = W_done" by blast
    note p' = this
    have "reach (unaided_step j) p q"
      using step by (intro reach_one [of _ _ "L_worker i Run_returns 0"]) simp
    from reach_trans [OF p'(1) this] p'(2,4) only_worker_trans [OF q(2) p'(3)] show ?thesis
      by blast
  qed
qed

section \<open>No deadlock\<close>

text \<open>Some thread can take a step of its own.\<close>
definition can_step :: "pool \<Rightarrow> bool" where
  "can_step p \<longleftrightarrow> (\<exists>j k p'. pool_step p (L_client j k) = Some p') \<or>
     (\<exists>i e k p'. pool_step p (L_worker i e k) = Some p')"

lemma worker_can_step:
  assumes "pool_good p" and "i < length (p_tasks p)"
    and "worker_step (Worker i) Run_returns (p_tasks p ! i) \<noteq> None"
  shows "can_step p"
  using assms pool_worker_step [OF assms(1,2)] unfolding can_step_def by fastforce

lemma client_can_step:
  "j < length (p_clients p) \<Longrightarrow> client_step j 0 p \<noteq> None \<Longrightarrow> can_step p"
  unfolding can_step_def by (auto simp: pool_step_def)

lemma free_or_can_step:
  assumes "pool_good p" and "i < length (p_tasks p)"
  shows "monitor (tm_sync (p_tasks p ! i)) = None \<or> can_step p"
proof (cases "worker_holds (tm_pc (p_tasks p ! i))")
  case True
  then show ?thesis
    using worker_towards_free [OF pool_manager_inv [OF assms]] worker_can_step [OF assms] by auto
next
  case False
  then show ?thesis using tm_inv_free [OF pool_manager_inv [OF assms]] by simp
qed

text \<open>A client inside the lock goes on as soon as the workers' locks are free.\<close>
lemma holder_step:
  assumes good: "pool_good p" and j: "j < length (p_clients p)"
    and holds: "client_holds (p_clients p ! j)"
    and free: "\<And>i. i < length (p_tasks p) \<Longrightarrow> monitor (tm_sync (p_tasks p ! i)) = None"
    and join: "\<And>i. p_clients p ! j = C_terminate (T_join i) \<Longrightarrow> tm_pc (p_tasks p ! i) = W_done"
  shows "client_step j k p \<noteq> None"
proof -
  have inv: "pool_inv p" using good by (simp add: pool_good_def)
  note ok = pool_inv_client [OF inv j]
  have own: "monitor (p_sync p) = Some (Client j)" by (rule client_owner [OF inv j holds])
  have idle: "tm_is_idle (Client j) (p_tasks p ! i) \<noteq> Blocked" if "i < length (p_tasks p)" for i
    using free [OF that] by (auto simp: tm_is_idle_def locked_Blocked_iff split: outcome.splits)
  have set: "tm_set_task k (Client j) t (p_tasks p ! i) \<noteq> Blocked" if "i < length (p_tasks p)" for i t
    using free [OF that] by (auto simp: tm_set_task_def locked_Blocked_iff split: outcome.splits)
  have stop: "tm_stop (Client j) (p_tasks p ! i) \<noteq> Blocked" if "i < length (p_tasks p)" for i
    using free [OF that] by (auto simp: tm_stop_def locked_Blocked_iff split: outcome.splits)
  have del: "tm_destroy_begin k (Client j) (p_tasks p ! i) \<noteq> Blocked"
    if "i < length (p_tasks p)" for i
    using free [OF that]
    by (auto simp: tm_destroy_begin_def locked_Blocked_iff split: outcome.splits)
  show ?thesis
  proof (cases "p_clients p ! j")
    case (C_execute t x)
    then show ?thesis
      using holds idle set own ok
      by (cases x) (auto simp: client_step_def execute_step_def client_ok_def
          split: outcome.splits bool.splits)
  next
    case (C_query q x)
    then show ?thesis
      using holds idle
      by (cases x; cases q) (auto simp: client_step_def is_idle_step_def is_busy_step_def
          split: outcome.splits bool.splits)
  next
    case (C_terminate x)
    then show ?thesis
      using holds stop del join
      by (cases x) (auto simp: client_step_def terminate_step_def tm_destroy_join_def
          split: outcome.splits)
  qed (use holds in auto)
qed

lemma holder_can_step:
  assumes good: "pool_good p" and j: "j < length (p_clients p)"
    and holds: "client_holds (p_clients p ! j)"
  shows "can_step p"
proof (cases "can_step p")
  case False
  have inv: "pool_inv p" using good by (simp add: pool_good_def)
  have "tm_pc (p_tasks p ! i) = W_done" if "p_clients p ! j = C_terminate (T_join i)" for i
  proof -
    have i: "i < length (p_tasks p)" "\<not> tm_go (p_tasks p ! i)"
      "cond (tm_sync (p_tasks p ! i)) = []"
      using pool_inv_client [OF inv j] that by (simp_all add: client_ok_def)
    show ?thesis
      using worker_towards_done [OF pool_manager_inv [OF good i(1)] _ i(2,3)]
        worker_can_step [OF good i(1)] False by auto
  qed
  with holder_step [OF good j holds] free_or_can_step [OF good] False client_can_step [OF j]
  show ?thesis by blast
qed simp

text \<open>Whether a client is inside a call without being asleep in it.\<close>
fun client_active :: "client_pc \<Rightarrow> bool" where
  "client_active (C_outside r) = False"
| "client_active C_threw = False"
| "client_active (C_execute t X_asleep) = False"
| "client_active _ = True"

lemma active_enters:
  "client_active pc \<Longrightarrow> \<not> client_holds pc \<Longrightarrow>
   (\<exists>t. pc = C_execute t X_enter) \<or> (\<exists>q. pc = C_query q Q_enter) \<or> pc = C_terminate T_enter"
  by (cases pc rule: client_active.cases) auto

lemma active_can_step:
  assumes good: "pool_good p" and j: "j < length (p_clients p)"
    and act: "client_active (p_clients p ! j)"
  shows "can_step p"
proof (cases "monitor (p_sync p)")
  case (Some u)
  have inv: "pool_inv p" using good by (simp add: pool_good_def)
  with Some obtain i where i: "i < length (p_clients p)" "u = Client i"
    by (auto simp: pool_inv_def)
  then have "client_holds (p_clients p ! i)"
    using pool_inv_client [OF inv i(1)] Some by (simp add: client_ok_def)
  then show ?thesis by (rule holder_can_step [OF good i(1)])
next
  case None
  show ?thesis
  proof (cases "client_holds (p_clients p ! j)")
    case True
    then show ?thesis by (rule holder_can_step [OF good j])
  next
    case False
    from active_enters [OF act False] None have "client_step j 0 p \<noteq> None"
      by (auto simp: client_step_def execute_step_def is_idle_step_def is_busy_step_def
          terminate_step_def client_enter_def lock_enter_cases split: query.splits)
    then show ?thesis by (rule client_can_step [OF j])
  qed
qed

section \<open>Terminating returns\<close>

text \<open>How far \<open>terminate\<close> is from its end, with \<open>n\<close> workers.\<close>
fun term_left :: "nat \<Rightarrow> term_pc \<Rightarrow> nat" where
  "term_left n T_enter = 0"
| "term_left n (T_stop i) = 2 * n + 3 + (n - i)"
| "term_left n (T_delete i) = 2 * (n - i) + 2"
| "term_left n (T_join i) = 2 * (n - i) + 1"
| "term_left n T_clear = 1"

definition returned :: "nat \<Rightarrow> pool \<Rightarrow> bool" where
  "returned j p \<longleftrightarrow> p_clients p ! j = C_outside None \<and> p_tasks p = []"

definition nearer :: "nat \<Rightarrow> nat \<Rightarrow> pool \<Rightarrow> bool" where
  "nearer j m p \<longleftrightarrow> (\<exists>y. p_clients p ! j = C_terminate y \<and> y \<noteq> T_enter \<and>
     term_left (length (p_tasks p)) y < m)"

lemma tm_stop_free:
  "monitor (tm_sync tm) = None \<Longrightarrow> tm_stop c tm = Returns (tm\<lparr>tm_go := False\<rparr>)"
  by (simp add: tm_stop_Returns_iff)

lemma tm_destroy_begin_free:
  "monitor (tm_sync tm) = None \<Longrightarrow>
   tm_destroy_begin k c tm = Returns (tm\<lparr>tm_go := False,
     tm_sync := (tm_sync tm)\<lparr>cond := cond_signal k (cond (tm_sync tm))\<rparr>\<rparr>)"
  by (simp add: tm_destroy_begin_Returns_iff)

lemma terminate_step_ready:
  assumes "pool_good p" and "j < length (p_clients p)" and "p_clients p ! j = C_terminate x"
    and "x \<noteq> T_enter"
    and "\<And>i. x = T_stop i \<or> x = T_delete i \<Longrightarrow> i < length (p_tasks p) \<Longrightarrow>
         monitor (tm_sync (p_tasks p ! i)) = None"
    and "\<And>i. x = T_join i \<Longrightarrow> i < length (p_tasks p) \<and> tm_pc (p_tasks p ! i) = W_done"
  shows "\<exists>p'. pool_step p (L_client j 0) = Some p' \<and>
    (returned j p' \<or> nearer j (term_left (length (p_tasks p)) x) p')"
proof (cases x)
  case (T_stop i)
  then show ?thesis
    using assms(2-5)
    by (cases "i < length (p_tasks p)")
      (auto simp: tm_stop_free pool_step_def client_step_def terminate_step_def nearer_def)
next
  case (T_delete i)
  then show ?thesis
    using assms(2-5)
    by (cases "i < length (p_tasks p)")
      (auto simp: tm_destroy_begin_free pool_step_def client_step_def terminate_step_def nearer_def)
next
  case (T_join i)
  then show ?thesis
    using assms(2-6)
    by (auto simp: pool_step_def client_step_def terminate_step_def tm_destroy_join_def nearer_def)
next
  case T_clear
  then show ?thesis
    using assms(2-4)
    by (auto simp: pool_step_def client_step_def terminate_step_def returned_def)
qed (use assms in simp)

lemma terminate_advances:
  assumes good: "pool_good p" and j: "j < length (p_clients p)"
    and pc: "p_clients p ! j = C_terminate x" and x: "x \<noteq> T_enter"
  shows "\<exists>p'. reach (unaided_step j) p p' \<and> pool_good p' \<and> length (p_clients p') = length (p_clients p) \<and>
    (returned j p' \<or> nearer j (term_left (length (p_tasks p)) x) p')"
proof -
  have inv: "pool_inv p" using good by (simp add: pool_good_def)
  have "\<exists>q. reach (unaided_step j) p q \<and> pool_good q \<and> p_clients q = p_clients p \<and>
      length (p_tasks q) = length (p_tasks p) \<and>
      (\<forall>i. (x = T_stop i \<or> x = T_delete i) \<and> i < length (p_tasks q) \<longrightarrow>
            monitor (tm_sync (p_tasks q ! i)) = None) \<and>
      (\<forall>i. x = T_join i \<longrightarrow> i < length (p_tasks q) \<and> tm_pc (p_tasks q ! i) = W_done)"
  proof (cases "\<exists>i. x = T_join i")
    case True
    then obtain i where i: "x = T_join i" by blast
    have "i < length (p_tasks p)" "\<not> tm_go (p_tasks p ! i)" "cond (tm_sync (p_tasks p ! i)) = []"
      using pool_inv_client [OF inv j] pc i by (simp_all add: client_ok_def)
    from pool_worker_returns [OF good this, of j] this(1) i show ?thesis
      by (auto simp: only_worker_def)
  next
    case no_join: False
    show ?thesis
    proof (cases "\<exists>i < length (p_tasks p). x = T_stop i \<or> x = T_delete i")
      case True
      then obtain i where i: "x = T_stop i \<or> x = T_delete i" "i < length (p_tasks p)" by blast
      from pool_worker_frees [OF good i(2), of j] i(1) show ?thesis
        by (auto simp: only_worker_def)
    next
      case False
      with no_join good show ?thesis by (intro exI [of _ p]) auto
    qed
  qed
  then obtain q where q: "reach (unaided_step j) p q" "pool_good q" "p_clients q = p_clients p"
      "length (p_tasks q) = length (p_tasks p)"
      "\<And>i. x = T_stop i \<or> x = T_delete i \<Longrightarrow> i < length (p_tasks q) \<Longrightarrow>
           monitor (tm_sync (p_tasks q ! i)) = None"
      "\<And>i. x = T_join i \<Longrightarrow> i < length (p_tasks q) \<and> tm_pc (p_tasks q ! i) = W_done"
    by blast
  have jq: "j < length (p_clients q)" and pcq: "p_clients q ! j = C_terminate x"
    using j pc q(3) by simp_all
  from terminate_step_ready [OF q(2) jq pcq x q(5,6)] obtain p'
    where step: "pool_step q (L_client j 0) = Some p'"
      and next_p: "returned j p' \<or> nearer j (term_left (length (p_tasks q)) x) p'"
    by blast
  have "length (p_clients p') = length (p_clients q)"
    using step jq pcq
    by (auto simp: pool_step_def client_step_def terminate_step_def client_enter_def
        split: term_pc.splits outcome.splits if_splits)
  moreover have "reach (unaided_step j) q p'"
    using step by (intro reach_one [of _ _ "L_client j 0"]) simp
  ultimately show ?thesis
    using reach_trans [OF _ q(1)] pool_good_step [OF q(2) step]
      next_p q(3,4)
    by auto
qed

lemma terminate_returns:
  assumes "pool_good p" and "j < length (p_clients p)"
    and "p_clients p ! j = C_terminate x" and "x \<noteq> T_enter"
  shows "\<exists>p'. reach (unaided_step j) p p' \<and> returned j p'"
  using assms
proof (induction "term_left (length (p_tasks p)) x" arbitrary: p x rule: less_induct)
  case less
  from terminate_advances [OF less.prems] obtain q
    where q: "reach (unaided_step j) p q" "pool_good q" "length (p_clients q) = length (p_clients p)"
      and out: "returned j q \<or> nearer j (term_left (length (p_tasks p)) x) q" by blast
  show ?case
  proof (cases "returned j q")
    case True
    then show ?thesis using q(1) by blast
  next
    case False
    with out obtain y where y: "p_clients q ! j = C_terminate y" "y \<noteq> T_enter"
      "term_left (length (p_tasks q)) y < term_left (length (p_tasks p)) x"
      by (auto simp: nearer_def)
    have "j < length (p_clients q)" using q(3) less.prems(2) by simp
    from less.hyps [OF y(3) q(2) this y(1,2)] obtain p'
      where more: "reach (unaided_step j) q p'" "returned j p'" by blast
    show ?thesis using reach_trans [OF more(1) q(1)] more(2) by blast
  qed
qed

end
