(* ===== verification/Pool_Properties.thy ===== *)
theory Pool_Properties
  imports Pool_Progress
begin

text \<open>
  What the thread pool promises its clients, proved for every interleaving of the model, and
  what it does not promise: two runs in which a notification is lost or reaches one client
  where two wait.
\<close>

section \<open>A client that runs alone\<close>

definition solo :: "nat \<Rightarrow> pool \<Rightarrow> pool \<Rightarrow> bool" where
  "solo j p p' \<longleftrightarrow> (\<exists>n. run_steps pool_step p (replicate n (L_client j 0)) = Some p')"

lemma solo_refl [simp, intro]: "solo j p p"
  unfolding solo_def by (rule exI [of _ 0]) simp

lemma solo_step:
  assumes "j < length (p_clients p)" and "client_step j 0 p = Some q" and "solo j q p'"
  shows "solo j p p'"
proof -
  from assms(3) obtain n where "run_steps pool_step q (replicate n (L_client j 0)) = Some p'"
    by (auto simp: solo_def)
  with assms(1,2) have "run_steps pool_step p (replicate (Suc n) (L_client j 0)) = Some p'"
    by (simp add: pool_step_def)
  then show ?thesis unfolding solo_def by blast
qed

lemma solo_reach: "solo j p p' \<Longrightarrow> reach pool_step p p'"
  by (auto simp: solo_def intro: run_steps_reach)

text \<open>The pool as a client inside its lock at location \<open>pc\<close> sees it.\<close>
definition inside_at :: "nat \<Rightarrow> client_pc \<Rightarrow> pool \<Rightarrow> pool" where
  "inside_at j pc p = set_client j pc (set_sync ((p_sync p)\<lparr>monitor := Some (Client j)\<rparr>) p)"

lemma inside_at_fields [simp]:
  "p_tasks (inside_at j pc p) = p_tasks p" "p_clients (inside_at j pc p) = (p_clients p)[j := pc]"
  "p_sync (inside_at j pc p) = (p_sync p)\<lparr>monitor := Some (Client j)\<rparr>"
  "set_client j pc' (inside_at j pc p) = inside_at j pc' p"
  by (simp_all add: inside_at_def pool_upd)

lemma inside_at_set_client [simp]: "inside_at j pc (set_client j pc' p) = inside_at j pc p"
  by (simp add: inside_at_def pool_upd)

lemma client_return_inside [simp]:
  "monitor (p_sync p) = None \<Longrightarrow>
   client_return j r (inside_at j pc p) = set_client j (C_outside r) p"
  by (simp add: client_return_def inside_at_def pool_upd)

lemma client_enter_alone:
  "monitor (p_sync p) = None \<Longrightarrow> p_clients p ! j = old \<Longrightarrow>
   client_enter j pc p = Some (inside_at j pc p)"
  by (simp add: client_enter_def lock_enter_cases inside_at_def)

definition slot_free :: "task_manager \<Rightarrow> bool" where
  "slot_free tm \<longleftrightarrow> tm_task tm = None \<and> is_alive (tm_thread tm)"

lemma tm_is_idle_free:
  "monitor (tm_sync tm) = None \<Longrightarrow> tm_is_idle c tm = Returns (slot_free tm)"
  by (simp add: tm_is_idle_Returns_iff slot_free_def)

definition locks_free :: "pool \<Rightarrow> bool" where
  "locks_free p \<longleftrightarrow> monitor (p_sync p) = None \<and>
     (\<forall>i < length (p_tasks p). monitor (tm_sync (p_tasks p ! i)) = None)"

section \<open>The queries\<close>

definition pool_idle_now :: "pool \<Rightarrow> bool" where
  "pool_idle_now p \<longleftrightarrow> p_tasks p \<noteq> [] \<and> (\<forall>i < length (p_tasks p). slot_free (p_tasks p ! i))"

definition query_answer :: "query \<Rightarrow> bool \<Rightarrow> bool" where
  "query_answer q idle = (case q of Q_is_idle \<Rightarrow> idle | Q_is_busy \<Rightarrow> \<not> idle)"

lemma query_scan:
  assumes "locks_free p" and "j < length (p_clients p)"
  shows "solo j (inside_at j (C_query q (Q_scan i)) p)
    (set_client j (C_outside (Some (query_answer q
       (\<forall>n < length (p_tasks p). i \<le> n \<longrightarrow> slot_free (p_tasks p ! n))))) p)"
proof (induction "length (p_tasks p) - i" arbitrary: i)
  case 0
  then have beyond: "\<not> i < length (p_tasks p)" by simp
  then have "client_step j 0 (inside_at j (C_query q (Q_scan i)) p) =
      Some (set_client j (C_outside (Some (query_answer q True))) p)"
    using assms by (cases q) (simp_all add: client_step_def is_idle_step_def is_busy_step_def
        query_answer_def locks_free_def)
  moreover have "(\<forall>n < length (p_tasks p). i \<le> n \<longrightarrow> slot_free (p_tasks p ! n)) = True"
    using beyond by auto
  ultimately show ?case
    using assms(2) by (simp add: solo_step [OF _ _ solo_refl])
next
  case (Suc m)
  then have i: "i < length (p_tasks p)" by simp
  have free: "monitor (tm_sync (p_tasks p ! i)) = None"
    using assms(1) i by (simp add: locks_free_def)
  show ?case
  proof (cases "slot_free (p_tasks p ! i)")
    case True
    then have step: "client_step j 0 (inside_at j (C_query q (Q_scan i)) p) =
        Some (inside_at j (C_query q (Q_scan (Suc i))) p)"
      using i assms(2) tm_is_idle_free [OF free]
      by (cases q) (simp_all add: client_step_def is_idle_step_def is_busy_step_def)
    have "(\<forall>n < length (p_tasks p). i \<le> n \<longrightarrow> slot_free (p_tasks p ! n)) =
        (\<forall>n < length (p_tasks p). Suc i \<le> n \<longrightarrow> slot_free (p_tasks p ! n))"
      using True by (metis Suc_leD Suc_leI le_neq_implies_less)
    moreover have "solo j (inside_at j (C_query q (Q_scan (Suc i))) p)
        (set_client j (C_outside (Some (query_answer q
           (\<forall>n < length (p_tasks p). Suc i \<le> n \<longrightarrow> slot_free (p_tasks p ! n))))) p)"
      using Suc.hyps(2) by (intro Suc.hyps(1)) simp
    ultimately show ?thesis using solo_step [OF _ step] assms(2) by simp
  next
    case False
    then have step: "client_step j 0 (inside_at j (C_query q (Q_scan i)) p) =
        Some (set_client j (C_outside (Some (query_answer q False))) p)"
      using i assms tm_is_idle_free [OF free]
      by (cases q) (simp_all add: client_step_def is_idle_step_def is_busy_step_def
          query_answer_def locks_free_def)
    have none: "(\<forall>n < length (p_tasks p). i \<le> n \<longrightarrow> slot_free (p_tasks p ! n)) = False"
      using False i by auto
    show ?thesis
      unfolding none by (rule solo_step [OF _ step solo_refl]) (simp add: assms(2))
  qed
qed

lemma query_alone:
  assumes "locks_free p" and "j < length (p_clients p)"
  shows "solo j (set_client j (C_query q Q_enter) p)
    (set_client j (C_outside (Some (query_answer q (pool_idle_now p)))) p)"
proof -
  let ?p = "set_client j (C_query q Q_enter) p"
  have enter: "client_step j 0 ?p = Some (inside_at j (C_query q Q_head) p)"
    using assms by (cases q) (simp_all add: client_step_def is_idle_step_def is_busy_step_def
        client_enter_alone [OF _ refl] locks_free_def)
  show ?thesis
  proof (cases "p_tasks p = []")
    case True
    then have head: "client_step j 0 (inside_at j (C_query q Q_head) p) =
        Some (set_client j (C_outside (Some (query_answer q (pool_idle_now p)))) p)"
      using assms by (cases q) (simp_all add: client_step_def is_idle_step_def is_busy_step_def
          query_answer_def pool_idle_now_def locks_free_def)
    show ?thesis
      by (rule solo_step [OF _ enter], simp add: assms(2),
          rule solo_step [OF _ head solo_refl], simp add: assms(2))
  next
    case False
    then have head: "client_step j 0 (inside_at j (C_query q Q_head) p) =
        Some (inside_at j (C_query q (Q_scan 0)) p)"
      using assms by (cases q) (simp_all add: client_step_def is_idle_step_def is_busy_step_def)
    have "solo j (inside_at j (C_query q (Q_scan 0)) p)
        (set_client j (C_outside (Some (query_answer q (pool_idle_now p)))) p)"
      using query_scan [OF assms, of q 0] False by (simp add: pool_idle_now_def)
    then have "solo j (inside_at j (C_query q Q_head) p)
        (set_client j (C_outside (Some (query_answer q (pool_idle_now p)))) p)"
      using solo_step [OF _ head] assms(2) by simp
    then show ?thesis using solo_step [OF _ enter] assms(2) by simp
  qed
qed

section \<open>Handing a task over\<close>

text \<open>The task managers after the task \<open>t\<close> went to the one at \<open>i\<close>.\<close>
definition handed :: "nat \<Rightarrow> task \<Rightarrow> pool \<Rightarrow> pool" where
  "handed i t p =
     (let tm = p_tasks p ! i
      in set_manager i (tm\<lparr>tm_task := Some t,
           tm_sync := (tm_sync tm)\<lparr>cond := cond_signal 0 (cond (tm_sync tm))\<rparr>\<rparr>) p)"

lemma tm_set_task_free:
  "monitor (tm_sync tm) = None \<Longrightarrow> tm_task tm = None \<Longrightarrow>
   tm_set_task k c t tm = Returns (True, tm\<lparr>tm_task := t,
     tm_sync := (tm_sync tm)\<lparr>cond := cond_signal k (cond (tm_sync tm))\<rparr>\<rparr>)"
  by (simp add: tm_set_task_Returns_iff)

lemma client_return_handed:
  "monitor (p_sync p) = None \<Longrightarrow>
   client_return j r (set_manager i tm (inside_at j pc p)) =
   set_client j (C_outside r) (set_manager i tm p)"
  by (simp add: client_return_def inside_at_def pool_upd)

lemma execute_scan_alone:
  assumes "locks_free p" and "j < length (p_clients p)" and "i < length (p_tasks p)"
    and "slot_free (p_tasks p ! i)"
    and "\<And>n. n < i \<Longrightarrow> \<not> slot_free (p_tasks p ! n)" and "n \<le> i"
  shows "solo j (inside_at j (C_execute (Some t) (X_scan n)) p)
    (set_client j (C_outside None) (handed i t p))"
  using assms(6)
proof (induction "i - n" arbitrary: n)
  case 0
  then have n: "n = i" by simp
  have free: "monitor (tm_sync (p_tasks p ! i)) = None"
    using assms(1,3) by (simp add: locks_free_def)
  have scan: "client_step j 0 (inside_at j (C_execute (Some t) (X_scan n)) p) =
      Some (inside_at j (C_execute (Some t) (X_set i)) p)"
    using n assms(2-4) tm_is_idle_free [OF free] by (simp add: client_step_def execute_step_def)
  have "client_step j 0 (inside_at j (C_execute (Some t) (X_set i)) p) =
      Some (set_client j (C_outside None) (handed i t p))"
    using assms(1-4) tm_set_task_free [OF free]
    by (simp add: client_step_def execute_step_def slot_free_def client_return_handed
        locks_free_def handed_def Let_def)
  then have "solo j (inside_at j (C_execute (Some t) (X_set i)) p)
      (set_client j (C_outside None) (handed i t p))"
    by (rule solo_step [OF _ _ solo_refl, rotated]) (simp add: assms(2))
  then show ?case using solo_step [OF _ scan] assms(2) by simp
next
  case (Suc m)
  then have n: "n < i" by simp
  then have free: "monitor (tm_sync (p_tasks p ! n)) = None"
    using assms(1,3) by (simp add: locks_free_def)
  have scan: "client_step j 0 (inside_at j (C_execute (Some t) (X_scan n)) p) =
      Some (inside_at j (C_execute (Some t) (X_scan (Suc n))) p)"
    using n assms(2,3,5) tm_is_idle_free [OF free] by (simp add: client_step_def execute_step_def)
  have "solo j (inside_at j (C_execute (Some t) (X_scan (Suc n))) p)
      (set_client j (C_outside None) (handed i t p))"
    using Suc.hyps(2) n by (intro Suc.hyps(1)) simp_all
  then show ?case using solo_step [OF _ scan] assms(2) by simp
qed

lemma execute_alone:
  assumes "locks_free p" and "j < length (p_clients p)" and "i < length (p_tasks p)"
    and "slot_free (p_tasks p ! i)" and "\<And>n. n < i \<Longrightarrow> \<not> slot_free (p_tasks p ! n)"
  shows "solo j (set_client j (C_execute (Some t) X_enter) p)
    (set_client j (C_outside None) (handed i t p))"
proof -
  have enter: "client_step j 0 (set_client j (C_execute (Some t) X_enter) p) =
      Some (inside_at j (C_execute (Some t) X_head) p)"
    using assms(1,2) by (simp add: client_step_def execute_step_def
        client_enter_alone [OF _ refl] locks_free_def)
  have "p_tasks p \<noteq> []" using assms(3) by auto
  then have head: "client_step j 0 (inside_at j (C_execute (Some t) X_head) p) =
      Some (inside_at j (C_execute (Some t) (X_scan 0)) p)"
    using assms(2) by (simp add: client_step_def execute_step_def)
  have "solo j (inside_at j (C_execute (Some t) (X_scan 0)) p)
      (set_client j (C_outside None) (handed i t p))"
    using execute_scan_alone [OF assms, where n = 0] by simp
  then have "solo j (inside_at j (C_execute (Some t) X_head) p)
      (set_client j (C_outside None) (handed i t p))"
    using solo_step [OF _ head] assms(2) by simp
  then show ?thesis using solo_step [OF _ enter] assms(2) by simp
qed

section \<open>Two runs\<close>

lemmas run_eval = pool_step_def client_step_def execute_step_def terminate_step_def
  client_enter_def client_return_def pool_upd client_call_def worker_step_def sync_resume_cases
  lock_enter_cases record_event_def idle_notification_def tm_is_idle_def tm_set_task_def
  tm_stop_def tm_destroy_begin_def tm_destroy_join_def locked_def lock_leave_def sync_unlock_def
  mutex_defs sync_notify_def sync_wait_def cond_wait_def cond_signal_def remove_at_def

definition granted_thread :: "thread" where
  "granted_thread = \<lparr>status = RUNNING, runnable = Some 0, stack_size = 65536, unjoined = 1\<rparr>"

lemma granted_thread:
  "tm_construct None default_stacksize =
   \<lparr>tm_sync = new_sync, tm_thread = granted_thread, tm_task = None, tm_go = True,
    tm_pc = W_enter\<rparr>"
  by (simp add: tm_construct_def thread_defs granted_thread_def default_stacksize_def)

lemma alive_granted [simp]: "is_alive granted_thread"
  by (simp add: granted_thread_def is_alive_def)

text \<open>One worker and two clients.  The second client looks at the worker, which has a task.  The
  worker finishes it and signals the condition; only then the client falls asleep on it.\<close>

definition lost_start :: pool where
  "lost_start = pool_construct (\<lambda>i. None) 1 2"

definition lost_run :: "pool_label list" where
  "lost_run =
     replicate 3 (L_worker 0 Run_returns 0) @
     L_call 0 (Do_execute (Some 1)) # replicate 4 (L_client 0 0) @
     L_call 1 (Do_execute (Some 2)) # replicate 3 (L_client 1 0) @
     replicate 6 (L_worker 0 Run_returns 0) @ replicate 2 (L_client 1 0)"

definition lost_state :: pool where
  "lost_state =
     \<lparr>p_sync = \<lparr>monitor = None, cond = [Client 1]\<rparr>,
      p_tasks = [\<lparr>tm_sync = \<lparr>monitor = None, cond = [Worker 0]\<rparr>, tm_thread = granted_thread,
                  tm_task = None, tm_go = True, tm_pc = W_asleep\<rparr>],
      p_stack = default_stacksize,
      p_clients = [C_outside None, C_execute (Some 2) X_asleep],
      p_submitted = {#1, 2#}, p_started = {#1#}, p_finished = {#1#}, p_discarded = {#},
      p_terminating = False\<rparr>"

lemma lost_run: "run_steps pool_step lost_start lost_run = Some lost_state"
  by (simp add: lost_start_def lost_run_def lost_state_def pool_construct_def
      pool_construct_stack_def granted_thread numeral_eq_Suc run_eval)

text \<open>One worker and three clients, two of which wait when the third terminates the pool.\<close>

definition strand_start :: pool where
  "strand_start = pool_construct (\<lambda>i. None) 1 3"

definition strand_run :: "pool_label list" where
  "strand_run =
     replicate 3 (L_worker 0 Run_returns 0) @
     L_call 0 (Do_execute (Some 1)) # replicate 4 (L_client 0 0) @
     L_call 1 (Do_execute (Some 2)) # replicate 5 (L_client 1 0) @
     L_call 2 (Do_execute (Some 3)) # replicate 5 (L_client 2 0) @
     L_call 0 Do_terminate # replicate 4 (L_client 0 0) @
     replicate 4 (L_worker 0 Run_returns 0) @ replicate 3 (L_client 0 0) @
     replicate 2 (L_client 1 0)"

definition strand_state :: pool where
  "strand_state =
     \<lparr>p_sync = \<lparr>monitor = None, cond = [Client 2]\<rparr>, p_tasks = [],
      p_stack = default_stacksize,
      p_clients = [C_outside None, C_outside None, C_execute (Some 3) X_asleep],
      p_submitted = {#1, 2, 3#}, p_started = {#}, p_finished = {#}, p_discarded = {#1, 2#},
      p_terminating = True\<rparr>"

lemma strand_run: "run_steps pool_step strand_start strand_run = Some strand_state"
  by (simp add: strand_start_def strand_run_def strand_state_def pool_construct_def
      pool_construct_stack_def granted_thread numeral_eq_Suc run_eval)

text \<open>No thread of the pool can move: only a new call or a spurious wake-up changes anything.\<close>
definition stuck :: "pool \<Rightarrow> bool" where
  "stuck p \<longleftrightarrow> (\<forall>j k. pool_step p (L_client j k) = None) \<and>
     (\<forall>i e k. pool_step p (L_worker i e k) = None)"

lemma lost_stuck: "stuck lost_state"
proof -
  have "client_step j k lost_state = None" if "j < 2" for j k
  proof -
    from that have "j = 0 \<or> j = 1" by auto
    then show ?thesis
      by (auto simp: lost_state_def client_step_def execute_step_def sync_resume_cases)
  qed
  moreover have "worker_step (Worker 0) e (p_tasks lost_state ! 0) = None" for e
    by (simp add: lost_state_def worker_step_def sync_resume_cases)
  ultimately show ?thesis
    by (simp add: stuck_def pool_step_def lost_state_def)
qed

lemma strand_stuck: "stuck strand_state"
proof -
  have "client_step j k strand_state = None" if "j < 3" for j k
  proof -
    from that have "j = 0 \<or> j = 1 \<or> j = 2" by auto
    then show ?thesis
      by (auto simp: strand_state_def client_step_def execute_step_def sync_resume_cases
          numeral_eq_Suc)
  qed
  then show ?thesis
    by (simp add: stuck_def pool_step_def strand_state_def)
qed

section \<open>The properties\<close>

lemma lost_reached:
  "reach pool_step (pool_construct_stack (\<lambda>i. None) 1 default_stacksize 2) lost_state"
  using run_steps_reach [OF lost_run] by (simp add: lost_start_def pool_construct_def)

text \<open>
  C2: one client at a time.  In every state of every execution at most one client is inside the
  lock of the pool, and no call of the pool and no worker ever ends in an exception of the
  recursive-lock check.
\<close>
theorem pool_mutual_exclusion:
  assumes "reach pool_step (pool_construct_stack errs n stack m) p"
  shows "(\<exists>j. {i. i < length (p_clients p) \<and> client_holds (p_clients p ! i)} \<subseteq> {j}) \<and>
    C_threw \<notin> set (p_clients p) \<and> W_threw \<notin> set (map tm_pc (p_tasks p))"
proof (intro conjI)
  have inv: "pool_inv p" using pool_reach_good [OF assms] by (simp add: pool_good_def)
  have "monitor (p_sync p) = Some (Client i)"
    if "i < length (p_clients p)" "client_holds (p_clients p ! i)" for i
    using client_owner [OF inv that] .
  then show "\<exists>j. {i. i < length (p_clients p) \<and> client_holds (p_clients p ! i)} \<subseteq> {j}"
    by (cases "monitor (p_sync p)"; cases "\<exists>j. monitor (p_sync p) = Some (Client j)") fastforce+
  show "C_threw \<notin> set (p_clients p)"
    using inv by (auto simp: pool_inv_def in_set_conv_nth client_ok_def)
  have "tm_pc (p_tasks p ! i) \<noteq> W_threw" if "i < length (p_tasks p)" for i
    using managers_ok_nth [OF pool_inv_managers [OF inv] that] by (simp add: tm_inv_def)
  then show "W_threw \<notin> set (map tm_pc (p_tasks p))"
    by (metis in_set_conv_nth length_map nth_map)
qed

theorem pool_mutual_exclusion_witness: "C_threw \<notin> set (p_clients lost_state)"
  using pool_mutual_exclusion [OF lost_reached] by simp

lemma pool_started_bounded:
  assumes "reach pool_step (pool_construct_stack errs n stack m) p"
  shows "p_started p + p_discarded p \<subseteq># p_submitted p \<and>
    p_started p = p_finished p + owned tm_running (p_tasks p)"
proof -
  have "ledger p" using pool_reach_good [OF assms] by (simp add: pool_good_def)
  then have started: "p_started p = p_finished p + owned tm_running (p_tasks p)"
    and sub: "p_submitted p = (p_finished p + p_discarded p) + (owned tm_held (p_tasks p)
      + owned in_flight (p_clients p))"
    by (simp_all add: ledger_def ac_simps)
  have "owned tm_running (p_tasks p) \<subseteq>#
      owned tm_held (p_tasks p) + owned in_flight (p_clients p)"
    using posix_host.running_owned subset_mset.add_increasing2 [of "owned in_flight (p_clients p)"]
    by simp
  then have "(p_finished p + p_discarded p) + owned tm_running (p_tasks p) \<subseteq># p_submitted p"
    unfolding sub by (rule subset_mset.add_left_mono)
  then show ?thesis using started by (simp add: ac_simps)
qed

text \<open>
  C1: no task is lost, duplicated or run twice.  In every state of every execution the tasks
  submitted are, as a multiset, those finished, those discarded, those in the slot of a worker
  and those a client is still trying to hand over; while nobody has called \<open>terminate\<close> none is
  discarded (if there is a thread at all); every task whose \<open>run\<close> was entered is finished or is
  the one its worker executes; and the tasks entered and discarded are among those submitted,
  each as often as it was submitted at most.
\<close>
theorem pool_tasks_accounted:
  assumes "reach pool_step (pool_construct_stack errs n stack m) p"
  shows "p_submitted p = p_finished p + p_discarded p + owned tm_held (p_tasks p)
      + owned in_flight (p_clients p) \<and>
    (p_terminating p \<or> p_tasks p = [] \<or> p_discarded p = {#}) \<and>
    p_started p = p_finished p + owned tm_running (p_tasks p) \<and>
    p_started p + p_discarded p \<subseteq># p_submitted p"
  using pool_reach_good [OF assms] pool_started_bounded [OF assms]
  by (auto simp: pool_good_def ledger_def)

theorem pool_tasks_accounted_witness:
  "p_submitted lost_state = {#1#} + {#} + {#} + {#2#} \<and> p_started lost_state \<subseteq># {#1, 2#}"
  using pool_tasks_accounted [OF lost_reached] by (simp add: lost_state_def tm_held_def)

text \<open>
  C3: no deadlock.  Whenever some client is inside a call and not asleep in it, some client or
  worker can take a step.
\<close>
theorem pool_no_deadlock:
  assumes "reach pool_step (pool_construct_stack errs n stack m) p"
    and "j < length (p_clients p)" and "client_active (p_clients p ! j)"
  shows "\<exists>q. (\<exists>i k. pool_step p (L_client i k) = Some q) \<or>
    (\<exists>i e k. pool_step p (L_worker i e k) = Some q)"
  using active_can_step [OF pool_reach_good [OF assms(1)] assms(2,3)]
  unfolding can_step_def by blast

theorem pool_no_deadlock_witness:
  "\<exists>q. (\<exists>i k. pool_step (client_call 0 Do_terminate lost_state) (L_client i k) = Some q) \<or>
     (\<exists>i e k. pool_step (client_call 0 Do_terminate lost_state) (L_worker i e k) = Some q)"
proof -
  have "pool_step lost_state (L_call 0 Do_terminate) = Some (client_call 0 Do_terminate lost_state)"
    by (simp add: pool_step_def lost_state_def)
  from reach_step [of pool_step, OF lost_reached this] show ?thesis
    by (rule pool_no_deadlock [where j = 0])
      (simp_all add: client_call_def pool_upd lost_state_def)
qed

text \<open>
  C4: C4: \<open>terminate\<close> returns.  From every reachable state in which a client is inside \<open>terminate\<close>,
  however busy the workers are, the steps of that client and of the workers alone bring the call
  to its return, without a spurious wake-up of a sleeper and without help from another client, and
  the pool has no thread left then.
\<close>
theorem pool_terminate_returns:
  assumes "reach pool_step (pool_construct_stack errs n stack m) p"
    and "j < length (p_clients p)" and "p_clients p ! j = C_terminate x" and "x \<noteq> T_enter"
  shows "\<exists>p'. reach (unaided_step j) p p' \<and> p_clients p' ! j = C_outside None \<and> p_tasks p' = []"
  using terminate_returns [OF pool_reach_good [OF assms(1)] assms(2-4)] by (simp add: returned_def)

definition stopping_state :: pool where
  "stopping_state = inside_at 0 (C_terminate (T_stop 0)) (client_call 0 Do_terminate lost_state)"

theorem pool_terminate_returns_witness:
  "\<exists>p'. reach (unaided_step 0) stopping_state p' \<and> p_clients p' ! 0 = C_outside None \<and> p_tasks p' = []"
proof -
  have "run_steps pool_step lost_state [L_call 0 Do_terminate, L_client 0 0] = Some stopping_state"
    by (simp add: stopping_state_def inside_at_def lost_state_def run_eval)
  from reach_trans [OF run_steps_reach [OF this] lost_reached] show ?thesis
    by (rule pool_terminate_returns [where x = "T_stop 0"])
      (simp_all add: stopping_state_def client_call_def pool_upd lost_state_def)
qed

text \<open>
  The queries are exact.  A client that asks a pool in which nobody holds a lock, and runs
  its call to the end, learns from \<open>is_idle\<close> whether there is a thread and every thread has an
  empty slot, and from \<open>is_busy\<close> the opposite; the pool is left as it was.
\<close>
theorem pool_query_exact:
  assumes "locks_free p" and "j < length (p_clients p)"
  shows "solo j (client_call j (Do_query q) p)
    (set_client j (C_outside (Some (query_answer q (pool_idle_now p)))) p)"
  using query_alone [OF assms] by (simp add: client_call_def)

theorem pool_query_exact_witness:
  "solo 0 (client_call 0 (Do_query Q_is_busy) lost_state)
    (set_client 0 (C_outside (Some False)) lost_state)"
proof -
  have "locks_free lost_state" and "0 < length (p_clients lost_state)"
    by (simp_all add: locks_free_def lost_state_def)
  from pool_query_exact [OF this, of Q_is_busy] show ?thesis
    by (simp add: query_answer_def pool_idle_now_def slot_free_def lost_state_def)
qed

text \<open>
  \<open>execute\<close> uses the first idle thread.  A client that runs \<open>execute\<close> alone, in a pool in
  which nobody holds a lock, returns without waiting when some thread is idle; the task is in
  the slot of the first idle one, that thread has been notified, and nothing else has changed.
\<close>
theorem pool_execute_first_idle:
  assumes "locks_free p" and "j < length (p_clients p)" and "i < length (p_tasks p)"
    and "slot_free (p_tasks p ! i)" and "\<And>n. n < i \<Longrightarrow> \<not> slot_free (p_tasks p ! n)"
  shows "solo j (client_call j (Do_execute (Some t)) p)
    (set_client j (C_outside None) (handed i t (p\<lparr>p_submitted := p_submitted p + {#t#}\<rparr>)))"
proof -
  have "locks_free (p\<lparr>p_submitted := p_submitted p + {#t#}\<rparr>)"
    using assms(1) by (simp add: locks_free_def)
  from execute_alone [OF this, of j i t] assms(2-5) show ?thesis
    by (simp add: client_call_def)
qed

theorem pool_execute_first_idle_witness:
  "solo 0 (client_call 0 (Do_execute (Some 7)) lost_state)
    (set_client 0 (C_outside None)
       (handed 0 7 (lost_state\<lparr>p_submitted := p_submitted lost_state + {#7#}\<rparr>)))"
  by (rule pool_execute_first_idle)
    (simp_all add: locks_free_def slot_free_def lost_state_def)

lemma client_step_empty:
  "p_tasks p = [] \<Longrightarrow> client_step j k p = Some p' \<Longrightarrow> p_tasks p' = []"
  by (auto simp: client_step_def execute_step_def is_idle_step_def is_busy_step_def
      terminate_step_def client_enter_def
      split: client_pc.splits execute_pc.splits query.splits query_pc.splits term_pc.splits
        outcome.splits bool.splits prod.splits if_splits)

lemma pool_step_empty: "p_tasks p = [] \<Longrightarrow> pool_step p l = Some p' \<Longrightarrow> p_tasks p' = []"
  using client_step_empty [of p]
  by (cases l) (auto simp: pool_step_def client_call_def pool_upd
      split: if_splits client_pc.splits pool_call.splits)

interpretation pool_ended: step_invariant pool_step "\<lambda>p. p_tasks p = []"
  by unfold_locales (rule pool_step_empty)

text \<open>
  A terminated pool stays terminated.  Once the list of threads is empty it stays empty, and
  a task submitted then is deleted without running: the call that submits it returns after its
  lock is free, and only the account of discarded tasks changes.
\<close>
theorem pool_terminated_discards:
  assumes "p_tasks p = []" and "reach pool_step p q" and "monitor (p_sync q) = None"
    and "j < length (p_clients q)"
  shows "p_tasks q = [] \<and>
    solo j (client_call j (Do_execute (Some t)) q)
      (set_client j (C_outside None) (q\<lparr>p_submitted := p_submitted q + {#t#},
         p_discarded := p_discarded q + {#t#}\<rparr>))"
proof -
  have empty: "p_tasks q = []" by (rule pool_ended.inv_reach [OF assms(2,1)])
  let ?q = "q\<lparr>p_submitted := p_submitted q + {#t#}\<rparr>"
  have enter: "client_step j 0 (client_call j (Do_execute (Some t)) q) =
      Some (inside_at j (C_execute (Some t) X_head) ?q)"
    using assms(3,4) by (simp add: client_step_def execute_step_def client_call_def
        client_enter_def lock_enter_cases inside_at_def pool_upd)
  have head: "client_step j 0 (inside_at j (C_execute (Some t) X_head) ?q) =
      Some (set_client j (C_outside None) (q\<lparr>p_submitted := p_submitted q + {#t#},
         p_discarded := p_discarded q + {#t#}\<rparr>))"
    using assms(3,4) empty by (simp add: client_step_def execute_step_def inside_at_def pool_upd
        client_return_def)
  have "solo j (inside_at j (C_execute (Some t) X_head) ?q)
      (set_client j (C_outside None) (q\<lparr>p_submitted := p_submitted q + {#t#},
         p_discarded := p_discarded q + {#t#}\<rparr>))"
    by (rule solo_step [OF _ head solo_refl]) (simp add: assms(4))
  then show ?thesis
    using empty solo_step [OF _ enter] assms(4) by (simp add: client_call_def pool_upd)
qed

theorem pool_terminated_discards_witness:
  "solo 0 (client_call 0 (Do_execute (Some 9)) strand_state)
    (set_client 0 (C_outside None) (strand_state\<lparr>
       p_submitted := p_submitted strand_state + {#9#},
       p_discarded := p_discarded strand_state + {#9#}\<rparr>))"
  using pool_terminated_discards [of strand_state strand_state 0 9]
  by (simp add: strand_state_def)

text \<open>
  A notification can be lost.  \<open>idle_notification\<close> signals the pool's condition without
  taking the pool's lock, so it can come after a client has found every thread busy and before
  that client is asleep.  In the run of the statement a pool of one thread ends with the thread
  idle, a client asleep in \<open>execute\<close> with its task in hand, and no thread of the pool able to
  move.
\<close>
theorem pool_lost_wakeup:
  "\<exists>ls p. run_steps pool_step (pool_construct (\<lambda>i. None) 1 2) ls = Some p \<and>
     p_clients p ! 1 = C_execute (Some 2) X_asleep \<and>
     tm_is_idle (Client 1) (p_tasks p ! 0) = Returns True \<and>
     (\<forall>j k. pool_step p (L_client j k) = None) \<and> (\<forall>i e k. pool_step p (L_worker i e k) = None)"
proof (intro exI conjI)
  show "run_steps pool_step (pool_construct (\<lambda>i. None) 1 2) lost_run = Some lost_state"
    using lost_run by (simp add: lost_start_def)
  show "tm_is_idle (Client 1) (p_tasks lost_state ! 0) = Returns True"
    by (simp add: tm_is_idle_Returns_iff lost_state_def)
qed (use lost_stuck in \<open>auto simp: lost_state_def stuck_def\<close>)

text \<open>
  \<open>terminate\<close> wakes one waiting client only.  In the run of the statement two clients wait
  in \<open>execute\<close> when a third one terminates the pool; the call returns, one of the two deletes
  its task and returns, the other sleeps on with its task, and nothing in the pool can move.
\<close>
theorem pool_terminate_strands:
  "\<exists>ls p. run_steps pool_step (pool_construct (\<lambda>i. None) 1 3) ls = Some p \<and>
     p_tasks p = [] \<and> p_clients p ! 0 = C_outside None \<and> p_clients p ! 1 = C_outside None \<and>
     p_clients p ! 2 = C_execute (Some 3) X_asleep \<and>
     (\<forall>j k. pool_step p (L_client j k) = None) \<and> (\<forall>i e k. pool_step p (L_worker i e k) = None)"
proof (intro exI conjI)
  show "run_steps pool_step (pool_construct (\<lambda>i. None) 1 3) strand_run = Some strand_state"
    using strand_run by (simp add: strand_start_def)
qed (use strand_stuck in \<open>auto simp: strand_state_def stuck_def\<close>)

end
