(* ===== verification/Queued_Pool.thy ===== *)
theory Queued_Pool
  imports Pool_Properties
begin

text \<open>
  The class \<open>QueuedThreadPool\<close> of \<open>posix/threadpool.cpp\<close>: a \<open>ThreadPool\<close> (the field
  \<open>q_base\<close>) with a queue and a dispatcher thread that hands the queued tasks to the idle
  workers.  Its own lock is that of the member \<open>thread\<close> (\<open>q_sync\<close>); the overriding functions
  that call the function of the base class run it inside that lock, as steps of the client in
  \<open>q_base\<close>.  The dispatcher's function \<open>run\<close> is a state machine over \<open>dispatcher_pc\<close>.
  The destructor is the call \<open>Do_destroy\<close>.
\<close>

section \<open>State\<close>

text \<open>
  Where the dispatcher is in \<open>run\<close>: before the lock, at the first inner loop, at the loop over
  \<open>assign\<close> with the task at the front, in \<open>assign\<close> at a worker (asking, handing over), before
  and inside its wait, at the last inner loop, in its wait, at the end of the body, returned, or
  thrown.
\<close>
datatype dispatcher_pc =
  D_enter | D_queue | D_task "task ptr" | D_scan "task ptr" nat | D_set "task ptr" nat
| D_wait "task ptr" | D_asleep "task ptr" | D_empty | D_empty_asleep | D_again | D_done | D_threw

text \<open>Where \<open>terminate\<close> or the destructor is; \<open>Z_base\<close> and \<open>Z_last\<close> are inside the base class.\<close>
datatype qterm_pc = Z_enter | Z_stop | Z_base | Z_join | Z_empty | Z_last

datatype qquery_pc = Zq_enter | Zq_head | Zq_base

datatype answer = A_bool bool | A_nat nat

text \<open>A client of the queued pool; the flag of \<open>Z_terminate\<close> says it is the destructor.\<close>
datatype qclient_pc =
  Z_outside "answer option"
| Z_execute "task ptr"
| Z_length
| Z_query query qquery_pc
| Z_terminate bool qterm_pc
| Z_threw

record qpool =
  q_sync :: "tid sync"
  q_thread :: thread
  q_queue :: "task ptr list"
  q_go :: bool
  q_dispatcher :: dispatcher_pc
  q_base :: pool
  q_clients :: "qclient_pc list"
  q_submitted :: "task multiset"
  q_dropped :: "task multiset"
  q_pushed :: "task ptr list"
  q_assigned :: "task ptr list"
  q_flushed :: "task ptr list"

definition set_qclient :: "nat \<Rightarrow> qclient_pc \<Rightarrow> qpool \<Rightarrow> qpool" where
  "set_qclient j pc q = q\<lparr>q_clients := (q_clients q)[j := pc]\<rparr>"

definition set_qsync :: "tid sync \<Rightarrow> qpool \<Rightarrow> qpool" where
  "set_qsync s q = q\<lparr>q_sync := s\<rparr>"

definition set_dispatcher :: "dispatcher_pc \<Rightarrow> qpool \<Rightarrow> qpool" where
  "set_dispatcher d q = q\<lparr>q_dispatcher := d\<rparr>"

definition set_base :: "pool \<Rightarrow> qpool \<Rightarrow> qpool" where
  "set_base p q = q\<lparr>q_base := p\<rparr>"

text \<open>The constructors: the pool, then the dispatcher's thread (its creation reports \<open>err\<close>).\<close>
definition qpool_with_base :: "errno option \<Rightarrow> pool \<Rightarrow> nat \<Rightarrow> qpool" where
  "qpool_with_base err base n_clients =
     (let th = thread_start err (thread_new_for 0)
      in \<lparr>q_sync = new_sync, q_thread = th, q_queue = [], q_go = True,
          q_dispatcher = (if is_alive th then D_enter else D_done), q_base = base,
          q_clients = replicate n_clients (Z_outside None), q_submitted = {#}, q_dropped = {#},
          q_pushed = [], q_assigned = [], q_flushed = []\<rparr>)"

definition qpool_construct_stack ::
  "errno option \<Rightarrow> (nat \<Rightarrow> errno option) \<Rightarrow> nat \<Rightarrow> nat \<Rightarrow> nat \<Rightarrow> qpool" where
  "qpool_construct_stack err errs n_threads stack n_clients =
     qpool_with_base err (pool_construct_stack errs n_threads stack n_clients) n_clients"

definition qpool_construct ::
  "errno option \<Rightarrow> (nat \<Rightarrow> errno option) \<Rightarrow> nat \<Rightarrow> nat \<Rightarrow> qpool" where
  "qpool_construct err errs n_threads n_clients =
     qpool_with_base err (pool_construct errs n_threads n_clients) n_clients"

section \<open>The dispatcher\<close>

text \<open>
  One call of \<open>is_idle\<close> in \<open>assign\<close>, at the worker \<open>i\<close>.
\<close>
definition assign_scan :: "task ptr \<Rightarrow> nat \<Rightarrow> qpool \<Rightarrow> qpool option" where
  "assign_scan t i q =
     (if i < length (p_tasks (q_base q)) then
        (case tm_is_idle Dispatcher (p_tasks (q_base q) ! i) of
           Returns True \<Rightarrow> Some (set_dispatcher (D_set t i) q)
         | Returns False \<Rightarrow> Some (set_dispatcher (D_scan t (Suc i)) q)
         | Throws _ \<Rightarrow> Some (set_dispatcher D_threw q)
         | Blocked \<Rightarrow> None)
      else Some (set_dispatcher (D_wait t) q))"

text \<open>
  The call of \<open>set_task\<close> in \<open>assign\<close>; when it takes the task, \<open>assign\<close> returns true and \<open>run\<close>
  pops the queue, which nobody else can see before, as the dispatcher holds the lock.
\<close>
definition assign_set :: "nat \<Rightarrow> task ptr \<Rightarrow> nat \<Rightarrow> qpool \<Rightarrow> qpool option" where
  "assign_set k t i q =
     (let base = q_base q in
      case tm_set_task k Dispatcher t (p_tasks base ! i) of
        Returns (True, tm) \<Rightarrow>
          Some (set_dispatcher D_queue
                  (q\<lparr>q_base := set_manager i tm (base\<lparr>p_submitted := p_submitted base + ptr_tasks t\<rparr>),
                     q_queue := tl (q_queue q), q_assigned := q_assigned q @ [t]\<rparr>))
      | Returns (False, tm) \<Rightarrow>
          Some (set_dispatcher (D_scan t (Suc i)) (set_base (set_manager i tm base) q))
      | Throws _ \<Rightarrow> Some (set_dispatcher D_threw q)
      | Blocked \<Rightarrow> None)"

text \<open>A call of \<open>thread.wait()\<close>, before and after the sleep.\<close>
definition dispatcher_wait :: "dispatcher_pc \<Rightarrow> dispatcher_pc \<Rightarrow> qpool \<Rightarrow> qpool option" where
  "dispatcher_wait asleep_pc back q =
     (case sync_wait None (q_sync q) Dispatcher of
        Returns (asleep, s) \<Rightarrow>
          Some (set_dispatcher (if asleep then asleep_pc else back) (set_qsync s q))
      | Throws _ \<Rightarrow> Some (set_dispatcher D_threw q)
      | Blocked \<Rightarrow> None)"

definition dispatcher_resume :: "dispatcher_pc \<Rightarrow> qpool \<Rightarrow> qpool option" where
  "dispatcher_resume back q =
     (case sync_resume (q_sync q) Dispatcher of
        Returns s \<Rightarrow> Some (set_dispatcher back (set_qsync s q))
      | Throws _ \<Rightarrow> Some (set_dispatcher D_threw q)
      | Blocked \<Rightarrow> None)"

definition dispatcher_step :: "nat \<Rightarrow> qpool \<Rightarrow> qpool option" where
  "dispatcher_step k q =
     (case q_dispatcher q of
        D_enter \<Rightarrow>
          (case lock_enter (q_sync q) Dispatcher of
             Returns s \<Rightarrow> Some (set_dispatcher D_queue (set_qsync s q))
           | Throws _ \<Rightarrow> Some (set_dispatcher D_threw q)
           | Blocked \<Rightarrow> None)
      | D_queue \<Rightarrow>
          (case q_queue q of
             t # _ \<Rightarrow> Some (set_dispatcher (if q_go q then D_task t else D_empty) q)
           | [] \<Rightarrow> Some (set_dispatcher D_empty q))
      | D_task t \<Rightarrow>
          Some (set_dispatcher (if q_go q \<and> t \<noteq> None then D_scan t 0 else D_queue) q)
      | D_scan t i \<Rightarrow> assign_scan t i q
      | D_set t i \<Rightarrow> assign_set k t i q
      | D_wait t \<Rightarrow> dispatcher_wait (D_asleep t) (D_task t) q
      | D_asleep t \<Rightarrow> dispatcher_resume (D_task t) q
      | D_empty \<Rightarrow>
          (if q_go q \<and> q_queue q = [] then dispatcher_wait D_empty_asleep D_empty q
           else Some (set_dispatcher D_again q))
      | D_empty_asleep \<Rightarrow> dispatcher_resume D_empty q
      | D_again \<Rightarrow>
          (if q_go q then Some (set_dispatcher D_queue q)
           else Some (set_dispatcher D_done (set_qsync (lock_leave (q_sync q) Dispatcher) q)))
      | D_done \<Rightarrow> None
      | D_threw \<Rightarrow> None)"

section \<open>The clients\<close>

definition qclient_return :: "nat \<Rightarrow> answer option \<Rightarrow> qpool \<Rightarrow> qpool" where
  "qclient_return j r q =
     set_qclient j (Z_outside r) (set_qsync (lock_leave (q_sync q) (Client j)) q)"

text \<open>\<open>execute\<close>: one critical section.\<close>
definition qexecute_step :: "nat \<Rightarrow> nat \<Rightarrow> task ptr \<Rightarrow> qpool \<Rightarrow> qpool option" where
  "qexecute_step j k t q =
     (case lock_enter (q_sync q) (Client j) of
        Returns s \<Rightarrow>
          Some (qclient_return j None
                 (if \<not> q_go q
                  then (set_qsync s q)\<lparr>q_dropped := q_dropped q + ptr_tasks t\<rparr>
                  else (set_qsync (sync_notify k s) q)
                         \<lparr>q_queue := q_queue q @ [t], q_pushed := q_pushed q @ [t]\<rparr>))
      | Throws _ \<Rightarrow> Some (set_qclient j Z_threw q)
      | Blocked \<Rightarrow> None)"

definition queue_length_step :: "nat \<Rightarrow> qpool \<Rightarrow> qpool option" where
  "queue_length_step j q =
     (case lock_enter (q_sync q) (Client j) of
        Returns s \<Rightarrow> Some (qclient_return j (Some (A_nat (length (q_queue q)))) (set_qsync s q))
      | Throws _ \<Rightarrow> Some (set_qclient j Z_threw q)
      | Blocked \<Rightarrow> None)"

text \<open>A step of the client inside a function of the base class.\<close>
definition base_step :: "nat \<Rightarrow> nat \<Rightarrow> qpool \<Rightarrow> qpool option" where
  "base_step j k q = map_option (\<lambda>p. set_base p q) (client_step j k (q_base q))"

text \<open>
  \<open>is_idle\<close> and \<open>is_busy\<close>: the dispatcher's thread, the queue, and then \<open>ThreadPool::is_idle\<close>.
\<close>
definition qquery_step :: "nat \<Rightarrow> nat \<Rightarrow> query \<Rightarrow> qquery_pc \<Rightarrow> qpool \<Rightarrow> qpool option" where
  "qquery_step j k qu pc q =
     (case pc of
        Zq_enter \<Rightarrow>
          (case lock_enter (q_sync q) (Client j) of
             Returns s \<Rightarrow> Some (set_qclient j (Z_query qu Zq_head) (set_qsync s q))
           | Throws _ \<Rightarrow> Some (set_qclient j Z_threw q)
           | Blocked \<Rightarrow> None)
      | Zq_head \<Rightarrow>
          (if is_alive (q_thread q) \<and> q_queue q = []
           then Some (set_qclient j (Z_query qu Zq_base)
                        (set_base (client_call j (Do_query Q_is_idle) (q_base q)) q))
           else Some (qclient_return j (Some (A_bool (query_answer qu False))) q))
      | Zq_base \<Rightarrow>
          (case p_clients (q_base q) ! j of
             C_outside (Some r) \<Rightarrow> Some (qclient_return j (Some (A_bool (query_answer qu r))) q)
           | _ \<Rightarrow> base_step j k q))"

text \<open>\<open>EmptyQueue\<close>\<close>
definition empty_queue :: "qpool \<Rightarrow> qpool" where
  "empty_queue q =
     q\<lparr>q_queue := [], q_flushed := q_flushed q @ q_queue q,
       q_dropped := q_dropped q + owned ptr_tasks (q_queue q)\<rparr>"

text \<open>\<open>terminate\<close>, and the destructor, which goes on after it.\<close>
definition qterminate_step :: "nat \<Rightarrow> nat \<Rightarrow> bool \<Rightarrow> qterm_pc \<Rightarrow> qpool \<Rightarrow> qpool option" where
  "qterminate_step j k destroy pc q =
     (case pc of
        Z_enter \<Rightarrow>
          (case lock_enter (q_sync q) (Client j) of
             Returns s \<Rightarrow> Some (set_qclient j (Z_terminate destroy Z_stop) (set_qsync s q))
           | Throws _ \<Rightarrow> Some (set_qclient j Z_threw q)
           | Blocked \<Rightarrow> None)
      | Z_stop \<Rightarrow>
          Some (set_qclient j (Z_terminate destroy Z_base)
                 (q\<lparr>q_go := False, q_sync := sync_notify k (q_sync q),
                    q_base := client_call j Do_terminate (q_base q)\<rparr>))
      | Z_base \<Rightarrow>
          (case p_clients (q_base q) ! j of
             C_outside _ \<Rightarrow>
               Some (if destroy
                     then set_qclient j (Z_terminate True Z_join)
                            (set_qsync (lock_leave (q_sync q) (Client j)) q)
                     else qclient_return j None q)
           | _ \<Rightarrow> base_step j k q)
      | Z_join \<Rightarrow>
          (if is_alive (q_thread q) \<and> q_dispatcher q \<noteq> D_done then None
           else Some (set_qclient j (Z_terminate destroy Z_empty)
                        (q\<lparr>q_thread := thread_join None (q_thread q)\<rparr>)))
      | Z_empty \<Rightarrow>
          (case lock_enter (q_sync q) (Client j) of
             Returns s \<Rightarrow>
               Some (set_qclient j (Z_terminate destroy Z_last)
                       (set_base (client_call j Do_terminate (q_base q))
                          (set_qsync (lock_leave s (Client j)) (empty_queue q))))
           | Throws _ \<Rightarrow> Some (set_qclient j Z_threw q)
           | Blocked \<Rightarrow> None)
      | Z_last \<Rightarrow>
          (case p_clients (q_base q) ! j of
             C_outside _ \<Rightarrow> Some (set_qclient j (Z_outside None) q)
           | _ \<Rightarrow> base_step j k q))"

definition qclient_step :: "nat \<Rightarrow> nat \<Rightarrow> qpool \<Rightarrow> qpool option" where
  "qclient_step j k q =
     (case q_clients q ! j of
        Z_outside _ \<Rightarrow> None
      | Z_execute t \<Rightarrow> qexecute_step j k t q
      | Z_length \<Rightarrow> queue_length_step j q
      | Z_query qu pc \<Rightarrow> qquery_step j k qu pc q
      | Z_terminate d pc \<Rightarrow> qterminate_step j k d pc q
      | Z_threw \<Rightarrow> None)"

section \<open>The steps of the queued pool\<close>

datatype qpool_call =
  Qdo_execute "task ptr" | Qdo_length | Qdo_query query | Qdo_terminate | Qdo_destroy

definition qclient_call :: "nat \<Rightarrow> qpool_call \<Rightarrow> qpool \<Rightarrow> qpool" where
  "qclient_call j c q =
     (case c of
        Qdo_execute t \<Rightarrow>
          set_qclient j (Z_execute t) (q\<lparr>q_submitted := q_submitted q + ptr_tasks t\<rparr>)
      | Qdo_length \<Rightarrow> set_qclient j Z_length q
      | Qdo_query qu \<Rightarrow> set_qclient j (Z_query qu Zq_enter) q
      | Qdo_terminate \<Rightarrow> set_qclient j (Z_terminate False Z_enter) q
      | Qdo_destroy \<Rightarrow> set_qclient j (Z_terminate True Z_enter) q)"

text \<open>The overriding \<open>idle_notification\<close>.\<close>
definition queue_idle_notification :: "nat \<Rightarrow> qpool \<Rightarrow> qpool" where
  "queue_idle_notification k q = set_qsync (sync_notify k (q_sync q)) q"

datatype qpool_label =
  QL_call nat qpool_call | QL_client nat nat | QL_worker nat run_end nat | QL_dispatcher nat
| QL_dispatcher_spurious | QL_worker_spurious nat

definition qpool_step :: "qpool \<Rightarrow> qpool_label \<Rightarrow> qpool option" where
  "qpool_step q l =
     (case l of
        QL_call j c \<Rightarrow>
          (if j < length (q_clients q)
           then (case q_clients q ! j of Z_outside _ \<Rightarrow> Some (qclient_call j c q) | _ \<Rightarrow> None)
           else None)
      | QL_client j k \<Rightarrow> if j < length (q_clients q) then qclient_step j k q else None
      | QL_worker i e k \<Rightarrow>
          (if i < length (p_tasks (q_base q)) then
             (case worker_step (Worker i) e (p_tasks (q_base q) ! i) of
                Some (tm, ev) \<Rightarrow>
                  Some ((if ev = Ev_idle then queue_idle_notification k else id)
                          (set_base (record_event ev (set_manager i tm (q_base q))) q))
              | None \<Rightarrow> None)
           else None)
      | QL_dispatcher k \<Rightarrow> dispatcher_step k q
      | QL_dispatcher_spurious \<Rightarrow> Some (set_qsync (sync_spurious (q_sync q) Dispatcher) q)
      | QL_worker_spurious i \<Rightarrow>
          map_option (\<lambda>p. set_base p q) (pool_step (q_base q) (L_worker_spurious i)))"

lemmas qpool_upd = set_qclient_def set_qsync_def set_dispatcher_def set_base_def
lemmas qpool_eval = qpool_step_def qclient_step_def dispatcher_step_def assign_scan_def
  assign_set_def dispatcher_wait_def dispatcher_resume_def qclient_return_def qexecute_step_def
  queue_length_step_def base_step_def qquery_step_def empty_queue_def qterminate_step_def
  qclient_call_def queue_idle_notification_def qpool_upd

end
