(* ===== verification/Queued_Invariant.thy ===== *)
theory Queued_Invariant
  imports Queued_Pool
begin

text \<open>
  The invariant of the queued pool: who holds its lock, what the dispatcher and the clients know
  at each location, that the base pool keeps its own invariant, the account of the tasks and the
  order of the queue.  Every step of every interleaving keeps it.
\<close>

section \<open>The base pool\<close>

lemma manager_not_dispatcher:
  "managers_ok tms \<Longrightarrow> i < length tms \<Longrightarrow> monitor (tm_sync (tms ! i)) \<noteq> Some Dispatcher"
  using tm_inv_owner managers_ok_nth by blast

lemma dispatcher_no_throw:
  assumes "managers_ok tms" and "i < length tms"
  shows "tm_is_idle Dispatcher (tms ! i) \<noteq> Throws msg"
    and "tm_set_task k Dispatcher t (tms ! i) \<noteq> Throws msg"
  using manager_not_dispatcher [OF assms]
  by (auto simp: tm_is_idle_def tm_set_task_def locked_Throws_iff split: outcome.splits)

lemma pool_good_worker:
  assumes good: "pool_good p" and i: "i < length (p_tasks p)"
    and w: "worker_step (Worker i) e (p_tasks p ! i) = Some (tm, ev)"
  shows "pool_good (record_event ev (set_manager i tm p))"
proof -
  let ?p = "record_event ev (set_manager i tm p)"
  have inv: "pool_inv p" and sett: "settled p" and led: "ledger p"
    using good by (simp_all add: pool_good_def)
  have ok: "tm_inv (Worker i) (p_tasks p ! i)" "manager_settled (p_tasks p ! i)"
    using managers_ok_nth [OF pool_inv_managers [OF inv] i] settledD(1) [OF sett] i
    by (simp_all add: managers_settled_def)
  have "pool_inv ?p" by (rule pool_inv_worker_step [OF inv i w]) auto
  moreover have "settled ?p"
    using manager_settled_step [OF ok w] worker_step_go [OF ok(1) w] worker_step_not_done [OF w]
    by (intro settled_background [OF sett i, of tm]) auto
  moreover have "ledger ?p"
    by (rule ledger_worker [OF led i ok(1) not_terminating_all_go [OF inv sett] w])
      (auto simp: record_event_def)
  ultimately show ?thesis by (simp add: pool_good_def)
qed

text \<open>The dispatcher hands a task to a worker of a pool that nobody terminates.\<close>
lemma pool_good_assign:
  assumes good: "pool_good p" and i: "i < length (p_tasks p)"
    and alive: "is_alive (tm_thread (p_tasks p ! i))" and live: "\<not> p_terminating p"
    and set: "tm_set_task k c t (p_tasks p ! i) = Returns (True, tm)"
  shows "pool_good (set_manager i tm (p\<lparr>p_submitted := p_submitted p + ptr_tasks t\<rparr>))"
proof -
  let ?p = "set_manager i tm (p\<lparr>p_submitted := p_submitted p + ptr_tasks t\<rparr>)"
  have inv: "pool_inv p" and sett: "settled p" and led: "ledger p"
    using good by (simp_all add: pool_good_def)
  have ok: "tm_inv (Worker i) (p_tasks p ! i)" "manager_settled (p_tasks p ! i)"
    using managers_ok_nth [OF pool_inv_managers [OF inv] i] settledD(1) [OF sett] i
    by (simp_all add: managers_settled_def)
  have go: "tm_go (p_tasks p ! i)"
    using not_terminating_all_go [OF inv sett] live i by (simp add: all_go_def)
  have tm: "tm_inv (Worker i) tm" "manager_settled tm" "tm_go tm"
    "tm_thread tm = tm_thread (p_tasks p ! i)" "tm_pc tm = tm_pc (p_tasks p ! i)"
    "cond (tm_sync (p_tasks p ! i)) = [] \<Longrightarrow> cond (tm_sync tm) = []"
    using tm_inv_set_task [OF ok(1) set] set ok(2) alive go
    by (auto simp: tm_set_task_Returns_iff manager_settled_def split: if_splits)
  have "pool_inv ?p"
  proof (rule inv_background [OF inv])
    show "managers_ok ((p_tasks p)[i := tm])"
      using managers_ok_update [OF pool_inv_managers [OF inv] tm(1)] .
    show "client_sees (p_tasks p) pc \<Longrightarrow> client_sees ((p_tasks p)[i := tm]) pc" for pc
      using go by (intro client_sees_worker) auto
  qed auto
  moreover have "settled ?p"
    using tm go by (intro settled_background [OF sett i, of tm]) auto
  moreover have "ledger ?p"
    using led posix_host.taken_owned [OF i set] posix_host.offer_owned_running [OF i ok(1) set]
    by (simp add: ledger_def ac_simps)
  ultimately show ?thesis by (simp add: pool_good_def)
qed

text \<open>What a step inside a function of the base class leaves as it is.\<close>

lemma client_step_frame:
  assumes "client_step j k p = Some p'"
  shows "length (p_clients p') = length (p_clients p) \<and> p_terminating p' = p_terminating p \<and>
    p_submitted p' = p_submitted p \<and> (\<forall>i. i \<noteq> j \<longrightarrow> p_clients p' ! i = p_clients p ! i)"
  using assms
  by (auto simp: client_step_def execute_step_def is_idle_step_def is_busy_step_def
      terminate_step_def client_enter_def client_return_def pool_upd
      split: client_pc.splits execute_pc.splits query.splits query_pc.splits term_pc.splits
        outcome.splits bool.splits prod.splits if_splits)

lemma client_step_query_kind:
  assumes "client_step j k p = Some p'" and "j < length (p_clients p)"
    and "p_clients p ! j = C_query Q_is_idle x" and "p_clients p' ! j \<noteq> C_threw"
  shows "(\<exists>y. p_clients p' ! j = C_query Q_is_idle y) \<or> (\<exists>r. p_clients p' ! j = C_outside (Some r))"
  using assms
  by (auto simp: client_step_def is_idle_step_def client_enter_def client_return_def pool_upd
      ex_bool_eq all_bool_eq split: query_pc.splits outcome.splits bool.splits if_splits)

lemma client_step_terminate_kind:
  assumes "client_step j k p = Some p'" and "j < length (p_clients p)"
    and "p_clients p ! j = C_terminate z" and "p_clients p' ! j \<noteq> C_threw"
  shows "(\<exists>y. p_clients p' ! j = C_terminate y) \<or> p_clients p' ! j = C_outside None"
  using assms
  by (auto simp: client_step_def terminate_step_def client_enter_def client_return_def pool_upd
      split: term_pc.splits outcome.splits if_splits)

lemma client_call_fields [simp]:
  "p_clients (client_call j (Do_query qu) p) = (p_clients p)[j := C_query qu Q_enter]"
  "p_submitted (client_call j (Do_query qu) p) = p_submitted p"
  "p_terminating (client_call j (Do_query qu) p) = p_terminating p"
  "p_clients (client_call j Do_terminate p) = (p_clients p)[j := C_terminate T_enter]"
  "p_submitted (client_call j Do_terminate p) = p_submitted p"
  by (simp_all add: client_call_def pool_upd)

lemma pool_good_client:
  "pool_good p \<Longrightarrow> j < length (p_clients p) \<Longrightarrow> client_step j k p = Some p' \<Longrightarrow> pool_good p'"
  using pool_good_step [of p "L_client j k" p'] by (simp add: pool_step_def)

lemma pool_good_call:
  "pool_good p \<Longrightarrow> j < length (p_clients p) \<Longrightarrow> p_clients p ! j = C_outside r \<Longrightarrow>
   pool_good (client_call j c p)"
  using pool_good_step [of p "L_call j c"] by (simp add: pool_step_def)

lemma pool_good_not_threw:
  "pool_good p \<Longrightarrow> j < length (p_clients p) \<Longrightarrow> p_clients p ! j \<noteq> C_threw"
  using pool_inv_client [of p j] by (auto simp: pool_good_def client_ok_def)

section \<open>The invariant\<close>

fun dispatcher_holds :: "dispatcher_pc \<Rightarrow> bool" where
  "dispatcher_holds D_enter = False"
| "dispatcher_holds (D_asleep t) = False"
| "dispatcher_holds D_empty_asleep = False"
| "dispatcher_holds D_done = False"
| "dispatcher_holds D_threw = False"
| "dispatcher_holds _ = True"

fun dispatcher_asleep :: "dispatcher_pc \<Rightarrow> bool" where
  "dispatcher_asleep (D_asleep t) = True"
| "dispatcher_asleep D_empty_asleep = True"
| "dispatcher_asleep _ = False"

fun qclient_holds :: "qclient_pc \<Rightarrow> bool" where
  "qclient_holds (Z_query qu x) = (x \<noteq> Zq_enter)"
| "qclient_holds (Z_terminate d x) = (x = Z_stop \<or> x = Z_base)"
| "qclient_holds _ = False"

text \<open>The lock: its owner is told by the locations, and only the dispatcher waits.\<close>
definition qlock_ok :: "tid sync \<Rightarrow> dispatcher_pc \<Rightarrow> qclient_pc list \<Rightarrow> bool" where
  "qlock_ok s d cs \<longleftrightarrow>
     (monitor s = Some Dispatcher \<longleftrightarrow> dispatcher_holds d) \<and>
     (\<forall>j < length cs. monitor s = Some (Client j) \<longleftrightarrow> qclient_holds (cs ! j)) \<and>
     (\<forall>u. monitor s = Some u \<longrightarrow> u = Dispatcher \<or> (\<exists>j < length cs. u = Client j)) \<and>
     (cond s = [] \<or> cond s = [Dispatcher] \<and> dispatcher_asleep d) \<and>
     d \<noteq> D_threw \<and> (\<forall>j < length cs. cs ! j \<noteq> Z_threw)"

text \<open>What the dispatcher knows of the queue and of the worker it has chosen.\<close>
fun dispatcher_knows :: "bool \<Rightarrow> task ptr list \<Rightarrow> task_manager list \<Rightarrow> dispatcher_pc \<Rightarrow> bool" where
  "dispatcher_knows go qs tms (D_task t) = (qs \<noteq> [] \<and> hd qs = t)"
| "dispatcher_knows go qs tms (D_wait t) = (qs \<noteq> [] \<and> hd qs = t \<and> go)"
| "dispatcher_knows go qs tms (D_asleep t) = (qs \<noteq> [] \<and> hd qs = t)"
| "dispatcher_knows go qs tms (D_scan t i) = (qs \<noteq> [] \<and> hd qs = t \<and> go \<and> t \<noteq> None)"
| "dispatcher_knows go qs tms (D_set t i) =
     (qs \<noteq> [] \<and> hd qs = t \<and> go \<and> t \<noteq> None \<and> i < length tms \<and> is_alive (tm_thread (tms ! i)))"
| "dispatcher_knows go qs tms _ = True"

text \<open>What the location of a client in the base class says of its location here, and of the rest.\<close>
fun base_inner :: "qclient_pc \<Rightarrow> client_pc \<Rightarrow> bool" where
  "base_inner pc (C_outside r) = (\<forall>qu. pc = Z_query qu Zq_base \<longrightarrow> r \<noteq> None)"
| "base_inner pc (C_query qu x) = (qu = Q_is_idle \<and> (\<exists>qu'. pc = Z_query qu' Zq_base))"
| "base_inner pc (C_terminate x) =
     (\<exists>d. pc = Z_terminate d Z_base \<or> pc = Z_terminate d Z_last)"
| "base_inner pc _ = False"

fun qclient_knows :: "bool \<Rightarrow> dispatcher_pc \<Rightarrow> qclient_pc \<Rightarrow> bool" where
  "qclient_knows go d (Z_terminate b x) =
     ((x \<noteq> Z_enter \<and> x \<noteq> Z_stop \<longrightarrow> \<not> go) \<and> (x = Z_empty \<or> x = Z_last \<longrightarrow> d = D_done))"
| "qclient_knows go d _ = True"

fun q_in_flight :: "qclient_pc \<Rightarrow> task multiset" where
  "q_in_flight (Z_execute t) = ptr_tasks t"
| "q_in_flight _ = {#}"

definition qledger :: "qpool \<Rightarrow> bool" where
  "qledger q \<longleftrightarrow>
     q_submitted q = q_dropped q + owned ptr_tasks (q_queue q) + p_submitted (q_base q)
                       + owned q_in_flight (q_clients q)"

definition qorder :: "qpool \<Rightarrow> bool" where
  "qorder q \<longleftrightarrow> q_pushed q = q_assigned q @ q_flushed q @ q_queue q \<and>
     (q_flushed q \<noteq> [] \<longrightarrow> q_dispatcher q = D_done) \<and>
     (q_go q \<longrightarrow> \<not> p_terminating (q_base q)) \<and>
     (\<not> is_alive (q_thread q) \<longrightarrow> q_dispatcher q = D_done)"

definition qclients_ok :: "qpool \<Rightarrow> bool" where
  "qclients_ok q \<longleftrightarrow> length (p_clients (q_base q)) = length (q_clients q) \<and>
     (\<forall>j < length (q_clients q).
        base_inner (q_clients q ! j) (p_clients (q_base q) ! j) \<and>
        qclient_knows (q_go q) (q_dispatcher q) (q_clients q ! j))"

definition qpool_inv :: "qpool \<Rightarrow> bool" where
  "qpool_inv q \<longleftrightarrow> pool_good (q_base q) \<and> qlock_ok (q_sync q) (q_dispatcher q) (q_clients q) \<and>
     dispatcher_knows (q_go q) (q_queue q) (p_tasks (q_base q)) (q_dispatcher q) \<and>
     qclients_ok q \<and> qledger q \<and> qorder q"

lemma qpool_upd_fields [simp]:
  "q_sync (set_qclient j pc q) = q_sync q" "q_thread (set_qclient j pc q) = q_thread q"
  "q_queue (set_qclient j pc q) = q_queue q" "q_go (set_qclient j pc q) = q_go q"
  "q_dispatcher (set_qclient j pc q) = q_dispatcher q" "q_base (set_qclient j pc q) = q_base q"
  "q_clients (set_qclient j pc q) = (q_clients q)[j := pc]"
  "q_sync (set_qsync s q) = s" "q_thread (set_qsync s q) = q_thread q"
  "q_queue (set_qsync s q) = q_queue q" "q_go (set_qsync s q) = q_go q"
  "q_dispatcher (set_qsync s q) = q_dispatcher q" "q_base (set_qsync s q) = q_base q"
  "q_clients (set_qsync s q) = q_clients q"
  "q_sync (set_dispatcher d q) = q_sync q" "q_thread (set_dispatcher d q) = q_thread q"
  "q_queue (set_dispatcher d q) = q_queue q" "q_go (set_dispatcher d q) = q_go q"
  "q_dispatcher (set_dispatcher d q) = d" "q_base (set_dispatcher d q) = q_base q"
  "q_clients (set_dispatcher d q) = q_clients q"
  "q_sync (set_base p q) = q_sync q" "q_thread (set_base p q) = q_thread q"
  "q_queue (set_base p q) = q_queue q" "q_go (set_base p q) = q_go q"
  "q_dispatcher (set_base p q) = q_dispatcher q" "q_base (set_base p q) = p"
  "q_clients (set_base p q) = q_clients q"
  by (simp_all add: qpool_upd)

text \<open>The ghost fields.\<close>
lemma qpool_upd_ghosts [simp]:
  "q_submitted (set_qclient j pc q) = q_submitted q" "q_dropped (set_qclient j pc q) = q_dropped q"
  "q_pushed (set_qclient j pc q) = q_pushed q" "q_assigned (set_qclient j pc q) = q_assigned q"
  "q_flushed (set_qclient j pc q) = q_flushed q"
  "q_submitted (set_qsync s q) = q_submitted q" "q_dropped (set_qsync s q) = q_dropped q"
  "q_pushed (set_qsync s q) = q_pushed q" "q_assigned (set_qsync s q) = q_assigned q"
  "q_flushed (set_qsync s q) = q_flushed q"
  "q_submitted (set_dispatcher d q) = q_submitted q" "q_dropped (set_dispatcher d q) = q_dropped q"
  "q_pushed (set_dispatcher d q) = q_pushed q" "q_assigned (set_dispatcher d q) = q_assigned q"
  "q_flushed (set_dispatcher d q) = q_flushed q"
  "q_submitted (set_base p q) = q_submitted q" "q_dropped (set_base p q) = q_dropped q"
  "q_pushed (set_base p q) = q_pushed q" "q_assigned (set_base p q) = q_assigned q"
  "q_flushed (set_base p q) = q_flushed q"
  by (simp_all add: qpool_upd)

lemma qpool_invD:
  assumes "qpool_inv q"
  shows "pool_good (q_base q)" and "qlock_ok (q_sync q) (q_dispatcher q) (q_clients q)"
    and "dispatcher_knows (q_go q) (q_queue q) (p_tasks (q_base q)) (q_dispatcher q)"
    and "qclients_ok q" and "qledger q" and "qorder q"
  using assms by (simp_all add: qpool_inv_def)

section \<open>How the parts change\<close>

lemma qlock_client:
  assumes "qlock_ok s d cs" and "j < length cs"
    and "monitor s = None \<or> monitor s = Some (Client j)"
    and "monitor s' = (if qclient_holds pc then Some (Client j) else None)"
    and "cond s' = [] \<or> cond s' = cond s" and "pc \<noteq> Z_threw"
  shows "qlock_ok s' d (cs[j := pc])"
proof -
  have others: "\<not> qclient_holds (cs ! i)" if "i < length cs" "i \<noteq> j" for i
    using assms(1,3) that by (auto simp: qlock_ok_def)
  have "monitor s \<noteq> Some Dispatcher" using assms(3) by auto
  then have "\<not> dispatcher_holds d" using assms(1) by (simp add: qlock_ok_def)
  then show ?thesis
    using assms(1,2,4-6) others by (auto simp: qlock_ok_def nth_list_update)
qed

lemma qlock_quiet:
  assumes "qlock_ok s d cs" and "j < length cs" and "monitor s' = monitor s"
    and "qclient_holds pc \<longleftrightarrow> qclient_holds (cs ! j)" and "pc \<noteq> Z_threw"
    and "cond s' = [] \<or> cond s' = cond s"
  shows "qlock_ok s' d (cs[j := pc])"
  using assms by (auto simp: qlock_ok_def nth_list_update)

lemma qlock_wake:
  "qlock_ok s d cs \<Longrightarrow> monitor s' = monitor s \<Longrightarrow> cond s' = [] \<or> cond s' = cond s \<Longrightarrow>
   qlock_ok s' d cs"
  by (auto simp: qlock_ok_def)

lemma qlock_dispatcher:
  assumes "qlock_ok s d cs" and "monitor s = None \<or> monitor s = Some Dispatcher"
    and "monitor s' = (if dispatcher_holds d' then Some Dispatcher else None)"
    and "cond s' = [] \<or> cond s' = [Dispatcher] \<and> dispatcher_asleep d'" and "d' \<noteq> D_threw"
  shows "qlock_ok s' d' cs"
  using assms by (auto simp: qlock_ok_def split: if_splits)

lemma qlock_signal:
  "qlock_ok s d cs \<Longrightarrow> cond (sync_notify k s) = [] \<or> cond (sync_notify k s) = cond s"
  by (auto simp: qlock_ok_def sync_notify_def)

lemma dispatcher_knows_outside:
  "\<not> dispatcher_holds d \<Longrightarrow> dispatcher_knows go qs tms d \<Longrightarrow>
   (qs \<noteq> [] \<Longrightarrow> dispatcher_asleep d \<Longrightarrow> qs' \<noteq> [] \<and> hd qs' = hd qs) \<Longrightarrow>
   dispatcher_knows go' qs' tms' d"
  by (cases d) auto

text \<open>A step of a client.\<close>
lemma qinv_client:
  assumes inv: "qpool_inv q" and j: "j < length (q_clients q)"
    and lock: "qlock_ok (q_sync q') (q_dispatcher q) ((q_clients q)[j := pc])"
    and q': "q_dispatcher q' = q_dispatcher q" "q_clients q' = (q_clients q)[j := pc]"
      "q_go q' \<Longrightarrow> q_go q"
    and base: "pool_good (q_base q')"
      "length (p_clients (q_base q')) = length (p_clients (q_base q))"
      "\<And>i. i \<noteq> j \<Longrightarrow> p_clients (q_base q') ! i = p_clients (q_base q) ! i"
    and inner: "base_inner pc (p_clients (q_base q') ! j)"
    and knows: "qclient_knows (q_go q') (q_dispatcher q) pc"
    and disp: "dispatcher_knows (q_go q') (q_queue q') (p_tasks (q_base q')) (q_dispatcher q)"
    and rest: "qledger q'" "qorder q'"
  shows "qpool_inv q'"
proof -
  have mono: "qclient_knows (q_go q) d x \<Longrightarrow> qclient_knows (q_go q') d x" for d x
    using q'(3) by (cases "(q_go q, d, x)" rule: qclient_knows.cases) auto
  have "base_inner ((q_clients q)[j := pc] ! i) (p_clients (q_base q') ! i) \<and>
      qclient_knows (q_go q') (q_dispatcher q) ((q_clients q)[j := pc] ! i)"
    if "i < length (q_clients q)" for i
    using that inner knows base(3) [of i] qpool_invD(4) [OF inv] mono j
    by (cases "i = j") (auto simp: qclients_ok_def)
  then have "qclients_ok q'"
    using qpool_invD(4) [OF inv] base(2) q' by (simp add: qclients_ok_def)
  then show ?thesis
    using lock base(1) disp rest q' by (simp add: qpool_inv_def)
qed

text \<open>A step of the dispatcher.\<close>
lemma qinv_dispatcher:
  assumes inv: "qpool_inv q" and q': "q_clients q' = q_clients q" "q_go q' = q_go q"
    and lock: "qlock_ok (q_sync q') (q_dispatcher q') (q_clients q)"
    and base: "pool_good (q_base q')" "p_clients (q_base q') = p_clients (q_base q)"
    and before: "q_dispatcher q \<noteq> D_done"
    and disp: "dispatcher_knows (q_go q) (q_queue q') (p_tasks (q_base q')) (q_dispatcher q')"
    and rest: "qledger q'" "qorder q'"
  shows "qpool_inv q'"
proof -
  have mono: "qclient_knows (q_go q) (q_dispatcher q) x \<Longrightarrow>
      qclient_knows (q_go q) (q_dispatcher q') x" for x
    using before by (cases "(q_go q, q_dispatcher q, x)" rule: qclient_knows.cases) auto
  have "qclients_ok q'" using qpool_invD(4) [OF inv] q' base(2) mono by (auto simp: qclients_ok_def)
  then show ?thesis using lock base(1) disp rest q' by (simp add: qpool_inv_def)
qed

lemma owned_flight_update:
  "j < length cs \<Longrightarrow> owned q_in_flight (cs[j := pc]) + q_in_flight (cs ! j) =
   owned q_in_flight cs + q_in_flight pc"
  by (rule owned_update)

lemma qledger_same:
  assumes "qledger q" and "j < length (q_clients q)"
    and "q_in_flight pc = q_in_flight (q_clients q ! j)"
    and "q_clients q' = (q_clients q)[j := pc]" "q_submitted q' = q_submitted q"
      "q_dropped q' = q_dropped q" "q_queue q' = q_queue q"
      "p_submitted (q_base q') = p_submitted (q_base q)"
  shows "qledger q'"
  using assms owned_update_same [OF assms(2), of q_in_flight pc] by (simp add: qledger_def)

section \<open>The steps of the dispatcher\<close>

lemma dispatcher_owner:
  "qlock_ok s d cs \<Longrightarrow> dispatcher_holds d \<Longrightarrow> monitor s = Some Dispatcher \<and> cond s = []"
  by (cases d) (auto simp: qlock_ok_def)

lemma dispatcher_free:
  "qlock_ok s d cs \<Longrightarrow> \<not> dispatcher_holds d \<Longrightarrow> monitor s \<noteq> Some Dispatcher"
  by (auto simp: qlock_ok_def)

text \<open>The dispatcher moves on inside the lock, or leaves it, with queue and base as they are.\<close>
lemma qinv_dispatcher_move:
  assumes inv: "qpool_inv q" and d: "q_dispatcher q \<noteq> D_done" "d' \<noteq> D_threw"
    and owner: "monitor (q_sync q) = None \<or> monitor (q_sync q) = Some Dispatcher"
    and s: "monitor s = (if dispatcher_holds d' then Some Dispatcher else None)"
      "cond s = [] \<or> cond s = [Dispatcher] \<and> dispatcher_asleep d'"
    and knows: "dispatcher_knows (q_go q) (q_queue q) (p_tasks (q_base q)) d'"
  shows "qpool_inv (set_dispatcher d' (set_qsync s q))"
proof (rule qinv_dispatcher [OF inv])
  show "qlock_ok (q_sync (set_dispatcher d' (set_qsync s q)))
      (q_dispatcher (set_dispatcher d' (set_qsync s q))) (q_clients q)"
    using qlock_dispatcher [OF qpool_invD(2) [OF inv] owner s d(2)] by simp
qed (use inv d knows in \<open>auto simp: qpool_inv_def qledger_def qorder_def\<close>)

lemma qinv_dispatcher_stay:
  assumes inv: "qpool_inv q" and holds: "dispatcher_holds (q_dispatcher q)" "dispatcher_holds d'"
    and knows: "dispatcher_knows (q_go q) (q_queue q) (p_tasks (q_base q)) d'"
  shows "qpool_inv (set_dispatcher d' q)"
proof -
  have same: "set_qsync (q_sync q) q = q" by (simp add: set_qsync_def)
  have "qpool_inv (set_dispatcher d' (set_qsync (q_sync q) q))"
    using dispatcher_owner [OF qpool_invD(2) [OF inv] holds(1)] holds knows
    by (intro qinv_dispatcher_move [OF inv]) auto
  then show ?thesis by (simp add: same)
qed

lemma qinv_wait:
  assumes inv: "qpool_inv q" and holds: "dispatcher_holds (q_dispatcher q)"
    and step: "dispatcher_wait asleep_pc back q = Some q'"
    and pc: "dispatcher_asleep asleep_pc" "asleep_pc \<noteq> D_threw"
    and knows: "dispatcher_knows (q_go q) (q_queue q) (p_tasks (q_base q)) asleep_pc"
  shows "qpool_inv q'"
proof -
  note own = dispatcher_owner [OF qpool_invD(2) [OF inv] holds]
  then have q': "q' = set_dispatcher asleep_pc
      (set_qsync ((q_sync q)\<lparr>monitor := None, cond := [Dispatcher]\<rparr>) q)"
    using step by (simp add: dispatcher_wait_def)
  have "\<not> dispatcher_holds asleep_pc" using pc by (cases asleep_pc) auto
  then show ?thesis
    unfolding q' using own holds knows pc by (intro qinv_dispatcher_move [OF inv]) auto
qed

lemma qinv_resume:
  assumes inv: "qpool_inv q" and d: "dispatcher_asleep (q_dispatcher q)"
    and step: "dispatcher_resume back q = Some q'" and holds: "dispatcher_holds back"
    and knows: "dispatcher_knows (q_go q) (q_queue q) (p_tasks (q_base q)) back"
  shows "qpool_inv q'"
proof -
  have free: "monitor (q_sync q) = None" "Dispatcher \<notin> set (cond (q_sync q))"
    and q': "q' = set_dispatcher back (set_qsync ((q_sync q)\<lparr>monitor := Some Dispatcher\<rparr>) q)"
    using step by (auto simp: dispatcher_resume_def sync_resume_cases split: if_splits)
  have "cond (q_sync q) = []" using free(2) qpool_invD(2) [OF inv] by (auto simp: qlock_ok_def)
  then show ?thesis
    unfolding q' using free d holds knows by (intro qinv_dispatcher_move [OF inv]) auto
qed

lemma qinv_assign_scan:
  assumes inv: "qpool_inv q" and d: "q_dispatcher q = D_scan t i"
    and step: "assign_scan t i q = Some q'"
  shows "qpool_inv q'"
proof -
  have ok: "managers_ok (p_tasks (q_base q))"
    using qpool_invD(1) [OF inv] by (auto simp: pool_good_def)
  show ?thesis
    using step qpool_invD(3) [OF inv] d dispatcher_no_throw(1) [OF ok]
    by (auto simp: assign_scan_def tm_is_idle_Returns_iff intro!: qinv_dispatcher_stay [OF inv]
        split: if_splits outcome.splits bool.splits)
qed

lemma qinv_assign_set:
  assumes inv: "qpool_inv q" and d: "q_dispatcher q = D_set t i"
    and step: "assign_set k t i q = Some q'"
  shows "qpool_inv q'"
proof -
  let ?p = "q_base q"
  have good: "pool_good ?p" and ok: "managers_ok (p_tasks ?p)"
    using qpool_invD(1) [OF inv] by (auto simp: pool_good_def)
  have knows: "q_queue q \<noteq> []" "hd (q_queue q) = t" "q_go q" "i < length (p_tasks ?p)"
    "is_alive (tm_thread (p_tasks ?p ! i))"
    using qpool_invD(3) [OF inv] d by auto
  have live: "\<not> p_terminating ?p" using qpool_invD(6) [OF inv] knows(3) by (simp add: qorder_def)
  have own: "monitor (q_sync q) = Some Dispatcher \<and> cond (q_sync q) = []"
    using dispatcher_owner [OF qpool_invD(2) [OF inv]] d by simp
  obtain b tm where set: "tm_set_task k Dispatcher t (p_tasks ?p ! i) = Returns (b, tm)"
    using step dispatcher_no_throw(2) [OF ok knows(4)]
    by (auto simp: assign_set_def Let_def split: outcome.splits)
  show ?thesis
  proof (cases b)
    case True
    then have "tm_set_task k Dispatcher t (p_tasks ?p ! i) = Returns (True, tm)"
      using set by simp
    note good' = pool_good_assign [OF good knows(4,5) live this]
    have q': "q' = set_dispatcher D_queue
        (q\<lparr>q_base := set_manager i tm (?p\<lparr>p_submitted := p_submitted ?p + ptr_tasks t\<rparr>),
           q_queue := tl (q_queue q), q_assigned := q_assigned q @ [t]\<rparr>)"
      using step set True by (simp add: assign_set_def Let_def)
    obtain qs where qs: "q_queue q = t # qs" using knows(1,2) by (cases "q_queue q") auto
    have "qlock_ok (q_sync q) D_queue (q_clients q)"
      using own by (intro qlock_dispatcher [OF qpool_invD(2) [OF inv]]) auto
    then show ?thesis
      using good' qpool_invD(5,6) [OF inv] qs d
      by (intro qinv_dispatcher [OF inv]) (auto simp: q' qledger_def qorder_def ac_simps)
  next
    case False
    then have "tm = p_tasks ?p ! i" using set by (auto simp: tm_set_task_Returns_iff)
    then have "q' = set_dispatcher (D_scan t (Suc i)) q"
      using step set False by (simp add: assign_set_def Let_def pool_upd set_base_def)
    then show ?thesis
      using qpool_invD(3) [OF inv] d by (auto intro!: qinv_dispatcher_stay [OF inv])
  qed
qed

lemma qpool_inv_dispatcher_step:
  assumes inv: "qpool_inv q" and step: "dispatcher_step k q = Some q'"
  shows "qpool_inv q'"
proof -
  note knows = qpool_invD(3) [OF inv]
  show ?thesis
  proof (cases "q_dispatcher q")
    case D_enter
    then have "monitor (q_sync q) = None" "cond (q_sync q) = []"
      and "q' = set_dispatcher D_queue (set_qsync ((q_sync q)\<lparr>monitor := Some Dispatcher\<rparr>) q)"
      using step qpool_invD(2) [OF inv]
      by (auto simp: dispatcher_step_def lock_enter_cases qlock_ok_def
          split: option.splits if_splits)
    then show ?thesis using D_enter by (auto intro!: qinv_dispatcher_move [OF inv])
  next
    case D_queue
    then show ?thesis
      using step by (auto simp: dispatcher_step_def intro!: qinv_dispatcher_stay [OF inv]
          split: list.splits if_splits)
  next
    case (D_task t)
    then show ?thesis
      using step knows by (auto simp: dispatcher_step_def intro!: qinv_dispatcher_stay [OF inv]
          split: if_splits)
  next
    case (D_scan t i)
    then show ?thesis using step qinv_assign_scan [OF inv] by (simp add: dispatcher_step_def)
  next
    case (D_set t i)
    then show ?thesis using step qinv_assign_set [OF inv] by (simp add: dispatcher_step_def)
  next
    case (D_wait t)
    then show ?thesis
      using step knows by (intro qinv_wait [OF inv]) (auto simp: dispatcher_step_def)
  next
    case (D_asleep t)
    then show ?thesis
      using step knows by (intro qinv_resume [OF inv]) (auto simp: dispatcher_step_def)
  next
    case D_empty
    then show ?thesis
      using step qinv_wait [OF inv] by (auto simp: dispatcher_step_def
          intro: qinv_dispatcher_stay [OF inv] split: if_splits)
  next
    case D_empty_asleep
    then show ?thesis
      using step by (intro qinv_resume [OF inv]) (auto simp: dispatcher_step_def)
  next
    case D_again
    then have "monitor (q_sync q) = Some Dispatcher \<and> cond (q_sync q) = []"
      using dispatcher_owner [OF qpool_invD(2) [OF inv]] by simp
    then show ?thesis
      using step D_again by (auto simp: dispatcher_step_def lock_leave_own
          intro!: qinv_dispatcher_stay [OF inv] qinv_dispatcher_move [OF inv] split: if_splits)
  qed (use step in \<open>auto simp: dispatcher_step_def\<close>)
qed

section \<open>The steps of the clients\<close>

lemma client_facts:
  assumes "qpool_inv q" and "j < length (q_clients q)"
  shows "base_inner (q_clients q ! j) (p_clients (q_base q) ! j)"
    and "qclient_knows (q_go q) (q_dispatcher q) (q_clients q ! j)"
    and "j < length (p_clients (q_base q))"
    and "q_clients q ! j \<noteq> Z_threw"
  using qpool_invD(2,4) [OF assms(1)] assms(2) by (auto simp: qclients_ok_def qlock_ok_def)

lemma client_lock:
  assumes "qpool_inv q" and "j < length (q_clients q)"
  shows "monitor (q_sync q) = Some (Client j) \<longleftrightarrow> qclient_holds (q_clients q ! j)"
  using qpool_invD(2) [OF assms(1)] assms(2) by (auto simp: qlock_ok_def)

lemma dispatcher_out:
  "qpool_inv q \<Longrightarrow> monitor (q_sync q) \<noteq> Some Dispatcher \<Longrightarrow> \<not> dispatcher_holds (q_dispatcher q)"
  using qpool_invD(2) by (auto simp: qlock_ok_def)

text \<open>
  The shape of a client's step that leaves the queue alone: its own location, the lock, and the
  base pool may change.
\<close>
lemma qinv_client_move:
  assumes inv: "qpool_inv q" and j: "j < length (q_clients q)"
    and lock: "qlock_ok s (q_dispatcher q) ((q_clients q)[j := pc])"
    and base: "pool_good p" "length (p_clients p) = length (p_clients (q_base q))"
      "\<And>i. i \<noteq> j \<Longrightarrow> p_clients p ! i = p_clients (q_base q) ! i"
      "p_submitted p = p_submitted (q_base q)"
    and inner: "base_inner pc (p_clients p ! j)"
    and knows: "qclient_knows go (q_dispatcher q) pc"
    and flight: "q_in_flight pc = q_in_flight (q_clients q ! j)"
    and go: "go \<Longrightarrow> q_go q" "go \<Longrightarrow> \<not> p_terminating p"
    and out: "\<not> dispatcher_holds (q_dispatcher q)"
    and q': "q' = q\<lparr>q_sync := s, q_base := p, q_go := go, q_clients := (q_clients q)[j := pc]\<rparr>"
  shows "qpool_inv q'"
proof (rule qinv_client [OF inv j])
  show "qledger q'"
    by (rule qledger_same [OF qpool_invD(5) [OF inv] j flight]) (simp_all add: q' base(4))
  show "qorder q'" using qpool_invD(6) [OF inv] go by (simp add: q' qorder_def)
  show "dispatcher_knows (q_go q') (q_queue q') (p_tasks (q_base q')) (q_dispatcher q)"
    using dispatcher_knows_outside [OF out qpool_invD(3) [OF inv]] by (simp add: q')
qed (use lock base inner knows go in \<open>simp_all add: q'\<close>)

text \<open>Taking the lock at the start of a call.\<close>
lemma qinv_enter:
  assumes inv: "qpool_inv q" and j: "j < length (q_clients q)"
    and out: "\<not> qclient_holds (q_clients q ! j)"
    and step: "(case lock_enter (q_sync q) (Client j) of
        Returns s \<Rightarrow> Some (set_qclient j pc (set_qsync s q))
      | Throws _ \<Rightarrow> Some (set_qclient j Z_threw q) | Blocked \<Rightarrow> None) = Some q'"
    and pc: "qclient_holds pc" "pc \<noteq> Z_threw" "q_in_flight pc = q_in_flight (q_clients q ! j)"
      "base_inner pc (p_clients (q_base q) ! j)" "qclient_knows (q_go q) (q_dispatcher q) pc"
  shows "qpool_inv q'"
proof -
  have free: "monitor (q_sync q) = None"
    and q': "q' = set_qclient j pc (set_qsync ((q_sync q)\<lparr>monitor := Some (Client j)\<rparr>) q)"
    using step client_lock [OF inv j] out
    by (auto simp: lock_enter_cases split: option.splits if_splits)
  have "qlock_ok ((q_sync q)\<lparr>monitor := Some (Client j)\<rparr>) (q_dispatcher q) ((q_clients q)[j := pc])"
    using free pc by (intro qlock_client [OF qpool_invD(2) [OF inv] j]) auto
  then show ?thesis
    using pc qpool_invD(1,6) [OF inv] free
    by (intro qinv_client_move [OF inv j, where p = "q_base q" and go = "q_go q"])
      (auto simp: q' qpool_upd qorder_def dispatcher_out [OF inv])
qed

text \<open>Giving the lock back at the end of a call.\<close>
lemma qinv_return:
  assumes inv: "qpool_inv q" and j: "j < length (q_clients q)"
    and holds: "qclient_holds (q_clients q ! j)" and pc: "\<not> qclient_holds pc" "pc \<noteq> Z_threw"
      "q_in_flight pc = q_in_flight (q_clients q ! j)"
      "base_inner pc (p_clients (q_base q) ! j)" "qclient_knows (q_go q) (q_dispatcher q) pc"
  shows "qpool_inv (set_qclient j pc (set_qsync (lock_leave (q_sync q) (Client j)) q))"
proof -
  have own: "monitor (q_sync q) = Some (Client j)" using client_lock [OF inv j] holds by simp
  have "qlock_ok ((q_sync q)\<lparr>monitor := None\<rparr>) (q_dispatcher q) ((q_clients q)[j := pc])"
    using own pc by (intro qlock_client [OF qpool_invD(2) [OF inv] j]) auto
  then show ?thesis
    using pc qpool_invD(1,6) [OF inv] own
    by (intro qinv_client_move [OF inv j, where p = "q_base q" and go = "q_go q"])
      (auto simp: qpool_upd qorder_def dispatcher_out [OF inv] lock_leave_own)
qed

text \<open>A step inside the base class.\<close>
lemma qinv_base_step:
  assumes inv: "qpool_inv q" and j: "j < length (q_clients q)"
    and step: "base_step j k q = Some q'" and out: "\<not> dispatcher_holds (q_dispatcher q)"
    and pc: "q_clients q ! j = Z_query qu Zq_base \<or> q_clients q ! j = Z_terminate d Z_base \<or>
             q_clients q ! j = Z_terminate d Z_last"
  shows "qpool_inv q'"
proof -
  obtain p where p: "client_step j k (q_base q) = Some p" and q': "q' = set_base p q"
    using step by (auto simp: base_step_def)
  note jb = client_facts(3) [OF inv j]
  have good: "pool_good p" by (rule pool_good_client [OF qpool_invD(1) [OF inv] jb p])
  note frame = client_step_frame [OF p]
  then have jp: "j < length (p_clients p)" using jb by simp
  have inner: "base_inner (q_clients q ! j) (p_clients p ! j)"
    using client_step_query_kind [OF p jb _ pool_good_not_threw [OF good jp]]
      client_step_terminate_kind [OF p jb _ pool_good_not_threw [OF good jp]]
      client_facts(1) [OF inv j] pc p
    by (cases "p_clients (q_base q) ! j") (fastforce simp: client_step_def)+
  have same: "(q_clients q)[j := q_clients q ! j] = q_clients q" by simp
  show ?thesis
    using good frame inner qpool_invD(2,6) [OF inv] client_facts(2) [OF inv j] out
    by (intro qinv_client_move [OF inv j, where p = p and go = "q_go q" and
          pc = "q_clients q ! j" and s = "q_sync q"])
      (auto simp: q' qpool_upd same qorder_def)
qed

lemma qinv_query:
  assumes inv: "qpool_inv q" and j: "j < length (q_clients q)"
    and pc: "q_clients q ! j = Z_query qu x" and step: "qquery_step j k qu x q = Some q'"
  shows "qpool_inv q'"
proof (cases x)
  case Zq_enter
  then show ?thesis
    using step pc client_facts(1) [OF inv j]
    by (intro qinv_enter [OF inv j, where pc = "Z_query qu Zq_head"])
      (cases "p_clients (q_base q) ! j"; auto simp: qquery_step_def)+
next
  case Zq_head
  then obtain r where r: "p_clients (q_base q) ! j = C_outside r"
    using client_facts(1) [OF inv j] pc by (cases "p_clients (q_base q) ! j") auto
  have own: "monitor (q_sync q) = Some (Client j)" using client_lock [OF inv j] pc Zq_head by simp
  show ?thesis
  proof (cases "is_alive (q_thread q) \<and> q_queue q = []")
    case True
    then have q': "q' = set_qclient j (Z_query qu Zq_base)
        (set_base (client_call j (Do_query Q_is_idle) (q_base q)) q)"
      using step Zq_head by (simp add: qquery_step_def)
    have "qlock_ok (q_sync q) (q_dispatcher q) ((q_clients q)[j := Z_query qu Zq_base])"
      using pc Zq_head by (intro qlock_quiet [OF qpool_invD(2) [OF inv] j]) auto
    then show ?thesis
      using pool_good_call [OF qpool_invD(1) [OF inv] client_facts(3) [OF inv j] r]
        qpool_invD(6) [OF inv] client_facts(3) [OF inv j] pc own
      by (intro qinv_client_move [OF inv j, where go = "q_go q" and
            p = "client_call j (Do_query Q_is_idle) (q_base q)"])
        (auto simp: q' qpool_upd qorder_def dispatcher_out [OF inv])
  next
    case False
    then show ?thesis
      using step Zq_head pc r
      by (auto simp: qquery_step_def qclient_return_def intro!: qinv_return [OF inv j])
  qed
next
  case Zq_base
  have own: "monitor (q_sync q) = Some (Client j)" using client_lock [OF inv j] pc Zq_base by simp
  then have out: "\<not> dispatcher_holds (q_dispatcher q)" by (simp add: dispatcher_out [OF inv])
  show ?thesis
  proof (cases "\<exists>r. p_clients (q_base q) ! j = C_outside (Some r)")
    case True
    then show ?thesis
      using step Zq_base pc
      by (auto simp: qquery_step_def qclient_return_def intro!: qinv_return [OF inv j])
  next
    case False
    then have "base_step j k q = Some q'"
      using step Zq_base by (auto simp: qquery_step_def split: client_pc.splits option.splits)
    then show ?thesis using qinv_base_step [OF inv j _ out] pc Zq_base by blast
  qed
qed

lemma qinv_terminate:
  assumes inv: "qpool_inv q" and j: "j < length (q_clients q)"
    and pc: "q_clients q ! j = Z_terminate d x" and step: "qterminate_step j k d x q = Some q'"
  shows "qpool_inv q'"
proof (cases x)
  case Z_enter
  then show ?thesis
    using step pc client_facts(1) [OF inv j]
    by (intro qinv_enter [OF inv j, where pc = "Z_terminate d Z_stop"])
      (cases "p_clients (q_base q) ! j"; auto simp: qterminate_step_def)+
next
  case Z_stop
  then obtain r where r: "p_clients (q_base q) ! j = C_outside r"
    using client_facts(1) [OF inv j] pc by (cases "p_clients (q_base q) ! j") auto
  have own: "monitor (q_sync q) = Some (Client j)" using client_lock [OF inv j] pc Z_stop by simp
  have "q' = q\<lparr>q_go := False, q_sync := sync_notify k (q_sync q),
      q_base := client_call j Do_terminate (q_base q),
      q_clients := (q_clients q)[j := Z_terminate d Z_base]\<rparr>"
    using step Z_stop by (simp add: qterminate_step_def qpool_upd)
  then have q': "q' = q\<lparr>q_sync := sync_notify k (q_sync q),
      q_base := client_call j Do_terminate (q_base q), q_go := False,
      q_clients := (q_clients q)[j := Z_terminate d Z_base]\<rparr>"
    by simp
  have "qlock_ok (sync_notify k (q_sync q)) (q_dispatcher q)
      ((q_clients q)[j := Z_terminate d Z_base])"
    using pc Z_stop qlock_signal [OF qpool_invD(2) [OF inv]]
    by (intro qlock_quiet [OF qpool_invD(2) [OF inv] j]) auto
  then show ?thesis
    using pool_good_call [OF qpool_invD(1) [OF inv] client_facts(3) [OF inv j] r]
      client_facts(3) [OF inv j] pc own
    by (intro qinv_client_move [OF inv j _ _ _ _ _ _ _ _ _ _ _ q'])
      (auto simp: dispatcher_out [OF inv])
next
  case Z_base
  have own: "monitor (q_sync q) = Some (Client j)" using client_lock [OF inv j] pc Z_base by simp
  then have out: "\<not> dispatcher_holds (q_dispatcher q)" by (simp add: dispatcher_out [OF inv])
  show ?thesis
  proof (cases "\<exists>r. p_clients (q_base q) ! j = C_outside r")
    case True
    then show ?thesis
      using step Z_base pc client_facts(2) [OF inv j]
      by (auto simp: qterminate_step_def qclient_return_def intro!: qinv_return [OF inv j]
          split: if_splits)
  next
    case False
    then have "base_step j k q = Some q'"
      using step Z_base by (auto simp: qterminate_step_def split: client_pc.splits)
    then show ?thesis using qinv_base_step [OF inv j _ out] pc Z_base by blast
  qed
next
  case Z_last
  have "q_dispatcher q = D_done" using client_facts(2) [OF inv j] pc Z_last by simp
  then have out: "\<not> dispatcher_holds (q_dispatcher q)" by simp
  show ?thesis
  proof (cases "\<exists>r. p_clients (q_base q) ! j = C_outside r")
    case True
    then have q': "q' = set_qclient j (Z_outside None) q"
      using step Z_last by (auto simp: qterminate_step_def)
    have "qlock_ok (q_sync q) (q_dispatcher q) ((q_clients q)[j := Z_outside None])"
      using pc Z_last by (intro qlock_quiet [OF qpool_invD(2) [OF inv] j]) auto
    then show ?thesis
      using True qpool_invD(1,6) [OF inv] pc out
      by (intro qinv_client_move [OF inv j, where go = "q_go q" and p = "q_base q"])
        (auto simp: q' qpool_upd qorder_def)
  next
    case False
    then have "base_step j k q = Some q'"
      using step Z_last by (auto simp: qterminate_step_def split: client_pc.splits)
    then show ?thesis using qinv_base_step [OF inv j _ out] pc Z_last by blast
  qed
next
  case Z_join
  then have halted: "q_dispatcher q = D_done"
    and q': "q' = set_qclient j (Z_terminate d Z_empty)
      (q\<lparr>q_thread := thread_join None (q_thread q)\<rparr>)"
    using step qpool_invD(6) [OF inv] by (auto simp: qterminate_step_def qorder_def split: if_splits)
  have inner: "base_inner (Z_terminate d Z_empty) (p_clients (q_base q) ! j)"
    using client_facts(1) [OF inv j] pc Z_join
    by (cases "p_clients (q_base q) ! j") auto
  have "qlock_ok (q_sync q) (q_dispatcher q) ((q_clients q)[j := Z_terminate d Z_empty])"
    using pc Z_join by (intro qlock_quiet [OF qpool_invD(2) [OF inv] j]) auto
  moreover have "qledger q'"
    by (rule qledger_same [OF qpool_invD(5) [OF inv] j, where pc = "Z_terminate d Z_empty"])
      (simp_all add: q' pc)
  moreover have "qorder q'" using qpool_invD(6) [OF inv] halted by (simp add: q' qorder_def)
  ultimately show ?thesis
    using qpool_invD(1) [OF inv] client_facts(2) [OF inv j] inner halted pc Z_join
    by (intro qinv_client [OF inv j, where pc = "Z_terminate d Z_empty"]) (auto simp: q')
next
  case Z_empty
  have halted: "q_dispatcher q = D_done" and stopped: "\<not> q_go q"
    using client_facts(2) [OF inv j] pc Z_empty by simp_all
  obtain r where r: "p_clients (q_base q) ! j = C_outside r"
    using client_facts(1) [OF inv j] pc Z_empty by (cases "p_clients (q_base q) ! j") auto
  have free: "monitor (q_sync q) = None" and q': "q' = set_qclient j (Z_terminate d Z_last)
      (set_base (client_call j Do_terminate (q_base q))
        (set_qsync ((q_sync q)\<lparr>monitor := None\<rparr>) (empty_queue q)))"
    using step Z_empty client_lock [OF inv j] pc
    by (auto simp: qterminate_step_def lock_enter_cases empty_queue_def
        split: option.splits if_splits)
  have "qlock_ok ((q_sync q)\<lparr>monitor := None\<rparr>) (q_dispatcher q)
      ((q_clients q)[j := Z_terminate d Z_last])"
    using pc Z_empty free by (intro qlock_quiet [OF qpool_invD(2) [OF inv] j]) auto
  moreover have "qledger q'"
    using qpool_invD(5) [OF inv] pc owned_update_same [OF j, of q_in_flight "Z_terminate d Z_last"]
    by (simp add: q' qledger_def empty_queue_def ac_simps)
  moreover have "qorder q'"
    using qpool_invD(6) [OF inv] stopped halted by (simp add: q' qorder_def empty_queue_def)
  ultimately show ?thesis
    using pool_good_call [OF qpool_invD(1) [OF inv] client_facts(3) [OF inv j] r]
      client_facts(3) [OF inv j] halted stopped
    by (intro qinv_client [OF inv j, where pc = "Z_terminate d Z_last"])
      (auto simp: q' empty_queue_def)
qed

lemma qinv_execute:
  assumes inv: "qpool_inv q" and j: "j < length (q_clients q)"
    and pc: "q_clients q ! j = Z_execute t" and step: "qexecute_step j k t q = Some q'"
  shows "qpool_inv q'"
proof -
  have inner: "base_inner (Z_outside None) (p_clients (q_base q) ! j)"
    using client_facts(1) [OF inv j] pc by (cases "p_clients (q_base q) ! j") auto
  have free: "monitor (q_sync q) = None"
    using step client_lock [OF inv j] pc
    by (auto simp: qexecute_step_def lock_enter_cases split: option.splits if_splits)
  then have out: "\<not> dispatcher_holds (q_dispatcher q)" by (simp add: dispatcher_out [OF inv])
  have flight: "owned q_in_flight ((q_clients q)[j := Z_outside None]) + ptr_tasks t =
      owned q_in_flight (q_clients q)"
    using owned_update_sub [OF j, of q_in_flight "Z_outside None" "ptr_tasks t"] pc by simp
  have lock: "qlock_ok s (q_dispatcher q) ((q_clients q)[j := Z_outside None])"
    if "monitor s = None" "cond s = [] \<or> cond s = cond (q_sync q)" for s
    using that free by (intro qlock_client [OF qpool_invD(2) [OF inv] j]) auto
  show ?thesis
  proof (cases "q_go q")
    case False
    then have q': "q' = set_qclient j (Z_outside None)
        (q\<lparr>q_sync := (q_sync q)\<lparr>monitor := None\<rparr>, q_dropped := q_dropped q + ptr_tasks t\<rparr>)"
      using step free
      by (simp add: qexecute_step_def lock_enter_cases qclient_return_def qpool_upd)
    have "qledger q'"
      using qpool_invD(5) [OF inv] flight by (simp add: q' qledger_def flight [symmetric] ac_simps)
    then show ?thesis
      using qpool_invD(1,3,6) [OF inv] inner lock False
      by (intro qinv_client [OF inv j, where pc = "Z_outside None"]) (auto simp: q' qorder_def)
  next
    case True
    then have q': "q' = set_qclient j (Z_outside None)
        (q\<lparr>q_sync := (sync_notify k (q_sync q))\<lparr>monitor := None\<rparr>, q_queue := q_queue q @ [t],
           q_pushed := q_pushed q @ [t]\<rparr>)"
      using step free
      by (auto simp: qexecute_step_def lock_enter_cases qclient_return_def qpool_upd
          sync_notify_def lock_leave_own)
    have "qledger q'"
      using qpool_invD(5) [OF inv] flight by (simp add: q' qledger_def flight [symmetric] ac_simps)
    moreover have "qlock_ok (q_sync q') (q_dispatcher q) ((q_clients q)[j := Z_outside None])"
      using lock qlock_signal [OF qpool_invD(2) [OF inv]] by (simp add: q')
    moreover have "dispatcher_knows (q_go q) (q_queue q @ [t]) (p_tasks (q_base q)) (q_dispatcher q)"
      by (rule dispatcher_knows_outside [OF out qpool_invD(3) [OF inv]]) simp
    ultimately show ?thesis
      using qpool_invD(1,6) [OF inv] inner
      by (intro qinv_client [OF inv j, where pc = "Z_outside None"]) (auto simp: q' qorder_def)
  qed
qed

lemma qinv_length:
  assumes inv: "qpool_inv q" and j: "j < length (q_clients q)"
    and pc: "q_clients q ! j = Z_length" and step: "queue_length_step j q = Some q'"
  shows "qpool_inv q'"
proof -
  let ?pc = "Z_outside (Some (A_nat (length (q_queue q))))"
  have inner: "base_inner ?pc (p_clients (q_base q) ! j)"
    using client_facts(1) [OF inv j] pc by (cases "p_clients (q_base q) ! j") auto
  have free: "monitor (q_sync q) = None"
    and q': "q' = set_qclient j ?pc (set_qsync ((q_sync q)\<lparr>monitor := None\<rparr>) q)"
    using step client_lock [OF inv j] pc
    by (auto simp: queue_length_step_def lock_enter_cases qclient_return_def qpool_upd
        split: option.splits if_splits)
  have "qlock_ok ((q_sync q)\<lparr>monitor := None\<rparr>) (q_dispatcher q) ((q_clients q)[j := ?pc])"
    using free by (intro qlock_client [OF qpool_invD(2) [OF inv] j]) auto
  then show ?thesis
    using qpool_invD(1,6) [OF inv] inner free pc
    by (intro qinv_client_move [OF inv j, where p = "q_base q" and go = "q_go q"])
      (auto simp: q' qpool_upd qorder_def dispatcher_out [OF inv])
qed

lemma qpool_inv_client_step:
  assumes inv: "qpool_inv q" and j: "j < length (q_clients q)"
    and step: "qclient_step j k q = Some q'"
  shows "qpool_inv q'"
  using step qinv_execute [OF inv j] qinv_length [OF inv j] qinv_query [OF inv j]
    qinv_terminate [OF inv j]
  by (auto simp: qclient_step_def split: qclient_pc.splits)

section \<open>The other steps\<close>

lemma qinv_call:
  assumes inv: "qpool_inv q" and j: "j < length (q_clients q)"
    and pc: "q_clients q ! j = Z_outside r"
  shows "qpool_inv (qclient_call j c q)"
proof -
  have inner: "base_inner new (p_clients (q_base q) ! j)" if "\<And>qu. new \<noteq> Z_query qu Zq_base" for new
    using client_facts(1) [OF inv j] pc that by (cases "p_clients (q_base q) ! j") auto
  have lock: "qlock_ok (q_sync q) (q_dispatcher q) ((q_clients q)[j := new])"
    if "\<not> qclient_holds new" "new \<noteq> Z_threw" for new
    using that pc by (intro qlock_quiet [OF qpool_invD(2) [OF inv] j]) auto
  have quiet: "qpool_inv (set_qclient j new q)"
    if new: "\<not> qclient_holds new" "new \<noteq> Z_threw" "q_in_flight new = {#}"
      "\<And>go d. qclient_knows go d new" "\<And>qu. new \<noteq> Z_query qu Zq_base" for new
  proof (rule qinv_client [OF inv j, where pc = new])
    show "qledger (set_qclient j new q)"
      by (rule qledger_same [OF qpool_invD(5) [OF inv] j, where pc = new]) (simp_all add: pc new)
    show "qorder (set_qclient j new q)" using qpool_invD(6) [OF inv] by (simp add: qorder_def)
  qed (use qpool_invD(1,3) [OF inv] lock [OF new(1,2)] inner [OF new(5)] new(4) in simp_all)
  have "qpool_inv (set_qclient j (Z_execute t) (q\<lparr>q_submitted := q_submitted q + ptr_tasks t\<rparr>))"
    for t
  proof (rule qinv_client [OF inv j, where pc = "Z_execute t"])
    have "owned q_in_flight ((q_clients q)[j := Z_execute t]) =
        owned q_in_flight (q_clients q) + ptr_tasks t"
      using pc by (intro owned_update_add [OF j]) simp
    then show "qledger (set_qclient j (Z_execute t)
        (q\<lparr>q_submitted := q_submitted q + ptr_tasks t\<rparr>))"
      using qpool_invD(5) [OF inv] by (simp add: qledger_def ac_simps)
    show "qorder (set_qclient j (Z_execute t) (q\<lparr>q_submitted := q_submitted q + ptr_tasks t\<rparr>))"
      using qpool_invD(6) [OF inv] by (simp add: qorder_def)
  qed (use qpool_invD(1,3) [OF inv] lock inner in simp_all)
  then show ?thesis
    by (cases c) (auto simp: qclient_call_def intro!: quiet)
qed

lemma dispatcher_knows_worker:
  "dispatcher_knows go qs tms d \<Longrightarrow>
   (i < length tms \<Longrightarrow> tm_thread tm = tm_thread (tms ! i)) \<Longrightarrow>
   dispatcher_knows go qs (tms[i := tm]) d"
proof (cases d)
  case (D_set t n)
  assume "dispatcher_knows go qs tms d"
    and "i < length tms \<Longrightarrow> tm_thread tm = tm_thread (tms ! i)"
  with D_set show ?thesis by (cases "i = n") auto
qed auto

text \<open>A step that changes the base pool only, and may wake the dispatcher.\<close>
lemma qinv_background:
  assumes inv: "qpool_inv q" and base: "pool_good p" "p_clients p = p_clients (q_base q)"
      "p_submitted p = p_submitted (q_base q)" "p_terminating p = p_terminating (q_base q)"
    and disp: "dispatcher_knows (q_go q) (q_queue q) (p_tasks p) (q_dispatcher q)"
    and s: "monitor s = monitor (q_sync q)" "cond s = [] \<or> cond s = cond (q_sync q)"
  shows "qpool_inv (set_qsync s (set_base p q))"
  using inv base disp qlock_wake [OF qpool_invD(2) [OF inv] s]
  by (simp add: qpool_inv_def qclients_ok_def qledger_def qorder_def)

lemma qinv_worker:
  assumes inv: "qpool_inv q" and i: "i < length (p_tasks (q_base q))"
    and w: "worker_step (Worker i) e (p_tasks (q_base q) ! i) = Some (tm, ev)"
    and s: "monitor s = monitor (q_sync q)" "cond s = [] \<or> cond s = cond (q_sync q)"
  shows "qpool_inv (set_qsync s (set_base (record_event ev (set_manager i tm (q_base q))) q))"
proof -
  have "tm_inv (Worker i) (p_tasks (q_base q) ! i)"
    using pool_manager_inv [OF qpool_invD(1) [OF inv] i] .
  from worker_step_go [OF this w] have "tm_thread tm = tm_thread (p_tasks (q_base q) ! i)" by simp
  then show ?thesis
    using pool_good_worker [OF qpool_invD(1) [OF inv] i w]
      dispatcher_knows_worker [OF qpool_invD(3) [OF inv]] s
    by (intro qinv_background [OF inv]) (auto simp: record_event_def)
qed

lemma qpool_inv_step:
  assumes inv: "qpool_inv q" and step: "qpool_step q l = Some q'"
  shows "qpool_inv q'"
proof (cases l)
  case (QL_call j c)
  then show ?thesis
    using step qinv_call [OF inv] by (auto simp: qpool_step_def split: if_splits qclient_pc.splits)
next
  case (QL_client j k)
  then show ?thesis
    using step qpool_inv_client_step [OF inv] by (auto simp: qpool_step_def split: if_splits)
next
  case (QL_worker i e k)
  then obtain tm ev where i: "i < length (p_tasks (q_base q))"
    and w: "worker_step (Worker i) e (p_tasks (q_base q) ! i) = Some (tm, ev)"
    and q': "q' = (if ev = Ev_idle then queue_idle_notification k else id)
                    (set_base (record_event ev (set_manager i tm (q_base q))) q)"
    using step by (auto simp: qpool_step_def split: if_splits option.splits)
  have "q' = set_qsync (if ev = Ev_idle then sync_notify k (q_sync q) else q_sync q)
      (set_base (record_event ev (set_manager i tm (q_base q))) q)"
    by (simp add: q' queue_idle_notification_def set_qsync_def set_base_def)
  then show ?thesis
    using qinv_worker [OF inv i w] qlock_signal [OF qpool_invD(2) [OF inv]] by simp
next
  case (QL_dispatcher k)
  then show ?thesis using step qpool_inv_dispatcher_step [OF inv] by (simp add: qpool_step_def)
next
  case QL_dispatcher_spurious
  then have "q' = set_qsync (sync_spurious (q_sync q) Dispatcher) (set_base (q_base q) q)"
    using step by (simp add: qpool_step_def set_base_def)
  moreover have "cond (sync_spurious (q_sync q) Dispatcher) = []"
    using qpool_invD(2) [OF inv] by (auto simp: qlock_ok_def sync_spurious_def cond_spurious_def)
  ultimately show ?thesis
    using qpool_invD(1,3) [OF inv]
    by (auto simp: sync_spurious_def intro!: qinv_background [OF inv])
next
  case (QL_worker_spurious i)
  then obtain p where p: "pool_step (q_base q) (L_worker_spurious i) = Some p"
    and q': "q' = set_qsync (q_sync q) (set_base p q)"
    using step by (auto simp: qpool_step_def set_qsync_def set_base_def)
  have "p = set_manager i (worker_spurious (Worker i) (p_tasks (q_base q) ! i)) (q_base q)"
    using p by (simp add: pool_step_def split: if_splits)
  then show ?thesis
    unfolding q' using pool_good_step [OF qpool_invD(1) [OF inv] p]
    by (intro qinv_background [OF inv])
      (auto simp: worker_spurious_def intro!: dispatcher_knows_worker [OF qpool_invD(3) [OF inv]])
qed

interpretation qpool_life: step_invariant qpool_step qpool_inv
  by unfold_locales (rule qpool_inv_step)

lemma qpool_inv_construct: "qpool_inv (qpool_construct_stack err errs n stack m)"
proof -
  have "owned q_in_flight (replicate m (Z_outside None)) = {#}"
    by (rule owned_all_empty) simp
  then show ?thesis
    using pool_good_construct [of errs n stack m]
    by (auto simp: qpool_construct_stack_def qpool_with_base_def Let_def qpool_inv_def qlock_ok_def
        qclients_ok_def qledger_def qorder_def pool_construct_stack_def)
qed

lemma qpool_reach_inv:
  "reach qpool_step (qpool_construct_stack err errs n stack m) q \<Longrightarrow> qpool_inv q"
  using qpool_life.inv_reach qpool_inv_construct by blast

end
