(* ===== verification/Queued_Properties.thy ===== *)
theory Queued_Properties
  imports Queued_Invariant
begin

text \<open>
  What the queued pool promises: its tasks are accounted for, the queue is a FIFO queue (a
  refinement of an abstract one), it does not deadlock, nothing is handed out after
  \<open>terminate\<close>; and three runs that show what it does not promise.
\<close>

section \<open>The queue\<close>

text \<open>The abstract queue: what is pending, in its order, and what was served, in its order.\<close>
datatype fifo_label = F_push "task ptr" | F_serve | F_flush

fun fifo_step ::
  "task ptr list \<times> task ptr list \<Rightarrow> fifo_label \<Rightarrow> (task ptr list \<times> task ptr list) option" where
  "fifo_step (pending, served) (F_push t) = Some (pending @ [t], served)"
| "fifo_step (t # pending, served) F_serve = Some (pending, served @ [t])"
| "fifo_step ([], served) F_serve = None"
| "fifo_step (pending, served) F_flush = Some ([], served)"

definition fifo_view :: "qpool \<Rightarrow> task ptr list \<times> task ptr list" where
  "fifo_view q = (q_queue q, q_assigned q)"

lemma base_step_view: "base_step j k q = Some q' \<Longrightarrow> fifo_view q' = fifo_view q"
  by (auto simp: base_step_def fifo_view_def)

lemma qclient_view:
  assumes "qclient_step j k q = Some q'"
  shows "fifo_view q' = fifo_view q \<or> (\<exists>t. fifo_step (fifo_view q) (F_push t) = Some (fifo_view q')) \<or>
    fifo_step (fifo_view q) F_flush = Some (fifo_view q')"
proof (cases "q_clients q ! j")
  case (Z_execute t)
  then show ?thesis
    using assms by (cases "q_go q") (auto simp: qclient_step_def qexecute_step_def fifo_view_def
        qclient_return_def split: outcome.splits)
next
  case Z_length
  then show ?thesis
    using assms by (auto simp: qclient_step_def queue_length_step_def fifo_view_def
        qclient_return_def split: outcome.splits)
next
  case (Z_query qu x)
  then show ?thesis
    using assms base_step_view by (auto simp: qclient_step_def qquery_step_def fifo_view_def
        qclient_return_def split: outcome.splits qquery_pc.splits client_pc.splits option.splits
        if_splits)
next
  case (Z_terminate d x)
  then show ?thesis
    using assms base_step_view by (auto simp: qclient_step_def qterminate_step_def fifo_view_def
        qclient_return_def empty_queue_def split: outcome.splits qterm_pc.splits client_pc.splits
        if_splits)
qed (use assms in \<open>auto simp: qclient_step_def\<close>)

lemma dispatcher_view:
  assumes inv: "qpool_inv q" and step: "dispatcher_step k q = Some q'"
  shows "fifo_view q' = fifo_view q \<or> fifo_step (fifo_view q) F_serve = Some (fifo_view q')"
proof (cases "\<exists>t i. q_dispatcher q = D_set t i")
  case True
  then obtain t i where d: "q_dispatcher q = D_set t i" by blast
  then obtain qs where "q_queue q = t # qs"
    using qpool_invD(3) [OF inv] by (cases "q_queue q") auto
  then show ?thesis
    using step d by (auto simp: dispatcher_step_def assign_set_def Let_def fifo_view_def
        split: outcome.splits prod.splits bool.splits)
next
  case False
  then show ?thesis
    using step by (auto simp: dispatcher_step_def fifo_view_def assign_scan_def
        dispatcher_wait_def dispatcher_resume_def
        split: dispatcher_pc.splits outcome.splits prod.splits bool.splits list.splits if_splits)
qed

lemma qpool_refines_fifo_step:
  assumes inv: "qpool_inv q" and step: "qpool_step q l = Some q'"
  shows "reach fifo_step (fifo_view q) (fifo_view q')"
proof (cases l)
  case (QL_client j k)
  then show ?thesis
    using step qclient_view [of j k q q'] by (auto simp: qpool_step_def intro: reach_one split: if_splits)
next
  case (QL_dispatcher k)
  then show ?thesis
    using step dispatcher_view [OF inv, of k q'] by (auto simp: qpool_step_def intro: reach_one)
next
  case (QL_call j c)
  then have "fifo_view q' = fifo_view q"
    using step by (auto simp: qpool_step_def qclient_call_def fifo_view_def
        split: if_splits qclient_pc.splits qpool_call.splits)
  then show ?thesis by simp
next
  case (QL_worker i e k)
  then have "fifo_view q' = fifo_view q"
    using step by (auto simp: qpool_step_def queue_idle_notification_def fifo_view_def
        split: if_splits option.splits)
  then show ?thesis by simp
next
  case QL_dispatcher_spurious
  then show ?thesis using step by (auto simp: qpool_step_def fifo_view_def)
next
  case (QL_worker_spurious i)
  then show ?thesis using step by (auto simp: qpool_step_def fifo_view_def)
qed

interpretation qpool_fifo: step_simulation qpool_step qpool_inv fifo_step fifo_view
  by unfold_locales (rule qpool_refines_fifo_step)

section \<open>Once stopped\<close>

text \<open>After \<open>terminate\<close> has set \<open>go\<close>, the dispatcher is not asleep on its condition.\<close>
definition stop_seen :: "qpool \<Rightarrow> bool" where
  "stop_seen q \<longleftrightarrow> (\<not> q_go q \<longrightarrow> cond (q_sync q) = [])"

lemma sync_notify_clears:
  "qlock_ok s d cs \<Longrightarrow> cond (sync_notify k s) = []"
  by (auto simp: qlock_ok_def sync_notify_def)

lemma lock_leave_cond [simp]: "cond (lock_leave s t) = cond s"
  by (simp add: lock_leave_def sync_unlock_def mutex_unlock_def)

lemma lock_enter_cond: "lock_enter s t = Returns s' \<Longrightarrow> cond s' = cond s"
  by simp

lemma stop_seen_client:
  assumes inv: "qpool_inv q" and seen: "stop_seen q" and step: "qclient_step j k q = Some q'"
  shows "stop_seen q'"
proof (cases "q_clients q ! j")
  case (Z_execute t)
  then show ?thesis
    using step seen by (cases "q_go q") (auto simp: qclient_step_def qexecute_step_def
        stop_seen_def qclient_return_def split: outcome.splits)
next
  case Z_length
  then show ?thesis
    using step seen by (auto simp: qclient_step_def queue_length_step_def stop_seen_def
        qclient_return_def split: outcome.splits)
next
  case (Z_query qu x)
  then show ?thesis
    using step seen by (auto simp: qclient_step_def qquery_step_def stop_seen_def base_step_def
        qclient_return_def split: outcome.splits qquery_pc.splits client_pc.splits option.splits
        if_splits)
next
  case (Z_terminate d x)
  then show ?thesis
    using step seen sync_notify_clears [OF qpool_invD(2) [OF inv]]
    by (auto simp: qclient_step_def qterminate_step_def stop_seen_def base_step_def
        qclient_return_def empty_queue_def split: outcome.splits qterm_pc.splits client_pc.splits
        if_splits)
qed (use step in \<open>auto simp: qclient_step_def\<close>)

lemma stop_seen_dispatcher:
  assumes inv: "qpool_inv q" and seen: "stop_seen q" and step: "dispatcher_step k q = Some q'"
  shows "stop_seen q'"
  using step seen qpool_invD(3) [OF inv]
  by (auto simp: dispatcher_step_def stop_seen_def assign_scan_def assign_set_def Let_def
      dispatcher_wait_def dispatcher_resume_def sync_resume_cases
      split: dispatcher_pc.splits outcome.splits prod.splits bool.splits list.splits if_splits)

definition qpool_good :: "qpool \<Rightarrow> bool" where
  "qpool_good q \<longleftrightarrow> qpool_inv q \<and> stop_seen q"

lemma qpool_good_step:
  assumes good: "qpool_good q" and step: "qpool_step q l = Some q'"
  shows "qpool_good q'"
proof -
  have inv: "qpool_inv q" and seen: "stop_seen q" using good by (simp_all add: qpool_good_def)
  have "stop_seen q'"
  proof (cases l)
    case (QL_client j k)
    then show ?thesis
      using step stop_seen_client [OF inv seen] by (auto simp: qpool_step_def split: if_splits)
  next
    case (QL_dispatcher k)
    then show ?thesis
      using step stop_seen_dispatcher [OF inv seen] by (auto simp: qpool_step_def)
  qed (use step seen sync_notify_clears [OF qpool_invD(2) [OF inv]] in
      \<open>auto simp: qpool_step_def stop_seen_def qclient_call_def queue_idle_notification_def
        sync_spurious_def cond_spurious_def
        split: if_splits option.splits qclient_pc.splits qpool_call.splits\<close>)
  then show ?thesis using qpool_inv_step [OF inv step] by (simp add: qpool_good_def)
qed

interpretation qpool_account: step_invariant qpool_step qpool_good
  by unfold_locales (rule qpool_good_step)

lemma qpool_reach_good:
  assumes "reach qpool_step (qpool_construct_stack err errs n stack m) q"
  shows "qpool_good q"
proof -
  have "stop_seen (qpool_construct_stack err errs n stack m)"
    by (simp add: stop_seen_def qpool_construct_stack_def qpool_with_base_def Let_def)
  then have "qpool_good (qpool_construct_stack err errs n stack m)"
    by (simp add: qpool_good_def qpool_inv_construct)
  then show ?thesis by (rule qpool_account.inv_reach [OF assms])
qed

text \<open>Where the tasks of the queued pool are.\<close>
lemma qpool_inv_accounted:
  assumes inv: "qpool_inv q"
  shows "q_submitted q = owned q_in_flight (q_clients q) + owned ptr_tasks (q_queue q)
      + owned tm_held (p_tasks (q_base q))
      + (p_finished (q_base q) + p_discarded (q_base q) + q_dropped q) \<and>
    p_started (q_base q) \<subseteq># q_submitted q"
proof -
  have led: "ledger (q_base q)" and qled: "qledger q"
    using qpool_invD(1,5) [OF inv] by (simp_all add: pool_good_def)
  have "in_flight (p_clients (q_base q) ! j) = {#}" if "j < length (p_clients (q_base q))" for j
    using client_facts(1) [OF inv, of j] that qpool_invD(4) [OF inv]
    by (cases "p_clients (q_base q) ! j") (auto simp: qclients_ok_def)
  then have none: "owned in_flight (p_clients (q_base q)) = {#}" by (rule owned_all_empty)
  have sub: "p_submitted (q_base q) = p_finished (q_base q) + p_discarded (q_base q)
      + owned tm_held (p_tasks (q_base q))"
    using led none by (simp add: ledger_def)
  have "owned tm_running (p_tasks (q_base q)) \<subseteq>#
      p_discarded (q_base q) + owned tm_held (p_tasks (q_base q))"
    by (rule subset_mset.add_increasing [OF _ posix_host.running_owned]) simp
  then have "p_started (q_base q) \<subseteq># p_submitted (q_base q)"
    using led by (simp add: ledger_def none)
  moreover have "p_submitted (q_base q) \<subseteq># q_submitted q"
    using qled by (simp add: qledger_def)
  ultimately show ?thesis
    using qled sub by (auto simp: qledger_def ac_simps intro: subset_mset.order_trans)
qed

section \<open>Progress\<close>

definition qcan_step :: "qpool \<Rightarrow> bool" where
  "qcan_step q \<longleftrightarrow> (\<exists>j k q'. qpool_step q (QL_client j k) = Some q') \<or>
     (\<exists>i e k q'. qpool_step q (QL_worker i e k) = Some q') \<or>
     (\<exists>k q'. qpool_step q (QL_dispatcher k) = Some q')"

lemma qcan_client:
  "j < length (q_clients q) \<Longrightarrow> qclient_step j k q = Some q' \<Longrightarrow> qcan_step q"
  unfolding qcan_step_def by (auto simp: qpool_step_def)

lemma qcan_dispatcher: "dispatcher_step k q = Some q' \<Longrightarrow> qcan_step q"
  unfolding qcan_step_def by (auto simp: qpool_step_def)

lemma qcan_worker:
  "i < length (p_tasks (q_base q)) \<Longrightarrow>
   worker_step (Worker i) e (p_tasks (q_base q) ! i) = Some r \<Longrightarrow> qcan_step q"
proof -
  assume i: "i < length (p_tasks (q_base q))"
    and w: "worker_step (Worker i) e (p_tasks (q_base q) ! i) = Some r"
  have "qpool_step q (QL_worker i e 0) \<noteq> None"
    using i w by (cases r) (simp add: qpool_step_def)
  then show "qcan_step q" unfolding qcan_step_def by auto
qed

lemma q_free_or_can_step:
  assumes inv: "qpool_inv q" and i: "i < length (p_tasks (q_base q))"
  shows "monitor (tm_sync (p_tasks (q_base q) ! i)) = None \<or> qcan_step q"
proof (cases "worker_holds (tm_pc (p_tasks (q_base q) ! i))")
  case True
  then show ?thesis
    using worker_towards_free [OF pool_manager_inv [OF qpool_invD(1) [OF inv] i]] qcan_worker [OF i]
    by blast
next
  case False
  then show ?thesis using tm_inv_free [OF pool_manager_inv [OF qpool_invD(1) [OF inv] i]] by simp
qed

text \<open>The dispatcher inside the lock, or on its way to it.\<close>
lemma dispatcher_can_step:
  assumes inv: "qpool_inv q" and holds: "dispatcher_holds (q_dispatcher q)"
  shows "qcan_step q"
proof -
  have own: "monitor (q_sync q) = Some Dispatcher"
    using dispatcher_owner [OF qpool_invD(2) [OF inv] holds] by simp
  show ?thesis
  proof (cases "q_dispatcher q")
    case (D_scan t i)
    show ?thesis
    proof (cases "i < length (p_tasks (q_base q))")
      case True
      from q_free_or_can_step [OF inv True] show ?thesis
      proof
        assume "monitor (tm_sync (p_tasks (q_base q) ! i)) = None"
        from tm_is_idle_free [OF this] show ?thesis
          using D_scan True by (cases "slot_free (p_tasks (q_base q) ! i)")
            (auto simp: dispatcher_step_def assign_scan_def intro: qcan_dispatcher)
      qed
    next
      case False
      then show ?thesis
        using D_scan by (auto simp: dispatcher_step_def assign_scan_def intro: qcan_dispatcher)
    qed
  next
    case (D_set t i)
    then have i: "i < length (p_tasks (q_base q))" using qpool_invD(3) [OF inv] by simp
    from q_free_or_can_step [OF inv i] show ?thesis
    proof
      assume free: "monitor (tm_sync (p_tasks (q_base q) ! i)) = None"
      then have "tm_set_task 0 Dispatcher t (p_tasks (q_base q) ! i) \<noteq> Blocked"
        by (auto simp: tm_set_task_def locked_Blocked_iff split: outcome.splits)
      then have "dispatcher_step 0 q \<noteq> None"
        using D_set by (auto simp: dispatcher_step_def assign_set_def Let_def
            split: outcome.splits bool.splits)
      then show ?thesis by (auto intro: qcan_dispatcher)
    qed
  next
    case D_queue
    then show ?thesis
      by (cases "q_queue q") (auto simp: dispatcher_step_def intro: qcan_dispatcher)
  next
    case (D_task t)
    then show ?thesis by (auto simp: dispatcher_step_def intro: qcan_dispatcher)
  next
    case (D_wait t)
    then show ?thesis
      using own by (auto simp: dispatcher_step_def dispatcher_wait_def intro: qcan_dispatcher)
  next
    case D_empty
    then show ?thesis
      using own by (cases "q_go q \<and> q_queue q = []")
        (auto simp: dispatcher_step_def dispatcher_wait_def intro: qcan_dispatcher)
  next
    case D_again
    then show ?thesis
      by (cases "q_go q") (auto simp: dispatcher_step_def intro: qcan_dispatcher)
  qed (use holds in auto)
qed

text \<open>A client inside the base class.\<close>
lemma base_can_step:
  assumes inv: "qpool_inv q" and j: "j < length (q_clients q)"
    and inner: "client_active (p_clients (q_base q) ! j)"
  shows "qcan_step q"
proof -
  have "can_step (q_base q)"
    by (rule active_can_step [OF qpool_invD(1) [OF inv] client_facts(3) [OF inv j] inner])
  then consider (client) i k p where "pool_step (q_base q) (L_client i k) = Some p"
    | (worker) i e k p where "pool_step (q_base q) (L_worker i e k) = Some p"
    unfolding can_step_def by blast
  then show ?thesis
  proof cases
    case client
    then have i: "i < length (p_clients (q_base q))" and p: "client_step i k (q_base q) = Some p"
      by (auto simp: pool_step_def split: if_splits)
    have iq: "i < length (q_clients q)" using i qpool_invD(4) [OF inv] by (simp add: qclients_ok_def)
    have "qclient_step i k q = Some (set_base p q)"
      using client_facts(1) [OF inv iq] p
      by (cases "p_clients (q_base q) ! i")
        (auto simp: qclient_step_def qquery_step_def qterminate_step_def base_step_def
          client_step_def)
    then show ?thesis by (rule qcan_client [OF iq])
  next
    case worker
    then show ?thesis
      using qcan_worker [of i q e] by (auto simp: pool_step_def split: if_splits option.splits)
  qed
qed

lemma qclient_holds_can_step:
  assumes inv: "qpool_inv q" and j: "j < length (q_clients q)"
    and holds: "qclient_holds (q_clients q ! j)"
  shows "qcan_step q"
proof (cases "client_active (p_clients (q_base q) ! j)")
  case True
  then show ?thesis by (rule base_can_step [OF inv j])
next
  case False
  note inner = client_facts(1) [OF inv j]
  have "\<exists>q'. qclient_step j 0 q = Some q'"
  proof (cases "q_clients q ! j")
    case (Z_query qu x)
    then show ?thesis
      using holds inner False
      by (cases "p_clients (q_base q) ! j"; cases x)
        (auto simp: qclient_step_def qquery_step_def)
  next
    case (Z_terminate d x)
    then show ?thesis
      using holds inner False
      by (cases "p_clients (q_base q) ! j")
        (auto simp: qclient_step_def qterminate_step_def)
  qed (use holds in auto)
  then show ?thesis using qcan_client [OF j] by blast
qed

lemma qpool_progress:
  assumes good: "qpool_good q" and j: "j < length (q_clients q)"
    and inside: "\<And>r. q_clients q ! j \<noteq> Z_outside r"
  shows "qcan_step q"
proof -
  have inv: "qpool_inv q" and seen: "stop_seen q" using good by (simp_all add: qpool_good_def)
  show ?thesis
  proof (cases "monitor (q_sync q)")
    case (Some u)
    then consider "u = Dispatcher" | i where "i < length (q_clients q)" "u = Client i"
      using qpool_invD(2) [OF inv] by (auto simp: qlock_ok_def)
    then show ?thesis
    proof cases
      case 1
      then have "dispatcher_holds (q_dispatcher q)"
        using Some qpool_invD(2) [OF inv] by (simp add: qlock_ok_def)
      then show ?thesis by (rule dispatcher_can_step [OF inv])
    next
      case 2
      then have "qclient_holds (q_clients q ! i)"
        using Some client_lock [OF inv 2(1)] by simp
      then show ?thesis by (rule qclient_holds_can_step [OF inv 2(1)])
    qed
  next
    case None
    show ?thesis
    proof (cases "client_active (p_clients (q_base q) ! j)")
      case True
      then show ?thesis by (rule base_can_step [OF inv j])
    next
      case inactive: False
      show ?thesis
      proof (cases "q_clients q ! j = Z_terminate True Z_join \<or> q_clients q ! j = Z_terminate False Z_join")
        case True
        then have stopped: "\<not> q_go q" using client_facts(2) [OF inv j] by auto
        have awake: "cond (q_sync q) = []" using seen stopped by (simp add: stop_seen_def)
        show ?thesis
        proof (cases "dispatcher_step 0 q")
          case None
          then have "q_dispatcher q = D_done \<or> dispatcher_holds (q_dispatcher q)"
            using \<open>monitor (q_sync q) = None\<close> awake qpool_invD(2) [OF inv]
            by (cases "q_dispatcher q") (auto simp: dispatcher_step_def dispatcher_resume_def
                sync_resume_cases lock_enter_cases qlock_ok_def)
          then show ?thesis
            using True dispatcher_can_step [OF inv] qcan_client [OF j, of 0]
            by (auto simp: qclient_step_def qterminate_step_def)
        qed (auto intro: qcan_dispatcher)
      next
        case False
        have "\<exists>q'. qclient_step j 0 q = Some q'"
          using inside client_facts(1,4) [OF inv j] inactive None False client_lock [OF inv j]
          by (cases "p_clients (q_base q) ! j"; cases "q_clients q ! j")
            (auto simp: qclient_step_def qexecute_step_def queue_length_step_def qquery_step_def
              qterminate_step_def lock_enter_cases split: qquery_pc.splits qterm_pc.splits)
        then show ?thesis using qcan_client [OF j] by blast
      qed
    qed
  qed
qed

end
