(* ===== verification/Queued_Runs.thy ===== *)
theory Queued_Runs
  imports Queued_Properties
begin

text \<open>
  The properties of the queued pool.  Three of them are about runs that end badly: the
  dispatcher misses a notification, a running task keeps the dispatcher and with it every client
  waiting while another worker is idle, and a null task makes the dispatcher spin.
\<close>

section \<open>The runs\<close>

lemmas queued_eval = run_eval qpool_eval

text \<open>One worker: the dispatcher finds it busy, the worker finishes, the dispatcher falls asleep.\<close>

definition qlost_start :: qpool where
  "qlost_start = qpool_construct None (\<lambda>i. None) 1 1"

definition qlost_run :: "qpool_label list" where
  "qlost_run =
     replicate 3 (QL_worker 0 Run_returns 0) @ replicate 3 (QL_dispatcher 0) @
     [QL_call 0 (Qdo_execute (Some 1)), QL_client 0 0] @ replicate 9 (QL_dispatcher 0) @
     [QL_call 0 (Qdo_execute (Some 2)), QL_client 0 0] @ replicate 7 (QL_dispatcher 0) @
     replicate 6 (QL_worker 0 Run_returns 0) @ [QL_dispatcher 0]"

definition qthread :: thread where
  "qthread = \<lparr>status = RUNNING, runnable = Some 0, stack_size = 65536, unjoined = 1\<rparr>"

lemma qthread: "thread_start None (thread_new_for 0) = qthread"
  by (simp add: thread_defs qthread_def default_stacksize_def)

lemma alive_qthread [simp]: "is_alive qthread"
  by (simp add: qthread_def is_alive_def)

definition idle_base :: "task_manager list \<Rightarrow> task multiset \<Rightarrow> task multiset \<Rightarrow> task multiset \<Rightarrow> pool" where
  "idle_base tms submitted started finished =
     \<lparr>p_sync = new_sync, p_tasks = tms, p_stack = default_stacksize,
      p_clients = [C_outside None], p_submitted = submitted, p_started = started,
      p_finished = finished, p_discarded = {#}, p_terminating = False\<rparr>"

definition idle_worker :: "nat \<Rightarrow> task_manager" where
  "idle_worker i = \<lparr>tm_sync = \<lparr>monitor = None, cond = [Worker i]\<rparr>, tm_thread = granted_thread,
     tm_task = None, tm_go = True, tm_pc = W_asleep\<rparr>"

definition qlost_state :: qpool where
  "qlost_state =
     \<lparr>q_sync = \<lparr>monitor = None, cond = [Dispatcher]\<rparr>, q_thread = qthread,
      q_queue = [Some 2], q_go = True, q_dispatcher = D_asleep (Some 2),
      q_base = idle_base [idle_worker 0] {#1#} {#1#} {#1#}, q_clients = [Z_outside None],
      q_submitted = {#1, 2#}, q_dropped = {#}, q_pushed = [Some 1, Some 2],
      q_assigned = [Some 1], q_flushed = []\<rparr>"

lemma qlost_run: "run_steps qpool_step qlost_start qlost_run = Some qlost_state"
  by (simp add: qlost_start_def qlost_run_def qlost_state_def qpool_construct_def
      qpool_with_base_def pool_construct_def pool_construct_stack_def granted_thread qthread
      numeral_eq_Suc queued_eval idle_base_def idle_worker_def)

text \<open>Two workers: the first one executes a task, the second one is idle.\<close>

definition held_up_start :: qpool where
  "held_up_start = qpool_construct None (\<lambda>i. None) 2 1"

definition held_up_run :: "qpool_label list" where
  "held_up_run =
     replicate 3 (QL_worker 0 Run_returns 0) @ replicate 3 (QL_worker 1 Run_returns 0) @
     replicate 3 (QL_dispatcher 0) @
     [QL_call 0 (Qdo_execute (Some 1)), QL_client 0 0] @ replicate 9 (QL_dispatcher 0) @
     replicate 3 (QL_worker 0 Run_returns 0) @
     [QL_call 0 (Qdo_execute (Some 2)), QL_client 0 0] @ replicate 5 (QL_dispatcher 0) @
     [QL_call 0 (Qdo_execute (Some 3))]"

definition held_up_state :: qpool where
  "held_up_state =
     \<lparr>q_sync = \<lparr>monitor = Some Dispatcher, cond = []\<rparr>, q_thread = qthread,
      q_queue = [Some 2], q_go = True, q_dispatcher = D_scan (Some 2) 0,
      q_base = idle_base
        [\<lparr>tm_sync = \<lparr>monitor = Some (Worker 0), cond = []\<rparr>, tm_thread = granted_thread,
          tm_task = Some 1, tm_go = True, tm_pc = W_run\<rparr>, idle_worker 1] {#1#} {#1#} {#},
      q_clients = [Z_execute (Some 3)],
      q_submitted = {#1, 2, 3#}, q_dropped = {#}, q_pushed = [Some 1, Some 2],
      q_assigned = [Some 1], q_flushed = []\<rparr>"

lemma held_up_run: "run_steps qpool_step held_up_start held_up_run = Some held_up_state"
  by (simp add: held_up_start_def held_up_run_def held_up_state_def qpool_construct_def
      qpool_with_base_def pool_construct_def pool_construct_stack_def granted_thread qthread
      numeral_eq_Suc queued_eval idle_base_def idle_worker_def)

text \<open>A null task, submitted when the dispatcher sleeps.\<close>

definition null_run :: "qpool_label list" where
  "null_run =
     replicate 3 (QL_worker 0 Run_returns 0) @ replicate 3 (QL_dispatcher 0) @
     [QL_call 0 (Qdo_execute None), QL_client 0 0] @ replicate 3 (QL_dispatcher 0) @
     [QL_call 0 Qdo_destroy]"

definition null_state :: qpool where
  "null_state =
     \<lparr>q_sync = \<lparr>monitor = Some Dispatcher, cond = []\<rparr>, q_thread = qthread,
      q_queue = [None], q_go = True, q_dispatcher = D_queue,
      q_base = idle_base [idle_worker 0] {#} {#} {#},
      q_clients = [Z_terminate True Z_enter],
      q_submitted = {#}, q_dropped = {#}, q_pushed = [None], q_assigned = [], q_flushed = []\<rparr>"

lemma null_run: "run_steps qpool_step qlost_start null_run = Some null_state"
  by (simp add: qlost_start_def null_run_def null_state_def qpool_construct_def
      qpool_with_base_def pool_construct_def pool_construct_stack_def granted_thread qthread
      numeral_eq_Suc queued_eval idle_base_def idle_worker_def)

lemma qlost_reached:
  "reach qpool_step (qpool_construct_stack None (\<lambda>i. None) 1 default_stacksize 1) qlost_state"
  "reach qpool_step (qpool_construct_stack None (\<lambda>i. None) 1 default_stacksize 1) null_state"
  using run_steps_reach [OF qlost_run] run_steps_reach [OF null_run]
  by (simp_all add: qlost_start_def qpool_construct_def qpool_construct_stack_def
      pool_construct_def)

lemma held_up_reached:
  "reach qpool_step (qpool_construct_stack None (\<lambda>i. None) 2 default_stacksize 1) held_up_state"
  using run_steps_reach [OF held_up_run]
  by (simp add: held_up_start_def qpool_construct_def qpool_construct_stack_def pool_construct_def)

section \<open>The properties\<close>

text \<open>
  C5: no task of the queued pool is lost or duplicated.  In every state of every execution the
  tasks submitted are, as a multiset, those a client has not yet queued, those in the queue,
  those in the slot of a worker, and those deleted: finished, discarded by a worker that was
  stopped, or dropped by a pool that was; and no task was entered more often than submitted.
\<close>
theorem qpool_tasks_accounted:
  assumes "reach qpool_step (qpool_construct_stack err errs n stack m) q"
  shows "q_submitted q = owned q_in_flight (q_clients q) + owned ptr_tasks (q_queue q)
      + owned tm_held (p_tasks (q_base q))
      + (p_finished (q_base q) + p_discarded (q_base q) + q_dropped q) \<and>
    p_started (q_base q) \<subseteq># q_submitted q"
  using qpool_inv_accounted [OF qpool_reach_inv [OF assms]] .

theorem qpool_tasks_accounted_witness:
  "q_submitted held_up_state = {#3#} + {#2#} + {#1#} + {#} \<and>
   p_started (q_base held_up_state) \<subseteq># {#1, 2, 3#}"
  using qpool_tasks_accounted [OF held_up_reached]
  by (simp add: held_up_state_def idle_base_def idle_worker_def tm_held_def)

text \<open>
  C6: the queue is a FIFO queue.  Every execution of the queued pool is, for the queue and the
  sequence of tasks handed to workers, an execution of the abstract queue that is pushed to at
  its end, served from its front and possibly emptied; in particular the tasks handed out, those
  flushed by the destructor and those still queued are together the tasks accepted, in the order
  in which they were accepted.
\<close>
theorem qpool_queue_fifo:
  assumes "reach qpool_step (qpool_construct_stack err errs n stack m) q"
  shows "reach fifo_step ([], []) (q_queue q, q_assigned q) \<and>
    q_pushed q = q_assigned q @ q_flushed q @ q_queue q"
proof
  have "reach fifo_step (fifo_view (qpool_construct_stack err errs n stack m)) (fifo_view q)"
    by (rule qpool_fifo.sim_reach [OF assms qpool_inv_construct])
  then show "reach fifo_step ([], []) (q_queue q, q_assigned q)"
    by (simp add: fifo_view_def qpool_construct_stack_def qpool_with_base_def Let_def)
  show "q_pushed q = q_assigned q @ q_flushed q @ q_queue q"
    using qpool_invD(6) [OF qpool_reach_inv [OF assms]] by (simp add: qorder_def)
qed

theorem qpool_queue_fifo_witness: "reach fifo_step ([], []) ([Some 2], [Some 1])"
  using qpool_queue_fifo [OF qlost_reached(1)] by (simp add: qlost_state_def)

text \<open>
  C7: no deadlock.  Whenever some client is inside a call of the queued pool, its destructor
  included, some client, worker or the dispatcher can take a step.
\<close>
theorem qpool_no_deadlock:
  assumes "reach qpool_step (qpool_construct_stack err errs n stack m) q"
    and "j < length (q_clients q)" and "\<And>r. q_clients q ! j \<noteq> Z_outside r"
  shows "\<exists>q'. (\<exists>i k. qpool_step q (QL_client i k) = Some q') \<or>
    (\<exists>i e k. qpool_step q (QL_worker i e k) = Some q') \<or>
    (\<exists>k. qpool_step q (QL_dispatcher k) = Some q')"
  using qpool_progress [OF qpool_reach_good [OF assms(1)] assms(2,3)]
  unfolding qcan_step_def by blast

theorem qpool_no_deadlock_witness:
  "\<exists>q'. (\<exists>i k. qpool_step held_up_state (QL_client i k) = Some q') \<or>
    (\<exists>i e k. qpool_step held_up_state (QL_worker i e k) = Some q') \<or>
    (\<exists>k. qpool_step held_up_state (QL_dispatcher k) = Some q')"
  by (rule qpool_no_deadlock [OF held_up_reached, where j = 0]) (simp_all add: held_up_state_def)

text \<open>The pool that was told to stop, with what its queue has handed out and accepted so far.\<close>

definition stopped_with :: "task ptr list \<Rightarrow> task ptr list \<Rightarrow> qpool \<Rightarrow> bool" where
  "stopped_with out accepted q \<longleftrightarrow>
     qpool_inv q \<and> \<not> q_go q \<and> q_assigned q = out \<and> q_pushed q = accepted"

lemma base_step_stopped: "base_step j k q = Some q' \<Longrightarrow>
  q_go q' = q_go q \<and> q_assigned q' = q_assigned q \<and> q_pushed q' = q_pushed q"
  by (auto simp: base_step_def)

lemma client_stopped:
  assumes go: "\<not> q_go q" and step: "qclient_step j k q = Some q'"
  shows "\<not> q_go q' \<and> q_assigned q' = q_assigned q \<and> q_pushed q' = q_pushed q"
proof (cases "q_clients q ! j")
  case (Z_execute t)
  then show ?thesis
    using assms by (auto simp: qclient_step_def qexecute_step_def qclient_return_def
        split: outcome.splits)
next
  case Z_length
  then show ?thesis
    using assms by (auto simp: qclient_step_def queue_length_step_def qclient_return_def
        split: outcome.splits)
next
  case (Z_query qu x)
  then show ?thesis
    using assms by (auto simp: qclient_step_def qquery_step_def qclient_return_def
        dest: base_step_stopped
        split: outcome.splits qquery_pc.splits client_pc.splits option.splits if_splits)
next
  case (Z_terminate d x)
  then show ?thesis
    using assms by (auto simp: qclient_step_def qterminate_step_def qclient_return_def
        empty_queue_def dest: base_step_stopped
        split: outcome.splits qterm_pc.splits client_pc.splits if_splits)
qed (use step in \<open>auto simp: qclient_step_def\<close>)

lemma dispatcher_stopped:
  assumes inv: "qpool_inv q" and go: "\<not> q_go q" and step: "dispatcher_step k q = Some q'"
  shows "\<not> q_go q' \<and> q_assigned q' = q_assigned q \<and> q_pushed q' = q_pushed q"
  using go step qpool_invD(3) [OF inv]
  by (auto simp: dispatcher_step_def dispatcher_wait_def dispatcher_resume_def
      split: dispatcher_pc.splits outcome.splits prod.splits list.splits if_splits)

lemma stopped_step:
  assumes st: "stopped_with out accepted q" and step: "qpool_step q l = Some q'"
  shows "stopped_with out accepted q'"
proof -
  have inv: "qpool_inv q" and go: "\<not> q_go q" using st by (simp_all add: stopped_with_def)
  have "\<not> q_go q' \<and> q_assigned q' = q_assigned q \<and> q_pushed q' = q_pushed q"
  proof (cases l)
    case (QL_client j k)
    then show ?thesis
      using step client_stopped [OF go] by (auto simp: qpool_step_def split: if_splits)
  next
    case (QL_dispatcher k)
    then show ?thesis using step dispatcher_stopped [OF inv go] by (auto simp: qpool_step_def)
  qed (use step go in \<open>auto simp: qpool_step_def qclient_call_def queue_idle_notification_def
      split: if_splits option.splits qclient_pc.splits qpool_call.splits\<close>)
  then show ?thesis using st qpool_inv_step [OF inv step] by (simp add: stopped_with_def)
qed

interpretation qpool_stopped: step_invariant qpool_step "stopped_with out accepted"
  by unfold_locales (rule stopped_step)

text \<open>
  C8: nothing leaves the queue after \<open>terminate\<close>.  From the moment \<open>terminate\<close> has reset
  \<open>go\<close>, whatever happens, the queue accepts no task and hands none to a worker.
\<close>
theorem qpool_stopped_frozen:
  assumes "reach qpool_step (qpool_construct_stack err errs n stack m) q"
    and "\<not> q_go q" and "reach qpool_step q q'"
  shows "\<not> q_go q' \<and> q_assigned q' = q_assigned q \<and> q_pushed q' = q_pushed q"
proof -
  have "stopped_with (q_assigned q) (q_pushed q) q"
    using assms(2) qpool_reach_inv [OF assms(1)] by (simp add: stopped_with_def)
  from qpool_stopped.inv_reach [OF assms(3) this] show ?thesis by (simp add: stopped_with_def)
qed

definition terminating_run :: "qpool_label list" where
  "terminating_run = [QL_call 0 Qdo_terminate, QL_client 0 0, QL_client 0 0]"

definition terminating_state :: qpool where
  "terminating_state = qlost_state\<lparr>q_go := False,
     q_sync := \<lparr>monitor = Some (Client 0), cond = []\<rparr>,
     q_base := client_call 0 Do_terminate (q_base qlost_state),
     q_clients := [Z_terminate False Z_base]\<rparr>"

theorem qpool_stopped_frozen_witness:
  "\<not> q_go terminating_state \<and> q_assigned terminating_state = [Some 1] \<and>
   q_pushed terminating_state = [Some 1, Some 2]"
proof -
  have "run_steps qpool_step qlost_state terminating_run = Some terminating_state"
    by (simp add: terminating_run_def terminating_state_def qlost_state_def queued_eval)
  from reach_trans [OF run_steps_reach [OF this] qlost_reached(1)]
  have "reach qpool_step (qpool_construct_stack None (\<lambda>i. None) 1 default_stacksize 1)
    terminating_state" .
  from qpool_stopped_frozen [OF this _ reach_refl] show ?thesis
    by (simp add: terminating_state_def qlost_state_def)
qed

text \<open>
  The dispatcher can miss a notification.  \<open>idle_notification\<close> signals the dispatcher's
  condition without its lock; in the run of the statement it comes between the dispatcher's
  search, which found the only worker busy, and its wait.  The task stays at the front of the
  queue, the worker is idle, and neither moves until another call is made.
\<close>
theorem qpool_lost_wakeup:
  "\<exists>ls q. run_steps qpool_step (qpool_construct None (\<lambda>i. None) 1 1) ls = Some q \<and>
     q_queue q = [Some 2] \<and> slot_free (p_tasks (q_base q) ! 0) \<and>
     (\<forall>k. qpool_step q (QL_dispatcher k) = None) \<and>
     (\<forall>i e k. qpool_step q (QL_worker i e k) = None) \<and>
     (\<forall>j k. qpool_step q (QL_client j k) = None)"
proof (intro exI conjI)
  show "run_steps qpool_step (qpool_construct None (\<lambda>i. None) 1 1) qlost_run = Some qlost_state"
    using qlost_run by (simp add: qlost_start_def)
qed (auto simp: qlost_state_def slot_free_def idle_base_def idle_worker_def qpool_step_def
    dispatcher_step_def dispatcher_resume_def sync_resume_cases worker_step_def qclient_step_def)

text \<open>
  A running task holds up everything.  A worker keeps its lock while its task runs, and
  \<open>assign\<close> asks the workers in order, so in the run of the statement the dispatcher waits
  inside its own lock for the first worker's task to end, although the second worker is idle;
  the client's \<open>execute\<close> waits for that lock, and only the running task can go on.
\<close>
theorem qpool_running_task_blocks:
  "\<exists>ls q. run_steps qpool_step (qpool_construct None (\<lambda>i. None) 2 1) ls = Some q \<and>
     tm_pc (p_tasks (q_base q) ! 0) = W_run \<and> slot_free (p_tasks (q_base q) ! 1) \<and>
     q_queue q = [Some 2] \<and> q_clients q ! 0 = Z_execute (Some 3) \<and>
     (\<forall>k. qpool_step q (QL_dispatcher k) = None) \<and>
     (\<forall>e k. qpool_step q (QL_worker 1 e k) = None) \<and>
     (\<forall>j k. qpool_step q (QL_client j k) = None)"
proof (intro exI conjI)
  show "run_steps qpool_step (qpool_construct None (\<lambda>i. None) 2 1) held_up_run =
      Some held_up_state"
    using held_up_run by (simp add: held_up_start_def)
qed (auto simp: held_up_state_def slot_free_def idle_base_def idle_worker_def qpool_step_def
    dispatcher_step_def assign_scan_def tm_is_idle_def locked_def lock_enter_cases
    sync_resume_cases worker_step_def qclient_step_def qexecute_step_def)

text \<open>The dispatcher at a null task that is at the front of the queue.\<close>

definition spinning :: "qpool \<Rightarrow> bool" where
  "spinning q \<longleftrightarrow> qpool_inv q \<and> q_go q \<and> (q_dispatcher q = D_queue \<or> q_dispatcher q = D_task None) \<and>
     q_queue q \<noteq> [] \<and> hd (q_queue q) = None"

lemma spinning_owner: "spinning q \<Longrightarrow> monitor (q_sync q) = Some Dispatcher"
  using dispatcher_owner [OF qpool_invD(2)] by (auto simp: spinning_def)

lemma spinning_client:
  assumes spin: "spinning q" and j: "j < length (q_clients q)"
  shows "qclient_step j k q = None"
proof -
  have inv: "qpool_inv q" and go: "q_go q" and halted: "q_dispatcher q \<noteq> D_done"
    using spin by (auto simp: spinning_def)
  note own = spinning_owner [OF spin]
  have "\<not> qclient_holds (q_clients q ! j)" using client_lock [OF inv j] own by simp
  then show ?thesis
    using client_facts(2,4) [OF inv j] go halted own
    by (cases "q_clients q ! j")
      (auto simp: qclient_step_def qexecute_step_def queue_length_step_def qquery_step_def
        qterminate_step_def lock_enter_cases split: qquery_pc.splits qterm_pc.splits)
qed

lemma spinning_step:
  assumes spin: "spinning q" and step: "qpool_step q l = Some q'"
  shows "spinning q'"
proof -
  have inv: "qpool_inv q" using spin by (simp add: spinning_def)
  note inv' = qpool_inv_step [OF inv step]
  show ?thesis
  proof (cases l)
    case (QL_client j k)
    then show ?thesis
      using step spinning_client [OF spin] by (auto simp: qpool_step_def split: if_splits)
  next
    case (QL_dispatcher k)
    then show ?thesis
      using step spin inv' by (auto simp: qpool_step_def dispatcher_step_def spinning_def
          split: list.splits)
  qed (use step spin inv' in \<open>auto simp: qpool_step_def qclient_call_def
      queue_idle_notification_def spinning_def
      split: if_splits option.splits qclient_pc.splits qpool_call.splits\<close>)
qed

interpretation qpool_spins: step_invariant qpool_step spinning
  by unfold_locales (rule spinning_step)

text \<open>
  A null task blocks the queued pool for good.  When the dispatcher finds the null pointer
  at the front of the queue it goes round its outer loop without popping it and without giving
  up its lock; from then on, whatever happens, no call of any client returns or gets on, the
  destructor included, and the dispatcher never leaves the loop.
\<close>
theorem qpool_null_task_spins:
  assumes "reach qpool_step (qpool_construct_stack err errs n stack m) q"
    and "q_dispatcher q = D_queue" and "q_go q" and "q_queue q = None # ts"
    and "reach qpool_step q q'"
  shows "(q_dispatcher q' = D_queue \<or> q_dispatcher q' = D_task None) \<and>
    monitor (q_sync q') = Some Dispatcher \<and> (\<forall>j k. qpool_step q' (QL_client j k) = None)"
proof -
  have "spinning q" using assms(2-4) qpool_reach_inv [OF assms(1)] by (simp add: spinning_def)
  then have spin: "spinning q'" by (rule qpool_spins.inv_reach [OF assms(5)])
  then have "\<forall>j k. qpool_step q' (QL_client j k) = None"
    using spinning_client [OF spin] by (simp add: qpool_step_def)
  then show ?thesis using spin spinning_owner [OF spin] by (simp add: spinning_def)
qed

theorem qpool_null_task_spins_witness:
  "q_clients null_state ! 0 = Z_terminate True Z_enter \<and>
   (\<forall>j k. qpool_step null_state (QL_client j k) = None)"
  using qpool_null_task_spins [OF qlost_reached(2) _ _ _ reach_refl]
  by (simp add: null_state_def)

end
