(* ===== verification/Boost_Synchronized.thy ===== *)
theory Boost_Synchronized
  imports Synchronized
begin

text \<open>
  The class \<open>Synchronized\<close> of the boost variant, \<open>threadpool.cpp\<close> and \<open>threadpool.hpp\<close>, and
  its \<open>Lock\<close>.  The owner of the mutex is the field \<open>b_owner\<close>; the member \<open>tid_\<close> is written
  under the mutex, right after it is taken and right before it is given up, so between two calls
  it is the owner as well.  A wait returns when the member \<open>signal\<close> is set, whoever set it.  A
  failed \<open>BOOST_ASSERT\<close> is a \<open>Throws\<close>; \<open>ndebug\<close> says that \<open>NDEBUG\<close> is defined.
\<close>

section \<open>State and locking\<close>

record 't bsync =
  b_owner :: "'t option"
  b_signal :: bool
  b_cond :: "'t condvar"

definition bsync_new :: "'t bsync" where
  "bsync_new = \<lparr>b_owner = None, b_signal = False, b_cond = []\<rparr>"

definition b_locked_by :: "'t bsync \<Rightarrow> 't \<Rightarrow> bool" where
  "b_locked_by s t \<longleftrightarrow> b_owner s = Some t"

definition b_is_locked :: "'t bsync \<Rightarrow> bool" where
  "b_is_locked s \<longleftrightarrow> b_owner s \<noteq> None"

definition b_lock :: "bool \<Rightarrow> 't bsync \<Rightarrow> 't \<Rightarrow> (bool \<times> 't bsync) outcome" where
  "b_lock ndebug s t =
     (if b_locked_by s t
      then (if ndebug then Returns (False, s) else Throws ''lock: recursive used'')
      else case b_owner s of
             None \<Rightarrow> Returns (True, s\<lparr>b_owner := Some t\<rparr>)
           | Some _ \<Rightarrow> Blocked)"

text \<open>
  \<open>lock(unsigned long timeout)\<close>, from the remaining milliseconds and the answers of the
  successive \<open>try_lock\<close> calls; it sleeps ten milliseconds after each failure.  \<open>None\<close> when
  the answers given run out.
\<close>
fun lock_for_loop :: "int \<Rightarrow> bool list \<Rightarrow> bool option" where
  "lock_for_loop d [] = None"
| "lock_for_loop d (free # rest) =
     (if free then Some True
      else if d - 10 \<le> 0 then Some False else lock_for_loop (d - 10) rest)"

text \<open>Its effect once it has ended.\<close>
definition b_lock_for :: "bool \<Rightarrow> 't bsync \<Rightarrow> 't \<Rightarrow> bool \<times> 't bsync" where
  "b_lock_for taken s t = (if taken then (True, s\<lparr>b_owner := Some t\<rparr>) else (False, s))"

definition b_unlock :: "'t bsync \<Rightarrow> 't \<Rightarrow> bool \<times> 't bsync" where
  "b_unlock s t = (if b_locked_by s t then (True, s\<lparr>b_owner := None\<rparr>) else (False, s))"

definition b_trylock :: "'t bsync \<Rightarrow> 't \<Rightarrow> try_lock_result \<times> 't bsync" where
  "b_trylock s t =
     (if b_locked_by s t then (OWNED, s)
      else case b_owner s of
             None \<Rightarrow> (LOCKED, s\<lparr>b_owner := Some t\<rparr>)
           | Some _ \<Rightarrow> (BUSY, s))"

text \<open>The value of \<open>TryLockResult\<close>, and \<open>try_lock\<close>, which converts it to \<open>bool\<close>.\<close>
fun try_lock_value :: "try_lock_result \<Rightarrow> int" where
  "try_lock_value LOCKED = 1"
| "try_lock_value BUSY = 0"
| "try_lock_value OWNED = - 1"

definition b_try_lock :: "'t bsync \<Rightarrow> 't \<Rightarrow> bool \<times> 't bsync" where
  "b_try_lock s t = (let (r, s') = b_trylock s t in (try_lock_value r \<noteq> 0, s'))"

section \<open>Waiting and notifying\<close>

text \<open>
  One turn of a loop \<open>while (!signal) cond.wait\<close> or \<open>while (!predicate()) cond.wait\<close> in the
  thread \<open>t\<close> that owns the mutex: it leaves the loop (true) or falls asleep (false).
\<close>
definition b_wait_turn :: "bool \<Rightarrow> 't bsync \<Rightarrow> 't \<Rightarrow> bool \<times> 't bsync" where
  "b_wait_turn ready s t =
     (if ready then (True, s) else (False, s\<lparr>b_owner := None, b_cond := b_cond s @ [t]\<rparr>))"

text \<open>\<open>wait\<close> and \<open>wait_for\<close> up to the first sleep: the flag is reset, so it always sleeps.\<close>
definition b_wait :: "'t bsync \<Rightarrow> 't \<Rightarrow> (bool \<times> 't bsync) outcome" where
  "b_wait s t =
     (if b_locked_by s t
      then (let s' = s\<lparr>b_signal := False\<rparr> in Returns (b_wait_turn (b_signal s') s' t))
      else Throws ''assertion'')"

text \<open>The return from \<open>cond.wait\<close>, which takes the mutex again, and the next turn of the loop.\<close>
definition b_wake :: "'t bsync \<Rightarrow> 't \<Rightarrow> (bool \<times> 't bsync) outcome" where
  "b_wake s t =
     (if t \<in> set (b_cond s) \<or> b_owner s \<noteq> None then Blocked
      else (let s' = s\<lparr>b_owner := Some t\<rparr> in Returns (b_wait_turn (b_signal s') s' t)))"

text \<open>
  The same in \<open>wait_for\<close>: when the wait timed out it returns false at once, otherwise it goes
  round the loop.  The result says whether the function returned, and what.
\<close>
definition b_wake_for :: "bool \<Rightarrow> 't bsync \<Rightarrow> 't \<Rightarrow> (bool option \<times> 't bsync) outcome" where
  "b_wake_for timed_out s t =
     (if b_owner s \<noteq> None then Blocked
      else if timed_out
      then Returns (Some False, s\<lparr>b_owner := Some t, b_cond := removeAll t (b_cond s)\<rparr>)
      else if t \<in> set (b_cond s) then Blocked
      else (let (left, s') = b_wait_turn (b_signal s) (s\<lparr>b_owner := Some t\<rparr>) t
            in Returns (if left then Some True else None, s')))"

definition b_notify :: "nat \<Rightarrow> 't bsync \<Rightarrow> 't \<Rightarrow> 't bsync outcome" where
  "b_notify k s t =
     (if b_locked_by s t
      then Returns (s\<lparr>b_signal := True, b_cond := cond_signal k (b_cond s)\<rparr>)
      else Throws ''assertion'')"

definition b_notify_all :: "'t bsync \<Rightarrow> 't \<Rightarrow> 't bsync outcome" where
  "b_notify_all s t =
     (if b_locked_by s t
      then Returns (s\<lparr>b_signal := True, b_cond := cond_broadcast (b_cond s)\<rparr>)
      else Throws ''assertion'')"

definition b_spurious :: "'t bsync \<Rightarrow> 't \<Rightarrow> 't bsync" where
  "b_spurious s t = s\<lparr>b_cond := cond_spurious (b_cond s) t\<rparr>"

section \<open>The scoped lock and the destructor\<close>

definition b_enter :: "bool \<Rightarrow> 't bsync \<Rightarrow> 't \<Rightarrow> 't bsync outcome" where
  "b_enter ndebug s t =
     (case b_lock ndebug s t of
        Returns (_, s') \<Rightarrow> Returns s'
      | Throws msg \<Rightarrow> Throws msg
      | Blocked \<Rightarrow> Blocked)"

definition b_leave :: "'t bsync \<Rightarrow> 't \<Rightarrow> 't bsync" where
  "b_leave s t = snd (b_unlock s t)"

text \<open>\<open>Lock::wait(long timeout)\<close>: the time to wait for, or none.\<close>
definition b_lock_wait :: "int \<Rightarrow> int option" where
  "b_lock_wait timeout = (if timeout < 0 then None else Some timeout)"

text \<open>
  The loop of \<open>~Synchronized\<close> in a thread that does not own the lock: it ends when \<open>signal\<close>
  is set or one of its \<open>lock(50)\<close> succeeds, here the list of their answers; the number of
  calls made, \<open>None\<close> when the answers run out.
\<close>
fun b_destroy_loop :: "bool \<Rightarrow> bool list \<Rightarrow> nat option" where
  "b_destroy_loop True _ = Some 0"
| "b_destroy_loop False [] = None"
| "b_destroy_loop False (got # rest) = map_option Suc (b_destroy_loop got rest)"

definition b_destroy :: "'t bsync \<Rightarrow> 't \<Rightarrow> bool list \<Rightarrow> nat option" where
  "b_destroy s t answers = (if b_locked_by s t then Some 0 else b_destroy_loop (b_signal s) answers)"

section \<open>Lemmas\<close>

lemmas bsync_defs = b_locked_by_def b_lock_def b_unlock_def b_trylock_def b_wait_turn_def
  b_wait_def b_wake_def b_wake_for_def b_notify_def b_notify_all_def b_spurious_def b_enter_def
  b_leave_def bsync_new_def

lemma b_enter_Returns_iff [simp]:
  "b_enter False s t = Returns s' \<longleftrightarrow> b_owner s = None \<and> s' = s\<lparr>b_owner := Some t\<rparr>"
  by (auto simp: bsync_defs split: option.splits)

lemma b_enter_Throws_iff [simp]:
  "b_enter False s t = Throws msg \<longleftrightarrow> b_owner s = Some t \<and> msg = ''lock: recursive used''"
  by (auto simp: bsync_defs split: option.splits)

lemma b_enter_Blocked_iff [simp]:
  "b_enter False s t = Blocked \<longleftrightarrow> (\<exists>u. b_owner s = Some u \<and> u \<noteq> t)"
  by (auto simp: bsync_defs split: option.splits)

lemma b_leave_own: "b_owner s = Some t \<Longrightarrow> b_leave s t = s\<lparr>b_owner := None\<rparr>"
  by (simp add: bsync_defs)

lemma b_leave_other: "b_owner s \<noteq> Some t \<Longrightarrow> b_leave s t = s"
  by (simp add: bsync_defs)

text \<open>The debug build keeps the contract of a scoped lock.\<close>
interpretation boost_lock: scoped_lock b_owner "b_enter False" b_leave
  by unfold_locales (auto simp: b_leave_own b_leave_other)

section \<open>Properties\<close>

text \<open>
  What the locking functions of the boost variant answer.  For a lock the caller owns,
  \<open>lock\<close> throws in a debug build and answers false in a release build, \<open>trylock\<close> answers
  \<open>OWNED\<close> and so \<open>try_lock\<close> answers true, and one \<open>unlock\<close> frees it however often it was
  "taken"; for a lock another thread owns they block, answer \<open>BUSY\<close> and answer false.
\<close>
theorem boost_lock_results:
  "b_lock False (s\<lparr>b_owner := Some t\<rparr>) t = Throws ''lock: recursive used'' \<and>
   b_lock True (s\<lparr>b_owner := Some t\<rparr>) t = Returns (False, s\<lparr>b_owner := Some t\<rparr>) \<and>
   b_try_lock (s\<lparr>b_owner := Some t\<rparr>) t = (True, s\<lparr>b_owner := Some t\<rparr>) \<and>
   b_unlock (snd (b_try_lock (s\<lparr>b_owner := Some t\<rparr>) t)) t = (True, s\<lparr>b_owner := None\<rparr>) \<and>
   (u = t \<or> b_lock ndebug (s\<lparr>b_owner := Some u\<rparr>) t = Blocked \<and>
            b_try_lock (s\<lparr>b_owner := Some u\<rparr>) t = (False, s\<lparr>b_owner := Some u\<rparr>) \<and>
            b_unlock (s\<lparr>b_owner := Some u\<rparr>) t = (False, s\<lparr>b_owner := Some u\<rparr>)) \<and>
   b_try_lock (s\<lparr>b_owner := None\<rparr>) t = (True, s\<lparr>b_owner := Some t\<rparr>)"
  by (simp add: bsync_defs b_try_lock_def)

text \<open>
  In a release build a nested \<open>Lock\<close> frees the lock of the outer one.  The inner
  constructor leaves the state alone, the inner destructor unlocks, and another thread gets in
  while the outer \<open>Lock\<close> is still alive.
\<close>
theorem boost_nested_lock_releases:
  assumes "b_owner s = None" and "u \<noteq> t"
  shows "\<exists>s1. b_enter True s t = Returns s1 \<and> b_enter True s1 t = Returns s1 \<and>
    (\<exists>s2. b_enter True (b_leave s1 t) u = Returns s2 \<and> b_owner s2 = Some u)"
  using assms by (auto simp: bsync_defs)

theorem boost_nested_lock_releases_witness:
  "\<exists>s1. b_enter True (bsync_new :: nat bsync) 0 = Returns s1 \<and> b_enter True s1 0 = Returns s1 \<and>
    (\<exists>s2. b_enter True (b_leave s1 0) 1 = Returns s2 \<and> b_owner s2 = Some 1)"
  by (rule boost_nested_lock_releases) (simp_all add: bsync_new_def)

lemma lock_for_busy:
  "lock_for_loop d (replicate n False) = None \<longleftrightarrow> n = 0 \<or> 10 * int n < d"
proof (induction n arbitrary: d)
  case (Suc n)
  show ?case
  proof (cases n)
    case 0
    then show ?thesis by auto
  next
    case (Suc m)
    with Suc.IH [of "d - 10"] show ?thesis by auto
  qed
qed simp

lemma lock_for_free:
  "n = 0 \<or> 10 * int n < d \<Longrightarrow> lock_for_loop d (replicate n False @ True # rest) = Some True"
proof (induction n arbitrary: d)
  case (Suc n)
  then have "10 < d" and "n = 0 \<or> 10 * int n < d - 10" by simp_all
  with Suc.IH [of "d - 10"] show ?case by simp
qed simp

lemma lock_for_gives_up:
  "0 < n \<Longrightarrow> d \<le> 10 * int n \<Longrightarrow> n = 1 \<or> 10 * (int n - 1) < d \<Longrightarrow>
   lock_for_loop d (replicate n False @ rest) = Some False"
proof (induction n arbitrary: d)
  case (Suc n)
  then show ?case by (cases "n = 0") auto
qed simp

text \<open>
  A timed lock is bounded and exact.  With \<open>n\<close> the number of tens of milliseconds in the
  timeout, rounded up and at least one, \<open>lock(timeout)\<close> tries exactly \<open>n\<close> times when the
  mutex stays taken and then answers false, and answers true when it becomes free before.
\<close>
theorem boost_timed_lock_bounded:
  assumes "0 \<le> timeout" and "n = nat (max 1 ((timeout + 9) div 10))" and "m < n"
  shows "lock_for_loop timeout (replicate n False @ rest) = Some False \<and>
    lock_for_loop timeout (replicate m False) = None \<and>
    lock_for_loop timeout (replicate m False @ True # rest) = Some True"
proof (intro conjI)
  have n: "0 < n" "timeout \<le> 10 * int n" "n = 1 \<or> 10 * (int n - 1) < timeout"
    using assms(1,2) by (auto simp: max_def split: if_splits)
  then have m: "m = 0 \<or> 10 * int m < timeout"
    using assms(3) by auto
  show "lock_for_loop timeout (replicate n False @ rest) = Some False"
    by (rule lock_for_gives_up [OF n])
  show "lock_for_loop timeout (replicate m False) = None"
    using m by (simp only: lock_for_busy)
  show "lock_for_loop timeout (replicate m False @ True # rest) = Some True"
    by (rule lock_for_free [OF m])
qed

theorem boost_timed_lock_bounded_witness:
  "lock_for_loop 25 [False, False, False] = Some False \<and>
   lock_for_loop 25 [False, False] = None \<and> lock_for_loop 25 [False, False, True] = Some True"
proof -
  have "(0::int) \<le> 25" "(3::nat) = nat (max 1 ((25 + 9) div 10))" "(2::nat) < 3"
    by (simp_all add: max_def)
  from boost_timed_lock_bounded [OF this, of "[]"] show ?thesis
    by (simp add: numeral_eq_Suc)
qed

lemma b_destroy_fails: "b_destroy_loop False (replicate n False) = None"
  by (induction n) simp_all

lemma b_destroy_after: "b_destroy_loop False (replicate n False @ True # rest) = Some (Suc n)"
  by (induction n) simp_all

text \<open>
  The destructor of the boost variant waits for the owner.  In a thread that does not own
  the lock, of an object nobody has notified since the last wait, it ends exactly when one of
  its timed locks succeeds, so it never ends while another thread keeps the lock; for an
  object whose \<open>signal\<close> is still set it does not look at the lock at all.
\<close>
theorem boost_destroy_waits:
  assumes "b_owner s \<noteq> Some t"
  shows "b_destroy (s\<lparr>b_signal := False\<rparr>) t (replicate n False) = None \<and>
    b_destroy (s\<lparr>b_signal := False\<rparr>) t (replicate n False @ [True]) = Some (Suc n) \<and>
    b_destroy (s\<lparr>b_signal := True\<rparr>) t [] = Some 0"
  using assms by (simp add: b_destroy_def b_locked_by_def b_destroy_fails b_destroy_after)

theorem boost_destroy_waits_witness:
  "b_destroy (bsync_new\<lparr>b_owner := Some (1 :: nat), b_signal := True\<rparr>) 0 [] = Some 0"
  using boost_destroy_waits [of "bsync_new\<lparr>b_owner := Some (1 :: nat)\<rparr>" 0 0]
  by (simp add: bsync_new_def)

text \<open>The calls of the threads on one object.\<close>
datatype bsync_call = Bc_enter | Bc_leave | Bc_wait | Bc_wake | Bc_notify nat

fun bsync_step :: "'t bsync \<Rightarrow> 't \<times> bsync_call \<Rightarrow> 't bsync option" where
  "bsync_step s (t, Bc_enter) = (case b_enter False s t of Returns s' \<Rightarrow> Some s' | _ \<Rightarrow> None)"
| "bsync_step s (t, Bc_leave) = Some (b_leave s t)"
| "bsync_step s (t, Bc_wait) = (case b_wait s t of Returns (_, s') \<Rightarrow> Some s' | _ \<Rightarrow> None)"
| "bsync_step s (t, Bc_wake) = (case b_wake s t of Returns (_, s') \<Rightarrow> Some s' | _ \<Rightarrow> None)"
| "bsync_step s (t, Bc_notify k) = (case b_notify k s t of Returns s' \<Rightarrow> Some s' | _ \<Rightarrow> None)"

text \<open>
  A notification can be taken back.  \<open>wait\<close> resets \<open>signal\<close> for all: in the run of the
  statement thread 0 waits, thread 1 notifies and leaves, thread 2 enters first and waits, and
  thread 0, which the notification woke, finds \<open>signal\<close> reset and sleeps again; both sleep
  and the notification is lost.
\<close>
theorem boost_notification_taken_back:
  "\<exists>s. run_steps bsync_step (bsync_new :: nat bsync)
       [(0, Bc_enter), (0, Bc_wait), (1, Bc_enter), (1, Bc_notify 0), (1, Bc_leave),
        (2, Bc_enter), (2, Bc_wait), (0, Bc_wake)] = Some s \<and>
     b_owner s = None \<and> b_cond s = [2, 0] \<and> b_wake s 0 = Blocked \<and> b_wake s 2 = Blocked"
  by (simp add: bsync_defs cond_signal_def remove_at_def Let_def)

end
