(* ===== verification/Boost_Pool.thy ===== *)
theory Boost_Pool
  imports Boost_Synchronized Thread_Pool
begin

text \<open>
  The classes \<open>TaskManager\<close> and \<open>ThreadPool\<close> of the boost variant, \<open>threadpool.cpp\<close> and
  \<open>threadpool.hpp\<close>, as they are built: \<open>AGENTPP_SET_TASK_USE_TRY_LOCK\<close> is defined by the
  header and \<open>POSIX_THREADS\<close> is not.  The structure is that of the posix variant, the protocol
  is another one: the queries of a task manager read it without its lock, \<open>set_task\<close> gives up
  when the lock is taken, \<open>execute\<close> waits with a timeout, \<open>idle_notification\<close> takes the lock
  of the pool, and \<open>terminate\<close> neither wakes nor joins the workers; the destructor does.
\<close>

section \<open>The task manager\<close>

text \<open>
  Where a worker is: before the mutex, at the loop, at the predicate of its wait, asleep, after
  the wait, inside the task, before \<open>idle_notification\<close>, after the loop, returned from \<open>run\<close>,
  its status set to \<open>FINISHED\<close>.
\<close>
datatype bworker_pc =
  V_enter | V_while | V_cond | V_asleep | V_check | V_run | V_notify | V_leave | V_finish | V_done

record bmanager =
  bm_sync :: "tid bsync"
  bm_status :: thread_status
  bm_stack :: nat
  bm_task :: "task ptr"
  bm_go :: bool
  bm_pc :: bworker_pc

definition bm_construct :: "nat \<Rightarrow> bmanager" where
  "bm_construct stack =
     \<lparr>bm_sync = bsync_new, bm_status = RUNNING, bm_stack = stack, bm_task = None, bm_go = True,
      bm_pc = V_enter\<rparr>"

definition bm_is_idle :: "bmanager \<Rightarrow> bool" where
  "bm_is_idle tm \<longleftrightarrow> bm_task tm = None \<and> bm_status tm = RUNNING"

definition bm_has_task :: "bmanager \<Rightarrow> bool" where
  "bm_has_task tm \<longleftrightarrow> \<not> bm_go tm \<or> bm_task tm \<noteq> None"

definition bm_stop :: "bmanager \<Rightarrow> bmanager" where
  "bm_stop tm = tm\<lparr>bm_go := False\<rparr>"

text \<open>\<open>set_task\<close> after its first look at the slot: \<open>try_lock\<close>, a second look, the hand-over.\<close>
definition bm_try_set :: "nat \<Rightarrow> tid \<Rightarrow> task ptr \<Rightarrow> bmanager \<Rightarrow> (bool \<times> bmanager) outcome" where
  "bm_try_set k c t tm =
     (let (got, s) = b_try_lock (bm_sync tm) c in
      if \<not> got then Returns (False, tm)
      else if bm_task tm \<noteq> None then Returns (False, tm\<lparr>bm_sync := b_leave s c\<rparr>)
      else case b_notify k s c of
             Returns s' \<Rightarrow> Returns (True, tm\<lparr>bm_task := t, bm_sync := b_leave s' c\<rparr>)
           | Throws msg \<Rightarrow> Throws msg
           | Blocked \<Rightarrow> Blocked)"

text \<open>The destructor: its critical section, and the join.\<close>
definition bm_destroy_begin :: "nat \<Rightarrow> tid \<Rightarrow> bmanager \<Rightarrow> bmanager outcome" where
  "bm_destroy_begin k c tm =
     (case b_enter False (bm_sync tm) c of
        Returns s \<Rightarrow>
          (case b_notify k s c of
             Returns s' \<Rightarrow> Returns (tm\<lparr>bm_go := False, bm_sync := b_leave s' c\<rparr>)
           | Throws msg \<Rightarrow> Throws msg
           | Blocked \<Rightarrow> Blocked)
      | Throws msg \<Rightarrow> Throws msg
      | Blocked \<Rightarrow> Blocked)"

definition bm_destroy_join :: "bmanager \<Rightarrow> bmanager outcome" where
  "bm_destroy_join tm =
     (if bm_status tm \<noteq> IDLE
      then (if bm_pc tm = V_done then Returns (tm\<lparr>bm_status := IDLE\<rparr>) else Blocked)
      else Returns tm)"

definition bworker_step ::
  "tid \<Rightarrow> run_end \<Rightarrow> bmanager \<Rightarrow> (bmanager \<times> worker_event) option" where
  "bworker_step w e tm =
     (case bm_pc tm of
        V_enter \<Rightarrow>
          (if b_owner (bm_sync tm) = None
           then Some (tm\<lparr>bm_sync := (bm_sync tm)\<lparr>b_owner := Some w\<rparr>, bm_pc := V_while\<rparr>, Ev_none)
           else None)
      | V_while \<Rightarrow> Some (tm\<lparr>bm_pc := (if bm_go tm then V_cond else V_leave)\<rparr>, Ev_none)
      | V_cond \<Rightarrow>
          (let (left, s) = b_wait_turn (bm_has_task tm) (bm_sync tm) w
           in Some (tm\<lparr>bm_sync := s, bm_pc := (if left then V_check else V_asleep)\<rparr>, Ev_none))
      | V_asleep \<Rightarrow>
          (if w \<in> set (b_cond (bm_sync tm)) \<or> b_owner (bm_sync tm) \<noteq> None then None
           else Some (tm\<lparr>bm_sync := (bm_sync tm)\<lparr>b_owner := Some w\<rparr>, bm_pc := V_cond\<rparr>, Ev_none))
      | V_check \<Rightarrow>
          (if \<not> bm_go tm then Some (tm\<lparr>bm_pc := V_leave\<rparr>, Ev_none)
           else case bm_task tm of
                  Some t \<Rightarrow> Some (tm\<lparr>bm_pc := V_run\<rparr>, Ev_started t)
                | None \<Rightarrow> Some (tm\<lparr>bm_pc := V_while\<rparr>, Ev_none))
      | V_run \<Rightarrow>
          (case bm_task tm of
             Some t \<Rightarrow>
               (case e of
                  Run_returns \<Rightarrow> Some (tm\<lparr>bm_task := None, bm_pc := V_notify\<rparr>, Ev_finished t)
                | Run_throws_std \<Rightarrow>
                    Some (tm\<lparr>bm_task := None, bm_pc := V_notify\<rparr>, Ev_finished t)
                | Run_throws_other \<Rightarrow>
                    Some (tm\<lparr>bm_task := None, bm_pc := V_notify\<rparr>, Ev_finished t))
           | None \<Rightarrow> None)
      | V_notify \<Rightarrow> Some (tm\<lparr>bm_pc := V_while\<rparr>, Ev_idle)
      | V_leave \<Rightarrow>
          Some (tm\<lparr>bm_task := None, bm_sync := b_leave (bm_sync tm) w, bm_pc := V_finish\<rparr>,
                Ev_discarded (bm_task tm))
      | V_finish \<Rightarrow> Some (tm\<lparr>bm_status := FINISHED, bm_pc := V_done\<rparr>, Ev_none)
      | V_done \<Rightarrow> None)"

definition bworker_spurious :: "tid \<Rightarrow> bmanager \<Rightarrow> bmanager" where
  "bworker_spurious w tm = tm\<lparr>bm_sync := b_spurious (bm_sync tm) w\<rparr>"

section \<open>The pool\<close>

datatype bexecute_pc = BX_enter | BX_scan nat | BX_set nat | BX_try nat | BX_wait | BX_asleep
datatype bquery_pc = BQ_enter | BQ_scan nat
datatype bterm_pc = BT_enter | BT_stop nat
datatype bdestroy_pc = BD_delete nat | BD_join nat

datatype bclient_pc =
  B_outside "bool option"
| B_execute "task ptr" bexecute_pc
| B_query query bquery_pc
| B_terminate bterm_pc
| B_destroy bdestroy_pc
| B_threw

text \<open>\<open>bp_dead\<close> is set when the destructor starts: no other call may be made then.\<close>
record bpool =
  bp_sync :: "tid bsync"
  bp_tasks :: "bmanager list"
  bp_stack :: nat
  bp_clients :: "bclient_pc list"
  bp_dead :: bool
  bp_submitted :: "task multiset"
  bp_started :: "task multiset"
  bp_finished :: "task multiset"
  bp_discarded :: "task multiset"

definition bpool_size :: "bpool \<Rightarrow> nat" where
  "bpool_size p = length (bp_tasks p)"

definition bpool_stack_size :: "bpool \<Rightarrow> nat" where
  "bpool_stack_size p = bp_stack p"

definition set_bclient :: "nat \<Rightarrow> bclient_pc \<Rightarrow> bpool \<Rightarrow> bpool" where
  "set_bclient j pc p = p\<lparr>bp_clients := (bp_clients p)[j := pc]\<rparr>"

definition set_bmanager :: "nat \<Rightarrow> bmanager \<Rightarrow> bpool \<Rightarrow> bpool" where
  "set_bmanager i tm p = p\<lparr>bp_tasks := (bp_tasks p)[i := tm]\<rparr>"

definition set_bsync :: "tid bsync \<Rightarrow> bpool \<Rightarrow> bpool" where
  "set_bsync s p = p\<lparr>bp_sync := s\<rparr>"

definition bpool_construct_stack :: "nat \<Rightarrow> nat \<Rightarrow> nat \<Rightarrow> bpool" where
  "bpool_construct_stack n_threads stack n_clients =
     \<lparr>bp_sync = bsync_new, bp_tasks = replicate n_threads (bm_construct stack), bp_stack = stack,
      bp_clients = replicate n_clients (B_outside None), bp_dead = False, bp_submitted = {#},
      bp_started = {#}, bp_finished = {#}, bp_discarded = {#}\<rparr>"

definition bpool_construct :: "nat \<Rightarrow> nat \<Rightarrow> bpool" where
  "bpool_construct n_threads n_clients =
     bpool_construct_stack n_threads default_stacksize n_clients"

definition bclient_return :: "nat \<Rightarrow> bool option \<Rightarrow> bpool \<Rightarrow> bpool" where
  "bclient_return j r p =
     set_bclient j (B_outside r) (set_bsync (b_leave (bp_sync p) (Client j)) p)"

definition bclient_enter :: "nat \<Rightarrow> bclient_pc \<Rightarrow> bpool \<Rightarrow> bpool option" where
  "bclient_enter j pc p =
     (case b_enter False (bp_sync p) (Client j) of
        Returns s \<Rightarrow> Some (set_bclient j pc (set_bsync s p))
      | Throws _ \<Rightarrow> Some (set_bclient j B_threw p)
      | Blocked \<Rightarrow> None)"

definition bexecute_step ::
  "nat \<Rightarrow> nat \<Rightarrow> bool \<Rightarrow> task ptr \<Rightarrow> bexecute_pc \<Rightarrow> bpool \<Rightarrow> bpool option" where
  "bexecute_step j k timed_out t pc p =
     (case pc of
        BX_enter \<Rightarrow> bclient_enter j (B_execute t (BX_scan 0)) p
      | BX_scan i \<Rightarrow>
          (if i < length (bp_tasks p)
           then Some (set_bclient j (B_execute t (if bm_is_idle (bp_tasks p ! i) then BX_set i
                                                  else BX_scan (Suc i))) p)
           else Some (set_bclient j (B_execute t BX_wait) p))
      | BX_set i \<Rightarrow>
          Some (set_bclient j (B_execute t (if bm_task (bp_tasks p ! i) = None then BX_try i
                                            else BX_scan (Suc i))) p)
      | BX_try i \<Rightarrow>
          (case bm_try_set k (Client j) t (bp_tasks p ! i) of
             Returns (True, tm) \<Rightarrow> Some (bclient_return j None (set_bmanager i tm p))
           | Returns (False, tm) \<Rightarrow>
               Some (set_bclient j (B_execute t (BX_scan (Suc i))) (set_bmanager i tm p))
           | Throws _ \<Rightarrow> Some (set_bclient j B_threw p)
           | Blocked \<Rightarrow> None)
      | BX_wait \<Rightarrow>
          (case b_wait (bp_sync p) (Client j) of
             Returns (left, s) \<Rightarrow>
               Some (set_bclient j (B_execute t (if left then BX_scan 0 else BX_asleep))
                       (set_bsync s p))
           | Throws _ \<Rightarrow> Some (set_bclient j B_threw p)
           | Blocked \<Rightarrow> None)
      | BX_asleep \<Rightarrow>
          (case b_wake_for timed_out (bp_sync p) (Client j) of
             Returns (Some _, s) \<Rightarrow>
               Some (set_bclient j (B_execute t (BX_scan 0)) (set_bsync s p))
           | Returns (None, s) \<Rightarrow> Some (set_bsync s p)
           | Throws _ \<Rightarrow> Some (set_bclient j B_threw p)
           | Blocked \<Rightarrow> None))"

text \<open>\<open>is_idle\<close>: no thread is not idle.\<close>
definition bis_idle_step :: "nat \<Rightarrow> bquery_pc \<Rightarrow> bpool \<Rightarrow> bpool option" where
  "bis_idle_step j pc p =
     (case pc of
        BQ_enter \<Rightarrow> bclient_enter j (B_query Q_is_idle (BQ_scan 0)) p
      | BQ_scan i \<Rightarrow>
          (if i < length (bp_tasks p)
           then Some (if bm_is_idle (bp_tasks p ! i)
                      then set_bclient j (B_query Q_is_idle (BQ_scan (Suc i))) p
                      else bclient_return j (Some False) p)
           else Some (bclient_return j (Some True) p)))"

text \<open>\<open>is_busy\<close>: no thread is idle.\<close>
definition bis_busy_step :: "nat \<Rightarrow> bquery_pc \<Rightarrow> bpool \<Rightarrow> bpool option" where
  "bis_busy_step j pc p =
     (case pc of
        BQ_enter \<Rightarrow> bclient_enter j (B_query Q_is_busy (BQ_scan 0)) p
      | BQ_scan i \<Rightarrow>
          (if i < length (bp_tasks p)
           then Some (if bm_is_idle (bp_tasks p ! i)
                      then bclient_return j (Some False) p
                      else set_bclient j (B_query Q_is_busy (BQ_scan (Suc i))) p)
           else Some (bclient_return j (Some True) p)))"

definition bterminate_step :: "nat \<Rightarrow> bterm_pc \<Rightarrow> bpool \<Rightarrow> bpool option" where
  "bterminate_step j pc p =
     (case pc of
        BT_enter \<Rightarrow> bclient_enter j (B_terminate (BT_stop 0)) p
      | BT_stop i \<Rightarrow>
          (if i < length (bp_tasks p)
           then Some (set_bclient j (B_terminate (BT_stop (Suc i)))
                        (set_bmanager i (bm_stop (bp_tasks p ! i)) p))
           else (case b_notify_all (bp_sync p) (Client j) of
                   Returns s \<Rightarrow> Some (bclient_return j None (set_bsync s p))
                 | Throws _ \<Rightarrow> Some (set_bclient j B_threw p)
                 | Blocked \<Rightarrow> None)))"

text \<open>The destruction of the member \<open>taskList\<close>.\<close>
definition bdestroy_step :: "nat \<Rightarrow> nat \<Rightarrow> bdestroy_pc \<Rightarrow> bpool \<Rightarrow> bpool option" where
  "bdestroy_step j k pc p =
     (case pc of
        BD_delete i \<Rightarrow>
          (if i < length (bp_tasks p) then
             (case bm_destroy_begin k (Client j) (bp_tasks p ! i) of
                Returns tm \<Rightarrow> Some (set_bclient j (B_destroy (BD_join i)) (set_bmanager i tm p))
              | Throws _ \<Rightarrow> Some (set_bclient j B_threw p)
              | Blocked \<Rightarrow> None)
           else Some (set_bclient j (B_outside None) p))
      | BD_join i \<Rightarrow>
          (case bm_destroy_join (bp_tasks p ! i) of
             Returns tm \<Rightarrow>
               Some (set_bclient j (B_destroy (BD_delete (Suc i))) (set_bmanager i tm p))
           | Throws _ \<Rightarrow> Some (set_bclient j B_threw p)
           | Blocked \<Rightarrow> None))"

definition bclient_step :: "nat \<Rightarrow> nat \<Rightarrow> bool \<Rightarrow> bpool \<Rightarrow> bpool option" where
  "bclient_step j k timed_out p =
     (case bp_clients p ! j of
        B_outside _ \<Rightarrow> None
      | B_execute t pc \<Rightarrow> bexecute_step j k timed_out t pc p
      | B_query Q_is_idle pc \<Rightarrow> bis_idle_step j pc p
      | B_query Q_is_busy pc \<Rightarrow> bis_busy_step j pc p
      | B_terminate pc \<Rightarrow> bterminate_step j pc p
      | B_destroy pc \<Rightarrow> bdestroy_step j k pc p
      | B_threw \<Rightarrow> None)"

text \<open>\<open>idle_notification\<close> in the worker \<open>i\<close>: it takes the lock of the pool.\<close>
definition bidle_notification :: "nat \<Rightarrow> nat \<Rightarrow> bpool \<Rightarrow> bpool option" where
  "bidle_notification i k p =
     (case b_enter False (bp_sync p) (Worker i) of
        Returns s \<Rightarrow>
          (case b_notify k s (Worker i) of
             Returns s' \<Rightarrow> Some (set_bsync (b_leave s' (Worker i)) p)
           | _ \<Rightarrow> None)
      | _ \<Rightarrow> None)"

definition brecord_event :: "worker_event \<Rightarrow> bpool \<Rightarrow> bpool" where
  "brecord_event ev p =
     p\<lparr>bp_started := bp_started p + ev_started ev, bp_finished := bp_finished p + ev_finished ev,
       bp_discarded := bp_discarded p + ev_discarded ev\<rparr>"

datatype bpool_call =
  Bdo_execute "task ptr" | Bdo_query query | Bdo_terminate | Bdo_destroy

definition bclient_call :: "nat \<Rightarrow> bpool_call \<Rightarrow> bpool \<Rightarrow> bpool" where
  "bclient_call j c p =
     (case c of
        Bdo_execute t \<Rightarrow>
          set_bclient j (B_execute t BX_enter) (p\<lparr>bp_submitted := bp_submitted p + ptr_tasks t\<rparr>)
      | Bdo_query q \<Rightarrow> set_bclient j (B_query q BQ_enter) p
      | Bdo_terminate \<Rightarrow> set_bclient j (B_terminate BT_enter) p
      | Bdo_destroy \<Rightarrow> set_bclient j (B_destroy (BD_delete 0)) (p\<lparr>bp_dead := True\<rparr>))"

text \<open>A call may be made while the pool lives; the destructor, when no other call is under way.\<close>
definition bcall_allowed :: "nat \<Rightarrow> bpool_call \<Rightarrow> bpool \<Rightarrow> bool" where
  "bcall_allowed j c p \<longleftrightarrow> j < length (bp_clients p) \<and> \<not> bp_dead p \<and>
     (case bp_clients p ! j of B_outside _ \<Rightarrow> True | _ \<Rightarrow> False) \<and>
     (c = Bdo_destroy \<longrightarrow>
        list_all (\<lambda>pc. case pc of B_outside _ \<Rightarrow> True | _ \<Rightarrow> False) (bp_clients p))"

datatype bpool_label =
  BL_call nat bpool_call | BL_client nat nat bool | BL_worker nat run_end nat
| BL_client_spurious nat | BL_worker_spurious nat

definition bpool_step :: "bpool \<Rightarrow> bpool_label \<Rightarrow> bpool option" where
  "bpool_step p l =
     (case l of
        BL_call j c \<Rightarrow> if bcall_allowed j c p then Some (bclient_call j c p) else None
      | BL_client j k timed_out \<Rightarrow>
          if j < length (bp_clients p) then bclient_step j k timed_out p else None
      | BL_worker i e k \<Rightarrow>
          (if i < length (bp_tasks p) then
             (case bworker_step (Worker i) e (bp_tasks p ! i) of
                Some (tm, ev) \<Rightarrow>
                  (case (if ev = Ev_idle then bidle_notification i k p else Some p) of
                     Some p' \<Rightarrow> Some (brecord_event ev (set_bmanager i tm p'))
                   | None \<Rightarrow> None)
              | None \<Rightarrow> None)
           else None)
      | BL_client_spurious j \<Rightarrow> Some (set_bsync (b_spurious (bp_sync p) (Client j)) p)
      | BL_worker_spurious i \<Rightarrow>
          (if i < length (bp_tasks p)
           then Some (set_bmanager i (bworker_spurious (Worker i) (bp_tasks p ! i)) p)
           else None))"

lemmas bpool_upd = set_bclient_def set_bmanager_def set_bsync_def

end
