(* ===== verification/Boost_Invariant.thy ===== *)
theory Boost_Invariant
  imports Boost_Pool
begin

text \<open>
  The invariant of the boost pool and the account of its tasks.  The task manager is an
  interpretation of the contract \<open>task_host\<close> like that of the posix variant, so the account
  follows from the same lemmas although the protocol between pool and worker is another one.
\<close>

section \<open>The task manager\<close>

definition bworker_holds :: "bworker_pc \<Rightarrow> bool" where
  "bworker_holds pc \<longleftrightarrow> pc \<in> {V_while, V_cond, V_check, V_run, V_notify, V_leave}"

definition bm_inv :: "tid \<Rightarrow> bmanager \<Rightarrow> bool" where
  "bm_inv w tm \<longleftrightarrow>
     b_owner (bm_sync tm) = (if bworker_holds (bm_pc tm) then Some w else None) \<and>
     (b_cond (bm_sync tm) = [] \<or>
      b_cond (bm_sync tm) = [w] \<and> bm_pc tm = V_asleep \<and> bm_task tm = None) \<and>
     (bm_pc tm = V_run \<longrightarrow> bm_task tm \<noteq> None) \<and>
     (bm_pc tm = V_notify \<longrightarrow> bm_task tm = None) \<and>
     (bm_pc tm = V_leave \<longrightarrow> \<not> bm_go tm)"

definition bm_held :: "bmanager \<Rightarrow> task multiset" where
  "bm_held tm = ptr_tasks (bm_task tm)"

definition bm_running :: "bmanager \<Rightarrow> task multiset" where
  "bm_running tm = (if bm_pc tm = V_run then ptr_tasks (bm_task tm) else {#})"

lemmas bm_defs = bm_inv_def bm_held_def bm_running_def bworker_holds_def

lemma bm_inv_construct: "bm_inv w (bm_construct n)"
  by (simp add: bm_defs bm_construct_def bsync_new_def)

lemma bm_inv_owner: "bm_inv w tm \<Longrightarrow> b_owner (bm_sync tm) = Some u \<Longrightarrow> u = w"
  by (simp add: bm_inv_def split: if_splits)

lemma bm_inv_stop: "bm_inv w tm \<Longrightarrow> bm_inv w (bm_stop tm)"
  by (auto simp: bm_defs bm_stop_def)

lemma bm_try_set_Returns_iff:
  "b_owner (bm_sync tm) \<noteq> Some c \<Longrightarrow>
   bm_try_set k c t tm = Returns (b, tm') \<longleftrightarrow>
   b = (b_owner (bm_sync tm) = None \<and> bm_task tm = None) \<and>
   tm' = (if b then tm\<lparr>bm_task := t, bm_sync := (bm_sync tm)\<lparr>b_owner := None, b_signal := True,
                      b_cond := cond_signal k (b_cond (bm_sync tm))\<rparr>\<rparr>
          else tm)"
  by (cases "b_owner (bm_sync tm)")
    (auto simp: bm_try_set_def b_try_lock_def bsync_defs Let_def)

lemma bm_try_set_no_throw:
  "b_owner (bm_sync tm) \<noteq> Some c \<Longrightarrow> \<exists>r. bm_try_set k c t tm = Returns r"
  by (cases "b_owner (bm_sync tm)")
    (auto simp: bm_try_set_def b_try_lock_def bsync_defs Let_def)

lemma bm_inv_try_set:
  "bm_inv w tm \<Longrightarrow> c \<noteq> w \<Longrightarrow> bm_try_set k c t tm = Returns (b, tm') \<Longrightarrow> bm_inv w tm'"
  using bm_inv_owner [of w tm c]
  by (cases "b_owner (bm_sync tm) = Some c")
    (auto simp: bm_try_set_Returns_iff bm_defs split: if_splits)

lemma bm_destroy_begin_Returns_iff:
  "bm_destroy_begin k c tm = Returns tm' \<longleftrightarrow>
   b_owner (bm_sync tm) = None \<and>
   tm' = tm\<lparr>bm_go := False, bm_sync := (bm_sync tm)\<lparr>b_owner := None, b_signal := True,
             b_cond := cond_signal k (b_cond (bm_sync tm))\<rparr>\<rparr>"
  by (auto simp: bm_destroy_begin_def bsync_defs split: option.splits)

lemma bm_inv_destroy_begin:
  "bm_inv w tm \<Longrightarrow> bm_destroy_begin k c tm = Returns tm' \<Longrightarrow>
   bm_inv w tm' \<and> b_cond (bm_sync tm') = [] \<and> \<not> bm_go tm'"
  by (auto simp: bm_destroy_begin_Returns_iff bm_defs split: if_splits)

lemma bm_destroy_join_Returns_iff:
  "bm_destroy_join tm = Returns tm' \<longleftrightarrow>
   (bm_status tm \<noteq> IDLE \<longrightarrow> bm_pc tm = V_done) \<and> tm' = tm\<lparr>bm_status := IDLE\<rparr>"
  unfolding bm_destroy_join_def by (cases "bm_status tm = IDLE") auto

lemma bm_inv_status [simp]: "bm_inv w (tm\<lparr>bm_status := x\<rparr>) \<longleftrightarrow> bm_inv w tm"
  by (simp add: bm_inv_def)

lemma bm_inv_step:
  "bm_inv w tm \<Longrightarrow> bworker_step w e tm = Some (tm', ev) \<Longrightarrow> bm_inv w tm'"
  by (cases "bm_pc tm")
    (auto simp: bworker_step_def bm_defs b_wait_turn_def bm_has_task_def b_leave_own Let_def
       split: if_splits option.splits run_end.splits)

lemma bm_inv_spurious: "bm_inv w tm \<Longrightarrow> bm_inv w (bworker_spurious w tm)"
  by (auto simp: bworker_spurious_def bm_defs b_spurious_def cond_spurious_def split: if_splits)

lemma bworker_step_go:
  "bm_inv w tm \<Longrightarrow> bworker_step w e tm = Some (tm', ev) \<Longrightarrow>
   bm_go tm' = bm_go tm \<and> (bm_status tm' = RUNNING \<longrightarrow> bm_status tm = RUNNING) \<and>
   (\<not> bm_go tm \<and> b_cond (bm_sync tm) = [] \<longrightarrow> b_cond (bm_sync tm') = [])"
  by (cases "bm_pc tm")
    (auto simp: bworker_step_def bm_defs b_wait_turn_def bm_has_task_def b_leave_own Let_def
       split: if_splits option.splits run_end.splits)

lemma bworker_step_enabled:
  "bm_inv w tm \<Longrightarrow> bm_pc tm \<noteq> V_done \<Longrightarrow> b_cond (bm_sync tm) = [] \<Longrightarrow>
   \<exists>tm' ev. bworker_step w e tm = Some (tm', ev)"
  by (cases "bm_pc tm"; cases e)
    (auto simp: bworker_step_def bm_defs b_wait_turn_def Let_def split: option.splits)

text \<open>A worker inside its mutex can always take a step.\<close>
lemma bworker_holds_enabled:
  "bm_inv w tm \<Longrightarrow> bworker_holds (bm_pc tm) \<Longrightarrow> \<exists>tm' ev. bworker_step w e tm = Some (tm', ev)"
  by (rule bworker_step_enabled) (auto simp: bm_defs)

text \<open>A client never owns the mutex of a task manager between its steps.\<close>
definition bm_offer :: "nat \<Rightarrow> nat \<Rightarrow> task ptr \<Rightarrow> bmanager \<Rightarrow> (bool \<times> bmanager) outcome" where
  "bm_offer k j t tm =
     (if b_owner (bm_sync tm) = Some (Client j) then Blocked else bm_try_set k (Client j) t tm)"

interpretation boost_host:
  task_host "\<lambda>i. bm_inv (Worker i)" bm_held bm_running bm_offer "\<lambda>i. bworker_step (Worker i)"
proof
  fix k c t h h'
  assume "bm_offer k c t h = Returns (True, h')"
  then show "bm_held h = {#} \<and> bm_held h' = ptr_tasks t"
    by (auto simp: bm_offer_def bm_try_set_Returns_iff bm_held_def split: if_splits)
next
  fix k c t h h'
  assume "bm_offer k c t h = Returns (False, h')"
  then show "bm_held h' = bm_held h"
    by (auto simp: bm_offer_def bm_try_set_Returns_iff bm_held_def split: if_splits)
next
  fix i h k c t b h'
  assume "bm_inv (Worker i) h" and "bm_offer k c t h = Returns (b, h')"
  then show "bm_running h' = bm_running h"
    by (auto simp: bm_offer_def bm_try_set_Returns_iff bm_defs split: if_splits)
next
  fix h
  show "bm_running h \<subseteq># bm_held h" by (simp add: bm_running_def bm_held_def)
next
  fix i h e h' ev
  assume "bm_inv (Worker i) h" and "bworker_step (Worker i) e h = Some (h', ev)"
  then show "bm_held h = bm_held h' + ev_finished ev + ev_discarded ev"
    by (cases "bm_pc h")
      (auto simp: bworker_step_def bm_defs b_wait_turn_def Let_def
         split: if_splits option.splits run_end.splits)
next
  fix i h e h' ev
  assume "bm_inv (Worker i) h" and "bworker_step (Worker i) e h = Some (h', ev)"
  then show "bm_running h + ev_started ev = bm_running h' + ev_finished ev"
    by (cases "bm_pc h")
      (auto simp: bworker_step_def bm_defs b_wait_turn_def Let_def
         split: if_splits option.splits run_end.splits)
qed

section \<open>The pool\<close>

fun bclient_holds :: "bclient_pc \<Rightarrow> bool" where
  "bclient_holds (B_execute t x) = (x \<noteq> BX_enter \<and> x \<noteq> BX_asleep)"
| "bclient_holds (B_query q x) = (x \<noteq> BQ_enter)"
| "bclient_holds (B_terminate x) = (x \<noteq> BT_enter)"
| "bclient_holds _ = False"

fun bclient_sees :: "bmanager list \<Rightarrow> bclient_pc \<Rightarrow> bool" where
  "bclient_sees tms (B_execute t (BX_set i)) = (i < length tms)"
| "bclient_sees tms (B_execute t (BX_try i)) = (i < length tms)"
| "bclient_sees tms (B_destroy (BD_join i)) =
     (i < length tms \<and> \<not> bm_go (tms ! i) \<and> b_cond (bm_sync (tms ! i)) = [])"
| "bclient_sees tms B_threw = False"
| "bclient_sees tms _ = True"

definition bclient_ok :: "tid bsync \<Rightarrow> bmanager list \<Rightarrow> nat \<Rightarrow> bclient_pc \<Rightarrow> bool" where
  "bclient_ok s tms j pc \<longleftrightarrow>
     (b_owner s = Some (Client j) \<longleftrightarrow> bclient_holds pc) \<and>
     (Client j \<in> set (b_cond s) \<longrightarrow> (\<exists>t. pc = B_execute t BX_asleep)) \<and>
     bclient_sees tms pc"

definition bmanagers_ok :: "bmanager list \<Rightarrow> bool" where
  "bmanagers_ok tms \<longleftrightarrow> (\<forall>i < length tms. bm_inv (Worker i) (tms ! i))"

fun b_in_flight :: "bclient_pc \<Rightarrow> task multiset" where
  "b_in_flight (B_execute t x) = ptr_tasks t"
| "b_in_flight _ = {#}"

definition bledger :: "bpool \<Rightarrow> bool" where
  "bledger p \<longleftrightarrow>
     bp_submitted p = bp_finished p + bp_discarded p + owned bm_held (bp_tasks p)
                        + owned b_in_flight (bp_clients p) \<and>
     bp_started p = bp_finished p + owned bm_running (bp_tasks p)"

fun is_destroy :: "bclient_pc \<Rightarrow> bool" where
  "is_destroy (B_destroy x) = True"
| "is_destroy _ = False"

text \<open>The destructor runs alone: every other client is outside.\<close>
definition bdead_ok :: "bpool \<Rightarrow> bool" where
  "bdead_ok p \<longleftrightarrow> (\<forall>j < length (bp_clients p). is_destroy (bp_clients p ! j) \<longrightarrow>
     (\<forall>i < length (bp_clients p). i \<noteq> j \<longrightarrow> (\<exists>r. bp_clients p ! i = B_outside r)) \<and> bp_dead p)"

definition bpool_inv :: "bpool \<Rightarrow> bool" where
  "bpool_inv p \<longleftrightarrow> bmanagers_ok (bp_tasks p) \<and>
     (\<forall>j < length (bp_clients p). bclient_ok (bp_sync p) (bp_tasks p) j (bp_clients p ! j)) \<and>
     (\<forall>u. b_owner (bp_sync p) = Some u \<longrightarrow> (\<exists>j < length (bp_clients p). u = Client j)) \<and>
     bledger p \<and> bdead_ok p"

lemma bpool_invD:
  assumes "bpool_inv p"
  shows "bmanagers_ok (bp_tasks p)" and "bledger p" and "bdead_ok p"
    and "j < length (bp_clients p) \<Longrightarrow>
         bclient_ok (bp_sync p) (bp_tasks p) j (bp_clients p ! j)"
    and "b_owner (bp_sync p) = Some u \<Longrightarrow> \<exists>j < length (bp_clients p). u = Client j"
  using assms by (auto simp: bpool_inv_def)

lemma bmanagers_ok_update:
  "bmanagers_ok tms \<Longrightarrow> bm_inv (Worker i) tm \<Longrightarrow> bmanagers_ok (tms[i := tm])"
  unfolding bmanagers_ok_def
  by (metis length_list_update nth_list_update_eq nth_list_update_neq)

lemma bmanagers_ok_nth: "bmanagers_ok tms \<Longrightarrow> i < length tms \<Longrightarrow> bm_inv (Worker i) (tms ! i)"
  by (simp add: bmanagers_ok_def)

lemma bmanager_not_client:
  "bmanagers_ok tms \<Longrightarrow> i < length tms \<Longrightarrow> b_owner (bm_sync (tms ! i)) \<noteq> Some (Client j)"
  using bm_inv_owner bmanagers_ok_nth by blast

lemma bclient_outside_view:
  "\<not> bclient_holds pc \<Longrightarrow> \<not> is_destroy pc \<Longrightarrow> pc \<noteq> B_threw \<Longrightarrow> bclient_sees tms pc"
  by (cases "(tms, pc)" rule: bclient_sees.cases) auto

lemma bpool_upd_fields [simp]:
  "bp_sync (set_bclient j pc p) = bp_sync p" "bp_tasks (set_bclient j pc p) = bp_tasks p"
  "bp_clients (set_bclient j pc p) = (bp_clients p)[j := pc]"
  "bp_dead (set_bclient j pc p) = bp_dead p"
  "bp_sync (set_bmanager i tm p) = bp_sync p"
  "bp_tasks (set_bmanager i tm p) = (bp_tasks p)[i := tm]"
  "bp_clients (set_bmanager i tm p) = bp_clients p" "bp_dead (set_bmanager i tm p) = bp_dead p"
  "bp_sync (set_bsync s p) = s" "bp_tasks (set_bsync s p) = bp_tasks p"
  "bp_clients (set_bsync s p) = bp_clients p" "bp_dead (set_bsync s p) = bp_dead p"
  by (simp_all add: bpool_upd)

lemma bpool_upd_ghosts [simp]:
  "bp_submitted (set_bclient j pc p) = bp_submitted p" "bp_started (set_bclient j pc p) = bp_started p"
  "bp_finished (set_bclient j pc p) = bp_finished p"
  "bp_discarded (set_bclient j pc p) = bp_discarded p"
  "bp_submitted (set_bmanager i tm p) = bp_submitted p"
  "bp_started (set_bmanager i tm p) = bp_started p"
  "bp_finished (set_bmanager i tm p) = bp_finished p"
  "bp_discarded (set_bmanager i tm p) = bp_discarded p"
  "bp_submitted (set_bsync s p) = bp_submitted p" "bp_started (set_bsync s p) = bp_started p"
  "bp_finished (set_bsync s p) = bp_finished p" "bp_discarded (set_bsync s p) = bp_discarded p"
  by (simp_all add: bpool_upd)

text \<open>
  One step of the client \<open>j\<close> with the lock of the pool: the other clients do not own it, so
  what they know of the task managers is nothing.
\<close>
lemma bpool_inv_update:
  assumes inv: "bpool_inv p" and j: "j < length (bp_clients p)"
    and before: "b_owner (bp_sync p) = None \<or> b_owner (bp_sync p) = Some (Client j)"
    and after: "b_owner s = None \<or> b_owner s = Some (Client j)"
    and conds: "set (b_cond s) \<subseteq> insert (Client j) (set (b_cond (bp_sync p)))"
    and tms: "bmanagers_ok tms" and ok: "bclient_ok s tms j pc"
    and acting: "\<And>r. bp_clients p ! j \<noteq> B_outside r"
    and kind: "\<not> is_destroy pc"
    and led: "bledger p'"
    and p': "bp_sync p' = s" "bp_tasks p' = tms" "bp_clients p' = (bp_clients p)[j := pc]"
      "bp_dead p' = bp_dead p"
  shows "bpool_inv p'"
proof -
  have quiet: "\<not> is_destroy (bp_clients p ! i)" if "i < length (bp_clients p)" "i \<noteq> j" for i
    using bpool_invD(3) [OF inv] that j acting by (auto simp: bdead_ok_def)
  have "bclient_ok s tms i ((bp_clients p)[j := pc] ! i)" if i: "i < length (bp_clients p)" for i
  proof (cases "i = j")
    case True
    then show ?thesis using ok j by simp
  next
    case False
    from bpool_invD(4) [OF inv i]
    have old: "bclient_ok (bp_sync p) (bp_tasks p) i (bp_clients p ! i)" .
    with before False have out: "\<not> bclient_holds (bp_clients p ! i)"
      by (auto simp: bclient_ok_def)
    moreover have "bp_clients p ! i \<noteq> B_threw" using old by (auto simp: bclient_ok_def)
    ultimately show ?thesis
      using old False after conds quiet [OF i] by (auto simp: bclient_ok_def bclient_outside_view)
  qed
  moreover have "\<not> is_destroy ((bp_clients p)[j := pc] ! i)" if "i < length (bp_clients p)" for i
    using quiet [OF that] kind that by (cases "i = j") auto
  then have "bdead_ok p'" by (simp add: bdead_ok_def p')
  ultimately show ?thesis
    using tms j after p' led by (auto simp: bpool_inv_def)
qed

text \<open>One step of the destructor: the other clients are outside.\<close>
lemma bpool_inv_destroy:
  assumes inv: "bpool_inv p" and j: "j < length (bp_clients p)"
    and pc: "is_destroy (bp_clients p ! j)" and new: "is_destroy pc' \<or> pc' = B_outside None"
    and tms: "bmanagers_ok tms" and sees: "bclient_sees tms pc'"
    and led: "bledger p'"
    and p': "bp_sync p' = bp_sync p" "bp_tasks p' = tms" "bp_clients p' = (bp_clients p)[j := pc']"
      "bp_dead p' = bp_dead p"
  shows "bpool_inv p'"
proof -
  have others: "\<exists>r. bp_clients p ! i = B_outside r" if "i < length (bp_clients p)" "i \<noteq> j" for i
    using bpool_invD(3) [OF inv] that j pc by (auto simp: bdead_ok_def)
  have "bclient_ok (bp_sync p) tms i ((bp_clients p)[j := pc'] ! i)"
    if i: "i < length (bp_clients p)" for i
  proof (cases "i = j")
    case True
    have "\<not> bclient_holds (bp_clients p ! j)" "\<not> bclient_holds pc'"
      using pc new by (cases "bp_clients p ! j"; cases pc'; auto)+
    moreover have "\<not> (\<exists>t. bp_clients p ! j = B_execute t BX_asleep)" using pc by auto
    ultimately show ?thesis
      using bpool_invD(4) [OF inv j] sees True j by (auto simp: bclient_ok_def)
  next
    case False
    then show ?thesis
      using others [OF i] bpool_invD(4) [OF inv i] by (auto simp: bclient_ok_def)
  qed
  moreover have "bdead_ok p'"
    unfolding bdead_ok_def
  proof (intro allI impI)
    fix m assume m: "m < length (bp_clients p')" "is_destroy (bp_clients p' ! m)"
    then have "m = j" using others [of m] by (cases "m = j") (auto simp: p')
    moreover have "bp_dead p" using bpool_invD(3) [OF inv] pc j by (simp add: bdead_ok_def)
    ultimately show "(\<forall>i < length (bp_clients p'). i \<noteq> m \<longrightarrow> (\<exists>r. bp_clients p' ! i = B_outside r)) \<and>
        bp_dead p'"
      using others p' by simp
  qed
  ultimately show ?thesis
    using bpool_invD(5) [OF inv] tms p' led by (auto simp: bpool_inv_def)
qed

section \<open>The account\<close>

lemma bledger_move:
  assumes "bledger p" "j < length (bp_clients p)" "b_in_flight pc = b_in_flight (bp_clients p ! j)"
  shows "bledger (set_bclient j pc p)"
  using assms owned_update_same [OF assms(2), of b_in_flight pc] by (simp add: bledger_def)

lemma bledger_sync [simp]: "bledger (set_bsync s p) \<longleftrightarrow> bledger p"
  by (simp add: bledger_def)

lemma bledger_manager:
  assumes "bledger p" "i < length (bp_tasks p)"
    and "bm_held tm = bm_held (bp_tasks p ! i)" "bm_running tm = bm_running (bp_tasks p ! i)"
  shows "bledger (set_bmanager i tm p)"
  using assms owned_update_same [OF assms(2), of bm_held tm]
    owned_update_same [OF assms(2), of bm_running tm]
  by (simp add: bledger_def)

lemma bledger_handed:
  assumes led: "bledger p" and j: "j < length (bp_clients p)" and i: "i < length (bp_tasks p)"
    and inv: "bm_inv (Worker i) (bp_tasks p ! i)"
    and flight: "b_in_flight (bp_clients p ! j) = ptr_tasks t" "b_in_flight pc = {#}"
    and set: "bm_offer k j t (bp_tasks p ! i) = Returns (True, tm)"
  shows "bledger (set_bclient j pc (set_bmanager i tm p))"
proof -
  have "owned b_in_flight (bp_clients p) =
      owned b_in_flight ((bp_clients p)[j := pc]) + ptr_tasks t"
    using owned_update_sub [OF j, of b_in_flight pc "ptr_tasks t"] flight by simp
  then show ?thesis
    using led boost_host.taken_owned [OF i set] boost_host.offer_owned_running [OF i inv set]
    by (simp add: bledger_def ac_simps)
qed

lemma bledger_worker:
  assumes led: "bledger p" and i: "i < length (bp_tasks p)"
    and ok: "bm_inv (Worker i) (bp_tasks p ! i)"
    and w: "bworker_step (Worker i) e (bp_tasks p ! i) = Some (tm, ev)"
    and p': "bp_tasks p' = (bp_tasks p)[i := tm]" "bp_clients p' = bp_clients p"
      "bp_submitted p' = bp_submitted p" "bp_started p' = bp_started p + ev_started ev"
      "bp_finished p' = bp_finished p + ev_finished ev"
      "bp_discarded p' = bp_discarded p + ev_discarded ev"
  shows "bledger p'"
proof -
  note held = boost_host.step_owned [OF i ok w]
  note running = boost_host.step_owned_running [OF i ok w]
  have "bp_submitted p' = bp_finished p + bp_discarded p + owned bm_held (bp_tasks p)
      + owned b_in_flight (bp_clients p)"
    using led p' by (simp add: bledger_def)
  also have "\<dots> = bp_finished p' + bp_discarded p' + owned bm_held (bp_tasks p')
      + owned b_in_flight (bp_clients p')"
    by (simp only: held [symmetric] p' ac_simps)
  finally have sub: "bp_submitted p' = \<dots>" .
  have "bp_started p' = bp_finished p + (owned bm_running (bp_tasks p) + ev_started ev)"
    using led p' by (simp add: bledger_def ac_simps)
  also have "\<dots> = bp_finished p + (owned bm_running ((bp_tasks p)[i := tm]) + ev_finished ev)"
    by (simp only: running)
  also have "\<dots> = bp_finished p' + owned bm_running (bp_tasks p')"
    by (simp only: p' ac_simps)
  finally show ?thesis using sub by (simp add: bledger_def)
qed

section \<open>The steps of the clients\<close>

lemma bclient_owner:
  "bpool_inv p \<Longrightarrow> j < length (bp_clients p) \<Longrightarrow>
   b_owner (bp_sync p) = Some (Client j) \<longleftrightarrow> bclient_holds (bp_clients p ! j)"
  using bpool_invD(4) by (auto simp: bclient_ok_def)

lemma binv_enter:
  assumes inv: "bpool_inv p" and j: "j < length (bp_clients p)"
    and out: "\<not> bclient_holds (bp_clients p ! j)" "\<And>r. bp_clients p ! j \<noteq> B_outside r"
      "\<And>t. bp_clients p ! j \<noteq> B_execute t BX_asleep"
    and step: "bclient_enter j pc p = Some p'"
    and pc: "bclient_holds pc" "\<not> is_destroy pc" "bclient_sees (bp_tasks p) pc"
      "b_in_flight pc = b_in_flight (bp_clients p ! j)"
  shows "bpool_inv p'"
proof -
  have free: "b_owner (bp_sync p) = None"
    and p': "p' = set_bclient j pc (set_bsync ((bp_sync p)\<lparr>b_owner := Some (Client j)\<rparr>) p)"
    using step out bclient_owner [OF inv j]
    by (auto simp: bclient_enter_def split: outcome.splits)
  have "Client j \<notin> set (b_cond (bp_sync p))"
    using bpool_invD(4) [OF inv j] out(3) by (auto simp: bclient_ok_def)
  then show ?thesis
    using bpool_invD(1,2) [OF inv] pc free j out(2)
    by (intro bpool_inv_update [OF inv j, where pc = pc and s = "bp_sync p'"])
      (auto simp: p' bclient_ok_def intro!: bledger_move)
qed

lemma binv_move:
  assumes inv: "bpool_inv p" and j: "j < length (bp_clients p)"
    and holds: "bclient_holds (bp_clients p ! j)" "bclient_holds pc" "\<not> is_destroy pc"
    and tms: "bmanagers_ok tms" "bclient_sees tms pc"
    and p': "bp_sync p' = bp_sync p" "bp_tasks p' = tms" "bp_clients p' = (bp_clients p)[j := pc]"
      "bp_dead p' = bp_dead p" and led: "bledger p'"
  shows "bpool_inv p'"
proof -
  have own: "b_owner (bp_sync p) = Some (Client j)" using bclient_owner [OF inv j] holds(1) by simp
  have "Client j \<notin> set (b_cond (bp_sync p))"
    using bpool_invD(4) [OF inv j] holds(1) by (auto simp: bclient_ok_def)
  moreover have "bp_clients p ! j \<noteq> B_outside r" for r using holds(1) by auto
  ultimately show ?thesis
    using own holds tms led p'
    by (intro bpool_inv_update [OF inv j, where pc = pc and s = "bp_sync p" and tms = tms])
      (auto simp: bclient_ok_def)
qed

lemma binv_step_on:
  assumes inv: "bpool_inv p" and j: "j < length (bp_clients p)"
    and holds: "bclient_holds (bp_clients p ! j)" "bclient_holds pc" "\<not> is_destroy pc"
    and sees: "bclient_sees (bp_tasks p) pc" and flight: "b_in_flight pc = b_in_flight (bp_clients p ! j)"
  shows "bpool_inv (set_bclient j pc p)"
  using bpool_invD(1,2) [OF inv] flight j
  by (intro binv_move [OF inv j holds _ sees]) (auto intro: bledger_move)

lemma binv_return:
  assumes inv: "bpool_inv p" and j: "j < length (bp_clients p)"
    and holds: "bclient_holds (bp_clients p ! j)"
    and q: "bmanagers_ok (bp_tasks q)" "b_owner (bp_sync q) = b_owner (bp_sync p)"
      "set (b_cond (bp_sync q)) \<subseteq> set (b_cond (bp_sync p))" "bp_clients q = bp_clients p"
      "bp_dead q = bp_dead p" and led: "bledger (set_bclient j (B_outside r) q)"
  shows "bpool_inv (bclient_return j r q)"
proof -
  have own: "b_owner (bp_sync p) = Some (Client j)" using bclient_owner [OF inv j] holds by simp
  have "Client j \<notin> set (b_cond (bp_sync p))"
    using bpool_invD(4) [OF inv j] holds by (auto simp: bclient_ok_def)
  moreover have "bp_clients p ! j \<noteq> B_outside x" for x using holds by auto
  moreover have "bledger (bclient_return j r q)"
    using led by (simp add: bclient_return_def bledger_def)
  ultimately show ?thesis
    using own q
    by (intro bpool_inv_update [OF inv j, where pc = "B_outside r" and
          s = "(bp_sync q)\<lparr>b_owner := None\<rparr>" and tms = "bp_tasks q"])
      (auto simp: bclient_ok_def bclient_return_def b_leave_own)
qed

lemma binv_execute:
  assumes inv: "bpool_inv p" and j: "j < length (bp_clients p)"
    and pc: "bp_clients p ! j = B_execute t x"
    and step: "bexecute_step j k timed_out t x p = Some p'"
  shows "bpool_inv p'"
proof (cases x)
  case BX_enter
  then show ?thesis
    using step pc by (intro binv_enter [OF inv j]) (auto simp: bexecute_step_def)
next
  case (BX_scan i)
  then show ?thesis
    using step pc by (auto simp: bexecute_step_def intro!: binv_step_on [OF inv j]
        split: if_splits)
next
  case (BX_set i)
  then have "i < length (bp_tasks p)"
    using bpool_invD(4) [OF inv j] pc by (simp add: bclient_ok_def)
  then show ?thesis
    using step pc BX_set by (auto simp: bexecute_step_def intro!: binv_step_on [OF inv j]
        split: if_splits)
next
  case (BX_try i)
  have i: "i < length (bp_tasks p)"
    using bpool_invD(4) [OF inv j] pc BX_try by (simp add: bclient_ok_def)
  have ok: "bm_inv (Worker i) (bp_tasks p ! i)" by (rule bmanagers_ok_nth [OF bpool_invD(1) [OF inv] i])
  have foreign: "b_owner (bm_sync (bp_tasks p ! i)) \<noteq> Some (Client j)"
    by (rule bmanager_not_client [OF bpool_invD(1) [OF inv] i])
  obtain b tm where set: "bm_try_set k (Client j) t (bp_tasks p ! i) = Returns (b, tm)"
    using bm_try_set_no_throw [OF foreign] by (metis surj_pair)
  have tm: "bm_inv (Worker i) tm" by (rule bm_inv_try_set [OF ok _ set]) simp
  then have tms: "bmanagers_ok ((bp_tasks p)[i := tm])"
    using bmanagers_ok_update [OF bpool_invD(1) [OF inv]] by blast
  show ?thesis
  proof (cases b)
    case True
    have "bm_offer k j t (bp_tasks p ! i) = Returns (True, tm)"
      using set True foreign by (simp add: bm_offer_def)
    then have "bledger (set_bclient j (B_outside None) (set_bmanager i tm p))"
      using pc by (intro bledger_handed [OF bpool_invD(2) [OF inv] j i ok]) auto
    then show ?thesis
      using step BX_try set True pc tms
      by (auto simp: bexecute_step_def intro!: binv_return [OF inv j])
  next
    case False
    then have "tm = bp_tasks p ! i" using set foreign by (simp add: bm_try_set_Returns_iff)
    then have "p' = set_bclient j (B_execute t (BX_scan (Suc i))) p"
      using step BX_try set False by (simp add: bexecute_step_def set_bmanager_def)
    then show ?thesis using pc BX_try by (auto intro!: binv_step_on [OF inv j])
  qed
next
  case BX_wait
  then have own: "b_owner (bp_sync p) = Some (Client j)"
    using bclient_owner [OF inv j] pc by simp
  then have p': "p' = set_bclient j (B_execute t BX_asleep)
      (set_bsync ((bp_sync p)\<lparr>b_signal := False, b_owner := None,
         b_cond := b_cond (bp_sync p) @ [Client j]\<rparr>) p)"
    using step BX_wait by (auto simp: bexecute_step_def bsync_defs Let_def)
  show ?thesis
    using own bpool_invD(1,2) [OF inv] pc j
    by (intro bpool_inv_update [OF inv j, where pc = "B_execute t BX_asleep" and s = "bp_sync p'"])
      (auto simp: p' bclient_ok_def intro!: bledger_move)
next
  case BX_asleep
  then have free: "b_owner (bp_sync p) = None"
    using step by (auto simp: bexecute_step_def b_wake_for_def split: if_splits)
  have "(\<exists>s. p' = set_bclient j (B_execute t (BX_scan 0)) (set_bsync s p) \<and>
        b_owner s = Some (Client j) \<and> Client j \<notin> set (b_cond s) \<and>
        set (b_cond s) \<subseteq> set (b_cond (bp_sync p))) \<or>
      (\<exists>s. p' = set_bclient j (B_execute t BX_asleep) (set_bsync s p) \<and> b_owner s = None \<and>
        set (b_cond s) \<subseteq> insert (Client j) (set (b_cond (bp_sync p))))"
  proof -
    have same: "set_bsync s p = set_bclient j (B_execute t BX_asleep) (set_bsync s p)" for s
    proof -
      have "(bp_clients p)[j := B_execute t BX_asleep] = bp_clients p"
        using pc BX_asleep list_update_id [of "bp_clients p" j] by simp
      then show ?thesis by (simp add: bpool_upd)
    qed
    show ?thesis
      using step BX_asleep free same
      by (auto simp: bexecute_step_def b_wake_for_def b_wait_turn_def Let_def split: if_splits)
  qed
  then show ?thesis
  proof (elim disjE exE conjE)
    fix s assume *: "p' = set_bclient j (B_execute t (BX_scan 0)) (set_bsync s p)"
      "b_owner s = Some (Client j)" "Client j \<notin> set (b_cond s)"
      "set (b_cond s) \<subseteq> set (b_cond (bp_sync p))"
    then show ?thesis
      using free bpool_invD(1,2) [OF inv] pc j
      by (intro bpool_inv_update [OF inv j, where pc = "B_execute t (BX_scan 0)" and s = s])
        (auto simp: bclient_ok_def intro!: bledger_move)
  next
    fix s assume *: "p' = set_bclient j (B_execute t BX_asleep) (set_bsync s p)"
      "b_owner s = None" "set (b_cond s) \<subseteq> insert (Client j) (set (b_cond (bp_sync p)))"
    then show ?thesis
      using free bpool_invD(1,2) [OF inv] pc j
      by (intro bpool_inv_update [OF inv j, where pc = "B_execute t BX_asleep" and s = s])
        (auto simp: bclient_ok_def intro!: bledger_move)
  qed
qed

lemma binv_query:
  assumes inv: "bpool_inv p" and j: "j < length (bp_clients p)"
    and pc: "bp_clients p ! j = B_query q x"
    and step: "q = Q_is_idle \<and> bis_idle_step j x p = Some p' \<or>
               q = Q_is_busy \<and> bis_busy_step j x p = Some p'"
  shows "bpool_inv p'"
proof -
  have led: "bledger (set_bclient j (B_outside r) p)" for r
    using bpool_invD(2) [OF inv] pc j by (auto intro: bledger_move)
  show ?thesis
  proof (cases x)
    case BQ_enter
    then show ?thesis
      using step pc
      by (intro binv_enter [OF inv j, where pc = "B_query q (BQ_scan 0)"])
        (auto simp: bis_idle_step_def bis_busy_step_def)
  next
    case (BQ_scan i)
    then show ?thesis
      using step pc led bpool_invD(1) [OF inv]
      by (auto simp: bis_idle_step_def bis_busy_step_def
          intro!: binv_step_on [OF inv j] binv_return [OF inv j] split: if_splits)
  qed
qed

lemma binv_terminate:
  assumes inv: "bpool_inv p" and j: "j < length (bp_clients p)"
    and pc: "bp_clients p ! j = B_terminate x" and step: "bterminate_step j x p = Some p'"
  shows "bpool_inv p'"
proof (cases x)
  case BT_enter
  then show ?thesis
    using step pc by (intro binv_enter [OF inv j]) (auto simp: bterminate_step_def)
next
  case (BT_stop i)
  then have own: "b_owner (bp_sync p) = Some (Client j)"
    using bclient_owner [OF inv j] pc by simp
  show ?thesis
  proof (cases "i < length (bp_tasks p)")
    case True
    let ?tm = "bm_stop (bp_tasks p ! i)"
    have p': "p' = set_bclient j (B_terminate (BT_stop (Suc i))) (set_bmanager i ?tm p)"
      using step BT_stop True by (simp add: bterminate_step_def)
    have "bmanagers_ok ((bp_tasks p)[i := ?tm])"
      using bm_inv_stop bmanagers_ok_nth [OF bpool_invD(1) [OF inv] True]
        bmanagers_ok_update [OF bpool_invD(1) [OF inv]] by blast
    moreover have "bledger p'"
      unfolding p' using bpool_invD(2) [OF inv] pc j True
      by (auto simp: bm_stop_def bm_held_def bm_running_def intro!: bledger_move bledger_manager)
    ultimately show ?thesis
      using pc BT_stop by (intro binv_move [OF inv j]) (auto simp: p')
  next
    case False
    then have p': "p' = bclient_return j None
        (set_bsync ((bp_sync p)\<lparr>b_signal := True, b_cond := []\<rparr>) p)"
      using step BT_stop own by (simp add: bterminate_step_def bsync_defs cond_broadcast_def)
    show ?thesis
      unfolding p' using pc BT_stop bpool_invD(1,2) [OF inv] j
      by (intro binv_return [OF inv j]) (auto intro!: bledger_move)
  qed
qed

lemma binv_destroy:
  assumes inv: "bpool_inv p" and j: "j < length (bp_clients p)"
    and pc: "bp_clients p ! j = B_destroy x" and step: "bdestroy_step j k x p = Some p'"
  shows "bpool_inv p'"
proof (cases x)
  case (BD_delete i)
  show ?thesis
  proof (cases "i < length (bp_tasks p)")
    case True
    have foreign: "b_owner (bm_sync (bp_tasks p ! i)) \<noteq> Some (Client j)"
      by (rule bmanager_not_client [OF bpool_invD(1) [OF inv] True])
    then have "bm_destroy_begin k (Client j) (bp_tasks p ! i) \<noteq> Throws msg" for msg
      by (auto simp: bm_destroy_begin_def bsync_defs split: option.splits)
    then obtain tm where tm: "bm_destroy_begin k (Client j) (bp_tasks p ! i) = Returns tm"
      and p': "p' = set_bclient j (B_destroy (BD_join i)) (set_bmanager i tm p)"
      using step BD_delete True by (auto simp: bdestroy_step_def split: outcome.splits)
    note ok = bm_inv_destroy_begin [OF bmanagers_ok_nth [OF bpool_invD(1) [OF inv] True] tm]
    have "bmanagers_ok ((bp_tasks p)[i := tm])"
      using ok bmanagers_ok_update [OF bpool_invD(1) [OF inv]] by blast
    moreover have "bledger p'"
      unfolding p' using bpool_invD(2) [OF inv] pc j True tm
      by (auto simp: bm_destroy_begin_Returns_iff bm_held_def bm_running_def
          intro!: bledger_move bledger_manager)
    ultimately show ?thesis
      using ok True pc by (intro bpool_inv_destroy [OF inv j]) (auto simp: p')
  next
    case False
    then have "p' = set_bclient j (B_outside None) p"
      using step BD_delete by (simp add: bdestroy_step_def)
    then show ?thesis
      using bpool_invD(1,2) [OF inv] pc j
      by (intro bpool_inv_destroy [OF inv j]) (auto intro!: bledger_move)
  qed
next
  case (BD_join i)
  have i: "i < length (bp_tasks p)"
    using bpool_invD(4) [OF inv j] pc BD_join by (simp add: bclient_ok_def)
  obtain tm where tm: "bm_destroy_join (bp_tasks p ! i) = Returns tm"
    and step': "p' = set_bclient j (B_destroy (BD_delete (Suc i))) (set_bmanager i tm p)"
    using step BD_join by (auto simp: bdestroy_step_def bm_destroy_join_def split: if_splits)
  have p': "p' = set_bclient j (B_destroy (BD_delete (Suc i)))
      (set_bmanager i ((bp_tasks p ! i)\<lparr>bm_status := IDLE\<rparr>) p)"
    using tm step' by (simp add: bm_destroy_join_Returns_iff)
  have "bmanagers_ok ((bp_tasks p)[i := (bp_tasks p ! i)\<lparr>bm_status := IDLE\<rparr>])"
    using bmanagers_ok_update [OF bpool_invD(1) [OF inv]]
      bmanagers_ok_nth [OF bpool_invD(1) [OF inv] i] by simp
  moreover have "bledger p'"
    unfolding p' using bpool_invD(2) [OF inv] pc j i
    by (auto simp: bm_held_def bm_running_def intro!: bledger_move bledger_manager)
  ultimately show ?thesis
    using pc by (intro bpool_inv_destroy [OF inv j]) (auto simp: p')
qed

end
