(* ===== verification/Boost_Properties.thy ===== *)
theory Boost_Properties
  imports Boost_Invariant
begin

text \<open>
  Every step of the boost pool keeps the invariant; what the pool promises and what it does not.
\<close>

section \<open>Every step keeps the invariant\<close>

lemma binv_client_step:
  assumes inv: "bpool_inv p" and j: "j < length (bp_clients p)"
    and step: "bclient_step j k timed_out p = Some p'"
  shows "bpool_inv p'"
proof (cases "bp_clients p ! j")
  case (B_query q x)
  then show ?thesis
    using binv_query [OF inv j] step by (cases q) (auto simp: bclient_step_def)
qed (use step binv_execute [OF inv j] binv_terminate [OF inv j] binv_destroy [OF inv j] in
    \<open>auto simp: bclient_step_def\<close>)

lemma binv_call:
  assumes inv: "bpool_inv p" and ok: "bcall_allowed j c p"
  shows "bpool_inv (bclient_call j c p)"
proof -
  obtain r where j: "j < length (bp_clients p)" and r: "bp_clients p ! j = B_outside r"
    and live: "\<not> bp_dead p"
    using ok by (auto simp: bcall_allowed_def split: bclient_pc.splits)
  have out: "b_owner (bp_sync p) \<noteq> Some (Client j)" "Client j \<notin> set (b_cond (bp_sync p))"
    using bpool_invD(4) [OF inv j] r by (auto simp: bclient_ok_def)
  have calm: "\<not> is_destroy (bp_clients p ! i)" if "i < length (bp_clients p)" for i
    using bpool_invD(3) [OF inv] live that by (auto simp: bdead_ok_def)
  have oks: "bclient_ok (bp_sync p) (bp_tasks p) i ((bp_clients p)[j := new] ! i)"
    if "i < length (bp_clients p)" and "\<not> bclient_holds new" "bclient_sees (bp_tasks p) new" for i new
    using that out bpool_invD(4) [OF inv that(1)] by (cases "i = j") (auto simp: bclient_ok_def)
  have lives: "\<not> is_destroy ((bp_clients p)[j := new] ! i)"
    if "i < length (bp_clients p)" "\<not> is_destroy new" for i new
    using that calm by (cases "i = j") auto
  have same: "owned b_in_flight ((bp_clients p)[j := new]) = owned b_in_flight (bp_clients p)"
    if "b_in_flight new = {#}" for new
    by (rule owned_update_same [OF j]) (simp add: r that)
  have more: "owned b_in_flight ((bp_clients p)[j := B_execute t BX_enter]) =
      owned b_in_flight (bp_clients p) + ptr_tasks t" for t
    by (rule owned_update_add [OF j]) (simp add: r)
  show ?thesis
  proof (cases c)
    case (Bdo_execute t)
    then show ?thesis
      using inv oks lives more
      by (auto simp: bclient_call_def bpool_inv_def bledger_def bdead_ok_def ac_simps)
  next
    case (Bdo_query q)
    then show ?thesis
      using inv oks lives same
      by (auto simp: bclient_call_def bpool_inv_def bledger_def bdead_ok_def)
  next
    case Bdo_terminate
    then show ?thesis
      using inv oks lives same
      by (auto simp: bclient_call_def bpool_inv_def bledger_def bdead_ok_def)
  next
    case Bdo_destroy
    have outside: "\<exists>r. bp_clients p ! i = B_outside r" if "i < length (bp_clients p)" for i
      using ok Bdo_destroy that
      by (cases "bp_clients p ! i") (auto simp: bcall_allowed_def list_all_length)
    have "bdead_ok (bclient_call j c p)"
      unfolding bdead_ok_def
    proof (intro allI impI)
      fix m assume "m < length (bp_clients (bclient_call j c p))"
        and "is_destroy (bp_clients (bclient_call j c p) ! m)"
      then have "m = j"
        using calm [of m] Bdo_destroy by (cases "m = j") (auto simp: bclient_call_def)
      then show "(\<forall>i < length (bp_clients (bclient_call j c p)). i \<noteq> m \<longrightarrow>
          (\<exists>r. bp_clients (bclient_call j c p) ! i = B_outside r)) \<and> bp_dead (bclient_call j c p)"
        using outside Bdo_destroy by (simp add: bclient_call_def)
    qed
    then show ?thesis
      using inv oks same Bdo_destroy
      by (auto simp: bclient_call_def bpool_inv_def bledger_def)
  qed
qed

lemma bclient_sees_worker:
  assumes "bclient_sees tms pc"
    and "i < length tms \<Longrightarrow> \<not> bm_go (tms ! i) \<Longrightarrow> b_cond (bm_sync (tms ! i)) = [] \<Longrightarrow>
         \<not> bm_go tm \<and> b_cond (bm_sync tm) = []"
  shows "bclient_sees (tms[i := tm]) pc"
  using assms
proof (induction tms pc rule: bclient_sees.induct)
  case (3 tms j)
  then show ?case by (cases "i = j") auto
qed auto

lemma binv_background:
  assumes inv: "bpool_inv p"
    and s: "b_owner s = b_owner (bp_sync p)" "set (b_cond s) \<subseteq> set (b_cond (bp_sync p))"
    and tms: "bmanagers_ok tms"
      "\<And>pc. bclient_sees (bp_tasks p) pc \<Longrightarrow> bclient_sees tms pc"
    and p': "bp_sync p' = s" "bp_tasks p' = tms" "bp_clients p' = bp_clients p"
      "bp_dead p' = bp_dead p" and led: "bledger p'"
  shows "bpool_inv p'"
  using assms by (auto simp: bpool_inv_def bclient_ok_def bdead_ok_def)

lemma binv_worker:
  assumes inv: "bpool_inv p" and i: "i < length (bp_tasks p)"
    and w: "bworker_step (Worker i) e (bp_tasks p ! i) = Some (tm, ev)"
    and p1: "p1 = set_bsync s p" and s: "b_owner s = b_owner (bp_sync p)"
      "set (b_cond s) \<subseteq> set (b_cond (bp_sync p))"
  shows "bpool_inv (brecord_event ev (set_bmanager i tm p1))"
proof -
  have ok: "bm_inv (Worker i) (bp_tasks p ! i)"
    by (rule bmanagers_ok_nth [OF bpool_invD(1) [OF inv] i])
  have "bmanagers_ok ((bp_tasks p)[i := tm])"
    using bmanagers_ok_update [OF bpool_invD(1) [OF inv] bm_inv_step [OF ok w]] .
  moreover have "bclient_sees (bp_tasks p) pc \<Longrightarrow> bclient_sees ((bp_tasks p)[i := tm]) pc" for pc
    using bworker_step_go [OF ok w] by (intro bclient_sees_worker) auto
  moreover have "bledger (brecord_event ev (set_bmanager i tm p1))"
    by (rule bledger_worker [OF bpool_invD(2) [OF inv] i ok w])
      (simp_all add: p1 brecord_event_def)
  ultimately show ?thesis
    by (intro binv_background [OF inv s]) (auto simp: p1 brecord_event_def)
qed

lemma bidle_notification_shape:
  assumes "bidle_notification i k p = Some p'"
  shows "\<exists>s. p' = set_bsync s p \<and> b_owner s = b_owner (bp_sync p) \<and>
    set (b_cond s) \<subseteq> set (b_cond (bp_sync p))"
proof -
  have "p' = set_bsync ((bp_sync p)\<lparr>b_signal := True,
      b_cond := cond_signal k (b_cond (bp_sync p)), b_owner := None\<rparr>) p \<and>
    b_owner (bp_sync p) = None"
    using assms by (auto simp: bidle_notification_def bsync_defs split: option.splits if_splits)
  then show ?thesis using set_cond_signal [of k "b_cond (bp_sync p)"] by (intro exI conjI) auto
qed

lemma bworker_labelE:
  assumes "bpool_step p (BL_worker i e k) = Some p'"
  obtains tm ev p1 where "i < length (bp_tasks p)"
    and "bworker_step (Worker i) e (bp_tasks p ! i) = Some (tm, ev)"
    and "(if ev = Ev_idle then bidle_notification i k p else Some p) = Some p1"
    and "p' = brecord_event ev (set_bmanager i tm p1)"
  using assms by (auto simp: bpool_step_def split: if_splits option.splits)

lemma bpool_inv_step:
  assumes inv: "bpool_inv p" and step: "bpool_step p l = Some p'"
  shows "bpool_inv p'"
proof (cases l)
  case (BL_call j c)
  then show ?thesis using step binv_call [OF inv] by (auto simp: bpool_step_def split: if_splits)
next
  case (BL_client j k timed_out)
  then show ?thesis
    using step binv_client_step [OF inv] by (auto simp: bpool_step_def split: if_splits)
next
  case (BL_worker i e k)
  then obtain tm ev p1 where i: "i < length (bp_tasks p)"
    and w: "bworker_step (Worker i) e (bp_tasks p ! i) = Some (tm, ev)"
    and p1: "(if ev = Ev_idle then bidle_notification i k p else Some p) = Some p1"
    and p': "p' = brecord_event ev (set_bmanager i tm p1)"
    using bworker_labelE [OF step [unfolded BL_worker]] by blast
  have "\<exists>s. p1 = set_bsync s p \<and> b_owner s = b_owner (bp_sync p) \<and>
      set (b_cond s) \<subseteq> set (b_cond (bp_sync p))"
  proof (cases "ev = Ev_idle")
    case True
    then show ?thesis using p1 bidle_notification_shape by auto
  next
    case False
    then show ?thesis
      using p1 by (intro exI [of _ "bp_sync p"]) (simp add: set_bsync_def)
  qed
  then show ?thesis using binv_worker [OF inv i w] p' by blast
next
  case (BL_client_spurious j)
  then show ?thesis
    using step bpool_invD(1,2) [OF inv]
    by (intro binv_background [OF inv, where s = "bp_sync p'" and tms = "bp_tasks p"])
      (auto simp: bpool_step_def b_spurious_def cond_spurious_def)
next
  case (BL_worker_spurious i)
  then have i: "i < length (bp_tasks p)"
    and p': "p' = set_bmanager i (bworker_spurious (Worker i) (bp_tasks p ! i)) p"
    using step by (auto simp: bpool_step_def split: if_splits)
  have "bmanagers_ok ((bp_tasks p)[i := bworker_spurious (Worker i) (bp_tasks p ! i)])"
    using bmanagers_ok_update [OF bpool_invD(1) [OF inv]] bm_inv_spurious
      bmanagers_ok_nth [OF bpool_invD(1) [OF inv] i] by blast
  moreover have "bclient_sees (bp_tasks p) pc \<Longrightarrow>
      bclient_sees ((bp_tasks p)[i := bworker_spurious (Worker i) (bp_tasks p ! i)]) pc" for pc
    by (intro bclient_sees_worker) (auto simp: bworker_spurious_def b_spurious_def cond_spurious_def)
  moreover have "bledger p'"
    unfolding p' using bpool_invD(2) [OF inv] i
    by (auto simp: bworker_spurious_def bm_held_def bm_running_def intro!: bledger_manager)
  ultimately show ?thesis
    by (intro binv_background [OF inv, where s = "bp_sync p"]) (auto simp: p')
qed

interpretation bpool_life: step_invariant bpool_step bpool_inv
  by unfold_locales (rule bpool_inv_step)

lemma bpool_inv_construct: "bpool_inv (bpool_construct_stack n stack m)"
proof -
  have "owned bm_held (replicate n (bm_construct stack)) = {#}"
    "owned bm_running (replicate n (bm_construct stack)) = {#}"
    "owned b_in_flight (replicate m (B_outside None)) = {#}"
    by (induction n; simp add: bm_held_def bm_running_def bm_construct_def)+
      (induction m; simp)
  then show ?thesis
    by (auto simp: bpool_construct_stack_def bpool_inv_def bmanagers_ok_def bm_inv_construct
        bclient_ok_def bsync_new_def bledger_def bdead_ok_def)
qed

lemma bpool_reach_inv:
  "reach bpool_step (bpool_construct_stack n stack m) p \<Longrightarrow> bpool_inv p"
  using bpool_life.inv_reach bpool_inv_construct by blast

section \<open>Progress\<close>

definition bcan_step :: "bpool \<Rightarrow> bool" where
  "bcan_step p \<longleftrightarrow> (\<exists>j k b p'. bpool_step p (BL_client j k b) = Some p') \<or>
     (\<exists>i e k p'. bpool_step p (BL_worker i e k) = Some p')"

lemma bcan_client:
  "j < length (bp_clients p) \<Longrightarrow> bclient_step j k b p \<noteq> None \<Longrightarrow> bcan_step p"
  unfolding bcan_step_def by (auto simp: bpool_step_def)

lemma bholder_can_step:
  assumes inv: "bpool_inv p" and j: "j < length (bp_clients p)"
    and holds: "bclient_holds (bp_clients p ! j)"
  shows "bcan_step p"
proof -
  have own: "b_owner (bp_sync p) = Some (Client j)" using bclient_owner [OF inv j] holds by simp
  have "bclient_step j 0 False p \<noteq> None"
  proof (cases "bp_clients p ! j")
    case (B_execute t x)
    show ?thesis
    proof (cases x)
      case (BX_try i)
      then have "i < length (bp_tasks p)"
        using bpool_invD(4) [OF inv j] B_execute by (simp add: bclient_ok_def)
      from bm_try_set_no_throw [OF bmanager_not_client [OF bpool_invD(1) [OF inv] this]]
      obtain b tm where "bm_try_set 0 (Client j) t (bp_tasks p ! i) = Returns (b, tm)"
        by (metis surj_pair)
      then show ?thesis
        using B_execute BX_try by (cases b) (simp_all add: bclient_step_def bexecute_step_def)
    qed (use holds B_execute own in
        \<open>auto simp: bclient_step_def bexecute_step_def bsync_defs Let_def\<close>)
  next
    case (B_query q x)
    then show ?thesis
      using holds by (cases x; cases q)
        (auto simp: bclient_step_def bis_idle_step_def bis_busy_step_def)
  next
    case (B_terminate x)
    then show ?thesis
      using holds own by (cases x)
        (auto simp: bclient_step_def bterminate_step_def bsync_defs)
  qed (use holds in auto)
  then show ?thesis by (rule bcan_client [OF j])
qed

lemma bworker_can_step:
  assumes free: "b_owner (bp_sync p) = None" and i: "i < length (bp_tasks p)"
    and w: "bworker_step (Worker i) e (bp_tasks p ! i) = Some (tm, ev)"
  shows "bcan_step p"
proof -
  have "bidle_notification i 0 p \<noteq> None"
    using free by (simp add: bidle_notification_def bsync_defs)
  then have "bpool_step p (BL_worker i e 0) \<noteq> None"
    using i w by (auto simp: bpool_step_def split: option.splits)
  then show ?thesis unfolding bcan_step_def by auto
qed

lemma binside_can_step:
  assumes inv: "bpool_inv p" and j: "j < length (bp_clients p)"
    and inside: "\<And>r. bp_clients p ! j \<noteq> B_outside r"
  shows "bcan_step p"
proof (cases "b_owner (bp_sync p)")
  case (Some u)
  then obtain i where i: "i < length (bp_clients p)" "u = Client i"
    using bpool_invD(5) [OF inv] by blast
  then have "bclient_holds (bp_clients p ! i)" using bclient_owner [OF inv i(1)] Some by simp
  then show ?thesis by (rule bholder_can_step [OF inv i(1)])
next
  case None
  note ok = bpool_invD(4) [OF inv j]
  show ?thesis
  proof (cases "bp_clients p ! j")
    case (B_execute t x)
    then have "x = BX_enter \<or> x = BX_asleep" using ok None by (simp add: bclient_ok_def)
    then have "bclient_step j 0 True p \<noteq> None"
      using B_execute None
      by (auto simp: bclient_step_def bexecute_step_def bclient_enter_def b_wake_for_def bsync_defs)
    then show ?thesis by (rule bcan_client [OF j])
  next
    case (B_query q x)
    then have "x = BQ_enter" using ok None by (simp add: bclient_ok_def)
    then have "bclient_step j 0 True p \<noteq> None"
      using B_query None by (cases q) (auto simp: bclient_step_def bis_idle_step_def
          bis_busy_step_def bclient_enter_def bsync_defs)
    then show ?thesis by (rule bcan_client [OF j])
  next
    case (B_terminate x)
    then have "x = BT_enter" using ok None by (simp add: bclient_ok_def)
    then have "bclient_step j 0 True p \<noteq> None"
      using B_terminate None
      by (auto simp: bclient_step_def bterminate_step_def bclient_enter_def bsync_defs)
    then show ?thesis by (rule bcan_client [OF j])
  next
    case (B_destroy x)
    show ?thesis
    proof (cases x)
      case (BD_delete i)
      show ?thesis
      proof (cases "i < length (bp_tasks p) \<and> bworker_holds (bm_pc (bp_tasks p ! i))")
        case True
        then have "bm_inv (Worker i) (bp_tasks p ! i)"
          using bmanagers_ok_nth [OF bpool_invD(1) [OF inv]] by blast
        from bworker_holds_enabled [OF this] True show ?thesis
          using bworker_can_step [OF None] by blast
      next
        case False
        then have "bclient_step j 0 True p \<noteq> None"
          using B_destroy BD_delete bmanagers_ok_nth [OF bpool_invD(1) [OF inv], of i]
          by (auto simp: bclient_step_def bdestroy_step_def bm_destroy_begin_def bsync_defs
              bm_inv_def split: outcome.splits)
        then show ?thesis by (rule bcan_client [OF j])
      qed
    next
      case (BD_join i)
      then have i: "i < length (bp_tasks p)" "b_cond (bm_sync (bp_tasks p ! i)) = []"
        using ok B_destroy by (simp_all add: bclient_ok_def)
      show ?thesis
      proof (cases "bm_pc (bp_tasks p ! i) = V_done")
        case True
        then have "bclient_step j 0 True p \<noteq> None"
          using B_destroy BD_join by (simp add: bclient_step_def bdestroy_step_def bm_destroy_join_def)
        then show ?thesis by (rule bcan_client [OF j])
      next
        case False
        from bworker_step_enabled [OF bmanagers_ok_nth [OF bpool_invD(1) [OF inv] i(1)] False i(2)]
        show ?thesis using bworker_can_step [OF None i(1)] by blast
      qed
    qed
  qed (use inside ok in \<open>auto simp: bclient_ok_def\<close>)
qed

end
