(* ===== verification/Boost_Runs.thy ===== *)
theory Boost_Runs
  imports Boost_Properties
begin

text \<open>
  What the boost pool promises for every interleaving, and runs in which it does less than its
  documentation says: \<open>terminate\<close> does not wait for the workers, and once they have stopped a
  call of \<open>execute\<close> never returns.
\<close>

section \<open>A run\<close>

lemmas brun_eval = bpool_step_def bclient_step_def bexecute_step_def bterminate_step_def
  bclient_enter_def bclient_return_def bpool_upd bclient_call_def bcall_allowed_def
  bworker_step_def brecord_event_def bidle_notification_def bm_is_idle_def bm_try_set_def
  bm_stop_def bm_has_task_def bm_destroy_begin_def bm_destroy_join_def b_wait_turn_def
  b_enter_def b_lock_def b_leave_def b_unlock_def b_locked_by_def b_notify_def b_notify_all_def b_try_lock_def
  b_trylock_def cond_signal_def cond_broadcast_def remove_at_def Let_def

text \<open>
  One worker, two clients.  The first client submits a task and the worker starts it; the second
  one terminates the pool.
\<close>

definition bt_start :: bpool where
  "bt_start = bpool_construct 1 2"

definition bt_run :: "bpool_label list" where
  "bt_run =
     replicate 3 (BL_worker 0 Run_returns 0) @
     BL_call 0 (Bdo_execute (Some 1)) # replicate 4 (BL_client 0 0 False) @
     replicate 3 (BL_worker 0 Run_returns 0) @
     BL_call 1 Bdo_terminate # replicate 3 (BL_client 1 0 False)"

definition bt_manager :: bmanager where
  "bt_manager =
     \<lparr>bm_sync = \<lparr>b_owner = Some (Worker 0), b_signal = True, b_cond = []\<rparr>, bm_status = RUNNING,
      bm_stack = default_stacksize, bm_task = Some 1, bm_go = False, bm_pc = V_run\<rparr>"

definition bt_state :: bpool where
  "bt_state =
     \<lparr>bp_sync = \<lparr>b_owner = None, b_signal = True, b_cond = []\<rparr>, bp_tasks = [bt_manager],
      bp_stack = default_stacksize, bp_clients = [B_outside None, B_outside None],
      bp_dead = False, bp_submitted = {#1#}, bp_started = {#1#}, bp_finished = {#},
      bp_discarded = {#}\<rparr>"

lemma bt_run: "run_steps bpool_step bt_start bt_run = Some bt_state"
  by (simp add: bt_start_def bt_run_def bt_state_def bt_manager_def bpool_construct_def
      bpool_construct_stack_def bm_construct_def bsync_new_def numeral_eq_Suc brun_eval)

lemma bt_reached:
  "reach bpool_step (bpool_construct_stack 1 default_stacksize 2) bt_state"
  using run_steps_reach [OF bt_run] by (simp add: bt_start_def bpool_construct_def)

section \<open>Safety and progress\<close>

text \<open>
  C11: the account of the tasks of the boost pool.  In every state of every execution the tasks
  submitted are, as a multiset, those finished, those deleted without running, those in the
  slot of a worker and those a client is still trying to hand over; the tasks started are those
  finished and those a worker is in, so no task is started more often than it was submitted.
\<close>
theorem bpool_tasks_accounted:
  assumes "reach bpool_step (bpool_construct_stack n stack m) p"
  shows "bp_submitted p = bp_finished p + bp_discarded p + owned bm_held (bp_tasks p)
      + owned b_in_flight (bp_clients p) \<and>
    bp_started p = bp_finished p + owned bm_running (bp_tasks p) \<and>
    bp_started p + bp_discarded p \<subseteq># bp_submitted p"
proof -
  from bpool_reach_inv [OF assms] have led: "bledger p" by (simp add: bpool_inv_def)
  then have sub: "bp_submitted p = (bp_finished p + bp_discarded p) +
      (owned bm_held (bp_tasks p) + owned b_in_flight (bp_clients p))"
    by (simp add: bledger_def ac_simps)
  have "owned bm_running (bp_tasks p) \<subseteq>#
      owned bm_held (bp_tasks p) + owned b_in_flight (bp_clients p)"
    using boost_host.running_owned
      subset_mset.add_increasing2 [of "owned b_in_flight (bp_clients p)"] by simp
  then have "(bp_finished p + bp_discarded p) + owned bm_running (bp_tasks p) \<subseteq># bp_submitted p"
    unfolding sub by (rule subset_mset.add_left_mono)
  then show ?thesis using led by (simp add: bledger_def ac_simps)
qed

theorem bpool_tasks_accounted_witness: "bp_started bt_state \<subseteq># {#1#}"
  using bpool_tasks_accounted [OF bt_reached] by (simp add: bt_state_def)

text \<open>
  C12: no deadlock in the boost pool.  Whenever some client is inside \<open>execute\<close>, a query,
  \<open>terminate\<close> or the destructor, asleep or not, some client or worker can take a step: a
  client asleep in \<open>execute\<close> may always time out, and no thread waits for a lock whose owner
  waits for it.
\<close>
theorem bpool_no_deadlock:
  assumes "reach bpool_step (bpool_construct_stack n stack m) p"
    and "j < length (bp_clients p)" and "\<And>r. bp_clients p ! j \<noteq> B_outside r"
  shows "\<exists>q. (\<exists>i k b. bpool_step p (BL_client i k b) = Some q) \<or>
    (\<exists>i e k. bpool_step p (BL_worker i e k) = Some q)"
  using binside_can_step [OF bpool_reach_inv [OF assms(1)] assms(2,3)]
  unfolding bcan_step_def by blast

theorem bpool_no_deadlock_witness:
  "\<exists>q. (\<exists>i k b. bpool_step (bclient_call 0 Bdo_destroy bt_state) (BL_client i k b) = Some q) \<or>
     (\<exists>i e k. bpool_step (bclient_call 0 Bdo_destroy bt_state) (BL_worker i e k) = Some q)"
proof -
  have "bpool_step bt_state (BL_call 0 Bdo_destroy) = Some (bclient_call 0 Bdo_destroy bt_state)"
    by (simp add: bpool_step_def bcall_allowed_def bt_state_def)
  from reach_step [of bpool_step, OF bt_reached this] show ?thesis
    by (rule bpool_no_deadlock [where j = 0])
      (simp_all add: bclient_call_def bpool_upd bt_state_def)
qed

section \<open>Termination\<close>

text \<open>
  \<open>terminate\<close> of the boost pool does not wait.  In the run of the statement it returns
  while the only worker is inside a task.  The task ends, the worker leaves its loop, and before
  its thread is marked as finished a client submits a second task: \<open>execute\<close> returns as if it
  had succeeded, and the task stays in the slot of a worker that has ended, neither run nor
  deleted.
\<close>
theorem bpool_terminate_no_wait:
  "run_steps bpool_step (bpool_construct 1 2) bt_run = Some bt_state \<and>
   bp_clients bt_state ! 1 = B_outside None \<and> bm_pc (bp_tasks bt_state ! 0) = V_run \<and>
   (\<exists>ls p. run_steps bpool_step bt_state ls = Some p \<and> BL_call 0 (Bdo_execute (Some 2)) \<in> set ls \<and>
      bp_clients p = [B_outside None, B_outside None] \<and> bp_started p = {#1#} \<and>
      bp_discarded p = {#} \<and> bm_task (bp_tasks p ! 0) = Some 2 \<and>
      bm_pc (bp_tasks p ! 0) = V_done)"
proof (intro conjI exI)
  show "run_steps bpool_step (bpool_construct 1 2) bt_run = Some bt_state"
    using bt_run by (simp add: bt_start_def)
  let ?m = "\<lparr>bm_sync = \<lparr>b_owner = None, b_signal = True, b_cond = []\<rparr>, bm_status = FINISHED,
      bm_stack = default_stacksize, bm_task = Some 2, bm_go = False, bm_pc = V_done\<rparr>"
  show "run_steps bpool_step bt_state
      (replicate 4 (BL_worker 0 Run_returns 0) @ BL_call 0 (Bdo_execute (Some 2)) #
       replicate 4 (BL_client 0 0 False) @ [BL_worker 0 Run_returns 0]) =
    Some (bt_state\<lparr>bp_tasks := [?m], bp_finished := {#1#}, bp_submitted := {#1, 2#}\<rparr>)"
    by (simp add: bt_state_def bt_manager_def numeral_eq_Suc brun_eval)
qed (simp_all add: bt_state_def bt_manager_def)

text \<open>No thread of the pool runs any more, and the client \<open>j\<close> is in \<open>execute\<close>.\<close>
fun execute_idle :: "bclient_pc \<Rightarrow> bool" where
  "execute_idle (B_execute t BX_enter) = True"
| "execute_idle (B_execute t (BX_scan i)) = True"
| "execute_idle (B_execute t BX_wait) = True"
| "execute_idle (B_execute t BX_asleep) = True"
| "execute_idle _ = False"

definition bno_worker :: "bpool \<Rightarrow> bool" where
  "bno_worker p \<longleftrightarrow> (\<forall>i < length (bp_tasks p). bm_status (bp_tasks p ! i) \<noteq> RUNNING)"

definition bwaits_for_good :: "nat \<Rightarrow> bpool \<Rightarrow> bool" where
  "bwaits_for_good j p \<longleftrightarrow> bpool_inv p \<and> bno_worker p \<and> j < length (bp_clients p) \<and>
     execute_idle (bp_clients p ! j)"

text \<open>No operation brings a worker back to life.\<close>
lemma bno_worker_update:
  "bno_worker p \<Longrightarrow> i < length (bp_tasks p) \<Longrightarrow>
   (bm_status tm = RUNNING \<Longrightarrow> bm_status (bp_tasks p ! i) = RUNNING) \<Longrightarrow>
   bp_tasks p' = (bp_tasks p)[i := tm] \<Longrightarrow> bno_worker p'"
  by (auto simp: bno_worker_def nth_list_update)

lemma bclient_step_no_worker:
  assumes inv: "bpool_inv p" and i: "i < length (bp_clients p)"
    and none: "bno_worker p" and step: "bclient_step i k b p = Some p'"
  shows "bno_worker p'"
proof (cases "bp_clients p ! i")
  case (B_execute t x)
  show ?thesis
  proof (cases x)
    case (BX_try n)
    then have n: "n < length (bp_tasks p)"
      using bpool_invD(4) [OF inv i] B_execute by (simp add: bclient_ok_def)
    note other = bmanager_not_client [OF bpool_invD(1) [OF inv] n, of i]
    from bm_try_set_no_throw [OF other] obtain c tm where
      tried: "bm_try_set k (Client i) t (bp_tasks p ! n) = Returns (c, tm)" by (metis surj_pair)
    then have "bm_status tm = bm_status (bp_tasks p ! n)"
      using bm_try_set_Returns_iff [OF other, of k t c tm] by simp
    moreover have "bp_tasks p' = (bp_tasks p)[n := tm]"
      using step tried B_execute BX_try
      by (cases c) (auto simp: bclient_step_def bexecute_step_def bclient_return_def)
    ultimately show ?thesis using bno_worker_update [OF none n] by metis
  qed (use none step B_execute in \<open>auto simp: bclient_step_def bexecute_step_def bclient_enter_def bno_worker_def
      split: outcome.splits if_splits option.splits\<close>)
next
  case (B_query q x)
  then show ?thesis
    using none step by (cases q; cases x) (auto simp: bclient_step_def bis_idle_step_def
        bis_busy_step_def bno_worker_def bclient_enter_def bclient_return_def split: outcome.splits if_splits)
next
  case (B_terminate x)
  then show ?thesis
    using none step by (cases x) (auto simp: bclient_step_def bterminate_step_def bclient_enter_def
        bclient_return_def bm_stop_def bno_worker_def nth_list_update split: outcome.splits if_splits)
next
  case (B_destroy x)
  have "\<And>n. x = BD_join n \<Longrightarrow> n < length (bp_tasks p)"
    using bpool_invD(4) [OF inv i] B_destroy by (simp add: bclient_ok_def)
  then show ?thesis
    using none B_destroy step by (cases x) (auto simp: bclient_step_def bdestroy_step_def
        bno_worker_def nth_list_update
        bm_destroy_begin_Returns_iff bm_destroy_join_Returns_iff split: outcome.splits if_splits)
qed (use step in \<open>auto simp: bclient_step_def\<close>)

lemma bno_worker_step:
  assumes inv: "bpool_inv p" and none: "bno_worker p" and step: "bpool_step p l = Some p'"
  shows "bno_worker p'"
proof (cases l)
  case (BL_client j k b)
  then have j: "j < length (bp_clients p)" and "bclient_step j k b p = Some p'"
    using step by (auto simp: bpool_step_def split: if_splits)
  then show ?thesis using bclient_step_no_worker [OF inv _ none] by blast
next
  case (BL_worker i e k)
  then obtain tm ev p1 where i: "i < length (bp_tasks p)"
    and w: "bworker_step (Worker i) e (bp_tasks p ! i) = Some (tm, ev)"
    and p1: "(if ev = Ev_idle then bidle_notification i k p else Some p) = Some p1"
    and p': "p' = brecord_event ev (set_bmanager i tm p1)"
    using bworker_labelE [OF step [unfolded BL_worker]] by blast
  have "bp_tasks p1 = bp_tasks p"
    using p1 bidle_notification_shape by (fastforce split: if_splits)
  moreover have "bm_status tm = RUNNING \<Longrightarrow> bm_status (bp_tasks p ! i) = RUNNING"
    using bworker_step_go [OF bmanagers_ok_nth [OF bpool_invD(1) [OF inv] i] w] by simp
  ultimately show ?thesis
    using p' by (intro bno_worker_update [OF none i]) (auto simp: brecord_event_def)
next
  case (BL_worker_spurious i)
  then show ?thesis
    using step none by (auto simp: bpool_step_def bworker_spurious_def bno_worker_def
        nth_list_update split: if_splits)
qed (use step none in \<open>auto simp: bpool_step_def bclient_call_def bno_worker_def
    split: if_splits bpool_call.splits\<close>)

text \<open>A step of the client \<open>i\<close> changes the location of no other client.\<close>
lemma bclient_step_others:
  "bclient_step i k b p = Some p' \<Longrightarrow> j \<noteq> i \<Longrightarrow> bp_clients p' ! j = bp_clients p ! j"
  by (auto simp: bclient_step_def bexecute_step_def bis_idle_step_def bis_busy_step_def
      bterminate_step_def bdestroy_step_def bclient_enter_def bclient_return_def
      split: bclient_pc.splits bexecute_pc.splits query.splits bquery_pc.splits bterm_pc.splits
        bdestroy_pc.splits outcome.splits bool.splits prod.splits option.splits if_splits)

lemma bclient_step_length:
  "bclient_step i k b p = Some p' \<Longrightarrow> length (bp_clients p') = length (bp_clients p)"
  by (auto simp: bclient_step_def bexecute_step_def bis_idle_step_def bis_busy_step_def
      bterminate_step_def bdestroy_step_def bclient_enter_def bclient_return_def
      split: bclient_pc.splits bexecute_pc.splits query.splits bquery_pc.splits bterm_pc.splits
        bdestroy_pc.splits outcome.splits bool.splits prod.splits option.splits if_splits)

lemma bexecute_idle_step:
  assumes inv: "bpool_inv p" and none: "bno_worker p" and j: "j < length (bp_clients p)"
    and idle: "execute_idle (bp_clients p ! j)" and step: "bclient_step j k b p = Some p'"
  shows "execute_idle (bp_clients p' ! j)"
proof -
  obtain t x where pc: "bp_clients p ! j = B_execute t x"
    using idle by (cases "bp_clients p ! j") auto
  note ok = bclient_owner [OF inv j]
  show ?thesis
  proof (cases x)
    case BX_enter
    then have "b_owner (bp_sync p) \<noteq> Some (Client j)" using ok pc by simp
    then show ?thesis
      using step pc BX_enter j by (auto simp: bclient_step_def bexecute_step_def bclient_enter_def
          split: outcome.splits)
  next
    case (BX_scan i)
    then show ?thesis
      using step pc j none by (auto simp: bclient_step_def bexecute_step_def bno_worker_def
          bm_is_idle_def split: if_splits)
  next
    case BX_wait
    then show ?thesis
      using step pc j ok by (auto simp: bclient_step_def bexecute_step_def b_wait_def
          b_locked_by_def b_wait_turn_def Let_def split: outcome.splits if_splits)
  next
    case BX_asleep
    then show ?thesis
      using step pc j by (auto simp: bclient_step_def bexecute_step_def b_wake_for_def
          split: outcome.splits if_splits option.splits prod.splits)
  qed (use idle pc in auto)
qed

lemma bwaits_step:
  assumes w: "bwaits_for_good j p" and step: "bpool_step p l = Some p'"
  shows "bwaits_for_good j p'"
proof -
  note inv = w [unfolded bwaits_for_good_def, THEN conjunct1]
  have none: "bno_worker p" and j: "j < length (bp_clients p)"
    and idle: "execute_idle (bp_clients p ! j)"
    using w by (simp_all add: bwaits_for_good_def)
  have "j < length (bp_clients p') \<and> execute_idle (bp_clients p' ! j)"
  proof (cases l)
    case (BL_call i c)
    then have "bcall_allowed i c p" and p': "p' = bclient_call i c p"
      using step by (auto simp: bpool_step_def split: if_splits)
    then have "i \<noteq> j" using idle by (auto simp: bcall_allowed_def split: bclient_pc.splits)
    then show ?thesis
      using p' j idle by (cases c) (auto simp: bclient_call_def)
  next
    case (BL_client i k b)
    then have i: "bclient_step i k b p = Some p'"
      using step by (auto simp: bpool_step_def split: if_splits)
    show ?thesis
      using bexecute_idle_step [OF inv none j idle, of k b p'] bclient_step_others [OF i, of j]
        bclient_step_length [OF i] i j idle by (cases "i = j") auto
  next
    case (BL_worker i e k)
    then obtain tm ev p1 where
      p1: "(if ev = Ev_idle then bidle_notification i k p else Some p) = Some p1"
      and p': "p' = brecord_event ev (set_bmanager i tm p1)"
      using bworker_labelE [OF step [unfolded BL_worker]] by blast
    have "bp_clients p1 = bp_clients p"
      using p1 bidle_notification_shape by (fastforce split: if_splits)
    then show ?thesis using p' j idle by (simp add: brecord_event_def)
  qed (use step j idle in \<open>auto simp: bpool_step_def split: if_splits\<close>)
  then show ?thesis
    using bpool_inv_step [OF inv step] bno_worker_step [OF inv none step]
    by (simp add: bwaits_for_good_def)
qed

interpretation bpool_ended: step_invariant bpool_step "bwaits_for_good j"
  by unfold_locales (rule bwaits_step)

text \<open>
  Once the workers of a boost pool have ended, \<open>execute\<close> never returns.  From any reachable
  state in which no worker is marked as running, a client that has entered \<open>execute\<close> and has
  not picked a worker yet is still in it in every later state, whatever any thread does and
  however often its waits time out.
\<close>
theorem bpool_execute_never_returns:
  assumes "reach bpool_step (bpool_construct_stack n stack m) p"
    and "\<And>i. i < length (bp_tasks p) \<Longrightarrow> bm_status (bp_tasks p ! i) \<noteq> RUNNING"
    and "j < length (bp_clients p)" and "execute_idle (bp_clients p ! j)"
    and "reach bpool_step p p'"
  shows "execute_idle (bp_clients p' ! j) \<and> (\<forall>r. bp_clients p' ! j \<noteq> B_outside r)"
proof -
  have "bwaits_for_good j p"
    using assms(2-4) bpool_reach_inv [OF assms(1)] by (simp add: bwaits_for_good_def bno_worker_def)
  from bpool_ended.inv_reach [OF assms(5) this] show ?thesis
    by (auto simp: bwaits_for_good_def)
qed

text \<open>The pool of the run above after its worker has ended, and a call of \<open>execute\<close> then.\<close>
definition bended_state :: bpool where
  "bended_state =
     bt_state\<lparr>bp_tasks := [\<lparr>bm_sync = \<lparr>b_owner = None, b_signal = True, b_cond = []\<rparr>,
       bm_status = FINISHED, bm_stack = default_stacksize, bm_task = None, bm_go = False,
       bm_pc = V_done\<rparr>], bp_finished := {#1#}, bp_submitted := {#1, 2#},
       bp_clients := [B_execute (Some 2) BX_enter, B_outside None]\<rparr>"

lemma bended_run:
  "run_steps bpool_step bt_state
     (replicate 5 (BL_worker 0 Run_returns 0) @ [BL_call 0 (Bdo_execute (Some 2))]) =
   Some bended_state"
  by (simp add: bt_state_def bended_state_def bt_manager_def numeral_eq_Suc brun_eval)

theorem bpool_execute_never_returns_witness:
  "\<exists>p. run_steps bpool_step bended_state
     (replicate 4 (BL_client 0 0 False) @ [BL_client 0 0 True]) = Some p \<and>
   execute_idle (bp_clients p ! 0)"
proof -
  obtain p where p: "run_steps bpool_step bended_state
     (replicate 4 (BL_client 0 0 False) @ [BL_client 0 0 True]) = Some p"
    by (simp add: bt_state_def bended_state_def numeral_eq_Suc brun_eval b_wait_def
        b_wake_for_def)
  have "reach bpool_step (bpool_construct_stack 1 default_stacksize 2) bended_state"
    using reach_trans [OF run_steps_reach [OF bended_run] bt_reached] .
  from bpool_execute_never_returns [OF this _ _ _ run_steps_reach [OF p], of 0]
  have "execute_idle (bp_clients p ! 0)"
    by (simp add: bended_state_def bt_state_def)
  with p show ?thesis by blast
qed

end
