(* ===== verification/Boost_Thread.thy ===== *)
theory Boost_Thread
  imports Posix_Thread
begin

text \<open>
  The class \<open>Thread\<close> of the boost variant, \<open>threadpool.cpp\<close> and \<open>threadpool.hpp\<close>, as it is
  built without \<open>POSIX_THREADS\<close>.  A thread object and the system thread made for it run
  concurrently: \<open>start\<close> first creates the system thread and then writes the status, and
  \<open>thread_starter\<close> writes the status too.  The fields \<open>bt_starter\<close> and \<open>bt_owner\<close> say where the
  two are; \<open>bt_created\<close> and \<open>bt_joined\<close> count system threads.  What \<open>boost::thread\<close> answers is
  an argument; the lock of the object itself, which \<open>thread_starter\<close> takes for the time of
  one assignment, is taken by nobody else in the library.
\<close>

section \<open>Status and life cycle\<close>

text \<open>\<open>ST_absent\<close>: there is no system thread.\<close>
datatype starter_pc = ST_absent | ST_register | ST_run | ST_finish | ST_ended

text \<open>\<open>OW_created\<close>: inside \<open>start\<close>, before the status is written.\<close>
datatype owner_pc = OW_ready | OW_created

record bthread =
  bt_status :: thread_status
  bt_runnable :: "nat option"
  bt_stack :: nat
  bt_starter :: starter_pc
  bt_owner :: owner_pc
  bt_created :: nat
  bt_joined :: nat

text \<open>\<open>Thread()\<close>: the thread is its own \<open>Runnable\<close>.\<close>
definition bthread_new :: bthread where
  "bthread_new =
     \<lparr>bt_status = IDLE, bt_runnable = None, bt_stack = default_stacksize,
      bt_starter = ST_absent, bt_owner = OW_ready, bt_created = 0, bt_joined = 0\<rparr>"

text \<open>\<open>Thread(Runnable*)\<close>\<close>
definition bthread_new_for :: "nat \<Rightarrow> bthread" where
  "bthread_new_for r = bthread_new\<lparr>bt_runnable := Some r\<rparr>"

definition bthread_set_stack :: "nat \<Rightarrow> bthread \<Rightarrow> bthread" where
  "bthread_set_stack s th = th\<lparr>bt_stack := s\<rparr>"

definition bthread_is_alive :: "bthread \<Rightarrow> bool" where
  "bthread_is_alive th \<longleftrightarrow> bt_status th = RUNNING"

text \<open>\<open>clone\<close> hands out the \<open>Runnable\<close> of the thread itself.\<close>
definition bthread_clone :: "bthread \<Rightarrow> nat option outcome" where
  "bthread_clone th =
     (if bt_status th = RUNNING then Throws ''assertion'' else Returns (bt_runnable th))"

text \<open>\<open>start\<close> up to the creation of the thread, which may throw.\<close>
definition bthread_start :: "bool \<Rightarrow> bthread \<Rightarrow> bthread outcome" where
  "bthread_start granted th =
     (if bt_status th = IDLE
      then (if granted
            then Returns (th\<lparr>bt_starter := ST_register, bt_owner := OW_created,
                             bt_created := bt_created th + 1\<rparr>)
            else Throws ''thread_resource_error'')
      else Returns th)"

text \<open>The rest of \<open>start\<close>.\<close>
definition bthread_mark :: "bthread \<Rightarrow> bthread" where
  "bthread_mark th = th\<lparr>bt_status := RUNNING, bt_owner := OW_ready\<rparr>"

definition bthread_starter_step :: "run_end \<Rightarrow> bthread \<Rightarrow> bthread option" where
  "bthread_starter_step e th =
     (case bt_starter th of
        ST_absent \<Rightarrow> None
      | ST_register \<Rightarrow> Some (th\<lparr>bt_starter := ST_run\<rparr>)
      | ST_run \<Rightarrow>
          (case e of
             Run_returns \<Rightarrow> Some (th\<lparr>bt_starter := ST_finish\<rparr>)
           | Run_throws_std \<Rightarrow> Some (th\<lparr>bt_starter := ST_finish\<rparr>)
           | Run_throws_other \<Rightarrow> Some (th\<lparr>bt_starter := ST_finish\<rparr>))
      | ST_finish \<Rightarrow> Some (th\<lparr>bt_status := FINISHED, bt_starter := ST_ended\<rparr>)
      | ST_ended \<Rightarrow> None)"

definition bthread_join :: "bthread \<Rightarrow> bthread outcome" where
  "bthread_join th =
     (if bt_status th \<noteq> IDLE
      then (if bt_starter th = ST_ended
            then Returns (th\<lparr>bt_status := IDLE, bt_starter := ST_absent,
                             bt_joined := bt_joined th + 1\<rparr>)
            else Blocked)
      else Returns th)"

text \<open>\<open>~Thread\<close>\<close>
definition bthread_destroy :: "bthread \<Rightarrow> bthread outcome" where
  "bthread_destroy th = (if bt_status th \<noteq> IDLE then bthread_join th else Returns th)"

section \<open>Sleeping\<close>

text \<open>The nanoseconds \<open>boost::this_thread::sleep_for\<close> is called with.\<close>
definition bnsleep_ns :: "int \<Rightarrow> int \<Rightarrow> int" where
  "bnsleep_ns secs nanos = secs * 1000000000 + nanos"

definition bsleep_ns :: "int \<Rightarrow> int" where
  "bsleep_ns millis = millis * 1000000"

definition bsleep_nanos_ns :: "int \<Rightarrow> int \<Rightarrow> int" where
  "bsleep_nanos_ns millis nanos =
     bnsleep_ns (millis sdiv 1000) ((millis smod 1000) * 1000000 + nanos)"

section \<open>Executions\<close>

text \<open>The owner calls \<open>start\<close>, \<open>join\<close> and \<open>set_stack_size\<close> one after the other.\<close>
datatype bthread_label = Th_start bool | Th_mark | Th_join | Th_stack nat | Th_starter run_end

fun bthread_step :: "bthread \<Rightarrow> bthread_label \<Rightarrow> bthread option" where
  "bthread_step th (Th_start granted) =
     (if bt_owner th = OW_ready
      then (case bthread_start granted th of Returns th' \<Rightarrow> Some th' | _ \<Rightarrow> Some th) else None)"
| "bthread_step th Th_mark = (if bt_owner th = OW_created then Some (bthread_mark th) else None)"
| "bthread_step th Th_join =
     (if bt_owner th = OW_ready
      then (case bthread_join th of Returns th' \<Rightarrow> Some th' | _ \<Rightarrow> None) else None)"
| "bthread_step th (Th_stack n) = Some (bthread_set_stack n th)"
| "bthread_step th (Th_starter e) = bthread_starter_step e th"

lemmas bthread_defs = bthread_new_def bthread_new_for_def bthread_set_stack_def
  bthread_is_alive_def bthread_start_def bthread_mark_def bthread_starter_step_def
  bthread_join_def bthread_destroy_def

definition bthread_inv :: "bthread \<Rightarrow> bool" where
  "bthread_inv th \<longleftrightarrow>
     bt_created th = bt_joined th + (if bt_starter th = ST_absent then 0 else 1) \<and>
     (bt_starter th = ST_absent \<longleftrightarrow> bt_status th = IDLE \<and> bt_owner th = OW_ready) \<and>
     (bt_status th = FINISHED \<longrightarrow> bt_starter th = ST_ended)"

lemma bthread_inv_step: "bthread_inv th \<Longrightarrow> bthread_step th l = Some th' \<Longrightarrow> bthread_inv th'"
  by (cases l)
    (auto simp: bthread_inv_def bthread_defs split: if_splits starter_pc.splits run_end.splits)

interpretation bthread_life: step_invariant bthread_step bthread_inv
  by unfold_locales (rule bthread_inv_step)

lemma bthread_inv_new: "bthread_inv (bthread_new_for r)"
  by (simp add: bthread_inv_def bthread_defs)

text \<open>The starter of a thread that is there can go to its end.\<close>
lemma bthread_can_end:
  assumes "bt_starter th \<noteq> ST_absent"
  shows "\<exists>th'. reach bthread_step th th' \<and> bt_starter th' = ST_ended \<and>
    bt_owner th' = bt_owner th \<and> bt_created th' = bt_created th \<and> bt_joined th' = bt_joined th \<and>
    (bt_status th' = FINISHED \<or> th' = th)"
proof -
  have finish: "reach bthread_step u (u\<lparr>bt_status := FINISHED, bt_starter := ST_ended\<rparr>)"
    if "bt_starter u = ST_finish" for u
    by (rule reach_one [where l = "Th_starter Run_returns"])
      (simp add: bthread_starter_step_def that)
  have run: "reach bthread_step u (u\<lparr>bt_status := FINISHED, bt_starter := ST_ended\<rparr>)"
    if "bt_starter u = ST_run" for u
  proof -
    have "reach bthread_step u (u\<lparr>bt_starter := ST_finish\<rparr>)"
      by (rule reach_one [where l = "Th_starter Run_returns"])
        (simp add: bthread_starter_step_def that)
    from reach_trans [OF finish this] show ?thesis by simp
  qed
  have register: "reach bthread_step u (u\<lparr>bt_status := FINISHED, bt_starter := ST_ended\<rparr>)"
    if "bt_starter u = ST_register" for u
  proof -
    have "reach bthread_step u (u\<lparr>bt_starter := ST_run\<rparr>)"
      by (rule reach_one [where l = "Th_starter Run_returns"])
        (simp add: bthread_starter_step_def that)
    from reach_trans [OF run this] show ?thesis by simp
  qed
  show ?thesis
  proof (cases "bt_starter th = ST_ended")
    case True
    then show ?thesis by (intro exI [of _ th]) simp
  next
    case False
    then have "reach bthread_step th (th\<lparr>bt_status := FINISHED, bt_starter := ST_ended\<rparr>)"
      using assms finish run register by (cases "bt_starter th") auto
    then show ?thesis
      by (intro exI [of _ "th\<lparr>bt_status := FINISHED, bt_starter := ST_ended\<rparr>"]) simp
  qed
qed

section \<open>Properties\<close>

text \<open>
  Every system thread is joined once.  However a thread object is started and joined and
  however its system thread and the owner interleave, at most one system thread is not joined,
  there is one exactly while the status is not \<open>IDLE\<close> or a \<open>start\<close> is under way, and from
  every state outside \<open>start\<close> the system thread can end so that the destructor returns with
  all threads joined.
\<close>
theorem bthread_joined_once:
  assumes "reach bthread_step (bthread_new_for r) th"
  shows "bt_created th - bt_joined th \<le> 1 \<and> bt_joined th \<le> bt_created th \<and>
    (bt_joined th < bt_created th \<longleftrightarrow> bt_status th \<noteq> IDLE \<or> bt_owner th = OW_created) \<and>
    (bt_owner th = OW_created \<or>
     (\<exists>th' th''. reach bthread_step th th' \<and> bthread_destroy th' = Returns th'' \<and>
        bt_status th'' = IDLE \<and> bt_created th'' = bt_joined th''))"
proof -
  have inv: "bthread_inv th" using bthread_life.inv_reach [OF assms bthread_inv_new] .
  have "\<exists>th' th''. reach bthread_step th th' \<and> bthread_destroy th' = Returns th'' \<and>
      bt_status th'' = IDLE \<and> bt_created th'' = bt_joined th''"
    if ready: "bt_owner th = OW_ready"
  proof (cases "bt_starter th = ST_absent")
    case True
    then show ?thesis
      using inv by (intro exI [of _ th]) (simp add: bthread_inv_def bthread_destroy_def)
  next
    case False
    from bthread_can_end [OF this] obtain th' where
      th': "reach bthread_step th th'" "bt_starter th' = ST_ended" "bt_created th' = bt_created th"
      "bt_joined th' = bt_joined th" "bt_status th' = FINISHED \<or> th' = th" by blast
    then have "bt_status th' \<noteq> IDLE"
      using inv False ready by (auto simp: bthread_inv_def)
    then show ?thesis
      using th' inv False
      by - (rule exI [of _ th'], simp add: bthread_destroy_def bthread_join_def bthread_inv_def)
  qed
  then show ?thesis
    using inv by (cases "bt_owner th") (auto simp: bthread_inv_def)
qed

theorem bthread_joined_once_witness:
  "bt_joined (the (run_steps bthread_step (bthread_new_for 7) [Th_start True, Th_mark])) < 1"
proof -
  have run: "run_steps bthread_step (bthread_new_for 7) [Th_start True, Th_mark] =
      Some ((bthread_new_for 7)\<lparr>bt_status := RUNNING, bt_starter := ST_register, bt_created := 1\<rparr>)"
    by (simp add: bthread_defs)
  from bthread_joined_once [OF run_steps_reach [OF run]] run show ?thesis
    by (simp add: bthread_defs)
qed

text \<open>
  \<open>is_alive\<close> can stay true for a thread that has ended.  \<open>start\<close> writes \<open>RUNNING\<close> after
  it has created the system thread, which may have ended and written \<open>FINISHED\<close> by then; no
  step other than \<open>join\<close> changes the answer afterwards, and \<open>join\<close> still returns.
\<close>
theorem bthread_alive_after_end:
  "\<exists>th. run_steps bthread_step (bthread_new_for r)
       ([Th_start True] @ replicate 3 (Th_starter e) @ [Th_mark]) = Some th \<and>
     bt_starter th = ST_ended \<and> bthread_is_alive th \<and>
     (\<forall>l th'. bthread_step th l = Some th' \<longrightarrow> l = Th_join \<or> bthread_is_alive th') \<and>
     (\<exists>th'. bthread_join th = Returns th' \<and> bt_status th' = IDLE)"
proof (intro exI conjI allI impI)
  let ?th = "(bthread_new_for r)\<lparr>bt_status := RUNNING, bt_starter := ST_ended, bt_created := 1\<rparr>"
  show "run_steps bthread_step (bthread_new_for r)
      ([Th_start True] @ replicate 3 (Th_starter e) @ [Th_mark]) = Some ?th"
    by (cases e) (simp_all add: bthread_defs numeral_eq_Suc)
  show "l = Th_join \<or> bthread_is_alive th'" if "bthread_step ?th l = Some th'" for l th'
    using that by (cases l) (auto simp: bthread_defs)
  show "bthread_join ?th = Returns (?th\<lparr>bt_status := IDLE, bt_starter := ST_absent, bt_joined := 1\<rparr>)"
    by (simp add: bthread_defs)
qed (simp_all add: bthread_defs)

theorem bthread_alive_after_end_witness:
  "\<exists>th. run_steps bthread_step (bthread_new_for 7)
       ([Th_start True] @ replicate 3 (Th_starter Run_returns) @ [Th_mark]) = Some th \<and>
     bthread_is_alive th \<and> bt_starter th = ST_ended"
  using bthread_alive_after_end [of 7 Run_returns] by blast

text \<open>
  A sleep of the boost variant takes the time it was given, for negative arguments too.
\<close>
theorem bsleep_exact: "bsleep_nanos_ns millis nanos = bsleep_ns millis + nanos"
proof -
  have "(millis sdiv 1000) * 1000 + millis smod 1000 = millis"
    by (rule sdiv_mult_smod_eq)
  then show ?thesis
    unfolding bsleep_nanos_ns_def bnsleep_ns_def bsleep_ns_def by (simp add: algebra_simps)
qed

end
