(* ===== verification/Boost_Queued.thy ===== *)
theory Boost_Queued
  imports Boost_Pool Boost_Thread
begin

text \<open>
  The class \<open>QueuedThreadPool\<close> of the boost variant, a layer over
  \<open>boost::basic_thread_pool\<close>.  That class is not part of the repository: its operations are
  the fields of an \<open>executor\<close>, an argument of every definition that uses them.  What the
  functions rely on is \<open>executor_contract\<close>: the documented behaviour of the closing flag, of the
  queue of closures and of \<open>try_executing_one\<close>, which runs one closure in the calling thread.
\<close>

section \<open>The executor\<close>

record 'e executor =
  ex_new :: "nat \<Rightarrow> 'e"
  ex_closed :: "'e \<Rightarrow> bool"
  ex_close :: "'e \<Rightarrow> 'e"
  ex_submit :: "task \<Rightarrow> 'e \<Rightarrow> 'e"
  ex_try_one :: "'e \<Rightarrow> bool \<times> 'e"

text \<open>
  The closures an executor still has, and those run in the thread that called
  \<open>try_executing_one\<close>.
\<close>
definition executor_contract ::
  "'e executor \<Rightarrow> ('e \<Rightarrow> task list) \<Rightarrow> ('e \<Rightarrow> task list) \<Rightarrow> bool" where
  "executor_contract X queued served \<longleftrightarrow>
     (\<forall>n. queued (ex_new X n) = [] \<and> served (ex_new X n) = [] \<and> \<not> ex_closed X (ex_new X n)) \<and>
     (\<forall>e. ex_closed X (ex_close X e) \<and> queued (ex_close X e) = queued e \<and>
          served (ex_close X e) = served e) \<and>
     (\<forall>t e. \<not> ex_closed X e \<longrightarrow> \<not> ex_closed X (ex_submit X t e) \<and>
          queued (ex_submit X t e) = queued e @ [t] \<and> served (ex_submit X t e) = served e) \<and>
     (\<forall>e. queued e = [] \<longrightarrow> ex_try_one X e = (False, e)) \<and>
     (\<forall>e t ts. queued e = t # ts \<longrightarrow>
          fst (ex_try_one X e) \<and> queued (snd (ex_try_one X e)) = ts \<and>
          served (snd (ex_try_one X e)) = served e @ [t] \<and>
          ex_closed X (snd (ex_try_one X e)) = ex_closed X e)"

section \<open>State and operations\<close>

text \<open>
  The base classes: a \<open>ThreadPool\<close> without threads and a \<open>Thread\<close> that is never started.
  \<open>bq_deleted\<close> is a ghost field: the tasks deleted without having been queued.
\<close>
record 'e bqpool =
  bq_base :: bpool
  bq_thread :: bthread
  bq_size :: nat
  bq_go :: bool
  bq_ea :: "'e option"
  bq_deleted :: "task list"

definition bq_stop :: "'e executor \<Rightarrow> 'e bqpool \<Rightarrow> 'e bqpool" where
  "bq_stop X q = q\<lparr>bq_go := False, bq_ea := map_option (ex_close X) (bq_ea q)\<rparr>"

definition bq_members :: "nat \<Rightarrow> nat \<Rightarrow> 'e bqpool" where
  "bq_members n_threads stack =
     \<lparr>bq_base = bpool_construct_stack 0 stack 1, bq_thread = bthread_new_for 0, bq_size = n_threads,
      bq_go = True, bq_ea = None, bq_deleted = []\<rparr>"

definition bq_construct_stack :: "'e executor \<Rightarrow> nat \<Rightarrow> nat \<Rightarrow> 'e bqpool" where
  "bq_construct_stack X n_threads stack =
     (let q = bq_members n_threads stack
      in if bq_size q = 0 then bq_stop X q else q\<lparr>bq_ea := Some (ex_new X (bq_size q))\<rparr>)"

definition bq_construct :: "'e executor \<Rightarrow> nat \<Rightarrow> 'e bqpool" where
  "bq_construct X n_threads =
     (let q = bq_members n_threads default_stacksize
      in if bq_size q = 0 then bq_stop X q else q\<lparr>bq_ea := Some (ex_new X (bq_size q))\<rparr>)"

text \<open>The destructor: \<open>stop\<close>, and \<open>terminate\<close> of the base.\<close>
definition bq_destroy :: "'e executor \<Rightarrow> 'e bqpool \<Rightarrow> 'e bqpool option" where
  "bq_destroy X q =
     map_option (\<lambda>b. (bq_stop X q)\<lparr>bq_base := b\<rparr>)
       (run_steps bpool_step (bq_base q)
          [BL_call 0 Bdo_terminate, BL_client 0 0 False, BL_client 0 0 False])"

definition bqpool_size :: "'e bqpool \<Rightarrow> nat" where
  "bqpool_size q = bq_size q"

definition bq_execute :: "'e executor \<Rightarrow> task \<Rightarrow> 'e bqpool \<Rightarrow> 'e bqpool" where
  "bq_execute X t q =
     (case bq_ea q of
        Some ea \<Rightarrow>
          (if \<not> ex_closed X ea then q\<lparr>bq_ea := Some (ex_submit X t ea)\<rparr>
           else q\<lparr>bq_deleted := bq_deleted q @ [t]\<rparr>)
      | None \<Rightarrow> q\<lparr>bq_deleted := bq_deleted q @ [t]\<rparr>)"

definition bq_is_idle :: "'e executor \<Rightarrow> 'e bqpool \<Rightarrow> bool \<times> 'e bqpool" where
  "bq_is_idle X q =
     (if bq_size q = 0 then (True, q)
      else case bq_ea q of
             None \<Rightarrow> (False, q)
           | Some ea \<Rightarrow>
               (if ex_closed X ea then (False, q)
                else (let (did, ea') = ex_try_one X ea in (\<not> did, q\<lparr>bq_ea := Some ea'\<rparr>))))"

definition bq_is_busy :: "'e executor \<Rightarrow> 'e bqpool \<Rightarrow> bool \<times> 'e bqpool" where
  "bq_is_busy X q =
     (if bq_size q = 0 then (True, q)
      else case bq_ea q of
             None \<Rightarrow> (False, q)
           | Some ea \<Rightarrow>
               (if ex_closed X ea then (True, q)
                else (let (did, ea') = ex_try_one X ea in (did, q\<lparr>bq_ea := Some ea'\<rparr>))))"

definition bq_queue_length :: "'e executor \<Rightarrow> 'e bqpool \<Rightarrow> nat \<times> 'e bqpool" where
  "bq_queue_length X q = (let (busy, q') = bq_is_busy X q in (if busy then 1 else 0, q'))"

definition bq_terminate :: "'e executor \<Rightarrow> 'e bqpool \<Rightarrow> 'e bqpool" where
  "bq_terminate X q = bq_stop X q"

section \<open>An executor without threads of its own\<close>

text \<open>The contract has a model: a queue, the closures run, and the closing flag.\<close>
type_synonym list_executor = "task list \<times> task list \<times> bool"

definition list_exec :: "list_executor executor" where
  "list_exec =
     \<lparr>ex_new = (\<lambda>n. ([], [], False)), ex_closed = (\<lambda>(ts, rs, c). c),
      ex_close = (\<lambda>(ts, rs, c). (ts, rs, True)),
      ex_submit = (\<lambda>t (ts, rs, c). (ts @ [t], rs, c)),
      ex_try_one = (\<lambda>(ts, rs, c). case ts of [] \<Rightarrow> (False, (ts, rs, c))
                                  | t # us \<Rightarrow> (True, (us, rs @ [t], c)))\<rparr>"

lemma list_exec_contract: "executor_contract list_exec fst (\<lambda>(ts, rs, c). rs)"
  by (auto simp: executor_contract_def list_exec_def)

section \<open>Properties\<close>

lemma executor_contractD:
  assumes "executor_contract X queued served"
  shows "ex_closed X (ex_close X e)" and "queued (ex_new X n) = []" and "served (ex_new X n) = []"
    and "\<not> ex_closed X (ex_new X n)"
    and "\<not> ex_closed X e \<Longrightarrow> \<not> ex_closed X (ex_submit X t e)"
    and "\<not> ex_closed X e \<Longrightarrow> queued (ex_submit X t e) = queued e @ [t]"
    and "\<not> ex_closed X e \<Longrightarrow> served (ex_submit X t e) = served e"
    and "queued e = [] \<Longrightarrow> ex_try_one X e = (False, e)"
    and "queued e = t # ts \<Longrightarrow> \<exists>e'. ex_try_one X e = (True, e') \<and> queued e' = ts \<and>
           served e' = served e @ [t] \<and> ex_closed X e' = ex_closed X e"
proof -
  show "\<exists>e'. ex_try_one X e = (True, e') \<and> queued e' = ts \<and> served e' = served e @ [t] \<and>
      ex_closed X e' = ex_closed X e" if "queued e = t # ts"
    using assms that by (intro exI [of _ "snd (ex_try_one X e)"])
      (auto simp: executor_contract_def prod_eq_iff)
qed (use assms in \<open>auto simp: executor_contract_def\<close>)

text \<open>\<open>k\<close> calls of \<open>queue_length\<close>: the sum of the answers.\<close>
fun bq_ask :: "'e executor \<Rightarrow> nat \<Rightarrow> 'e bqpool \<Rightarrow> nat \<times> 'e bqpool" where
  "bq_ask X 0 q = (0, q)"
| "bq_ask X (Suc k) q =
     (let (a, q1) = bq_queue_length X q; (b, q2) = bq_ask X k q1 in (a + b, q2))"

text \<open>\<open>execute\<close> of a list of tasks.\<close>
definition bq_execute_all :: "'e executor \<Rightarrow> task list \<Rightarrow> 'e bqpool \<Rightarrow> 'e bqpool" where
  "bq_execute_all X ts q = foldl (\<lambda>q t. bq_execute X t q) q ts"

lemma bq_execute_all_open:
  "executor_contract X queued served \<Longrightarrow> bq_ea q = Some e \<Longrightarrow> \<not> ex_closed X e \<Longrightarrow>
   \<exists>e'. bq_execute_all X ts q = q\<lparr>bq_ea := Some e'\<rparr> \<and> \<not> ex_closed X e' \<and>
     queued e' = queued e @ ts \<and> served e' = served e"
proof (induction ts arbitrary: q e)
  case Nil
  then show ?case by (intro exI [of _ e]) (simp add: bq_execute_all_def)
next
  case (Cons t ts)
  note D = executor_contractD [OF Cons.prems(1)]
  let ?q = "q\<lparr>bq_ea := Some (ex_submit X t e)\<rparr>"
  have "bq_execute_all X (t # ts) q = bq_execute_all X ts ?q"
    using Cons.prems by (simp add: bq_execute_all_def bq_execute_def)
  moreover from Cons.IH [OF Cons.prems(1), of ?q "ex_submit X t e"] Cons.prems(3)
  obtain e' where "bq_execute_all X ts ?q = ?q\<lparr>bq_ea := Some e'\<rparr>" "\<not> ex_closed X e'"
    "queued e' = (queued e @ [t]) @ ts" "served e' = served e"
    using D(5-7) by auto
  ultimately show ?case by (intro exI [of _ e']) simp
qed

lemma bq_ask_drains:
  "executor_contract X queued served \<Longrightarrow> bq_size q \<noteq> 0 \<Longrightarrow> bq_ea q = Some e \<Longrightarrow>
   \<not> ex_closed X e \<Longrightarrow> queued e = ts \<Longrightarrow>
   \<exists>e'. bq_ask X (length ts) q = (length ts, q\<lparr>bq_ea := Some e'\<rparr>) \<and> queued e' = [] \<and>
     served e' = served e @ ts \<and> \<not> ex_closed X e'"
proof (induction ts arbitrary: q e)
  case Nil
  then show ?case by (intro exI [of _ e]) simp
next
  case (Cons t ts)
  from executor_contractD(9) [OF Cons.prems(1,5)] obtain e1 where
    e1: "ex_try_one X e = (True, e1)" "queued e1 = ts" "served e1 = served e @ [t]" "\<not> ex_closed X e1"
    using Cons.prems(4) by auto
  then have one: "bq_queue_length X q = (1, q\<lparr>bq_ea := Some e1\<rparr>)"
    using Cons.prems by (simp add: bq_queue_length_def bq_is_busy_def)
  from Cons.IH [OF Cons.prems(1), of "q\<lparr>bq_ea := Some e1\<rparr>" e1] Cons.prems(2) e1
  obtain e' where "bq_ask X (length ts) (q\<lparr>bq_ea := Some e1\<rparr>) =
      (length ts, q\<lparr>bq_ea := Some e'\<rparr>)" "queued e' = []" "served e' = served e1 @ ts"
      "\<not> ex_closed X e'" by auto
  then show ?case using one e1 by (intro exI [of _ e']) simp
qed

text \<open>
  Asking for the length of the queue runs the queue.  In an open pool of the boost variant
  \<open>queue_length\<close> answers 1 or 0 whatever the number of queued tasks, and each answer 1 has
  taken the first task from the queue and run it in the calling thread: after submitting \<open>n\<close>
  tasks, \<open>n\<close> questions have run them all in the order of their submission, and the next
  answer is 0.
\<close>
theorem bqueue_length_runs_tasks:
  assumes "executor_contract X queued served" and "0 < n_threads"
  shows "\<exists>e'. bq_ask X (length ts) (bq_execute_all X ts (bq_construct_stack X n_threads stack)) =
      (length ts, (bq_construct_stack X n_threads stack)\<lparr>bq_ea := Some e'\<rparr>) \<and>
    queued e' = [] \<and> served e' = ts \<and>
    bq_queue_length X ((bq_construct_stack X n_threads stack)\<lparr>bq_ea := Some e'\<rparr>) =
      (0, (bq_construct_stack X n_threads stack)\<lparr>bq_ea := Some e'\<rparr>)"
proof -
  let ?q = "bq_construct_stack X n_threads stack"
  note D = executor_contractD [OF assms(1)]
  have q: "bq_ea ?q = Some (ex_new X n_threads)" "bq_size ?q \<noteq> 0"
    using assms(2) by (simp_all add: bq_construct_stack_def bq_members_def)
  from bq_execute_all_open [OF assms(1) q(1) D(4), of ts] obtain e where
    e: "bq_execute_all X ts ?q = ?q\<lparr>bq_ea := Some e\<rparr>" "\<not> ex_closed X e" "queued e = ts"
       "served e = []" by (auto simp: D)
  from bq_ask_drains [OF assms(1), of "?q\<lparr>bq_ea := Some e\<rparr>" e ts] e q(2)
  obtain e' where e': "bq_ask X (length ts) (?q\<lparr>bq_ea := Some e\<rparr>) =
      (length ts, ?q\<lparr>bq_ea := Some e'\<rparr>)" "queued e' = []" "served e' = ts" "\<not> ex_closed X e'"
    by auto
  then have "bq_queue_length X (?q\<lparr>bq_ea := Some e'\<rparr>) = (0, ?q\<lparr>bq_ea := Some e'\<rparr>)"
    using q(2) D(8) by (simp add: bq_queue_length_def bq_is_busy_def)
  then show ?thesis using e e' by auto
qed

theorem bqueue_length_runs_tasks_witness:
  "\<exists>e'. bq_ask list_exec 2 (bq_execute_all list_exec [5, 6] (bq_construct_stack list_exec 4 4096)) =
     (2, (bq_construct_stack list_exec 4 4096)\<lparr>bq_ea := Some e'\<rparr>) \<and> fst (snd e') = [5, 6]"
proof -
  have "(0::nat) < 4" by simp
  from bqueue_length_runs_tasks [OF list_exec_contract this, of "[5, 6]" 4096]
  show ?thesis by (auto simp: numeral_2_eq_2 split_def)
qed

text \<open>
  A stopped pool of the boost variant is never idle again.  After \<open>terminate\<close> a pool with
  threads answers \<open>is_idle\<close> with false, \<open>is_busy\<close> with true and \<open>queue_length\<close> with 1, even
  when it has nothing to do, and every task submitted is deleted without running; a pool made
  with no thread answers true to both questions and deletes every task from the start.
\<close>
theorem bqpool_stopped:
  assumes "executor_contract X queued served" and "0 < n_threads"
  defines "q \<equiv> bq_terminate X (bq_construct X n_threads)"
  defines "z \<equiv> bq_construct X 0"
  shows "bq_is_idle X (bq_execute_all X ts q) = (False, q\<lparr>bq_deleted := ts\<rparr>) \<and>
    bq_is_busy X (bq_execute_all X ts q) = (True, q\<lparr>bq_deleted := ts\<rparr>) \<and>
    bq_queue_length X (bq_execute_all X ts q) = (1, q\<lparr>bq_deleted := ts\<rparr>) \<and>
    bq_is_idle X (bq_execute_all X ts z) = (True, z\<lparr>bq_deleted := ts\<rparr>) \<and>
    bq_is_busy X (bq_execute_all X ts z) = (True, z\<lparr>bq_deleted := ts\<rparr>)"
proof -
  have deleted: "bq_execute_all X us p = p\<lparr>bq_deleted := bq_deleted p @ us\<rparr>"
    if "bq_ea p = None \<or> (\<exists>e. bq_ea p = Some e \<and> ex_closed X e)" for us and p :: "'a bqpool"
    using that
    by (induction us arbitrary: p) (auto simp: bq_execute_all_def bq_execute_def)
  have q: "bq_ea q = Some (ex_close X (ex_new X n_threads))" "bq_deleted q = []" "bq_size q = n_threads"
    using assms(2) by (simp_all add: q_def bq_terminate_def bq_stop_def bq_construct_def
        bq_members_def)
  have z: "bq_ea z = None" "bq_deleted z = []" "bq_size z = 0"
    by (simp_all add: z_def bq_stop_def bq_construct_def bq_members_def)
  note D = executor_contractD(1) [OF assms(1)]
  have "bq_execute_all X ts q = q\<lparr>bq_deleted := ts\<rparr>" "bq_execute_all X ts z = z\<lparr>bq_deleted := ts\<rparr>"
    using deleted [of q ts] deleted [of z ts] q z D by simp_all
  then show ?thesis
    using q z D assms(2) by (simp add: bq_is_idle_def bq_is_busy_def bq_queue_length_def)
qed

theorem bqpool_stopped_witness:
  "fst (bq_is_idle list_exec (bq_execute_all list_exec [] (bq_terminate list_exec
     (bq_construct list_exec 1)))) = False \<and>
   fst (bq_is_idle list_exec (bq_execute_all list_exec [3] (bq_construct list_exec 0))) = True"
proof -
  have "(0::nat) < 1" by simp
  from bqpool_stopped [OF list_exec_contract this, of "[]"]
    bqpool_stopped [OF list_exec_contract this, of "[3]"] show ?thesis by simp
qed

text \<open>
  The destructor of the boost pool closes the executor and returns: \<open>terminate\<close> of the
  base, which has no threads, runs to its end in a pool nobody else uses.
\<close>
theorem bqpool_destroy_closes:
  assumes "executor_contract X queued served" and "0 < n_threads"
  shows "\<exists>q e. bq_destroy X (bq_construct_stack X n_threads stack) = Some q \<and> \<not> bq_go q \<and>
    bq_ea q = Some e \<and> ex_closed X e \<and> b_owner (bp_sync (bq_base q)) = None"
  using executor_contractD(1) [OF assms(1)] assms(2)
  by (simp add: bq_destroy_def bq_construct_stack_def bq_members_def bq_stop_def
      bpool_construct_stack_def bsync_new_def bpool_step_def bcall_allowed_def bclient_call_def
      bclient_step_def bterminate_step_def bclient_enter_def bclient_return_def bpool_upd
      b_enter_def b_lock_def b_locked_by_def b_notify_all_def b_leave_def b_unlock_def)

theorem bqpool_destroy_closes_witness:
  "\<exists>q e. bq_destroy list_exec (bq_construct_stack list_exec 2 4096) = Some q \<and> \<not> bq_go q \<and>
    bq_ea q = Some e \<and> ex_closed list_exec e \<and> b_owner (bp_sync (bq_base q)) = None"
  by (rule bqpool_destroy_closes [OF list_exec_contract]) simp

end
