(* ===== verification/Agent_Synchronized.thy ===== *)
theory Agent_Synchronized
  imports Synchronized
begin

text \<open>
  The class \<open>Synchronized\<close> of the agent++ variant, \<open>threads.cpp\<close> and \<open>agent_pp/threads.h\<close>,
  and its \<open>Lock\<close>.  Beside the mutex and the condition variable an object has the flag
  \<open>isLocked\<close> (\<open>a_flag\<close>), which the functions write after they have taken the mutex and before
  they give it up.  First each function as a whole; then a machine with one step per access, in
  which the mutex and the flag of several threads interleave.  The build is that without
  \<open>AGENTPP_PTHREAD_RECURSIVE\<close>: an error checking mutex.  A failed \<open>assert\<close> is a \<open>Throws\<close>;
  \<open>ndebug\<close> says that \<open>NDEBUG\<close> is defined.
\<close>

section \<open>The functions\<close>

record 't async =
  a_monitor :: "'t mutex"
  a_cond :: "'t condvar"
  a_flag :: bool

text \<open>\<open>ERR_CHK_WITHOUT_EXCEPTIONS\<close> only logs: whatever the calls report, the object is made.\<close>
definition a_construct :: "(init_call \<Rightarrow> errno option) \<Rightarrow> 't async" where
  "a_construct env = \<lparr>a_monitor = None, a_cond = [], a_flag = False\<rparr>"

abbreviation async_new :: "'t async" where
  "async_new \<equiv> \<lparr>a_monitor = None, a_cond = [], a_flag = False\<rparr>"

text \<open>A lock the thread already owns is reported as a success.\<close>
definition a_lock :: "'t async \<Rightarrow> 't \<Rightarrow> (bool \<times> 't async) outcome" where
  "a_lock s t =
     (case mutex_lock (a_monitor s) t of
        Ok m \<Rightarrow> Returns (True, s\<lparr>a_monitor := m, a_flag := True\<rparr>)
      | Err e \<Rightarrow> if e = EDEADLK then Returns (True, s) else Returns (False, s)
      | Block \<Rightarrow> Blocked)"

text \<open>
  \<open>lock(long timeout)\<close> without \<open>pthread_mutex_timedlock\<close>: the loop over \<open>pthread_mutex_trylock\<close>
  and \<open>sleep(10)\<close>.  The answers of the trylock are given; the result is the number of rounds and
  the last answer, \<open>None\<close> when the list is too short.
\<close>
fun lock_poll :: "int \<Rightarrow> errno option list \<Rightarrow> (nat \<times> errno option) option" where
  "lock_poll remaining [] = None"
| "lock_poll remaining (e # es) =
     (if e = Some EBUSY then
        (if 0 < remaining - 10
         then map_option (\<lambda>(n, r). (Suc n, r)) (lock_poll (remaining - 10) es)
         else Some (1, e))
      else Some (1, e))"

text \<open>\<open>lock(long timeout)\<close>, the end: the last answer, and the mutex taken when there is no error.\<close>
definition a_lock_timed :: "errno option \<Rightarrow> 't async \<Rightarrow> 't \<Rightarrow> bool \<times> 't async" where
  "a_lock_timed err s t =
     (case err of
        None \<Rightarrow> (True, s\<lparr>a_monitor := Some t, a_flag := True\<rparr>)
      | Some e \<Rightarrow> (False, s))"

definition a_unlock :: "bool \<Rightarrow> 't async \<Rightarrow> 't \<Rightarrow> (bool \<times> 't async) outcome" where
  "a_unlock ndebug s t =
     (let wasLocked = a_flag s; s1 = s\<lparr>a_flag := False\<rparr> in
      case mutex_unlock (a_monitor s1) t of
        Ok m \<Rightarrow> Returns (True, s1\<lparr>a_monitor := m\<rparr>)
      | _ \<Rightarrow>
          (let s2 = s1\<lparr>a_flag := wasLocked\<rparr> in
           if a_flag s2 \<and> \<not> ndebug then Throws ''!isLocked'' else Returns (False, s2)))"

definition a_trylock :: "bool \<Rightarrow> 't async \<Rightarrow> 't \<Rightarrow> (try_lock_result \<times> 't async) outcome" where
  "a_trylock ndebug s t =
     (case mutex_trylock (a_monitor s) t of
        Ok m \<Rightarrow>
          (if a_flag s \<and> \<not> ndebug then Throws ''!isLocked''
           else Returns (LOCKED, s\<lparr>a_monitor := m, a_flag := True\<rparr>))
      | Err e \<Rightarrow>
          (if e = EDEADLK
           then (if \<not> a_flag s \<and> \<not> ndebug then Throws ''isLocked'' else Returns (OWNED, s))
           else (if \<not> a_flag s \<and> \<not> ndebug then Throws ''isLocked'' else Returns (BUSY, s)))
      | Block \<Rightarrow> Blocked)"

text \<open>\<open>wait()\<close>: falling asleep, and the return; a wait that fails returns at once.\<close>
definition a_wait :: "errno option \<Rightarrow> 't async \<Rightarrow> 't \<Rightarrow> (bool \<times> 't async) outcome" where
  "a_wait fault s t =
     (case cond_wait fault (a_monitor s) (a_cond s) t of
        Ok (m, c) \<Rightarrow> Returns (True, s\<lparr>a_flag := False, a_monitor := m, a_cond := c\<rparr>)
      | Err e \<Rightarrow> Returns (False, s\<lparr>a_flag := True\<rparr>)
      | Block \<Rightarrow> Blocked)"

definition a_resume :: "'t async \<Rightarrow> 't \<Rightarrow> 't async outcome" where
  "a_resume s t =
     (if t \<in> set (a_cond s) then Blocked
      else case a_monitor s of
             None \<Rightarrow> Returns (s\<lparr>a_monitor := Some t, a_flag := True\<rparr>)
           | Some _ \<Rightarrow> Blocked)"

text \<open>The deadline of \<open>wait(long timeout)\<close> and of \<open>lock(long timeout)\<close>.\<close>
definition a_deadline :: "timespec \<Rightarrow> int \<Rightarrow> timespec" where
  "a_deadline now timeout = add_millis now (timeout sdiv 1000) (timeout smod 1000)"

text \<open>The result of \<open>wait(long timeout)\<close>, from the error the timed wait ended with.\<close>
definition a_wait_timed :: "errno option \<Rightarrow> bool" where
  "a_wait_timed err =
     (case err of
        None \<Rightarrow> False
      | Some e \<Rightarrow> if e = EINVAL then True else if e = ETIMEDOUT then True else False)"

text \<open>A sleeper whose time has come, or that wakes without reason, leaves the condition.\<close>
definition a_spurious :: "'t async \<Rightarrow> 't \<Rightarrow> 't async" where
  "a_spurious s t = s\<lparr>a_cond := cond_spurious (a_cond s) t\<rparr>"

definition a_notify :: "nat \<Rightarrow> 't async \<Rightarrow> 't async" where
  "a_notify k s = s\<lparr>a_cond := cond_signal k (a_cond s)\<rparr>"

definition a_notify_all :: "'t async \<Rightarrow> 't async" where
  "a_notify_all s = s\<lparr>a_cond := cond_broadcast (a_cond s)\<rparr>"

text \<open>The scoped \<open>Lock\<close> ignores the results.\<close>
definition a_enter :: "'t async \<Rightarrow> 't \<Rightarrow> 't async outcome" where
  "a_enter s t =
     (case a_lock s t of
        Returns (_, s') \<Rightarrow> Returns s'
      | Throws msg \<Rightarrow> Throws msg
      | Blocked \<Rightarrow> Blocked)"

definition a_leave :: "bool \<Rightarrow> 't async \<Rightarrow> 't \<Rightarrow> 't async outcome" where
  "a_leave ndebug s t =
     (case a_unlock ndebug s t of
        Returns (_, s') \<Rightarrow> Returns s'
      | Throws msg \<Rightarrow> Throws msg
      | Blocked \<Rightarrow> Blocked)"

text \<open>\<open>Lock::wait(long timeout)\<close>: a negative timeout waits without a deadline.\<close>
definition a_lock_wait :: "timespec \<Rightarrow> int \<Rightarrow> timespec option" where
  "a_lock_wait now timeout = (if timeout < 0 then None else Some (a_deadline now timeout))"

section \<open>ThreadManager\<close>

text \<open>
  \<open>start_synch\<close> and \<open>end_synch\<close> lock and unlock the object and ignore the result;
  \<open>ThreadSynchronize\<close> and \<open>SingleThreadObject\<close> call them in their constructor and destructor.
\<close>
definition start_synch :: "'t async \<Rightarrow> 't \<Rightarrow> 't async outcome" where
  "start_synch s t =
     (case a_lock s t of
        Returns (_, s') \<Rightarrow> Returns s'
      | Throws msg \<Rightarrow> Throws msg
      | Blocked \<Rightarrow> Blocked)"

definition end_synch :: "bool \<Rightarrow> 't async \<Rightarrow> 't \<Rightarrow> 't async outcome" where
  "end_synch ndebug s t =
     (case a_unlock ndebug s t of
        Returns (_, s') \<Rightarrow> Returns s'
      | Throws msg \<Rightarrow> Throws msg
      | Blocked \<Rightarrow> Blocked)"

text \<open>\<open>~ThreadManager\<close>, built without \<open>NO_FAST_MUTEXES\<close>: \<open>trylock\<close> and \<open>unlock\<close>.\<close>
definition manager_destroy :: "bool \<Rightarrow> 't async \<Rightarrow> 't \<Rightarrow> 't async outcome" where
  "manager_destroy ndebug s t =
     (case a_trylock ndebug s t of
        Returns (_, s') \<Rightarrow> end_synch ndebug s' t
      | Throws msg \<Rightarrow> Throws msg
      | Blocked \<Rightarrow> Blocked)"

definition single_thread_construct :: "'t async \<Rightarrow> 't \<Rightarrow> 't async outcome" where
  "single_thread_construct s t = start_synch s t"

text \<open>\<open>~SingleThreadObject\<close> and the destructor of its base class.\<close>
definition single_thread_destroy :: "bool \<Rightarrow> 't async \<Rightarrow> 't \<Rightarrow> 't async outcome" where
  "single_thread_destroy ndebug s t =
     (case end_synch ndebug s t of
        Returns s' \<Rightarrow> manager_destroy ndebug s' t
      | Throws msg \<Rightarrow> Throws msg
      | Blocked \<Rightarrow> Blocked)"

section \<open>The destructor\<close>

text \<open>\<open>AGENTPP_SYNCHRONIZED_UNLOCK_RETRIES\<close>\<close>
definition agent_retries :: nat where
  "agent_retries = 1000"

text \<open>
  The loop of \<open>~Synchronized\<close> built with \<open>NO_FAST_MUTEXES\<close>: each round unlocks, sleeps and
  tries to destroy the mutex; the list holds the answers of \<open>pthread_mutex_destroy\<close>.  The result
  is the number of rounds and the last answer.
\<close>
fun adestroy_loop :: "nat \<Rightarrow> errno option list \<Rightarrow> (nat \<times> errno option) option" where
  "adestroy_loop retries [] = None"
| "adestroy_loop retries (e # es) =
     (if e = Some EBUSY \<and> retries < agent_retries
      then map_option (\<lambda>(n, r). (Suc n, r)) (adestroy_loop (Suc retries) es)
      else Some (1, e))"

text \<open>
  The destructor: the first answer of \<open>pthread_mutex_destroy\<close>, the answers of the trylock and of
  \<open>lock(123)\<close>, and the answers of the loop.  The result is the last answer of
  \<open>pthread_mutex_destroy\<close>: the mutex is gone when it is \<open>None\<close>.
\<close>
definition a_destroy ::
  "errno option \<Rightarrow> errno option \<Rightarrow> bool \<Rightarrow> errno option list \<Rightarrow> errno option option" where
  "a_destroy first trylock lock123 answers =
     (if first = Some EBUSY then
        (if trylock = Some EBUSY then
           (if lock123 then map_option snd (adestroy_loop 0 answers) else Some first)
         else Some first)
      else Some first)"

lemma adestroy_loop_ends:
  "agent_retries - retries < length es \<Longrightarrow>
   \<exists>n e. adestroy_loop retries es = Some (n, e) \<and> n \<le> Suc (agent_retries - retries)"
proof (induction es arbitrary: retries)
  case Nil
  then show ?case by simp
next
  case (Cons e es)
  show ?case
  proof (cases "e = Some EBUSY \<and> retries < agent_retries")
    case True
    then have "agent_retries - Suc retries < length es" using Cons.prems by auto
    from Cons.IH [OF this] obtain n r where
      "adestroy_loop (Suc retries) es = Some (n, r)" "n \<le> Suc (agent_retries - Suc retries)"
      by blast
    then show ?thesis using True by auto
  qed auto
qed

lemmas async_defs = a_lock_def a_lock_timed_def a_unlock_def a_trylock_def a_wait_def a_resume_def
  a_notify_def a_notify_all_def a_spurious_def a_enter_def a_leave_def mutex_defs cond_wait_def
  cond_broadcast_def

lemma a_enter_free [simp]:
  "a_monitor s = None \<Longrightarrow> a_enter s t = Returns (s\<lparr>a_monitor := Some t, a_flag := True\<rparr>)"
  by (simp add: async_defs)

lemma a_enter_own [simp]: "a_monitor s = Some t \<Longrightarrow> a_enter s t = Returns s"
  by (simp add: async_defs)

lemma a_enter_other [simp]: "a_monitor s = Some u \<Longrightarrow> u \<noteq> t \<Longrightarrow> a_enter s t = Blocked"
  by (simp add: async_defs)

lemma a_leave_own [simp]:
  "a_monitor s = Some t \<Longrightarrow> a_leave nd s t = Returns (s\<lparr>a_flag := False, a_monitor := None\<rparr>)"
  by (simp add: async_defs Let_def)

end
