(* ===== verification/Agent_Exclusion.thy ===== *)
theory Agent_Exclusion
  imports Agent_Synchronized
begin

text \<open>
  The functions of the agent++ \<open>Synchronized\<close> one access at a time, by any number of threads:
  the mutex and the flag \<open>isLocked\<close> change in separate steps, so another thread may look at the
  flag between them.  A thread unlocks and waits only while it is inside, as \<open>Lock\<close> does.
\<close>

section \<open>The machine\<close>

text \<open>
  Outside; the mutex taken and the flag not yet written (after \<open>trylock\<close> the assertion comes
  first); inside; the flag cleared, before \<open>pthread_mutex_unlock\<close> and before the wait; in the
  wait; \<open>trylock\<close> answered \<open>EBUSY\<close>, before the assertion; stopped by a failed assertion.
\<close>
datatype mon_pc =
  M_out | M_got | M_tried | M_inside | M_unlock | M_wait | M_asleep | M_busy | M_aborted

datatype mon_act =
  Act_lock | Act_trylock | Act_unlock | Act_wait | Act_go | Act_notify nat | Act_notify_all
| Act_spurious

record 't amon =
  am_sync :: "'t async"
  am_pc :: "'t \<Rightarrow> mon_pc"

definition amon_init :: "'t amon" where
  "amon_init = \<lparr>am_sync = async_new, am_pc = (\<lambda>t. M_out)\<rparr>"

definition am_move :: "'t \<Rightarrow> mon_pc \<Rightarrow> 't async \<Rightarrow> 't amon \<Rightarrow> 't amon" where
  "am_move t pc s x = x\<lparr>am_sync := s, am_pc := (am_pc x)(t := pc)\<rparr>"

text \<open>The next access of a call that is under way.\<close>
definition am_go :: "bool \<Rightarrow> 't \<Rightarrow> 't amon \<Rightarrow> 't amon option" where
  "am_go ndebug t x =
     (let s = am_sync x in
      case am_pc x t of
        M_got \<Rightarrow> Some (am_move t M_inside (s\<lparr>a_flag := True\<rparr>) x)
      | M_tried \<Rightarrow>
          Some (if a_flag s \<and> \<not> ndebug then am_move t M_aborted s x
                else am_move t M_inside (s\<lparr>a_flag := True\<rparr>) x)
      | M_unlock \<Rightarrow>
          (case mutex_unlock (a_monitor s) t of
             Ok m \<Rightarrow> Some (am_move t M_out (s\<lparr>a_monitor := m\<rparr>) x)
           | _ \<Rightarrow> None)
      | M_wait \<Rightarrow>
          (case cond_wait None (a_monitor s) (a_cond s) t of
             Ok (m, c) \<Rightarrow> Some (am_move t M_asleep (s\<lparr>a_monitor := m, a_cond := c\<rparr>) x)
           | _ \<Rightarrow> None)
      | M_asleep \<Rightarrow>
          (if t \<in> set (a_cond s) \<or> a_monitor s \<noteq> None then None
           else Some (am_move t M_got (s\<lparr>a_monitor := Some t\<rparr>) x))
      | M_busy \<Rightarrow>
          Some (am_move t (if \<not> a_flag s \<and> \<not> ndebug then M_aborted else M_out) s x)
      | _ \<Rightarrow> None)"

definition amon_step :: "bool \<Rightarrow> 't amon \<Rightarrow> 't \<times> mon_act \<Rightarrow> 't amon option" where
  "amon_step ndebug x l =
     (let t = fst l; s = am_sync x in
      case snd l of
        Act_go \<Rightarrow> am_go ndebug t x
      | Act_lock \<Rightarrow>
          (if am_pc x t = M_out then
             (case mutex_lock (a_monitor s) t of
                Ok m \<Rightarrow> Some (am_move t M_got (s\<lparr>a_monitor := m\<rparr>) x)
              | Err e \<Rightarrow> Some x
              | Block \<Rightarrow> None)
           else None)
      | Act_trylock \<Rightarrow>
          (if am_pc x t = M_out then
             (case mutex_trylock (a_monitor s) t of
                Ok m \<Rightarrow> Some (am_move t M_tried (s\<lparr>a_monitor := m\<rparr>) x)
              | Err e \<Rightarrow> Some (am_move t M_busy s x)
              | Block \<Rightarrow> None)
           else None)
      | Act_unlock \<Rightarrow>
          (if am_pc x t = M_inside then Some (am_move t M_unlock (s\<lparr>a_flag := False\<rparr>) x)
           else None)
      | Act_wait \<Rightarrow>
          (if am_pc x t = M_inside then Some (am_move t M_wait (s\<lparr>a_flag := False\<rparr>) x)
           else None)
      | Act_notify k \<Rightarrow> Some (x\<lparr>am_sync := a_notify k s\<rparr>)
      | Act_notify_all \<Rightarrow> Some (x\<lparr>am_sync := a_notify_all s\<rparr>)
      | Act_spurious \<Rightarrow> Some (x\<lparr>am_sync := a_spurious s t\<rparr>))"

section \<open>The invariant\<close>

definition mon_owns :: "mon_pc \<Rightarrow> bool" where
  "mon_owns pc \<longleftrightarrow> pc \<in> {M_got, M_tried, M_inside, M_unlock, M_wait}"

lemma mon_owns_simps [simp]:
  "mon_owns M_got" "mon_owns M_tried" "mon_owns M_inside" "mon_owns M_unlock" "mon_owns M_wait"
  "\<not> mon_owns M_out" "\<not> mon_owns M_asleep" "\<not> mon_owns M_busy" "\<not> mon_owns M_aborted"
  by (simp_all add: mon_owns_def)

definition amon_inv :: "'t amon \<Rightarrow> bool" where
  "amon_inv x \<longleftrightarrow>
     (\<forall>t. a_monitor (am_sync x) = Some t \<longleftrightarrow> mon_owns (am_pc x t)) \<and>
     (a_flag (am_sync x) \<longleftrightarrow> (\<exists>t. am_pc x t = M_inside))"

lemma amon_inv_init: "amon_inv amon_init"
  by (simp add: amon_inv_def amon_init_def)

lemma amon_invD:
  assumes "amon_inv x"
  shows "a_monitor (am_sync x) = Some t \<longleftrightarrow> mon_owns (am_pc x t)"
    and "a_flag (am_sync x) \<longleftrightarrow> (\<exists>t. am_pc x t = M_inside)"
    and "mon_owns (am_pc x t) \<Longrightarrow> mon_owns (am_pc x u) \<Longrightarrow> t = u"
proof -
  show own: "a_monitor (am_sync x) = Some t \<longleftrightarrow> mon_owns (am_pc x t)" for t
    using assms by (simp add: amon_inv_def)
  show "a_flag (am_sync x) \<longleftrightarrow> (\<exists>t. am_pc x t = M_inside)"
    using assms by (simp add: amon_inv_def)
  show "mon_owns (am_pc x t) \<Longrightarrow> mon_owns (am_pc x u) \<Longrightarrow> t = u"
    using own [of t] own [of u] by simp
qed

text \<open>A thread that owns the mutex before or after a step is the only one that does.\<close>
lemma amon_inv_move:
  assumes inv: "amon_inv x"
    and free: "a_monitor (am_sync x) = None \<or> a_monitor (am_sync x) = Some t"
    and mon: "a_monitor s = (if mon_owns pc then Some t else None)"
    and flag: "a_flag s \<longleftrightarrow> pc = M_inside"
  shows "amon_inv (am_move t pc s x)"
proof -
  have other: "\<not> mon_owns (am_pc x u)" if "u \<noteq> t" for u
    using amon_invD(1) [OF inv, of u] free that by auto
  then have "am_pc x u \<noteq> M_inside" if "u \<noteq> t" for u using that by fastforce
  with other show ?thesis
    using mon flag by (auto simp: amon_inv_def am_move_def)
qed

text \<open>A thread that is not the owner and does not become it.\<close>
lemma amon_inv_outside:
  assumes inv: "amon_inv x" and "\<not> mon_owns (am_pc x t)" "\<not> mon_owns pc"
    and "a_monitor s = a_monitor (am_sync x)" "a_flag s = a_flag (am_sync x)"
  shows "amon_inv (am_move t pc s x)"
  using assms by (auto simp: amon_inv_def am_move_def)

lemma amon_inv_same:
  assumes "amon_inv x" and "a_monitor s = a_monitor (am_sync x)" "a_flag s = a_flag (am_sync x)"
  shows "amon_inv (x\<lparr>am_sync := s\<rparr>)"
  using assms by (auto simp: amon_inv_def)

lemma amon_flag_clear:
  assumes inv: "amon_inv x"
  shows "a_monitor (am_sync x) = None \<Longrightarrow> \<not> a_flag (am_sync x)"
    and "mon_owns (am_pc x t) \<Longrightarrow> am_pc x t \<noteq> M_inside \<Longrightarrow> \<not> a_flag (am_sync x)"
proof -
  have inside: "\<exists>u. am_pc x u = M_inside \<and> mon_owns (am_pc x u)" if "a_flag (am_sync x)"
    using that amon_invD(2) [OF inv] mon_owns_simps(3) by metis
  show "a_monitor (am_sync x) = None \<Longrightarrow> \<not> a_flag (am_sync x)"
    using inside amon_invD(1) [OF inv] by fastforce
  show "\<not> a_flag (am_sync x)" if own: "mon_owns (am_pc x t)" "am_pc x t \<noteq> M_inside"
  proof
    assume "a_flag (am_sync x)"
    then obtain u where u: "am_pc x u = M_inside" "mon_owns (am_pc x u)" using inside by blast
    have "t = u" by (rule amon_invD(3) [OF inv own(1) u(2)])
    then show False using own(2) u(1) by simp
  qed
qed

lemma amon_inv_go:
  assumes inv: "amon_inv x" and step: "am_go ndebug t x = Some x'"
  shows "amon_inv x'"
proof -
  note own = amon_invD(1) [OF inv, of t] and clear = amon_flag_clear(1) [OF inv] amon_flag_clear(2) [OF inv, of t]
  show ?thesis
  proof (cases "am_pc x t = M_busy")
    case True
    then show ?thesis
      using step by (auto simp: am_go_def Let_def intro!: amon_inv_outside [OF inv] split: if_splits)
  next
    case False
    then show ?thesis
      using step own clear
      by (cases "am_pc x t")
        (auto simp: am_go_def Let_def mutex_unlock_def cond_wait_def
          intro!: amon_inv_move [OF inv] split: if_splits)
  qed
qed

lemma amon_inv_step:
  assumes inv: "amon_inv x" and step: "amon_step ndebug x l = Some x'"
  shows "amon_inv x'"
proof -
  obtain t c where l: "l = (t, c)" by (cases l)
  note own = amon_invD(1) [OF inv, of t] and clear = amon_flag_clear(1) [OF inv] amon_flag_clear(2) [OF inv, of t]
  note defs = amon_step_def Let_def mutex_lock_def mutex_trylock_def a_notify_def
    a_notify_all_def a_spurious_def
  show ?thesis
  proof (cases c)
    case Act_trylock
    show ?thesis
    proof (cases "a_monitor (am_sync x)")
      case None
      then show ?thesis
        using step own clear Act_trylock unfolding l
        by (auto simp: defs intro!: amon_inv_move [OF inv] split: if_splits)
    next
      case (Some u)
      then show ?thesis
        using step own Act_trylock unfolding l
        by (auto simp: defs intro!: amon_inv_outside [OF inv] split: if_splits)
    qed
  next
    case Act_go
    then show ?thesis
      using step unfolding l by (auto simp: amon_step_def Let_def intro: amon_inv_go [OF inv])
  qed (use step own clear inv in \<open>(auto simp: defs l intro!: amon_inv_move [OF inv]
         amon_inv_same [OF inv] split: if_splits option.splits)[1]\<close>)+
qed

interpretation amon: step_invariant "amon_step ndebug" amon_inv for ndebug
  by unfold_locales (rule amon_inv_step)

lemma amon_reach_inv: "reach (amon_step ndebug) amon_init x \<Longrightarrow> amon_inv x"
  using amon.inv_reach amon_inv_init by blast

section \<open>Which assertions can fail\<close>

text \<open>Only a \<open>trylock\<close> that was answered \<open>EBUSY\<close> stops its thread.\<close>
lemma amon_abort_from:
  assumes "amon_inv x" and "amon_step ndebug x (t, c) = Some x'"
    and "am_pc x u \<noteq> M_aborted" and "am_pc x' u = M_aborted"
  shows "u = t \<and> c = Act_go \<and> am_pc x u = M_busy \<and> \<not> a_flag (am_sync x) \<and> \<not> ndebug"
proof -
  note flag = amon_flag_clear(2) [OF assms(1), of t]
  have ut: "u = t"
    using assms(2-4)
    by (cases c; cases "am_pc x t")
      (auto simp: amon_step_def am_go_def am_move_def Let_def
        split: if_splits pcall.splits prod.splits)
  show ?thesis
    using assms(2-4) flag unfolding ut
    by (cases c; cases "am_pc x t")
      (auto simp: amon_step_def am_go_def am_move_def Let_def
        split: if_splits pcall.splits prod.splits)
qed


definition race_run :: "(nat \<times> mon_act) list" where
  "race_run = [(0, Act_lock), (1, Act_trylock)]"

definition race_state :: "nat amon" where
  "race_state =
     \<lparr>am_sync = \<lparr>a_monitor = Some 0, a_cond = [], a_flag = False\<rparr>,
      am_pc = (\<lambda>t. M_out)(0 := M_got, 1 := M_busy)\<rparr>"

lemma race_run_state: "run_steps (amon_step False) amon_init race_run = Some race_state"
  by (simp add: race_run_def race_state_def amon_step_def amon_init_def am_move_def Let_def
      mutex_lock_def mutex_trylock_def)


text \<open>
  The assertion at the end of \<open>trylock\<close> fails in a correct program.  One thread has taken
  the mutex in \<open>lock\<close> and not yet set the flag; a second one calls \<open>trylock\<close>, is answered
  \<open>EBUSY\<close>, finds the flag clear and stops the program, where a release build answers BUSY.
\<close>
theorem agent_trylock_aborts:
  "\<exists>x. run_steps (amon_step False) amon_init (race_run @ [(1, Act_go)]) = Some x \<and>
       am_pc x 1 = M_aborted \<and>
       (\<exists>y. run_steps (amon_step True) amon_init (race_run @ [(1, Act_go)]) = Some y \<and>
            am_pc y 1 = M_out)"
  by (simp add: race_run_def amon_step_def am_go_def amon_init_def am_move_def Let_def
      mutex_lock_def mutex_trylock_def)

text \<open>
  A nested \<open>Lock\<close> of the agent++ variant.  The inner \<open>Lock\<close> of a thread that owns the monitor
  is constructed without an error and without a change, and its destructor gives the monitor up:
  another thread can enter while the outer \<open>Lock\<close> still lives, and the destructor of the outer
  one, if the other thread is then inside, fails its assertion in a debug build and is without
  effect in a release build.
\<close>
theorem agent_nested_lock_releases:
  assumes "a_enter s t = Returns s1" and "a_monitor s = None" and "u \<noteq> t"
  shows "a_enter s1 t = Returns s1 \<and>
    (\<exists>s2 s3. a_leave ndebug s1 t = Returns s2 \<and> a_enter s2 u = Returns s3 \<and>
       a_monitor s3 = Some u \<and>
       a_leave ndebug s3 t = (if ndebug then Returns s3 else Throws ''!isLocked''))"
proof -
  have s1: "s1 = s\<lparr>a_monitor := Some t, a_flag := True\<rparr>" using assms(1,2) by simp
  show ?thesis
    using assms(3) by (simp add: s1) (simp add: a_leave_def a_unlock_def mutex_unlock_def Let_def)
qed

theorem agent_nested_lock_releases_witness:
  "a_enter (async_new :: nat async) 0 =
     Returns \<lparr>a_monitor = Some 0, a_cond = [], a_flag = True\<rparr> \<and>
   a_enter \<lparr>a_monitor = Some (0::nat), a_cond = [], a_flag = True\<rparr> 0 =
     Returns \<lparr>a_monitor = Some 0, a_cond = [], a_flag = True\<rparr>"
proof -
  have *: "a_enter (async_new :: nat async) 0 =
      Returns \<lparr>a_monitor = Some 0, a_cond = [], a_flag = True\<rparr>"
    by simp
  show ?thesis using * agent_nested_lock_releases [OF *, of 1] by simp
qed

text \<open>
  The destructor of ThreadManager.  It leaves a free monitor and one the calling thread owns
  free; when another thread owns it, the call of unlock fails its assertion in a debug build and
  changes nothing in a release build.
\<close>
theorem thread_manager_destroyed:
  assumes "a_flag s \<longleftrightarrow> a_monitor s \<noteq> None"
  shows "manager_destroy ndebug s t =
    (case a_monitor s of
       None \<Rightarrow> Returns s
     | Some u \<Rightarrow> if u = t then Returns (s\<lparr>a_flag := False, a_monitor := None\<rparr>)
                 else if ndebug then Returns s else Throws ''!isLocked'')"
  using assms
  by (cases "a_monitor s")
    (auto simp: manager_destroy_def end_synch_def a_trylock_def a_unlock_def mutex_trylock_def
      mutex_unlock_def Let_def)

theorem thread_manager_destroyed_witness:
  "manager_destroy False \<lparr>a_monitor = Some (1::nat), a_cond = [], a_flag = True\<rparr> 2 =
   Throws ''!isLocked''"
  using thread_manager_destroyed [of "\<lparr>a_monitor = Some (1::nat), a_cond = [], a_flag = True\<rparr>"
      False 2] by simp

end
