(* ===== verification/Lock_Queue.thy ===== *)
theory Lock_Queue
  imports Agent_Exclusion
begin

text \<open>
  The classes \<open>LockRequest\<close> and \<open>LockQueue\<close> of \<open>threads.cpp\<close>, built with
  \<open>NO_FAST_MUTEXES\<close>: a thread that locks and unlocks monitors on behalf of others, so that a
  monitor can be given up by a thread that did not take it.  A requester makes a request, which
  locks itself, posts it with \<open>acquire\<close> and waits on it; the queue answers by notifying the
  request.  The function \<open>run\<close> is a state machine over \<open>lq_pc\<close>; it holds the lock of the
  queue except before its start, in its wait and after its end.

  The monitors the queue locks are those of \<open>Agent_Exclusion\<close>: \<open>trylock\<close> and \<open>unlock\<close> access the
  mutex and the flag \<open>isLocked\<close> in two steps, and other threads may do anything with a monitor in
  between.  A request and the queue itself are never asked by \<open>trylock\<close>, so that their flags are
  not looked at, and a critical section of theirs is one step.

  The container \<open>List\<close> belongs to agent++ and is a parameter: a record \<open>list_ops\<close> of the
  operations used, with a function that gives the elements in their order.
\<close>

section \<open>The container\<close>

record 'l list_ops =
  l_add_last :: "nat \<Rightarrow> 'l \<Rightarrow> 'l"
  l_remove_first :: "'l \<Rightarrow> nat option \<times> 'l"
  l_size :: "'l \<Rightarrow> nat"

text \<open>
  What is documented of \<open>List\<close>: \<open>addLast\<close> appends, \<open>removeFirst\<close> takes the first element off
  and answers null when there is none, \<open>size\<close> counts.
\<close>
definition list_contract :: "'l list_ops \<Rightarrow> ('l \<Rightarrow> nat list) \<Rightarrow> bool" where
  "list_contract ops view \<longleftrightarrow>
     (\<forall>x l. view (l_add_last ops x l) = view l @ [x]) \<and>
     (\<forall>l. view l = [] \<longrightarrow> fst (l_remove_first ops l) = None \<and>
                          view (snd (l_remove_first ops l)) = []) \<and>
     (\<forall>l x xs. view l = x # xs \<longrightarrow> fst (l_remove_first ops l) = Some x \<and>
                                  view (snd (l_remove_first ops l)) = xs) \<and>
     (\<forall>l. l_size ops l = length (view l))"

definition plain_list :: "nat list list_ops" where
  "plain_list =
     \<lparr>l_add_last = (\<lambda>x l. l @ [x]),
      l_remove_first = (\<lambda>l. case l of [] \<Rightarrow> (None, []) | x # xs \<Rightarrow> (Some x, xs)),
      l_size = length\<rparr>"

lemma plain_list_contract: "list_contract plain_list (\<lambda>l. l)"
  by (simp add: list_contract_def plain_list_def)

lemma list_contractD:
  assumes "list_contract ops view"
  shows "view (l_add_last ops x l) = view l @ [x]"
    and "l_remove_first ops l = (None, l') \<Longrightarrow> view l = []"
    and "l_remove_first ops l = (Some x, l') \<Longrightarrow> view l = x # view l'"
    and "l_size ops l = length (view l)"
proof -
  show "view (l_add_last ops x l) = view l @ [x]" and "l_size ops l = length (view l)"
    using assms by (auto simp: list_contract_def)
  have empty: "view l = [] \<Longrightarrow> fst (l_remove_first ops l) = None"
    and full: "\<And>y ys. view l = y # ys \<Longrightarrow> fst (l_remove_first ops l) = Some y \<and>
                 view (snd (l_remove_first ops l)) = ys"
    using assms by (auto simp: list_contract_def)
  show "l_remove_first ops l = (None, l') \<Longrightarrow> view l = []"
    using full by (cases "view l") auto
  show "l_remove_first ops l = (Some x, l') \<Longrightarrow> view l = x # view l'"
    using empty full by (cases "view l") auto
qed

section \<open>Requests and the queue\<close>

text \<open>The threads: that of the queue, the requester of a request, and any other.\<close>
datatype lq_thread = Queue | Requester nat | Other nat

text \<open>
  What a requester has done with its request: made it; posted it with \<open>acquire\<close>; seen its wait
  return; posted it with \<open>release\<close>; seen its wait return again.
\<close>
datatype rq_phase = Rq_new | Rq_posted | Rq_answered | Rq_releasing | Rq_released

record request =
  rq_sync :: "lq_thread async"
  rq_target :: nat
  rq_wait :: bool
  rq_result :: try_lock_result
  rq_phase :: rq_phase

text \<open>The constructor; \<open>waitForLock\<close> is public and may be changed by the requester.\<close>
definition request_construct :: "nat \<Rightarrow> nat \<Rightarrow> bool \<Rightarrow> request" where
  "request_construct r target waitForLock =
     \<lparr>rq_sync = \<lparr>a_monitor = Some (Requester r), a_cond = [], a_flag = True\<rparr>,
      rq_target = target, rq_wait = waitForLock, rq_result = BUSY, rq_phase = Rq_new\<rparr>"

text \<open>The destructor unlocks the request.\<close>
definition request_destroy :: "bool \<Rightarrow> nat \<Rightarrow> request \<Rightarrow> (bool \<times> lq_thread async) outcome" where
  "request_destroy ndebug r q = a_unlock ndebug (rq_sync q) (Requester r)"

text \<open>
  Where \<open>run\<close> is: before the lock, at the loop, at the loop over \<open>pendingRelease\<close>, before the
  notification of a request that has been released, at round \<open>i\<close> of \<open>n\<close> of the loop over
  \<open>pendingLock\<close>, before the notification in that round, in the wait, returned, stopped by an
  assertion.  Two locations are within a call: in the \<open>unlock\<close> of the target of a request, with the
  flag cleared, and in the \<open>trylock\<close> of that of the request of round \<open>i\<close>, with the mutex asked.
\<close>
datatype lq_pc =
  LQ_start | LQ_while | LQ_releases | LQ_unlocking nat | LQ_tell_released nat | LQ_locks nat nat
| LQ_tried nat nat nat | LQ_tell nat nat nat | LQ_asleep | LQ_done | LQ_aborted

record 'l lqueue =
  lq_pc :: lq_pc
  lq_go :: bool
  lq_lock :: 'l
  lq_release :: 'l
  lq_requests :: "request list"
  lq_targets :: "nat \<Rightarrow> lq_thread amon"

definition lq_construct :: "'l \<Rightarrow> (nat \<times> bool) list \<Rightarrow> 'l lqueue" where
  "lq_construct l0 rs =
     \<lparr>lq_pc = LQ_start, lq_go = True, lq_lock = l0, lq_release = l0,
      lq_requests = map (\<lambda>r. request_construct r (fst (rs ! r)) (snd (rs ! r))) [0..<length rs],
      lq_targets = (\<lambda>i. amon_init)\<rparr>"

definition set_request :: "nat \<Rightarrow> request \<Rightarrow> 'l lqueue \<Rightarrow> 'l lqueue" where
  "set_request r q x = x\<lparr>lq_requests := (lq_requests x)[r := q]\<rparr>"

definition set_target :: "nat \<Rightarrow> lq_thread amon \<Rightarrow> 'l lqueue \<Rightarrow> 'l lqueue" where
  "set_target i s x = x\<lparr>lq_targets := (lq_targets x)(i := s)\<rparr>"

definition lq_move :: "lq_pc \<Rightarrow> 'l lqueue \<Rightarrow> 'l lqueue" where
  "lq_move pc x = x\<lparr>lq_pc := pc\<rparr>"

text \<open>The lock of the queue is free for \<open>acquire\<close> and \<open>release\<close>.\<close>
definition lq_free :: "'l lqueue \<Rightarrow> bool" where
  "lq_free x \<longleftrightarrow> lq_pc x \<in> {LQ_start, LQ_asleep, LQ_done}"

section \<open>The thread of the queue\<close>

text \<open>\<open>r->lock(); r->notify(); r->unlock()\<close>\<close>
definition tell_request :: "bool \<Rightarrow> request \<Rightarrow> request outcome" where
  "tell_request ndebug q =
     (case a_lock (rq_sync q) Queue of
        Returns (_, s) \<Rightarrow>
          (case a_unlock ndebug (a_notify 0 s) Queue of
             Returns (_, s') \<Rightarrow> Returns (q\<lparr>rq_sync := s'\<rparr>)
           | Throws msg \<Rightarrow> Throws msg
           | Blocked \<Rightarrow> Blocked)
      | Throws msg \<Rightarrow> Throws msg
      | Blocked \<Rightarrow> Blocked)"

text \<open>The first release: \<open>unlock\<close> of its target clears the flag.\<close>
definition lq_unlock_first :: "bool \<Rightarrow> 'l list_ops \<Rightarrow> 'l lqueue \<Rightarrow> 'l lqueue option" where
  "lq_unlock_first ndebug ops x =
     (case l_remove_first ops (lq_release x) of
        (Some r, rest) \<Rightarrow>
          (let i = rq_target (lq_requests x ! r) in
           case amon_step ndebug (lq_targets x i) (Queue, Act_unlock) of
             Some m \<Rightarrow> Some (lq_move (LQ_unlocking r) (set_target i m (x\<lparr>lq_release := rest\<rparr>)))
           | None \<Rightarrow> Some (lq_move LQ_aborted x))
      | (None, _) \<Rightarrow> None)"

text \<open>
  \<open>trylock\<close> of a target: the mutex is asked; a monitor the queue is inside already answers
  \<open>EBUSY\<close> and stays as it is.
\<close>
definition try_begin :: "bool \<Rightarrow> lq_thread amon \<Rightarrow> lq_thread amon" where
  "try_begin ndebug m =
     (case amon_step ndebug m (Queue, Act_trylock) of Some m' \<Rightarrow> m' | None \<Rightarrow> m)"

text \<open>The rest of \<open>trylock\<close>: its assertion, the flag, and the result.\<close>
definition try_end :: "bool \<Rightarrow> lq_thread amon \<Rightarrow> (try_lock_result \<times> lq_thread amon) outcome" where
  "try_end ndebug m =
     (case am_go ndebug Queue m of
        Some m' \<Rightarrow>
          (if am_pc m' Queue = M_aborted then Throws ''isLocked''
           else Returns (if am_pc m' Queue = M_inside then LOCKED else BUSY, m'))
      | None \<Rightarrow>
          (if \<not> a_flag (am_sync m) \<and> \<not> ndebug then Throws ''isLocked'' else Returns (BUSY, m)))"

text \<open>A round of the loop over \<open>pendingLock\<close>, up to the mutex of the target.\<close>
definition lq_try_first ::
  "bool \<Rightarrow> 'l list_ops \<Rightarrow> nat \<Rightarrow> nat \<Rightarrow> 'l lqueue \<Rightarrow> 'l lqueue option" where
  "lq_try_first ndebug ops i n x =
     (case l_remove_first ops (lq_lock x) of
        (Some r, rest) \<Rightarrow>
          (let j = rq_target (lq_requests x ! r) in
           Some (lq_move (LQ_tried r i n)
                  (set_target j (try_begin ndebug (lq_targets x j)) (x\<lparr>lq_lock := rest\<rparr>))))
      | (None, _) \<Rightarrow> None)"

text \<open>The rest of the round: the request is told, or put back when it waits for a busy monitor.\<close>
definition lq_tried_step ::
  "bool \<Rightarrow> 'l list_ops \<Rightarrow> nat \<Rightarrow> nat \<Rightarrow> nat \<Rightarrow> 'l lqueue \<Rightarrow> 'l lqueue" where
  "lq_tried_step ndebug ops r i n x =
     (let q = lq_requests x ! r in
      case try_end ndebug (lq_targets x (rq_target q)) of
        Returns (result, m) \<Rightarrow>
          (let y = set_target (rq_target q) m x in
           if result = LOCKED
           then lq_move (LQ_tell r i n) (set_request r (q\<lparr>rq_result := LOCKED\<rparr>) y)
           else if \<not> rq_wait q
           then lq_move (LQ_tell r i n) (set_request r (q\<lparr>rq_result := result\<rparr>) y)
           else lq_move (LQ_locks (Suc i) n) (y\<lparr>lq_lock := l_add_last ops r (lq_lock y)\<rparr>))
      | _ \<Rightarrow> lq_move LQ_aborted x)"

definition lq_run_step :: "bool \<Rightarrow> 'l list_ops \<Rightarrow> 'l lqueue \<Rightarrow> 'l lqueue option" where
  "lq_run_step ndebug ops x =
     (case lq_pc x of
        LQ_start \<Rightarrow> Some (lq_move LQ_while x)
      | LQ_while \<Rightarrow>
          Some (lq_move (if l_size ops (lq_lock x) \<noteq> 0 \<or> l_size ops (lq_release x) \<noteq> 0 \<or> lq_go x
                         then LQ_releases else LQ_done) x)
      | LQ_releases \<Rightarrow>
          (if l_size ops (lq_release x) \<noteq> 0 then lq_unlock_first ndebug ops x
           else Some (lq_move (LQ_locks 0 (l_size ops (lq_lock x))) x))
      | LQ_unlocking r \<Rightarrow>
          (let i = rq_target (lq_requests x ! r) in
           case amon_step ndebug (lq_targets x i) (Queue, Act_go) of
             Some m \<Rightarrow> Some (lq_move (LQ_tell_released r) (set_target i m x))
           | None \<Rightarrow> Some (lq_move LQ_aborted x))
      | LQ_tell_released r \<Rightarrow>
          (case tell_request ndebug (lq_requests x ! r) of
             Returns q \<Rightarrow> Some (lq_move LQ_releases (set_request r q x))
           | Throws _ \<Rightarrow> Some (lq_move LQ_aborted x)
           | Blocked \<Rightarrow> None)
      | LQ_locks i n \<Rightarrow>
          (if i < n then lq_try_first ndebug ops i n x else Some (lq_move LQ_asleep x))
      | LQ_tried r i n \<Rightarrow> Some (lq_tried_step ndebug ops r i n x)
      | LQ_tell r i n \<Rightarrow>
          (case tell_request ndebug (lq_requests x ! r) of
             Returns q \<Rightarrow> Some (lq_move (LQ_locks (Suc i) n) (set_request r q x))
           | Throws _ \<Rightarrow> Some (lq_move LQ_aborted x)
           | Blocked \<Rightarrow> None)
      | LQ_asleep \<Rightarrow> Some (lq_move LQ_while x)
      | LQ_done \<Rightarrow> None
      | LQ_aborted \<Rightarrow> None)"

section \<open>The callers\<close>

definition lq_acquire :: "'l list_ops \<Rightarrow> nat \<Rightarrow> 'l lqueue \<Rightarrow> 'l lqueue" where
  "lq_acquire ops r x =
     set_request r ((lq_requests x ! r)\<lparr>rq_phase := Rq_posted\<rparr>)
       (x\<lparr>lq_lock := l_add_last ops r (lq_lock x)\<rparr>)"

definition lq_release_request :: "'l list_ops \<Rightarrow> nat \<Rightarrow> 'l lqueue \<Rightarrow> 'l lqueue" where
  "lq_release_request ops r x =
     set_request r ((lq_requests x ! r)\<lparr>rq_phase := Rq_releasing\<rparr>)
       (x\<lparr>lq_release := l_add_last ops r (lq_release x)\<rparr>)"

text \<open>The destructor: the flag is cleared, the queue woken, and its thread joined.\<close>
definition lq_stop :: "'l lqueue \<Rightarrow> 'l lqueue" where
  "lq_stop x = x\<lparr>lq_go := False\<rparr>"

definition lq_join :: "'l lqueue \<Rightarrow> 'l lqueue outcome" where
  "lq_join x = (if lq_pc x = LQ_done then Returns x else Blocked)"

text \<open>
  A requester: it posts, waits on its request, and returns from the wait once it has been notified
  (a spurious return of this wait is not modelled); a granted request may be released.  Another thread may do with a monitor whatever \<open>amon_step\<close> offers.  A failed
  assertion of the queue ends the program.
\<close>
datatype lq_label =
  LL_run | LL_acquire nat | LL_release nat | LL_wait nat | LL_resume nat | LL_stop
| LL_other nat nat mon_act

definition rq_next :: "rq_phase \<Rightarrow> rq_phase" where
  "rq_next p = (case p of Rq_posted \<Rightarrow> Rq_answered | Rq_releasing \<Rightarrow> Rq_released | _ \<Rightarrow> p)"

definition lq_step :: "bool \<Rightarrow> 'l list_ops \<Rightarrow> 'l lqueue \<Rightarrow> lq_label \<Rightarrow> 'l lqueue option" where
  "lq_step ndebug ops x l =
     (if lq_pc x = LQ_aborted then None else case l of
        LL_run \<Rightarrow> lq_run_step ndebug ops x
      | LL_acquire r \<Rightarrow>
          (if r < length (lq_requests x) \<and> lq_free x \<and> rq_phase (lq_requests x ! r) = Rq_new
           then Some (lq_acquire ops r x) else None)
      | LL_release r \<Rightarrow>
          (if r < length (lq_requests x) \<and> lq_free x \<and>
              rq_phase (lq_requests x ! r) = Rq_answered \<and>
              rq_result (lq_requests x ! r) = LOCKED
           then Some (lq_release_request ops r x) else None)
      | LL_wait r \<Rightarrow>
          (if r < length (lq_requests x) \<and>
              rq_phase (lq_requests x ! r) \<in> {Rq_posted, Rq_releasing} then
             (case a_wait None (rq_sync (lq_requests x ! r)) (Requester r) of
                Returns (_, s) \<Rightarrow> if a_monitor (rq_sync (lq_requests x ! r)) = Some (Requester r)
                   then Some (set_request r ((lq_requests x ! r)\<lparr>rq_sync := s\<rparr>) x) else None
              | _ \<Rightarrow> None)
           else None)
      | LL_resume r \<Rightarrow>
          (if r < length (lq_requests x) \<and>
              rq_phase (lq_requests x ! r) \<in> {Rq_posted, Rq_releasing} \<and>
              a_monitor (rq_sync (lq_requests x ! r)) \<noteq> Some (Requester r) then
             (case a_resume (rq_sync (lq_requests x ! r)) (Requester r) of
                Returns s \<Rightarrow>
                  Some (set_request r ((lq_requests x ! r)
                          \<lparr>rq_sync := s, rq_phase := rq_next (rq_phase (lq_requests x ! r))\<rparr>) x)
              | _ \<Rightarrow> None)
           else None)
      | LL_stop \<Rightarrow> Some (lq_stop x)
      | LL_other u i c \<Rightarrow>
          map_option (\<lambda>m. set_target i m x) (amon_step ndebug (lq_targets x i) (Other u, c)))"

end
