(* ===== verification/Lock_Queue_Properties.thy ===== *)
theory Lock_Queue_Properties
  imports Lock_Queue
begin

text \<open>
  What the lock queue promises: a monitor it has taken belongs to one request, no request is
  lost or answered before its requester listens, and requests for the same monitor are served in
  the order in which they were posted as long as nobody else takes that monitor.
\<close>

section \<open>The invariant of one request\<close>

definition rq_held :: "nat \<Rightarrow> request \<Rightarrow> bool" where
  "rq_held r q \<longleftrightarrow> a_monitor (rq_sync q) = Some (Requester r) \<and> a_cond (rq_sync q) = []"

definition rq_told :: "request \<Rightarrow> bool" where
  "rq_told q \<longleftrightarrow> a_monitor (rq_sync q) = None \<and> a_cond (rq_sync q) = []"

definition rq_waiting :: "nat \<Rightarrow> request \<Rightarrow> bool" where
  "rq_waiting r q \<longleftrightarrow> rq_held r q \<or>
     a_monitor (rq_sync q) = None \<and> a_cond (rq_sync q) = [Requester r]"

text \<open>
  \<open>inL\<close>, \<open>inR\<close>: the request is in \<open>pendingLock\<close>, in \<open>pendingRelease\<close>; \<open>telL\<close>, \<open>telR\<close>: the
  queue is about to tell it that its lock or its release is done.
\<close>
definition rq_ok :: "nat \<Rightarrow> bool \<Rightarrow> bool \<Rightarrow> bool \<Rightarrow> bool \<Rightarrow> request \<Rightarrow> bool" where
  "rq_ok r inL inR telL telR q \<longleftrightarrow>
     (a_flag (rq_sync q) \<longleftrightarrow> a_monitor (rq_sync q) \<noteq> None) \<and>
     (inL \<longrightarrow> \<not> telL \<and> rq_phase q = Rq_posted \<and> rq_result q \<noteq> LOCKED) \<and>
     (telL \<longrightarrow> rq_phase q = Rq_posted) \<and>
     (inR \<longrightarrow> \<not> telR \<and> rq_phase q = Rq_releasing) \<and>
     (telR \<longrightarrow> rq_phase q = Rq_releasing) \<and>
     (case rq_phase q of
        Rq_new \<Rightarrow> rq_held r q \<and> rq_result q \<noteq> LOCKED
      | Rq_posted \<Rightarrow> if inL \<or> telL then rq_waiting r q else rq_told q
      | Rq_answered \<Rightarrow> rq_held r q
      | Rq_releasing \<Rightarrow>
          rq_result q = LOCKED \<and> (if inR \<or> telR then rq_waiting r q else rq_told q)
      | Rq_released \<Rightarrow> rq_held r q \<and> rq_result q = LOCKED)"

definition rq_holds :: "bool \<Rightarrow> request \<Rightarrow> bool" where
  "rq_holds inR q \<longleftrightarrow>
     rq_result q = LOCKED \<and> (rq_phase q = Rq_posted \<or> rq_phase q = Rq_answered \<or> inR)"

lemmas rq_defs = rq_ok_def rq_holds_def rq_held_def rq_told_def rq_waiting_def

section \<open>The invariant of the queue\<close>

definition tells :: "lq_pc \<Rightarrow> nat \<Rightarrow> bool" where
  "tells pc r \<longleftrightarrow> (\<exists>i n. pc = LQ_tell r i n)"

text \<open>The release is under way or done, and the request is not told yet.\<close>
definition tells_released :: "lq_pc \<Rightarrow> nat \<Rightarrow> bool" where
  "tells_released pc r \<longleftrightarrow> pc = LQ_unlocking r \<or> pc = LQ_tell_released r"

lemma tells_simps [simp]:
  "\<not> tells LQ_start r" "\<not> tells LQ_while r" "\<not> tells LQ_releases r" "\<not> tells (LQ_unlocking u) r"
  "\<not> tells (LQ_tell_released u) r" "\<not> tells (LQ_locks i n) r" "\<not> tells (LQ_tried u i n) r"
  "tells (LQ_tell u i n) r = (u = r)"
  "\<not> tells LQ_asleep r" "\<not> tells LQ_done r" "\<not> tells LQ_aborted r"
  "\<not> tells_released LQ_start r" "\<not> tells_released LQ_while r" "\<not> tells_released LQ_releases r"
  "tells_released (LQ_unlocking u) r = (u = r)"
  "tells_released (LQ_tell_released u) r = (u = r)" "\<not> tells_released (LQ_locks i n) r"
  "\<not> tells_released (LQ_tried u i n) r"
  "\<not> tells_released (LQ_tell u i n) r" "\<not> tells_released LQ_asleep r"
  "\<not> tells_released LQ_done r" "\<not> tells_released LQ_aborted r"
  by (auto simp: tells_def tells_released_def)

text \<open>The pending requests: those of \<open>pendingLock\<close> and the one whose target is being tried.\<close>
definition pend :: "lq_pc \<Rightarrow> nat list \<Rightarrow> nat list" where
  "pend pc L = (case pc of LQ_tried r i n \<Rightarrow> r # L | _ \<Rightarrow> L)"

lemma pend_simps [simp]:
  "pend LQ_start L = L" "pend LQ_while L = L" "pend LQ_releases L = L" "pend (LQ_unlocking u) L = L"
  "pend (LQ_tell_released u) L = L" "pend (LQ_locks i n) L = L" "pend (LQ_tried u i n) L = u # L"
  "pend (LQ_tell u i n) L = L" "pend LQ_asleep L = L" "pend LQ_done L = L" "pend LQ_aborted L = L"
  by (simp_all add: pend_def)

definition holders :: "nat list \<Rightarrow> request list \<Rightarrow> nat set" where
  "holders R reqs = {r. r < length reqs \<and> rq_holds (r \<in> set R) (reqs ! r)}"

text \<open>Where the queue is in the monitor \<open>i\<close>: inside when a holder has it as its target.\<close>
definition queue_at :: "(nat \<Rightarrow> nat) \<Rightarrow> lq_pc \<Rightarrow> nat set \<Rightarrow> nat \<Rightarrow> mon_pc \<Rightarrow> bool" where
  "queue_at tgt pc H i m \<longleftrightarrow>
     (if \<exists>r. pc = LQ_unlocking r \<and> tgt r = i then m = M_unlock \<and> i \<notin> tgt ` H
      else if i \<in> tgt ` H then m = M_inside
      else if \<exists>r k n. pc = LQ_tried r k n \<and> tgt r = i then m = M_tried \<or> m = M_busy
      else m = M_out)"

definition targets_ok ::
  "(nat \<Rightarrow> nat) \<Rightarrow> lq_pc \<Rightarrow> nat set \<Rightarrow> (nat \<Rightarrow> lq_thread amon) \<Rightarrow> bool" where
  "targets_ok tgt pc H targets \<longleftrightarrow> inj_on tgt H \<and>
     (\<forall>i. amon_inv (targets i) \<and> queue_at tgt pc H i (am_pc (targets i) Queue))"

definition in_call :: "lq_pc \<Rightarrow> bool" where
  "in_call pc \<longleftrightarrow> (\<exists>r i n. pc = LQ_tried r i n) \<or> (\<exists>r. pc = LQ_unlocking r)"

lemma in_call_simps [simp]:
  "\<not> in_call LQ_start" "\<not> in_call LQ_while" "\<not> in_call LQ_releases" "in_call (LQ_unlocking u)"
  "\<not> in_call (LQ_tell_released u)" "\<not> in_call (LQ_locks i n)" "in_call (LQ_tried u i n)"
  "\<not> in_call (LQ_tell u i n)" "\<not> in_call LQ_asleep" "\<not> in_call LQ_done" "\<not> in_call LQ_aborted"
  by (auto simp: in_call_def)

lemma queue_at_outside:
  "\<not> in_call pc \<Longrightarrow> queue_at tgt pc H i m \<longleftrightarrow> m = (if i \<in> tgt ` H then M_inside else M_out)"
  by (auto simp: queue_at_def in_call_def)

lemma queue_at_inside: "queue_at tgt pc H i m \<Longrightarrow> m = M_inside \<longleftrightarrow> i \<in> tgt ` H"
  by (auto simp: queue_at_def split: if_splits)

lemma targets_okD:
  assumes "targets_ok tgt pc H targets"
  shows "inj_on tgt H" and "amon_inv (targets i)"
    and "queue_at tgt pc H i (am_pc (targets i) Queue)"
  using assms by (simp_all add: targets_ok_def)

lemma targets_ok_same:
  assumes "targets_ok tgt pc H targets" and "\<not> in_call pc" "\<not> in_call pc'"
  shows "targets_ok tgt pc' H targets"
  using assms by (simp add: targets_ok_def queue_at_outside)

lemma targets_ok_set:
  assumes "targets_ok tgt pc H targets" and "amon_inv m" and "inj_on tgt H'"
    and "queue_at tgt pc' H' i (am_pc m Queue)"
    and "\<And>j. j \<noteq> i \<Longrightarrow> queue_at tgt pc H j (am_pc (targets j) Queue) \<Longrightarrow>
           queue_at tgt pc' H' j (am_pc (targets j) Queue)"
  shows "targets_ok tgt pc' H' (targets(i := m))"
  using assms by (auto simp: targets_ok_def)

text \<open>How far the pass over \<open>pendingLock\<close> has come.\<close>
definition pass_ok :: "lq_pc \<Rightarrow> nat list \<Rightarrow> bool" where
  "pass_ok pc L \<longleftrightarrow>
     (case pc of
        LQ_locks i n \<Rightarrow> i \<le> n \<and> n - i \<le> length L
      | LQ_tried r i n \<Rightarrow> i < n \<and> n - Suc i \<le> length L
      | LQ_tell r i n \<Rightarrow> i < n \<and> n - Suc i \<le> length L
      | LQ_aborted \<Rightarrow> False
      | _ \<Rightarrow> True)"

definition requests_ok ::
  "(nat \<Rightarrow> nat) \<Rightarrow> lq_pc \<Rightarrow> nat list \<Rightarrow> nat list \<Rightarrow> request list \<Rightarrow> bool" where
  "requests_ok tgt pc L R reqs \<longleftrightarrow>
     (\<forall>r < length reqs. rq_target (reqs ! r) = tgt r \<and>
        rq_ok r (r \<in> set L) (r \<in> set R) (tells pc r) (tells_released pc r) (reqs ! r))"

definition lists_ok :: "lq_pc \<Rightarrow> nat list \<Rightarrow> nat list \<Rightarrow> nat \<Rightarrow> bool" where
  "lists_ok pc L R k \<longleftrightarrow> distinct L \<and> distinct R \<and> set L \<subseteq> {..<k} \<and> set R \<subseteq> {..<k} \<and>
     (\<forall>r. tells pc r \<or> tells_released pc r \<longrightarrow> r < k)"

definition lq_inv :: "('l \<Rightarrow> nat list) \<Rightarrow> (nat \<Rightarrow> nat) \<Rightarrow> 'l lqueue \<Rightarrow> bool" where
  "lq_inv view tgt x \<longleftrightarrow>
     lists_ok (lq_pc x) (pend (lq_pc x) (view (lq_lock x))) (view (lq_release x))
       (length (lq_requests x)) \<and>
     requests_ok tgt (lq_pc x) (pend (lq_pc x) (view (lq_lock x))) (view (lq_release x))
       (lq_requests x) \<and>
     targets_ok tgt (lq_pc x) (holders (view (lq_release x)) (lq_requests x)) (lq_targets x) \<and>
     pass_ok (lq_pc x) (view (lq_lock x))"

lemma requests_okD:
  assumes "requests_ok tgt pc L R reqs" and "r < length reqs"
  shows "rq_target (reqs ! r) = tgt r"
    and "rq_ok r (r \<in> set L) (r \<in> set R) (tells pc r) (tells_released pc r) (reqs ! r)"
  using assms by (auto simp: requests_ok_def)

lemma requests_ok_update:
  assumes "requests_ok tgt pc L R reqs" and "rq_target q = tgt r"
    and "r < length reqs \<Longrightarrow>
         rq_ok r (r \<in> set L') (r \<in> set R') (tells pc' r) (tells_released pc' r) q"
    and "\<And>u. u \<noteq> r \<Longrightarrow> (u \<in> set L' \<longleftrightarrow> u \<in> set L) \<and> (u \<in> set R' \<longleftrightarrow> u \<in> set R) \<and>
           (tells pc' u \<longleftrightarrow> tells pc u) \<and> (tells_released pc' u \<longleftrightarrow> tells_released pc u)"
  shows "requests_ok tgt pc' L' R' (reqs[r := q])"
  unfolding requests_ok_def
proof (intro allI impI)
  fix u assume u: "u < length (reqs[r := q])"
  show "rq_target (reqs[r := q] ! u) = tgt u \<and>
    rq_ok u (u \<in> set L') (u \<in> set R') (tells pc' u) (tells_released pc' u) (reqs[r := q] ! u)"
    using assms(2,3) assms(4) [of u] requests_okD [OF assms(1), of u] u
    by (cases "u = r") simp_all
qed

lemma requests_ok_same:
  assumes "requests_ok tgt pc L R reqs"
    and "\<And>u. (u \<in> set L' \<longleftrightarrow> u \<in> set L) \<and> (u \<in> set R' \<longleftrightarrow> u \<in> set R) \<and>
           (tells pc' u \<longleftrightarrow> tells pc u) \<and> (tells_released pc' u \<longleftrightarrow> tells_released pc u)"
  shows "requests_ok tgt pc' L' R' reqs"
  using assms unfolding requests_ok_def by auto

lemma holders_update:
  assumes "r < length reqs" and "\<And>u. u \<noteq> r \<Longrightarrow> (u \<in> set R' \<longleftrightarrow> u \<in> set R)"
  shows "holders R' (reqs[r := q]) =
    (if rq_holds (r \<in> set R') q then insert r (holders R reqs) else holders R reqs - {r})"
  using assms by (auto simp: holders_def nth_list_update split: if_splits)

lemma holders_same:
  assumes "r < length reqs" and "rq_holds (r \<in> set R') q = rq_holds (r \<in> set R) (reqs ! r)"
    and "\<And>u. u \<noteq> r \<Longrightarrow> (u \<in> set R' \<longleftrightarrow> u \<in> set R)"
  shows "holders R' (reqs[r := q]) = holders R reqs"
  using assms by (subst holders_update [OF assms(1,3)]) (auto simp: holders_def)

section \<open>The calls of the queue on a monitor\<close>

lemma other_keeps_queue:
  "amon_step ndebug m (Other u, c) = Some m' \<Longrightarrow> am_pc m' Queue = am_pc m Queue"
  by (auto simp: amon_step_def am_go_def am_move_def Let_def
      split: mon_act.splits mon_pc.splits if_splits pcall.splits prod.splits)

lemma queue_unlocks:
  assumes "am_pc m Queue = M_inside"
  shows "\<exists>m'. amon_step ndebug m (Queue, Act_unlock) = Some m' \<and> am_pc m' Queue = M_unlock"
  using assms by (simp add: amon_step_def am_move_def)

lemma queue_unlocked:
  assumes "amon_inv m" and "am_pc m Queue = M_unlock"
  shows "\<exists>m'. amon_step ndebug m (Queue, Act_go) = Some m' \<and> am_pc m' Queue = M_out"
proof -
  have "a_monitor (am_sync m) = Some Queue" using amon_invD(1) [OF assms(1), of Queue] assms(2) by simp
  then show ?thesis using assms(2) by (simp add: amon_step_def am_go_def am_move_def mutex_unlock_def)
qed

lemma try_begin_inv: "amon_inv m \<Longrightarrow> amon_inv (try_begin ndebug m)"
  by (auto simp: try_begin_def intro: amon_inv_step split: option.splits)

lemma try_begin_pc:
  "am_pc m Queue = M_out \<Longrightarrow>
     am_pc (try_begin ndebug m) Queue = (if a_monitor (am_sync m) = None then M_tried else M_busy)"
  "am_pc m Queue = M_inside \<Longrightarrow> try_begin ndebug m = m"
  by (auto simp: try_begin_def amon_step_def am_move_def mutex_trylock_def Let_def split: option.splits)

lemma try_end_inv:
  assumes "amon_inv m" and "try_end ndebug m = Returns (e, m')"
  shows "amon_inv m'"
  using assms amon_inv_go [OF assms(1), of ndebug Queue]
  by (auto simp: try_end_def split: option.splits if_splits)

text \<open>
  Only in the location \<open>M_busy\<close> can the assertion fail: \<open>EBUSY\<close>, and the flag of the owner is clear.
\<close>
lemma try_end_cases:
  assumes "amon_inv m"
  shows "am_pc m Queue = M_tried \<Longrightarrow>
      \<exists>m'. try_end ndebug m = Returns (LOCKED, m') \<and> am_pc m' Queue = M_inside"
    and "am_pc m Queue = M_inside \<Longrightarrow> try_end ndebug m = Returns (BUSY, m)"
    and "am_pc m Queue = M_busy \<Longrightarrow> a_flag (am_sync m) \<or> ndebug \<Longrightarrow>
      \<exists>m'. try_end ndebug m = Returns (BUSY, m') \<and> am_pc m' Queue = M_out"
    and "am_pc m Queue = M_busy \<Longrightarrow> \<not> (a_flag (am_sync m) \<or> ndebug) \<Longrightarrow>
      try_end ndebug m = Throws ''isLocked''"
proof -
  show "\<exists>m'. try_end ndebug m = Returns (LOCKED, m') \<and> am_pc m' Queue = M_inside"
    if "am_pc m Queue = M_tried"
    using that amon_flag_clear(2) [OF assms, of Queue]
    by (simp add: try_end_def am_go_def am_move_def Let_def)
  show "try_end ndebug m = Returns (BUSY, m)" if "am_pc m Queue = M_inside"
    using that amon_invD(2) [OF assms] by (auto simp: try_end_def am_go_def Let_def)
qed (auto simp: try_end_def am_go_def am_move_def Let_def)

section \<open>Telling a request\<close>

lemma tell_request_Returns:
  assumes "rq_waiting r q" and "tell_request ndebug q = Returns q'"
  shows "q' = q\<lparr>rq_sync := \<lparr>a_monitor = None, a_cond = [], a_flag = False\<rparr>\<rparr>"
    and "rq_told q'"
  using assms
  by (cases "rq_sync q";
      auto simp: tell_request_def rq_defs a_lock_def a_unlock_def a_notify_def mutex_lock_def
        mutex_unlock_def Let_def)+

lemma tell_request_no_throw:
  "rq_waiting r q \<Longrightarrow> tell_request ndebug q \<noteq> Throws msg"
  by (auto simp: tell_request_def rq_defs a_lock_def a_unlock_def a_notify_def mutex_lock_def
      mutex_unlock_def Let_def)

section \<open>Every step keeps the invariant\<close>

lemma lq_invD:
  assumes "lq_inv view tgt x"
  shows "lists_ok (lq_pc x) (pend (lq_pc x) (view (lq_lock x))) (view (lq_release x))
      (length (lq_requests x))"
    and "requests_ok tgt (lq_pc x) (pend (lq_pc x) (view (lq_lock x))) (view (lq_release x))
      (lq_requests x)"
    and "targets_ok tgt (lq_pc x) (holders (view (lq_release x)) (lq_requests x)) (lq_targets x)"
    and "pass_ok (lq_pc x) (view (lq_lock x))"
  using assms by (simp_all add: lq_inv_def)

lemma lq_inv_not_aborted: "lq_inv view tgt x \<Longrightarrow> lq_pc x \<noteq> LQ_aborted"
  using lq_invD(4) by (force simp: pass_ok_def)

lemmas lq_upd = set_request_def set_target_def lq_move_def

text \<open>A step of the thread that touches no request.\<close>
lemma lq_inv_moves:
  assumes inv: "lq_inv view tgt x"
    and "\<And>r. tells pc r = tells (lq_pc x) r" "\<And>r. tells_released pc r = tells_released (lq_pc x) r"
    and "pass_ok pc (view (lq_lock x))" and "\<not> in_call (lq_pc x)" "\<not> in_call pc"
  shows "lq_inv view tgt (lq_move pc x)"
proof -
  have p: "pend pc L = L" "pend (lq_pc x) L = L" for L
    using assms(5,6) by (auto simp: pend_def in_call_def split: lq_pc.splits)
  show ?thesis
    using lq_invD [OF inv] assms(2-4) targets_ok_same [OF lq_invD(3) [OF inv] assms(5,6)]
    by (auto simp: lq_inv_def lq_move_def lists_ok_def p intro: requests_ok_same)
qed

lemma lq_inv_tell:
  assumes inv: "lq_inv view tgt x" and tell: "tells (lq_pc x) r \<or> tells_released (lq_pc x) r"
    and out: "tell_request ndebug (lq_requests x ! r) = Returns q"
    and pc: "\<And>u. \<not> tells pc u" "\<And>u. \<not> tells_released pc u" "pass_ok pc (view (lq_lock x))"
    and calls: "\<not> in_call (lq_pc x)" "\<not> in_call pc"
  shows "lq_inv view tgt (lq_move pc (set_request r q x))"
proof -
  note I = lq_invD [OF inv]
  have p: "pend pc L = L" "pend (lq_pc x) L = L" for L
    using calls by (auto simp: pend_def in_call_def split: lq_pc.splits)
  have r: "r < length (lq_requests x)" using I(1) tell by (auto simp: lists_ok_def)
  note rq = requests_okD [OF I(2) r]
  have other: "\<not> tells (lq_pc x) u" "\<not> tells_released (lq_pc x) u" if "u \<noteq> r" for u
    using tell that by (auto simp: tells_def tells_released_def)
  have w: "rq_waiting r (lq_requests x ! r)"
    using rq(2) tell by (auto simp: rq_ok_def split: rq_phase.splits)
  note q = tell_request_Returns [OF w out]
  have H: "holders (view (lq_release x)) ((lq_requests x)[r := q]) =
      holders (view (lq_release x)) (lq_requests x)"
    using r by (intro holders_same) (simp_all add: q(1) rq_holds_def)
  have "rq_ok r (r \<in> set (view (lq_lock x))) (r \<in> set (view (lq_release x))) (tells pc r)
      (tells_released pc r) q"
    using rq(2) tell q pc by (auto simp: rq_ok_def p split: rq_phase.splits)
  then have "requests_ok tgt pc (view (lq_lock x)) (view (lq_release x)) ((lq_requests x)[r := q])"
    using rq(1) other pc by (intro requests_ok_update [OF I(2)]) (auto simp: q(1) p)
  then show ?thesis
    using I(1) pc H targets_ok_same [OF I(3) calls] by (simp add: lq_inv_def lq_upd lists_ok_def p)
qed

lemma lq_inv_unlock_first:
  assumes ops: "list_contract ops view" and inv: "lq_inv view tgt x"
    and pc: "lq_pc x = LQ_releases" and step: "lq_unlock_first ndebug ops x = Some x'"
  shows "lq_inv view tgt x'"
proof -
  note I = lq_invD [OF inv]
  obtain r rest where rem: "l_remove_first ops (lq_release x) = (Some r, rest)"
    using step by (cases "l_remove_first ops (lq_release x)"; cases "fst (l_remove_first ops (lq_release x))")
      (auto simp: lq_unlock_first_def)
  have R: "view (lq_release x) = r # view rest" by (rule list_contractD(3) [OF ops rem])
  have dist: "r \<notin> set (view rest)" "distinct (view rest)" using I(1) R by (auto simp: lists_ok_def)
  have r: "r < length (lq_requests x)" using I(1) R by (auto simp: lists_ok_def)
  note rq = requests_okD [OF I(2) r]
  let ?q = "lq_requests x ! r" and ?H = "holders (view (lq_release x)) (lq_requests x)"
  have ok: "rq_phase ?q = Rq_releasing" "rq_result ?q = LOCKED" "rq_waiting r ?q"
    using rq(2) R by (auto simp: rq_ok_def split: rq_phase.splits)
  have H: "r \<in> ?H" using ok r R by (simp add: holders_def rq_holds_def)
  have inside: "am_pc (lq_targets x (tgt r)) Queue = M_inside"
    using targets_okD(3) [OF I(3), of "tgt r"] H pc by (simp add: queue_at_def)
  then obtain m where m: "amon_step ndebug (lq_targets x (tgt r)) (Queue, Act_unlock) = Some m"
    "am_pc m Queue = M_unlock"
    using queue_unlocks by blast
  have x': "x' = lq_move (LQ_unlocking r) (set_target (tgt r) m (x\<lparr>lq_release := rest\<rparr>))"
    using step rem rq(1) m by (simp add: lq_unlock_first_def)
  have H': "holders (view rest) (lq_requests x) = ?H - {r}"
    using dist ok R by (auto simp: holders_def rq_holds_def)
  have inj: "inj_on tgt ?H" by (rule targets_okD(1) [OF I(3)])
  then have img: "tgt ` (?H - {r}) = tgt ` ?H - {tgt r}" using H by (auto simp: inj_on_def)
  have "targets_ok tgt (LQ_unlocking r) (?H - {r}) ((lq_targets x)(tgt r := m))"
    using inj img m(2) amon_inv_step [OF targets_okD(2) [OF I(3)] m(1)]
    by (intro targets_ok_set [OF I(3)]) (auto simp: queue_at_def pc inj_on_diff)
  moreover have "rq_ok r (r \<in> set (view (lq_lock x))) False False True ?q"
    using rq(2) ok R pc by (auto simp: rq_ok_def)
  then have "requests_ok tgt (LQ_unlocking r) (view (lq_lock x)) (view rest)
      ((lq_requests x)[r := ?q])"
    using rq(1) dist R pc by (intro requests_ok_update [OF I(2)]) auto
  ultimately show ?thesis
    using I(1,4) R r H H' dist pc
    by (auto simp: x' lq_inv_def lq_upd lists_ok_def pass_ok_def)
qed

lemma lq_inv_unlocking:
  assumes inv: "lq_inv view tgt x" and pc: "lq_pc x = LQ_unlocking r"
    and step: "lq_run_step ndebug ops x = Some x'"
  shows "lq_inv view tgt x'"
proof -
  note I = lq_invD [OF inv]
  have r: "r < length (lq_requests x)" using I(1) pc by (auto simp: lists_ok_def)
  note rq = requests_okD [OF I(2) r]
  let ?H = "holders (view (lq_release x)) (lq_requests x)"
  have m0: "am_pc (lq_targets x (tgt r)) Queue = M_unlock" "tgt r \<notin> tgt ` ?H"
    using targets_okD(3) [OF I(3), of "tgt r"] pc by (simp_all add: queue_at_def)
  obtain m where m: "amon_step ndebug (lq_targets x (tgt r)) (Queue, Act_go) = Some m"
    "am_pc m Queue = M_out"
    using queue_unlocked [OF targets_okD(2) [OF I(3)] m0(1)] by blast
  have x': "x' = lq_move (LQ_tell_released r) (set_target (tgt r) m x)"
    using step pc rq(1) m(1) by (simp add: lq_run_step_def)
  have "targets_ok tgt (LQ_tell_released r) ?H ((lq_targets x)(tgt r := m))"
    using m(2) m0(2) amon_inv_step [OF targets_okD(2) [OF I(3)] m(1)]
    by (intro targets_ok_set [OF I(3)]) (auto simp: queue_at_def pc targets_okD(1) [OF I(3)])
  moreover have "requests_ok tgt (LQ_tell_released r) (view (lq_lock x)) (view (lq_release x))
      (lq_requests x)"
    using pc by (intro requests_ok_same [OF I(2)]) auto
  ultimately show ?thesis
    using I(1,4) pc by (auto simp: x' lq_inv_def lq_upd lists_ok_def pass_ok_def)
qed

lemma pass_remove:
  assumes ops: "list_contract ops view" and inv: "lq_inv view tgt x"
    and pc: "lq_pc x = LQ_locks i n" and i: "i < n"
  obtains r rest where "l_remove_first ops (lq_lock x) = (Some r, rest)"
    and "view (lq_lock x) = r # view rest" and "r < length (lq_requests x)"
    and "r \<notin> set (view rest)" and "distinct (view rest)"
    and "n - Suc i \<le> length (view rest)"
proof -
  note I = lq_invD [OF inv]
  have ne: "view (lq_lock x) \<noteq> []" using I(4) pc i by (auto simp: pass_ok_def)
  obtain r rest where rem: "l_remove_first ops (lq_lock x) = (Some r, rest)"
    using list_contractD(2) [OF ops, of "lq_lock x"] ne by (metis option.exhaust surj_pair)
  have L: "view (lq_lock x) = r # view rest" by (rule list_contractD(3) [OF ops rem])
  show thesis
    using I(1,4) pc i by (intro that [OF rem L]) (auto simp: L lists_ok_def pass_ok_def)
qed

lemma lq_inv_try_first:
  assumes ops: "list_contract ops view" and inv: "lq_inv view tgt x"
    and pc: "lq_pc x = LQ_locks i n" and i: "i < n"
    and step: "lq_try_first ndebug ops i n x = Some x'"
  shows "lq_inv view tgt x'"
proof -
  note I = lq_invD [OF inv]
  obtain r rest where rem: "l_remove_first ops (lq_lock x) = (Some r, rest)"
    and L: "view (lq_lock x) = r # view rest" and r: "r < length (lq_requests x)"
    and dist: "r \<notin> set (view rest)" "distinct (view rest)"
    and len: "n - Suc i \<le> length (view rest)"
    using pass_remove [OF ops inv pc i] .
  note rq = requests_okD [OF I(2) r]
  let ?H = "holders (view (lq_release x)) (lq_requests x)" and ?m = "lq_targets x (tgt r)"
  have x': "x' = lq_move (LQ_tried r i n)
      (set_target (tgt r) (try_begin ndebug ?m) (x\<lparr>lq_lock := rest\<rparr>))"
    using step rem rq(1) by (simp add: lq_try_first_def Let_def)
  have "am_pc ?m Queue = (if tgt r \<in> tgt ` ?H then M_inside else M_out)"
    using targets_okD(3) [OF I(3), of "tgt r"] pc by (simp add: queue_at_outside)
  then have "queue_at tgt (LQ_tried r i n) ?H (tgt r) (am_pc (try_begin ndebug ?m) Queue)"
    using try_begin_pc [of ?m ndebug] by (auto simp: queue_at_def split: if_splits)
  then have "targets_ok tgt (LQ_tried r i n) ?H ((lq_targets x)(tgt r := try_begin ndebug ?m))"
    using try_begin_inv [OF targets_okD(2) [OF I(3)]]
    by (intro targets_ok_set [OF I(3)]) (auto simp: queue_at_def pc targets_okD(1) [OF I(3)])
  moreover have "requests_ok tgt (LQ_tried r i n) (r # view rest) (view (lq_release x))
      (lq_requests x)"
    using pc L by (intro requests_ok_same [OF I(2)]) auto
  ultimately show ?thesis
    using I(1) pc L i len by (auto simp: x' lq_inv_def lq_upd lists_ok_def pass_ok_def)
qed

text \<open>The request whose target is being tried.\<close>
lemma tried_request:
  assumes inv: "lq_inv view tgt x" and pc: "lq_pc x = LQ_tried r i n"
  shows "r < length (lq_requests x)" and "rq_target (lq_requests x ! r) = tgt r"
    and "rq_result (lq_requests x ! r) \<noteq> LOCKED" and "rq_phase (lq_requests x ! r) = Rq_posted"
    and "r \<notin> set (view (lq_lock x))" "r \<notin> set (view (lq_release x))"
    and "r \<notin> holders (view (lq_release x)) (lq_requests x)"
    and "requests_ok tgt (LQ_tell r i n) (view (lq_lock x)) (view (lq_release x))
           ((lq_requests x)[r := (lq_requests x ! r)\<lparr>rq_result := e\<rparr>])"
proof -
  note I = lq_invD [OF inv]
  show r: "r < length (lq_requests x)" using I(1) pc by (auto simp: lists_ok_def)
  note rq = requests_okD [OF I(2) r]
  let ?q = "lq_requests x ! r"
  show "rq_target ?q = tgt r" by (rule rq(1))
  show ok: "rq_result ?q \<noteq> LOCKED" "rq_phase ?q = Rq_posted"
    and dist: "r \<notin> set (view (lq_lock x))" "r \<notin> set (view (lq_release x))"
    using rq(2) pc I(1) by (auto simp: rq_ok_def lists_ok_def)
  show "r \<notin> holders (view (lq_release x)) (lq_requests x)"
    using ok by (auto simp: holders_def rq_holds_def)
  have "rq_ok r False False True False (?q\<lparr>rq_result := e\<rparr>)"
    using rq(2) ok pc dist by (auto simp: rq_ok_def rq_waiting_def rq_held_def)
  then show "requests_ok tgt (LQ_tell r i n) (view (lq_lock x)) (view (lq_release x))
      ((lq_requests x)[r := ?q\<lparr>rq_result := e\<rparr>])"
    using rq(1) dist pc by (intro requests_ok_update [OF I(2)]) auto
qed

lemma lq_inv_tried:
  assumes ops: "list_contract ops view" and inv: "lq_inv view tgt x"
    and pc: "lq_pc x = LQ_tried r i n" and x': "x' = lq_tried_step ndebug ops r i n x"
    and live: "lq_pc x' \<noteq> LQ_aborted"
  shows "lq_inv view tgt x'"
proof -
  note I = lq_invD [OF inv] and T = tried_request [OF inv pc]
  let ?q = "lq_requests x ! r" and ?R = "view (lq_release x)" and ?m = "lq_targets x (tgt r)"
  let ?H = "holders ?R (lq_requests x)"
  obtain e m where out: "try_end ndebug ?m = Returns (e, m)"
    using live x' T(2)
    by (cases "try_end ndebug ?m") (auto simp: lq_tried_step_def Let_def lq_move_def)
  have minv: "amon_inv m" by (rule try_end_inv [OF targets_okD(2) [OF I(3)] out])
  note tried = try_end_cases [OF targets_okD(2) [OF I(3), of "tgt r"], of ndebug]
  have at: "tgt r \<in> tgt ` ?H \<and> am_pc ?m Queue = M_inside \<or>
      tgt r \<notin> tgt ` ?H \<and> (am_pc ?m Queue = M_tried \<or> am_pc ?m Queue = M_busy)"
    using targets_okD(3) [OF I(3), of "tgt r"] pc by (auto simp: queue_at_def split: if_splits)
  have keep: "am_pc (lq_targets x j) Queue = (if j \<in> tgt ` ?H then M_inside else M_out)"
    if "j \<noteq> tgt r" for j
    using targets_okD(3) [OF I(3), of j] that pc by (auto simp: queue_at_def split: if_splits)
  have inj: "inj_on tgt ?H" by (rule targets_okD(1) [OF I(3)])
  have pass: "i < n" "n - Suc i \<le> length (view (lq_lock x))" using I(4) pc by (auto simp: pass_ok_def)
  have lists: "lists_ok (LQ_tell r i n) (view (lq_lock x)) ?R (length (lq_requests x))"
    using I(1) pc by (auto simp: lists_ok_def)
  show ?thesis
  proof (cases "e = LOCKED")
    case True
    then have got: "tgt r \<notin> tgt ` ?H" "am_pc m Queue = M_inside"
      using at out tried by (cases "a_flag (am_sync ?m) \<or> ndebug"; auto)+
    let ?q' = "?q\<lparr>rq_result := LOCKED\<rparr>"
    have x'': "x' = lq_move (LQ_tell r i n) (set_request r ?q' (set_target (tgt r) m x))"
      using x' out True T(2) by (simp add: lq_tried_step_def Let_def)
    have H: "holders ?R ((lq_requests x)[r := ?q']) = insert r ?H"
      using T by (subst holders_update [OF T(1)]) (auto simp: rq_holds_def)
    have "targets_ok tgt (LQ_tell r i n) (insert r ?H) ((lq_targets x)(tgt r := m))"
      using got minv inj T(7) keep
      by (intro targets_ok_set [OF I(3)]) (auto simp: queue_at_outside)
    then show ?thesis
      using T(8) lists pass by (simp add: x'' lq_inv_def lq_upd pass_ok_def H)
  next
    case False
    then have e: "e = BUSY" "am_pc m Queue = (if tgt r \<in> tgt ` ?H then M_inside else M_out)"
    proof -
      show "e = BUSY" "am_pc m Queue = (if tgt r \<in> tgt ` ?H then M_inside else M_out)"
        using at out tried False
        by (cases "a_flag (am_sync ?m) \<or> ndebug"; auto)+
    qed
    have targets: "targets_ok tgt pc' ?H ((lq_targets x)(tgt r := m))" if "\<not> in_call pc'" for pc'
      using e(2) minv inj keep that by (intro targets_ok_set [OF I(3)]) (auto simp: queue_at_outside)
    show ?thesis
    proof (cases "rq_wait ?q")
      case False
      let ?q' = "?q\<lparr>rq_result := BUSY\<rparr>"
      have x'': "x' = lq_move (LQ_tell r i n) (set_request r ?q' (set_target (tgt r) m x))"
        using x' out e False T(2) by (simp add: lq_tried_step_def Let_def)
      have "holders ?R ((lq_requests x)[r := ?q']) = ?H"
        using T by (intro holders_same) (auto simp: rq_holds_def)
      then show ?thesis
        using T(8) lists pass targets by (simp add: x'' lq_inv_def lq_upd pass_ok_def)
    next
      case True
      have x'': "x' = lq_move (LQ_locks (Suc i) n)
          ((set_target (tgt r) m x)\<lparr>lq_lock := l_add_last ops r (lq_lock x)\<rparr>)"
        using x' out e True T(2) by (simp add: lq_tried_step_def lq_upd Let_def)
      have "requests_ok tgt (LQ_locks (Suc i) n) (view (lq_lock x) @ [r]) ?R (lq_requests x)"
        using pc by (intro requests_ok_same [OF I(2)]) auto
      then show ?thesis
        using I(1) pc T(1,5) pass list_contractD(1) [OF ops] targets
        by (auto simp: x'' lq_inv_def lq_upd pass_ok_def lists_ok_def)
    qed
  qed
qed

text \<open>
  The one assertion of the queue that can fail: that of \<open>trylock\<close> after \<open>EBUSY\<close>, with the flag of
  the owner clear.
\<close>
definition abort_window :: "bool \<Rightarrow> (nat \<Rightarrow> nat) \<Rightarrow> 'l lqueue \<Rightarrow> bool" where
  "abort_window ndebug tgt x \<longleftrightarrow> \<not> ndebug \<and>
     (\<exists>r i n. lq_pc x = LQ_tried r i n \<and> am_pc (lq_targets x (tgt r)) Queue = M_busy \<and>
        \<not> a_flag (am_sync (lq_targets x (tgt r))))"

lemma tell_total:
  assumes inv: "lq_inv view tgt x" and "tells (lq_pc x) r \<or> tells_released (lq_pc x) r"
  shows "tell_request ndebug (lq_requests x ! r) \<noteq> Throws msg"
proof -
  note I = lq_invD [OF inv]
  have "r < length (lq_requests x)" using I(1) assms(2) by (auto simp: lists_ok_def)
  from requests_okD(2) [OF I(2) this] have "rq_waiting r (lq_requests x ! r)"
    using assms(2) by (auto simp: rq_ok_def split: rq_phase.splits)
  then show ?thesis by (rule tell_request_no_throw)
qed

lemma tried_aborts:
  assumes inv: "lq_inv view tgt x" and pc: "lq_pc x = LQ_tried r i n"
    and ab: "lq_pc (lq_tried_step ndebug ops r i n x) = LQ_aborted"
  shows "abort_window ndebug tgt x"
proof -
  note I = lq_invD [OF inv] and T = tried_request [OF inv pc]
  let ?m = "lq_targets x (tgt r)"
  note tried = try_end_cases [OF targets_okD(2) [OF I(3), of "tgt r"], of ndebug]
  have none: "try_end ndebug ?m \<noteq> Returns (e, m)" for e m
    using ab T(2) by (auto simp: lq_tried_step_def Let_def lq_upd split: if_splits)
  have "am_pc ?m Queue = M_inside \<or> am_pc ?m Queue = M_tried \<or> am_pc ?m Queue = M_busy"
    using targets_okD(3) [OF I(3), of "tgt r"] pc by (auto simp: queue_at_def split: if_splits)
  then show ?thesis
    using none tried pc by (fastforce simp: abort_window_def)
qed

lemma lq_inv_run:
  assumes ops: "list_contract ops view" and inv: "lq_inv view tgt x"
    and step: "lq_run_step ndebug ops x = Some x'"
  shows "lq_inv view tgt x' \<or> lq_pc x' = LQ_aborted \<and> abort_window ndebug tgt x"
proof -
  note I = lq_invD [OF inv] and size = list_contractD(4) [OF ops]
  note tell = tell_total [OF inv]
  show ?thesis
  proof (cases "lq_pc x")
    case LQ_releases
    then show ?thesis
      using step size
      by (auto simp: lq_run_step_def pass_ok_def intro: lq_inv_unlock_first [OF ops inv]
          intro!: lq_inv_moves [OF inv] split: if_splits)
  next
    case (LQ_unlocking r)
    then show ?thesis using lq_inv_unlocking [OF inv LQ_unlocking step] by simp
  next
    case (LQ_tell_released r)
    then obtain q where "tell_request ndebug (lq_requests x ! r) = Returns q"
      and "x' = lq_move LQ_releases (set_request r q x)"
      using step tell [of r] by (auto simp: lq_run_step_def split: outcome.splits)
    then show ?thesis
      using LQ_tell_released lq_inv_tell [OF inv, of r ndebug q] by (simp add: pass_ok_def)
  next
    case (LQ_tell r i n)
    then obtain q where "tell_request ndebug (lq_requests x ! r) = Returns q"
      and "x' = lq_move (LQ_locks (Suc i) n) (set_request r q x)"
      using step tell [of r] by (auto simp: lq_run_step_def split: outcome.splits)
    then show ?thesis
      using LQ_tell lq_inv_tell [OF inv, of r ndebug q "LQ_locks (Suc i) n"] I(4)
      by (simp add: pass_ok_def)
  next
    case (LQ_locks i n)
    then show ?thesis
      using step lq_inv_try_first [OF ops inv LQ_locks, of ndebug x']
      by (auto simp: lq_run_step_def pass_ok_def intro!: lq_inv_moves [OF inv] split: if_splits)
  next
    case (LQ_tried r i n)
    then have "x' = lq_tried_step ndebug ops r i n x" using step by (simp add: lq_run_step_def)
    then show ?thesis
      using lq_inv_tried [OF ops inv LQ_tried] tried_aborts [OF inv LQ_tried] by blast
  qed (use step in \<open>(auto simp: lq_run_step_def pass_ok_def intro!: lq_inv_moves [OF inv]
         split: if_splits)[1]\<close>)+
qed

text \<open>A step of the requester \<open>r\<close> that leaves the lists alone.\<close>
lemma lq_inv_requester:
  assumes inv: "lq_inv view tgt x" and r: "r < length (lq_requests x)"
    and q: "rq_target q = tgt r" "\<And>b. rq_holds b q = rq_holds b (lq_requests x ! r)"
      "rq_ok r (r \<in> set (pend (lq_pc x) (view (lq_lock x)))) (r \<in> set (view (lq_release x)))
         (tells (lq_pc x) r) (tells_released (lq_pc x) r) q"
  shows "lq_inv view tgt (set_request r q x)"
  using lq_invD [OF inv] holders_same [OF r q(2)] q
  by (auto simp: lq_inv_def lq_upd intro: requests_ok_update)

lemma lq_free_tells:
  assumes "lq_free x"
  shows "\<not> tells (lq_pc x) r \<and> \<not> tells_released (lq_pc x) r" and "pend (lq_pc x) L = L"
  using assms by (auto simp: lq_free_def)

lemma lq_inv_acquire:
  assumes ops: "list_contract ops view" and inv: "lq_inv view tgt x"
    and r: "r < length (lq_requests x)" and free: "lq_free x"
    and new: "rq_phase (lq_requests x ! r) = Rq_new"
  shows "lq_inv view tgt (lq_acquire ops r x)"
proof -
  note I = lq_invD [OF inv] and add = list_contractD(1) [OF ops]
  note rq = requests_okD [OF I(2) r] and no = lq_free_tells(1) [OF free] and p [simp] = lq_free_tells(2) [OF free]
  let ?q = "(lq_requests x ! r)\<lparr>rq_phase := Rq_posted\<rparr>" and ?L = "view (lq_lock x) @ [r]"
  have out: "r \<notin> set (view (lq_lock x))" "r \<notin> set (view (lq_release x))"
    using rq(2) new by (auto simp: rq_ok_def)
  have "rq_ok r True False False False ?q"
    using rq(2) new by (auto simp: rq_defs)
  then have "requests_ok tgt (lq_pc x) ?L (view (lq_release x)) ((lq_requests x)[r := ?q])"
    using rq(1) out no by (intro requests_ok_update [OF I(2)]) auto
  moreover have "holders (view (lq_release x)) ((lq_requests x)[r := ?q]) =
      holders (view (lq_release x)) (lq_requests x)"
    using rq(2) new by (intro holders_same [OF r]) (auto simp: rq_ok_def rq_holds_def)
  moreover have "pass_ok (lq_pc x) ?L" using free by (auto simp: lq_free_def pass_ok_def)
  ultimately show ?thesis
    using I(1,3) r out no by (simp add: lq_inv_def lq_acquire_def lq_upd add lists_ok_def)
qed

lemma lq_inv_release:
  assumes ops: "list_contract ops view" and inv: "lq_inv view tgt x"
    and r: "r < length (lq_requests x)" and free: "lq_free x"
    and ans: "rq_phase (lq_requests x ! r) = Rq_answered" "rq_result (lq_requests x ! r) = LOCKED"
  shows "lq_inv view tgt (lq_release_request ops r x)"
proof -
  note I = lq_invD [OF inv] and add = list_contractD(1) [OF ops]
  note rq = requests_okD [OF I(2) r] and no = lq_free_tells(1) [OF free] and p [simp] = lq_free_tells(2) [OF free]
  let ?q = "(lq_requests x ! r)\<lparr>rq_phase := Rq_releasing\<rparr>" and ?R = "view (lq_release x) @ [r]"
  have out: "r \<notin> set (view (lq_lock x))" "r \<notin> set (view (lq_release x))"
    using rq(2) ans by (auto simp: rq_ok_def)
  have "rq_ok r False True False False ?q"
    using rq(2) ans by (auto simp: rq_defs)
  then have "requests_ok tgt (lq_pc x) (view (lq_lock x)) ?R ((lq_requests x)[r := ?q])"
    using rq(1) out no by (intro requests_ok_update [OF I(2)]) auto
  moreover have "holders ?R ((lq_requests x)[r := ?q]) =
      holders (view (lq_release x)) (lq_requests x)"
    using ans by (intro holders_same [OF r]) (auto simp: rq_holds_def)
  ultimately show ?thesis
    using I(1,3,4) r out no
    by (simp add: lq_inv_def lq_release_request_def lq_upd add lists_ok_def)
qed

lemma lq_inv_wait:
  assumes inv: "lq_inv view tgt x" and step: "lq_step ndebug ops x (LL_wait r) = Some x'"
  shows "lq_inv view tgt x'"
proof -
  let ?q = "lq_requests x ! r"
  have r: "r < length (lq_requests x)" and ph: "rq_phase ?q \<in> {Rq_posted, Rq_releasing}"
    and own: "a_monitor (rq_sync ?q) = Some (Requester r)"
    using step by (auto simp: lq_step_def split: if_splits outcome.splits)
  have x': "x' = set_request r (?q\<lparr>rq_sync := (rq_sync ?q)\<lparr>a_flag := False, a_monitor := None,
      a_cond := a_cond (rq_sync ?q) @ [Requester r]\<rparr>\<rparr>) x"
    using step r ph own lq_inv_not_aborted [OF inv] by (simp add: lq_step_def a_wait_def cond_wait_def)
  note rq = requests_okD [OF lq_invD(2) [OF inv] r]
  show ?thesis
    unfolding x' using rq ph own
    by (intro lq_inv_requester [OF inv r]) (auto simp: rq_defs split: if_splits)
qed

lemma lq_inv_resume:
  assumes inv: "lq_inv view tgt x" and step: "lq_step ndebug ops x (LL_resume r) = Some x'"
  shows "lq_inv view tgt x'"
proof -
  let ?q = "lq_requests x ! r"
  have r: "r < length (lq_requests x)" and ph: "rq_phase ?q \<in> {Rq_posted, Rq_releasing}"
    and woken: "Requester r \<notin> set (a_cond (rq_sync ?q))" "a_monitor (rq_sync ?q) = None"
    and x': "x' = set_request r (?q\<lparr>rq_sync := (rq_sync ?q)\<lparr>a_monitor := Some (Requester r),
      a_flag := True\<rparr>, rq_phase := rq_next (rq_phase ?q)\<rparr>) x"
    using step by (auto simp: lq_step_def a_resume_def split: if_splits outcome.splits option.splits)
  note rq = requests_okD [OF lq_invD(2) [OF inv] r]
  show ?thesis
    unfolding x' using rq ph woken
    by (intro lq_inv_requester [OF inv r]) (auto simp: rq_defs rq_next_def split: if_splits)
qed

lemma lq_inv_other:
  assumes inv: "lq_inv view tgt x" and step: "lq_step ndebug ops x (LL_other u i c) = Some x'"
  shows "lq_inv view tgt x'"
proof -
  note I = lq_invD [OF inv]
  obtain m where m: "amon_step ndebug (lq_targets x i) (Other u, c) = Some m"
    and x': "x' = set_target i m x"
    using step by (auto simp: lq_step_def split: if_splits)
  have "targets_ok tgt (lq_pc x) (holders (view (lq_release x)) (lq_requests x))
      ((lq_targets x)(i := m))"
    using amon_inv_step [OF targets_okD(2) [OF I(3)] m] other_keeps_queue [OF m]
      targets_okD(1,3) [OF I(3)]
    by (intro targets_ok_set [OF I(3)]) auto
  then show ?thesis using I(1,2,4) by (simp add: x' lq_inv_def lq_upd)
qed

lemma lq_inv_step:
  assumes ops: "list_contract ops view" and inv: "lq_inv view tgt x"
    and step: "lq_step ndebug ops x l = Some x'"
  shows "lq_inv view tgt x' \<or> l = LL_run \<and> lq_pc x' = LQ_aborted \<and> abort_window ndebug tgt x"
proof (cases l)
  case LL_run
  then show ?thesis using step lq_inv_run [OF ops inv] by (auto simp: lq_step_def split: if_splits)
next
  case (LL_acquire r)
  then show ?thesis
    using step by (auto simp: lq_step_def intro: lq_inv_acquire [OF ops inv] split: if_splits)
next
  case (LL_release r)
  then show ?thesis
    using step by (auto simp: lq_step_def intro: lq_inv_release [OF ops inv] split: if_splits)
next
  case (LL_wait r)
  then show ?thesis using step lq_inv_wait [OF inv] by blast
next
  case (LL_resume r)
  then show ?thesis using step lq_inv_resume [OF inv] by blast
next
  case LL_stop
  then show ?thesis using step inv by (auto simp: lq_step_def lq_stop_def lq_inv_def split: if_splits)
next
  case (LL_other u i c)
  then show ?thesis using step lq_inv_other [OF inv] by blast
qed

lemma lq_inv_init:
  assumes "view l0 = []"
  shows "lq_inv view (\<lambda>r. fst (rs ! r)) (lq_construct l0 rs)"
proof -
  have "holders [] (lq_requests (lq_construct l0 rs)) = {}"
    by (auto simp: holders_def lq_construct_def request_construct_def rq_holds_def)
  moreover have "am_pc amon_init Queue = M_out" by (simp add: amon_init_def)
  ultimately show ?thesis
    using assms amon_inv_init
    by (auto simp: lq_inv_def lq_construct_def lists_ok_def requests_ok_def targets_ok_def
        pass_ok_def request_construct_def rq_ok_def rq_held_def queue_at_outside)
qed

lemma lq_reach_inv:
  assumes "list_contract ops view" and "view l0 = []"
    and "reach (lq_step ndebug ops) (lq_construct l0 rs) x"
  shows "lq_inv view (\<lambda>r. fst (rs ! r)) x \<or> lq_pc x = LQ_aborted \<and> \<not> ndebug"
  using assms(3)
proof (induction rule: reach.induct)
  case reach_refl
  then show ?case using lq_inv_init [where view = view, OF assms(2)] by blast
next
  case (reach_step u l v)
  have "lq_pc u \<noteq> LQ_aborted" using reach_step.hyps(2) by (auto simp: lq_step_def split: if_splits)
  with reach_step.IH have "lq_inv view (\<lambda>r. fst (rs ! r)) u" by blast
  from lq_inv_step [OF assms(1) this reach_step.hyps(2)] show ?case
    by (auto simp: abort_window_def)
qed

end
