(* ===== verification/Lock_Queue_Runs.thy ===== *)
theory Lock_Queue_Runs
  imports Lock_Queue_Properties
begin

text \<open>
  The properties of the lock queue: exclusion, progress, and its order of service; and runs in
  which a third thread lets a later request overtake an earlier one, and in which an assertion of
  the queue fails.
\<close>

section \<open>Exclusion and progress\<close>

text \<open>
  C19: the lock queue hands a monitor to one request at a time.  In every execution, whatever other
  threads do with the monitors, one access to the mutex or the flag at a time: until an assertion
  has stopped the program, the queue is inside a monitor exactly while a request for it has been
  granted and not yet released, it is one request only, and no other thread is inside then.  The
  only assertion of the queue that can fail is that of \<open>trylock\<close> in a debug build, after the mutex
  was found busy while the flag of its owner is clear; in a release build none does.
\<close>
theorem lockqueue_exclusive:
  assumes "list_contract ops view" and "view l0 = []"
    and "reach (lq_step ndebug ops) (lq_construct l0 rs) x"
  shows "(lq_pc x \<noteq> LQ_aborted \<longrightarrow>
      (am_pc (lq_targets x i) Queue = M_inside \<longleftrightarrow>
         (\<exists>r < length (lq_requests x). fst (rs ! r) = i \<and>
            rq_holds (r \<in> set (view (lq_release x))) (lq_requests x ! r))) \<and>
      (am_pc (lq_targets x i) Queue = M_inside \<longrightarrow> am_pc (lq_targets x i) t = M_inside \<longrightarrow> t = Queue) \<and>
      (\<forall>r < length (lq_requests x). \<forall>u < length (lq_requests x).
         rq_holds (r \<in> set (view (lq_release x))) (lq_requests x ! r) \<longrightarrow>
         rq_holds (u \<in> set (view (lq_release x))) (lq_requests x ! u) \<longrightarrow>
         fst (rs ! r) = fst (rs ! u) \<longrightarrow> r = u)) \<and>
    (lq_step ndebug ops x l = Some x' \<longrightarrow> lq_pc x' = LQ_aborted \<longrightarrow> \<not> ndebug \<and>
      (\<exists>r k n. lq_pc x = LQ_tried r k n \<and> am_pc (lq_targets x (fst (rs ! r))) Queue = M_busy \<and>
         \<not> a_flag (am_sync (lq_targets x (fst (rs ! r)))))) \<and>
    (ndebug \<longrightarrow> lq_pc x \<noteq> LQ_aborted)"
proof (cases "lq_pc x = LQ_aborted")
  case True
  then show ?thesis using lq_reach_inv [OF assms] by (auto simp: lq_step_def dest: lq_inv_not_aborted)
next
  case False
  with lq_reach_inv [OF assms] have inv: "lq_inv view (\<lambda>r. fst (rs ! r)) x" by blast
  note I = lq_invD [OF inv]
  let ?H = "holders (view (lq_release x)) (lq_requests x)"
  have own: "am_pc (lq_targets x i) Queue = M_inside \<longleftrightarrow> i \<in> (\<lambda>r. fst (rs ! r)) ` ?H"
    by (rule queue_at_inside [OF targets_okD(3) [OF I(3)]])
  have one: "am_pc (lq_targets x i) Queue = M_inside \<Longrightarrow> am_pc (lq_targets x i) t = M_inside \<Longrightarrow>
      t = Queue"
    by (rule amon_invD(3) [OF targets_okD(2) [OF I(3), of i]]) simp_all
  have "abort_window ndebug (\<lambda>r. fst (rs ! r)) x"
    if "lq_step ndebug ops x l = Some x'" "lq_pc x' = LQ_aborted"
    using lq_inv_step [OF assms(1) inv that(1)] that(2) by (auto dest: lq_inv_not_aborted)
  with False own one targets_okD(1) [OF I(3)] show ?thesis
    by (auto simp: abort_window_def holders_def inj_on_def)
qed

lemma tell_request_waiting:
  "rq_waiting r q \<Longrightarrow> \<not> rq_held r q \<Longrightarrow> \<exists>q'. tell_request ndebug q = Returns q'"
  by (auto simp: tell_request_def rq_defs a_lock_def a_unlock_def a_notify_def mutex_lock_def
      mutex_unlock_def Let_def)

text \<open>The step of the thread at a location that tells a request.\<close>
lemma tell_step:
  assumes inv: "lq_inv view tgt x" and tell: "tells (lq_pc x) r \<or> tells_released (lq_pc x) r"
    and calls: "\<not> in_call (lq_pc x)"
  shows "\<exists>x'. lq_step ndebug ops x LL_run = Some x' \<or>
    (\<exists>y. lq_step ndebug ops x (LL_wait r) = Some y \<and> lq_step ndebug ops y LL_run = Some x')"
proof -
  note I = lq_invD [OF inv]
  have r: "r < length (lq_requests x)" using I(1) tell by (auto simp: lists_ok_def)
  let ?q = "lq_requests x ! r"
  note rq = requests_okD [OF I(2) r]
  have w: "rq_waiting r ?q" and ph: "rq_phase ?q \<in> {Rq_posted, Rq_releasing}"
    using rq(2) tell by (auto simp: rq_ok_def split: rq_phase.splits)
  have run: "\<exists>x'. lq_step ndebug ops y LL_run = Some x'"
    if "lq_pc y = lq_pc x" "rq_waiting r (lq_requests y ! r)" "\<not> rq_held r (lq_requests y ! r)" for y
    using tell calls that(1) tell_request_waiting [OF that(2,3), of ndebug]
    by (auto simp: lq_step_def lq_run_step_def tells_def tells_released_def)
  show ?thesis
  proof (cases "rq_held r ?q")
    case False
    then show ?thesis using run w by blast
  next
    case True
    let ?y = "set_request r (?q\<lparr>rq_sync := \<lparr>a_monitor = None, a_cond = [Requester r],
        a_flag = False\<rparr>\<rparr>) x"
    have "lq_step ndebug ops x (LL_wait r) = Some ?y"
      using True ph r lq_inv_not_aborted [OF inv]
      by (cases "rq_sync ?q") (simp add: lq_step_def rq_held_def a_wait_def cond_wait_def)
    moreover have "\<exists>x'. lq_step ndebug ops ?y LL_run = Some x'"
      using r by (intro run) (simp_all add: lq_upd rq_waiting_def rq_held_def)
    ultimately show ?thesis by blast
  qed
qed

lemma unlock_first_enabled:
  assumes ops: "list_contract ops view" and "view (lq_release x) \<noteq> []"
  shows "\<exists>x'. lq_unlock_first ndebug ops x = Some x'"
proof -
  obtain r rest where "l_remove_first ops (lq_release x) = (Some r, rest)"
    using list_contractD(2) [OF ops, of "lq_release x"] assms(2)
    by (metis option.exhaust surj_pair)
  then show ?thesis by (auto simp: lq_unlock_first_def Let_def split: option.splits)
qed

lemma try_first_enabled:
  assumes ops: "list_contract ops view" and inv: "lq_inv view tgt x"
    and pc: "lq_pc x = LQ_locks i n" and i: "i < n"
  shows "\<exists>x'. lq_try_first ndebug ops i n x = Some x'"
proof -
  obtain r rest where "l_remove_first ops (lq_lock x) = (Some r, rest)"
    using pass_remove [OF ops inv pc i] .
  then show ?thesis by (auto simp: lq_try_first_def Let_def)
qed

lemma run_enabled:
  assumes ops: "list_contract ops view" and inv: "lq_inv view tgt x"
    and pc: "in_call (lq_pc x) \<or> (\<forall>r. \<not> tells (lq_pc x) r \<and> \<not> tells_released (lq_pc x) r)"
      "lq_pc x \<noteq> LQ_done"
  shows "\<exists>x'. lq_step ndebug ops x LL_run = Some x'"
proof (cases "lq_pc x")
  case LQ_releases
  then show ?thesis
    using unlock_first_enabled [OF ops] list_contractD(4) [OF ops]
    by (auto simp: lq_step_def lq_run_step_def)
next
  case (LQ_unlocking r)
  then show ?thesis by (auto simp: lq_step_def lq_run_step_def Let_def split: option.splits)
next
  case (LQ_locks i n)
  then show ?thesis
    using try_first_enabled [OF ops inv LQ_locks] by (auto simp: lq_step_def lq_run_step_def)
next
  case LQ_aborted
  then show ?thesis using lq_invD(4) [OF inv] by (simp add: pass_ok_def)
qed (use pc in \<open>auto simp: lq_step_def lq_run_step_def\<close>)

text \<open>
  C21: the lock queue and its requesters never block each other.  Until it has ended, or a failed
  assertion of a debug build has ended the program, the thread of the queue can take a step, at
  once or after the requester it is about to tell has called wait; and a requester waits only for
  a request that is pending in one of the lists, in the hand of the queue or about to be told:
  otherwise its wait can return, so no notification is lost.
\<close>
theorem lockqueue_progress:
  assumes "list_contract ops view" and "view l0 = []"
    and "reach (lq_step ndebug ops) (lq_construct l0 rs) x"
  shows "lq_pc x = LQ_aborted \<and> \<not> ndebug \<or>
    (lq_pc x = LQ_done \<or>
     (\<exists>x'. lq_step ndebug ops x LL_run = Some x') \<or>
     (\<exists>r y x'. lq_step ndebug ops x (LL_wait r) = Some y \<and>
        lq_step ndebug ops y LL_run = Some x')) \<and>
    (\<forall>r < length (lq_requests x). rq_phase (lq_requests x ! r) \<in> {Rq_posted, Rq_releasing} \<longrightarrow>
       r \<in> set (pend (lq_pc x) (view (lq_lock x))) \<or> r \<in> set (view (lq_release x)) \<or>
       tells (lq_pc x) r \<or> tells_released (lq_pc x) r \<or>
       (\<exists>y. lq_step ndebug ops x (LL_resume r) = Some y))"
proof (cases "lq_pc x = LQ_aborted \<and> \<not> ndebug")
  case False
  with lq_reach_inv [OF assms] have inv: "lq_inv view (\<lambda>r. fst (rs ! r)) x" by blast
  have "lq_pc x = LQ_done \<or>
     (\<exists>x'. lq_step ndebug ops x LL_run = Some x') \<or>
     (\<exists>r y x'. lq_step ndebug ops x (LL_wait r) = Some y \<and>
        lq_step ndebug ops y LL_run = Some x')"
    using run_enabled [OF assms(1) inv, of ndebug] tell_step [OF inv] by blast
  moreover have "r \<in> set (pend (lq_pc x) (view (lq_lock x))) \<or> r \<in> set (view (lq_release x)) \<or>
       tells (lq_pc x) r \<or> tells_released (lq_pc x) r \<or>
       (\<exists>y. lq_step ndebug ops x (LL_resume r) = Some y)"
    if "r < length (lq_requests x)" "rq_phase (lq_requests x ! r) \<in> {Rq_posted, Rq_releasing}" for r
    using requests_okD(2) [OF lq_invD(2) [OF inv] that(1)] that lq_inv_not_aborted [OF inv]
    by (auto simp: rq_ok_def rq_told_def lq_step_def a_resume_def split: if_splits)
  ultimately show ?thesis by blast
qed simp

section \<open>The order of service\<close>

text \<open>
  The pending requests in the order in which they were posted: during a pass over
  \<open>pendingLock\<close> those already tried and put back stand at its end, and one may be in the hand of
  the queue.
\<close>
definition pass_left :: "lq_pc \<Rightarrow> nat list \<Rightarrow> nat" where
  "pass_left pc L =
     (case pc of LQ_locks i n \<Rightarrow> n - i | LQ_tried r i n \<Rightarrow> n - Suc i | LQ_tell r i n \<Rightarrow> n - Suc i
      | _ \<Rightarrow> length L)"

definition put_back :: "lq_pc \<Rightarrow> nat list \<Rightarrow> nat list" where
  "put_back pc L = drop (pass_left pc L) L"

definition lq_order :: "lq_pc \<Rightarrow> nat list \<Rightarrow> nat list" where
  "lq_order pc L = put_back pc L @ (case pc of LQ_tried r i n \<Rightarrow> [r] | _ \<Rightarrow> []) @
     take (pass_left pc L) L"

lemma lq_order_simps [simp]:
  "lq_order LQ_start L = L" "lq_order LQ_while L = L" "lq_order LQ_releases L = L"
  "lq_order (LQ_unlocking u) L = L" "lq_order (LQ_tell_released u) L = L"
  "lq_order (LQ_locks i n) L = drop (n - i) L @ take (n - i) L"
  "lq_order (LQ_tried r i n) L = drop (n - Suc i) L @ r # take (n - Suc i) L"
  "lq_order (LQ_tell r i n) L = drop (n - Suc i) L @ take (n - Suc i) L"
  "lq_order LQ_asleep L = L" "lq_order LQ_done L = L"
  by (simp_all add: lq_order_def put_back_def pass_left_def)

lemma put_back_simps [simp]:
  "put_back LQ_start L = []" "put_back LQ_while L = []" "put_back LQ_releases L = []"
  "put_back (LQ_unlocking u) L = []" "put_back (LQ_tell_released u) L = []"
  "put_back (LQ_locks i n) L = drop (n - i) L" "put_back (LQ_tried r i n) L = drop (n - Suc i) L"
  "put_back (LQ_tell r i n) L = drop (n - Suc i) L"
  "put_back LQ_asleep L = []" "put_back LQ_done L = []"
  by (simp_all add: put_back_def pass_left_def)

lemma set_drop_take: "set (drop k L) \<union> set (take k L) = set L"
  by (metis append_take_drop_id set_append sup_commute)

lemma set_lq_order: "set (lq_order pc L) = set (pend pc L)"
  using set_drop_take [of "pass_left pc L" L]
  by (cases pc) (auto simp: lq_order_def put_back_def pend_def)

text \<open>
  The requests posted, in order (\<open>ps\<close>), those pending (\<open>pending\<close>), granted and held: what is
  pending stands in the order posted, and when a request has been granted, every request for
  the same monitor that was posted before it is neither pending nor holds the monitor.
\<close>
definition before :: "nat list \<Rightarrow> nat \<Rightarrow> nat \<Rightarrow> bool" where
  "before ps u r \<longleftrightarrow> (\<exists>us vs. ps = us @ u # vs \<and> r \<in> set vs)"

definition served ::
  "(nat \<Rightarrow> nat) \<Rightarrow> nat list \<Rightarrow> nat list \<Rightarrow> nat set \<Rightarrow> nat set \<Rightarrow> bool" where
  "served tgt ps pending granted held \<longleftrightarrow>
     distinct ps \<and> pending = filter (\<lambda>r. r \<in> set pending) ps \<and>
     granted \<subseteq> set ps \<and> granted \<inter> set pending = {} \<and>
     (\<forall>u r. before ps u r \<longrightarrow> tgt u = tgt r \<longrightarrow> r \<in> granted \<longrightarrow> u \<notin> set pending \<and> u \<notin> held)"

lemma before_snoc: "before (ps @ [x]) u r \<longleftrightarrow> before ps u r \<or> u \<in> set ps \<and> r = x"
proof
  assume "before (ps @ [x]) u r"
  then obtain us vs where vs: "ps @ [x] = us @ u # vs" "r \<in> set vs" by (auto simp: before_def)
  then obtain vs' where "vs = vs' @ [x]" by (cases vs rule: rev_cases) auto
  with vs show "before ps u r \<or> u \<in> set ps \<and> r = x" by (auto simp: before_def)
next
  assume "before ps u r \<or> u \<in> set ps \<and> r = x"
  then show "before (ps @ [x]) u r"
  proof
    assume "before ps u r"
    then obtain us vs where "ps = us @ u # vs" "r \<in> set vs" by (auto simp: before_def)
    then have "ps @ [x] = us @ u # (vs @ [x])" "r \<in> set (vs @ [x])" by simp_all
    then show ?thesis unfolding before_def by blast
  next
    assume "u \<in> set ps \<and> r = x"
    then obtain us vs where "ps = us @ u # vs" by (auto simp: in_set_conv_decomp)
    then have "ps @ [x] = us @ u # (vs @ [x])" by simp
    then show ?thesis using \<open>u \<in> set ps \<and> r = x\<close> unfolding before_def by fastforce
  qed
qed

lemma before_filter:
  assumes "before ps u r" and "distinct ps" and "filter P ps = A @ r # B" and "P u"
  shows "u \<in> set A"
proof -
  obtain us vs where ps: "ps = us @ u # vs" and r: "r \<in> set vs" using assms(1) by (auto simp: before_def)
  obtain v1 v2 where vs: "vs = v1 @ r # v2" using r by (auto simp: in_set_conv_decomp)
  have "r \<in> set (filter P ps)" unfolding assms(3) by simp
  then have "P r" by simp
  then have "(filter P us @ u # filter P v1) @ r # filter P v2 = A @ r # B"
    using assms(3,4) ps vs by simp
  moreover have "r \<notin> set (filter P us @ u # filter P v1)" "r \<notin> set (filter P v2)"
    using assms(2) ps vs by auto
  ultimately have "A = filter P us @ u # filter P v1"
    using assms(2) ps vs by (metis append_Cons_eq_iff)
  then show ?thesis by simp
qed

lemma served_post:
  assumes "served tgt ps pending granted held" and "r \<notin> set ps"
  shows "served tgt (ps @ [r]) (pending @ [r]) granted held"
proof -
  have sub: "set pending \<subseteq> set ps" using assms(1) by (metis filter_is_subset served_def)
  have "filter (\<lambda>x. x \<in> set (pending @ [r])) ps = filter (\<lambda>x. x \<in> set pending) ps"
    using assms(2) by (intro filter_cong) auto
  then have "filter (\<lambda>x. x \<in> set (pending @ [r])) (ps @ [r]) = pending @ [r]"
    using assms(1) by (simp add: served_def)
  then show ?thesis
    using assms sub unfolding served_def before_snoc
    by (auto simp: before_def)
qed

lemma served_remove:
  assumes "served tgt ps (A @ r # B) granted held" and "granted' \<subseteq> insert r granted"
    and "held' \<subseteq> insert r held"
    and "r \<in> granted' \<or> r \<in> held' \<Longrightarrow>
      (\<forall>u \<in> set A. tgt u \<noteq> tgt r) \<and> (\<forall>u \<in> held. tgt u \<noteq> tgt r)"
  shows "served tgt ps (A @ B) granted' held'"
proof -
  let ?O = "A @ r # B"
  note S = assms(1) [unfolded served_def]
  have dist: "distinct ?O" using S by (metis distinct_filter)
  have sub: "set ?O \<subseteq> set ps" using S by (metis filter_is_subset)
  have "filter (\<lambda>x. x \<in> set (A @ B)) ps = filter (\<lambda>x. x \<noteq> r) (filter (\<lambda>x. x \<in> set ?O) ps)"
    unfolding filter_filter using dist by (intro filter_cong) auto
  also have "filter (\<lambda>x. x \<in> set ?O) ps = ?O" by (rule sym) (use S in blast)
  also have "filter (\<lambda>x. x \<noteq> r) ?O = A @ B"
  proof -
    have "filter (\<lambda>x. x \<noteq> r) A = A" "filter (\<lambda>x. x \<noteq> r) B = B"
      using dist by (auto intro!: filter_True)
    then show ?thesis by simp
  qed
  finally have order: "A @ B = filter (\<lambda>x. x \<in> set (A @ B)) ps" by simp
  have "u \<notin> set (A @ B) \<and> u \<notin> held'"
    if uv: "before ps u v" "tgt u = tgt v" "v \<in> granted'" for u v
  proof (cases "v \<in> granted")
    case True
    then have "u \<notin> set ?O" "u \<notin> held" using S uv by blast+
    then show ?thesis using assms(3) by auto
  next
    case False
    then have v: "v = r" using uv(3) assms(2) by blast
    have none: "\<forall>u \<in> set A. tgt u \<noteq> tgt r" "\<forall>u \<in> held. tgt u \<noteq> tgt r"
      using assms(4) uv(3) v by blast+
    have "u \<noteq> r" using uv(1) v S by (auto simp: before_def)
    moreover have "u \<notin> set ?O"
    proof
      assume "u \<in> set ?O"
      then have "u \<in> set A"
        using before_filter [of ps u r "\<lambda>x. x \<in> set ?O" A B] uv(1) v S by simp
      then show False using none(1) uv(2) v by auto
    qed
    ultimately show ?thesis using none(2) uv(2) v assms(3) by auto
  qed
  moreover have "granted' \<subseteq> set ps" "granted' \<inter> set (A @ B) = {}"
  proof -
    have "r \<in> set ps" using sub by simp
    moreover have "granted \<subseteq> set ps" "granted \<inter> set ?O = {}" using S by blast+
    moreover have "r \<notin> set (A @ B)" "set (A @ B) \<subseteq> set ?O" using dist by auto
    ultimately show "granted' \<subseteq> set ps" "granted' \<inter> set (A @ B) = {}"
      using assms(2) by blast+
  qed
  ultimately show ?thesis using S order unfolding served_def by blast
qed

lemma served_smaller:
  assumes "served tgt ps pending granted held" and "held' \<subseteq> held"
  shows "served tgt ps pending granted held'"
  using assms unfolding served_def by blast

definition lq_granted :: "request list \<Rightarrow> nat set" where
  "lq_granted reqs = {r. r < length reqs \<and> rq_result (reqs ! r) = LOCKED}"

definition lq_posted :: "request list \<Rightarrow> nat set" where
  "lq_posted reqs = {r. r < length reqs \<and> rq_phase (reqs ! r) \<noteq> Rq_new}"

text \<open>A request that is neither pending nor granted was refused, and is one that does not wait.\<close>
definition refused_ok :: "nat set \<Rightarrow> request list \<Rightarrow> bool" where
  "refused_ok P reqs \<longleftrightarrow>
     (\<forall>r \<in> lq_posted reqs - P. rq_result (reqs ! r) \<noteq> LOCKED \<longrightarrow> \<not> rq_wait (reqs ! r))"

text \<open>The executions in which the monitors are locked through the queue only.\<close>
definition lq_quiet_step ::
  "bool \<Rightarrow> 'l list_ops \<Rightarrow> 'l lqueue \<Rightarrow> lq_label \<Rightarrow> 'l lqueue option" where
  "lq_quiet_step ndebug ops x l =
     (case l of LL_other u i c \<Rightarrow> None | _ \<Rightarrow> lq_step ndebug ops x l)"

text \<open>The requests a schedule posts.\<close>
fun posts :: "lq_label list \<Rightarrow> nat list" where
  "posts [] = []"
| "posts (LL_acquire r # ls) = r # posts ls"
| "posts (l # ls) = posts ls"

lemma posts_append [simp]: "posts (ls @ ls') = posts ls @ posts ls'"
  by (induction ls rule: posts.induct) simp_all

definition quiet_targets :: "(nat \<Rightarrow> lq_thread amon) \<Rightarrow> bool" where
  "quiet_targets targets \<longleftrightarrow>
     (\<forall>i. am_pc (targets i) Queue \<noteq> M_busy \<and> (\<forall>t. t \<noteq> Queue \<longrightarrow> am_pc (targets i) t = M_out))"

text \<open>A request that was put back found its monitor taken by the queue, and it still is.\<close>
definition fifo_inv :: "('l \<Rightarrow> nat list) \<Rightarrow> (nat \<Rightarrow> nat) \<Rightarrow> nat list \<Rightarrow> 'l lqueue \<Rightarrow> bool" where
  "fifo_inv view tgt ps x \<longleftrightarrow> lq_inv view tgt x \<and> quiet_targets (lq_targets x) \<and>
     (\<forall>u \<in> set (put_back (lq_pc x) (view (lq_lock x))).
        am_pc (lq_targets x (tgt u)) Queue = M_inside) \<and>
     set ps = lq_posted (lq_requests x) \<and>
     refused_ok (set (lq_order (lq_pc x) (view (lq_lock x)))) (lq_requests x) \<and>
     served tgt ps (lq_order (lq_pc x) (view (lq_lock x))) (lq_granted (lq_requests x))
       (holders (view (lq_release x)) (lq_requests x))"

lemma fifo_invD:
  assumes "fifo_inv view tgt ps x"
  shows "lq_inv view tgt x" and "quiet_targets (lq_targets x)"
    and "u \<in> set (put_back (lq_pc x) (view (lq_lock x))) \<Longrightarrow>
         am_pc (lq_targets x (tgt u)) Queue = M_inside"
    and "set ps = lq_posted (lq_requests x)"
    and "refused_ok (set (lq_order (lq_pc x) (view (lq_lock x)))) (lq_requests x)"
    and "served tgt ps (lq_order (lq_pc x) (view (lq_lock x))) (lq_granted (lq_requests x))
       (holders (view (lq_release x)) (lq_requests x))"
  using assms by (simp_all add: fifo_inv_def)

text \<open>A request changes without being posted, answered or granted.\<close>
lemma lists_same:
  assumes "rq_result q = rq_result (reqs ! r)" and "rq_wait q = rq_wait (reqs ! r)"
    and "rq_phase q = Rq_new \<longleftrightarrow> rq_phase (reqs ! r) = Rq_new"
  shows "lq_granted (reqs[r := q]) = lq_granted reqs" and "lq_posted (reqs[r := q]) = lq_posted reqs"
    and "refused_ok P (reqs[r := q]) = refused_ok P reqs"
proof -
  have upd: "reqs[r := q] ! u = (if u = r then q else reqs ! u)" if "u < length reqs" for u
    using that by (cases "u = r") simp_all
  show posted: "lq_posted (reqs[r := q]) = lq_posted reqs"
    using assms(3) by (auto simp: lq_posted_def upd split: if_splits)
  show "lq_granted (reqs[r := q]) = lq_granted reqs"
    using assms(1) by (auto simp: lq_granted_def upd split: if_splits)
  have "rq_result (reqs[r := q] ! u) = rq_result (reqs ! u) \<and>
      rq_wait (reqs[r := q] ! u) = rq_wait (reqs ! u)" if "u \<in> lq_posted reqs" for u
    using assms(1,2) that by (simp add: upd lq_posted_def)
  then show "refused_ok P (reqs[r := q]) = refused_ok P reqs"
    unfolding refused_ok_def posted by auto
qed

text \<open>A step that keeps the order and the results.\<close>
lemma fifo_same:
  assumes fifo: "fifo_inv view tgt ps x" and inv': "lq_inv view tgt x'"
    and order: "lq_order (lq_pc x') (view (lq_lock x')) = lq_order (lq_pc x) (view (lq_lock x))"
    and reqs: "lq_granted (lq_requests x') = lq_granted (lq_requests x)"
      "lq_posted (lq_requests x') = lq_posted (lq_requests x)"
      "\<And>P. refused_ok P (lq_requests x') = refused_ok P (lq_requests x)"
    and held: "holders (view (lq_release x')) (lq_requests x') \<subseteq>
      holders (view (lq_release x)) (lq_requests x)"
    and kept: "quiet_targets (lq_targets x')"
      "set (put_back (lq_pc x') (view (lq_lock x'))) = {} \<or>
       set (put_back (lq_pc x') (view (lq_lock x'))) \<subseteq> set (put_back (lq_pc x) (view (lq_lock x))) \<and>
       lq_targets x' = lq_targets x"
  shows "fifo_inv view tgt ps x'"
  using inv' kept fifo_invD [OF fifo] served_smaller [OF fifo_invD(6) [OF fifo] held]
  unfolding fifo_inv_def order reqs by auto

lemma quiet_set:
  assumes "quiet_targets targets" and "am_pc m Queue \<noteq> M_busy"
    and "\<And>t. t \<noteq> Queue \<Longrightarrow> am_pc m t = M_out"
  shows "quiet_targets (targets(i := m))"
  using assms by (simp add: quiet_targets_def)

lemma queue_step_others:
  "amon_step ndebug m (Queue, c) = Some m' \<Longrightarrow> t \<noteq> Queue \<Longrightarrow> am_pc m' t = am_pc m t"
  by (auto simp: amon_step_def am_go_def am_move_def Let_def
      split: mon_act.splits mon_pc.splits if_splits pcall.splits prod.splits)

lemma quiet_try_begin:
  assumes "amon_inv (targets i)" and quiet: "quiet_targets targets"
    and pc: "am_pc (targets i) Queue = M_out \<or> am_pc (targets i) Queue = M_inside"
  shows "quiet_targets (targets(i := try_begin ndebug (targets i)))"
proof (rule quiet_set [OF quiet])
  have "a_monitor (am_sync (targets i)) = None" if "am_pc (targets i) Queue = M_out"
  proof (rule ccontr)
    assume "a_monitor (am_sync (targets i)) \<noteq> None"
    then obtain t where "mon_owns (am_pc (targets i) t)" using amon_invD(1) [OF assms(1)] by blast
    then show False using quiet that by (cases "t = Queue") (auto simp: quiet_targets_def)
  qed
  then show "am_pc (try_begin ndebug (targets i)) Queue \<noteq> M_busy"
    using pc try_begin_pc [of "targets i" ndebug] by auto
  show "am_pc (try_begin ndebug (targets i)) t = M_out" if "t \<noteq> Queue" for t
    using quiet that queue_step_others [OF _ that]
    by (auto simp: try_begin_def quiet_targets_def split: option.splits)
qed

lemma try_end_others:
  "try_end ndebug m = Returns (e, m') \<Longrightarrow> t \<noteq> Queue \<Longrightarrow> am_pc m' t = am_pc m t"
  using queue_step_others [of ndebug m Act_go]
  by (auto simp: try_end_def amon_step_def split: option.splits if_splits)

text \<open>The end of a round: the request is granted, refused or put back.\<close>
lemma fifo_tried:
  assumes ops: "list_contract ops view" and fifo: "fifo_inv view tgt ps x"
    and pc: "lq_pc x = LQ_tried r i n" and x': "x' = lq_tried_step ndebug ops r i n x"
  shows "fifo_inv view tgt ps x'"
proof -
  note F = fifo_invD [OF fifo]
  note I = lq_invD [OF F(1)] and T = tried_request [OF F(1) pc]
  let ?q = "lq_requests x ! r" and ?R = "view (lq_release x)" and ?m = "lq_targets x (tgt r)"
  let ?L = "view (lq_lock x)" and ?H = "holders (view (lq_release x)) (lq_requests x)"
  let ?A = "drop (n - Suc i) ?L" and ?B = "take (n - Suc i) ?L"
  note tried = try_end_cases [OF targets_okD(2) [OF I(3), of "tgt r"], of ndebug]
  have at: "tgt r \<in> tgt ` ?H \<and> am_pc ?m Queue = M_inside \<or>
      tgt r \<notin> tgt ` ?H \<and> am_pc ?m Queue = M_tried"
    using targets_okD(3) [OF I(3), of "tgt r"] pc F(2)
    by (auto simp: queue_at_def quiet_targets_def split: if_splits)
  have live: "lq_pc x' \<noteq> LQ_aborted"
    using tried_aborts [OF F(1) pc, of ndebug ops] at x' by (auto simp: abort_window_def pc)
  have inv': "lq_inv view tgt x'" by (rule lq_inv_tried [OF ops F(1) pc x' live])
  have pass: "n - Suc i \<le> length ?L" using I(4) pc by (simp add: pass_ok_def)
  have S: "served tgt ps (?A @ r # ?B) (lq_granted (lq_requests x)) ?H" using F(6) pc by simp
  have kept: "am_pc (lq_targets x (tgt u)) Queue = M_inside" if "u \<in> set ?A" for u
    using F(3) [of u] pc that by simp
  have posted: "r \<in> set ps" using F(4) T(1,4) by (simp add: lq_posted_def)
  have rin: "set (?A @ ?B) = set ?L" using set_drop_take [of "n - Suc i" ?L] by auto
  from at show ?thesis
  proof
    assume busy: "tgt r \<in> tgt ` ?H \<and> am_pc ?m Queue = M_inside"
    then have out: "try_end ndebug ?m = Returns (BUSY, ?m)" using tried(2) by blast
    show ?thesis
    proof (cases "rq_wait ?q")
      case False
      let ?q' = "?q\<lparr>rq_result := BUSY\<rparr>"
      have x'': "x' = lq_move (LQ_tell r i n) (set_request r ?q' x)"
        using x' out False T(2) by (simp add: lq_tried_step_def Let_def set_target_def)
      have upd: "(lq_requests x)[r := ?q'] ! u = (if u = r then ?q' else lq_requests x ! u)"
        if "u < length (lq_requests x)" for u using that by (cases "u = r") simp_all
      have G: "lq_granted ((lq_requests x)[r := ?q']) = lq_granted (lq_requests x)"
        using T(3) by (auto simp: lq_granted_def upd split: if_splits)
      have P: "lq_posted ((lq_requests x)[r := ?q']) = lq_posted (lq_requests x)"
        using T(4) by (auto simp: lq_posted_def upd split: if_splits)
      have H: "holders ?R ((lq_requests x)[r := ?q']) = ?H"
        using T by (intro holders_same) (auto simp: rq_holds_def)
      have "refused_ok (set (?A @ ?B)) ((lq_requests x)[r := ?q'])"
        using F(5) False pc T(1) unfolding refused_ok_def P by (auto simp: upd lq_posted_def)
      moreover have "served tgt ps (?A @ ?B) (lq_granted (lq_requests x)) ?H"
        using T(3,7) by (intro served_remove [OF S]) (auto simp: lq_granted_def)
      ultimately show ?thesis
        using inv' F(2,4) kept unfolding fifo_inv_def x''
        by (simp add: lq_upd G P H)
    next
      case True
      have x'': "x' = lq_move (LQ_locks (Suc i) n) (x\<lparr>lq_lock := l_add_last ops r (lq_lock x)\<rparr>)"
        using x' out True T(2) by (simp add: lq_tried_step_def lq_upd Let_def)
      have "drop (n - Suc i) (?L @ [r]) @ take (n - Suc i) (?L @ [r]) = ?A @ r # ?B"
        using pass by simp
      then show ?thesis
        using inv' F(2,4,5,6) kept busy pass list_contractD(1) [OF ops] pc unfolding fifo_inv_def x''
        by (auto simp: lq_upd)
    qed
  next
    assume free: "tgt r \<notin> tgt ` ?H \<and> am_pc ?m Queue = M_tried"
    then obtain m where out: "try_end ndebug ?m = Returns (LOCKED, m)" "am_pc m Queue = M_inside"
      using tried(1) by blast
    let ?q' = "?q\<lparr>rq_result := LOCKED\<rparr>"
    have x'': "x' = lq_move (LQ_tell r i n) (set_request r ?q' (set_target (tgt r) m x))"
      using x' out(1) T(2) by (simp add: lq_tried_step_def Let_def)
    have upd: "(lq_requests x)[r := ?q'] ! u = (if u = r then ?q' else lq_requests x ! u)"
      if "u < length (lq_requests x)" for u using that by (cases "u = r") simp_all
    have G: "lq_granted ((lq_requests x)[r := ?q']) = insert r (lq_granted (lq_requests x))"
      using T(1) by (auto simp: lq_granted_def upd split: if_splits)
    have P: "lq_posted ((lq_requests x)[r := ?q']) = lq_posted (lq_requests x)"
      using T(4) by (auto simp: lq_posted_def upd split: if_splits)
    have H: "holders ?R ((lq_requests x)[r := ?q']) = insert r ?H"
      using T by (subst holders_update [OF T(1)]) (auto simp: rq_holds_def)
    have "refused_ok (set (?A @ ?B)) ((lq_requests x)[r := ?q'])"
      using F(5) pc T(1) unfolding refused_ok_def P by (auto simp: upd lq_posted_def)
    moreover have "tgt u \<noteq> tgt r" if "u \<in> set ?A" for u
    proof
      assume "tgt u = tgt r"
      with kept [OF that] free show False by simp
    qed
    moreover have "tgt u \<noteq> tgt r" if "u \<in> ?H" for u
      using free imageI [OF that, of tgt] by auto
    ultimately have "refused_ok (set (?A @ ?B)) ((lq_requests x)[r := ?q'])"
      and "served tgt ps (?A @ ?B) (insert r (lq_granted (lq_requests x))) (insert r ?H)"
      by (simp, intro served_remove [OF S]) auto
    moreover have "quiet_targets ((lq_targets x)(tgt r := m))"
      using out(2) try_end_others [OF out(1)] F(2)
      by (intro quiet_set [OF F(2)]) (auto simp: quiet_targets_def)
    ultimately show ?thesis
      using inv' F(4) kept free out(2) unfolding fifo_inv_def x''
      by (auto simp: lq_upd G P H)
  qed
qed

lemma fifo_told:
  assumes fifo: "fifo_inv view tgt ps x" and inv': "lq_inv view tgt (lq_move pc (set_request r q x))"
    and r: "r < length (lq_requests x)"
    and out: "tell_request ndebug (lq_requests x ! r) = Returns q"
    and order: "lq_order pc (view (lq_lock x)) = lq_order (lq_pc x) (view (lq_lock x))"
    and kept: "set (put_back pc (view (lq_lock x))) \<subseteq> set (put_back (lq_pc x) (view (lq_lock x)))"
  shows "fifo_inv view tgt ps (lq_move pc (set_request r q x))"
proof -
  have q: "rq_result q = rq_result (lq_requests x ! r)" "rq_wait q = rq_wait (lq_requests x ! r)"
    "rq_phase q = rq_phase (lq_requests x ! r)"
    using out by (auto simp: tell_request_def split: outcome.splits)
  have "holders R ((lq_requests x)[r := q]) = holders R (lq_requests x)" for R
    using q r by (intro holders_same) (auto simp: rq_holds_def)
  then show ?thesis
    using lists_same [of q "lq_requests x" r] q order kept fifo_invD(2) [OF fifo]
    by (intro fifo_same [OF fifo inv']) (simp_all add: lq_upd)
qed

lemma fifo_run:
  assumes ops: "list_contract ops view" and fifo: "fifo_inv view tgt ps x"
    and step: "lq_run_step ndebug ops x = Some x'"
  shows "fifo_inv view tgt ps x'"
proof -
  note F = fifo_invD [OF fifo]
  note I = lq_invD [OF F(1)] and size = list_contractD(4) [OF ops]
  have inv': "lq_inv view tgt x'" if "\<not> (\<exists>r i n. lq_pc x = LQ_tried r i n)"
    using lq_inv_run [OF ops F(1) step] that by (auto simp: abort_window_def)
  have told: "r < length (lq_requests x)" if "tells (lq_pc x) r \<or> tells_released (lq_pc x) r" for r
    using I(1) that by (auto simp: lists_ok_def)
  note tell = tell_total [OF F(1)]
  have moves: "fifo_inv view tgt ps (lq_move pc x)"
    if "lq_inv view tgt (lq_move pc x)"
      "lq_order pc (view (lq_lock x)) = lq_order (lq_pc x) (view (lq_lock x))"
      "set (put_back pc (view (lq_lock x))) = {}" for pc
    using that F(2) by (intro fifo_same [OF fifo that(1)]) (simp_all add: lq_move_def)
  show ?thesis
  proof (cases "lq_pc x")
    case (LQ_tried r i n)
    then have "x' = lq_tried_step ndebug ops r i n x" using step by (simp add: lq_run_step_def)
    then show ?thesis by (rule fifo_tried [OF ops fifo LQ_tried])
  next
    case (LQ_tell r i n)
    then obtain q where "tell_request ndebug (lq_requests x ! r) = Returns q"
      and "x' = lq_move (LQ_locks (Suc i) n) (set_request r q x)"
      using step tell [of r] by (auto simp: lq_run_step_def split: outcome.splits)
    then show ?thesis
      using LQ_tell inv' told by (auto intro!: fifo_told [OF fifo])
  next
    case (LQ_tell_released r)
    then obtain q where "tell_request ndebug (lq_requests x ! r) = Returns q"
      and "x' = lq_move LQ_releases (set_request r q x)"
      using step tell [of r] by (auto simp: lq_run_step_def split: outcome.splits)
    then show ?thesis
      using LQ_tell_released inv' told by (auto intro!: fifo_told [OF fifo])
  next
    case (LQ_unlocking r)
    note rq = requests_okD [OF I(2) told [of r]]
    let ?m = "lq_targets x (tgt r)"
    have "am_pc ?m Queue = M_unlock"
      using targets_okD(3) [OF I(3), of "tgt r"] LQ_unlocking by (simp add: queue_at_def)
    from queue_unlocked [OF targets_okD(2) [OF I(3)] this, of ndebug] obtain m where
      m: "amon_step ndebug ?m (Queue, Act_go) = Some m" "am_pc m Queue = M_out" by blast
    have x': "x' = lq_move (LQ_tell_released r) (set_target (tgt r) m x)"
      using step LQ_unlocking m(1) rq(1) by (simp add: lq_run_step_def)
    have "quiet_targets ((lq_targets x)(tgt r := m))"
      using m(2) queue_step_others [OF m(1)] F(2)
      by (intro quiet_set [OF F(2)]) (auto simp: quiet_targets_def)
    then show ?thesis
      using inv' LQ_unlocking by (intro fifo_same [OF fifo]) (simp_all add: x' lq_upd)
  next
    case LQ_releases
    show ?thesis
    proof (cases "l_size ops (lq_release x) \<noteq> 0")
      case True
      then have first: "lq_unlock_first ndebug ops x = Some x'"
        using step LQ_releases by (simp add: lq_run_step_def)
      then obtain r rest where rem: "l_remove_first ops (lq_release x) = (Some r, rest)"
        by (cases "l_remove_first ops (lq_release x)"; cases "fst (l_remove_first ops (lq_release x))")
          (auto simp: lq_unlock_first_def)
      have R: "view (lq_release x) = r # view rest" by (rule list_contractD(3) [OF ops rem])
      have "lq_pc x' \<noteq> LQ_aborted" using inv' LQ_releases by (intro lq_inv_not_aborted) simp
      then obtain i m where m: "amon_step ndebug (lq_targets x i) (Queue, Act_unlock) = Some m"
        and x': "x' = lq_move (LQ_unlocking r) (set_target i m (x\<lparr>lq_release := rest\<rparr>))"
        using first rem by (auto simp: lq_unlock_first_def lq_move_def Let_def split: option.splits)
      have "am_pc m Queue = M_unlock"
        using m by (auto simp: amon_step_def am_move_def split: if_splits)
      then have "quiet_targets ((lq_targets x)(i := m))"
        using queue_step_others [OF m] F(2)
        by (intro quiet_set [OF F(2)]) (auto simp: quiet_targets_def)
      moreover have "holders (view rest) (lq_requests x) \<subseteq> holders (view (lq_release x)) (lq_requests x)"
        using R by (auto simp: holders_def rq_holds_def)
      ultimately show ?thesis
        using inv' LQ_releases by (intro fifo_same [OF fifo]) (simp_all add: x' lq_upd)
    next
      case False
      then have "x' = lq_move (LQ_locks 0 (l_size ops (lq_lock x))) x"
        using step LQ_releases by (simp add: lq_run_step_def)
      then show ?thesis using inv' LQ_releases size by (auto intro!: moves)
    qed
  next
    case (LQ_locks i n)
    show ?thesis
    proof (cases "i < n")
      case True
      obtain r rest where rem: "l_remove_first ops (lq_lock x) = (Some r, rest)"
        and L: "view (lq_lock x) = r # view rest" and r: "r < length (lq_requests x)"
        using pass_remove [OF ops F(1) LQ_locks True] .
      let ?m = "lq_targets x (tgt r)"
      have x': "x' = lq_move (LQ_tried r i n)
          (set_target (tgt r) (try_begin ndebug ?m) (x\<lparr>lq_lock := rest\<rparr>))"
        using step rem requests_okD(1) [OF I(2) r] True LQ_locks
        by (simp add: lq_run_step_def lq_try_first_def Let_def)
      have at: "am_pc ?m Queue = M_out \<or> am_pc ?m Queue = M_inside"
        using targets_okD(3) [OF I(3), of "tgt r"] LQ_locks by (simp add: queue_at_outside)
      have "n - i = Suc (n - Suc i)" using True by simp
      then have order: "lq_order (lq_pc x) (view (lq_lock x)) = lq_order (LQ_tried r i n) (view rest)"
        and put: "put_back (lq_pc x) (view (lq_lock x)) = put_back (LQ_tried r i n) (view rest)"
        by (simp_all add: LQ_locks L)
      have "am_pc (((lq_targets x)(tgt r := try_begin ndebug ?m)) (tgt u)) Queue = M_inside"
        if "u \<in> set (put_back (lq_pc x) (view (lq_lock x)))" for u
        using F(3) [OF that] try_begin_pc(2) [of ?m ndebug] by (cases "tgt u = tgt r") simp_all
      moreover have "quiet_targets ((lq_targets x)(tgt r := try_begin ndebug ?m))"
        by (rule quiet_try_begin [OF targets_okD(2) [OF I(3)] F(2) at])
      ultimately show ?thesis
        using inv' LQ_locks F(4,5,6) unfolding fifo_inv_def order put x' by (simp add: lq_upd)
    next
      case False
      then have "x' = lq_move LQ_asleep x" using step LQ_locks by (simp add: lq_run_step_def)
      then show ?thesis using inv' LQ_locks False by (auto intro!: moves)
    qed
  qed (use step inv' in \<open>auto simp: lq_run_step_def intro!: moves split: if_splits\<close>)
qed

lemma fifo_step:
  assumes ops: "list_contract ops view" and fifo: "fifo_inv view tgt ps x"
    and step: "lq_quiet_step ndebug ops x l = Some x'"
  shows "fifo_inv view tgt (ps @ posts [l]) x'"
proof -
  note F = fifo_invD [OF fifo]
  have some: "lq_step ndebug ops x l = Some x'"
    using step by (auto simp: lq_quiet_step_def split: lq_label.splits)
  have live: "lq_pc x \<noteq> LQ_aborted" by (rule lq_inv_not_aborted [OF F(1)])
  have inv': "lq_inv view tgt x'" if "l \<noteq> LL_run"
    using lq_inv_step [OF ops F(1) some] that by blast
  show ?thesis
  proof (cases l)
    case LL_run
    then show ?thesis using some live fifo_run [OF ops fifo] by (simp add: lq_step_def)
  next
    case (LL_acquire r)
    have free: "lq_free x" and r: "r < length (lq_requests x)" and x': "x' = lq_acquire ops r x"
      and new: "rq_phase (lq_requests x ! r) = Rq_new"
      using some LL_acquire live by (auto simp: lq_step_def split: if_splits)
    let ?q = "(lq_requests x ! r)\<lparr>rq_phase := Rq_posted\<rparr>" and ?L = "view (lq_lock x)"
    have order: "lq_order (lq_pc x) L = L" "put_back (lq_pc x) L = []" for L
      using free by (auto simp: lq_free_def)
    have res: "rq_result (lq_requests x ! r) \<noteq> LOCKED"
      using requests_okD(2) [OF lq_invD(2) [OF F(1)] r] new by (simp add: rq_ok_def)
    have upd: "(lq_requests x)[r := ?q] ! u = (if u = r then ?q else lq_requests x ! u)"
      if "u < length (lq_requests x)" for u using that by (cases "u = r") simp_all
    have G: "lq_granted ((lq_requests x)[r := ?q]) = lq_granted (lq_requests x)"
      by (auto simp: lq_granted_def upd split: if_splits)
    have P: "lq_posted ((lq_requests x)[r := ?q]) = insert r (lq_posted (lq_requests x))"
      using r by (auto simp: lq_posted_def upd split: if_splits)
    have H: "holders R ((lq_requests x)[r := ?q]) = holders R (lq_requests x)" if "r \<notin> set R" for R
      using new res that by (intro holders_same [OF r]) (auto simp: rq_holds_def)
    have "r \<notin> set (view (lq_release x))"
      using requests_okD(2) [OF lq_invD(2) [OF F(1)] r] new by (auto simp: rq_ok_def)
    moreover have "r \<notin> set ps" using new F(4) by (simp add: lq_posted_def)
    moreover have "refused_ok (set (?L @ [r])) ((lq_requests x)[r := ?q])"
      using F(5) unfolding refused_ok_def P order by (auto simp: upd lq_posted_def)
    ultimately show ?thesis
      using inv' LL_acquire F(2,4) served_post [OF F(6), of r] list_contractD(1) [OF ops]
      by (simp add: fifo_inv_def x' lq_acquire_def lq_upd order G P H)
  next
    case (LL_release r)
    have x': "x' = lq_release_request ops r x" and r: "r < length (lq_requests x)"
      and ans: "rq_phase (lq_requests x ! r) = Rq_answered" "rq_result (lq_requests x ! r) = LOCKED"
      using some LL_release live by (auto simp: lq_step_def split: if_splits)
    let ?q = "(lq_requests x ! r)\<lparr>rq_phase := Rq_releasing\<rparr>"
    have "holders (view (lq_release x) @ [r]) ((lq_requests x)[r := ?q]) =
        holders (view (lq_release x)) (lq_requests x)"
      using ans by (intro holders_same [OF r]) (auto simp: rq_holds_def)
    then have "fifo_inv view tgt ps x'"
      using inv' LL_release lists_same [of ?q "lq_requests x" r] ans F(2) list_contractD(1) [OF ops]
      by (intro fifo_same [OF fifo]) (simp_all add: x' lq_release_request_def lq_upd)
    then show ?thesis using LL_release by simp
  next
    case (LL_wait r)
    then obtain s where x': "x' = set_request r ((lq_requests x ! r)\<lparr>rq_sync := s\<rparr>) x"
      and r: "r < length (lq_requests x)"
      using some live by (auto simp: lq_step_def split: if_splits outcome.splits)
    let ?q = "(lq_requests x ! r)\<lparr>rq_sync := s\<rparr>"
    have "holders R ((lq_requests x)[r := ?q]) = holders R (lq_requests x)" for R
      by (intro holders_same [OF r]) (auto simp: rq_holds_def)
    then have "fifo_inv view tgt ps x'"
      using inv' LL_wait lists_same [of ?q "lq_requests x" r] F(2)
      by (intro fifo_same [OF fifo]) (simp_all add: x' lq_upd)
    then show ?thesis using LL_wait by simp
  next
    case (LL_resume r)
    let ?q0 = "lq_requests x ! r"
    obtain s where x': "x' = set_request r (?q0\<lparr>rq_sync := s, rq_phase := rq_next (rq_phase ?q0)\<rparr>) x"
      and r: "r < length (lq_requests x)" and ph: "rq_phase ?q0 \<in> {Rq_posted, Rq_releasing}"
      using some live LL_resume by (auto simp: lq_step_def split: if_splits outcome.splits)
    let ?q = "?q0\<lparr>rq_sync := s, rq_phase := rq_next (rq_phase ?q0)\<rparr>"
    have "holders R ((lq_requests x)[r := ?q]) = holders R (lq_requests x)" for R
      using ph by (intro holders_same [OF r]) (auto simp: rq_holds_def rq_next_def)
    then have "fifo_inv view tgt ps x'"
      using inv' LL_resume lists_same [of ?q "lq_requests x" r] F(2) ph
      by (intro fifo_same [OF fifo]) (auto simp: x' lq_upd rq_next_def)
    then show ?thesis using LL_resume by simp
  next
    case LL_stop
    then have "x' = lq_stop x" using some live by (simp add: lq_step_def)
    then have "fifo_inv view tgt ps x'"
      using inv' LL_stop F(2) by (intro fifo_same [OF fifo]) (simp_all add: lq_stop_def)
    then show ?thesis using LL_stop by simp
  qed (use step in \<open>simp_all add: lq_quiet_step_def\<close>)
qed

lemma fifo_init:
  assumes "view l0 = []"
  shows "fifo_inv view (\<lambda>r. fst (rs ! r)) [] (lq_construct l0 rs)"
proof -
  have "lq_posted (lq_requests (lq_construct l0 rs)) = {}"
    by (auto simp: lq_posted_def lq_construct_def request_construct_def)
  moreover have "lq_granted (lq_requests (lq_construct l0 rs)) = {}"
    by (auto simp: lq_granted_def lq_construct_def request_construct_def)
  moreover have "quiet_targets (lq_targets (lq_construct l0 rs))"
    by (simp add: quiet_targets_def lq_construct_def amon_init_def)
  moreover have "lq_order (lq_pc (lq_construct l0 rs)) (view (lq_lock (lq_construct l0 rs))) = []"
    "put_back (lq_pc (lq_construct l0 rs)) (view (lq_lock (lq_construct l0 rs))) = []"
    using assms by (simp_all add: lq_construct_def)
  ultimately show ?thesis
    using lq_inv_init [where view = view, OF assms]
    by (simp add: fifo_inv_def refused_ok_def served_def)
qed

lemma fifo_steps:
  assumes "list_contract ops view" and "view l0 = []"
    and "run_steps (lq_quiet_step ndebug ops) (lq_construct l0 rs) ls = Some x"
  shows "fifo_inv view (\<lambda>r. fst (rs ! r)) (posts ls) x"
  using assms(3)
proof (induction ls arbitrary: x rule: rev_induct)
  case Nil
  then show ?case using fifo_init [where view = view, OF assms(2), of rs] by auto
next
  case (snoc l ls)
  then obtain y where "run_steps (lq_quiet_step ndebug ops) (lq_construct l0 rs) ls = Some y"
    and "lq_quiet_step ndebug ops y l = Some x"
    by (auto simp: run_steps_append split: option.splits)
  from fifo_step [OF assms(1) snoc.IH [OF this(1)] this(2)] show ?case by simp
qed

text \<open>
  C20: the lock queue serves in order.  Take a schedule in which the monitors are locked through the
  queue only, and the order in which it posts the requests.  Between the passes \<open>pendingLock\<close> holds
  the pending requests in that order.  When a request has been granted, every request for the same
  monitor that was posted before it has been served: it was granted as well and has been released
  since, or it was refused, which happens only to one that does not wait for the lock.
\<close>
theorem lockqueue_in_order:
  assumes "list_contract ops view" and "view l0 = []"
    and "run_steps (lq_quiet_step ndebug ops) (lq_construct l0 rs) ls = Some x"
  shows "(lq_free x \<longrightarrow>
      view (lq_lock x) = filter (\<lambda>r. r \<in> set (view (lq_lock x))) (posts ls)) \<and>
    (\<forall>us u vs r. posts ls = us @ u # vs \<longrightarrow> r \<in> set vs \<longrightarrow> fst (rs ! u) = fst (rs ! r) \<longrightarrow>
      rq_result (lq_requests x ! r) = LOCKED \<longrightarrow>
      u \<notin> set (view (lq_lock x)) \<and>
      (if rq_result (lq_requests x ! u) = LOCKED
       then rq_phase (lq_requests x ! u) \<in> {Rq_releasing, Rq_released} \<and>
            u \<notin> set (view (lq_release x))
       else \<not> rq_wait (lq_requests x ! u)))"
proof (intro conjI allI impI)
  let ?O = "lq_order (lq_pc x) (view (lq_lock x))"
  note F = fifo_invD [OF fifo_steps [OF assms]]
  have S: "?O = filter (\<lambda>r. r \<in> set ?O) (posts ls)"
    "\<And>u r. before (posts ls) u r \<Longrightarrow> fst (rs ! u) = fst (rs ! r) \<Longrightarrow>
       r \<in> lq_granted (lq_requests x) \<Longrightarrow> u \<notin> set ?O \<and>
       u \<notin> holders (view (lq_release x)) (lq_requests x)"
    using F(6) unfolding served_def by blast+
  show "view (lq_lock x) = filter (\<lambda>r. r \<in> set (view (lq_lock x))) (posts ls)" if "lq_free x"
  proof -
    have "?O = view (lq_lock x)" using that by (auto simp: lq_free_def)
    then show ?thesis using S(1) by simp
  qed
  fix us u vs r
  assume ps: "posts ls = us @ u # vs" "r \<in> set vs" and same: "fst (rs ! u) = fst (rs ! r)"
    and got: "rq_result (lq_requests x ! r) = LOCKED"
  have posted: "u \<in> lq_posted (lq_requests x)" "r \<in> lq_posted (lq_requests x)"
    unfolding F(4) [symmetric] using ps by auto
  then have len: "u < length (lq_requests x)" "rq_phase (lq_requests x ! u) \<noteq> Rq_new"
    "r \<in> lq_granted (lq_requests x)"
    using got by (simp_all add: lq_posted_def lq_granted_def)
  have "before (posts ls) u r" using ps unfolding before_def by blast
  from S(2) [OF this same len(3)] have out: "u \<notin> set ?O"
    and free: "\<not> rq_holds (u \<in> set (view (lq_release x))) (lq_requests x ! u)"
    using len(1) by (auto simp: holders_def)
  show "u \<notin> set (view (lq_lock x))"
    using out set_lq_order [of "lq_pc x" "view (lq_lock x)"] by (auto simp: pend_def split: lq_pc.splits)
  show "if rq_result (lq_requests x ! u) = LOCKED
     then rq_phase (lq_requests x ! u) \<in> {Rq_releasing, Rq_released} \<and> u \<notin> set (view (lq_release x))
     else \<not> rq_wait (lq_requests x ! u)"
    using out free F(5) posted(1) len(2)
    by (cases "rq_phase (lq_requests x ! u)") (auto simp: refused_ok_def rq_holds_def)
qed

section \<open>Runs\<close>

text \<open>
  Two requests for the monitor 0; both are posted and waited for, the thread makes one pass: the
  first is granted and told, the second is put back.
\<close>
definition two_requests :: "nat list lqueue" where
  "two_requests = lq_construct [] [(0, True), (0, True)]"

definition two_run :: "lq_label list" where
  "two_run =
     [LL_acquire 0, LL_acquire 1, LL_wait 0, LL_wait 1, LL_run, LL_run, LL_run, LL_run, LL_run,
      LL_run, LL_run, LL_run, LL_run, LL_resume 0]"

lemmas lq_eval = two_requests_def lq_construct_def request_construct_def lq_step_def
  lq_quiet_step_def lq_run_step_def lq_try_first_def lq_tried_step_def lq_unlock_first_def
  lq_acquire_def lq_release_request_def lq_free_def lq_upd tell_request_def try_begin_def
  try_end_def amon_init_def amon_step_def am_go_def am_move_def a_lock_def a_unlock_def a_wait_def
  a_resume_def a_notify_def mutex_lock_def mutex_trylock_def mutex_unlock_def cond_wait_def
  cond_signal_def remove_at_def rq_next_def plain_list_def lq_stop_def Let_def

definition two_end :: "nat list lqueue" where
  "two_end =
     \<lparr>lq_pc = LQ_asleep, lq_go = True, lq_lock = [1], lq_release = [],
      lq_requests =
        [\<lparr>rq_sync = \<lparr>a_monitor = Some (Requester 0), a_cond = [], a_flag = True\<rparr>, rq_target = 0,
          rq_wait = True, rq_result = LOCKED, rq_phase = Rq_answered\<rparr>,
         \<lparr>rq_sync = \<lparr>a_monitor = None, a_cond = [Requester 1], a_flag = False\<rparr>, rq_target = 0,
          rq_wait = True, rq_result = BUSY, rq_phase = Rq_posted\<rparr>],
      lq_targets = (\<lambda>i. amon_init)
        (0 := \<lparr>am_sync = \<lparr>a_monitor = Some Queue, a_cond = [], a_flag = True\<rparr>,
               am_pc = (\<lambda>t. M_out)(Queue := M_inside)\<rparr>)\<rparr>"

lemma two_reach: "reach (lq_step False plain_list) two_requests two_end"
proof -
  have "run_steps (lq_step False plain_list) two_requests two_run = Some two_end"
    by (simp add: two_run_def two_end_def lq_eval)
  then show ?thesis by (rule run_steps_reach)
qed

theorem lockqueue_exclusive_witness:
  "am_pc (lq_targets two_end 0) Queue = M_inside \<and> am_pc (lq_targets two_end 0) (Other 7) \<noteq> M_inside \<and>
   (\<exists>r < 2. rq_holds (r \<in> set (lq_release two_end)) (lq_requests two_end ! r))"
proof -
  have pc: "lq_pc two_end \<noteq> LQ_aborted" "am_pc (lq_targets two_end 0) Queue = M_inside"
    and len: "length (lq_requests two_end) = 2"
    by (simp_all add: two_end_def)
  note E = lockqueue_exclusive [OF plain_list_contract refl two_reach [unfolded two_requests_def],
    where i = 0 and t = "Other 7" and l = LL_run and x' = two_end]
  have "\<exists>r < 2. rq_holds (r \<in> set (lq_release two_end)) (lq_requests two_end ! r)"
    using E pc len by auto
  moreover have "am_pc (lq_targets two_end 0) (Other 7) \<noteq> M_inside"
    using E pc by auto
  ultimately show ?thesis using pc(2) by blast
qed

text \<open>The queue is about to tell the request 0, whose requester has not called wait yet.\<close>
definition tell_run :: "lq_label list" where
  "tell_run = [LL_acquire 0, LL_run, LL_run, LL_run, LL_run, LL_run]"

theorem lockqueue_progress_witness:
  "\<exists>x. run_steps (lq_step False plain_list) two_requests tell_run = Some x \<and>
     lq_step False plain_list x LL_run = None \<and>
     (\<exists>r y x'. lq_step False plain_list x (LL_wait r) = Some y \<and>
        lq_step False plain_list y LL_run = Some x')"
proof -
  obtain x where x: "run_steps (lq_step False plain_list) two_requests tell_run = Some x"
    "lq_pc x = LQ_tell 0 0 1" "lq_step False plain_list x LL_run = None"
    by (simp add: tell_run_def lq_eval)
  have "reach (lq_step False plain_list) (lq_construct [] [(0, True), (0, True)]) x"
    using run_steps_reach [OF x(1)] by (simp add: two_requests_def)
  from lockqueue_progress [OF plain_list_contract refl this] show ?thesis using x by auto
qed

text \<open>The request 0 is released, and the next pass grants the request 1.\<close>
definition handover_run :: "lq_label list" where
  "handover_run = two_run @
     [LL_release 0, LL_wait 0, LL_run, LL_run, LL_run, LL_run, LL_run, LL_run, LL_run, LL_run]"

theorem lockqueue_in_order_witness:
  "\<exists>x. run_steps (lq_quiet_step False plain_list) two_requests handover_run = Some x \<and>
     rq_result (lq_requests x ! 1) = LOCKED \<and>
     rq_phase (lq_requests x ! 0) \<in> {Rq_releasing, Rq_released}"
proof -
  obtain x where x: "run_steps (lq_quiet_step False plain_list) two_requests handover_run = Some x"
    "rq_result (lq_requests x ! 1) = LOCKED" "rq_result (lq_requests x ! 0) = LOCKED"
    by (simp add: handover_run_def two_run_def lq_eval)
  have "posts handover_run = [] @ 0 # [1]" by (simp add: handover_run_def two_run_def)
  with lockqueue_in_order [OF plain_list_contract refl x(1) [unfolded two_requests_def]] x
  show ?thesis by fastforce
qed

text \<open>
  A third thread takes the monitor before the pass and gives it up between the two tries: the
  first request is put back and the second one, posted later, is granted.
\<close>
definition overtaking_run :: "lq_label list" where
  "overtaking_run =
     [LL_acquire 0, LL_acquire 1, LL_wait 0, LL_wait 1, LL_other 7 0 Act_lock, LL_other 7 0 Act_go,
      LL_run, LL_run, LL_run, LL_run, LL_run, LL_other 7 0 Act_unlock, LL_other 7 0 Act_go, LL_run,
      LL_run]"

text \<open>
  The order of service of the lock queue is lost when another thread uses the monitor: it
  gives the monitor up during the pass over the pending requests, after the request posted first
  has been tried and before the one posted second, which is granted instead.
\<close>
theorem lockqueue_overtaken:
  "\<exists>x. run_steps (lq_step False plain_list) two_requests overtaking_run = Some x \<and>
       rq_result (lq_requests x ! 1) = LOCKED \<and> rq_result (lq_requests x ! 0) = BUSY \<and>
       lq_lock x = [0]"
  by (simp add: overtaking_run_def lq_eval)

text \<open>
  Another thread has taken the mutex in \<open>lock\<close> and not set the flag yet when the queue asks.
\<close>
definition aborting_run :: "lq_label list" where
  "aborting_run =
     [LL_acquire 0, LL_wait 0, LL_run, LL_run, LL_run, LL_other 7 0 Act_lock, LL_run, LL_run]"

text \<open>
  The assertion at the end of \<open>trylock\<close> stops the lock queue in a correct program of a debug
  build; in a release build the same accesses put the request back.
\<close>
theorem lockqueue_can_abort:
  "\<exists>x y. run_steps (lq_step False plain_list) two_requests aborting_run = Some x \<and>
     lq_pc x = LQ_aborted \<and>
     run_steps (lq_step True plain_list) two_requests aborting_run = Some y \<and>
     lq_lock y = [0] \<and> lq_pc y = LQ_locks 1 1"
  by (simp add: aborting_run_def lq_eval)

definition stranded :: "nat \<Rightarrow> 'l lqueue \<Rightarrow> bool" where
  "stranded r x \<longleftrightarrow> lq_pc x = LQ_done \<and> r < length (lq_requests x) \<and>
     rq_phase (lq_requests x ! r) = Rq_posted \<and>
     a_cond (rq_sync (lq_requests x ! r)) = [Requester r] \<and>
     a_monitor (rq_sync (lq_requests x ! r)) = None"

lemma stranded_step:
  assumes "stranded r x" and "lq_step ndebug ops x l = Some y"
  shows "stranded r y"
  using assms
  by (cases l)
    (auto simp: stranded_def lq_step_def lq_run_step_def lq_acquire_def lq_release_request_def
      lq_stop_def lq_upd nth_list_update a_resume_def split: if_splits outcome.splits option.splits)

text \<open>
  A request posted after the queue has ended is never answered: the destructor lets the
  thread end as soon as nothing is pending, and acquire does not look at the flag.
\<close>
theorem lockqueue_late_request:
  assumes "stranded r x" and "reach (lq_step ndebug ops) x y"
  shows "rq_phase (lq_requests y ! r) = Rq_posted"
proof -
  have "stranded r y"
    using assms(2,1) by (induction rule: reach.induct) (auto intro: stranded_step)
  then show ?thesis by (simp add: stranded_def)
qed

text \<open>The queue is stopped, ends, and a request is posted and waited for.\<close>
definition late_run :: "lq_label list" where
  "late_run = [LL_stop, LL_run, LL_run, LL_acquire 0, LL_wait 0]"

theorem lockqueue_late_request_witness:
  "\<exists>x. run_steps (lq_step False plain_list) two_requests late_run = Some x \<and>
       (\<forall>y. reach (lq_step False plain_list) x y \<longrightarrow> rq_phase (lq_requests y ! 0) = Rq_posted)"
proof -
  obtain x where x: "run_steps (lq_step False plain_list) two_requests late_run = Some x"
    and st: "stranded 0 x"
    by (auto simp: late_run_def lq_eval stranded_def)
  show ?thesis using x lockqueue_late_request [OF st] by blast
qed

end
