(* ===== verification/Agent_Thread.thy ===== *)
theory Agent_Thread
  imports Agent_Synchronized Posix_Thread
begin

text \<open>
  The class \<open>Thread\<close> of \<open>threads.cpp\<close> and \<open>agent_pp/threads.h\<close>, with the list of threads
  and the sleeping functions.  A thread object has the members of that of the posix variant (the
  record \<open>thread\<close>); the functions are translated again, and the last theorem says where the two
  variants agree.
\<close>

section \<open>Life cycle\<close>

definition athread_new :: "nat \<Rightarrow> thread" where
  "athread_new n = \<lparr>status = IDLE, runnable = None, stack_size = n, unjoined = 0\<rparr>"

definition athread_new_for :: "nat \<Rightarrow> thread" where
  "athread_new_for r =
     \<lparr>status = IDLE, runnable = Some r, stack_size = default_stacksize, unjoined = 0\<rparr>"

definition athread_set_stack :: "thread \<Rightarrow> nat \<Rightarrow> thread" where
  "athread_set_stack th s = th\<lparr>stack_size := s\<rparr>"

definition athread_is_alive :: "thread \<Rightarrow> bool" where
  "athread_is_alive th \<longleftrightarrow> status th = RUNNING"

text \<open>
  \<open>get_runnable\<close>; a thread that is its own \<open>Runnable\<close> has the number \<open>self\<close>.
\<close>
definition athread_runnable :: "nat \<Rightarrow> thread \<Rightarrow> nat" where
  "athread_runnable self th = (case runnable th of None \<Rightarrow> self | Some r \<Rightarrow> r)"

definition athread_clone :: "nat \<Rightarrow> thread \<Rightarrow> thread" where
  "athread_clone self th = athread_new_for (athread_runnable self th)"

definition athread_start :: "errno option \<Rightarrow> thread \<Rightarrow> thread" where
  "athread_start err th =
     (if status th = IDLE then
        (case err of
           Some e \<Rightarrow> th\<lparr>status := FINISHED\<rparr>
         | None \<Rightarrow> th\<lparr>status := RUNNING, unjoined := unjoined th + 1\<rparr>)
      else th)"

definition athread_join :: "errno option \<Rightarrow> thread \<Rightarrow> thread" where
  "athread_join err th =
     (if status th = RUNNING then
        (case err of
           Some e \<Rightarrow> th\<lparr>status := FINISHED\<rparr>
         | None \<Rightarrow> th\<lparr>status := IDLE, unjoined := unjoined th - 1\<rparr>)
      else th\<lparr>status := IDLE\<rparr>)"

definition athread_destroy :: "errno option \<Rightarrow> thread \<Rightarrow> thread" where
  "athread_destroy err th = (if status th = RUNNING then athread_join err th else th)"

section \<open>The list of threads\<close>

text \<open>
  \<open>ThreadList\<close> is a wrapper around an \<open>Array\<close> of agent++, each operation under its lock;
  \<open>thread_starter\<close> adds the thread, runs its \<open>Runnable\<close>, swallows what it throws and removes
  the thread.  \<open>array_add\<close> and \<open>array_remove\<close> are the operations of \<open>Array\<close>.
\<close>
definition athread_starter ::
  "(nat \<Rightarrow> 'l \<Rightarrow> 'l) \<Rightarrow> (nat \<Rightarrow> 'l \<Rightarrow> 'l) \<Rightarrow> 'l \<Rightarrow> nat \<Rightarrow> run_end \<Rightarrow> 'l \<times> 'l" where
  "athread_starter array_add array_remove l t e =
     (let l1 = array_add t l;
          l2 = (case e of Run_returns \<Rightarrow> l1 | Run_throws_std \<Rightarrow> l1 | Run_throws_other \<Rightarrow> l1)
      in (l1, array_remove t l2))"

section \<open>Sleeping\<close>

definition a_nsleep_interval :: "int \<Rightarrow> int \<Rightarrow> timespec" where
  "a_nsleep_interval secs nanos =
     (let s = secs + nanos sdiv 1000000000; n = nanos smod 1000000000
      in \<lparr>tv_sec = s, tv_nsec = n\<rparr>)"

definition a_sleep_millis :: "int \<Rightarrow> timespec" where
  "a_sleep_millis millis = a_nsleep_interval (millis sdiv 1000) ((millis smod 1000) * 1000000)"

definition a_sleep_millis_nanos :: "int \<Rightarrow> int \<Rightarrow> timespec" where
  "a_sleep_millis_nanos millis nanos =
     a_nsleep_interval (millis sdiv 1000) ((millis smod 1000) * 1000000 + nanos)"

text \<open>
  The loop of \<open>nsleep\<close>: on \<open>EINTR\<close> it goes on with the remainder, any other failure ends it.
  Each call of \<open>nanosleep\<close> is its error and the remainder it reports; the result is the list of
  intervals asked for.
\<close>
fun a_nsleep_loop ::
  "timespec \<Rightarrow> (errno option \<times> timespec) list \<Rightarrow> timespec list option" where
  "a_nsleep_loop interval [] = None"
| "a_nsleep_loop interval ((err, remainder) # es) =
     (if err = Some EINTR then map_option (Cons interval) (a_nsleep_loop remainder es)
      else Some [interval])"

text \<open>The answers of \<open>nanosleep\<close> as the posix model has them.\<close>
fun nanosleep_answer :: "errno option \<times> timespec \<Rightarrow> nanosleep_end" where
  "nanosleep_answer (None, r) = Slept"
| "nanosleep_answer (Some e, r) = (if e = EINTR then Interrupted r else Failed e)"

lemma a_nsleep_loop_posix:
  "a_nsleep_loop i es = nsleep_loop i (map nanosleep_answer es)"
proof (induction es arbitrary: i)
  case Nil
  then show ?case by simp
next
  case (Cons a es)
  then show ?case by (cases a; cases "fst a") auto
qed

text \<open>
  The thread classes of the two POSIX variants are equivalent.  On every object and for every
  answer of the system they start, join and destroy a thread in the same way, ask for the same
  intervals when they sleep, and compute the same deadline of a wait; a copy differs: the agent++
  variant keeps the Runnable of the original, the posix variant keeps its stack size.
\<close>
theorem agent_thread_equivalent:
  "athread_start e th = thread_start e th \<and> athread_join e th = thread_join e th \<and>
   athread_destroy e th = thread_destroy e th \<and> athread_is_alive th = is_alive th \<and>
   a_sleep_millis ms = sleep_millis ms \<and> a_sleep_millis_nanos ms ns = sleep_millis_nanos ms ns \<and>
   a_nsleep_loop i answers = nsleep_loop i (map nanosleep_answer answers) \<and>
   a_deadline now ms = wait_deadline now ms \<and>
   runnable (athread_clone self th) = Some (athread_runnable self th) \<and>
   stack_size (clone_thread th) = stack_size th"
proof -
  have "a_nsleep_interval s n = nsleep_interval s n" for s n
    by (simp add: a_nsleep_interval_def nsleep_interval_def Let_def)
  then show ?thesis
    by (simp add: athread_start_def thread_start_def athread_join_def thread_join_def
        athread_destroy_def thread_destroy_def athread_is_alive_def is_alive_def
        a_sleep_millis_def sleep_millis_def a_sleep_millis_nanos_def sleep_millis_nanos_def
        a_nsleep_loop_posix a_deadline_def wait_deadline_def athread_clone_def athread_new_for_def
        clone_thread_def thread_new_def)
qed

end
