(* ===== verification/Agent_Pool.thy ===== *)
theory Agent_Pool
  imports Agent_Thread Thread_Pool
begin

text \<open>
  The classes \<open>TaskManager\<close> and \<open>ThreadPool\<close> of the agent++ variant, \<open>threads.cpp\<close> and
  \<open>agent_pp/threads.h\<close>.  A worker may run in one-time mode, where it ends after its first task;
  \<open>execute\<close> waits with a timeout; \<open>terminate\<close> asks the workers to stop, \<open>join\<close> waits for
  them, and the destructor does both.  The \<open>Array\<close> of task managers is filled by the
  constructor and not changed afterwards: it is the list of its elements.
\<close>

section \<open>The task manager\<close>

text \<open>
  Where a worker is: before the lock, at the outer loop, inside the task, at the test for
  one-time execution, before \<open>idle_notification\<close>, at the inner loop, asleep, after the outer
  loop, at the end of the \<open>Lock\<close>, returned; stopped by an assertion.
\<close>
datatype agent_pc =
  G_enter | G_while | G_run | G_once | G_notify | G_inner | G_asleep | G_exit | G_leave | G_done
| G_threw

record amanager =
  g_sync :: "tid async"
  g_thread :: thread
  g_task :: "task ptr"
  g_go :: bool
  g_pc :: agent_pc

text \<open>The constructor; the thread runs unless the system refuses it.\<close>
definition g_construct :: "errno option \<Rightarrow> nat \<Rightarrow> amanager" where
  "g_construct err stack =
     (let th = athread_start err (athread_set_stack (athread_new_for 0) stack)
      in \<lparr>g_sync = async_new, g_thread = th, g_task = None, g_go = True,
          g_pc = (if athread_is_alive th then G_enter else G_done)\<rparr>)"

text \<open>A critical section between the constructor and the destructor of a \<open>Lock\<close>.\<close>
definition a_locked ::
  "'t async \<Rightarrow> 't \<Rightarrow> ('t async \<Rightarrow> 'a \<times> 't async) \<Rightarrow> ('a \<times> 't async) outcome" where
  "a_locked s t body =
     (case a_enter s t of
        Returns s1 \<Rightarrow>
          (case body s1 of
             (a, s2) \<Rightarrow>
               (case a_leave False s2 t of
                  Returns s3 \<Rightarrow> Returns (a, s3)
                | Throws msg \<Rightarrow> Throws msg
                | Blocked \<Rightarrow> Blocked))
      | Throws msg \<Rightarrow> Throws msg
      | Blocked \<Rightarrow> Blocked)"

definition g_is_idle :: "tid \<Rightarrow> amanager \<Rightarrow> (bool \<times> amanager) outcome" where
  "g_is_idle c tm =
     (case a_locked (g_sync tm) c
             (\<lambda>s. (g_task tm = None \<and> athread_is_alive (g_thread tm), s)) of
        Returns (b, s) \<Rightarrow> Returns (b, tm\<lparr>g_sync := s\<rparr>)
      | Throws msg \<Rightarrow> Throws msg
      | Blocked \<Rightarrow> Blocked)"

definition g_is_busy :: "tid \<Rightarrow> amanager \<Rightarrow> (bool \<times> amanager) outcome" where
  "g_is_busy c tm =
     (case a_locked (g_sync tm) c (\<lambda>s. (g_task tm \<noteq> None, s)) of
        Returns (b, s) \<Rightarrow> Returns (b, tm\<lparr>g_sync := s\<rparr>)
      | Throws msg \<Rightarrow> Throws msg
      | Blocked \<Rightarrow> Blocked)"

definition g_set_task ::
  "nat \<Rightarrow> tid \<Rightarrow> task ptr \<Rightarrow> amanager \<Rightarrow> (bool \<times> amanager) outcome" where
  "g_set_task k c t tm =
     (case a_locked (g_sync tm) c
             (\<lambda>s. if g_task tm = None then ((True, t), a_notify k s)
                  else ((False, g_task tm), s)) of
        Returns ((ok, t'), s) \<Rightarrow> Returns (ok, tm\<lparr>g_task := t', g_sync := s\<rparr>)
      | Throws msg \<Rightarrow> Throws msg
      | Blocked \<Rightarrow> Blocked)"

definition g_stop :: "tid \<Rightarrow> amanager \<Rightarrow> amanager outcome" where
  "g_stop c tm =
     (case a_locked (g_sync tm) c (\<lambda>s. (False, a_notify_all s)) of
        Returns (go, s) \<Rightarrow> Returns (tm\<lparr>g_go := go, g_sync := s\<rparr>)
      | Throws msg \<Rightarrow> Throws msg
      | Blocked \<Rightarrow> Blocked)"

text \<open>\<open>notify\<close> called without the lock.\<close>
definition g_notify :: "nat \<Rightarrow> amanager \<Rightarrow> amanager" where
  "g_notify k tm = tm\<lparr>g_sync := a_notify k (g_sync tm)\<rparr>"

text \<open>\<open>join\<close>: its critical section, and the join of the thread.\<close>
definition g_join_begin :: "tid \<Rightarrow> amanager \<Rightarrow> amanager outcome" where
  "g_join_begin c tm =
     (case a_locked (g_sync tm) c (\<lambda>s. ((), a_notify_all s)) of
        Returns (_, s) \<Rightarrow> Returns (tm\<lparr>g_sync := s\<rparr>)
      | Throws msg \<Rightarrow> Throws msg
      | Blocked \<Rightarrow> Blocked)"

definition g_join :: "amanager \<Rightarrow> amanager outcome" where
  "g_join tm =
     (if athread_is_alive (g_thread tm) \<and> g_pc tm \<noteq> G_done then Blocked
      else Returns (tm\<lparr>g_thread := athread_join None (g_thread tm)\<rparr>))"

text \<open>The first part of \<open>~TaskManager\<close>; the second is \<open>g_join\<close>.\<close>
definition g_destroy_begin :: "nat \<Rightarrow> tid \<Rightarrow> amanager \<Rightarrow> amanager outcome" where
  "g_destroy_begin k c tm =
     (case a_locked (g_sync tm) c (\<lambda>s. (False, a_notify k s)) of
        Returns (go, s) \<Rightarrow> Returns (tm\<lparr>g_go := go, g_sync := s\<rparr>)
      | Throws msg \<Rightarrow> Throws msg
      | Blocked \<Rightarrow> Blocked)"

text \<open>One step of \<open>run\<close>; \<open>one_time\<close> is what \<open>is_one_time_execution\<close> of the pool answers.\<close>
definition aworker_step ::
  "bool \<Rightarrow> tid \<Rightarrow> run_end \<Rightarrow> amanager \<Rightarrow> (amanager \<times> worker_event) option" where
  "aworker_step one_time w e tm =
     (case g_pc tm of
        G_enter \<Rightarrow>
          (case a_enter (g_sync tm) w of
             Returns s \<Rightarrow> Some (tm\<lparr>g_sync := s, g_pc := G_while\<rparr>, Ev_none)
           | Throws _ \<Rightarrow> Some (tm\<lparr>g_pc := G_threw\<rparr>, Ev_none)
           | Blocked \<Rightarrow> None)
      | G_while \<Rightarrow>
          (if g_go tm then
             (case g_task tm of
                Some t \<Rightarrow> Some (tm\<lparr>g_pc := G_run\<rparr>, Ev_started t)
              | None \<Rightarrow> Some (tm\<lparr>g_pc := G_inner\<rparr>, Ev_none))
           else Some (tm\<lparr>g_pc := G_exit\<rparr>, Ev_none))
      | G_run \<Rightarrow>
          (case g_task tm of
             Some t \<Rightarrow>
               (case e of
                  Run_returns \<Rightarrow> Some (tm\<lparr>g_task := None, g_pc := G_once\<rparr>, Ev_finished t)
                | Run_throws_std \<Rightarrow> Some (tm\<lparr>g_task := None, g_pc := G_once\<rparr>, Ev_finished t)
                | Run_throws_other \<Rightarrow>
                    Some (tm\<lparr>g_task := None, g_pc := G_once\<rparr>, Ev_finished t))
           | None \<Rightarrow> None)
      | G_once \<Rightarrow> Some (tm\<lparr>g_pc := (if one_time then G_leave else G_notify)\<rparr>, Ev_none)
      | G_notify \<Rightarrow> Some (tm\<lparr>g_pc := G_inner\<rparr>, Ev_idle)
      | G_inner \<Rightarrow>
          (if g_go tm \<and> g_task tm = None then
             (case a_wait None (g_sync tm) w of
                Returns (asleep, s) \<Rightarrow>
                  Some (tm\<lparr>g_sync := s, g_pc := (if asleep then G_asleep else G_inner)\<rparr>, Ev_none)
              | Throws _ \<Rightarrow> Some (tm\<lparr>g_pc := G_threw\<rparr>, Ev_none)
              | Blocked \<Rightarrow> None)
           else Some (tm\<lparr>g_pc := G_while\<rparr>, Ev_none))
      | G_asleep \<Rightarrow>
          (case a_resume (g_sync tm) w of
             Returns s \<Rightarrow> Some (tm\<lparr>g_sync := s, g_pc := G_inner\<rparr>, Ev_none)
           | Throws _ \<Rightarrow> Some (tm\<lparr>g_pc := G_threw\<rparr>, Ev_none)
           | Blocked \<Rightarrow> None)
      | G_exit \<Rightarrow> Some (tm\<lparr>g_task := None, g_pc := G_leave\<rparr>, Ev_discarded (g_task tm))
      | G_leave \<Rightarrow>
          (case a_leave False (g_sync tm) w of
             Returns s \<Rightarrow> Some (tm\<lparr>g_sync := s, g_pc := G_done\<rparr>, Ev_none)
           | Throws _ \<Rightarrow> Some (tm\<lparr>g_pc := G_threw\<rparr>, Ev_none)
           | Blocked \<Rightarrow> None)
      | G_done \<Rightarrow> None
      | G_threw \<Rightarrow> None)"

definition aworker_spurious :: "tid \<Rightarrow> amanager \<Rightarrow> amanager" where
  "aworker_spurious w tm = tm\<lparr>g_sync := a_spurious (g_sync tm) w\<rparr>"

section \<open>The pool\<close>

datatype aexecute_pc = Y_enter | Y_scan nat | Y_set nat | Y_wait | Y_asleep
datatype aquery_pc = YQ_enter | YQ_scan nat
datatype aterm_pc = YT_enter | YT_stop nat | YT_notify nat | YT_last
datatype ajoin_pc = YJ_enter | YJ_begin nat "nat list" | YJ_join nat "nat list"

text \<open>\<open>A_join b\<close>: the call is the join of the destructor.\<close>
datatype aclient_pc =
  A_outside "bool option"
| A_execute "task ptr" aexecute_pc
| A_query query aquery_pc
| A_terminate bool aterm_pc
| A_join bool ajoin_pc
| A_threw

record apool =
  ap_sync :: "tid async"
  ap_tasks :: "amanager list"
  ap_stack :: nat
  ap_one_time :: bool
  ap_clients :: "aclient_pc list"
  ap_submitted :: "task multiset"
  ap_started :: "task multiset"
  ap_finished :: "task multiset"
  ap_discarded :: "task multiset"

definition apool_size :: "apool \<Rightarrow> nat" where
  "apool_size p = length (ap_tasks p)"

definition set_aclient :: "nat \<Rightarrow> aclient_pc \<Rightarrow> apool \<Rightarrow> apool" where
  "set_aclient j pc p = p\<lparr>ap_clients := (ap_clients p)[j := pc]\<rparr>"

definition set_amanager :: "nat \<Rightarrow> amanager \<Rightarrow> apool \<Rightarrow> apool" where
  "set_amanager i tm p = p\<lparr>ap_tasks := (ap_tasks p)[i := tm]\<rparr>"

definition set_async :: "tid async \<Rightarrow> apool \<Rightarrow> apool" where
  "set_async s p = p\<lparr>ap_sync := s\<rparr>"

definition apool_construct_stack ::
  "(nat \<Rightarrow> errno option) \<Rightarrow> nat \<Rightarrow> nat \<Rightarrow> nat \<Rightarrow> apool" where
  "apool_construct_stack errs n_threads stack n_clients =
     \<lparr>ap_sync = async_new, ap_tasks = map (\<lambda>i. g_construct (errs i) stack) [0..<n_threads],
      ap_stack = stack, ap_one_time = False, ap_clients = replicate n_clients (A_outside None),
      ap_submitted = {#}, ap_started = {#}, ap_finished = {#}, ap_discarded = {#}\<rparr>"

definition apool_construct :: "(nat \<Rightarrow> errno option) \<Rightarrow> nat \<Rightarrow> nat \<Rightarrow> apool" where
  "apool_construct errs n_threads n_clients =
     apool_construct_stack errs n_threads default_stacksize n_clients"

definition aclient_return :: "nat \<Rightarrow> aclient_pc \<Rightarrow> apool \<Rightarrow> apool option" where
  "aclient_return j pc p =
     (case a_leave False (ap_sync p) (Client j) of
        Returns s \<Rightarrow> Some (set_aclient j pc (set_async s p))
      | Throws _ \<Rightarrow> Some (set_aclient j A_threw p)
      | Blocked \<Rightarrow> None)"

definition aclient_enter :: "nat \<Rightarrow> aclient_pc \<Rightarrow> apool \<Rightarrow> apool option" where
  "aclient_enter j pc p =
     (case a_enter (ap_sync p) (Client j) of
        Returns s \<Rightarrow> Some (set_aclient j pc (set_async s p))
      | Throws _ \<Rightarrow> Some (set_aclient j A_threw p)
      | Blocked \<Rightarrow> None)"

text \<open>A call of a function of the task manager \<open>i\<close>, and the location after it.\<close>
definition on_amanager ::
  "nat \<Rightarrow> nat \<Rightarrow> ('b \<times> amanager) outcome \<Rightarrow> ('b \<Rightarrow> apool \<Rightarrow> apool option) \<Rightarrow> apool \<Rightarrow> apool option"
  where
  "on_amanager j i out cont p =
     (case out of
        Returns (b, tm) \<Rightarrow> cont b (set_amanager i tm p)
      | Throws _ \<Rightarrow> Some (set_aclient j A_threw p)
      | Blocked \<Rightarrow> None)"

definition no_value :: "amanager outcome \<Rightarrow> (unit \<times> amanager) outcome" where
  "no_value out =
     (case out of Returns tm \<Rightarrow> Returns ((), tm) | Throws msg \<Rightarrow> Throws msg | Blocked \<Rightarrow> Blocked)"

definition aexecute_step :: "nat \<Rightarrow> nat \<Rightarrow> task ptr \<Rightarrow> aexecute_pc \<Rightarrow> apool \<Rightarrow> apool option" where
  "aexecute_step j k t pc p =
     (case pc of
        Y_enter \<Rightarrow> aclient_enter j (A_execute t (Y_scan 0)) p
      | Y_scan i \<Rightarrow>
          (if i < length (ap_tasks p)
           then on_amanager j i (g_is_idle (Client j) (ap_tasks p ! i))
                  (\<lambda>b q. Some (set_aclient j (A_execute t (if b then Y_set i
                                                          else Y_scan (Suc i))) q)) p
           else Some (set_aclient j (A_execute t Y_wait) p))
      | Y_set i \<Rightarrow>
          on_amanager j i (g_set_task k (Client j) t (ap_tasks p ! i))
            (\<lambda>b q. if b then aclient_return j (A_outside None) q
                   else Some (set_aclient j (A_execute t (Y_scan (Suc i))) q)) p
      | Y_wait \<Rightarrow>
          (case a_wait None (ap_sync p) (Client j) of
             Returns (asleep, s) \<Rightarrow>
               Some (set_aclient j (A_execute t (if asleep then Y_asleep else Y_scan 0))
                       (set_async s p))
           | Throws _ \<Rightarrow> Some (set_aclient j A_threw p)
           | Blocked \<Rightarrow> None)
      | Y_asleep \<Rightarrow>
          (case a_resume (ap_sync p) (Client j) of
             Returns s \<Rightarrow> Some (set_aclient j (A_execute t (Y_scan 0)) (set_async s p))
           | Throws _ \<Rightarrow> Some (set_aclient j A_threw p)
           | Blocked \<Rightarrow> None))"

text \<open>\<open>is_idle\<close>: no thread is not idle; true for a pool without threads.\<close>
definition ais_idle_step :: "nat \<Rightarrow> aquery_pc \<Rightarrow> apool \<Rightarrow> apool option" where
  "ais_idle_step j pc p =
     (case pc of
        YQ_enter \<Rightarrow> aclient_enter j (A_query Q_is_idle (YQ_scan 0)) p
      | YQ_scan i \<Rightarrow>
          (if i < length (ap_tasks p)
           then on_amanager j i (g_is_idle (Client j) (ap_tasks p ! i))
                  (\<lambda>b q. if b then Some (set_aclient j (A_query Q_is_idle (YQ_scan (Suc i))) q)
                         else aclient_return j (A_outside (Some False)) q) p
           else aclient_return j (A_outside (Some True)) p))"

text \<open>\<open>is_busy\<close>: some thread has a task.\<close>
definition ais_busy_step :: "nat \<Rightarrow> aquery_pc \<Rightarrow> apool \<Rightarrow> apool option" where
  "ais_busy_step j pc p =
     (case pc of
        YQ_enter \<Rightarrow> aclient_enter j (A_query Q_is_busy (YQ_scan 0)) p
      | YQ_scan i \<Rightarrow>
          (if i < length (ap_tasks p)
           then on_amanager j i (g_is_busy (Client j) (ap_tasks p ! i))
                  (\<lambda>b q. if b then aclient_return j (A_outside (Some True)) q
                         else Some (set_aclient j (A_query Q_is_busy (YQ_scan (Suc i))) q)) p
           else aclient_return j (A_outside (Some False)) p))"

text \<open>\<open>terminate\<close>; in the destructor it is followed by \<open>join\<close>.\<close>
definition aterminate_step :: "nat \<Rightarrow> nat \<Rightarrow> bool \<Rightarrow> aterm_pc \<Rightarrow> apool \<Rightarrow> apool option" where
  "aterminate_step j k d pc p =
     (case pc of
        YT_enter \<Rightarrow> aclient_enter j (A_terminate d (YT_stop 0)) p
      | YT_stop i \<Rightarrow>
          (if i < length (ap_tasks p)
           then on_amanager j i (no_value (g_stop (Client j) (ap_tasks p ! i)))
                  (\<lambda>_ q. Some (set_aclient j (A_terminate d (YT_notify i)) q)) p
           else Some (set_aclient j (A_terminate d YT_last) p))
      | YT_notify i \<Rightarrow>
          Some (set_aclient j (A_terminate d (YT_stop (Suc i)))
                  (set_amanager i (g_notify k (ap_tasks p ! i)) p))
      | YT_last \<Rightarrow>
          aclient_return j (if d then A_join True YJ_enter else A_outside None)
            (set_async (a_notify k (ap_sync p)) p))"

text \<open>
  \<open>join\<close>; the second list is the \<open>Array\<close> \<open>joined\<close>.  The call of \<open>lock\<close> inside the loop is by
  the owner and changes nothing.
\<close>
definition ajoin_step :: "nat \<Rightarrow> bool \<Rightarrow> ajoin_pc \<Rightarrow> apool \<Rightarrow> apool option" where
  "ajoin_step j d pc p =
     (case pc of
        YJ_enter \<Rightarrow> aclient_enter j (A_join d (YJ_begin 0 [])) p
      | YJ_begin i joined \<Rightarrow>
          (if i < length (ap_tasks p) then
             (if i \<notin> set joined
              then on_amanager j i (no_value (g_join_begin (Client j) (ap_tasks p ! i)))
                     (\<lambda>_ q. Some (set_aclient j (A_join d (YJ_join i joined)) q)) p
              else Some (set_aclient j (A_join d (YJ_begin (Suc i) joined)) p))
           else aclient_return j (A_outside None) p)
      | YJ_join i joined \<Rightarrow>
          on_amanager j i (no_value (g_join (ap_tasks p ! i)))
            (\<lambda>_ q. case a_lock (ap_sync q) (Client j) of
                Returns (_, s) \<Rightarrow>
                  Some (set_aclient j (A_join d (YJ_begin (Suc i) (joined @ [i]))) (set_async s q))
              | Throws _ \<Rightarrow> Some (set_aclient j A_threw q)
              | Blocked \<Rightarrow> None) p)"

definition aclient_step :: "nat \<Rightarrow> nat \<Rightarrow> apool \<Rightarrow> apool option" where
  "aclient_step j k p =
     (case ap_clients p ! j of
        A_outside _ \<Rightarrow> None
      | A_execute t pc \<Rightarrow> aexecute_step j k t pc p
      | A_query Q_is_idle pc \<Rightarrow> ais_idle_step j pc p
      | A_query Q_is_busy pc \<Rightarrow> ais_busy_step j pc p
      | A_terminate d pc \<Rightarrow> aterminate_step j k d pc p
      | A_join d pc \<Rightarrow> ajoin_step j d pc p
      | A_threw \<Rightarrow> None)"

section \<open>The steps of the pool\<close>

datatype apool_call =
  Ado_execute "task ptr" | Ado_query query | Ado_terminate | Ado_join | Ado_destroy
| Ado_one_time bool

definition aclient_call :: "nat \<Rightarrow> apool_call \<Rightarrow> apool \<Rightarrow> apool" where
  "aclient_call j c p =
     (case c of
        Ado_execute t \<Rightarrow>
          set_aclient j (A_execute t Y_enter) (p\<lparr>ap_submitted := ap_submitted p + ptr_tasks t\<rparr>)
      | Ado_query q \<Rightarrow> set_aclient j (A_query q YQ_enter) p
      | Ado_terminate \<Rightarrow> set_aclient j (A_terminate False YT_enter) p
      | Ado_join \<Rightarrow> set_aclient j (A_join False YJ_enter) p
      | Ado_destroy \<Rightarrow> set_aclient j (A_terminate True YT_enter) p
      | Ado_one_time b \<Rightarrow> p\<lparr>ap_one_time := b\<rparr>)"

text \<open>\<open>idle_notification\<close>, called by a worker without the lock of the pool.\<close>
definition aidle_notification :: "nat \<Rightarrow> apool \<Rightarrow> apool" where
  "aidle_notification k p = set_async (a_notify k (ap_sync p)) p"

definition arecord_event :: "worker_event \<Rightarrow> apool \<Rightarrow> apool" where
  "arecord_event ev p =
     p\<lparr>ap_started := ap_started p + ev_started ev, ap_finished := ap_finished p + ev_finished ev,
       ap_discarded := ap_discarded p + ev_discarded ev\<rparr>"

datatype apool_label =
  AP_call nat apool_call | AP_client nat nat | AP_worker nat run_end nat
| AP_client_spurious nat | AP_worker_spurious nat

definition apool_step :: "apool \<Rightarrow> apool_label \<Rightarrow> apool option" where
  "apool_step p l =
     (case l of
        AP_call j c \<Rightarrow>
          (if j < length (ap_clients p)
           then (case ap_clients p ! j of A_outside _ \<Rightarrow> Some (aclient_call j c p) | _ \<Rightarrow> None)
           else None)
      | AP_client j k \<Rightarrow> if j < length (ap_clients p) then aclient_step j k p else None
      | AP_worker i e k \<Rightarrow>
          (if i < length (ap_tasks p) then
             (case aworker_step (ap_one_time p) (Worker i) e (ap_tasks p ! i) of
                Some (tm, ev) \<Rightarrow>
                  Some (arecord_event ev ((if ev = Ev_idle then aidle_notification k else id)
                                            (set_amanager i tm p)))
              | None \<Rightarrow> None)
           else None)
      | AP_client_spurious j \<Rightarrow> Some (set_async (a_spurious (ap_sync p) (Client j)) p)
      | AP_worker_spurious i \<Rightarrow>
          (if i < length (ap_tasks p)
           then Some (set_amanager i (aworker_spurious (Worker i) (ap_tasks p ! i)) p)
           else None))"

lemmas apool_upd = set_aclient_def set_amanager_def set_async_def

end
