(* ===== verification/Agent_Invariant.thy ===== *)
theory Agent_Invariant
  imports Agent_Pool
begin

text \<open>
  The invariant of the agent++ pool and the account of its tasks.  Its task manager is the third
  interpretation of the contract \<open>task_host\<close>.
\<close>

section \<open>The task manager\<close>

definition agent_holds :: "agent_pc \<Rightarrow> bool" where
  "agent_holds pc \<longleftrightarrow> pc \<in> {G_while, G_run, G_once, G_notify, G_inner, G_exit, G_leave}"

definition g_inv :: "tid \<Rightarrow> amanager \<Rightarrow> bool" where
  "g_inv w tm \<longleftrightarrow>
     a_monitor (g_sync tm) = (if agent_holds (g_pc tm) then Some w else None) \<and>
     (g_pc tm = G_run \<longrightarrow> g_task tm \<noteq> None) \<and>
     (g_pc tm \<in> {G_once, G_notify, G_leave} \<longrightarrow> g_task tm = None) \<and>
     g_pc tm \<noteq> G_threw"

definition g_held :: "amanager \<Rightarrow> task multiset" where
  "g_held tm = ptr_tasks (g_task tm)"

definition g_running :: "amanager \<Rightarrow> task multiset" where
  "g_running tm = (if g_pc tm = G_run then ptr_tasks (g_task tm) else {#})"

lemmas g_defs = g_inv_def g_held_def g_running_def agent_holds_def

lemma a_notify_fields [simp]:
  "a_monitor (a_notify k s) = a_monitor s" "a_flag (a_notify k s) = a_flag s"
  "a_monitor (a_notify_all s) = a_monitor s" "a_flag (a_notify_all s) = a_flag s"
  "a_monitor (a_spurious s t) = a_monitor s" "a_flag (a_spurious s t) = a_flag s"
  by (simp_all add: a_notify_def a_notify_all_def a_spurious_def)

lemma a_enter_no_throw [simp]: "a_enter s t \<noteq> Throws msg"
  by (auto simp: a_enter_def a_lock_def split: outcome.splits pcall.splits if_splits prod.splits)

text \<open>A critical section of a thread that does not own the monitor.\<close>
lemma a_locked_foreign:
  assumes "a_monitor s \<noteq> Some c" and "\<And>u. a_monitor (snd (body u)) = a_monitor u"
  shows "a_locked s c body =
    (if a_monitor s = None
     then (let r = body (s\<lparr>a_monitor := Some c, a_flag := True\<rparr>)
           in Returns (fst r, (snd r)\<lparr>a_flag := False, a_monitor := None\<rparr>))
     else Blocked)"
proof (cases "a_monitor s")
  case None
  obtain a s2 where b: "body (s\<lparr>a_monitor := Some c, a_flag := True\<rparr>) = (a, s2)" by fastforce
  have "a_monitor s2 = Some c"
    using assms(2) [of "s\<lparr>a_monitor := Some c, a_flag := True\<rparr>"] by (simp add: b)
  then show ?thesis using None b by (simp add: a_locked_def Let_def)
next
  case (Some u)
  then show ?thesis using assms(1) by (simp add: a_locked_def)
qed

lemma g_inv_owner: "g_inv w tm \<Longrightarrow> a_monitor (g_sync tm) = Some u \<Longrightarrow> u = w"
  by (simp add: g_inv_def split: if_splits)

lemma g_inv_construct: "g_inv w (g_construct err n)"
  by (cases err)
    (simp_all add: g_defs g_construct_def athread_start_def athread_set_stack_def
      athread_new_for_def athread_is_alive_def Let_def)

text \<open>The functions other threads call: the state they leave, and that they do not throw.\<close>
lemma g_calls:
  assumes "a_monitor (g_sync tm) \<noteq> Some c"
  shows "g_is_idle c tm = Returns (b, tm') \<Longrightarrow>
      b = (g_task tm = None \<and> athread_is_alive (g_thread tm)) \<and> a_monitor (g_sync tm) = None \<and>
      (\<exists>s. tm' = tm\<lparr>g_sync := s\<rparr> \<and> a_monitor s = None)"
    and "g_is_busy c tm = Returns (b, tm') \<Longrightarrow>
      b = (g_task tm \<noteq> None) \<and> a_monitor (g_sync tm) = None \<and>
      (\<exists>s. tm' = tm\<lparr>g_sync := s\<rparr> \<and> a_monitor s = None)"
    and "g_set_task k c t tm = Returns (b, tm') \<Longrightarrow>
      b = (g_task tm = None) \<and> a_monitor (g_sync tm) = None \<and>
      (\<exists>s. tm' = tm\<lparr>g_task := if b then t else g_task tm, g_sync := s\<rparr> \<and> a_monitor s = None)"
    and "g_stop c tm = Returns tm' \<Longrightarrow> a_monitor (g_sync tm) = None \<and>
      (\<exists>s. tm' = tm\<lparr>g_go := False, g_sync := s\<rparr> \<and> a_monitor s = None)"
    and "g_join_begin c tm = Returns tm' \<Longrightarrow> a_monitor (g_sync tm) = None \<and>
      (\<exists>s. tm' = tm\<lparr>g_sync := s\<rparr> \<and> a_monitor s = None)"
    and "g_is_idle c tm \<noteq> Throws msg" "g_is_busy c tm \<noteq> Throws msg"
      "g_set_task k c t tm \<noteq> Throws msg" "g_stop c tm \<noteq> Throws msg"
      "g_join_begin c tm \<noteq> Throws msg"
  using assms
  by (auto simp: g_is_idle_def g_is_busy_def g_set_task_def g_stop_def g_join_begin_def
      a_locked_foreign Let_def split: if_splits)

lemma g_join_Returns:
  "g_join tm = Returns tm' \<Longrightarrow>
   tm' = tm\<lparr>g_thread := athread_join None (g_thread tm)\<rparr>"
  by (auto simp: g_join_def split: if_splits)

lemma g_join_no_throw [simp]: "g_join tm \<noteq> Throws msg"
  by (simp add: g_join_def)

lemma g_inv_step:
  "g_inv w tm \<Longrightarrow> aworker_step one w e tm = Some (tm', ev) \<Longrightarrow> g_inv w tm'"
  by (cases "g_pc tm")
    (auto simp: aworker_step_def g_defs a_wait_def cond_wait_def a_resume_def
       split: if_splits option.splits run_end.splits)

interpretation agent_host:
  task_host g_inv g_held g_running g_set_task "\<lambda>w x. aworker_step (fst x) w (snd x)"
proof
  fix k c t h h'
  assume "g_set_task k c t h = Returns (True, h')"
  then show "g_held h = {#} \<and> g_held h' = ptr_tasks t"
    by (auto simp: g_set_task_def a_locked_def g_held_def
        split: outcome.splits prod.splits if_splits)
next
  fix k c t h h'
  assume "g_set_task k c t h = Returns (False, h')"
  then show "g_held h' = g_held h"
    by (auto simp: g_set_task_def a_locked_def g_held_def
        split: outcome.splits prod.splits if_splits)
next
  fix w h k c t b h'
  assume "g_inv w h" and "g_set_task k c t h = Returns (b, h')"
  then show "g_running h' = g_running h"
    by (auto simp: g_set_task_def a_locked_def g_running_def g_inv_def
        split: outcome.splits prod.splits if_splits)
next
  fix h
  show "g_running h \<subseteq># g_held h" by (simp add: g_running_def g_held_def)
next
  fix w h e h' ev
  assume "g_inv w h" and "aworker_step (fst e) w (snd e) h = Some (h', ev)"
  then show "g_held h = g_held h' + ev_finished ev + ev_discarded ev"
    by (cases "g_pc h")
      (auto simp: aworker_step_def g_defs split: if_splits option.splits run_end.splits
        outcome.splits prod.splits)
next
  fix w h e h' ev
  assume "g_inv w h" and "aworker_step (fst e) w (snd e) h = Some (h', ev)"
  then show "g_running h + ev_started ev = g_running h' + ev_finished ev"
    by (cases "g_pc h")
      (auto simp: aworker_step_def g_defs split: if_splits option.splits run_end.splits
        outcome.splits prod.splits)
qed

section \<open>The pool\<close>

fun aclient_holds :: "aclient_pc \<Rightarrow> bool" where
  "aclient_holds (A_execute t x) = (x \<noteq> Y_enter \<and> x \<noteq> Y_asleep)"
| "aclient_holds (A_query q x) = (x \<noteq> YQ_enter)"
| "aclient_holds (A_terminate d x) = (x \<noteq> YT_enter)"
| "aclient_holds (A_join d x) = (x \<noteq> YJ_enter)"
| "aclient_holds _ = False"

fun aclient_sees :: "nat \<Rightarrow> aclient_pc \<Rightarrow> bool" where
  "aclient_sees n (A_execute t (Y_set i)) = (i < n)"
| "aclient_sees n (A_terminate d (YT_notify i)) = (i < n)"
| "aclient_sees n (A_join d (YJ_join i l)) = (i < n)"
| "aclient_sees n A_threw = False"
| "aclient_sees n _ = True"

definition amanagers_ok :: "amanager list \<Rightarrow> bool" where
  "amanagers_ok tms \<longleftrightarrow> (\<forall>i < length tms. g_inv (Worker i) (tms ! i))"

fun a_in_flight :: "aclient_pc \<Rightarrow> task multiset" where
  "a_in_flight (A_execute t x) = ptr_tasks t"
| "a_in_flight _ = {#}"

definition aledger :: "apool \<Rightarrow> bool" where
  "aledger p \<longleftrightarrow>
     ap_submitted p = ap_finished p + ap_discarded p + owned g_held (ap_tasks p)
                        + owned a_in_flight (ap_clients p) \<and>
     ap_started p = ap_finished p + owned g_running (ap_tasks p)"

definition apool_inv :: "apool \<Rightarrow> bool" where
  "apool_inv p \<longleftrightarrow> amanagers_ok (ap_tasks p) \<and>
     (\<forall>j < length (ap_clients p).
        (a_monitor (ap_sync p) = Some (Client j) \<longleftrightarrow> aclient_holds (ap_clients p ! j)) \<and>
        aclient_sees (length (ap_tasks p)) (ap_clients p ! j)) \<and>
     aledger p"

lemma apool_invD:
  assumes "apool_inv p"
  shows "amanagers_ok (ap_tasks p)" and "aledger p"
    and "j < length (ap_clients p) \<Longrightarrow>
      a_monitor (ap_sync p) = Some (Client j) \<longleftrightarrow> aclient_holds (ap_clients p ! j)"
    and "j < length (ap_clients p) \<Longrightarrow> aclient_sees (length (ap_tasks p)) (ap_clients p ! j)"
  using assms by (auto simp: apool_inv_def)

lemma amanagers_ok_update:
  "amanagers_ok tms \<Longrightarrow> g_inv (Worker i) tm \<Longrightarrow> amanagers_ok (tms[i := tm])"
  unfolding amanagers_ok_def
  by (metis length_list_update nth_list_update_eq nth_list_update_neq)

lemma amanagers_ok_nth: "amanagers_ok tms \<Longrightarrow> i < length tms \<Longrightarrow> g_inv (Worker i) (tms ! i)"
  by (simp add: amanagers_ok_def)

lemma apool_upd_fields [simp]:
  "ap_sync (set_aclient j pc p) = ap_sync p" "ap_tasks (set_aclient j pc p) = ap_tasks p"
  "ap_clients (set_aclient j pc p) = (ap_clients p)[j := pc]"
  "ap_sync (set_amanager i tm p) = ap_sync p"
  "ap_tasks (set_amanager i tm p) = (ap_tasks p)[i := tm]"
  "ap_clients (set_amanager i tm p) = ap_clients p"
  "ap_sync (set_async s p) = s" "ap_tasks (set_async s p) = ap_tasks p"
  "ap_clients (set_async s p) = ap_clients p"
  by (simp_all add: apool_upd)

lemma apool_upd_ghosts [simp]:
  "ap_submitted (set_aclient j pc p) = ap_submitted p" "ap_started (set_aclient j pc p) = ap_started p"
  "ap_finished (set_aclient j pc p) = ap_finished p"
  "ap_discarded (set_aclient j pc p) = ap_discarded p"
  "ap_submitted (set_amanager i tm p) = ap_submitted p"
  "ap_started (set_amanager i tm p) = ap_started p"
  "ap_finished (set_amanager i tm p) = ap_finished p"
  "ap_discarded (set_amanager i tm p) = ap_discarded p"
  "ap_submitted (set_async s p) = ap_submitted p" "ap_started (set_async s p) = ap_started p"
  "ap_finished (set_async s p) = ap_finished p" "ap_discarded (set_async s p) = ap_discarded p"
  by (simp_all add: apool_upd)

text \<open>One step of the client \<open>j\<close>, before and after which nobody else owns the lock of the pool.\<close>
lemma apool_inv_update:
  assumes inv: "apool_inv p" and j: "j < length (ap_clients p)"
    and before: "a_monitor (ap_sync p) = None \<or> a_monitor (ap_sync p) = Some (Client j)"
    and after: "a_monitor s = (if aclient_holds pc then Some (Client j) else None)"
    and tms: "amanagers_ok tms" "length tms = length (ap_tasks p)"
    and sees: "aclient_sees (length (ap_tasks p)) pc" and led: "aledger p'"
    and p': "ap_sync p' = s" "ap_tasks p' = tms" "ap_clients p' = (ap_clients p)[j := pc]"
  shows "apool_inv p'"
  unfolding apool_inv_def
proof (intro conjI allI impI)
  fix i assume "i < length (ap_clients p')"
  then have i: "i < length (ap_clients p)" by (simp add: p')
  show "a_monitor (ap_sync p') = Some (Client i) \<longleftrightarrow> aclient_holds (ap_clients p' ! i)"
    using apool_invD(3) [OF inv i] before after i j by (cases "i = j") (auto simp: p')
  show "aclient_sees (length (ap_tasks p')) (ap_clients p' ! i)"
    using apool_invD(4) [OF inv i] sees tms i j by (cases "i = j") (auto simp: p')
qed (use tms led p' in simp_all)

section \<open>The account\<close>

lemma aledger_move:
  assumes "aledger p" and "j < length (ap_clients p)"
    and "a_in_flight pc = a_in_flight (ap_clients p ! j)"
  shows "aledger (set_aclient j pc p)"
  using assms owned_update_same [of j "ap_clients p" a_in_flight pc] by (simp add: aledger_def)

lemma aledger_manager:
  assumes "aledger p" and "i < length (ap_tasks p)"
    and "g_held tm = g_held (ap_tasks p ! i)" and "g_running tm = g_running (ap_tasks p ! i)"
  shows "aledger (set_amanager i tm p)"
  using assms owned_update_same [of i "ap_tasks p" g_held tm]
    owned_update_same [of i "ap_tasks p" g_running tm] by (simp add: aledger_def)

lemma aledger_sync [simp]: "aledger (set_async s p) \<longleftrightarrow> aledger p"
  by (simp add: aledger_def)

lemma aledger_handed:
  assumes led: "aledger p" and j: "j < length (ap_clients p)" and i: "i < length (ap_tasks p)"
    and ok: "g_inv w (ap_tasks p ! i)"
    and set: "g_set_task k c t (ap_tasks p ! i) = Returns (True, tm)"
    and pc: "a_in_flight (ap_clients p ! j) = ptr_tasks t" "a_in_flight pc = {#}"
  shows "aledger (set_aclient j pc (set_amanager i tm p))"
proof -
  have "owned g_held ((ap_tasks p)[i := tm]) = owned g_held (ap_tasks p) + ptr_tasks t"
    by (rule agent_host.taken_owned [OF i set])
  moreover have "owned g_running ((ap_tasks p)[i := tm]) = owned g_running (ap_tasks p)"
    by (rule agent_host.offer_owned_running [OF i ok set])
  moreover have "owned a_in_flight ((ap_clients p)[j := pc]) + ptr_tasks t =
      owned a_in_flight (ap_clients p)"
    using pc by (intro owned_update_sub [OF j]) simp
  ultimately show ?thesis
    using led by (simp add: aledger_def ac_simps)
qed

lemma aledger_worker:
  assumes led: "aledger p" and i: "i < length (ap_tasks p)" and ok: "g_inv w (ap_tasks p ! i)"
    and step: "aworker_step one w e (ap_tasks p ! i) = Some (tm, ev)"
    and p': "ap_tasks p' = (ap_tasks p)[i := tm]" "ap_clients p' = ap_clients p"
      "ap_submitted p' = ap_submitted p" "ap_started p' = ap_started p + ev_started ev"
      "ap_finished p' = ap_finished p + ev_finished ev"
      "ap_discarded p' = ap_discarded p + ev_discarded ev"
  shows "aledger p'"
proof -
  note held = agent_host.step_owned [of i "ap_tasks p" w "(one, e)" tm ev]
  note running = agent_host.step_owned_running [of i "ap_tasks p" w "(one, e)" tm ev]
  have "owned g_held (ap_tasks p') + (ev_finished ev + ev_discarded ev) = owned g_held (ap_tasks p)"
    using held i ok step by (simp add: p')
  moreover have "owned g_running (ap_tasks p') + ev_finished ev =
      owned g_running (ap_tasks p) + ev_started ev"
    using running i ok step by (simp add: p')
  ultimately show ?thesis
    using led by (simp add: aledger_def p'(2-) ac_simps)
qed

end
