(* ===== verification/Agent_Properties.thy ===== *)
theory Agent_Properties
  imports Agent_Invariant
begin

text \<open>
  Every step of the agent++ pool keeps the invariant; what the pool promises, and two runs in
  which a task is accepted and never executed.
\<close>

section \<open>Parts of a step\<close>

lemma ainv_manager:
  assumes "apool_inv p" and "i < length (ap_tasks p)" and "g_inv (Worker i) tm"
    and "g_held tm = g_held (ap_tasks p ! i)" and "g_running tm = g_running (ap_tasks p ! i)"
  shows "apool_inv (set_amanager i tm p)"
  using assms aledger_manager [OF apool_invD(2) [OF assms(1)] assms(2,4,5)]
    amanagers_ok_update [OF apool_invD(1) [OF assms(1)] assms(3)]
  by (simp add: apool_inv_def)

lemma ainv_sync:
  "apool_inv p \<Longrightarrow> a_monitor s = a_monitor (ap_sync p) \<Longrightarrow> apool_inv (set_async s p)"
  by (simp add: apool_inv_def)

lemma ainv_move:
  assumes inv: "apool_inv p" and j: "j < length (ap_clients p)"
    and holds: "aclient_holds (ap_clients p ! j)" "aclient_holds pc"
    and sees: "aclient_sees (length (ap_tasks p)) pc"
    and flight: "a_in_flight pc = a_in_flight (ap_clients p ! j)"
  shows "apool_inv (set_aclient j pc p)"
proof -
  have own: "a_monitor (ap_sync p) = Some (Client j)" using apool_invD(3) [OF inv j] holds by simp
  show ?thesis
    using own holds sees apool_invD(1,2) [OF inv]
    by (intro apool_inv_update [OF inv j, where s = "ap_sync p" and tms = "ap_tasks p" and pc = pc])
      (auto intro: aledger_move j flight)
qed

lemma ainv_return:
  assumes inv: "apool_inv p" and j: "j < length (ap_clients p)"
    and holds: "aclient_holds (ap_clients p ! j)" "\<not> aclient_holds pc"
    and sees: "aclient_sees (length (ap_tasks p)) pc"
    and q: "ap_sync q = ap_sync p" "ap_clients q = ap_clients p" "amanagers_ok (ap_tasks q)"
      "length (ap_tasks q) = length (ap_tasks p)"
    and led: "aledger (set_aclient j pc q)"
    and ret: "aclient_return j pc q = Some p'"
  shows "apool_inv p'"
proof -
  have own: "a_monitor (ap_sync p) = Some (Client j)" using apool_invD(3) [OF inv j] holds by simp
  then have p': "p' = set_aclient j pc
      (set_async ((ap_sync p)\<lparr>a_flag := False, a_monitor := None\<rparr>) q)"
    using ret by (simp add: aclient_return_def q)
  have "aledger p'" using led by (simp add: p' aledger_def)
  then show ?thesis
    using own holds sees q
    by (intro apool_inv_update [OF inv j, where s = "ap_sync p'" and tms = "ap_tasks q" and pc = pc])
      (auto simp: p')
qed

lemma ainv_leave:
  assumes inv: "apool_inv p" and j: "j < length (ap_clients p)"
    and holds: "aclient_holds (ap_clients p ! j)" "\<not> aclient_holds pc"
    and sees: "aclient_sees (length (ap_tasks p)) pc"
    and flight: "a_in_flight pc = a_in_flight (ap_clients p ! j)"
    and ret: "aclient_return j pc p = Some p'"
  shows "apool_inv p'"
  using apool_invD(1,2) [OF inv] flight j
  by (intro ainv_return [OF inv j holds sees _ _ _ _ _ ret]) (auto intro: aledger_move)

lemma ainv_enter:
  assumes inv: "apool_inv p" and j: "j < length (ap_clients p)"
    and holds: "\<not> aclient_holds (ap_clients p ! j)" "aclient_holds pc"
    and sees: "aclient_sees (length (ap_tasks p)) pc"
    and flight: "a_in_flight pc = a_in_flight (ap_clients p ! j)"
    and enter: "aclient_enter j pc p = Some p'"
  shows "apool_inv p'"
proof (cases "a_monitor (ap_sync p)")
  case None
  then have p': "p' = set_aclient j pc
      (set_async ((ap_sync p)\<lparr>a_monitor := Some (Client j), a_flag := True\<rparr>) p)"
    using enter by (simp add: aclient_enter_def)
  show ?thesis
    using None holds sees apool_invD(1,2) [OF inv] flight j
    by (intro apool_inv_update [OF inv j, where s = "ap_sync p'" and tms = "ap_tasks p" and pc = pc])
      (auto simp: p' intro: aledger_move)
next
  case (Some u)
  then show ?thesis
    using enter holds apool_invD(3) [OF inv j] by (cases "u = Client j") (auto simp: aclient_enter_def)
qed

definition g_same :: "tid \<Rightarrow> amanager \<Rightarrow> amanager \<Rightarrow> bool" where
  "g_same w tm tm' \<longleftrightarrow> g_inv w tm' \<and> g_held tm' = g_held tm \<and> g_running tm' = g_running tm"

text \<open>A call on the task manager \<open>i\<close> that neither takes nor gives a task.\<close>
lemma ainv_on:
  assumes inv: "apool_inv p" and i: "i < length (ap_tasks p)"
    and step: "on_amanager j i out cont p = Some p'"
    and throws: "\<And>msg. out \<noteq> Throws msg"
    and same: "\<And>b tm. out = Returns (b, tm) \<Longrightarrow> g_same (Worker i) (ap_tasks p ! i) tm"
  obtains b tm where "out = Returns (b, tm)" and "apool_inv (set_amanager i tm p)"
    and "cont b (set_amanager i tm p) = Some p'"
proof -
  obtain b tm where out: "out = Returns (b, tm)" and p': "cont b (set_amanager i tm p) = Some p'"
    using step throws by (auto simp: on_amanager_def split: outcome.splits)
  show thesis
    using that [OF out _ p'] ainv_manager [OF inv i] same [OF out] by (auto simp: g_same_def)
qed

lemma g_foreign:
  "apool_inv p \<Longrightarrow> i < length (ap_tasks p) \<Longrightarrow> a_monitor (g_sync (ap_tasks p ! i)) \<noteq> Some (Client j)"
  using amanagers_ok_nth [OF apool_invD(1)] g_inv_owner by blast

lemma g_same_fields:
  assumes "g_inv w tm" and "a_monitor (g_sync tm) = None" and "a_monitor s = None"
  shows "g_same w tm (tm\<lparr>g_sync := s\<rparr>)" and "g_same w tm (tm\<lparr>g_go := False, g_sync := s\<rparr>)"
  using assms by (simp_all add: g_same_def g_defs split: if_splits)

lemma g_same_thread: "g_inv w tm \<Longrightarrow> g_same w tm (tm\<lparr>g_thread := th\<rparr>)"
  by (simp add: g_same_def g_defs)

lemma no_value_Returns: "no_value out = Returns (u, tm) \<longleftrightarrow> out = Returns tm"
  by (auto simp: no_value_def split: outcome.splits)

lemma no_value_Throws: "no_value out = Throws msg \<longleftrightarrow> out = Throws msg"
  by (auto simp: no_value_def split: outcome.splits)

text \<open>The calls of the pool on its task managers, apart from \<open>set_task\<close>.\<close>
lemma g_calls_same:
  assumes ok: "g_inv (Worker i) tm" and foreign: "a_monitor (g_sync tm) \<noteq> Some (Client j)"
  shows "g_is_idle (Client j) tm = Returns (b, tm') \<Longrightarrow> g_same (Worker i) tm tm'"
    and "g_is_busy (Client j) tm = Returns (b, tm') \<Longrightarrow> g_same (Worker i) tm tm'"
    and "no_value (g_stop (Client j) tm) = Returns (u, tm') \<Longrightarrow> g_same (Worker i) tm tm'"
    and "no_value (g_join_begin (Client j) tm) = Returns (u, tm') \<Longrightarrow> g_same (Worker i) tm tm'"
    and "no_value (g_join tm) = Returns (u, tm') \<Longrightarrow> g_same (Worker i) tm tm'"
    and "no_value (g_stop (Client j) tm) \<noteq> Throws msg"
      "no_value (g_join_begin (Client j) tm) \<noteq> Throws msg" "no_value (g_join tm) \<noteq> Throws msg"
proof -
  note f = g_same_fields [OF ok] and c = g_calls [OF foreign]
  show "g_is_idle (Client j) tm = Returns (b, tm') \<Longrightarrow> g_same (Worker i) tm tm'"
    using c(1) f(1) by blast
  show "g_is_busy (Client j) tm = Returns (b, tm') \<Longrightarrow> g_same (Worker i) tm tm'"
    using c(2) f(1) by blast
  show "no_value (g_stop (Client j) tm) = Returns (u, tm') \<Longrightarrow> g_same (Worker i) tm tm'"
    using c(4) f(2) by (auto simp: no_value_Returns)
  show "no_value (g_join_begin (Client j) tm) = Returns (u, tm') \<Longrightarrow> g_same (Worker i) tm tm'"
    using c(5) f(1) by (auto simp: no_value_Returns)
  show "no_value (g_join tm) = Returns (u, tm') \<Longrightarrow> g_same (Worker i) tm tm'"
    using g_join_Returns g_same_thread [OF ok] by (auto simp: no_value_Returns)
  show "no_value (g_stop (Client j) tm) \<noteq> Throws msg"
    "no_value (g_join_begin (Client j) tm) \<noteq> Throws msg" "no_value (g_join tm) \<noteq> Throws msg"
    using c(9,10) by (simp_all add: no_value_Throws)
qed

lemma g_inv_notify [simp]:
  "g_inv w (g_notify k tm) = g_inv w tm" "g_held (g_notify k tm) = g_held tm"
  "g_running (g_notify k tm) = g_running tm"
  by (simp_all add: g_notify_def g_defs)

section \<open>The steps of a client\<close>

lemma ainv_execute:
  assumes inv: "apool_inv p" and j: "j < length (ap_clients p)"
    and pc: "ap_clients p ! j = A_execute t x" and step: "aexecute_step j k t x p = Some p'"
  shows "apool_inv p'"
proof (cases x)
  case Y_enter
  then show ?thesis
    using step pc by (intro ainv_enter [OF inv j]) (auto simp: aexecute_step_def)
next
  case (Y_scan i)
  show ?thesis
  proof (cases "i < length (ap_tasks p)")
    case True
    note ok = amanagers_ok_nth [OF apool_invD(1) [OF inv] True] and f = g_foreign [OF inv True, of j]
    obtain b tm where q: "apool_inv (set_amanager i tm p)"
      and p': "p' = set_aclient j (A_execute t (if b then Y_set i else Y_scan (Suc i)))
        (set_amanager i tm p)"
    proof (rule ainv_on [OF inv True])
      show "on_amanager j i (g_is_idle (Client j) (ap_tasks p ! i)) (\<lambda>b q. Some (set_aclient j
          (A_execute t (if b then Y_set i else Y_scan (Suc i))) q)) p = Some p'"
        using step Y_scan True by (simp add: aexecute_step_def)
    qed (use g_calls(6) [OF f] g_calls_same(1) [OF ok f] in auto)
    show ?thesis unfolding p' using pc Y_scan True j by (intro ainv_move [OF q]) auto
  next
    case False
    then show ?thesis
      using step Y_scan pc by (auto simp: aexecute_step_def intro!: ainv_move [OF inv j])
  qed
next
  case (Y_set i)
  have i: "i < length (ap_tasks p)" using apool_invD(4) [OF inv j] pc Y_set by simp
  note ok = amanagers_ok_nth [OF apool_invD(1) [OF inv] i] and f = g_foreign [OF inv i, of j]
  obtain b tm where set: "g_set_task k (Client j) t (ap_tasks p ! i) = Returns (b, tm)"
    and p': "(if b then aclient_return j (A_outside None) (set_amanager i tm p)
       else Some (set_aclient j (A_execute t (Y_scan (Suc i))) (set_amanager i tm p))) = Some p'"
    using step Y_set g_calls(8) [OF f]
    by (auto simp: aexecute_step_def on_amanager_def split: outcome.splits)
  note S = g_calls(3) [OF f set]
  then have tm: "g_inv (Worker i) tm" using ok by (auto simp: g_defs split: if_splits)
  note tms = amanagers_ok_update [OF apool_invD(1) [OF inv] tm]
  show ?thesis
  proof (cases b)
    case True
    have "aledger (set_aclient j (A_outside None) (set_amanager i tm p))"
      using set True pc by (intro aledger_handed [OF apool_invD(2) [OF inv] j i ok]) auto
    then show ?thesis
      using p' True tms pc Y_set
      by (intro ainv_return [OF inv j, where q = "set_amanager i tm p" and pc = "A_outside None"]) auto
  next
    case False
    have "apool_inv (set_amanager i tm p)"
      using S False tm by (intro ainv_manager [OF inv i]) (auto simp: g_held_def g_running_def)
    then show ?thesis using p' False pc Y_set j by (auto intro!: ainv_move)
  qed
next
  case Y_wait
  then have own: "a_monitor (ap_sync p) = Some (Client j)" using apool_invD(3) [OF inv j] pc by simp
  then have p': "p' = set_aclient j (A_execute t Y_asleep) (set_async ((ap_sync p)
      \<lparr>a_flag := False, a_monitor := None, a_cond := a_cond (ap_sync p) @ [Client j]\<rparr>) p)"
    using step Y_wait by (simp add: aexecute_step_def a_wait_def cond_wait_def)
  show ?thesis
    using own apool_invD(1,2) [OF inv] pc j
    by (intro apool_inv_update [OF inv j, where pc = "A_execute t Y_asleep" and s = "ap_sync p'"])
      (auto simp: p' intro!: aledger_move)
next
  case Y_asleep
  then have free: "a_monitor (ap_sync p) = None"
    and p': "p' = set_aclient j (A_execute t (Y_scan 0)) (set_async ((ap_sync p)
      \<lparr>a_monitor := Some (Client j), a_flag := True\<rparr>) p)"
    using step by (auto simp: aexecute_step_def a_resume_def split: if_splits option.splits)
  show ?thesis
    using free apool_invD(1,2) [OF inv] pc j
    by (intro apool_inv_update [OF inv j, where pc = "A_execute t (Y_scan 0)" and s = "ap_sync p'"])
      (auto simp: p' intro!: aledger_move)
qed

text \<open>A call on a task manager followed by a step that keeps the invariant.\<close>
lemma ainv_on_then:
  assumes inv: "apool_inv p" and i: "i < length (ap_tasks p)"
    and step: "on_amanager j i out cont p = Some p'"
    and throws: "\<And>msg. out \<noteq> Throws msg"
    and same: "\<And>b tm. out = Returns (b, tm) \<Longrightarrow> g_same (Worker i) (ap_tasks p ! i) tm"
    and cont: "\<And>b q p'. apool_inv q \<Longrightarrow> ap_clients q = ap_clients p \<Longrightarrow>
      length (ap_tasks q) = length (ap_tasks p) \<Longrightarrow> ap_sync q = ap_sync p \<Longrightarrow>
      cont b q = Some p' \<Longrightarrow> apool_inv p'"
  shows "apool_inv p'"
proof (rule ainv_on [OF inv i step throws same])
  fix b tm
  assume q: "apool_inv (set_amanager i tm p)" and c: "cont b (set_amanager i tm p) = Some p'"
  show "apool_inv p'" by (rule cont [OF q _ _ _ c]) simp_all
qed

lemma ainv_query:
  assumes inv: "apool_inv p" and j: "j < length (ap_clients p)"
    and pc: "ap_clients p ! j = A_query q x"
    and step: "q = Q_is_idle \<and> ais_idle_step j x p = Some p' \<or>
               q = Q_is_busy \<and> ais_busy_step j x p = Some p'"
  shows "apool_inv p'"
proof (cases x)
  case YQ_enter
  then show ?thesis
    using step pc
    by (intro ainv_enter [OF inv j, where pc = "A_query q (YQ_scan 0)"])
      (auto simp: ais_idle_step_def ais_busy_step_def)
next
  case (YQ_scan i)
  have leave: "aclient_return j (A_outside r) u = Some v \<Longrightarrow> apool_inv u \<Longrightarrow>
      ap_clients u = ap_clients p \<Longrightarrow> apool_inv v" for r u v
    using pc YQ_scan j by (auto elim!: ainv_leave [rotated -1])
  have move: "apool_inv u \<Longrightarrow> ap_clients u = ap_clients p \<Longrightarrow>
      apool_inv (set_aclient j (A_query q (YQ_scan n)) u)" for u n
    using pc YQ_scan j by (auto intro!: ainv_move)
  show ?thesis
  proof (cases "i < length (ap_tasks p)")
    case True
    note ok = amanagers_ok_nth [OF apool_invD(1) [OF inv] True] and f = g_foreign [OF inv True, of j]
    show ?thesis
      using step
    proof (elim disjE conjE)
      assume q: "q = Q_is_idle" and st: "ais_idle_step j x p = Some p'"
      show ?thesis
        using st YQ_scan True g_calls(6) [OF f] g_calls_same(1) [OF ok f]
        by (elim ainv_on_then [OF inv True, of j "g_is_idle (Client j) (ap_tasks p ! i)", rotated])
          (auto simp: ais_idle_step_def q intro: leave dest: move [unfolded q] split: if_splits)
    next
      assume q: "q = Q_is_busy" and st: "ais_busy_step j x p = Some p'"
      show ?thesis
        using st YQ_scan True g_calls(7) [OF f] g_calls_same(2) [OF ok f]
        by (elim ainv_on_then [OF inv True, of j "g_is_busy (Client j) (ap_tasks p ! i)", rotated])
          (auto simp: ais_busy_step_def q intro: leave dest: move [unfolded q] split: if_splits)
    qed
  next
    case False
    then show ?thesis
      using step YQ_scan leave [OF _ inv] by (auto simp: ais_idle_step_def ais_busy_step_def)
  qed
qed

lemma ainv_terminate:
  assumes inv: "apool_inv p" and j: "j < length (ap_clients p)"
    and pc: "ap_clients p ! j = A_terminate d x" and step: "aterminate_step j k d x p = Some p'"
  shows "apool_inv p'"
proof (cases x)
  case YT_enter
  then show ?thesis
    using step pc by (intro ainv_enter [OF inv j]) (auto simp: aterminate_step_def)
next
  case (YT_stop i)
  show ?thesis
  proof (cases "i < length (ap_tasks p)")
    case True
    note ok = amanagers_ok_nth [OF apool_invD(1) [OF inv] True] and f = g_foreign [OF inv True, of j]
    have "on_amanager j i (no_value (g_stop (Client j) (ap_tasks p ! i)))
        (\<lambda>_ q. Some (set_aclient j (A_terminate d (YT_notify i)) q)) p = Some p'"
      using step YT_stop True by (simp add: aterminate_step_def)
    then show ?thesis
      using pc YT_stop j True g_calls_same(6) [OF ok f] g_calls_same(3) [OF ok f]
      by (rule_tac ainv_on_then [OF inv True]) (auto intro!: ainv_move)
  next
    case False
    then show ?thesis
      using step YT_stop pc by (auto simp: aterminate_step_def intro!: ainv_move [OF inv j])
  qed
next
  case (YT_notify i)
  have i: "i < length (ap_tasks p)" using apool_invD(4) [OF inv j] pc YT_notify by simp
  have "apool_inv (set_amanager i (g_notify k (ap_tasks p ! i)) p)"
    using amanagers_ok_nth [OF apool_invD(1) [OF inv] i] by (intro ainv_manager [OF inv i]) simp_all
  then show ?thesis
    using step YT_notify pc j by (auto simp: aterminate_step_def intro!: ainv_move)
next
  case YT_last
  have "apool_inv (set_async (a_notify k (ap_sync p)) p)" by (intro ainv_sync inv) simp
  then show ?thesis
    using step YT_last pc j
    by (cases d) (auto simp: aterminate_step_def elim!: ainv_leave [rotated -1])
qed

lemma ainv_join:
  assumes inv: "apool_inv p" and j: "j < length (ap_clients p)"
    and pc: "ap_clients p ! j = A_join d x" and step: "ajoin_step j d x p = Some p'"
  shows "apool_inv p'"
proof (cases x)
  case YJ_enter
  then show ?thesis
    using step pc by (intro ainv_enter [OF inv j]) (auto simp: ajoin_step_def)
next
  case (YJ_begin i l)
  show ?thesis
  proof (cases "i < length (ap_tasks p) \<and> i \<notin> set l")
    case True
    then have i: "i < length (ap_tasks p)" by simp
    note ok = amanagers_ok_nth [OF apool_invD(1) [OF inv] i] and f = g_foreign [OF inv i, of j]
    have "on_amanager j i (no_value (g_join_begin (Client j) (ap_tasks p ! i)))
        (\<lambda>_ q. Some (set_aclient j (A_join d (YJ_join i l)) q)) p = Some p'"
      using step YJ_begin True by (simp add: ajoin_step_def)
    then show ?thesis
      using pc YJ_begin j i g_calls_same(7) [OF ok f] g_calls_same(4) [OF ok f]
      by (rule_tac ainv_on_then [OF inv i]) (auto intro!: ainv_move)
  next
    case False
    then show ?thesis
      using step YJ_begin pc
      by (auto simp: ajoin_step_def intro!: ainv_move [OF inv j] elim!: ainv_leave [OF inv j, rotated -1]
          split: if_splits)
  qed
next
  case (YJ_join i l)
  have i: "i < length (ap_tasks p)" using apool_invD(4) [OF inv j] pc YJ_join by simp
  note ok = amanagers_ok_nth [OF apool_invD(1) [OF inv] i] and f = g_foreign [OF inv i, of j]
  have own: "a_monitor (ap_sync p) = Some (Client j)"
    using apool_invD(3) [OF inv j] pc YJ_join by simp
  show ?thesis
  proof (rule ainv_on [OF inv i])
    show "on_amanager j i (no_value (g_join (ap_tasks p ! i)))
      (\<lambda>_ q. case a_lock (ap_sync q) (Client j) of
          Returns (_, s) \<Rightarrow>
            Some (set_aclient j (A_join d (YJ_begin (Suc i) (l @ [i]))) (set_async s q))
        | Throws _ \<Rightarrow> Some (set_aclient j A_threw q)
        | Blocked \<Rightarrow> None) p = Some p'"
      using step YJ_join by (simp add: ajoin_step_def)
    fix u tm
    assume "apool_inv (set_amanager i tm p)"
      and "(case a_lock (ap_sync (set_amanager i tm p)) (Client j) of
          Returns (_, s) \<Rightarrow>
            Some (set_aclient j (A_join d (YJ_begin (Suc i) (l @ [i])))
                    (set_async s (set_amanager i tm p)))
        | Throws _ \<Rightarrow> Some (set_aclient j A_threw (set_amanager i tm p))
        | Blocked \<Rightarrow> None) = Some p'"
    then show ?thesis
      using own pc YJ_join j ainv_sync [of "set_amanager i tm p" "ap_sync p"]
      by (auto simp: a_lock_def mutex_lock_def intro!: ainv_move)
  qed (use g_calls_same(8) [OF ok f] g_calls_same(5) [OF ok f] in auto)
qed

section \<open>Every step\<close>

lemma ainv_client_step:
  assumes inv: "apool_inv p" and j: "j < length (ap_clients p)"
    and step: "aclient_step j k p = Some p'"
  shows "apool_inv p'"
proof (cases "ap_clients p ! j")
  case (A_query q x)
  then show ?thesis
    using step by (intro ainv_query [OF inv j]) (auto simp: aclient_step_def split: query.splits)
qed (use step in \<open>auto simp: aclient_step_def intro: ainv_execute [OF inv j]
       ainv_terminate [OF inv j] ainv_join [OF inv j]\<close>)

lemma ainv_call:
  assumes inv: "apool_inv p" and j: "j < length (ap_clients p)"
    and out: "ap_clients p ! j = A_outside r"
  shows "apool_inv (aclient_call j c p)"
proof -
  have free: "a_monitor (ap_sync p) \<noteq> Some (Client j)" using apool_invD(3) [OF inv j] out by simp
  have set: "apool_inv (set_aclient j pc q)"
    if q: "ap_sync q = ap_sync p" "ap_tasks q = ap_tasks p" "ap_clients q = ap_clients p"
      and pc: "\<not> aclient_holds pc" "aclient_sees (length (ap_tasks p)) pc"
      and led: "aledger (set_aclient j pc q)" for pc q
    unfolding apool_inv_def
  proof (intro conjI allI impI)
    fix i assume "i < length (ap_clients (set_aclient j pc q))"
    then have i: "i < length (ap_clients p)" by (simp add: q)
    show "a_monitor (ap_sync (set_aclient j pc q)) = Some (Client i) \<longleftrightarrow>
        aclient_holds (ap_clients (set_aclient j pc q) ! i)"
      using apool_invD(3) [OF inv i] free pc j by (cases "i = j") (auto simp: q)
    show "aclient_sees (length (ap_tasks (set_aclient j pc q))) (ap_clients (set_aclient j pc q) ! i)"
      using apool_invD(4) [OF inv i] pc j by (cases "i = j") (auto simp: q)
  qed (use apool_invD(1) [OF inv] led q in simp_all)
  have led: "aledger (set_aclient j pc p)" if "a_in_flight pc = {#}" for pc
    using apool_invD(2) [OF inv] j out that by (auto intro: aledger_move)
  show ?thesis
  proof (cases c)
    case (Ado_execute t)
    let ?q = "p\<lparr>ap_submitted := ap_submitted p + ptr_tasks t\<rparr>" and ?pc = "A_execute t Y_enter"
    have "owned a_in_flight ((ap_clients p)[j := ?pc]) = owned a_in_flight (ap_clients p) + ptr_tasks t"
      using out by (intro owned_update_add [OF j]) simp
    then have "aledger (set_aclient j ?pc ?q)"
      using apool_invD(2) [OF inv] by (simp add: aledger_def apool_upd ac_simps)
    then have "apool_inv (set_aclient j ?pc ?q)" by (intro set) simp_all
    then show ?thesis by (simp add: aclient_call_def Ado_execute)
  next
    case (Ado_one_time b)
    then show ?thesis using inv by (simp add: aclient_call_def apool_inv_def aledger_def)
  qed (use set led in \<open>simp_all add: aclient_call_def\<close>)
qed

lemma ainv_worker:
  assumes inv: "apool_inv p" and i: "i < length (ap_tasks p)"
    and step: "aworker_step one (Worker i) e (ap_tasks p ! i) = Some (tm, ev)"
  shows "apool_inv (arecord_event ev ((if ev = Ev_idle then aidle_notification k else id)
            (set_amanager i tm p)))" (is "apool_inv ?p'")
proof -
  note ok = amanagers_ok_nth [OF apool_invD(1) [OF inv] i]
  have fields: "ap_tasks ?p' = (ap_tasks p)[i := tm]" "ap_clients ?p' = ap_clients p"
    "a_monitor (ap_sync ?p') = a_monitor (ap_sync p)" "ap_submitted ?p' = ap_submitted p"
    "ap_started ?p' = ap_started p + ev_started ev"
    "ap_finished ?p' = ap_finished p + ev_finished ev"
    "ap_discarded ?p' = ap_discarded p + ev_discarded ev"
    by (auto simp: arecord_event_def aidle_notification_def)
  have "aledger ?p'"
    by (rule aledger_worker [OF apool_invD(2) [OF inv] i ok step fields(1,2,4-7)])
  then show ?thesis
    using inv amanagers_ok_update [OF apool_invD(1) [OF inv] g_inv_step [OF ok step]] fields
    by (simp add: apool_inv_def)
qed

lemma apool_inv_step:
  assumes inv: "apool_inv p" and step: "apool_step p l = Some p'"
  shows "apool_inv p'"
proof (cases l)
  case (AP_call j c)
  then show ?thesis
    using step by (auto simp: apool_step_def intro: ainv_call [OF inv]
        split: if_splits aclient_pc.splits)
next
  case (AP_client j k)
  then show ?thesis
    using step by (auto simp: apool_step_def intro: ainv_client_step [OF inv] split: if_splits)
next
  case (AP_worker i e k)
  then obtain tm ev where "i < length (ap_tasks p)"
    and "aworker_step (ap_one_time p) (Worker i) e (ap_tasks p ! i) = Some (tm, ev)"
    and "p' = arecord_event ev ((if ev = Ev_idle then aidle_notification k else id)
            (set_amanager i tm p))"
    using step by (auto simp: apool_step_def split: if_splits option.splits)
  then show ?thesis using ainv_worker [OF inv] by blast
next
  case (AP_client_spurious j)
  then show ?thesis using step by (auto simp: apool_step_def intro: ainv_sync [OF inv])
next
  case (AP_worker_spurious i)
  have "g_inv w (aworker_spurious w tm) = g_inv w tm" "g_held (aworker_spurious w tm) = g_held tm"
    "g_running (aworker_spurious w tm) = g_running tm" for w tm
    by (simp_all add: aworker_spurious_def g_defs)
  then show ?thesis
    using step AP_worker_spurious amanagers_ok_nth [OF apool_invD(1) [OF inv]]
    by (auto simp: apool_step_def intro!: ainv_manager [OF inv] split: if_splits)
qed

interpretation agent_pool: step_invariant apool_step apool_inv
  by unfold_locales (rule apool_inv_step)

lemma apool_inv_construct: "apool_inv (apool_construct_stack errs n stack m)"
proof -
  have "owned g_held (map (\<lambda>i. g_construct (errs i) stack) is) = {#}"
    "owned g_running (map (\<lambda>i. g_construct (errs i) stack) is) = {#}" for "is"
    by (induction "is") (simp_all add: g_construct_def g_held_def g_running_def Let_def)
  moreover have "owned a_in_flight (replicate m (A_outside None)) = {#}" by (induction m) simp_all
  ultimately show ?thesis
    by (auto simp: apool_inv_def apool_construct_stack_def amanagers_ok_def aledger_def
        g_inv_construct)
qed

lemma apool_reach_inv:
  "reach apool_step (apool_construct_stack errs n stack m) p \<Longrightarrow> apool_inv p"
  using agent_pool.inv_reach apool_inv_construct by blast

end
