(* ===== verification/Agent_Runs.thy ===== *)
theory Agent_Runs
  imports Agent_Properties
begin

text \<open>
  What becomes of a task given to an agent++ pool whose workers have ended, in one-time mode or
  after \<open>terminate\<close>: it is accepted, and it is neither executed nor deleted.
\<close>

section \<open>Workers that have ended\<close>

text \<open>What the clients do leaves the locations of the workers and the record of events alone.\<close>
definition quiet :: "apool \<Rightarrow> apool \<Rightarrow> bool" where
  "quiet p p' \<longleftrightarrow> map g_pc (ap_tasks p') = map g_pc (ap_tasks p) \<and>
     ap_started p' = ap_started p \<and> ap_finished p' = ap_finished p \<and>
     ap_discarded p' = ap_discarded p"

lemma quiet_refl [simp]: "quiet p p"
  by (simp add: quiet_def)

lemma quiet_trans: "quiet p q \<Longrightarrow> quiet q r \<Longrightarrow> quiet p r"
  by (simp add: quiet_def)

lemma quiet_upd [simp]:
  "quiet p (set_aclient j pc q) = quiet p q" "quiet p (set_async s q) = quiet p q"
  by (simp_all add: quiet_def)

lemma quiet_manager:
  "g_pc tm = g_pc (ap_tasks p ! i) \<Longrightarrow> quiet p (set_amanager i tm p)"
proof (cases "i < length (ap_tasks p)")
  case True
  assume "g_pc tm = g_pc (ap_tasks p ! i)"
  then have "map g_pc ((ap_tasks p)[i := tm]) = map g_pc (ap_tasks p)"
    using True by (simp add: map_update list_update_same_conv)
  then show ?thesis by (simp add: quiet_def)
qed (simp add: quiet_def not_less list_update_beyond)

lemma quiet_return: "aclient_return j pc q = Some p' \<Longrightarrow> quiet p q \<Longrightarrow> quiet p p'"
  by (auto simp: aclient_return_def split: outcome.splits)

lemma quiet_enter: "aclient_enter j pc q = Some p' \<Longrightarrow> quiet p q \<Longrightarrow> quiet p p'"
  by (auto simp: aclient_enter_def split: outcome.splits)

lemma g_calls_pc:
  "g_is_idle c tm = Returns (b, tm') \<Longrightarrow> g_pc tm' = g_pc tm"
  "g_is_busy c tm = Returns (b, tm') \<Longrightarrow> g_pc tm' = g_pc tm"
  "g_set_task k c t tm = Returns (b, tm') \<Longrightarrow> g_pc tm' = g_pc tm"
  "no_value (g_stop c tm) = Returns (u, tm') \<Longrightarrow> g_pc tm' = g_pc tm"
  "no_value (g_join_begin c tm) = Returns (u, tm') \<Longrightarrow> g_pc tm' = g_pc tm"
  "no_value (g_join tm) = Returns (u, tm') \<Longrightarrow> g_pc tm' = g_pc tm"
  by (auto simp: g_is_idle_def g_is_busy_def g_set_task_def g_stop_def g_join_begin_def g_join_def
      no_value_Returns split: outcome.splits prod.splits if_splits)

lemma quiet_on:
  assumes "on_amanager j i out cont p = Some p'"
    and "\<And>b tm. out = Returns (b, tm) \<Longrightarrow> g_pc tm = g_pc (ap_tasks p ! i)"
    and "\<And>b q. quiet p q \<Longrightarrow> cont b q = Some p' \<Longrightarrow> quiet p p'"
  shows "quiet p p'"
  using assms(1)
proof (cases out)
  case (Returns r)
  then obtain b tm where out: "out = Returns (b, tm)" by (cases r) simp
  then have "cont b (set_amanager i tm p) = Some p'" using assms(1) by (simp add: on_amanager_def)
  then show ?thesis using assms(3) quiet_manager assms(2) [OF out] by blast
qed (auto simp: on_amanager_def)

lemma quiet_client:
  assumes "aclient_step j k p = Some p'"
  shows "quiet p p'"
proof (cases "ap_clients p ! j")
  case (A_execute t x)
  then show ?thesis
    using assms
    by (cases x)
      (auto simp: aclient_step_def aexecute_step_def dest: g_calls_pc elim!: quiet_on
        intro: quiet_return quiet_enter split: if_splits outcome.splits)
next
  case (A_query q x)
  then show ?thesis
    using assms
    by (cases x; cases q)
      (auto simp: aclient_step_def ais_idle_step_def ais_busy_step_def dest: g_calls_pc
        elim!: quiet_on intro: quiet_return quiet_enter split: if_splits)
next
  case (A_terminate d x)
  then show ?thesis
    using assms
    by (cases x)
      (auto simp: aclient_step_def aterminate_step_def dest: g_calls_pc elim!: quiet_on
        intro: quiet_return quiet_enter intro!: quiet_manager simp: g_notify_def split: if_splits)
next
  case (A_join d x)
  then show ?thesis
    using assms
    by (cases x)
      (auto simp: aclient_step_def ajoin_step_def dest: g_calls_pc elim!: quiet_on
        intro: quiet_return quiet_enter split: if_splits outcome.splits)
qed (use assms in \<open>simp_all add: aclient_step_def\<close>)

definition workers_ended :: "apool \<Rightarrow> bool" where
  "workers_ended p \<longleftrightarrow> list_all (\<lambda>tm. g_pc tm = G_done) (ap_tasks p)"

lemma workers_ended_quiet: "quiet p p' \<Longrightarrow> workers_ended p' = workers_ended p"
proof -
  have "workers_ended q \<longleftrightarrow> list_all (\<lambda>pc. pc = G_done) (map g_pc (ap_tasks q))" for q
    by (simp add: workers_ended_def list.pred_map comp_def)
  then show "quiet p p' \<Longrightarrow> ?thesis" by (simp add: quiet_def)
qed

lemma ended_step:
  assumes "workers_ended p" and "apool_step p l = Some p'"
  shows "quiet p p'"
proof (cases l)
  case (AP_call j c)
  then show ?thesis
    using assms(2)
    by (cases c) (auto simp: apool_step_def aclient_call_def quiet_def apool_upd
        split: if_splits aclient_pc.splits)
next
  case (AP_client j k)
  then show ?thesis
    using assms(2) by (auto simp: apool_step_def intro: quiet_client split: if_splits)
next
  case (AP_worker i e k)
  then have "i < length (ap_tasks p)" "g_pc (ap_tasks p ! i) \<noteq> G_done"
    using assms(2) by (auto simp: apool_step_def aworker_step_def split: if_splits option.splits)
  then show ?thesis using assms(1) by (simp add: workers_ended_def list_all_length)
next
  case (AP_client_spurious j)
  then show ?thesis using assms(2) by (auto simp: apool_step_def)
next
  case (AP_worker_spurious i)
  then show ?thesis
    using assms(2)
    by (auto simp: apool_step_def aworker_spurious_def intro!: quiet_manager split: if_splits)
qed

text \<open>
  Nothing is executed once the workers of an agent++ pool have ended, after terminate or in
  one-time mode.  However the execution goes on, no task is started, finished or deleted any more,
  whatever the clients submit.
\<close>
theorem apool_ended_frozen:
  assumes "workers_ended p" and "reach apool_step p p'"
  shows "workers_ended p' \<and> ap_started p' = ap_started p \<and> ap_finished p' = ap_finished p \<and>
    ap_discarded p' = ap_discarded p"
proof -
  have "workers_ended p' \<and> quiet p p'"
    using assms(2,1)
  proof (induction rule: reach.induct)
    case (reach_step q l r)
    then show ?case
      using ended_step workers_ended_quiet quiet_trans by blast
  qed simp
  then show ?thesis by (simp add: quiet_def)
qed

section \<open>Runs\<close>

lemmas agent_eval = apool_step_def aclient_step_def aexecute_step_def aterminate_step_def
  aclient_enter_def aclient_return_def on_amanager_def no_value_def apool_upd aclient_call_def
  aworker_step_def arecord_event_def aidle_notification_def g_is_idle_def g_set_task_def g_stop_def
  g_notify_def a_locked_def a_enter_def a_lock_def a_leave_def a_unlock_def a_wait_def a_resume_def
  a_notify_def a_notify_all_def mutex_lock_def mutex_unlock_def cond_wait_def cond_broadcast_def
  athread_is_alive_def Let_def

text \<open>
  One worker, one client, one-time mode: a task is executed and the worker ends; a second task is
  submitted.
\<close>
definition once_start :: apool where
  "once_start = apool_construct (\<lambda>i. None) 1 1"

definition once_run :: "apool_label list" where
  "once_run =
     AP_call 0 (Ado_one_time True) # AP_call 0 (Ado_execute (Some 1)) #
     replicate 3 (AP_client 0 0) @ replicate 5 (AP_worker 0 Run_returns 0) @
     AP_call 0 (Ado_execute (Some 2)) # replicate 3 (AP_client 0 0)"

definition once_thread :: thread where
  "once_thread = athread_start None (athread_set_stack (athread_new_for 0) default_stacksize)"

lemma once_thread_status [simp]: "status once_thread = RUNNING"
  by (simp add: once_thread_def athread_start_def athread_set_stack_def athread_new_for_def)

definition once_state :: apool where
  "once_state =
     \<lparr>ap_sync = async_new,
      ap_tasks = [\<lparr>g_sync = async_new, g_thread = once_thread, g_task = Some 2, g_go = True,
                   g_pc = G_done\<rparr>],
      ap_stack = default_stacksize, ap_one_time = True, ap_clients = [A_outside None],
      ap_submitted = {#1, 2#}, ap_started = {#1#}, ap_finished = {#1#}, ap_discarded = {#}\<rparr>"

lemma once_start_eq:
  "once_start =
     \<lparr>ap_sync = async_new,
      ap_tasks = [\<lparr>g_sync = async_new, g_thread = once_thread, g_task = None, g_go = True,
                   g_pc = G_enter\<rparr>],
      ap_stack = default_stacksize, ap_one_time = False, ap_clients = [A_outside None],
      ap_submitted = {#}, ap_started = {#}, ap_finished = {#}, ap_discarded = {#}\<rparr>"
  by (simp add: once_start_def apool_construct_def apool_construct_stack_def g_construct_def
      once_thread_def [symmetric] athread_is_alive_def Let_def)

lemma once_run: "run_steps apool_step once_start once_run = Some once_state"
  by (simp add: once_run_def once_state_def once_start_eq numeral_eq_Suc agent_eval)

lemma once_reached:
  "reach apool_step (apool_construct_stack (\<lambda>i. None) 1 default_stacksize 1) once_state"
  using run_steps_reach [OF once_run] by (simp add: once_start_def apool_construct_def)

text \<open>
  C22: the account of the tasks of the agent++ pool.  In every state of every execution, one-time
  execution or not, the tasks submitted are those finished, those deleted without running, those
  in the slot of a worker and those a client is still handing over; a task is started at most as
  often as it was submitted, no call fails an assertion, and at most one client is inside the
  pool.
\<close>
theorem apool_tasks_accounted:
  assumes "reach apool_step (apool_construct_stack errs n stack m) p"
  shows "ap_submitted p = ap_finished p + ap_discarded p + owned g_held (ap_tasks p)
      + owned a_in_flight (ap_clients p) \<and>
    ap_started p = ap_finished p + owned g_running (ap_tasks p) \<and>
    ap_started p + ap_discarded p \<subseteq># ap_submitted p \<and>
    A_threw \<notin> set (ap_clients p) \<and>
    (\<forall>i < length (ap_clients p). \<forall>j < length (ap_clients p).
       aclient_holds (ap_clients p ! i) \<longrightarrow> aclient_holds (ap_clients p ! j) \<longrightarrow> i = j)"
proof (intro conjI allI impI)
  note inv = apool_reach_inv [OF assms]
  then have led: "aledger p" by (simp add: apool_inv_def)
  then show sub: "ap_submitted p = ap_finished p + ap_discarded p + owned g_held (ap_tasks p)
      + owned a_in_flight (ap_clients p)"
    and run: "ap_started p = ap_finished p + owned g_running (ap_tasks p)"
    by (simp_all add: aledger_def)
  have "owned g_running (ap_tasks p) \<subseteq># owned g_held (ap_tasks p) + owned a_in_flight (ap_clients p)"
    using agent_host.running_owned
      subset_mset.add_increasing2 [of "owned a_in_flight (ap_clients p)"] by simp
  then have "(ap_finished p + ap_discarded p) + owned g_running (ap_tasks p) \<subseteq>#
      (ap_finished p + ap_discarded p) + (owned g_held (ap_tasks p) + owned a_in_flight (ap_clients p))"
    by (rule subset_mset.add_left_mono)
  then show "ap_started p + ap_discarded p \<subseteq># ap_submitted p"
    by (simp add: sub run ac_simps)
  show "A_threw \<notin> set (ap_clients p)"
    using apool_invD(4) [OF inv] by (fastforce simp: in_set_conv_nth)
  fix i j assume "i < length (ap_clients p)" "j < length (ap_clients p)"
    "aclient_holds (ap_clients p ! i)" "aclient_holds (ap_clients p ! j)"
  then show "i = j" using apool_invD(3) [OF inv] by (metis option.inject tid.inject(2))
qed

theorem apool_tasks_accounted_witness: "ap_started once_state \<subseteq># {#1, 2#}"
  using apool_tasks_accounted [OF once_reached] by (simp add: once_state_def)

lemma once_ended: "workers_ended once_state"
  by (simp add: workers_ended_def once_state_def)

theorem apool_ended_frozen_witness:
  "workers_ended once_state \<and>
   (\<exists>p. apool_step once_state (AP_call 0 Ado_join) = Some p \<and> ap_started p = {#1#})"
proof -
  let ?p = "aclient_call 0 Ado_join once_state"
  have step: "apool_step once_state (AP_call 0 Ado_join) = Some ?p"
    by (simp add: apool_step_def once_state_def)
  have "ap_started ?p = ap_started once_state"
    using apool_ended_frozen [OF once_ended reach_one [of apool_step, OF step]] by blast
  then show ?thesis using step once_ended by (simp add: once_state_def)
qed

text \<open>
  A pool in one-time mode loses tasks.  In the run of the statement the only worker executes
  its one task and ends; its thread still counts as alive, so the pool takes it for idle, and
  execute hands it the next task and returns.  The task is never executed.
\<close>
theorem apool_one_time_loses:
  "run_steps apool_step (apool_construct (\<lambda>i. None) 1 1) once_run = Some once_state \<and>
   ap_clients once_state = [A_outside None] \<and> g_task (ap_tasks once_state ! 0) = Some 2 \<and>
   g_pc (ap_tasks once_state ! 0) = G_done \<and> ap_started once_state = {#1#}"
  using once_run by (simp add: once_start_def once_state_def)

end
