(* ===== verification/Agent_Queued.thy ===== *)
theory Agent_Queued
  imports Agent_Runs Lock_Queue
begin

text \<open>
  The class \<open>QueuedThreadPool\<close> of the agent++ variant: a \<open>ThreadPool\<close> (\<open>aq_base\<close>) with a
  queue and a dispatcher thread.  The overriding \<open>execute\<close>, \<open>queue_length\<close> and \<open>run\<close> hold
  the lock of the member \<open>thread\<close> (\<open>aq_sync\<close>); the queries, \<open>terminate\<close> and \<open>join\<close> are those of
  the base class and are run there by the same client.  The ghost \<open>ap_submitted\<close> of the base
  counts the tasks handed to a worker.  The container \<open>List\<close> is the parameter \<open>list_ops\<close>; tasks
  are not null.
\<close>

section \<open>State\<close>

text \<open>The loop of \<open>assign\<close>: asking a worker, handing over; what one step of it comes to.\<close>
datatype assign_pc = AS_scan nat | AS_set nat
datatype assign_result = AR_more assign_pc | AR_done bool | AR_threw

text \<open>
  The dispatcher: before the lock, at the loop, in \<open>assign\<close>, before and in the wait, at the end
  of the \<open>Lock\<close>, returned; stopped by an assertion.
\<close>
datatype adispatcher_pc =
  AD_enter | AD_while | AD_assign task assign_pc | AD_wait | AD_asleep | AD_leave | AD_done
| AD_threw

datatype aqexecute_pc = XQ_enter | XQ_choose | XQ_assign assign_pc | XQ_notify
datatype aqdestroy_pc = QD_enter | QD_join | QD_terminate | QD_base

datatype aqclient_pc =
  AQ_outside "nat option"
| AQ_execute task aqexecute_pc
| AQ_base
| AQ_destroy aqdestroy_pc
| AQ_threw

record 'l aqpool =
  aq_base :: apool
  aq_queue :: 'l
  aq_sync :: "tid async"
  aq_thread :: thread
  aq_go :: bool
  aq_pc :: adispatcher_pc
  aq_clients :: "aqclient_pc list"
  aq_submitted :: "task multiset"

definition aqpool_construct_stack ::
  "'l \<Rightarrow> errno option \<Rightarrow> (nat \<Rightarrow> errno option) \<Rightarrow> nat \<Rightarrow> nat \<Rightarrow> nat \<Rightarrow> 'l aqpool" where
  "aqpool_construct_stack l0 err errs n_threads stack n_clients =
     (let th = athread_start err (athread_new_for 0)
      in \<lparr>aq_base = apool_construct_stack errs n_threads stack n_clients, aq_queue = l0,
          aq_sync = async_new, aq_thread = th, aq_go = True,
          aq_pc = (if athread_is_alive th then AD_enter else AD_done),
          aq_clients = replicate n_clients (AQ_outside None), aq_submitted = {#}\<rparr>)"

definition aqpool_construct ::
  "'l \<Rightarrow> errno option \<Rightarrow> (nat \<Rightarrow> errno option) \<Rightarrow> nat \<Rightarrow> nat \<Rightarrow> 'l aqpool" where
  "aqpool_construct l0 err errs n_threads n_clients =
     aqpool_construct_stack l0 err errs n_threads default_stacksize n_clients"

definition set_aqclient :: "nat \<Rightarrow> aqclient_pc \<Rightarrow> 'l aqpool \<Rightarrow> 'l aqpool" where
  "set_aqclient j pc q = q\<lparr>aq_clients := (aq_clients q)[j := pc]\<rparr>"

definition set_adispatcher :: "adispatcher_pc \<Rightarrow> 'l aqpool \<Rightarrow> 'l aqpool" where
  "set_adispatcher pc q = q\<lparr>aq_pc := pc\<rparr>"

definition set_aqsync :: "tid async \<Rightarrow> 'l aqpool \<Rightarrow> 'l aqpool" where
  "set_aqsync s q = q\<lparr>aq_sync := s\<rparr>"

section \<open>The function assign\<close>

definition assign_step ::
  "nat \<Rightarrow> tid \<Rightarrow> task \<Rightarrow> assign_pc \<Rightarrow> apool \<Rightarrow> (assign_result \<times> apool) option" where
  "assign_step k c t pc p =
     (case pc of
        AS_scan i \<Rightarrow>
          (if i < length (ap_tasks p) then
             (case g_is_idle c (ap_tasks p ! i) of
                Returns (b, tm) \<Rightarrow>
                  Some (AR_more (if b then AS_set i else AS_scan (Suc i)), set_amanager i tm p)
              | Throws _ \<Rightarrow> Some (AR_threw, p)
              | Blocked \<Rightarrow> None)
           else Some (AR_done False, p))
      | AS_set i \<Rightarrow>
          (case g_set_task k c (Some t) (ap_tasks p ! i) of
             Returns (True, tm) \<Rightarrow>
               Some (AR_done True,
                     set_amanager i tm (p\<lparr>ap_submitted := ap_submitted p + {#t#}\<rparr>))
           | Returns (False, tm) \<Rightarrow> Some (AR_more (AS_scan (Suc i)), set_amanager i tm p)
           | Throws _ \<Rightarrow> Some (AR_threw, p)
           | Blocked \<Rightarrow> None))"

text \<open>The end of \<open>assign\<close>: a task that no worker took goes to the end of the queue.\<close>
definition assign_end :: "'l list_ops \<Rightarrow> nat \<Rightarrow> bool \<Rightarrow> task \<Rightarrow> 'l aqpool \<Rightarrow> 'l aqpool" where
  "assign_end ops k assigned t q =
     (if assigned then q
      else q\<lparr>aq_queue := l_add_last ops t (aq_queue q), aq_sync := a_notify k (aq_sync q)\<rparr>)"

section \<open>The dispatcher\<close>

definition adispatcher_step ::
  "'l list_ops \<Rightarrow> nat \<Rightarrow> 'l aqpool \<Rightarrow> 'l aqpool option" where
  "adispatcher_step ops k q =
     (case aq_pc q of
        AD_enter \<Rightarrow>
          (case a_enter (aq_sync q) Dispatcher of
             Returns s \<Rightarrow> Some (set_adispatcher AD_while (set_aqsync s q))
           | Throws _ \<Rightarrow> Some (set_adispatcher AD_threw q)
           | Blocked \<Rightarrow> None)
      | AD_while \<Rightarrow>
          (if aq_go q then
             (case l_remove_first ops (aq_queue q) of
                (Some t, rest) \<Rightarrow>
                  Some (set_adispatcher (AD_assign t (AS_scan 0)) (q\<lparr>aq_queue := rest\<rparr>))
              | (None, rest) \<Rightarrow> Some (set_adispatcher AD_wait (q\<lparr>aq_queue := rest\<rparr>)))
           else Some (set_adispatcher AD_leave q))
      | AD_assign t pc \<Rightarrow>
          (case assign_step k Dispatcher t pc (aq_base q) of
             Some (AR_more pc', p) \<Rightarrow> Some (set_adispatcher (AD_assign t pc') (q\<lparr>aq_base := p\<rparr>))
           | Some (AR_done b, p) \<Rightarrow>
               Some (set_adispatcher AD_wait (assign_end ops k b t (q\<lparr>aq_base := p\<rparr>)))
           | Some (AR_threw, p) \<Rightarrow> Some (set_adispatcher AD_threw q)
           | None \<Rightarrow> None)
      | AD_wait \<Rightarrow>
          (case a_wait None (aq_sync q) Dispatcher of
             Returns (asleep, s) \<Rightarrow>
               Some (set_adispatcher (if asleep then AD_asleep else AD_while) (set_aqsync s q))
           | Throws _ \<Rightarrow> Some (set_adispatcher AD_threw q)
           | Blocked \<Rightarrow> None)
      | AD_asleep \<Rightarrow>
          (case a_resume (aq_sync q) Dispatcher of
             Returns s \<Rightarrow> Some (set_adispatcher AD_while (set_aqsync s q))
           | Throws _ \<Rightarrow> Some (set_adispatcher AD_threw q)
           | Blocked \<Rightarrow> None)
      | AD_leave \<Rightarrow>
          (case a_leave False (aq_sync q) Dispatcher of
             Returns s \<Rightarrow> Some (set_adispatcher AD_done (set_aqsync s q))
           | Throws _ \<Rightarrow> Some (set_adispatcher AD_threw q)
           | Blocked \<Rightarrow> None)
      | AD_done \<Rightarrow> None
      | AD_threw \<Rightarrow> None)"

section \<open>The clients\<close>

definition aqexecute_step ::
  "'l list_ops \<Rightarrow> nat \<Rightarrow> nat \<Rightarrow> task \<Rightarrow> aqexecute_pc \<Rightarrow> 'l aqpool \<Rightarrow> 'l aqpool option" where
  "aqexecute_step ops j k t pc q =
     (case pc of
        XQ_enter \<Rightarrow>
          (case a_enter (aq_sync q) (Client j) of
             Returns s \<Rightarrow> Some (set_aqclient j (AQ_execute t XQ_choose) (set_aqsync s q))
           | Throws _ \<Rightarrow> Some (set_aqclient j AQ_threw q)
           | Blocked \<Rightarrow> None)
      | XQ_choose \<Rightarrow>
          (if l_size ops (aq_queue q) = 0
           then Some (set_aqclient j (AQ_execute t (XQ_assign (AS_scan 0))) q)
           else Some (set_aqclient j (AQ_execute t XQ_notify)
                        (q\<lparr>aq_queue := l_add_last ops t (aq_queue q)\<rparr>)))
      | XQ_assign apc \<Rightarrow>
          (case assign_step k (Client j) t apc (aq_base q) of
             Some (AR_more pc', p) \<Rightarrow>
               Some (set_aqclient j (AQ_execute t (XQ_assign pc')) (q\<lparr>aq_base := p\<rparr>))
           | Some (AR_done b, p) \<Rightarrow>
               Some (set_aqclient j (AQ_execute t XQ_notify)
                       (assign_end ops k b t (q\<lparr>aq_base := p\<rparr>)))
           | Some (AR_threw, p) \<Rightarrow> Some (set_aqclient j AQ_threw q)
           | None \<Rightarrow> None)
      | XQ_notify \<Rightarrow>
          (case a_leave False (a_notify k (aq_sync q)) (Client j) of
             Returns s \<Rightarrow> Some (set_aqclient j (AQ_outside None) (set_aqsync s q))
           | Throws _ \<Rightarrow> Some (set_aqclient j AQ_threw q)
           | Blocked \<Rightarrow> None))"

text \<open>\<open>queue_length\<close>\<close>
definition aqueue_length :: "'l list_ops \<Rightarrow> nat \<Rightarrow> 'l aqpool \<Rightarrow> 'l aqpool option" where
  "aqueue_length ops j q =
     (case a_locked (aq_sync q) (Client j) (\<lambda>s. (l_size ops (aq_queue q), s)) of
        Returns (n, s) \<Rightarrow> Some (set_aqclient j (AQ_outside (Some n)) (set_aqsync s q))
      | Throws _ \<Rightarrow> Some (set_aqclient j AQ_threw q)
      | Blocked \<Rightarrow> None)"

text \<open>A step of the client inside the base class; the call ends when it ends there.\<close>
definition aqbase_step :: "nat \<Rightarrow> nat \<Rightarrow> aqclient_pc \<Rightarrow> 'l aqpool \<Rightarrow> 'l aqpool option" where
  "aqbase_step j k after q =
     (case ap_clients (aq_base q) ! j of
        A_outside _ \<Rightarrow> Some (set_aqclient j after q)
      | _ \<Rightarrow> map_option (\<lambda>p. q\<lparr>aq_base := p\<rparr>) (apool_step (aq_base q) (AP_client j k)))"

text \<open>
  The destructor: the dispatcher is asked to stop and joined, \<open>ThreadPool::terminate\<close> is called,
  and the destructor of the base class.
\<close>
definition aqdestroy_step :: "nat \<Rightarrow> nat \<Rightarrow> aqdestroy_pc \<Rightarrow> 'l aqpool \<Rightarrow> 'l aqpool option" where
  "aqdestroy_step j k pc q =
     (case pc of
        QD_enter \<Rightarrow>
          (case a_locked (aq_sync q) (Client j) (\<lambda>s. (False, a_notify_all s)) of
             Returns (go, s) \<Rightarrow>
               Some (set_aqclient j (AQ_destroy QD_join) (q\<lparr>aq_go := go, aq_sync := s\<rparr>))
           | Throws _ \<Rightarrow> Some (set_aqclient j AQ_threw q)
           | Blocked \<Rightarrow> None)
      | QD_join \<Rightarrow>
          (if athread_is_alive (aq_thread q) \<and> aq_pc q \<noteq> AD_done then None
           else Some (set_aqclient j (AQ_destroy QD_terminate)
                        (q\<lparr>aq_thread := athread_join None (aq_thread q),
                           aq_base := aclient_call j Ado_terminate (aq_base q)\<rparr>)))
      | QD_terminate \<Rightarrow>
          (case ap_clients (aq_base q) ! j of
             A_outside _ \<Rightarrow> Some (set_aqclient j (AQ_destroy QD_base)
                                   (q\<lparr>aq_base := aclient_call j Ado_destroy (aq_base q)\<rparr>))
           | _ \<Rightarrow> aqbase_step j k (AQ_destroy QD_terminate) q)
      | QD_base \<Rightarrow> aqbase_step j k (AQ_outside None) q)"

definition aqclient_step ::
  "'l list_ops \<Rightarrow> nat \<Rightarrow> nat \<Rightarrow> 'l aqpool \<Rightarrow> 'l aqpool option" where
  "aqclient_step ops j k q =
     (case aq_clients q ! j of
        AQ_outside _ \<Rightarrow> None
      | AQ_execute t pc \<Rightarrow> aqexecute_step ops j k t pc q
      | AQ_base \<Rightarrow> aqbase_step j k (AQ_outside None) q
      | AQ_destroy pc \<Rightarrow> aqdestroy_step j k pc q
      | AQ_threw \<Rightarrow> None)"

section \<open>The steps of the queued pool\<close>

datatype aqpool_call =
  AQdo_execute task | AQdo_length | AQdo_query query | AQdo_terminate | AQdo_join | AQdo_destroy
| AQdo_stop | AQdo_one_time bool

text \<open>The call of a function of the base class.\<close>
definition aqbase_call :: "nat \<Rightarrow> apool_call \<Rightarrow> 'l aqpool \<Rightarrow> 'l aqpool" where
  "aqbase_call j c q =
     set_aqclient j AQ_base (q\<lparr>aq_base := aclient_call j c (aq_base q)\<rparr>)"

definition aqclient_call ::
  "'l list_ops \<Rightarrow> nat \<Rightarrow> aqpool_call \<Rightarrow> 'l aqpool \<Rightarrow> 'l aqpool option" where
  "aqclient_call ops j c q =
     (case c of
        AQdo_execute t \<Rightarrow>
          Some (set_aqclient j (AQ_execute t XQ_enter) (q\<lparr>aq_submitted := aq_submitted q + {#t#}\<rparr>))
      | AQdo_length \<Rightarrow> aqueue_length ops j q
      | AQdo_query x \<Rightarrow> Some (aqbase_call j (Ado_query x) q)
      | AQdo_terminate \<Rightarrow> Some (aqbase_call j Ado_terminate q)
      | AQdo_join \<Rightarrow> Some (aqbase_call j Ado_join q)
      | AQdo_destroy \<Rightarrow> Some (set_aqclient j (AQ_destroy QD_enter) q)
      | AQdo_stop \<Rightarrow> Some (q\<lparr>aq_go := False\<rparr>)
      | AQdo_one_time b \<Rightarrow> Some (q\<lparr>aq_base := aclient_call j (Ado_one_time b) (aq_base q)\<rparr>))"

datatype aqpool_label =
  AL_call nat aqpool_call | AL_client nat nat | AL_worker nat run_end nat | AL_dispatcher nat
| AL_base_spurious nat | AL_worker_spurious nat | AL_dispatcher_spurious

text \<open>\<open>idle_notification\<close> of the queued pool notifies the dispatcher, without its lock.\<close>
definition aqpool_step :: "'l list_ops \<Rightarrow> 'l aqpool \<Rightarrow> aqpool_label \<Rightarrow> 'l aqpool option" where
  "aqpool_step ops q l =
     (case l of
        AL_call j c \<Rightarrow>
          (if j < length (aq_clients q)
           then (case aq_clients q ! j of AQ_outside _ \<Rightarrow> aqclient_call ops j c q | _ \<Rightarrow> None)
           else None)
      | AL_client j k \<Rightarrow> if j < length (aq_clients q) then aqclient_step ops j k q else None
      | AL_worker i e k \<Rightarrow>
          (if i < length (ap_tasks (aq_base q)) then
             (case aworker_step (ap_one_time (aq_base q)) (Worker i) e (ap_tasks (aq_base q) ! i) of
                Some (tm, ev) \<Rightarrow>
                  Some (q\<lparr>aq_base := arecord_event ev (set_amanager i tm (aq_base q)),
                          aq_sync := (if ev = Ev_idle then a_notify k (aq_sync q)
                                      else aq_sync q)\<rparr>)
              | None \<Rightarrow> None)
           else None)
      | AL_dispatcher k \<Rightarrow> adispatcher_step ops k q
      | AL_base_spurious j \<Rightarrow>
          map_option (\<lambda>p. q\<lparr>aq_base := p\<rparr>) (apool_step (aq_base q) (AP_client_spurious j))
      | AL_worker_spurious i \<Rightarrow>
          map_option (\<lambda>p. q\<lparr>aq_base := p\<rparr>) (apool_step (aq_base q) (AP_worker_spurious i))
      | AL_dispatcher_spurious \<Rightarrow> Some (set_aqsync (a_spurious (aq_sync q) Dispatcher) q))"

lemmas aqpool_upd = set_aqclient_def set_adispatcher_def set_aqsync_def

end
