(* ===== verification/Agent_Queued_Properties.thy ===== *)
theory Agent_Queued_Properties
  imports Agent_Queued
begin

text \<open>
  The account of the tasks of the agent++ queued pool, on top of that of its base class, and runs
  in which the queue changes the order of the tasks and \<open>execute\<close> blocks.
\<close>

section \<open>What a call of the base class does to its clients\<close>

fun is_exec :: "aclient_pc \<Rightarrow> bool" where
  "is_exec (A_execute t x) = True"
| "is_exec _ = False"

text \<open>A step of the client \<open>j\<close> outside \<open>execute\<close>: only its own location changes.\<close>
definition own_step :: "nat \<Rightarrow> apool \<Rightarrow> apool \<Rightarrow> bool" where
  "own_step j p p' \<longleftrightarrow> ap_submitted p' = ap_submitted p \<and>
     (\<exists>pc. ap_clients p' = (ap_clients p)[j := pc] \<and> \<not> is_exec pc)"

definition clients_same :: "apool \<Rightarrow> apool \<Rightarrow> bool" where
  "clients_same p q \<longleftrightarrow> ap_submitted q = ap_submitted p \<and> ap_clients q = ap_clients p"

lemma clients_same_simps [simp]:
  "clients_same p p" "clients_same p (set_async s q) = clients_same p q"
  "clients_same p (set_amanager i tm q) = clients_same p q"
  by (simp_all add: clients_same_def)

lemma own_step_set [simp]:
  "clients_same p q \<Longrightarrow> \<not> is_exec pc \<Longrightarrow> own_step j p (set_aclient j pc q)"
  by (auto simp: own_step_def clients_same_def)

lemma own_step_return:
  "aclient_return j pc q = Some p' \<Longrightarrow> clients_same p q \<Longrightarrow> \<not> is_exec pc \<Longrightarrow> own_step j p p'"
  by (auto simp: aclient_return_def split: outcome.splits)

lemma own_step_out:
  "aclient_return j (A_outside r) q = Some p' \<Longrightarrow> clients_same p q \<Longrightarrow> own_step j p p'"
  using own_step_return [of j "A_outside r" q p' p] by simp

lemma own_step_enter:
  "aclient_enter j pc q = Some p' \<Longrightarrow> clients_same p q \<Longrightarrow> \<not> is_exec pc \<Longrightarrow> own_step j p p'"
  by (auto simp: aclient_enter_def split: outcome.splits)

lemma own_step_on:
  assumes "on_amanager j i out cont p = Some p'"
    and "\<And>b q. clients_same p q \<Longrightarrow> cont b q = Some p' \<Longrightarrow> own_step j p p'"
  shows "own_step j p p'"
proof (cases out)
  case (Returns r)
  then obtain b tm where "out = Returns (b, tm)" by (cases r) simp
  then have "cont b (set_amanager i tm p) = Some p'" using assms(1) by (simp add: on_amanager_def)
  then show ?thesis by (rule assms(2) [rotated]) simp
qed (use assms(1) in \<open>auto simp: on_amanager_def\<close>)

lemma own_step_client:
  assumes "aclient_step j k p = Some p'" and "\<not> is_exec (ap_clients p ! j)"
  shows "own_step j p p'"
proof (cases "ap_clients p ! j")
  case (A_query q x)
  then show ?thesis
    using assms(1)
    by (cases x; cases q)
      (auto simp: aclient_step_def ais_idle_step_def ais_busy_step_def elim!: own_step_on
        intro: own_step_out own_step_return own_step_enter split: if_splits)
next
  case (A_terminate d x)
  then show ?thesis
    using assms(1)
    by (cases x; cases d)
      (auto simp: aclient_step_def aterminate_step_def elim!: own_step_on
        intro: own_step_out own_step_return own_step_enter split: if_splits)
next
  case (A_join d x)
  then show ?thesis
    using assms(1)
    by (cases x)
      (auto simp: aclient_step_def ajoin_step_def elim!: own_step_on
        intro: own_step_out own_step_return own_step_enter split: if_splits outcome.splits)
qed (use assms in \<open>simp_all add: aclient_step_def\<close>)

section \<open>The invariant\<close>

fun aq_holds :: "aqclient_pc \<Rightarrow> bool" where
  "aq_holds (AQ_execute t x) = (x \<noteq> XQ_enter)"
| "aq_holds _ = False"

definition ad_holds :: "adispatcher_pc \<Rightarrow> bool" where
  "ad_holds pc \<longleftrightarrow> pc \<notin> {AD_enter, AD_asleep, AD_done, AD_threw}"

lemma ad_holds_simps [simp]:
  "ad_holds AD_while" "ad_holds (AD_assign t x)" "ad_holds AD_wait" "ad_holds AD_leave"
  "\<not> ad_holds AD_enter" "\<not> ad_holds AD_asleep" "\<not> ad_holds AD_done" "\<not> ad_holds AD_threw"
  by (simp_all add: ad_holds_def)

fun as_sees :: "nat \<Rightarrow> assign_pc \<Rightarrow> bool" where
  "as_sees n (AS_set i) = (i < n)"
| "as_sees n (AS_scan i) = True"

fun aq_sees :: "nat \<Rightarrow> aqclient_pc \<Rightarrow> bool" where
  "aq_sees n (AQ_execute t (XQ_assign x)) = as_sees n x"
| "aq_sees n AQ_threw = False"
| "aq_sees n _ = True"

fun ad_sees :: "nat \<Rightarrow> adispatcher_pc \<Rightarrow> bool" where
  "ad_sees n (AD_assign t x) = as_sees n x"
| "ad_sees n AD_threw = False"
| "ad_sees n _ = True"

fun aq_flight :: "aqclient_pc \<Rightarrow> task multiset" where
  "aq_flight (AQ_execute t x) = (if x = XQ_notify then {#} else {#t#})"
| "aq_flight _ = {#}"

fun ad_flight :: "adispatcher_pc \<Rightarrow> task multiset" where
  "ad_flight (AD_assign t x) = {#t#}"
| "ad_flight _ = {#}"

text \<open>A client of the queued pool is inside the base class only in a call of it.\<close>
fun base_link :: "aqclient_pc \<Rightarrow> aclient_pc \<Rightarrow> bool" where
  "base_link AQ_base pc = (\<not> is_exec pc)"
| "base_link (AQ_destroy QD_terminate) pc = (\<not> is_exec pc)"
| "base_link (AQ_destroy QD_base) pc = (\<not> is_exec pc)"
| "base_link _ pc = (\<exists>r. pc = A_outside r)"

definition aqledger :: "('l \<Rightarrow> nat list) \<Rightarrow> 'l aqpool \<Rightarrow> bool" where
  "aqledger view q \<longleftrightarrow>
     aq_submitted q = ap_submitted (aq_base q) + mset (view (aq_queue q)) +
       owned aq_flight (aq_clients q) + ad_flight (aq_pc q)"

definition aqlocks :: "'l aqpool \<Rightarrow> bool" where
  "aqlocks q \<longleftrightarrow>
     (a_monitor (aq_sync q) = Some Dispatcher \<longleftrightarrow> ad_holds (aq_pc q)) \<and>
     ad_sees (length (ap_tasks (aq_base q))) (aq_pc q) \<and>
     (\<forall>j < length (aq_clients q).
        (a_monitor (aq_sync q) = Some (Client j) \<longleftrightarrow> aq_holds (aq_clients q ! j)) \<and>
        aq_sees (length (ap_tasks (aq_base q))) (aq_clients q ! j) \<and>
        base_link (aq_clients q ! j) (ap_clients (aq_base q) ! j))"

definition aq_inv :: "('l \<Rightarrow> nat list) \<Rightarrow> 'l aqpool \<Rightarrow> bool" where
  "aq_inv view q \<longleftrightarrow> apool_inv (aq_base q) \<and>
     length (ap_clients (aq_base q)) = length (aq_clients q) \<and> aqlocks q \<and> aqledger view q"

lemma aq_invD:
  assumes "aq_inv view q"
  shows "apool_inv (aq_base q)" "length (ap_clients (aq_base q)) = length (aq_clients q)"
    "aqledger view q" "a_monitor (aq_sync q) = Some Dispatcher \<longleftrightarrow> ad_holds (aq_pc q)"
    "ad_sees (length (ap_tasks (aq_base q))) (aq_pc q)"
    and "j < length (aq_clients q) \<Longrightarrow>
      a_monitor (aq_sync q) = Some (Client j) \<longleftrightarrow> aq_holds (aq_clients q ! j)"
    and "j < length (aq_clients q) \<Longrightarrow>
      aq_sees (length (ap_tasks (aq_base q))) (aq_clients q ! j)"
    and "j < length (aq_clients q) \<Longrightarrow>
      base_link (aq_clients q ! j) (ap_clients (aq_base q) ! j)"
  using assms by (auto simp: aq_inv_def aqlocks_def)

lemma aqpool_upd_fields [simp]:
  "aq_base (set_aqclient j pc q) = aq_base q" "aq_queue (set_aqclient j pc q) = aq_queue q"
  "aq_sync (set_aqclient j pc q) = aq_sync q" "aq_pc (set_aqclient j pc q) = aq_pc q"
  "aq_clients (set_aqclient j pc q) = (aq_clients q)[j := pc]"
  "aq_submitted (set_aqclient j pc q) = aq_submitted q"
  "aq_base (set_adispatcher dpc q) = aq_base q" "aq_queue (set_adispatcher dpc q) = aq_queue q"
  "aq_sync (set_adispatcher dpc q) = aq_sync q" "aq_pc (set_adispatcher dpc q) = dpc"
  "aq_clients (set_adispatcher dpc q) = aq_clients q"
  "aq_submitted (set_adispatcher dpc q) = aq_submitted q"
  "aq_base (set_aqsync s q) = aq_base q" "aq_queue (set_aqsync s q) = aq_queue q"
  "aq_sync (set_aqsync s q) = s" "aq_pc (set_aqsync s q) = aq_pc q"
  "aq_clients (set_aqsync s q) = aq_clients q" "aq_submitted (set_aqsync s q) = aq_submitted q"
  by (simp_all add: aqpool_upd)

text \<open>
  A step of the client \<open>j\<close>: the others keep what they know, because nobody else is inside the
  lock before or after it.
\<close>
lemma aq_inv_client:
  assumes inv: "aq_inv view q" and j: "j < length (aq_clients q)"
    and before: "a_monitor (aq_sync q) = None \<or> a_monitor (aq_sync q) = Some (Client j) \<or>
      a_monitor (aq_sync q') = a_monitor (aq_sync q)"
    and after: "a_monitor (aq_sync q') = (if aq_holds pc then Some (Client j)
      else if a_monitor (aq_sync q) = Some (Client j) then None else a_monitor (aq_sync q))"
    and q': "aq_clients q' = (aq_clients q)[j := pc]" "aq_pc q' = aq_pc q"
    and base: "apool_inv (aq_base q')" "length (ap_tasks (aq_base q')) = length (ap_tasks (aq_base q))"
      "ap_clients (aq_base q') = (ap_clients (aq_base q))[j := apc]" "base_link pc apc"
    and sees: "aq_sees (length (ap_tasks (aq_base q))) pc" and led: "aqledger view q'"
  shows "aq_inv view q'"
proof -
  note I = aq_invD [OF inv]
  have "a_monitor (aq_sync q') = Some Dispatcher \<longleftrightarrow> ad_holds (aq_pc q)"
    using I(4) before after by (auto split: if_splits)
  moreover have "(a_monitor (aq_sync q') = Some (Client i) \<longleftrightarrow> aq_holds (aq_clients q' ! i)) \<and>
      aq_sees (length (ap_tasks (aq_base q'))) (aq_clients q' ! i) \<and>
      base_link (aq_clients q' ! i) (ap_clients (aq_base q') ! i)"
    if "i < length (aq_clients q)" for i
    using I(6-8) [OF that] I(2) before after that j base sees
    by (cases "i = j") (auto simp: q' split: if_splits)
  ultimately show ?thesis
    using base led I(2,5) by (simp add: aq_inv_def aqlocks_def q')
qed

text \<open>A step of the dispatcher.\<close>
lemma aq_inv_dispatcher:
  assumes inv: "aq_inv view q"
    and before: "a_monitor (aq_sync q) = None \<or> a_monitor (aq_sync q) = Some Dispatcher"
    and after: "a_monitor (aq_sync q') = (if ad_holds (aq_pc q') then Some Dispatcher else None)"
    and q': "aq_clients q' = aq_clients q"
    and base: "apool_inv (aq_base q')" "length (ap_tasks (aq_base q')) = length (ap_tasks (aq_base q))"
      "ap_clients (aq_base q') = ap_clients (aq_base q)"
    and sees: "ad_sees (length (ap_tasks (aq_base q))) (aq_pc q')" and led: "aqledger view q'"
  shows "aq_inv view q'"
proof -
  note I = aq_invD [OF inv]
  have "\<not> aq_holds (aq_clients q ! i)" if "i < length (aq_clients q)" for i
    using I(6) [OF that] before by auto
  then show ?thesis
    using I(2,7,8) after base sees led by (auto simp: aq_inv_def aqlocks_def q')
qed

text \<open>A step of something else that changes the base class.\<close>
lemma aq_inv_base:
  assumes inv: "aq_inv view q" and same: "aq_clients q' = aq_clients q" "aq_pc q' = aq_pc q"
      "a_monitor (aq_sync q') = a_monitor (aq_sync q)" "aq_queue q' = aq_queue q"
      "aq_submitted q' = aq_submitted q"
    and base: "apool_inv (aq_base q')" "length (ap_tasks (aq_base q')) = length (ap_tasks (aq_base q))"
      "ap_clients (aq_base q') = ap_clients (aq_base q)"
      "ap_submitted (aq_base q') = ap_submitted (aq_base q)"
  shows "aq_inv view q'"
  using aq_invD [OF inv] assms(2-) by (auto simp: aq_inv_def aqlocks_def aqledger_def)

section \<open>The function assign\<close>

lemma g_foreign_any:
  "apool_inv p \<Longrightarrow> i < length (ap_tasks p) \<Longrightarrow> c \<notin> range Worker \<Longrightarrow>
   a_monitor (g_sync (ap_tasks p ! i)) \<noteq> Some c"
  using amanagers_ok_nth [OF apool_invD(1)] g_inv_owner by blast

lemma apool_inv_handed:
  assumes inv: "apool_inv p" and i: "i < length (ap_tasks p)" and c: "c \<notin> range Worker"
    and set: "g_set_task k c (Some t) (ap_tasks p ! i) = Returns (True, tm)"
  shows "apool_inv (set_amanager i tm (p\<lparr>ap_submitted := ap_submitted p + {#t#}\<rparr>))"
proof -
  note ok = amanagers_ok_nth [OF apool_invD(1) [OF inv] i] and f = g_foreign_any [OF inv i c]
  have tm: "g_inv (Worker i) tm" using g_calls(3) [OF f set] ok by (auto simp: g_defs split: if_splits)
  have "owned g_held ((ap_tasks p)[i := tm]) = owned g_held (ap_tasks p) + {#t#}"
    using agent_host.taken_owned [OF i set] by simp
  moreover have "owned g_running ((ap_tasks p)[i := tm]) = owned g_running (ap_tasks p)"
    by (rule agent_host.offer_owned_running [OF i ok set])
  ultimately have "aledger (set_amanager i tm (p\<lparr>ap_submitted := ap_submitted p + {#t#}\<rparr>))"
    using apool_invD(2) [OF inv] by (simp add: aledger_def set_amanager_def)
  then show ?thesis
    using inv amanagers_ok_update [OF apool_invD(1) [OF inv] tm]
    by (simp add: apool_inv_def set_amanager_def)
qed

lemma assign_inv:
  assumes inv: "apool_inv p" and c: "c \<notin> range Worker" and sees: "as_sees (length (ap_tasks p)) pc"
    and step: "assign_step k c t pc p = Some (res, p')"
  shows "res \<noteq> AR_threw \<and> apool_inv p' \<and> length (ap_tasks p') = length (ap_tasks p) \<and>
    ap_clients p' = ap_clients p \<and>
    ap_submitted p' = ap_submitted p + (if res = AR_done True then {#t#} else {#}) \<and>
    (\<forall>pc'. res = AR_more pc' \<longrightarrow> as_sees (length (ap_tasks p)) pc')"
proof (cases pc)
  case (AS_scan i)
  show ?thesis
  proof (cases "i < length (ap_tasks p)")
    case True
    note ok = amanagers_ok_nth [OF apool_invD(1) [OF inv] True] and f = g_foreign_any [OF inv True c]
    obtain b tm where idle: "g_is_idle c (ap_tasks p ! i) = Returns (b, tm)"
      and res: "res = AR_more (if b then AS_set i else AS_scan (Suc i))" "p' = set_amanager i tm p"
      using step AS_scan True g_calls(6) [OF f]
      by (auto simp: assign_step_def split: outcome.splits)
    obtain s where "tm = (ap_tasks p ! i)\<lparr>g_sync := s\<rparr>" "a_monitor s = None"
      "a_monitor (g_sync (ap_tasks p ! i)) = None"
      using g_calls(1) [OF f idle] by blast
    then have "g_same (Worker i) (ap_tasks p ! i) tm" using g_same_fields(1) [OF ok] by simp
    then have "apool_inv p'"
      unfolding res by (intro ainv_manager [OF inv True]) (simp_all add: g_same_def)
    then show ?thesis using res True by simp
  next
    case False
    then show ?thesis using step AS_scan inv by (auto simp: assign_step_def)
  qed
next
  case (AS_set i)
  then have i: "i < length (ap_tasks p)" using sees by simp
  note ok = amanagers_ok_nth [OF apool_invD(1) [OF inv] i] and f = g_foreign_any [OF inv i c]
  obtain b tm where set: "g_set_task k c (Some t) (ap_tasks p ! i) = Returns (b, tm)"
    using step AS_set g_calls(8) [OF f]
    by (auto simp: assign_step_def split: outcome.splits)
  show ?thesis
  proof (cases b)
    case True
    then show ?thesis
      using step AS_set set apool_inv_handed [OF inv i c] by (auto simp: assign_step_def)
  next
    case False
    then have res: "res = AR_more (AS_scan (Suc i))" "p' = set_amanager i tm p"
      using step AS_set set by (auto simp: assign_step_def)
    obtain s where "tm = (ap_tasks p ! i)\<lparr>g_sync := s\<rparr>" "a_monitor s = None"
      "a_monitor (g_sync (ap_tasks p ! i)) = None"
      using g_calls(3) [OF f set] False by auto
    then have "g_same (Worker i) (ap_tasks p ! i) tm" using g_same_fields(1) [OF ok] by simp
    then have "apool_inv p'"
      unfolding res by (intro ainv_manager [OF inv i]) (simp_all add: g_same_def)
    then show ?thesis using res by simp
  qed
qed

section \<open>Every step keeps the invariant\<close>

lemma aq_inv_dispatcher_step:
  assumes ops: "list_contract ops view" and inv: "aq_inv view q"
    and step: "adispatcher_step ops k q = Some q'"
  shows "aq_inv view q'"
proof -
  note I = aq_invD [OF inv] and add = list_contractD(1) [OF ops]
  note led = I(3) [unfolded aqledger_def]
  have own: "ad_holds (aq_pc q) \<Longrightarrow> a_monitor (aq_sync q) = Some Dispatcher" using I(4) by simp
  note rule = aq_inv_dispatcher [OF inv]
  show ?thesis
  proof (cases "aq_pc q")
    case AD_enter
    then have "a_monitor (aq_sync q) = None"
      and q': "q' = set_adispatcher AD_while (set_aqsync
        ((aq_sync q)\<lparr>a_monitor := Some Dispatcher, a_flag := True\<rparr>) q)"
      using step I(4)
      by (cases "a_monitor (aq_sync q)"; auto simp: adispatcher_step_def async_defs split: if_splits)+
    then show ?thesis using I led AD_enter by (intro rule) (simp_all add: aqledger_def)
  next
    case AD_while
    show ?thesis
    proof (cases "aq_go q")
      case False
      then have q': "q' = set_adispatcher AD_leave q" using step AD_while by (simp add: adispatcher_step_def)
      show ?thesis using I led own AD_while by (intro rule) (simp_all add: q' aqledger_def)
    next
      case True
      obtain x rest where rem: "l_remove_first ops (aq_queue q) = (x, rest)" by fastforce
      show ?thesis
      proof (cases x)
        case None
        then have q': "q' = set_adispatcher AD_wait (q\<lparr>aq_queue := rest\<rparr>)"
          using step AD_while True rem by (simp add: adispatcher_step_def)
        have "view (aq_queue q) = []" using list_contractD(2) [OF ops] rem None by blast
        moreover then have "view rest = []" using ops rem by (auto simp: list_contract_def)
        ultimately show ?thesis
          using I led own AD_while by (intro rule) (simp_all add: q' aqledger_def)
      next
        case (Some t)
        then have q': "q' = set_adispatcher (AD_assign t (AS_scan 0)) (q\<lparr>aq_queue := rest\<rparr>)"
          using step AD_while True rem by (simp add: adispatcher_step_def)
        have "view (aq_queue q) = t # view rest" using list_contractD(3) [OF ops] rem Some by blast
        then show ?thesis
          using I led own AD_while by (intro rule) (simp_all add: q' aqledger_def)
      qed
    qed
  next
    case (AD_assign t pc)
    obtain res p where as: "assign_step k Dispatcher t pc (aq_base q) = Some (res, p)"
      using step AD_assign by (auto simp: adispatcher_step_def split: option.splits)
    have "Dispatcher \<notin> range Worker" by auto
    note A = assign_inv [OF I(1) this _ as]
    then have A: "res \<noteq> AR_threw" "apool_inv p" "length (ap_tasks p) = length (ap_tasks (aq_base q))"
      "ap_clients p = ap_clients (aq_base q)"
      "ap_submitted p = ap_submitted (aq_base q) + (if res = AR_done True then {#t#} else {#})"
      "\<And>pc'. res = AR_more pc' \<Longrightarrow> as_sees (length (ap_tasks (aq_base q))) pc'"
      using I(5) AD_assign by auto
    show ?thesis
    proof (cases res)
      case (AR_more pc')
      then have q': "q' = set_adispatcher (AD_assign t pc') (q\<lparr>aq_base := p\<rparr>)"
        using step AD_assign as by (simp add: adispatcher_step_def)
      show ?thesis
        using I led own AD_assign A AR_more by (intro rule) (simp_all add: q' aqledger_def)
    next
      case (AR_done b)
      then have q': "q' = set_adispatcher AD_wait (assign_end ops k b t (q\<lparr>aq_base := p\<rparr>))"
        using step AD_assign as by (simp add: adispatcher_step_def)
      show ?thesis
        using I led own AD_assign A AR_done
        by (intro rule) (simp_all add: q' aqledger_def assign_end_def add)
    qed (use A in simp)
  next
    case AD_wait
    then have q': "q' = set_adispatcher AD_asleep (set_aqsync ((aq_sync q)\<lparr>a_flag := False,
        a_monitor := None, a_cond := a_cond (aq_sync q) @ [Dispatcher]\<rparr>) q)"
      using step own by (simp add: adispatcher_step_def a_wait_def cond_wait_def)
    show ?thesis using I led own AD_wait by (intro rule) (simp_all add: q' aqledger_def)
  next
    case AD_asleep
    then have "a_monitor (aq_sync q) = None"
      and q': "q' = set_adispatcher AD_while (set_aqsync ((aq_sync q)
        \<lparr>a_monitor := Some Dispatcher, a_flag := True\<rparr>) q)"
      using step by (auto simp: adispatcher_step_def a_resume_def split: if_splits option.splits)
    then show ?thesis using I led AD_asleep by (intro rule) (simp_all add: aqledger_def)
  next
    case AD_leave
    then have q': "q' = set_adispatcher AD_done (set_aqsync
        ((aq_sync q)\<lparr>a_flag := False, a_monitor := None\<rparr>) q)"
      using step own by (simp add: adispatcher_step_def)
    show ?thesis using I led own AD_leave by (intro rule) (simp_all add: q' aqledger_def)
  qed (use step in \<open>simp_all add: adispatcher_step_def\<close>)
qed

text \<open>The account when the client \<open>j\<close> moves, hands its task to a worker or to the queue.\<close>
lemma aq_flight_move:
  "j < length xs \<Longrightarrow> aq_flight pc = aq_flight (xs ! j) \<Longrightarrow>
   owned aq_flight (xs[j := pc]) = owned aq_flight xs"
  by (rule owned_update_same)

lemma aq_flight_give:
  "j < length xs \<Longrightarrow> aq_flight (xs ! j) = {#t#} \<Longrightarrow> aq_flight pc = {#} \<Longrightarrow>
   owned aq_flight (xs[j := pc]) + {#t#} = owned aq_flight xs"
  by (rule owned_update_sub) simp_all

lemma list_update_outside: "j < length xs \<Longrightarrow> xs ! j = x \<Longrightarrow> xs = xs[j := x]"
  by auto

lemma aq_inv_execute:
  assumes ops: "list_contract ops view" and inv: "aq_inv view q"
    and j: "j < length (aq_clients q)" and pc: "aq_clients q ! j = AQ_execute t x"
    and step: "aqexecute_step ops j k t x q = Some q'"
  shows "aq_inv view q'"
proof -
  note I = aq_invD [OF inv] and add = list_contractD(1) [OF ops]
  note led = I(3) [unfolded aqledger_def]
  obtain r where apc: "ap_clients (aq_base q) ! j = A_outside r" using I(8) [OF j] pc by auto
  have same: "ap_clients (aq_base q) = (ap_clients (aq_base q))[j := A_outside r]"
    using list_update_outside apc I(2) j by metis
  note rule = aq_inv_client [OF inv j, where apc = "A_outside r"]
  have own: "x \<noteq> XQ_enter \<Longrightarrow> a_monitor (aq_sync q) = Some (Client j)" using I(6) [OF j] pc by simp
  note give = aq_flight_give [OF j, of t] and move = aq_flight_move [OF j]
  show ?thesis
  proof (cases x)
    case XQ_enter
    then have "a_monitor (aq_sync q) = None"
      and q': "q' = set_aqclient j (AQ_execute t XQ_choose) (set_aqsync
        ((aq_sync q)\<lparr>a_monitor := Some (Client j), a_flag := True\<rparr>) q)"
      using step I(6) [OF j] pc
      by (cases "a_monitor (aq_sync q)"; auto simp: aqexecute_step_def async_defs split: if_splits)+
    then show ?thesis
      using I(1,2) led XQ_enter pc same
      by (intro rule [where pc = "AQ_execute t XQ_choose"])
        (simp_all add: aqledger_def move [of "AQ_execute t XQ_choose"])
  next
    case XQ_choose
    show ?thesis
    proof (cases "l_size ops (aq_queue q) = 0")
      case True
      let ?pc = "AQ_execute t (XQ_assign (AS_scan 0))"
      have q': "q' = set_aqclient j ?pc q" using step XQ_choose True by (simp add: aqexecute_step_def)
      show ?thesis
        using I(1,2) led XQ_choose pc same own
        by (intro rule [where pc = ?pc]) (simp_all add: q' aqledger_def move [of ?pc])
    next
      case False
      let ?pc = "AQ_execute t XQ_notify"
      have q': "q' = set_aqclient j ?pc (q\<lparr>aq_queue := l_add_last ops t (aq_queue q)\<rparr>)"
        using step XQ_choose False by (simp add: aqexecute_step_def)
      have "owned aq_flight ((aq_clients q)[j := ?pc]) + {#t#} = owned aq_flight (aq_clients q)"
        using XQ_choose pc by (intro give) simp_all
      then have "aqledger view q'" using led by (simp add: q' aqledger_def add ac_simps)
      then show ?thesis
        using I(1,2) XQ_choose pc same own by (intro rule [where pc = ?pc]) (simp_all add: q')
    qed
  next
    case (XQ_assign apc)
    obtain res p where as: "assign_step k (Client j) t apc (aq_base q) = Some (res, p)"
      using step XQ_assign by (auto simp: aqexecute_step_def split: option.splits)
    have "Client j \<notin> range Worker" by auto
    note A = assign_inv [OF I(1) this _ as]
    then have A: "res \<noteq> AR_threw" "apool_inv p" "length (ap_tasks p) = length (ap_tasks (aq_base q))"
      "ap_clients p = ap_clients (aq_base q)"
      "ap_submitted p = ap_submitted (aq_base q) + (if res = AR_done True then {#t#} else {#})"
      "\<And>pc'. res = AR_more pc' \<Longrightarrow> as_sees (length (ap_tasks (aq_base q))) pc'"
      using I(7) [OF j] pc XQ_assign by auto
    show ?thesis
    proof (cases res)
      case (AR_more pc')
      let ?pc = "AQ_execute t (XQ_assign pc')"
      have q': "q' = set_aqclient j ?pc (q\<lparr>aq_base := p\<rparr>)"
        using step XQ_assign as AR_more by (simp add: aqexecute_step_def)
      show ?thesis
        using I(1,2) led XQ_assign pc same own A AR_more
        by (intro rule [where pc = ?pc]) (simp_all add: q' aqledger_def move [of ?pc])
    next
      case (AR_done b)
      let ?pc = "AQ_execute t XQ_notify"
      have q': "q' = set_aqclient j ?pc (assign_end ops k b t (q\<lparr>aq_base := p\<rparr>))"
        using step XQ_assign as AR_done by (simp add: aqexecute_step_def)
      have "owned aq_flight ((aq_clients q)[j := ?pc]) + {#t#} = owned aq_flight (aq_clients q)"
        using XQ_assign pc by (intro give) simp_all
      then have "aqledger view q'"
        using led A AR_done by (cases b) (simp_all add: q' aqledger_def assign_end_def add ac_simps)
      then show ?thesis
        using I(1,2) XQ_assign pc same own A
        by (intro rule [where pc = ?pc]) (simp_all add: q' assign_end_def)
    qed (use A in simp)
  next
    case XQ_notify
    let ?pc = "AQ_outside None"
    have q': "q' = set_aqclient j ?pc (set_aqsync
        ((a_notify k (aq_sync q))\<lparr>a_flag := False, a_monitor := None\<rparr>) q)"
      using step XQ_notify own by (simp add: aqexecute_step_def)
    show ?thesis
      using I(1,2) led XQ_notify pc same own
      by (intro rule [where pc = ?pc]) (simp_all add: q' aqledger_def move [of ?pc])
  qed
qed

text \<open>A client outside the lock moves to another such location, with the base class.\<close>
lemma aq_inv_outside:
  assumes inv: "aq_inv view q" and j: "j < length (aq_clients q)"
    and out: "\<not> aq_holds (aq_clients q ! j)" "\<not> aq_holds pc"
    and flight: "aq_flight pc = aq_flight (aq_clients q ! j)" "aq_sees (length (ap_tasks (aq_base q))) pc"
    and q': "aq_clients q' = (aq_clients q)[j := pc]" "aq_pc q' = aq_pc q"
      "a_monitor (aq_sync q') = a_monitor (aq_sync q)" "aq_queue q' = aq_queue q"
      "aq_submitted q' = aq_submitted q" "ap_submitted (aq_base q') = ap_submitted (aq_base q)"
    and base: "apool_inv (aq_base q')" "length (ap_tasks (aq_base q')) = length (ap_tasks (aq_base q))"
      "ap_clients (aq_base q') = (ap_clients (aq_base q))[j := apc]" "base_link pc apc"
  shows "aq_inv view q'"
proof -
  note I = aq_invD [OF inv]
  have "aqledger view q'"
    using I(3) q' aq_flight_move [OF j flight(1)] by (simp add: aqledger_def)
  moreover have "a_monitor (aq_sync q) \<noteq> Some (Client j)" using I(6) [OF j] out by simp
  ultimately show ?thesis
    using flight(2) out q' base by (intro aq_inv_client [OF inv j]) simp_all
qed

lemma quiet_tasks: "quiet p p' \<Longrightarrow> length (ap_tasks p') = length (ap_tasks p)"
  unfolding quiet_def by (metis length_map)

text \<open>A step of the client inside the base class, or its return from it.\<close>
lemma aq_inv_in_base:
  assumes inv: "aq_inv view q" and j: "j < length (aq_clients q)"
    and inside: "aq_clients q ! j = AQ_base \<or> aq_clients q ! j = AQ_destroy QD_terminate \<or>
      aq_clients q ! j = AQ_destroy QD_base"
    and step: "aqbase_step j k (AQ_outside None) q = Some q' \<or>
      aqbase_step j k (aq_clients q ! j) q = Some q' \<and> (\<nexists>r. ap_clients (aq_base q) ! j = A_outside r)"
  shows "aq_inv view q'"
proof -
  note I = aq_invD [OF inv]
  have out: "\<not> aq_holds (aq_clients q ! j)" "aq_flight (aq_clients q ! j) = {#}"
    "\<not> is_exec (ap_clients (aq_base q) ! j)"
    using inside I(8) [OF j] by auto
  show ?thesis
  proof (cases "\<exists>r. ap_clients (aq_base q) ! j = A_outside r")
    case True
    then obtain r where r: "ap_clients (aq_base q) ! j = A_outside r" by blast
    then have q': "q' = set_aqclient j (AQ_outside None) q"
      using step by (auto simp: aqbase_step_def)
    have same: "ap_clients (aq_base q) = (ap_clients (aq_base q))[j := A_outside r]"
      using list_update_outside r I(2) j by metis
    show ?thesis
      using I(1) out same
      by (intro aq_inv_outside [OF inv j, where pc = "AQ_outside None" and apc = "A_outside r"])
        (simp_all add: q')
  next
    case False
    obtain p where p: "apool_step (aq_base q) (AP_client j k) = Some p"
      and q': "q' = q\<lparr>aq_base := p\<rparr>"
      using step False by (auto simp: aqbase_step_def split: aclient_pc.splits)
    have st: "aclient_step j k (aq_base q) = Some p"
      using p by (simp add: apool_step_def split: if_splits)
    obtain pc where pc: "ap_submitted p = ap_submitted (aq_base q)"
      "ap_clients p = (ap_clients (aq_base q))[j := pc]" "\<not> is_exec pc"
      using own_step_client [OF st out(3)] by (auto simp: own_step_def)
    have link: "base_link (aq_clients q ! j) pc" using inside pc(3) by auto
    show ?thesis
      using apool_inv_step [OF I(1) p] quiet_tasks [OF quiet_client [OF st]] pc out link I(7) [OF j]
      by (intro aq_inv_outside [OF inv j, where pc = "aq_clients q ! j" and apc = pc])
        (simp_all add: q')
  qed
qed

text \<open>A call of the base class begins.\<close>
lemma base_call_fields:
  "(\<And>b. c \<noteq> Ado_one_time b) \<Longrightarrow> (\<And>t. c \<noteq> Ado_execute t) \<Longrightarrow>
   \<exists>pc. ap_clients (aclient_call j c p) = (ap_clients p)[j := pc] \<and> \<not> is_exec pc"
  by (cases c) (auto simp: aclient_call_def)

lemma base_call_same:
  "(\<And>t. c \<noteq> Ado_execute t) \<Longrightarrow> ap_tasks (aclient_call j c p) = ap_tasks p \<and>
   ap_submitted (aclient_call j c p) = ap_submitted p"
  by (cases c) (auto simp: aclient_call_def)

lemma aq_inv_base_call:
  assumes inv: "aq_inv view q" and j: "j < length (aq_clients q)"
    and out: "\<not> aq_holds (aq_clients q ! j)" "aq_flight (aq_clients q ! j) = {#}"
      "\<exists>r. ap_clients (aq_base q) ! j = A_outside r"
    and c: "c \<in> {Ado_query x, Ado_terminate, Ado_join, Ado_destroy}"
    and pc: "pc \<in> {AQ_base, AQ_destroy QD_terminate, AQ_destroy QD_base}"
    and q': "aq_clients q' = (aq_clients q)[j := pc]" "aq_pc q' = aq_pc q"
      "a_monitor (aq_sync q') = a_monitor (aq_sync q)" "aq_queue q' = aq_queue q"
      "aq_submitted q' = aq_submitted q" "aq_base q' = aclient_call j c (aq_base q)"
  shows "aq_inv view q'"
proof -
  note I = aq_invD [OF inv]
  obtain r where r: "ap_clients (aq_base q) ! j = A_outside r" using out(3) by blast
  have call: "apool_inv (aclient_call j c (aq_base q))" using I(2) j by (intro ainv_call [OF I(1) _ r]) simp
  obtain apc where apc: "ap_clients (aclient_call j c (aq_base q)) =
      (ap_clients (aq_base q))[j := apc]" "\<not> is_exec apc"
    using base_call_fields [of c j "aq_base q"] c by auto
  have "ap_tasks (aclient_call j c (aq_base q)) = ap_tasks (aq_base q) \<and>
      ap_submitted (aclient_call j c (aq_base q)) = ap_submitted (aq_base q)"
    using c by (intro base_call_same) auto
  then show ?thesis
    using call apc out pc q'
    by (intro aq_inv_outside [OF inv j, where pc = pc and apc = apc]) auto
qed

lemma aq_inv_destroy:
  assumes inv: "aq_inv view q" and j: "j < length (aq_clients q)"
    and pc: "aq_clients q ! j = AQ_destroy x" and step: "aqdestroy_step j k x q = Some q'"
  shows "aq_inv view q'"
proof (cases x)
  case QD_enter
  note I = aq_invD [OF inv]
  have foreign: "a_monitor (aq_sync q) \<noteq> Some (Client j)" using I(6) [OF j] pc by simp
  obtain r where r: "ap_clients (aq_base q) ! j = A_outside r" using I(8) [OF j] pc QD_enter by auto
  have same: "ap_clients (aq_base q) = (ap_clients (aq_base q))[j := A_outside r]"
    using list_update_outside r I(2) j by metis
  define s where "s = (a_notify_all ((aq_sync q)\<lparr>a_monitor := Some (Client j), a_flag := True\<rparr>))
      \<lparr>a_flag := False, a_monitor := None\<rparr>"
  have "a_monitor (aq_sync q) = None"
    and q': "q' = set_aqclient j (AQ_destroy QD_join) (q\<lparr>aq_go := False, aq_sync := s\<rparr>)"
    using step QD_enter
    by (auto simp: aqdestroy_step_def a_locked_foreign [OF foreign] Let_def s_def split: if_splits)
  moreover have "a_monitor s = None" by (simp add: s_def)
  ultimately show ?thesis
    using I(1) pc same
    by (intro aq_inv_outside [OF inv j, where pc = "AQ_destroy QD_join" and apc = "A_outside r"]) simp_all
next
  case QD_join
  then show ?thesis
    using step pc aq_invD(8) [OF inv j]
    by (intro aq_inv_base_call [OF inv j, where pc = "AQ_destroy QD_terminate" and c = Ado_terminate])
      (auto simp: aqdestroy_step_def split: if_splits)
next
  case QD_terminate
  show ?thesis
  proof (cases "\<exists>r. ap_clients (aq_base q) ! j = A_outside r")
    case True
    then show ?thesis
      using step pc QD_terminate
      by (intro aq_inv_base_call [OF inv j, where pc = "AQ_destroy QD_base" and c = Ado_destroy])
        (auto simp: aqdestroy_step_def)
  next
    case False
    then have "aqbase_step j k (aq_clients q ! j) q = Some q'"
      using step pc QD_terminate by (auto simp: aqdestroy_step_def split: aclient_pc.splits)
    then show ?thesis using False pc QD_terminate by (intro aq_inv_in_base [OF inv j]) auto
  qed
next
  case QD_base
  then show ?thesis
    using step pc by (intro aq_inv_in_base [OF inv j]) (auto simp: aqdestroy_step_def)
qed

lemma aq_inv_client_step:
  assumes ops: "list_contract ops view" and inv: "aq_inv view q"
    and j: "j < length (aq_clients q)" and step: "aqclient_step ops j k q = Some q'"
  shows "aq_inv view q'"
proof (cases "aq_clients q ! j")
  case (AQ_execute t x)
  then show ?thesis
    using step by (intro aq_inv_execute [OF ops inv j]) (auto simp: aqclient_step_def)
next
  case AQ_base
  then show ?thesis
    using step by (intro aq_inv_in_base [OF inv j]) (auto simp: aqclient_step_def)
next
  case (AQ_destroy x)
  then show ?thesis
    using step by (intro aq_inv_destroy [OF inv j]) (auto simp: aqclient_step_def)
qed (use step in \<open>simp_all add: aqclient_step_def\<close>)

lemma aq_inv_call:
  assumes inv: "aq_inv view q" and j: "j < length (aq_clients q)"
    and out: "aq_clients q ! j = AQ_outside r" and step: "aqclient_call ops j c q = Some q'"
  shows "aq_inv view q'"
proof -
  note I = aq_invD [OF inv]
  obtain r' where r: "ap_clients (aq_base q) ! j = A_outside r'" using I(8) [OF j] out by auto
  have same: "ap_clients (aq_base q) = (ap_clients (aq_base q))[j := A_outside r']"
    using list_update_outside r I(2) j by metis
  have foreign: "a_monitor (aq_sync q) \<noteq> Some (Client j)" using I(6) [OF j] out by simp
  note base = aq_inv_base_call [OF inv j, where pc = AQ_base]
  show ?thesis
  proof (cases c)
    case (AQdo_execute t)
    let ?pc = "AQ_execute t XQ_enter"
    have q': "q' = set_aqclient j ?pc (q\<lparr>aq_submitted := aq_submitted q + {#t#}\<rparr>)"
      using step AQdo_execute by (simp add: aqclient_call_def)
    have "owned aq_flight ((aq_clients q)[j := ?pc]) = owned aq_flight (aq_clients q) + {#t#}"
      using out by (intro owned_update_add [OF j]) simp
    then have "aqledger view q'" using I(3) by (simp add: q' aqledger_def ac_simps)
    then show ?thesis
      using I(1) same foreign
      by (intro aq_inv_client [OF inv j, where pc = ?pc and apc = "A_outside r'"]) (simp_all add: q')
  next
    case AQdo_length
    define s where "s = ((aq_sync q)\<lparr>a_monitor := Some (Client j), a_flag := True\<rparr>)
      \<lparr>a_flag := False, a_monitor := None\<rparr>"
    have "a_monitor (aq_sync q) = None" and q': "q' =
        set_aqclient j (AQ_outside (Some (l_size ops (aq_queue q)))) (set_aqsync s q)"
      using step AQdo_length
      by (auto simp: aqclient_call_def aqueue_length_def a_locked_foreign [OF foreign] Let_def s_def
          split: if_splits)
    moreover have "a_monitor s = None" by (simp add: s_def)
    ultimately show ?thesis
      using I(1) out same
      by (intro aq_inv_outside [OF inv j, where apc = "A_outside r'" and
            pc = "AQ_outside (Some (l_size ops (aq_queue q)))"]) simp_all
  next
    case (AQdo_query x)
    then show ?thesis
      using step out r by (intro base [where c = "Ado_query x"]) (auto simp: aqclient_call_def aqbase_call_def)
  next
    case AQdo_terminate
    then show ?thesis
      using step out r by (intro base [where c = Ado_terminate]) (auto simp: aqclient_call_def aqbase_call_def)
  next
    case AQdo_join
    then show ?thesis
      using step out r by (intro base [where c = Ado_join]) (auto simp: aqclient_call_def aqbase_call_def)
  next
    case AQdo_destroy
    then have q': "q' = set_aqclient j (AQ_destroy QD_enter) q" using step by (simp add: aqclient_call_def)
    show ?thesis
      using I(1) out same
      by (intro aq_inv_outside [OF inv j, where apc = "A_outside r'" and pc = "AQ_destroy QD_enter"])
        (simp_all add: q')
  next
    case AQdo_stop
    then have q': "q' = q\<lparr>aq_go := False\<rparr>" using step by (simp add: aqclient_call_def)
    show ?thesis using I(1) by (intro aq_inv_base [OF inv]) (simp_all add: q')
  next
    case (AQdo_one_time b)
    then have q': "q' = q\<lparr>aq_base := (aq_base q)\<lparr>ap_one_time := b\<rparr>\<rparr>"
      using step by (simp add: aqclient_call_def aclient_call_def)
    have "apool_inv ((aq_base q)\<lparr>ap_one_time := b\<rparr>)"
      using I(1) by (simp add: apool_inv_def aledger_def)
    then show ?thesis by (intro aq_inv_base [OF inv]) (simp_all add: q')
  qed
qed

lemma aq_inv_step:
  assumes ops: "list_contract ops view" and inv: "aq_inv view q"
    and step: "aqpool_step ops q l = Some q'"
  shows "aq_inv view q'"
proof (cases l)
  case (AL_call j c)
  then show ?thesis
    using step by (auto simp: aqpool_step_def intro: aq_inv_call [OF inv]
        split: if_splits aqclient_pc.splits)
next
  case (AL_client j k)
  then show ?thesis
    using step by (auto simp: aqpool_step_def intro: aq_inv_client_step [OF ops inv] split: if_splits)
next
  case (AL_worker i e k)
  then obtain tm ev where i: "i < length (ap_tasks (aq_base q))"
    and st: "aworker_step (ap_one_time (aq_base q)) (Worker i) e (ap_tasks (aq_base q) ! i) = Some (tm, ev)"
    and q': "q' = q\<lparr>aq_base := arecord_event ev (set_amanager i tm (aq_base q)),
                    aq_sync := (if ev = Ev_idle then a_notify k (aq_sync q) else aq_sync q)\<rparr>"
    using step by (auto simp: aqpool_step_def split: if_splits option.splits)
  have "apool_inv (arecord_event ev (set_amanager i tm (aq_base q)))"
  proof -
    let ?p = "arecord_event ev ((if ev = Ev_idle then aidle_notification 0 else id)
            (set_amanager i tm (aq_base q)))"
    have "apool_inv ?p" by (rule ainv_worker [OF aq_invD(1) [OF inv] i st])
    then have "apool_inv (set_async (ap_sync (aq_base q)) ?p)"
      by (rule ainv_sync) (simp add: arecord_event_def aidle_notification_def)
    moreover have "set_async (ap_sync (aq_base q)) ?p = arecord_event ev (set_amanager i tm (aq_base q))"
      by (simp add: arecord_event_def aidle_notification_def apool_upd)
    ultimately show ?thesis by simp
  qed
  then show ?thesis
    by (intro aq_inv_base [OF inv]) (simp_all add: q' arecord_event_def)
next
  case (AL_dispatcher k)
  then show ?thesis
    using step by (auto simp: aqpool_step_def intro: aq_inv_dispatcher_step [OF ops inv])
next
  case (AL_base_spurious j)
  then show ?thesis
    using step aq_invD(1) [OF inv]
    by (auto simp: aqpool_step_def apool_step_def intro!: aq_inv_base [OF inv] ainv_sync)
next
  case (AL_worker_spurious i)
  then obtain p where p: "apool_step (aq_base q) (AP_worker_spurious i) = Some p"
    and q': "q' = q\<lparr>aq_base := p\<rparr>"
    using step by (auto simp: aqpool_step_def)
  then have "length (ap_tasks p) = length (ap_tasks (aq_base q)) \<and>
      ap_clients p = ap_clients (aq_base q) \<and> ap_submitted p = ap_submitted (aq_base q)"
    by (auto simp: apool_step_def split: if_splits)
  then show ?thesis
    using apool_inv_step [OF aq_invD(1) [OF inv] p] by (intro aq_inv_base [OF inv]) (simp_all add: q')
next
  case AL_dispatcher_spurious
  then show ?thesis
    using step aq_invD(1) [OF inv] by (auto simp: aqpool_step_def intro!: aq_inv_base [OF inv])
qed

lemma aq_inv_construct:
  assumes "view l0 = []"
  shows "aq_inv view (aqpool_construct_stack l0 err errs n stack m)"
proof -
  have "owned aq_flight (replicate m (AQ_outside None)) = {#}" by (induction m) simp_all
  then show ?thesis
    using assms apool_inv_construct [of errs n stack m]
    by (auto simp: aq_inv_def aqpool_construct_stack_def aqlocks_def aqledger_def Let_def
        apool_construct_stack_def)
qed

lemma aq_reach_inv:
  assumes "list_contract ops view" and "view l0 = []"
    and "reach (aqpool_step ops) (aqpool_construct_stack l0 err errs n stack m) q"
  shows "aq_inv view q"
  using assms(3) by (induction rule: reach.induct)
    (auto intro: aq_inv_construct [where view = view, OF assms(2)] aq_inv_step [OF assms(1)])

end
