(* ===== verification/Agent_Queued_Runs.thy ===== *)
theory Agent_Queued_Runs
  imports Agent_Queued_Properties
begin

text \<open>
  The properties of the agent++ queued pool, and runs in which it does less than its documentation
  says.
\<close>

section \<open>Runs\<close>

lemmas aq_eval = aqpool_step_def aqclient_call_def aqclient_step_def aqexecute_step_def
  adispatcher_step_def assign_step_def assign_end_def aqpool_upd plain_list_def agent_eval

definition q_thread :: thread where
  "q_thread = athread_start None (athread_new_for 0)"

lemma q_thread_status [simp]: "status q_thread = RUNNING"
  by (simp add: q_thread_def athread_start_def athread_new_for_def)

definition fresh_manager :: amanager where
  "fresh_manager =
     \<lparr>g_sync = async_new, g_thread = once_thread, g_task = None, g_go = True, g_pc = G_enter\<rparr>"

text \<open>A queued pool with \<open>n\<close> workers and one client, before anybody has taken a step.\<close>
definition fresh_pool :: "nat \<Rightarrow> nat list aqpool" where
  "fresh_pool n = aqpool_construct [] None (\<lambda>i. None) n 1"

lemma fresh_pool_eq:
  "fresh_pool n =
     \<lparr>aq_base = \<lparr>ap_sync = async_new, ap_tasks = map (\<lambda>i. fresh_manager) [0..<n],
        ap_stack = default_stacksize, ap_one_time = False, ap_clients = [A_outside None],
        ap_submitted = {#}, ap_started = {#}, ap_finished = {#}, ap_discarded = {#}\<rparr>,
      aq_queue = [], aq_sync = async_new, aq_thread = q_thread, aq_go = True, aq_pc = AD_enter,
      aq_clients = [AQ_outside None], aq_submitted = {#}\<rparr>"
proof -
  have "g_construct None default_stacksize = fresh_manager"
    by (simp add: g_construct_def fresh_manager_def once_thread_def [symmetric]
        athread_is_alive_def Let_def)
  then show ?thesis
    by (simp add: fresh_pool_def aqpool_construct_def aqpool_construct_stack_def
        q_thread_def [symmetric] athread_is_alive_def apool_construct_stack_def Let_def)
qed

text \<open>
  One worker that has not yet taken its lock: the first task fills its slot, the second and the
  third are queued, and the dispatcher tries the second.
\<close>
definition inverting_run :: "aqpool_label list" where
  "inverting_run =
     AL_call 0 (AQdo_execute 1) # replicate 5 (AL_client 0 0) @
     AL_call 0 (AQdo_execute 2) # replicate 5 (AL_client 0 0) @
     AL_call 0 (AQdo_execute 3) # replicate 3 (AL_client 0 0)"

definition queued_state :: "nat list aqpool" where
  "queued_state =
     \<lparr>aq_base = \<lparr>ap_sync = async_new, ap_tasks = [fresh_manager\<lparr>g_task := Some 1\<rparr>],
        ap_stack = default_stacksize, ap_one_time = False, ap_clients = [A_outside None],
        ap_submitted = {#1#}, ap_started = {#}, ap_finished = {#}, ap_discarded = {#}\<rparr>,
      aq_queue = [2, 3], aq_sync = async_new, aq_thread = q_thread, aq_go = True, aq_pc = AD_enter,
      aq_clients = [AQ_outside None], aq_submitted = {#1, 2, 3#}\<rparr>"

lemma inverting_state: "run_steps (aqpool_step plain_list) (fresh_pool 1) inverting_run = Some queued_state"
  by (simp add: inverting_run_def queued_state_def fresh_pool_eq fresh_manager_def numeral_eq_Suc aq_eval)

lemma queued_reached:
  "reach (aqpool_step plain_list)
     (aqpool_construct_stack [] None (\<lambda>i. None) 1 default_stacksize 1) queued_state"
  using run_steps_reach [OF inverting_state] by (simp add: fresh_pool_def aqpool_construct_def)

section \<open>The account\<close>

text \<open>
  C23: the account of the tasks of the agent++ queued pool.  In every state of every execution the
  tasks submitted are those finished, those deleted without running, those in the slot of a
  worker, those in the queue, the one the dispatcher is handing over and those a client is handing
  over; a task is started at most as often as it was submitted, and no call fails an assertion.
\<close>
theorem aqpool_tasks_accounted:
  assumes "list_contract ops view" and "view l0 = []"
    and "reach (aqpool_step ops) (aqpool_construct_stack l0 err errs n stack m) q"
  shows "aq_submitted q = ap_finished (aq_base q) + ap_discarded (aq_base q) +
      owned g_held (ap_tasks (aq_base q)) + mset (view (aq_queue q)) + ad_flight (aq_pc q) +
      owned aq_flight (aq_clients q) \<and>
    ap_started (aq_base q) + ap_discarded (aq_base q) \<subseteq># aq_submitted q \<and>
    AQ_threw \<notin> set (aq_clients q) \<and> aq_pc q \<noteq> AD_threw"
proof -
  note I = aq_invD [OF aq_reach_inv [OF assms]]
  have led: "aledger (aq_base q)" by (rule apool_invD(2) [OF I(1)])
  have "a_in_flight (ap_clients (aq_base q) ! j) = {#}" if "j < length (aq_clients q)" for j
  proof -
    have "\<not> is_exec (ap_clients (aq_base q) ! j)"
      using I(8) [OF that] by (cases "(aq_clients q ! j, ap_clients (aq_base q) ! j)" rule: base_link.cases) auto
    then show ?thesis by (cases "ap_clients (aq_base q) ! j") simp_all
  qed
  then have flight: "owned a_in_flight (ap_clients (aq_base q)) = {#}"
    using I(2) by (intro owned_all_empty) simp
  have sub: "aq_submitted q = (ap_finished (aq_base q) + ap_discarded (aq_base q)) +
      (owned g_held (ap_tasks (aq_base q)) + (mset (view (aq_queue q)) + ad_flight (aq_pc q) +
      owned aq_flight (aq_clients q)))"
    using I(3) led flight by (simp add: aqledger_def aledger_def ac_simps)
  have "owned g_running (ap_tasks (aq_base q)) \<subseteq># owned g_held (ap_tasks (aq_base q)) +
      (mset (view (aq_queue q)) + ad_flight (aq_pc q) + owned aq_flight (aq_clients q))"
    using agent_host.running_owned subset_mset.add_increasing2 by fastforce
  then have "(ap_finished (aq_base q) + ap_discarded (aq_base q)) +
      owned g_running (ap_tasks (aq_base q)) \<subseteq># aq_submitted q"
    unfolding sub by (rule subset_mset.add_left_mono)
  moreover have "ap_started (aq_base q) = ap_finished (aq_base q) + owned g_running (ap_tasks (aq_base q))"
    using led by (simp add: aledger_def)
  moreover have "AQ_threw \<notin> set (aq_clients q)" using I(7) by (fastforce simp: in_set_conv_nth)
  moreover have "aq_pc q \<noteq> AD_threw" using I(5) by auto
  ultimately show ?thesis using sub by (simp add: ac_simps)
qed

theorem aqpool_tasks_accounted_witness:
  "ap_started (aq_base queued_state) \<subseteq># {#1, 2, 3#} \<and> aq_queue queued_state = [2, 3]"
  using aqpool_tasks_accounted [OF plain_list_contract refl queued_reached]
  by (simp add: queued_state_def)

text \<open>
  The queue of the agent++ pool is not served in order.  In the run of the statement the tasks
  2 and 3 are queued in this order while the only worker has a task; the dispatcher takes 2 off,
  finds no idle worker and puts it at the end, so that 3 is in front of it.
\<close>
theorem aqpool_order_inverted:
  "run_steps (aqpool_step plain_list) (fresh_pool 1) inverting_run = Some queued_state \<and>
   aq_queue queued_state = [2, 3] \<and>
   (\<exists>q. run_steps (aqpool_step plain_list) queued_state (replicate 4 (AL_dispatcher 0)) = Some q \<and>
      aq_queue q = [3, 2] \<and> aq_pc q = AD_wait)"
  using inverting_state
  by (simp add: queued_state_def fresh_manager_def numeral_eq_Suc aq_eval)

text \<open>
  Execute of the agent++ queued pool blocks while a task runs.  In the run of the statement the
  first of two workers executes a task and the second one is idle; a client that submits a second
  task asks the first worker whether it is idle and waits for its lock until the task has ended,
  and with the lock of the queue it keeps the dispatcher out.
\<close>
theorem aqpool_execute_blocks:
  "\<exists>q. run_steps (aqpool_step plain_list) (fresh_pool 2)
        (AL_call 0 (AQdo_execute 1) # replicate 5 (AL_client 0 0) @
         replicate 2 (AL_worker 0 Run_returns 0) @
         AL_call 0 (AQdo_execute 2) # replicate 2 (AL_client 0 0)) = Some q \<and>
      g_pc (ap_tasks (aq_base q) ! 0) = G_run \<and>
      g_is_idle (Client 0) (ap_tasks (aq_base q) ! 1) = Returns (True, fresh_manager) \<and>
      (\<forall>k. aqpool_step plain_list q (AL_client 0 k) = None) \<and>
      (\<forall>k. aqpool_step plain_list q (AL_dispatcher k) = None)"
  by (simp add: fresh_pool_eq fresh_manager_def numeral_eq_Suc upt_rec aq_eval)

section \<open>After the dispatcher has ended\<close>

text \<open>
  Tasks queued when the dispatcher of the agent++ pool has ended stay in the queue: whatever
  happens then, the queue only grows at its end, so they are neither executed nor deleted.
\<close>
theorem aqpool_stopped_keeps:
  assumes "list_contract ops view" and "aq_pc q = AD_done"
    and "reach (aqpool_step ops) q q'"
  shows "aq_pc q' = AD_done \<and> (\<exists>ts. view (aq_queue q') = view (aq_queue q) @ ts)"
  using assms(3)
proof (induction rule: reach.induct)
  case reach_refl
  then show ?case using assms(2) by simp
next
  case (reach_step u l v)
  note add = list_contractD(1) [OF assms(1)]
  have "aq_pc v = AD_done \<and> (\<exists>ts. view (aq_queue v) = view (aq_queue u) @ ts)"
  proof (cases l)
    case (AL_call j c)
    then show ?thesis
      using reach_step.hyps(2) reach_step.IH
      by (cases c) (auto simp: aqpool_step_def aqclient_call_def aqueue_length_def aqbase_call_def
          aqpool_upd split: if_splits aqclient_pc.splits outcome.splits)
  next
    case (AL_client j k)
    then have st: "aqclient_step ops j k u = Some v"
      using reach_step.hyps(2) by (simp add: aqpool_step_def split: if_splits)
    have base: "aqbase_step j k after u = Some v \<Longrightarrow> aq_pc v = aq_pc u \<and> aq_queue v = aq_queue u"
      for "after" by (auto simp: aqbase_step_def aqpool_upd split: aclient_pc.splits)
    show ?thesis
    proof (cases "aq_clients u ! j")
      case (AQ_execute t x)
      then show ?thesis
        using st reach_step.IH
        by (cases x) (auto simp: aqclient_step_def aqexecute_step_def assign_end_def aqpool_upd add
            split: if_splits outcome.splits option.splits prod.splits assign_result.splits)
    next
      case (AQ_destroy x)
      then show ?thesis
        using st reach_step.IH base
        by (cases x) (auto simp: aqclient_step_def aqdestroy_step_def aqpool_upd
            split: if_splits outcome.splits aclient_pc.splits)
    qed (use st reach_step.IH base in \<open>auto simp: aqclient_step_def\<close>)
  next
    case (AL_dispatcher k)
    then show ?thesis
      using reach_step by (auto simp: aqpool_step_def adispatcher_step_def)
  qed (use reach_step in \<open>auto simp: aqpool_step_def aqpool_upd split: if_splits option.splits\<close>)
  then show ?case using reach_step.IH by auto
qed

theorem aqpool_stopped_keeps_witness:
  "\<exists>q q'. run_steps (aqpool_step plain_list) queued_state
        (AL_call 0 AQdo_stop # replicate 3 (AL_dispatcher 0)) = Some q \<and> aq_queue q = [2, 3] \<and>
      reach (aqpool_step plain_list) q q' \<and> (\<exists>ts. aq_queue q' = [2, 3] @ ts)"
proof -
  obtain q where q: "run_steps (aqpool_step plain_list) queued_state
        (AL_call 0 AQdo_stop # replicate 3 (AL_dispatcher 0)) = Some q"
    and done_q: "aq_pc q = AD_done" "aq_queue q = [2, 3]"
    by (simp add: queued_state_def fresh_manager_def numeral_eq_Suc aq_eval)
  have "aqpool_step plain_list q (AL_base_spurious 0) \<noteq> None"
    by (simp add: aqpool_step_def apool_step_def)
  then obtain q' where "aqpool_step plain_list q (AL_base_spurious 0) = Some q'" by blast
  then have r: "reach (aqpool_step plain_list) q q'" by (rule reach_one)
  show ?thesis
    using q done_q r aqpool_stopped_keeps [OF plain_list_contract done_q(1) r] by auto
qed

end
