(* ===== verification/Shared_Mutex.thy ===== *)
theory Shared_Mutex
  imports Prelude "HOL-Library.Word"
begin

text \<open>
  The threads of \<open>shared_mutex.cpp\<close>: readers, writers and threads that convert one kind of
  ownership into another, around one \<open>boost::shared_mutex\<close> (name space \<open>S\<close>) or
  \<open>boost::upgrade_mutex\<close> (name space \<open>U\<close>), and the variable \<open>state\<close> the mutex protects.

  The mutex is not part of the repository: its operations are the fields of an \<open>rw_mutex\<close>, an
  argument of every definition that uses them, and \<open>rw_contract\<close> states what boost documents
  of them.  The body of a thread's loop is a value of the type \<open>body\<close>, one constructor per
  statement; the interleavings of the threads are the executions of \<open>rw_step\<close>.
\<close>

section \<open>Ownership and the mutex\<close>

datatype access = Shared | Upgrade | Exclusive

text \<open>Whether two different threads may own the mutex in these ways.\<close>
definition compatible :: "access \<Rightarrow> access \<Rightarrow> bool" where
  "compatible a b \<longleftrightarrow> a = Shared \<and> b \<noteq> Exclusive \<or> b = Shared \<and> a \<noteq> Exclusive"

text \<open>
  \<open>rm_lock\<close> stands for \<open>lock\<close>, \<open>lock_shared\<close> and \<open>lock_upgrade\<close> (\<open>None\<close>: the call waits),
  \<open>rm_try\<close> for the \<open>try_lock\<close> family with and without a timeout (\<open>None\<close>: it returned false),
  \<open>rm_convert\<close> for the \<open>unlock_and_lock\<close> family and \<open>rm_try_convert\<close> for its \<open>try\<close> forms.
\<close>
record 'm rw_mutex =
  rm_lock :: "access \<Rightarrow> nat \<Rightarrow> 'm \<Rightarrow> 'm option"
  rm_try :: "access \<Rightarrow> nat \<Rightarrow> 'm \<Rightarrow> 'm option"
  rm_unlock :: "access \<Rightarrow> nat \<Rightarrow> 'm \<Rightarrow> 'm"
  rm_convert :: "access \<Rightarrow> access \<Rightarrow> nat \<Rightarrow> 'm \<Rightarrow> 'm option"
  rm_try_convert :: "access \<Rightarrow> access \<Rightarrow> nat \<Rightarrow> 'm \<Rightarrow> 'm option"

text \<open>The thread \<open>t\<close> may own the mutex in the way \<open>a\<close> beside the owners \<open>h\<close>.\<close>
definition may_own :: "(nat \<Rightarrow> access option) \<Rightarrow> nat \<Rightarrow> access \<Rightarrow> bool" where
  "may_own h t a \<longleftrightarrow> (\<forall>u b. u \<noteq> t \<longrightarrow> h u = Some b \<longrightarrow> compatible a b)"

text \<open>The owners are pairwise compatible.\<close>
definition consistent :: "(nat \<Rightarrow> access option) \<Rightarrow> bool" where
  "consistent h \<longleftrightarrow> (\<forall>t a. h t = Some a \<longrightarrow> may_own h t a)"

text \<open>The conversions that are not conditional.\<close>
definition convertible :: "access \<Rightarrow> access \<Rightarrow> bool" where
  "convertible a b \<longleftrightarrow>
     (a, b) \<in> {(Upgrade, Exclusive), (Exclusive, Upgrade), (Upgrade, Shared), (Exclusive, Shared)}"

text \<open>
  What boost documents: ownership is granted only beside compatible owners, a call waits only
  while another thread owns the mutex, giving ownership up or reducing it never waits.
\<close>
definition rw_contract :: "'m rw_mutex \<Rightarrow> ('m \<Rightarrow> nat \<Rightarrow> access option) \<Rightarrow> bool" where
  "rw_contract M held \<longleftrightarrow>
     (\<forall>a t m m'. held m t = None \<longrightarrow> rm_lock M a t m = Some m' \<or> rm_try M a t m = Some m' \<longrightarrow>
        held m' = (held m)(t := Some a) \<and> may_own (held m) t a) \<and>
     (\<forall>a t m. rm_lock M a t m = None \<longrightarrow> (\<exists>u b. u \<noteq> t \<and> held m u = Some b)) \<and>
     (\<forall>a t m. held m t = Some a \<longrightarrow> held (rm_unlock M a t m) = (held m)(t := None)) \<and>
     (\<forall>a b t m m'. consistent (held m) \<longrightarrow> convertible a b \<longrightarrow> held m t = Some a \<longrightarrow>
        rm_convert M a b t m = Some m' \<longrightarrow>
        held m' = (held m)(t := Some b) \<and> may_own (held m) t b) \<and>
     (\<forall>a b t m m'. held m t = Some a \<longrightarrow> rm_try_convert M a b t m = Some m' \<longrightarrow>
        held m' = (held m)(t := Some b) \<and> may_own (held m) t b) \<and>
     (\<forall>a b t m. convertible a b \<longrightarrow> rm_convert M a b t m = None \<longrightarrow>
        (a = Upgrade \<and> b = Exclusive \<and> (\<exists>u c. u \<noteq> t \<and> held m u = Some c)))"

section \<open>The threads\<close>

datatype rw_value = reading | writing

text \<open>The rest of a loop body; \<open>Again\<close> is the end of the body, or \<open>continue\<close>.\<close>
datatype body =
  Acquire access body
| TryAcquire access body body
| Release access body
| Convert access access body
| TryConvert access access body body
| AssertState rw_value body
| SetState rw_value body
| Count body
| Again

subsection \<open>Name space \<open>S\<close>\<close>

definition s_reader :: body where
  "s_reader =
     Acquire Shared (AssertState reading (Count (Release Shared Again)))"

definition s_writer :: body where
  "s_writer =
     Acquire Exclusive (SetState writing (AssertState writing (SetState reading
       (Count (Release Exclusive Again)))))"

definition s_try_reader :: body where
  "s_try_reader =
     TryAcquire Shared (AssertState reading (Count (Release Shared Again))) Again"

definition s_try_writer :: body where
  "s_try_writer =
     TryAcquire Exclusive (SetState writing (AssertState writing (SetState reading
       (Count (Release Exclusive Again))))) Again"

definition s_try_for_reader :: body where
  "s_try_for_reader =
     TryAcquire Shared (AssertState reading (Count (Release Shared Again))) Again"

definition s_try_for_writer :: body where
  "s_try_for_writer =
     TryAcquire Exclusive (SetState writing (AssertState writing (SetState reading
       (Count (Release Exclusive Again))))) Again"

text \<open>The groups of threads \<open>test_shared_mutex\<close> starts and joins, one after the other.\<close>
definition test_shared_mutex :: "body list list" where
  "test_shared_mutex =
     [[s_reader, s_writer, s_reader],
      [s_try_reader, s_try_writer, s_try_reader],
      [s_try_for_reader, s_try_for_writer, s_try_for_reader]]"

subsection \<open>Name space \<open>U\<close>\<close>

definition u_reader :: body where
  "u_reader =
     Acquire Shared (AssertState reading (Count (Release Shared Again)))"

definition u_writer :: body where
  "u_writer =
     Acquire Exclusive (SetState writing (AssertState writing (SetState reading
       (Count (Release Exclusive Again)))))"

definition u_try_reader :: body where
  "u_try_reader =
     TryAcquire Shared (AssertState reading (Count (Release Shared Again))) Again"

definition u_try_writer :: body where
  "u_try_writer =
     TryAcquire Exclusive (SetState writing (AssertState writing (SetState reading
       (Count (Release Exclusive Again))))) Again"

definition u_try_for_reader :: body where
  "u_try_for_reader =
     TryAcquire Shared (AssertState reading (Count (Release Shared Again))) Again"

definition u_try_for_writer :: body where
  "u_try_for_writer =
     TryAcquire Exclusive (SetState writing (AssertState writing (SetState reading
       (Count (Release Exclusive Again))))) Again"

definition upgradable :: body where
  "upgradable =
     Acquire Upgrade (AssertState reading (Count (Release Upgrade Again)))"

definition try_upgradable :: body where
  "try_upgradable =
     TryAcquire Upgrade (AssertState reading (Count (Release Upgrade Again))) Again"

definition try_for_upgradable :: body where
  "try_for_upgradable =
     TryAcquire Upgrade (AssertState reading (Count (Release Upgrade Again))) Again"

definition clockwise :: body where
  "clockwise =
     (let finish = AssertState writing (SetState reading (Convert Exclusive Upgrade
            (AssertState reading (Convert Upgrade Shared (AssertState reading
            (Release Shared (Count Again)))))))
      in Acquire Shared (AssertState reading
           (TryConvert Shared Exclusive (SetState writing finish)
             (TryConvert Shared Upgrade
               (AssertState reading (Convert Upgrade Exclusive (SetState writing finish)))
               (Release Shared Again)))))"

definition counter_clockwise :: body where
  "counter_clockwise =
     Acquire Upgrade (AssertState reading (Convert Upgrade Exclusive (AssertState reading
       (SetState writing (AssertState writing (SetState reading (Convert Exclusive Shared
       (AssertState reading (Release Shared (Count Again))))))))))"

definition try_clockwise :: body where
  "try_clockwise =
     (let finish = AssertState writing (SetState reading (Convert Exclusive Upgrade
            (AssertState reading (Convert Upgrade Shared (AssertState reading
            (Release Shared (Count Again)))))))
      in TryAcquire Shared (AssertState reading
           (TryConvert Shared Exclusive (SetState writing finish)
             (TryConvert Shared Upgrade
               (AssertState reading (Convert Upgrade Exclusive (SetState writing finish)))
               (Release Shared Again)))) Again)"

definition try_for_clockwise :: body where
  "try_for_clockwise =
     (let finish = AssertState writing (SetState reading (Convert Exclusive Upgrade
            (AssertState reading (Convert Upgrade Shared (AssertState reading
            (Release Shared (Count Again)))))))
      in TryAcquire Shared (AssertState reading
           (TryConvert Shared Exclusive (SetState writing finish)
             (TryConvert Shared Upgrade
               (AssertState reading (Convert Upgrade Exclusive (SetState writing finish)))
               (Release Shared Again)))) Again)"

definition try_counter_clockwise :: body where
  "try_counter_clockwise =
     TryAcquire Upgrade (AssertState reading
       (TryConvert Upgrade Exclusive
         (AssertState reading (SetState writing (AssertState writing (SetState reading
           (Convert Exclusive Shared (AssertState reading (Release Shared (Count Again))))))))
         (Release Upgrade Again))) Again"

definition try_for_counter_clockwise :: body where
  "try_for_counter_clockwise =
     TryAcquire Upgrade (AssertState reading
       (TryConvert Upgrade Exclusive
         (AssertState reading (SetState writing (AssertState writing (SetState reading
           (Convert Exclusive Shared (AssertState reading (Release Shared (Count Again))))))))
         (Release Upgrade Again))) Again"

text \<open>The groups of threads of \<open>test_upgrade_mutex\<close>.\<close>
definition test_upgrade_mutex :: "body list list" where
  "test_upgrade_mutex =
     [[u_reader, u_writer, u_reader],
      [u_try_reader, u_try_writer, u_try_reader],
      [u_try_for_reader, u_try_for_writer, u_try_for_reader],
      [u_reader, u_writer, upgradable],
      [u_reader, u_writer, try_upgradable],
      [u_reader, u_writer, try_for_upgradable],
      [clockwise, counter_clockwise, clockwise, counter_clockwise],
      [try_clockwise, try_counter_clockwise],
      [try_for_clockwise, try_for_counter_clockwise]]"

section \<open>The threads together\<close>

text \<open>A thread: its loop body, what is left of it, \<open>count\<close>, and whether the loop has ended.\<close>
record rw_thread =
  rt_body :: body
  rt_rest :: body
  rt_count :: "32 word"
  rt_done :: bool

record 'm rw_system =
  rw_mut :: 'm
  rw_state :: rw_value
  rw_threads :: "rw_thread list"
  rw_failed :: bool

definition rw_start :: "'m \<Rightarrow> body list \<Rightarrow> 'm rw_system" where
  "rw_start m bs =
     \<lparr>rw_mut = m, rw_state = reading,
      rw_threads = map (\<lambda>b. \<lparr>rt_body = b, rt_rest = Again, rt_count = 0, rt_done = False\<rparr>) bs,
      rw_failed = False\<rparr>"

definition rw_go :: "nat \<Rightarrow> body \<Rightarrow> 'm rw_system \<Rightarrow> 'm rw_system" where
  "rw_go i b s = s\<lparr>rw_threads := (rw_threads s)[i := (rw_threads s ! i)\<lparr>rt_rest := b\<rparr>]\<rparr>"

text \<open>
  One statement of the thread \<open>i\<close>; at the end of the body, the test of the loop:
  \<open>time_is_up\<close> says that the clock has reached \<open>until\<close>.
\<close>
definition rw_thread_step :: "'m rw_mutex \<Rightarrow> nat \<Rightarrow> bool \<Rightarrow> 'm rw_system \<Rightarrow> 'm rw_system option" where
  "rw_thread_step M i time_is_up s =
     (let th = rw_threads s ! i in
      if rt_done th then None else
      case rt_rest th of
        Acquire a b \<Rightarrow>
          map_option (\<lambda>m. rw_go i b (s\<lparr>rw_mut := m\<rparr>)) (rm_lock M a i (rw_mut s))
      | TryAcquire a b c \<Rightarrow>
          (case rm_try M a i (rw_mut s) of
             Some m \<Rightarrow> Some (rw_go i b (s\<lparr>rw_mut := m\<rparr>))
           | None \<Rightarrow> Some (rw_go i c s))
      | Release a b \<Rightarrow> Some (rw_go i b (s\<lparr>rw_mut := rm_unlock M a i (rw_mut s)\<rparr>))
      | Convert a a' b \<Rightarrow>
          map_option (\<lambda>m. rw_go i b (s\<lparr>rw_mut := m\<rparr>)) (rm_convert M a a' i (rw_mut s))
      | TryConvert a a' b c \<Rightarrow>
          (case rm_try_convert M a a' i (rw_mut s) of
             Some m \<Rightarrow> Some (rw_go i b (s\<lparr>rw_mut := m\<rparr>))
           | None \<Rightarrow> Some (rw_go i c s))
      | AssertState v b \<Rightarrow>
          Some (rw_go i b (s\<lparr>rw_failed := rw_failed s \<or> rw_state s \<noteq> v\<rparr>))
      | SetState v b \<Rightarrow> Some (rw_go i b (s\<lparr>rw_state := v\<rparr>))
      | Count b \<Rightarrow>
          Some (rw_go i b (s\<lparr>rw_threads := (rw_threads s)[i := th\<lparr>rt_count := rt_count th + 1\<rparr>]\<rparr>))
      | Again \<Rightarrow>
          Some (s\<lparr>rw_threads := (rw_threads s)[i :=
                  (if time_is_up then th\<lparr>rt_done := True\<rparr> else th\<lparr>rt_rest := rt_body th\<rparr>)]\<rparr>))"

definition rw_step :: "'m rw_mutex \<Rightarrow> 'm rw_system \<Rightarrow> nat \<times> bool \<Rightarrow> 'm rw_system option" where
  "rw_step M s l =
     (if fst l < length (rw_threads s) then rw_thread_step M (fst l) (snd l) s else None)"

end
