(* ===== verification/Shared_Mutex_Properties.thy ===== *)
theory Shared_Mutex_Properties
  imports Shared_Mutex
begin

text \<open>
  No assertion of \<open>shared_mutex.cpp\<close> fails and its joins return, for every mutex that keeps
  \<open>rw_contract\<close>.  \<open>fits\<close> is a discipline a loop body keeps statement by statement: it takes
  and gives up ownership in turn and leaves \<open>state\<close> as it found it.  What is proved of all
  bodies that fit holds of every mix of the threads of the file.
\<close>

section \<open>The discipline\<close>

fun fits :: "access option \<Rightarrow> rw_value \<Rightarrow> body \<Rightarrow> bool" where
  "fits h v (Acquire a b) \<longleftrightarrow> h = None \<and> v = reading \<and> fits (Some a) reading b"
| "fits h v (TryAcquire a b c) \<longleftrightarrow>
     h = None \<and> v = reading \<and> fits (Some a) reading b \<and> fits None reading c"
| "fits h v (Release a b) \<longleftrightarrow> h = Some a \<and> v = reading \<and> fits None reading b"
| "fits h v (Convert a a' b) \<longleftrightarrow>
     h = Some a \<and> convertible a a' \<and> v = reading \<and> fits (Some a') reading b"
| "fits h v (TryConvert a a' b c) \<longleftrightarrow>
     h = Some a \<and> v = reading \<and> fits (Some a') reading b \<and> fits h reading c"
| "fits h v (AssertState w b) \<longleftrightarrow> h \<noteq> None \<and> v = w \<and> fits h v b"
| "fits h v (SetState w b) \<longleftrightarrow> h = Some Exclusive \<and> fits h w b"
| "fits h v (Count b) \<longleftrightarrow> fits h v b"
| "fits h v Again \<longleftrightarrow> h = None \<and> v = reading"

lemmas body_defs = s_reader_def s_writer_def s_try_reader_def s_try_writer_def
  s_try_for_reader_def s_try_for_writer_def u_reader_def u_writer_def u_try_reader_def
  u_try_writer_def u_try_for_reader_def u_try_for_writer_def upgradable_def try_upgradable_def
  try_for_upgradable_def clockwise_def counter_clockwise_def try_clockwise_def
  try_for_clockwise_def try_counter_clockwise_def try_for_counter_clockwise_def

definition rw_bodies :: "body set" where
  "rw_bodies = set (concat (test_shared_mutex @ test_upgrade_mutex))"

text \<open>Every thread function of the file fits.\<close>
lemma bodies_fit: "b \<in> rw_bodies \<Longrightarrow> fits None reading b"
  by (auto simp: rw_bodies_def test_shared_mutex_def test_upgrade_mutex_def body_defs
      convertible_def Let_def)

section \<open>The invariant\<close>

definition thread_fits :: "access option \<Rightarrow> rw_value \<Rightarrow> body \<Rightarrow> bool" where
  "thread_fits h st b \<longleftrightarrow>
     (\<exists>v. fits h v b \<and> (h \<noteq> None \<longrightarrow> v = st) \<and> (h \<noteq> Some Exclusive \<longrightarrow> v = reading))"

definition rw_inv :: "('m \<Rightarrow> nat \<Rightarrow> access option) \<Rightarrow> 'm rw_system \<Rightarrow> bool" where
  "rw_inv held s \<longleftrightarrow>
     (\<forall>i < length (rw_threads s).
        thread_fits (held (rw_mut s) i) (rw_state s) (rt_rest (rw_threads s ! i)) \<and>
        fits None reading (rt_body (rw_threads s ! i)) \<and>
        (rt_done (rw_threads s ! i) \<longrightarrow> rt_rest (rw_threads s ! i) = Again)) \<and>
     (\<forall>t a. held (rw_mut s) t = Some a \<longrightarrow>
        t < length (rw_threads s) \<and> may_own (held (rw_mut s)) t a) \<and>
     (rw_state s = writing \<longrightarrow> (\<exists>t. held (rw_mut s) t = Some Exclusive)) \<and> \<not> rw_failed s"

lemma compatible_sym: "compatible a b \<longleftrightarrow> compatible b a"
  by (auto simp: compatible_def)

lemma compatible_exclusive [simp]:
  "\<not> compatible Exclusive b" "\<not> compatible b Exclusive"
  by (auto simp: compatible_def)

lemma thread_fits_free: "thread_fits None st b \<longleftrightarrow> fits None reading b"
  by (auto simp: thread_fits_def)

text \<open>One thread moves: its ownership, its rest and, for an exclusive owner, the state change.\<close>
lemma rw_inv_go:
  assumes inv: "rw_inv held s" and i: "i < length (rw_threads s)"
    and m': "held m' = (held (rw_mut s))(i := h)"
    and own: "\<And>a. h = Some a \<Longrightarrow> may_own (held (rw_mut s)) i a"
    and fit: "thread_fits h st b"
    and st: "st = rw_state s \<or> h = Some Exclusive"
    and w: "st = writing \<Longrightarrow> \<exists>t. ((held (rw_mut s))(i := h)) t = Some Exclusive"
    and s': "rw_mut s' = m'" "rw_state s' = st" "\<not> rw_failed s'"
      "rw_threads s' = (rw_threads s)[i := th]" "rt_rest th = b" "rt_done th \<longrightarrow> b = Again"
      "rt_body th = rt_body (rw_threads s ! i)"
  shows "rw_inv held s'"
proof -
  let ?h = "held (rw_mut s)"
  have threads: "thread_fits (?h j) (rw_state s) (rt_rest (rw_threads s ! j))"
    "fits None reading (rt_body (rw_threads s ! j))"
    "rt_done (rw_threads s ! j) \<longrightarrow> rt_rest (rw_threads s ! j) = Again"
    if "j < length (rw_threads s)" for j using inv that by (auto simp: rw_inv_def)
  have owners: "t < length (rw_threads s) \<and> may_own ?h t a" if "?h t = Some a" for t a
    using inv that by (auto simp: rw_inv_def)
  have others: "thread_fits (?h j) st (rt_rest (rw_threads s ! j))"
    if j: "j < length (rw_threads s)" "j \<noteq> i" for j
  proof (cases "st = rw_state s")
    case False
    then have "h = Some Exclusive" using st by simp
    then have "?h j = None" using own [of Exclusive] j by (cases "?h j") (auto simp: may_own_def)
    then show ?thesis using threads(1) [OF j(1)] by (simp add: thread_fits_free)
  qed (use threads(1) [OF j(1)] in simp)
  have "may_own (?h(i := h)) t a" if "(?h(i := h)) t = Some a" for t a
  proof (cases "t = i")
    case True
    then show ?thesis using that own by (auto simp: may_own_def)
  next
    case False
    then have "may_own ?h t a" using that owners by simp
    then show ?thesis
      using False that own compatible_sym by (auto simp: may_own_def)
  qed
  then show ?thesis
    unfolding rw_inv_def s'
    using threads others owners fit w i s'(3) s'(5-7) m'
    by (auto simp: nth_list_update split: if_splits)
qed

lemma rw_contractD:
  assumes "rw_contract M held"
  shows "held m t = None \<Longrightarrow> rm_lock M a t m = Some m' \<Longrightarrow>
      held m' = (held m)(t := Some a) \<and> may_own (held m) t a"
    and "held m t = None \<Longrightarrow> rm_try M a t m = Some m' \<Longrightarrow>
      held m' = (held m)(t := Some a) \<and> may_own (held m) t a"
    and "rm_lock M a t m = None \<Longrightarrow> \<exists>u b. u \<noteq> t \<and> held m u = Some b"
    and "held m t = Some a \<Longrightarrow> held (rm_unlock M a t m) = (held m)(t := None)"
    and "consistent (held m) \<Longrightarrow> convertible a b \<Longrightarrow> held m t = Some a \<Longrightarrow>
      rm_convert M a b t m = Some m' \<Longrightarrow>
      held m' = (held m)(t := Some b) \<and> may_own (held m) t b"
    and "held m t = Some a \<Longrightarrow> rm_try_convert M a b t m = Some m' \<Longrightarrow>
      held m' = (held m)(t := Some b) \<and> may_own (held m) t b"
    and "convertible a b \<Longrightarrow> rm_convert M a b t m = None \<Longrightarrow>
      a = Upgrade \<and> b = Exclusive \<and> (\<exists>u c. u \<noteq> t \<and> held m u = Some c)"
  using assms unfolding rw_contract_def by meson+

text \<open>One thread changes what it owns.\<close>
lemma consistent_update:
  assumes "consistent h" and "\<And>a. w = Some a \<Longrightarrow> may_own h t a"
  shows "consistent (h(t := w))"
  using assms
  by (auto simp: consistent_def may_own_def split: if_splits) (metis compatible_sym)

lemma consistent_none: "consistent h \<Longrightarrow> h t = Some a \<Longrightarrow> may_own h t a"
  by (simp add: consistent_def)

text \<open>The same without a change of the mutex.\<close>
lemma rw_inv_stay:
  assumes inv: "rw_inv held s" and i: "i < length (rw_threads s)"
    and fit: "thread_fits (held (rw_mut s) i) st b"
    and st: "st = rw_state s \<or> held (rw_mut s) i = Some Exclusive"
    and s': "rw_mut s' = rw_mut s" "rw_state s' = st" "\<not> rw_failed s'"
      "rw_threads s' = (rw_threads s)[i := th]" "rt_rest th = b" "rt_done th \<longrightarrow> b = Again"
      "rt_body th = rt_body (rw_threads s ! i)"
  shows "rw_inv held s'"
proof (rule rw_inv_go [OF inv i _ _ fit st _ s'])
  show "held (rw_mut s) = (held (rw_mut s))(i := held (rw_mut s) i)" by simp
  show "may_own (held (rw_mut s)) i a" if "held (rw_mut s) i = Some a" for a
    using inv that by (auto simp: rw_inv_def)
  have "\<exists>t. held (rw_mut s) t = Some Exclusive" if "rw_state s = writing"
    using inv that by (auto simp: rw_inv_def)
  then show "\<exists>t. ((held (rw_mut s))(i := held (rw_mut s) i)) t = Some Exclusive" if "st = writing"
    using st that by auto
qed

text \<open>The thread \<open>i\<close> takes ownership \<open>a\<close>, or exchanges what it has for it: then nobody writes.\<close>
lemma rw_inv_own:
  assumes inv: "rw_inv held s" and i: "i < length (rw_threads s)"
    and m': "held m = (held (rw_mut s))(i := Some a)" "may_own (held (rw_mut s)) i a"
    and v: "rw_state s = reading" and fit: "fits (Some a) reading b"
    and live: "\<not> rt_done (rw_threads s ! i)"
  shows "rw_inv held (rw_go i b (s\<lparr>rw_mut := m\<rparr>))"
proof (rule rw_inv_go [OF inv i m'(1), where st = reading and b = b
      and th = "(rw_threads s ! i)\<lparr>rt_rest := b\<rparr>"])
  show "may_own (held (rw_mut s)) i c" if "Some a = Some c" for c using that m'(2) by simp
qed (use assms in \<open>auto simp: rw_go_def thread_fits_def rw_inv_def\<close>)

text \<open>A thread that owns nothing finds \<open>state\<close> at rest when it becomes an owner.\<close>
lemma rw_reading_if_own:
  assumes inv: "rw_inv held s" and own: "may_own (held (rw_mut s)) i a"
    and none: "held (rw_mut s) i = None"
  shows "rw_state s = reading"
proof (rule ccontr)
  assume "rw_state s \<noteq> reading"
  then have "rw_state s = writing" by (cases "rw_state s") auto
  then obtain t where "held (rw_mut s) t = Some Exclusive" using inv by (auto simp: rw_inv_def)
  then show False using own none by (cases "t = i") (auto simp: may_own_def)
qed

lemma rw_inv_thread_step:
  assumes M: "rw_contract M held" and inv: "rw_inv held s" and i: "i < length (rw_threads s)"
    and step: "rw_thread_step M i up s = Some s'"
  shows "rw_inv held s'"
proof -
  let ?th = "rw_threads s ! i" and ?h = "held (rw_mut s) i"
  note C = rw_contractD [OF M]
  have body: "fits None reading (rt_body ?th)" and ok: "\<not> rw_failed s"
    using inv i by (auto simp: rw_inv_def)
  have live: "\<not> rt_done ?th" using step by (auto simp: rw_thread_step_def Let_def)
  obtain v where fit: "fits ?h v (rt_rest ?th)" and v: "?h \<noteq> None \<Longrightarrow> v = rw_state s"
    "?h \<noteq> Some Exclusive \<Longrightarrow> v = reading"
    using inv i unfolding rw_inv_def thread_fits_def by blast
  show ?thesis
  proof (cases "rt_rest ?th")
    case (Acquire a b)
    then obtain m where m: "rm_lock M a i (rw_mut s) = Some m"
      and s': "s' = rw_go i b (s\<lparr>rw_mut := m\<rparr>)"
      using step live by (auto simp: rw_thread_step_def Let_def)
    have none: "?h = None" using fit Acquire by simp
    note own = C(1) [OF none m]
    show ?thesis unfolding s'
      using own fit Acquire rw_reading_if_own [OF inv _ none] live by (intro rw_inv_own [OF inv i]) auto
  next
    case (TryAcquire a b c)
    have none: "?h = None" using fit TryAcquire by simp
    show ?thesis
    proof (cases "rm_try M a i (rw_mut s)")
      case None
      then have "s' = rw_go i c s" using step live TryAcquire by (simp add: rw_thread_step_def)
      then show ?thesis using fit TryAcquire none ok live
        by (intro rw_inv_stay [OF inv i, where st = "rw_state s"
            and th = "?th\<lparr>rt_rest := c\<rparr>"])
          (auto simp: rw_go_def thread_fits_def)
    next
      case (Some m)
      then have s': "s' = rw_go i b (s\<lparr>rw_mut := m\<rparr>)"
        using step live TryAcquire by (simp add: rw_thread_step_def)
      note own = C(2) [OF none Some]
      show ?thesis unfolding s'
        using own fit TryAcquire rw_reading_if_own [OF inv _ none] live
        by (intro rw_inv_own [OF inv i]) auto
    qed
  next
    case (Release a b)
    then have own: "?h = Some a" and rest: "fits None reading b" and st: "rw_state s = reading"
      using fit v by auto
    have "s' = rw_go i b (s\<lparr>rw_mut := rm_unlock M a i (rw_mut s)\<rparr>)"
      using step live Release by (simp add: rw_thread_step_def)
    then show ?thesis using C(4) [OF own] rest st ok live
      by (intro rw_inv_go [OF inv i, where h = None and st = reading
            and th = "?th\<lparr>rt_rest := b\<rparr>"])
        (auto simp: rw_go_def thread_fits_def)
  next
    case (Convert a a' b)
    then have own: "?h = Some a" and rest: "fits (Some a') reading b" and st: "rw_state s = reading"
      and conv: "convertible a a'"
      using fit v by auto
    have "consistent (held (rw_mut s))" using inv by (auto simp: rw_inv_def consistent_def)
    note granted = C(5) [OF this conv own]
    obtain m where m: "rm_convert M a a' i (rw_mut s) = Some m"
      and s': "s' = rw_go i b (s\<lparr>rw_mut := m\<rparr>)"
      using step live Convert by (auto simp: rw_thread_step_def Let_def)
    show ?thesis unfolding s'
      using granted [OF m] rest st live by (intro rw_inv_own [OF inv i]) auto
  next
    case (TryConvert a a' b c)
    then have own: "?h = Some a" and rest: "fits (Some a') reading b" "fits ?h reading c"
      and st: "rw_state s = reading" using fit v by auto
    show ?thesis
    proof (cases "rm_try_convert M a a' i (rw_mut s)")
      case None
      then have "s' = rw_go i c s" using step live TryConvert by (simp add: rw_thread_step_def)
      then show ?thesis using rest st ok live
        by (intro rw_inv_stay [OF inv i, where st = "rw_state s"
            and th = "?th\<lparr>rt_rest := c\<rparr>"])
          (auto simp: rw_go_def thread_fits_def)
    next
      case (Some m)
      then have s': "s' = rw_go i b (s\<lparr>rw_mut := m\<rparr>)"
        using step live TryConvert by (simp add: rw_thread_step_def)
      show ?thesis unfolding s'
        using C(6) [OF own Some] rest st live by (intro rw_inv_own [OF inv i]) auto
    qed
  next
    case (AssertState w b)
    then have "s' = rw_go i b (s\<lparr>rw_failed := rw_failed s \<or> rw_state s \<noteq> w\<rparr>)"
      using step live by (simp add: rw_thread_step_def)
    then show ?thesis using fit v AssertState ok live
      by (intro rw_inv_stay [OF inv i, where st = "rw_state s"
            and th = "?th\<lparr>rt_rest := b\<rparr>"])
        (auto simp: rw_go_def thread_fits_def)
  next
    case (SetState w b)
    then have "s' = rw_go i b (s\<lparr>rw_state := w\<rparr>)" and "?h = Some Exclusive"
      using step live fit by (simp_all add: rw_thread_step_def)
    then show ?thesis using fit SetState ok live
      by (intro rw_inv_stay [OF inv i, where st = w and th = "?th\<lparr>rt_rest := b\<rparr>"])
        (auto simp: rw_go_def thread_fits_def)
  next
    case (Count b)
    then have "s' = rw_go i b (s\<lparr>rw_threads :=
        (rw_threads s)[i := ?th\<lparr>rt_count := rt_count ?th + 1\<rparr>]\<rparr>)"
      using step live by (simp add: rw_thread_step_def Let_def)
    then show ?thesis using fit v Count ok live i
      by (intro rw_inv_stay [OF inv i, where st = "rw_state s"
            and th = "?th\<lparr>rt_count := rt_count ?th + 1, rt_rest := b\<rparr>"])
        (auto simp: rw_go_def thread_fits_def)
  next
    case Again
    then have s': "s' = s\<lparr>rw_threads := (rw_threads s)[i :=
        (if up then ?th\<lparr>rt_done := True\<rparr> else ?th\<lparr>rt_rest := rt_body ?th\<rparr>)]\<rparr>"
      using step live by (simp add: rw_thread_step_def Let_def)
    show ?thesis using fit v Again ok live body unfolding s'
      by (intro rw_inv_stay [OF inv i, where st = "rw_state s"
            and th = "if up then ?th\<lparr>rt_done := True\<rparr> else ?th\<lparr>rt_rest := rt_body ?th\<rparr>"])
        (auto simp: thread_fits_def)
  qed
qed


lemma rw_inv_step:
  "rw_contract M held \<Longrightarrow> rw_inv held s \<Longrightarrow> rw_step M s l = Some s' \<Longrightarrow> rw_inv held s'"
  using rw_inv_thread_step by (auto simp: rw_step_def split: if_splits)

lemma rw_inv_start:
  assumes "held m = (\<lambda>t. None)" and "set bs \<subseteq> rw_bodies"
  shows "rw_inv held (rw_start m bs)"
  using assms bodies_fit
  by (auto simp: rw_inv_def rw_start_def thread_fits_def subset_iff)

lemma rw_reach_inv:
  assumes M: "rw_contract M held" and "reach (rw_step M) s0 s" and "rw_inv held s0"
  shows "rw_inv held s"
  using assms(2,3) rw_inv_step [OF M] by (induction rule: reach.induct) blast+

section \<open>Progress\<close>

text \<open>How many statements a thread has to go once its time is up.\<close>
fun statements :: "body \<Rightarrow> nat" where
  "statements (Acquire a b) = Suc (statements b)"
| "statements (TryAcquire a b c) = Suc (statements b + statements c)"
| "statements (Release a b) = Suc (statements b)"
| "statements (Convert a a' b) = Suc (statements b)"
| "statements (TryConvert a a' b c) = Suc (statements b + statements c)"
| "statements (AssertState v b) = Suc (statements b)"
| "statements (SetState v b) = Suc (statements b)"
| "statements (Count b) = Suc (statements b)"
| "statements Again = 1"

definition thread_work :: "rw_thread \<Rightarrow> nat" where
  "thread_work th = (if rt_done th then 0 else statements (rt_rest th))"

definition rw_work :: "'m rw_system \<Rightarrow> nat" where
  "rw_work s = sum_list (map thread_work (rw_threads s))"

lemma statements_pos: "0 < statements b"
  by (induction b) auto

lemma rw_thread_step_threads:
  assumes "rw_thread_step M i True s = Some s'" and "i < length (rw_threads s)"
  shows "\<exists>th. rw_threads s' = (rw_threads s)[i := th] \<and> thread_work th < thread_work (rw_threads s ! i)"
proof -
  have live: "\<not> rt_done (rw_threads s ! i)" using assms by (auto simp: rw_thread_step_def Let_def)
  show ?thesis
  proof (cases "rt_rest (rw_threads s ! i)")
    case (Count b)
    then show ?thesis
      using assms live
      by (intro exI [of _ "(rw_threads s ! i)\<lparr>rt_count := rt_count (rw_threads s ! i) + 1,
            rt_rest := b\<rparr>"]) (auto simp: rw_thread_step_def rw_go_def thread_work_def Let_def)
  next
    case Again
    then show ?thesis
      using assms live by (intro exI [of _ "(rw_threads s ! i)\<lparr>rt_done := True\<rparr>"])
        (auto simp: rw_thread_step_def thread_work_def Let_def)
  qed (use assms live in \<open>fastforce simp: rw_thread_step_def rw_go_def thread_work_def Let_def
      split: option.splits\<close>)+
qed

lemma rw_work_less:
  assumes "rw_thread_step M i True s = Some s'" and i: "i < length (rw_threads s)"
  shows "rw_work s' < rw_work s"
proof -
  obtain th where th: "rw_threads s' = (rw_threads s)[i := th]"
    and less: "thread_work th < thread_work (rw_threads s ! i)"
    using rw_thread_step_threads [OF assms] by blast
  have "thread_work (rw_threads s ! i) \<le> rw_work s"
    unfolding rw_work_def using i by (intro member_le_sum_list) simp_all
  then show ?thesis
    using less i by (simp add: rw_work_def th map_update sum_list_update)
qed

text \<open>An owner can go on, except that the owner for upgrade may wait for the others.\<close>
lemma rw_owner_step:
  assumes M: "rw_contract M held" and inv: "rw_inv held s"
    and own: "held (rw_mut s) t = Some a"
    and stuck: "rw_thread_step M t True s = None"
  shows "a = Upgrade \<and> (\<exists>u c. u \<noteq> t \<and> held (rw_mut s) u = Some c)"
proof -
  have t: "t < length (rw_threads s)" using inv own by (auto simp: rw_inv_def)
  then obtain v where fit: "fits (Some a) v (rt_rest (rw_threads s ! t))"
    using inv own unfolding rw_inv_def thread_fits_def by metis
  have "rt_done (rw_threads s ! t) \<longrightarrow> rt_rest (rw_threads s ! t) = Again"
    using inv t by (simp add: rw_inv_def)
  with fit have live: "\<not> rt_done (rw_threads s ! t)" by auto
  show ?thesis
  proof (cases "rt_rest (rw_threads s ! t)")
    case (Convert a1 a2 b)
    then have "rm_convert M a1 a2 t (rw_mut s) = None" and "a1 = a"
      and "convertible a1 a2" using stuck live fit by (auto simp: rw_thread_step_def Let_def)
    then show ?thesis using rw_contractD(7) [OF M, of a1 a2 t "rw_mut s"] by blast
  qed (use stuck live fit in \<open>auto simp: rw_thread_step_def Let_def split: option.splits\<close>)
qed

lemma rw_can_step:
  assumes M: "rw_contract M held" and inv: "rw_inv held s"
    and i: "i < length (rw_threads s)" and live: "\<not> rt_done (rw_threads s ! i)"
  shows "\<exists>j s'. j < length (rw_threads s) \<and> rw_thread_step M j True s = Some s'"
proof (cases "\<exists>t a. held (rw_mut s) t = Some a")
  case True
  then obtain t a where t: "held (rw_mut s) t = Some a" by blast
  have inside: "u < length (rw_threads s)" and own: "may_own (held (rw_mut s)) u c"
    if "held (rw_mut s) u = Some c" for u c using inv that by (auto simp: rw_inv_def)
  show ?thesis
  proof (cases "rw_thread_step M t True s")
    case None
    from rw_owner_step [OF M inv t None] obtain u c where
      u: "a = Upgrade" "u \<noteq> t" "held (rw_mut s) u = Some c" by blast
    then have "c \<noteq> Upgrade"
      using own [OF t] by (auto simp: may_own_def compatible_def)
    then have "rw_thread_step M u True s \<noteq> None" using rw_owner_step [OF M inv u(3)] by blast
    then show ?thesis using inside [OF u(3)] by auto
  qed (use inside [OF t] in auto)
next
  case False
  then have none: "held (rw_mut s) t = None" for t by simp
  obtain v where fit: "fits None v (rt_rest (rw_threads s ! i))"
    using inv i none unfolding rw_inv_def thread_fits_def by metis
  have lock: "rm_lock M a i (rw_mut s) \<noteq> None" for a
    using rw_contractD(3) [OF M] none by fastforce
  have "rw_thread_step M i True s \<noteq> None"
    using live fit lock
    by (cases "rt_rest (rw_threads s ! i)")
      (auto simp: rw_thread_step_def Let_def split: option.splits)
  then show ?thesis using i by blast
qed

lemma rw_all_finish:
  assumes M: "rw_contract M held"
  shows "rw_inv held s \<Longrightarrow>
    \<exists>s'. reach (rw_step M) s s' \<and> (\<forall>th \<in> set (rw_threads s'). rt_done th)"
proof (induction "rw_work s" arbitrary: s rule: less_induct)
  case less
  show ?case
  proof (cases "\<forall>th \<in> set (rw_threads s). rt_done th")
    case False
    then obtain i where "i < length (rw_threads s)" "\<not> rt_done (rw_threads s ! i)"
      by (auto simp: in_set_conv_nth)
    from rw_can_step [OF M less.prems this] obtain j s1 where
      j: "j < length (rw_threads s)" "rw_thread_step M j True s = Some s1" by blast
    then have step: "rw_step M s (j, True) = Some s1" by (simp add: rw_step_def)
    from less.hyps [OF rw_work_less [OF j(2,1)] rw_inv_step [OF M less.prems step]] obtain s'
      where "reach (rw_step M) s1 s'" "\<forall>th \<in> set (rw_threads s'). rt_done th" by blast
    then show ?thesis using reach_trans [OF _ reach_one [of "rw_step M" s "(j, True)" s1, OF step]] by blast
  qed auto
qed

section \<open>A mutex that keeps the contract\<close>

text \<open>The owners as an association list.\<close>
type_synonym owner_list = "(nat \<times> access) list"

definition list_own :: "access \<Rightarrow> nat \<Rightarrow> owner_list \<Rightarrow> owner_list option" where
  "list_own a t m =
     (let others = filter (\<lambda>(u, b). u \<noteq> t) m
      in if list_all (\<lambda>(u, b). compatible a b) others then Some ((t, a) # others) else None)"

definition list_mutex :: "owner_list rw_mutex" where
  "list_mutex =
     \<lparr>rm_lock = list_own, rm_try = list_own, rm_unlock = (\<lambda>a t m. filter (\<lambda>(u, b). u \<noteq> t) m),
      rm_convert = (\<lambda>a b t m. if a = Upgrade \<and> b = Exclusive then list_own b t m
                             else Some ((t, b) # filter (\<lambda>(u, c). u \<noteq> t) m)),
      rm_try_convert = (\<lambda>a b t m. list_own b t m)\<rparr>"

lemma list_own_Some:
  "list_own a t m = Some m' \<Longrightarrow> map_of m' = (map_of m)(t := Some a) \<and> may_own (map_of m) t a"
proof -
  assume "list_own a t m = Some m'"
  then have m': "m' = (t, a) # filter (\<lambda>(u, b). u \<noteq> t) m"
    and all: "\<forall>(u, b) \<in> set m. u \<noteq> t \<longrightarrow> compatible a b"
    by (auto simp: list_own_def list_all_iff Let_def split: if_splits)
  have "map_of (filter (\<lambda>(u, b). u \<noteq> t) m) u = (if u = t then None else map_of m u)" for u
    by (induction m) auto
  then show ?thesis using m' all by (auto simp: may_own_def dest!: map_of_SomeD)
qed

lemma map_of_without: "map_of (filter (\<lambda>(u, b). u \<noteq> t) m) = (map_of m)(t := None)"
  by (induction m) (auto simp: fun_eq_iff)

lemma owner_exists: "(u, b) \<in> set m \<Longrightarrow> \<exists>c. map_of m u = Some c"
  by (induction m) auto

lemma list_mutex_contract: "rw_contract list_mutex map_of"
proof -
  have none: "\<exists>u b. u \<noteq> t \<and> map_of m u = Some b" if "list_own a t m = None" for a t m
    using that owner_exists
    by (fastforce simp: list_own_def list_all_iff Let_def split: if_splits)
  have conv: "may_own (map_of m) t b"
    if "consistent (map_of m)" "map_of m t = Some a" "convertible a b" "(a, b) \<noteq> (Upgrade, Exclusive)"
    for a b t m
    using that by (auto simp: consistent_def may_own_def convertible_def compatible_def)
  show ?thesis
    unfolding rw_contract_def list_mutex_def
    using none conv list_own_Some
    by (auto simp: map_of_without)
qed

section \<open>Properties\<close>

text \<open>
  C13: no assertion of \<open>shared_mutex.cpp\<close> fails.  For every mutex that keeps the documented
  contract and every number of threads that execute functions of the file, in any mix, in every
  state of every execution no \<open>BOOST_ASSERT\<close> has failed, and while \<open>state\<close> is \<open>writing\<close> exactly
  one thread owns the mutex, exclusively.
\<close>
theorem rw_assertions_hold:
  assumes "rw_contract M held" and "held m = (\<lambda>t. None)"
    and "set bs \<subseteq> set (concat (test_shared_mutex @ test_upgrade_mutex))"
    and "reach (rw_step M) (rw_start m bs) s"
  shows "\<not> rw_failed s \<and>
    (rw_state s = writing \<longrightarrow>
      (\<exists>t. held (rw_mut s) t = Some Exclusive \<and> (\<forall>u. u \<noteq> t \<longrightarrow> held (rw_mut s) u = None)))"
proof -
  have "rw_inv held (rw_start m bs)"
    using rw_inv_start [of held m bs] assms(2,3) by (simp add: rw_bodies_def)
  then have inv: "rw_inv held s" by (rule rw_reach_inv [OF assms(1,4)])
  have "held (rw_mut s) u = None" if "held (rw_mut s) t = Some Exclusive" "u \<noteq> t" for t u
  proof (cases "held (rw_mut s) u")
    case (Some b)
    have "may_own (held (rw_mut s)) t Exclusive" using inv that(1) by (auto simp: rw_inv_def)
    then show ?thesis using Some that(2) by (auto simp: may_own_def)
  qed
  then show ?thesis using inv unfolding rw_inv_def by blast
qed

text \<open>A clockwise thread and a reader: the thread has converted its ownership and writes.\<close>
definition rw_example :: "owner_list rw_system" where
  "rw_example =
     the (run_steps (rw_step list_mutex) (rw_start [] [clockwise, u_reader])
            (replicate 5 (0, False) @ [(1, False)]))"

lemma rw_example:
  "run_steps (rw_step list_mutex) (rw_start [] [clockwise, u_reader])
     (replicate 5 (0, False) @ [(1, False)]) = Some rw_example"
  "rw_state rw_example = writing" "rw_mut rw_example = [(0, Exclusive)]"
  by (simp_all add: rw_example_def rw_start_def rw_step_def rw_thread_step_def rw_go_def
      clockwise_def u_reader_def list_mutex_def list_own_def Let_def numeral_eq_Suc)

theorem rw_assertions_hold_witness:
  "rw_state rw_example = writing \<and> \<not> rw_failed rw_example \<and>
   (\<exists>t. map_of (rw_mut rw_example) t = Some Exclusive)"
proof -
  have "map_of ([] :: owner_list) = (\<lambda>t. None)"
    and "set [clockwise, u_reader] \<subseteq> set (concat (test_shared_mutex @ test_upgrade_mutex))"
    by (auto simp: test_upgrade_mutex_def)
  from rw_assertions_hold [OF list_mutex_contract this run_steps_reach [OF rw_example(1)]]
  show ?thesis using rw_example(2) by blast
qed

text \<open>
  The joins of \<open>shared_mutex.cpp\<close> return.  From every reachable state of any mix of its
  threads the threads can go on until all have left their loops, the conversions from upgrade
  ownership to exclusive ownership included: no two of them wait for each other.
\<close>
theorem rw_joins_return:
  assumes "rw_contract M held" and "held m = (\<lambda>t. None)"
    and "set bs \<subseteq> set (concat (test_shared_mutex @ test_upgrade_mutex))"
    and "reach (rw_step M) (rw_start m bs) s"
  shows "\<exists>s'. reach (rw_step M) s s' \<and> (\<forall>th \<in> set (rw_threads s'). rt_done th)"
proof -
  have "rw_inv held (rw_start m bs)"
    using rw_inv_start [of held m bs] assms(2,3) by (simp add: rw_bodies_def)
  from rw_all_finish [OF assms(1) rw_reach_inv [OF assms(1,4) this]] show ?thesis .
qed

theorem rw_joins_return_witness:
  "\<exists>s'. reach (rw_step list_mutex) rw_example s' \<and> (\<forall>th \<in> set (rw_threads s'). rt_done th)"
proof -
  have "map_of ([] :: owner_list) = (\<lambda>t. None)"
    and "set [clockwise, u_reader] \<subseteq> set (concat (test_shared_mutex @ test_upgrade_mutex))"
    by (auto simp: test_upgrade_mutex_def)
  from rw_joins_return [OF list_mutex_contract this run_steps_reach [OF rw_example(1)]]
  show ?thesis .
qed

end
