(* ===== verification/Shared_Assignment.thy ===== *)
theory Shared_Assignment
  imports Shared_Mutex_Properties
begin

text \<open>
  The class \<open>Assignment::A\<close> of \<open>shared_mutex.cpp\<close>: objects that each have an upgrade mutex and a
  vector, with the operations that take the mutexes of two objects at once.  The mutex is the
  parameter \<open>rw_mutex\<close> of \<open>Shared_Mutex\<close>, one value for each object.  \<open>boost::lock\<close> of two locks
  is one step, enabled when both can be had: it holds neither while it waits.  The mean of two
  vectors is a parameter.
\<close>

section \<open>The objects and the calls\<close>

datatype a_call = Copy_from nat | Assign_from nat nat | Swap_with nat nat | Average nat nat

text \<open>
  Where a thread is: outside, at the start of a call, with the locks of the call, in \<open>average\<close>
  with \<open>share_this_lock\<close> and \<open>share_that_lock\<close>, in \<open>average\<close> with \<open>share_this_lock\<close> and
  \<open>that_lock\<close>, or ended by an assertion.  The number is a ghost: when the locks were taken.
\<close>
datatype a_pc =
  A_idle | A_call a_call | A_locked a_call nat | A_share nat nat nat | A_unique nat nat nat
| A_aborted

record ('m, 'd) a_system =
  as_mut :: "nat \<Rightarrow> 'm"
  as_data :: "nat \<Rightarrow> 'd"
  as_copy :: "nat \<Rightarrow> 'd"
  as_pc :: "nat \<Rightarrow> a_pc"
  as_clock :: nat

definition a_start :: "'m \<Rightarrow> (nat \<Rightarrow> 'd) \<Rightarrow> ('m, 'd) a_system" where
  "a_start m d =
     \<lparr>as_mut = (\<lambda>x. m), as_data = d, as_copy = d, as_pc = (\<lambda>t. A_idle), as_clock = 0\<rparr>"

definition a_go :: "nat \<Rightarrow> a_pc \<Rightarrow> ('m, 'd) a_system \<Rightarrow> ('m, 'd) a_system" where
  "a_go t pc s = s\<lparr>as_pc := (as_pc s)(t := pc)\<rparr>"

text \<open>\<open>boost::lock\<close>; for two locks of the same mutex it is never done.\<close>
definition lock_two ::
  "'m rw_mutex \<Rightarrow> nat \<Rightarrow> nat \<Rightarrow> access \<Rightarrow> nat \<Rightarrow> access \<Rightarrow> (nat \<Rightarrow> 'm) \<Rightarrow> (nat \<Rightarrow> 'm) option" where
  "lock_two M t x a y b mut =
     (if x = y then None
      else case rm_lock M a t (mut x) of None \<Rightarrow> None
           | Some m \<Rightarrow> (case rm_lock M b t (mut y) of None \<Rightarrow> None
                        | Some n \<Rightarrow> Some (mut(x := m, y := n))))"

definition unlock_two ::
  "'m rw_mutex \<Rightarrow> nat \<Rightarrow> nat \<Rightarrow> access \<Rightarrow> nat \<Rightarrow> access \<Rightarrow> (nat \<Rightarrow> 'm) \<Rightarrow> (nat \<Rightarrow> 'm)" where
  "unlock_two M t x a y b mut =
     mut(x := rm_unlock M a t (mut x), y := rm_unlock M b t (mut y))"

definition a_locked ::
  "nat \<Rightarrow> a_call \<Rightarrow> ('m, 'd) a_system \<Rightarrow> (nat \<Rightarrow> 'm) \<Rightarrow> ('m, 'd) a_system" where
  "a_locked t c s mut =
     a_go t (A_locked c (as_clock s)) (s\<lparr>as_mut := mut, as_clock := Suc (as_clock s)\<rparr>)"

text \<open>The start of a call: the tests of the arguments and the locks.\<close>
fun a_begin :: "'m rw_mutex \<Rightarrow> nat \<Rightarrow> a_call \<Rightarrow> ('m, 'd) a_system \<Rightarrow> ('m, 'd) a_system option" where
  "a_begin M t (Copy_from a) s =
     map_option (\<lambda>m. a_locked t (Copy_from a) s ((as_mut s)(a := m)))
       (rm_lock M Shared t (as_mut s a))"
| "a_begin M t (Assign_from x a) s =
     (if x = a then Some (a_go t A_idle s)
      else map_option (a_locked t (Assign_from x a) s)
             (lock_two M t x Exclusive a Shared (as_mut s)))"
| "a_begin M t (Swap_with x a) s =
     map_option (a_locked t (Swap_with x a) s)
       (lock_two M t x Exclusive a Exclusive (as_mut s))"
| "a_begin M t (Average x a) s =
     (if x = a then Some (a_go t A_aborted s)
      else map_option (a_locked t (Average x a) s)
             (lock_two M t x Exclusive a Upgrade (as_mut s)))"

text \<open>The rest of a call once it has its locks; \<open>average\<close> gives up exclusive ownership here.\<close>
fun a_body ::
  "('d \<Rightarrow> 'd \<Rightarrow> 'd) \<Rightarrow> 'm rw_mutex \<Rightarrow> nat \<Rightarrow> a_call \<Rightarrow> nat \<Rightarrow> ('m, 'd) a_system \<Rightarrow>
   ('m, 'd) a_system option"
where
  "a_body mean M t (Copy_from a) n s =
     Some (a_go t A_idle (s\<lparr>as_copy := (as_copy s)(t := as_data s a),
       as_mut := (as_mut s)(a := rm_unlock M Shared t (as_mut s a))\<rparr>))"
| "a_body mean M t (Assign_from x a) n s =
     Some (a_go t A_idle (s\<lparr>as_data := (as_data s)(x := as_data s a),
       as_mut := unlock_two M t x Exclusive a Shared (as_mut s)\<rparr>))"
| "a_body mean M t (Swap_with x a) n s =
     Some (a_go t A_idle (s\<lparr>as_data := (as_data s)(x := as_data s a, a := as_data s x),
       as_mut := unlock_two M t x Exclusive a Exclusive (as_mut s)\<rparr>))"
| "a_body mean M t (Average x a) n s =
     map_option (\<lambda>m. a_go t (A_share x a n)
         (s\<lparr>as_data := (as_data s)(x := mean (as_data s x) (as_data s a)),
            as_mut := (as_mut s)(x := m)\<rparr>))
       (rm_convert M Exclusive Shared t (as_mut s x))"

datatype a_label = AS_call nat a_call | AS_go nat

fun a_step ::
  "('d \<Rightarrow> 'd \<Rightarrow> 'd) \<Rightarrow> 'm rw_mutex \<Rightarrow> ('m, 'd) a_system \<Rightarrow> a_label \<Rightarrow> ('m, 'd) a_system option"
where
  "a_step mean M s (AS_call t c) =
     (if as_pc s t = A_idle then Some (a_go t (A_call c) s) else None)"
| "a_step mean M s (AS_go t) =
     (case as_pc s t of
        A_call c \<Rightarrow> a_begin M t c s
      | A_locked c n \<Rightarrow> a_body mean M t c n s
      | A_share x a n \<Rightarrow>
          map_option (\<lambda>m. a_go t (A_unique x a n) (s\<lparr>as_mut := (as_mut s)(a := m)\<rparr>))
            (rm_convert M Upgrade Exclusive t (as_mut s a))
      | A_unique x a n \<Rightarrow>
          Some (a_go t A_idle (s\<lparr>as_data := (as_data s)(a := as_data s x),
            as_mut := unlock_two M t x Shared a Exclusive (as_mut s)\<rparr>))
      | _ \<Rightarrow> None)"

section \<open>Who owns what\<close>

text \<open>The ownership of the object \<open>x\<close> that goes with a location.\<close>
fun call_owns :: "a_call \<Rightarrow> nat \<Rightarrow> access option" where
  "call_owns (Copy_from a) = [a \<mapsto> Shared]"
| "call_owns (Assign_from x a) = [x \<mapsto> Exclusive, a \<mapsto> Shared]"
| "call_owns (Swap_with x a) = [x \<mapsto> Exclusive, a \<mapsto> Exclusive]"
| "call_owns (Average x a) = [x \<mapsto> Exclusive, a \<mapsto> Upgrade]"

fun pc_owns :: "a_pc \<Rightarrow> nat \<Rightarrow> access option" where
  "pc_owns (A_locked c n) = call_owns c"
| "pc_owns (A_share x a n) = [x \<mapsto> Shared, a \<mapsto> Upgrade]"
| "pc_owns (A_unique x a n) = [x \<mapsto> Shared, a \<mapsto> Exclusive]"
| "pc_owns _ = Map.empty"

text \<open>The two objects of a call with locks are different.\<close>
fun call_distinct :: "a_call \<Rightarrow> bool" where
  "call_distinct (Copy_from a) \<longleftrightarrow> True"
| "call_distinct (Assign_from x a) \<longleftrightarrow> x \<noteq> a"
| "call_distinct (Swap_with x a) \<longleftrightarrow> x \<noteq> a"
| "call_distinct (Average x a) \<longleftrightarrow> x \<noteq> a"

fun pc_distinct :: "a_pc \<Rightarrow> bool" where
  "pc_distinct (A_locked c n) \<longleftrightarrow> call_distinct c"
| "pc_distinct (A_share x a n) \<longleftrightarrow> x \<noteq> a"
| "pc_distinct (A_unique x a n) \<longleftrightarrow> x \<noteq> a"
| "pc_distinct _ \<longleftrightarrow> True"

text \<open>
  The object whose upgrade ownership a thread has, and the one it has reduced to shared
  ownership, each with the time the locks were taken.
\<close>
fun upgrades :: "a_pc \<Rightarrow> (nat \<times> nat) option" where
  "upgrades (A_locked (Average x a) n) = Some (a, n)"
| "upgrades (A_share x a n) = Some (a, n)"
| "upgrades _ = None"

fun reduced :: "a_pc \<Rightarrow> (nat \<times> nat) option" where
  "reduced (A_share x a n) = Some (x, n)"
| "reduced _ = None"

fun stamp :: "a_pc \<Rightarrow> nat option" where
  "stamp (A_locked c n) = Some n"
| "stamp (A_share x a n) = Some n"
| "stamp _ = None"

definition a_inv :: "('m \<Rightarrow> nat \<Rightarrow> access option) \<Rightarrow> ('m, 'd) a_system \<Rightarrow> bool" where
  "a_inv held s \<longleftrightarrow>
     (\<forall>x t. held (as_mut s x) t = pc_owns (as_pc s t) x) \<and>
     (\<forall>x. consistent (held (as_mut s x))) \<and>
     (\<forall>t. pc_distinct (as_pc s t)) \<and>
     (\<forall>t n. stamp (as_pc s t) = Some n \<longrightarrow> n < as_clock s) \<and>
     (\<forall>t u x n m. t \<noteq> u \<longrightarrow> upgrades (as_pc s t) = Some (x, n) \<longrightarrow>
        reduced (as_pc s u) = Some (x, m) \<longrightarrow> m < n)"

text \<open>A thread moves to \<open>p\<close> and owns from then on what goes with it.\<close>
lemma a_inv_move:
  assumes inv: "a_inv held s"
    and pc: "as_pc s' = (as_pc s)(t := p)"
    and mut: "\<And>x. held (as_mut s' x) = (held (as_mut s x))(t := pc_owns p x)"
    and may: "\<And>x a. pc_owns p x = Some a \<Longrightarrow> may_own (held (as_mut s x)) t a"
    and dist: "pc_distinct p"
    and clock: "as_clock s \<le> as_clock s'" "\<And>n. stamp p = Some n \<Longrightarrow> n < as_clock s'"
    and first: "\<And>x n u m. upgrades p = Some (x, n) \<Longrightarrow> u \<noteq> t \<Longrightarrow>
      reduced (as_pc s u) = Some (x, m) \<Longrightarrow> m < n"
    and second: "\<And>x n u m. reduced p = Some (x, m) \<Longrightarrow> u \<noteq> t \<Longrightarrow>
      upgrades (as_pc s u) = Some (x, n) \<Longrightarrow> m < n"
  shows "a_inv held s'"
proof -
  have owns: "held (as_mut s x) u = pc_owns (as_pc s u) x"
    and cons: "consistent (held (as_mut s x))" and ds: "pc_distinct (as_pc s u)"
    and st: "stamp (as_pc s u) = Some n \<Longrightarrow> n < as_clock s"
    and ord: "v \<noteq> u \<Longrightarrow> upgrades (as_pc s v) = Some (x, n) \<Longrightarrow> reduced (as_pc s u) = Some (x, m) \<Longrightarrow>
      m < n" for x u v n m
    using inv unfolding a_inv_def by blast+
  have "consistent (held (as_mut s' x))" for x
    unfolding mut by (rule consistent_update [OF cons may])
  moreover have "stamp (as_pc s' u) = Some n \<Longrightarrow> n < as_clock s'" for u n
    using st [of u n] clock pc by (cases "u = t") auto
  moreover have "m < n" if "v \<noteq> u" "upgrades (as_pc s' v) = Some (x, n)"
    "reduced (as_pc s' u) = Some (x, m)" for u v x n m
    using that ord [of v u x n m] first [of x n u m] second [of x m v n]
    by (auto simp: pc split: if_splits)
  ultimately show ?thesis
    unfolding a_inv_def using owns ds dist by (auto simp: pc mut)
qed

lemma lock_two_owned:
  assumes "rw_contract M held" and "lock_two M t x a y b mut = Some mut'"
    and "\<And>z. held (mut z) t = None"
  shows "held (mut' z) = (held (mut z))(t := [x \<mapsto> a, y \<mapsto> b] z)"
    and "[x \<mapsto> a, y \<mapsto> b] z = Some c \<Longrightarrow> may_own (held (mut z)) t c" and "x \<noteq> y"
proof -
  obtain m n where m: "rm_lock M a t (mut x) = Some m" and n: "rm_lock M b t (mut y) = Some n"
    and mut': "mut' = mut(x := m, y := n)" and xy: "x \<noteq> y"
    using assms(2) by (auto simp: lock_two_def split: if_splits option.splits)
  from rw_contractD(1) [OF assms(1) assms(3) m] rw_contractD(1) [OF assms(1) assms(3) n]
  show "held (mut' z) = (held (mut z))(t := [x \<mapsto> a, y \<mapsto> b] z)"
    and "[x \<mapsto> a, y \<mapsto> b] z = Some c \<Longrightarrow> may_own (held (mut z)) t c"
    using assms(3) xy by (auto simp: mut' fun_upd_idem split: if_splits)
  show "x \<noteq> y" by (rule xy)
qed

lemma unlock_two_owned:
  assumes "rw_contract M held" and "x \<noteq> y" and "held (mut x) t = Some a"
    and "held (mut y) t = Some b" and "\<And>z. z \<noteq> x \<Longrightarrow> z \<noteq> y \<Longrightarrow> held (mut z) t = None"
  shows "held (unlock_two M t x a y b mut z) = (held (mut z))(t := None)"
  using assms(2,5) rw_contractD(4) [OF assms(1,3)] rw_contractD(4) [OF assms(1,4)]
  by (auto simp: unlock_two_def fun_upd_idem)

section \<open>Every step keeps it\<close>

text \<open>A step to a location without ownership needs no more than that everything is given up.\<close>
lemma a_inv_leave:
  assumes "a_inv held s" and "as_pc s' = (as_pc s)(t := p)"
    and "p = A_idle \<or> p = A_aborted \<or> p = A_call c"
    and "\<And>x. held (as_mut s' x) = (held (as_mut s x))(t := None)" and "as_clock s' = as_clock s"
  shows "a_inv held s'"
  by (rule a_inv_move [OF assms(1,2)]) (use assms(3-5) in auto)

text \<open>A step that takes locks: it is later than all before it.\<close>
lemma a_inv_enter:
  assumes "a_inv held s" and "s' = a_locked t c s mut"
    and "\<And>x. held (mut x) = (held (as_mut s x))(t := call_owns c x)"
    and "\<And>x a. call_owns c x = Some a \<Longrightarrow> may_own (held (as_mut s x)) t a" and "call_distinct c"
  shows "a_inv held s'"
proof (rule a_inv_move [OF assms(1)])
  show "as_pc s' = (as_pc s)(t := A_locked c (as_clock s))"
    by (simp add: assms(2) a_locked_def a_go_def)
  fix x n u m
  assume up: "upgrades (A_locked c (as_clock s)) = Some (x, n)"
    and red: "reduced (as_pc s u) = Some (x, m)"
  have "n = as_clock s" using up by (cases c) auto
  moreover have "stamp (as_pc s u) = Some m" using red by (cases "as_pc s u") auto
  ultimately show "m < n" using assms(1) unfolding a_inv_def by blast
qed (use assms in \<open>auto simp: a_locked_def a_go_def\<close>)

lemma a_begin_inv:
  assumes M: "rw_contract M held" and inv: "a_inv held s" and pc: "as_pc s t = A_call c"
    and step: "a_begin M t c s = Some s'"
  shows "a_inv held s'"
proof -
  have none: "held (as_mut s x) t = None" for x
    using inv pc by (simp add: a_inv_def)
  have same: "held (as_mut s x) = (held (as_mut s x))(t := None)" for x
    using none by (simp add: fun_upd_idem)
  show ?thesis
  proof (cases c)
    case (Copy_from a)
    with step obtain m where m: "rm_lock M Shared t (as_mut s a) = Some m"
      and s': "s' = a_locked t c s ((as_mut s)(a := m))" by auto
    from rw_contractD(1) [OF M none m] show ?thesis
      by (intro a_inv_enter [OF inv s']) (auto simp: Copy_from none fun_upd_idem split: if_splits)
  next
    case (Assign_from x a)
    show ?thesis
    proof (cases "x = a")
      case True
      with Assign_from step show ?thesis
        by (intro a_inv_leave [OF inv, of _ t A_idle]) (auto simp: a_go_def simp flip: same)
    next
      case False
      with Assign_from step obtain mut where
        mut: "lock_two M t x Exclusive a Shared (as_mut s) = Some mut"
        and s': "s' = a_locked t c s mut" by auto
      from lock_two_owned [OF M mut none] show ?thesis
        by (intro a_inv_enter [OF inv s']) (auto simp: Assign_from)
    qed
  next
    case (Swap_with x a)
    with step obtain mut where
      mut: "lock_two M t x Exclusive a Exclusive (as_mut s) = Some mut"
      and s': "s' = a_locked t c s mut" by auto
    from lock_two_owned [OF M mut none] show ?thesis
      by (intro a_inv_enter [OF inv s']) (auto simp: Swap_with)
  next
    case (Average x a)
    show ?thesis
    proof (cases "x = a")
      case True
      with Average step show ?thesis
        by (intro a_inv_leave [OF inv, of _ t A_aborted]) (auto simp: a_go_def simp flip: same)
    next
      case False
      with Average step obtain mut where
        mut: "lock_two M t x Exclusive a Upgrade (as_mut s) = Some mut"
        and s': "s' = a_locked t c s mut" by auto
      from lock_two_owned [OF M mut none] show ?thesis
        by (intro a_inv_enter [OF inv s']) (auto simp: Average)
    qed
  qed
qed

text \<open>Giving one ownership up, or changing it, at one object.\<close>
lemma a_body_inv:
  assumes M: "rw_contract M held" and inv: "a_inv held s" and pc: "as_pc s t = A_locked c n"
    and step: "a_body mean M t c n s = Some s'"
  shows "a_inv held s'"
proof -
  have owns: "held (as_mut s x) t = call_owns c x" for x using inv pc by (simp add: a_inv_def)
  have cons: "consistent (held (as_mut s x))" for x using inv by (simp add: a_inv_def)
  have dist: "call_distinct c"
    using inv pc unfolding a_inv_def by (metis pc_distinct.simps(1))
  show ?thesis
  proof (cases c)
    case (Copy_from a)
    with step owns rw_contractD(4) [OF M, of "as_mut s a" t Shared] show ?thesis
      by (intro a_inv_leave [OF inv, of _ t A_idle]) (auto simp: a_go_def fun_upd_idem)
  next
    case (Assign_from x a)
    with step owns dist unlock_two_owned [OF M, of x a "as_mut s" t Exclusive Shared]
    show ?thesis by (intro a_inv_leave [OF inv, of _ t A_idle]) (auto simp: a_go_def)
  next
    case (Swap_with x a)
    with step owns dist unlock_two_owned [OF M, of x a "as_mut s" t Exclusive Exclusive]
    show ?thesis by (intro a_inv_leave [OF inv, of _ t A_idle]) (auto simp: a_go_def)
  next
    case (Average x a)
    with step obtain m where m: "rm_convert M Exclusive Shared t (as_mut s x) = Some m"
      and s': "s' = a_go t (A_share x a n)
         (s\<lparr>as_data := (as_data s)(x := mean (as_data s x) (as_data s a)),
            as_mut := (as_mut s)(x := m)\<rparr>)" by auto
    have x: "held (as_mut s x) t = Some Exclusive" and a: "held (as_mut s a) t = Some Upgrade"
      and xa: "x \<noteq> a" using owns dist Average by auto
    have conv: "held m = (held (as_mut s x))(t := Some Shared)" "may_own (held (as_mut s x)) t Shared"
      using rw_contractD(5) [OF M cons _ x m] by (auto simp: convertible_def)
    show ?thesis
    proof (rule a_inv_move [OF inv])
      show "as_pc s' = (as_pc s)(t := A_share x a n)" by (simp add: s' a_go_def)
      show "held (as_mut s' z) = (held (as_mut s z))(t := pc_owns (A_share x a n) z)" for z
        using conv(1) xa owns [of z] Average by (auto simp: s' a_go_def fun_upd_idem)
      show "may_own (held (as_mut s z)) t b" if "pc_owns (A_share x a n) z = Some b" for z b
        using that conv(2) consistent_none [OF cons a] by (auto split: if_splits)
      show "m' < n'" if "upgrades (A_share x a n) = Some (z, n')" "u \<noteq> t"
        "reduced (as_pc s u) = Some (z, m')" for z n' u m'
        using inv that pc Average unfolding a_inv_def by (metis upgrades.simps(1,2))
      show "m' < n'" if red: "reduced (A_share x a n) = Some (z, m')" and u: "u \<noteq> t"
        and up: "upgrades (as_pc s u) = Some (z, n')" for z n' u m'
      proof -
        have "pc_owns (as_pc s u) z = Some Upgrade"
          using up inv unfolding a_inv_def
          by (cases "as_pc s u" rule: upgrades.cases) auto
        then have "held (as_mut s x) u = Some Upgrade" using inv red by (simp add: a_inv_def)
        with consistent_none [OF cons x] u show ?thesis
          by (auto simp: may_own_def compatible_def)
      qed
      show "stamp (A_share x a n) = Some k \<Longrightarrow> k < as_clock s'" for k
      proof -
        assume "stamp (A_share x a n) = Some k"
        then have "stamp (as_pc s t) = Some k" using pc by simp
        then have "k < as_clock s" using inv unfolding a_inv_def by blast
        then show ?thesis by (simp add: s' a_go_def)
      qed
    qed (use xa in \<open>auto simp: s' a_go_def\<close>)
  qed
qed

lemma a_step_inv:
  assumes M: "rw_contract M held" and inv: "a_inv held s" and step: "a_step mean M s l = Some s'"
  shows "a_inv held s'"
proof -
  have owns: "held (as_mut s x) u = pc_owns (as_pc s u) x" for x u
    using inv by (simp add: a_inv_def)
  have cons: "consistent (held (as_mut s x))" for x using inv by (simp add: a_inv_def)
  show ?thesis
  proof (cases l)
    case (AS_call t c)
    with step owns show ?thesis
      by (intro a_inv_leave [OF inv, of _ t "A_call c"])
        (auto simp: a_go_def fun_upd_idem split: if_splits)
  next
    case (AS_go t)
    show ?thesis
    proof (cases "as_pc s t")
      case (A_call c)
      with AS_go step a_begin_inv [OF M inv] show ?thesis by auto
    next
      case (A_locked c n)
      with AS_go step a_body_inv [OF M inv] show ?thesis by auto
    next
      case (A_share x a n)
      with AS_go step obtain m where m: "rm_convert M Upgrade Exclusive t (as_mut s a) = Some m"
        and s': "s' = a_go t (A_unique x a n) (s\<lparr>as_mut := (as_mut s)(a := m)\<rparr>)" by auto
      have xa: "x \<noteq> a" using inv A_share unfolding a_inv_def by (metis pc_distinct.simps(2))
      have a: "held (as_mut s a) t = Some Upgrade" and x: "held (as_mut s x) t = Some Shared"
        using owns A_share xa by auto
      have conv: "held m = (held (as_mut s a))(t := Some Exclusive)"
        "may_own (held (as_mut s a)) t Exclusive"
        using rw_contractD(5) [OF M cons _ a m] by (auto simp: convertible_def)
      show ?thesis
      proof (rule a_inv_move [OF inv])
        show "as_pc s' = (as_pc s)(t := A_unique x a n)" by (simp add: s' a_go_def)
        show "held (as_mut s' z) = (held (as_mut s z))(t := pc_owns (A_unique x a n) z)" for z
          using conv(1) xa owns [of z t] A_share by (auto simp: s' a_go_def fun_upd_idem)
        show "may_own (held (as_mut s z)) t b" if "pc_owns (A_unique x a n) z = Some b" for z b
          using that conv(2) consistent_none [OF cons x] by (auto split: if_splits)
      qed (use xa in \<open>auto simp: s' a_go_def\<close>)
    next
      case (A_unique x a n)
      then have "x \<noteq> a" using inv unfolding a_inv_def by (metis pc_distinct.simps(3))
      with AS_go step owns A_unique unlock_two_owned [OF M, of x a "as_mut s" t Shared Exclusive]
      show ?thesis by (intro a_inv_leave [OF inv, of _ t A_idle]) (auto simp: a_go_def)
    qed (use AS_go step in auto)
  qed
qed

lemma a_reach_inv:
  assumes "rw_contract M held" and "held m = (\<lambda>t. None)" and "reach (a_step mean M) (a_start m d) s"
  shows "a_inv held s"
proof (rule step_invariant.inv_reach [OF _ assms(3)])
  show "step_invariant (a_step mean M) (a_inv held)"
    by unfold_locales (rule a_step_inv [OF assms(1)])
  show "a_inv held (a_start m d)"
    by (simp add: a_inv_def a_start_def assms(2) consistent_def)
qed

section \<open>No deadlock\<close>

text \<open>A thread that has its locks and does not wait for others.\<close>
fun working :: "a_pc \<Rightarrow> bool" where
  "working (A_locked c n) \<longleftrightarrow> True"
| "working (A_unique x a n) \<longleftrightarrow> True"
| "working _ \<longleftrightarrow> False"

lemma a_working_goes_on:
  assumes M: "rw_contract M held" and pc: "working (as_pc s u)"
  shows "\<exists>s'. a_step mean M s (AS_go u) = Some s'"
proof (cases "as_pc s u")
  case (A_locked c n)
  have "rm_convert M Exclusive Shared u (as_mut s x) \<noteq> None" for x
  proof
    assume "rm_convert M Exclusive Shared u (as_mut s x) = None"
    from rw_contractD(7) [OF M _ this] show False by (simp add: convertible_def)
  qed
  then have "a_body mean M u c n s \<noteq> None" by (cases c) auto
  with A_locked show ?thesis by auto
qed (use pc in auto)

text \<open>A thread in \<open>average\<close> waits only for one that took its own locks before.\<close>
lemma a_share_waits:
  assumes M: "rw_contract M held" and inv: "a_inv held s" and pc: "as_pc s t = A_share x a n"
    and stuck: "a_step mean M s (AS_go t) = None"
    and rest: "\<And>u. \<not> working (as_pc s u)"
  shows "\<exists>u y b k. as_pc s u = A_share y b k \<and> k < n"
proof -
  have owns: "held (as_mut s z) u = pc_owns (as_pc s u) z" for z u
    using inv by (simp add: a_inv_def)
  have wait: "rm_convert M Upgrade Exclusive t (as_mut s a) = None" using stuck pc by auto
  from rw_contractD(7) [OF M _ wait] obtain u c
    where u: "u \<noteq> t" "held (as_mut s a) u = Some c" by (auto simp: convertible_def)
  then obtain y b k where pu: "as_pc s u = A_share y b k"
    using owns [of a u] rest [of u] by (cases "as_pc s u") auto
  have "held (as_mut s a) t = Some Upgrade" using owns [of a t] pc by simp
  then have "may_own (held (as_mut s a)) t Upgrade"
    using inv consistent_none unfolding a_inv_def by blast
  with u have "c = Shared" by (auto simp: may_own_def compatible_def)
  with u owns [of a u] pu have "y = a" by (auto split: if_splits)
  then have "k < n"
    using inv pc pu u(1) unfolding a_inv_def by (metis reduced.simps(1) upgrades.simps(2))
  with pu show ?thesis by blast
qed

text \<open>Some thread that shares an object can go on, unless one with other locks can.\<close>
lemma a_sharing_goes_on:
  assumes M: "rw_contract M held" and inv: "a_inv held s" and pc: "as_pc s t = A_share x a n"
    and rest: "\<And>u. \<not> working (as_pc s u)"
  shows "\<exists>u s'. a_step mean M s (AS_go u) = Some s'"
  using pc
proof (induction n arbitrary: t x a rule: less_induct)
  case (less n)
  show ?case
  proof (cases "a_step mean M s (AS_go t)")
    case None
    obtain u y b k where "as_pc s u = A_share y b k" "k < n"
      using a_share_waits [OF M inv less.prems None rest] by blast
    with less.IH show ?thesis by blast
  next
    case (Some s')
    then show ?thesis by blast
  qed
qed

text \<open>
  The operations of \<open>Assignment::A\<close> do not deadlock.  For every mutex that keeps the
  documented contract, any number of objects and of threads that copy, assign, swap and average
  them in any order, in every reachable state in which some thread is inside a call some thread
  can go on, as long as no object is swapped with itself.  In particular threads that each turn
  upgrade ownership into exclusive ownership while they share another object do not wait in a
  circle.
\<close>
theorem assignment_no_deadlock:
  assumes "rw_contract M held" and "held m = (\<lambda>t. None)"
    and "reach (a_step mean M) (a_start m d) s"
    and "as_pc s t \<noteq> A_idle" and "as_pc s t \<noteq> A_aborted"
    and "\<And>u x. as_pc s u \<noteq> A_call (Swap_with x x)"
  shows "\<exists>u s'. a_step mean M s (AS_go u) = Some s'"
proof -
  have inv: "a_inv held s" by (rule a_reach_inv [OF assms(1-3)])
  then have owns: "held (as_mut s z) u = pc_owns (as_pc s u) z" for z u by (simp add: a_inv_def)
  show ?thesis
  proof (cases "\<exists>u. working (as_pc s u)")
    case True
    then show ?thesis using a_working_goes_on [OF assms(1)] by blast
  next
    case False
    then have rest: "\<And>u. \<not> working (as_pc s u)" by blast
    show ?thesis
    proof (cases "\<exists>u x a n. as_pc s u = A_share x a n")
      case True
      then show ?thesis using a_sharing_goes_on [OF assms(1) inv _ rest] by blast
    next
      case noshare: False
      then have none: "held (as_mut s z) u = None" for z u
        using owns [of z u] rest [of u] by (cases "as_pc s u") auto
      obtain c where c: "as_pc s t = A_call c"
        using assms(4,5) noshare rest [of t] by (cases "as_pc s t") auto
      have free: "rm_lock M b t (as_mut s z) \<noteq> None" for b z
        using rw_contractD(3) [OF assms(1)] none by fastforce
      then have "\<forall>b z. \<exists>m. rm_lock M b t (as_mut s z) = Some m" by auto
      then obtain l where l: "\<And>b z. rm_lock M b t (as_mut s z) = Some (l b z)"
        by metis
      have "a_begin M t c s \<noteq> None"
        using l assms(6) [of t] c by (cases c) (auto simp: lock_two_def)
      with c show ?thesis by (intro exI [of _ t]) auto
    qed
  qed
qed

text \<open>Thread 0 averages objects 0 and 1 and shares 0, thread 1 starts to average 2 and 0.\<close>
definition two_averages :: "(owner_list, int) a_system" where
  "two_averages =
     the (run_steps (a_step (\<lambda>x y. (x + y) div 2) list_mutex) (a_start [] int)
       [AS_call 0 (Average 0 1), AS_go 0, AS_go 0, AS_call 1 (Average 2 0)])"

lemma two_averages:
  "run_steps (a_step (\<lambda>x y. (x + y) div 2) list_mutex) (a_start [] int)
     [AS_call 0 (Average 0 1), AS_go 0, AS_go 0, AS_call 1 (Average 2 0)] = Some two_averages"
  "as_pc two_averages = (\<lambda>t. A_idle)(0 := A_share 0 1 0, 1 := A_call (Average 2 0))"
  by (simp_all add: two_averages_def a_start_def a_go_def lock_two_def a_locked_def list_mutex_def
      list_own_def fun_upd_twist)

lemma assignment_no_deadlock_witness:
  "\<exists>u s'. a_step (\<lambda>x y. (x + y) div 2) list_mutex two_averages (AS_go u) = Some s'"
  by (rule assignment_no_deadlock [OF list_mutex_contract _ run_steps_reach [OF two_averages(1)], of 1])
    (auto simp: two_averages(2) fun_eq_iff)

text \<open>Without the contract: a swap of an object with itself never gets its locks.\<close>
lemma a_swap_self_never_returns:
  "as_pc s t = A_call (Swap_with x x) \<Longrightarrow> a_step mean M s (AS_go t) = None"
  by (simp add: lock_two_def)

end
