(* ===== verification/Alarm_Clock.thy ===== *)
theory Alarm_Clock
  imports Prelude
begin

text \<open>
  The alarm program \<open>alarm_cond.cpp\<close>: \<open>main\<close> reads lines, makes alarms of them and puts them
  into a list ordered by time; the alarm thread takes the first alarm from the list and waits
  for it on a condition variable, until it is due, an earlier one comes or the program ends.

  An alarm object is a record with its address; pointers are compared by address.  Times are
  points of the steady clock, as integers; the conversion of a remaining time to
  \<open>duration<double>\<close> is taken to be exact.  Both threads hold \<open>alarm_mutex\<close> while they touch
  the shared data, and the alarm thread gives it up only inside its two waits: a critical
  section of \<open>main\<close> is one step, possible while the alarm thread is at \<open>AT_start\<close>, in a wait
  or at its end.
\<close>

section \<open>Data\<close>

record alarm =
  al_addr :: nat
  al_seconds :: int
  al_time :: int
  al_message :: string

text \<open>
  Where the alarm thread is.  \<open>AT_check\<close> and \<open>AT_sleep\<close> carry the alarm taken from the list and
  \<open>timeleft\<close>, \<open>AT_sleep\<close> also the end of the wait; \<open>AT_decide\<close> carries \<open>expired\<close>.
\<close>
datatype alarm_pc =
  AT_start | AT_loop | AT_empty | AT_wait | AT_take
| AT_check alarm int | AT_sleep alarm int int | AT_decide alarm bool | AT_handle alarm
| AT_while | AT_end

text \<open>
  \<open>ac_notified\<close>: the alarm thread waits and has been notified.  Ghost fields: the alarms
  accepted, those handled with the time of their handling, those dropped at the end.
\<close>
record alarm_clock =
  ac_list :: "alarm list"
  ac_current :: int
  ac_enabled :: bool
  ac_longest :: "alarm ptr"
  ac_last :: int
  ac_pc :: alarm_pc
  ac_notified :: bool
  ac_now :: int
  ac_fresh :: nat
  ac_accepted :: "alarm multiset"
  ac_handled :: "(alarm \<times> int) list"
  ac_dropped :: "alarm multiset"

text \<open>The time point \<open>ZERO\<close>.\<close>
definition zero_time :: int where
  "zero_time = 0"

definition alarm_start :: "int \<Rightarrow> alarm_clock" where
  "alarm_start now =
     \<lparr>ac_list = [], ac_current = zero_time, ac_enabled = True, ac_longest = None,
      ac_last = zero_time, ac_pc = AT_start, ac_notified = False, ac_now = now, ac_fresh = 0,
      ac_accepted = {#}, ac_handled = [], ac_dropped = {#}\<rparr>"

section \<open>The list\<close>

text \<open>The loop of \<open>alarm_insert\<close>: the new alarm goes before the first later one.\<close>
fun insert_by_time :: "alarm \<Rightarrow> alarm list \<Rightarrow> alarm list" where
  "insert_by_time al [] = [al]"
| "insert_by_time al (next # rest) =
     (if al_time al < al_time next then al # next # rest
      else next # insert_by_time al rest)"

text \<open>Whether the loop ends with \<open>next == NULL\<close>.\<close>
fun reaches_end :: "alarm \<Rightarrow> alarm list \<Rightarrow> bool" where
  "reaches_end al [] = True"
| "reaches_end al (next # rest) =
     (if al_time al < al_time next then False else reaches_end al rest)"

definition asleep :: "alarm_pc \<Rightarrow> bool" where
  "asleep pc \<longleftrightarrow> (case pc of AT_wait \<Rightarrow> True | AT_sleep al left till \<Rightarrow> True | _ \<Rightarrow> False)"

text \<open>
  \<open>alarm_insert\<close>: its result is the time of \<open>longest\<close>; \<open>Throws\<close> is a failed assertion.
\<close>
definition alarm_insert :: "alarm \<Rightarrow> alarm_clock \<Rightarrow> (int \<times> alarm_clock) outcome" where
  "alarm_insert al c =
     (let l = insert_by_time al (ac_list c);
          longest = (if reaches_end al (ac_list c) then Some al else ac_longest c);
          c1 = c\<lparr>ac_list := l, ac_longest := longest\<rparr>;
          c2 = (if ac_current c1 = zero_time \<or> al_time al < ac_current c1
                then c1\<lparr>ac_current := al_time al, ac_notified := ac_notified c1 \<or> asleep (ac_pc c1)\<rparr>
                else c1)
      in case longest of
           None \<Rightarrow> Throws ''assert (longest != NULL)''
         | Some x \<Rightarrow>
             (if al_addr (last l) \<noteq> al_addr x then Throws ''assert (longestAlarm == longest)''
              else Returns (al_time x, c2)))"

section \<open>The alarm thread\<close>

text \<open>
  One step of \<open>alarm_thread\<close>.  A wait ends because of a notification, spuriously, or, at
  \<open>AT_sleep\<close>, because its time is up.
\<close>
datatype wait_end = Woken | Timed_out

definition alarm_thread_step :: "wait_end \<Rightarrow> bool \<Rightarrow> alarm_clock \<Rightarrow> alarm_clock option" where
  "alarm_thread_step w spurious c =
     (case ac_pc c of
        AT_start \<Rightarrow> Some (c\<lparr>ac_pc := AT_loop\<rparr>)
      | AT_loop \<Rightarrow> Some (c\<lparr>ac_current := zero_time, ac_pc := AT_empty\<rparr>)
      | AT_empty \<Rightarrow>
          Some (c\<lparr>ac_pc := (if ac_enabled c \<and> ac_list c = [] then AT_wait
                          else if \<not> ac_enabled c then AT_end else AT_take)\<rparr>)
      | AT_wait \<Rightarrow>
          (if w = Woken \<and> (ac_notified c \<or> spurious)
           then Some (c\<lparr>ac_notified := False, ac_pc := AT_empty\<rparr>) else None)
      | AT_take \<Rightarrow>
          (case ac_list c of
             [] \<Rightarrow> None
           | al # rest \<Rightarrow>
               (let c1 = c\<lparr>ac_list := rest\<rparr>
                in if al_time al > ac_now c
                   then Some (c1\<lparr>ac_current := al_time al, ac_pc := AT_check al (al_time al - ac_now c)\<rparr>)
                   else Some (c1\<lparr>ac_pc := AT_handle al\<rparr>)))
      | AT_check al left \<Rightarrow>
          Some (c\<lparr>ac_pc := (if ac_enabled c \<and> al_time al = ac_current c
                          then AT_sleep al left (ac_now c + left) else AT_decide al False)\<rparr>)
      | AT_sleep al left till \<Rightarrow>
          (case w of
             Timed_out \<Rightarrow>
               (if till \<le> ac_now c
                then Some (c\<lparr>ac_notified := False, ac_pc := AT_decide al True\<rparr>) else None)
           | Woken \<Rightarrow>
               (if ac_notified c \<or> spurious
                then Some (c\<lparr>ac_notified := False, ac_pc := AT_check al left\<rparr>) else None))
      | AT_decide al expired \<Rightarrow>
          (if \<not> ac_enabled c
           then Some (c\<lparr>ac_pc := AT_end, ac_dropped := ac_dropped c + {#al#}\<rparr>)
           else if expired then Some (c\<lparr>ac_pc := AT_handle al\<rparr>)
           else (case alarm_insert al c of
                   Returns (_, c') \<Rightarrow> Some (c'\<lparr>ac_pc := AT_while\<rparr>)
                 | _ \<Rightarrow> None))
      | AT_handle al \<Rightarrow>
          Some (c\<lparr>ac_pc := AT_while, ac_handled := ac_handled c @ [(al, ac_now c)]\<rparr>)
      | AT_while \<Rightarrow> Some (c\<lparr>ac_pc := (if ac_enabled c then AT_loop else AT_end)\<rparr>)
      | AT_end \<Rightarrow> None)"

section \<open>The main program\<close>

text \<open>\<open>alarm_mutex\<close> is free for \<open>main\<close>.\<close>
definition alarm_mutex_free :: "alarm_clock \<Rightarrow> bool" where
  "alarm_mutex_free c \<longleftrightarrow> asleep (ac_pc c) \<or> ac_pc c = AT_start \<or> ac_pc c = AT_end"

text \<open>What \<open>main\<close> does with an accepted line: a new alarm, put into the list.\<close>
definition main_insert :: "int \<Rightarrow> string \<Rightarrow> alarm_clock \<Rightarrow> alarm_clock outcome" where
  "main_insert secs msg c =
     (if \<not> alarm_mutex_free c then Blocked
      else (let al = \<lparr>al_addr = ac_fresh c, al_seconds = secs, al_time = ac_now c + secs * 1000000000,
                      al_message = msg\<rparr>
            in case alarm_insert al (c\<lparr>ac_fresh := Suc (ac_fresh c)\<rparr>) of
                 Returns (t, c') \<Rightarrow>
                   Returns (c'\<lparr>ac_last := t, ac_accepted := ac_accepted c' + {#al#}\<rparr>)
               | Throws e \<Rightarrow> Throws e
               | Blocked \<Rightarrow> Blocked))"

text \<open>The end of the input: \<open>enabled = false\<close> and \<open>notify_all\<close>.\<close>
definition main_stop :: "alarm_clock \<Rightarrow> alarm_clock outcome" where
  "main_stop c =
     (if \<not> alarm_mutex_free c then Blocked
      else Returns (c\<lparr>ac_enabled := False, ac_notified := ac_notified c \<or> asleep (ac_pc c)\<rparr>))"

text \<open>With \<open>--wait\<close>, \<open>main\<close> sleeps before it stops until the time \<open>last\<close>.\<close>
definition wait_before_stop :: "alarm_clock \<Rightarrow> bool" where
  "wait_before_stop c \<longleftrightarrow> ac_now c < ac_last c"

datatype alarm_label = AL_tick nat | AL_insert int string | AL_stop | AL_thread wait_end bool

definition alarm_step :: "alarm_clock \<Rightarrow> alarm_label \<Rightarrow> alarm_clock option" where
  "alarm_step c l =
     (case l of
        AL_tick d \<Rightarrow> Some (c\<lparr>ac_now := ac_now c + int d\<rparr>)
      | AL_insert secs msg \<Rightarrow>
          (if ac_enabled c then
             (case main_insert secs msg c of Returns c' \<Rightarrow> Some c' | _ \<Rightarrow> None) else None)
      | AL_stop \<Rightarrow>
          (if ac_enabled c then
             (case main_stop c of Returns c' \<Rightarrow> Some c' | _ \<Rightarrow> None) else None)
      | AL_thread w spurious \<Rightarrow> alarm_thread_step w spurious c)"

section \<open>Reading a line\<close>

text \<open>The characters \<open>isspace\<close> accepts in the default locale.\<close>
definition is_space :: "char \<Rightarrow> bool" where
  "is_space ch \<longleftrightarrow> ch \<in> {CHR '' '', CHR 0x09, CHR 0x0A, CHR 0x0B, CHR 0x0C, CHR 0x0D}"

definition is_digit :: "char \<Rightarrow> bool" where
  "is_digit ch \<longleftrightarrow> 48 \<le> (of_char ch :: nat) \<and> (of_char ch :: nat) \<le> 57"

definition decimal_value :: "string \<Rightarrow> int" where
  "decimal_value ds = foldl (\<lambda>v ch. 10 * v + (of_char ch - 48)) 0 ds"

text \<open>
  A line shorter than four characters is refused.  \<open>>>\<close> skips white space and reads a number
  that fits \<open>time_t\<close>; \<open>getline\<close> fails when nothing is left; the message is trimmed by
  \<open>boost::algorithm::trim\<close>, which is not part of the repository: the argument \<open>trim\<close>.
\<close>
definition parse_line :: "(string \<Rightarrow> string) \<Rightarrow> string \<Rightarrow> (int \<times> string) option" where
  "parse_line trim line =
     (if length line \<le> 3 then None
      else (let r = dropWhile is_space line;
                neg = (r \<noteq> [] \<and> hd r = CHR ''-'');
                r1 = (if r \<noteq> [] \<and> (hd r = CHR ''-'' \<or> hd r = CHR ''+'') then tl r else r);
                ds = takeWhile is_digit r1;
                rest = dropWhile is_digit r1;
                v = (if neg then - decimal_value ds else decimal_value ds)
            in if ds = [] \<or> v < - (2 ^ 63) \<or> 2 ^ 63 \<le> v then None
               else if rest = [] then None
               else Some (v, trim rest)))"

text \<open>One turn of the loop of \<open>main\<close>: a line, or the end of the input.\<close>
definition main_turn ::
  "(string \<Rightarrow> string) \<Rightarrow> string option \<Rightarrow> alarm_clock \<Rightarrow> alarm_clock outcome" where
  "main_turn trim input c =
     (case input of
        None \<Rightarrow> main_stop c
      | Some line \<Rightarrow>
          (case parse_line trim line of
             None \<Rightarrow> Returns c
           | Some (secs, msg) \<Rightarrow> main_insert secs msg c))"

end
