(* ===== verification/Alarm_Properties.thy ===== *)
theory Alarm_Properties
  imports Alarm_Clock
begin

text \<open>
  The alarm program keeps its list in order, loses no alarm while it is enabled, handles none
  before its time and never sleeps past a notification; and two runs in which it is late or
  stops too early.
\<close>

section \<open>The list\<close>

lemma mset_insert_by_time [simp]: "mset (insert_by_time al xs) = add_mset al (mset xs)"
  by (induction xs) auto

lemma set_insert_by_time [simp]: "set (insert_by_time al xs) = insert al (set xs)"
  by (induction xs) auto

lemma insert_by_time_not_Nil [simp]: "insert_by_time al xs \<noteq> []"
  by (cases xs) auto

definition by_time :: "alarm list \<Rightarrow> bool" where
  "by_time xs \<longleftrightarrow> sorted (map al_time xs)"

lemma by_time_Cons [simp]:
  "by_time (x # xs) \<longleftrightarrow> (\<forall>y \<in> set xs. al_time x \<le> al_time y) \<and> by_time xs"
  by (auto simp: by_time_def)

lemma by_time_Nil [simp]: "by_time []"
  by (simp add: by_time_def)

lemma by_time_insert: "by_time xs \<Longrightarrow> by_time (insert_by_time al xs)"
  by (induction xs) auto

lemma last_insert_by_time:
  "last (insert_by_time al xs) = (if reaches_end al xs then al else last xs)"
  by (induction xs) auto

lemma reaches_end_Nil: "\<not> reaches_end al xs \<Longrightarrow> xs \<noteq> []"
  by auto

text \<open>Alarms of the same time keep the order of their arrival.\<close>
lemma filter_insert_by_time:
  "by_time xs \<Longrightarrow> filter (\<lambda>x. al_time x = t) (insert_by_time al xs) =
   filter (\<lambda>x. al_time x = t) xs @ (if al_time al = t then [al] else [])"
proof (induction xs)
  case (Cons x xs)
  then have "filter (\<lambda>y. al_time y = t) xs = []" if "al_time al < al_time x" "al_time al = t"
    using that by (force simp: filter_empty_conv)
  with Cons show ?case by auto
qed simp

section \<open>The invariant\<close>

text \<open>The alarm the thread has taken from the list.\<close>
fun alarm_in_hand :: "alarm_pc \<Rightarrow> alarm list" where
  "alarm_in_hand (AT_check al left) = [al]"
| "alarm_in_hand (AT_sleep al left till) = [al]"
| "alarm_in_hand (AT_decide al x) = [al]"
| "alarm_in_hand (AT_handle al) = [al]"
| "alarm_in_hand _ = []"

definition alarm_pending :: "alarm_clock \<Rightarrow> alarm multiset" where
  "alarm_pending c = mset (ac_list c) + mset (alarm_in_hand (ac_pc c))"

text \<open>What holds at each location.\<close>
fun alarm_view :: "alarm_clock \<Rightarrow> alarm_pc \<Rightarrow> bool" where
  "alarm_view c AT_wait = ((ac_notified c \<or> ac_enabled c \<and> ac_list c = []) \<and>
     (ac_enabled c \<and> ac_list c = [] \<longrightarrow> ac_current c = zero_time))"
| "alarm_view c AT_empty = (ac_enabled c \<and> ac_list c = [] \<longrightarrow> ac_current c = zero_time)"
| "alarm_view c AT_take = (ac_list c \<noteq> [] \<and> ac_enabled c)"
| "alarm_view c (AT_check al left) = (al_time al \<le> ac_now c + left)"
| "alarm_view c (AT_sleep al left till) =
     (al_time al \<le> till \<and> al_time al \<le> ac_now c + left \<and> (ac_notified c \<or> ac_enabled c))"
| "alarm_view c (AT_decide al expired) = (expired \<longrightarrow> al_time al \<le> ac_now c)"
| "alarm_view c (AT_handle al) = (al_time al \<le> ac_now c)"
| "alarm_view c _ = True"

definition handled_in_time :: "int \<Rightarrow> (alarm \<times> int) list \<Rightarrow> bool" where
  "handled_in_time now hs \<longleftrightarrow> (\<forall>h \<in> set hs. al_time (fst h) \<le> snd h \<and> snd h \<le> now)"

lemma handled_in_time_simps [simp]:
  "handled_in_time now []"
  "handled_in_time now (hs @ [(al, t)]) \<longleftrightarrow> handled_in_time now hs \<and> al_time al \<le> t \<and> t \<le> now"
  by (auto simp: handled_in_time_def)

lemma handled_in_time_later: "handled_in_time now hs \<Longrightarrow> now \<le> later \<Longrightarrow> handled_in_time later hs"
  by (force simp: handled_in_time_def)

definition alarm_inv :: "alarm_clock \<Rightarrow> bool" where
  "alarm_inv c \<longleftrightarrow>
     by_time (ac_list c) \<and>
     (ac_list c \<noteq> [] \<longrightarrow> ac_longest c = Some (last (ac_list c))) \<and>
     ac_accepted c = alarm_pending c + mset (map fst (ac_handled c)) + ac_dropped c \<and>
     (ac_enabled c \<longrightarrow> ac_dropped c = {#}) \<and>
     handled_in_time (ac_now c) (ac_handled c) \<and>
     (ac_notified c \<longrightarrow> asleep (ac_pc c)) \<and> alarm_view c (ac_pc c)"

text \<open>\<open>alarm_insert\<close> never fails one of its assertions.\<close>
lemma alarm_insert_Returns:
  assumes "ac_list c \<noteq> [] \<longrightarrow> ac_longest c = Some (last (ac_list c))"
  shows "alarm_insert al c =
    (let l = insert_by_time al (ac_list c); c1 = c\<lparr>ac_list := l, ac_longest := Some (last l)\<rparr>
     in Returns (al_time (last l),
          if ac_current c = zero_time \<or> al_time al < ac_current c
          then c1\<lparr>ac_current := al_time al, ac_notified := ac_notified c \<or> asleep (ac_pc c)\<rparr>
          else c1))"
  using assms by (auto simp: alarm_insert_def last_insert_by_time Let_def)

lemma asleep_simps [simp]:
  "asleep AT_wait" "asleep (AT_sleep al left till)" "\<not> asleep AT_start" "\<not> asleep AT_loop"
  "\<not> asleep AT_empty" "\<not> asleep AT_take" "\<not> asleep (AT_check al left)"
  "\<not> asleep (AT_decide al x)" "\<not> asleep (AT_handle al)" "\<not> asleep AT_while" "\<not> asleep AT_end"
  by (simp_all add: asleep_def)

lemma asleep_cases: "asleep pc \<Longrightarrow> pc = AT_wait \<or> (\<exists>al left till. pc = AT_sleep al left till)"
  by (cases pc) auto

lemma alarm_inv_thread:
  assumes inv: "alarm_inv c" and step: "alarm_thread_step w spurious c = Some c'"
  shows "alarm_inv c'"
proof (cases "ac_pc c")
  case AT_take
  then obtain al rest where l: "ac_list c = al # rest"
    using step by (auto simp: alarm_thread_step_def split: list.splits)
  then show ?thesis
    using inv step AT_take
    by (auto simp: alarm_thread_step_def alarm_inv_def alarm_pending_def Let_def split: if_splits)
next
  case (AT_decide al expired)
  show ?thesis
  proof (cases "ac_enabled c \<and> \<not> expired")
    case True
    have longest: "ac_list c \<noteq> [] \<longrightarrow> ac_longest c = Some (last (ac_list c))"
      using inv by (simp add: alarm_inv_def)
    show ?thesis
      using inv step AT_decide True alarm_insert_Returns [OF longest, of al]
      by (auto simp: alarm_thread_step_def alarm_inv_def alarm_pending_def by_time_insert Let_def
          split: if_splits)
  next
    case False
    then show ?thesis
      using inv step AT_decide
      by (cases "ac_enabled c") (auto simp: alarm_thread_step_def alarm_inv_def alarm_pending_def)
  qed
next
  case (AT_sleep al left till)
  then show ?thesis
    using inv step
    by (cases w) (auto simp: alarm_thread_step_def alarm_inv_def alarm_pending_def split: if_splits)
next
  case AT_empty
  then show ?thesis
    using inv step
    by (cases "ac_enabled c"; cases "ac_list c")
      (auto simp: alarm_thread_step_def alarm_inv_def alarm_pending_def)
next
  case (AT_check al left)
  then show ?thesis
    using inv step
    by (cases "ac_enabled c \<and> al_time al = ac_current c")
      (auto simp: alarm_thread_step_def alarm_inv_def alarm_pending_def)
qed (use inv step in \<open>auto simp: alarm_thread_step_def alarm_inv_def alarm_pending_def
    split: if_splits\<close>)

lemma alarm_inv_insert:
  assumes inv: "alarm_inv c" and en: "ac_enabled c" and ins: "main_insert secs msg c = Returns c'"
  shows "alarm_inv c'"
proof -
  let ?al = "\<lparr>al_addr = ac_fresh c, al_seconds = secs, al_time = ac_now c + secs * 1000000000,
    al_message = msg\<rparr>"
  let ?c = "c\<lparr>ac_fresh := Suc (ac_fresh c)\<rparr>"
  have free: "alarm_mutex_free c" using ins by (auto simp: main_insert_def split: if_splits)
  have longest: "ac_list ?c \<noteq> [] \<longrightarrow> ac_longest ?c = Some (last (ac_list ?c))"
    using inv by (simp add: alarm_inv_def)
  from free consider "asleep (ac_pc c)" | "ac_pc c = AT_start" | "ac_pc c = AT_end"
    by (auto simp: alarm_mutex_free_def)
  then show ?thesis
  proof cases
    case 1
    then show ?thesis
      using inv en ins free alarm_insert_Returns [OF longest, of ?al] asleep_cases [of "ac_pc c"]
      by (auto simp: main_insert_def alarm_inv_def alarm_pending_def by_time_insert Let_def
          split: if_splits)
  qed (use inv en ins free alarm_insert_Returns [OF longest, of ?al] in
      \<open>auto simp: main_insert_def alarm_inv_def alarm_pending_def by_time_insert Let_def
         split: if_splits\<close>)
qed

lemma alarm_inv_stop: "alarm_inv c \<Longrightarrow> main_stop c = Returns c' \<Longrightarrow> alarm_inv c'"
  by (cases "ac_pc c"; auto simp: main_stop_def alarm_inv_def alarm_pending_def
      alarm_mutex_free_def split: if_splits)

lemma alarm_inv_tick: "alarm_inv c \<Longrightarrow> alarm_inv (c\<lparr>ac_now := ac_now c + int d\<rparr>)"
  using handled_in_time_later [of "ac_now c" "ac_handled c" "ac_now c + int d"]
  by (cases "ac_pc c"; auto simp: alarm_inv_def alarm_pending_def)

lemma alarm_inv_step: "alarm_inv c \<Longrightarrow> alarm_step c l = Some c' \<Longrightarrow> alarm_inv c'"
  by (cases l) (auto simp: alarm_step_def alarm_inv_tick split: if_splits outcome.splits
      dest: alarm_inv_thread alarm_inv_insert alarm_inv_stop)

interpretation alarm_life: step_invariant alarm_step alarm_inv
  by unfold_locales (rule alarm_inv_step)

lemma alarm_inv_start: "alarm_inv (alarm_start now)"
  by (simp add: alarm_inv_def alarm_start_def alarm_pending_def)

lemmas alarm_reach_inv = alarm_life.inv_reach [OF _ alarm_inv_start]

section \<open>The thread waits for the right alarm\<close>

text \<open>
  For alarms whose time is not negative or \<open>ZERO\<close>: while the thread holds an alarm and
  \<open>current_alarm\<close> is the time of it, no alarm of the list is earlier.
\<close>
fun alarm_awake_at :: "alarm_clock \<Rightarrow> alarm_pc \<Rightarrow> bool" where
  "alarm_awake_at c (AT_check al left) =
     (0 < ac_current c \<and> ac_current c \<le> al_time al \<and>
      (ac_current c = al_time al \<longrightarrow> (\<forall>x \<in> set (ac_list c). al_time al \<le> al_time x)))"
| "alarm_awake_at c (AT_sleep al left till) =
     (0 < ac_current c \<and> ac_current c \<le> al_time al \<and>
      (ac_current c = al_time al \<longrightarrow> (\<forall>x \<in> set (ac_list c). al_time al \<le> al_time x)) \<and>
      (ac_notified c \<or> ac_current c = al_time al))"
| "alarm_awake_at c _ = True"

definition alarm_awake :: "alarm_clock \<Rightarrow> bool" where
  "alarm_awake c \<longleftrightarrow> alarm_inv c \<and>
     ((\<forall>al \<in># ac_accepted c. 0 < al_time al) \<longrightarrow> alarm_awake_at c (ac_pc c))"

lemma alarm_accepted_mono:
  "alarm_inv c \<Longrightarrow> alarm_step c l = Some c' \<Longrightarrow> ac_accepted c \<subseteq># ac_accepted c'"
  by (auto simp: alarm_step_def main_insert_def main_stop_def alarm_thread_step_def
      alarm_insert_def Let_def split: alarm_label.splits if_splits outcome.splits option.splits
      alarm_pc.splits wait_end.splits list.splits)

lemma alarm_listed_accepted: "alarm_inv c \<Longrightarrow> x \<in> set (ac_list c) \<Longrightarrow> x \<in># ac_accepted c"
  by (auto simp: alarm_inv_def alarm_pending_def)

lemma alarm_awake_thread:
  assumes inv: "alarm_inv c" and awake: "alarm_awake_at c (ac_pc c)"
    and pos: "\<forall>al \<in># ac_accepted c. 0 < al_time al"
    and step: "alarm_thread_step w spurious c = Some c'"
  shows "alarm_awake_at c' (ac_pc c')"
proof (cases "ac_pc c")
  case AT_take
  then obtain al rest where l: "ac_list c = al # rest"
    using step by (auto simp: alarm_thread_step_def split: list.splits)
  then have "0 < al_time al" using alarm_listed_accepted [OF inv, of al] pos by simp
  then show ?thesis
    using inv l step AT_take
    by (auto simp: alarm_thread_step_def alarm_inv_def Let_def split: if_splits)
next
  case (AT_decide al expired)
  then show ?thesis
    using step by (auto simp: alarm_thread_step_def split: if_splits outcome.splits)
qed ((use awake step in \<open>auto simp: alarm_thread_step_def
    split: if_splits wait_end.splits\<close>)[1])+

lemma alarm_awake_insert:
  assumes inv: "alarm_inv c" and awake: "alarm_awake_at c (ac_pc c)"
    and pos: "\<forall>al \<in># ac_accepted c'. 0 < al_time al"
    and ins: "main_insert secs msg c = Returns c'"
  shows "alarm_awake_at c' (ac_pc c')"
proof -
  let ?al = "\<lparr>al_addr = ac_fresh c, al_seconds = secs, al_time = ac_now c + secs * 1000000000,
    al_message = msg\<rparr>"
  have free: "alarm_mutex_free c" using ins by (auto simp: main_insert_def split: if_splits)
  have longest: "ac_list (c\<lparr>ac_fresh := Suc (ac_fresh c)\<rparr>) \<noteq> [] \<longrightarrow>
      ac_longest (c\<lparr>ac_fresh := Suc (ac_fresh c)\<rparr>) = Some (last (ac_list (c\<lparr>ac_fresh := Suc (ac_fresh c)\<rparr>)))"
    using inv by (simp add: alarm_inv_def)
  have "?al \<in># ac_accepted c'"
    using ins free alarm_insert_Returns [OF longest, of ?al]
    by (auto simp: main_insert_def Let_def split: if_splits)
  then have "0 < al_time ?al" using pos by blast
  then show ?thesis
    using awake ins free alarm_insert_Returns [OF longest, of ?al]
    by (cases "ac_pc c") (auto simp: main_insert_def alarm_mutex_free_def zero_time_def Let_def
        split: if_splits)
qed

lemma alarm_awake_step: "alarm_awake c \<Longrightarrow> alarm_step c l = Some c' \<Longrightarrow> alarm_awake c'"
proof -
  assume awake: "alarm_awake c" and step: "alarm_step c l = Some c'"
  have inv: "alarm_inv c" using awake by (simp add: alarm_awake_def)
  have "alarm_awake_at c' (ac_pc c')" if pos: "\<forall>al \<in># ac_accepted c'. 0 < al_time al"
  proof -
    have before: "\<forall>al \<in># ac_accepted c. 0 < al_time al"
      using pos alarm_accepted_mono [OF inv step] by (meson mset_subset_eqD)
    then have at: "alarm_awake_at c (ac_pc c)" using awake by (simp add: alarm_awake_def)
    show ?thesis
    proof (cases l)
      case (AL_tick d)
      then show ?thesis using step at by (cases "ac_pc c") (auto simp: alarm_step_def)
    next
      case (AL_insert secs msg)
      then have "main_insert secs msg c = Returns c'"
        using step by (auto simp: alarm_step_def split: if_splits outcome.splits)
      then show ?thesis by (rule alarm_awake_insert [OF inv at pos])
    next
      case AL_stop
      then show ?thesis
        using step at by (cases "ac_pc c") (auto simp: alarm_step_def main_stop_def
            alarm_mutex_free_def split: if_splits)
    next
      case (AL_thread w spurious)
      then show ?thesis using alarm_awake_thread [OF inv at before] step by (simp add: alarm_step_def)
    qed
  qed
  then show ?thesis using alarm_inv_step [OF inv step] by (simp add: alarm_awake_def)
qed

interpretation alarm_awake: step_invariant alarm_step alarm_awake
  by unfold_locales (rule alarm_awake_step)

end
