(* ===== verification/Alarm_Runs.thy ===== *)
theory Alarm_Runs
  imports Alarm_Properties
begin

text \<open>
  What the alarm program promises, two runs in which it is late or stops too early, and the
  reading of its input.
\<close>

section \<open>A run\<close>

lemmas alarm_eval = alarm_step_def alarm_thread_step_def main_insert_def main_stop_def
  alarm_mutex_free_def alarm_insert_def asleep_def zero_time_def alarm_start_def Let_def

lemma replicate_few:
  "replicate 3 x = [x, x, x]" "replicate 5 x = [x, x, x, x, x]"
  "replicate 8 x = [x, x, x, x, x, x, x, x]"
  by (simp_all add: numeral_eq_Suc)

text \<open>An alarm in ten seconds; the thread has taken it and waits.\<close>
definition ten_run :: "alarm_label list" where
  "ten_run = AL_insert 10 ''A'' # replicate 5 (AL_thread Woken False)"

definition ten_alarm :: alarm where
  "ten_alarm = \<lparr>al_addr = 0, al_seconds = 10, al_time = 10000000001, al_message = ''A''\<rparr>"

definition ten_state :: alarm_clock where
  "ten_state =
     \<lparr>ac_list = [], ac_current = 10000000001, ac_enabled = True, ac_longest = Some ten_alarm,
      ac_last = 10000000001, ac_pc = AT_sleep ten_alarm 10000000000 10000000001,
      ac_notified = False, ac_now = 1, ac_fresh = 1, ac_accepted = {#ten_alarm#},
      ac_handled = [], ac_dropped = {#}\<rparr>"

lemma ten_run: "run_steps alarm_step (alarm_start 1) ten_run = Some ten_state"
  by (simp add: ten_run_def ten_state_def ten_alarm_def replicate_few alarm_eval)

lemmas ten_reached = run_steps_reach [OF ten_run]

section \<open>Properties\<close>

text \<open>
  C14: no alarm is lost or handled twice.  In every state of every execution the list is ordered
  by time, and the alarms accepted are, as a multiset, those in the list, the one the alarm
  thread has taken, those handled and those dropped; while the program is enabled none is
  dropped.  An insertion into such a state passes its assertions, puts the alarm behind those
  of the same time and returns the time of the last alarm of the list.
\<close>
theorem alarm_accounted:
  assumes "reach alarm_step (alarm_start now) c"
  shows "by_time (ac_list c) \<and>
    ac_accepted c = mset (ac_list c) + mset (alarm_in_hand (ac_pc c)) +
      mset (map fst (ac_handled c)) + ac_dropped c \<and>
    (ac_enabled c \<longrightarrow> ac_dropped c = {#}) \<and>
    (\<exists>c'. alarm_insert al c = Returns (al_time (last (ac_list c')), c') \<and>
       ac_list c' = insert_by_time al (ac_list c) \<and> by_time (ac_list c') \<and>
       filter (\<lambda>x. al_time x = t) (ac_list c') =
         filter (\<lambda>x. al_time x = t) (ac_list c) @ (if al_time al = t then [al] else []))"
proof -
  have inv: "alarm_inv c" by (rule alarm_reach_inv [OF assms])
  then have order: "by_time (ac_list c)"
    and longest: "ac_list c \<noteq> [] \<longrightarrow> ac_longest c = Some (last (ac_list c))"
    by (simp_all add: alarm_inv_def)
  show ?thesis
    using inv alarm_insert_Returns [OF longest, of al] by_time_insert [OF order]
      filter_insert_by_time [OF order, of t al]
    by (auto simp: alarm_inv_def alarm_pending_def Let_def)
qed

theorem alarm_accounted_witness:
  "ac_accepted ten_state = {#} + {#ten_alarm#} + {#} + {#} \<and> by_time (ac_list ten_state)"
  using alarm_accounted [OF ten_reached] by (simp add: ten_state_def)

text \<open>
  C15: no alarm is handled before its time.
\<close>
theorem alarm_never_early:
  assumes "reach alarm_step (alarm_start now) c" and "(al, t) \<in> set (ac_handled c)"
  shows "al_time al \<le> t \<and> t \<le> ac_now c"
  using alarm_reach_inv [OF assms(1)] assms(2) by (force simp: alarm_inv_def handled_in_time_def)

text \<open>The alarm is handled after its ten seconds.\<close>
definition ten_handled :: alarm_clock where
  "ten_handled = ten_state\<lparr>ac_pc := AT_while, ac_now := 10000000001,
     ac_handled := [(ten_alarm, 10000000001)]\<rparr>"

lemma ten_handled:
  "run_steps alarm_step ten_state
     [AL_tick 10000000000, AL_thread Timed_out False, AL_thread Woken False,
      AL_thread Woken False] = Some ten_handled"
  by (simp add: ten_handled_def ten_state_def alarm_eval)

theorem alarm_never_early_witness:
  "(ten_alarm, 10000000001) \<in> set (ac_handled ten_handled) \<and> al_time ten_alarm \<le> 10000000001"
proof -
  have "(ten_alarm, 10000000001) \<in> set (ac_handled ten_handled)" by (simp add: ten_handled_def)
  with alarm_never_early [OF reach_trans [OF run_steps_reach [OF ten_handled] ten_reached] this]
  show ?thesis by blast
qed

text \<open>
  C16: the alarm thread never sleeps past an alarm it should look at.  For alarms of positive
  time, whenever the thread sleeps and has not been notified, either it sleeps because the list
  is empty, or it has taken an alarm that is not later than any in the list, and
  \<open>current_alarm\<close> is the time of that alarm, so an earlier one would wake it.
\<close>
theorem alarm_no_missed_wakeup:
  assumes "reach alarm_step (alarm_start now) c" and "\<forall>al \<in># ac_accepted c. 0 < al_time al"
    and "asleep (ac_pc c)" and "\<not> ac_notified c"
  shows "(ac_pc c = AT_wait \<and> ac_list c = [] \<and> ac_current c = 0) \<or>
    (\<exists>al left till. ac_pc c = AT_sleep al left till \<and> ac_current c = al_time al \<and>
       (\<forall>x \<in> set (ac_list c). al_time al \<le> al_time x))"
proof -
  have "alarm_awake (alarm_start now)"
    using alarm_inv_start [of now] by (simp add: alarm_awake_def alarm_start_def)
  with assms(1) have "alarm_awake c" by (rule alarm_awake.inv_reach)
  then show ?thesis
    using assms(2-4) asleep_cases [OF assms(3)]
    by (auto simp: alarm_awake_def alarm_inv_def zero_time_def)
qed

theorem alarm_no_missed_wakeup_witness:
  "\<exists>al left till. ac_pc ten_state = AT_sleep al left till \<and> ac_current ten_state = al_time al"
proof -
  have "\<forall>al \<in># ac_accepted ten_state. 0 < al_time al" and "asleep (ac_pc ten_state)"
    and "\<not> ac_notified ten_state"
    by (simp_all add: ten_state_def ten_alarm_def)
  from alarm_no_missed_wakeup [OF ten_reached this] show ?thesis by (auto simp: ten_state_def)
qed

text \<open>
  A spurious wake-up makes an alarm late.  The loop around \<open>wait_for\<close> waits for the
  \<open>timeleft\<close> it computed at first: in the run of the statement the thread wakes after nine of
  its ten seconds and sleeps for ten seconds more, and at the time of the alarm it can neither
  time out nor is anything in the list that would wake it.
\<close>
theorem alarm_spurious_late:
  "\<exists>c. run_steps alarm_step ten_state
       [AL_tick 9000000000, AL_thread Woken True, AL_thread Woken False, AL_tick 9000000000] = Some c \<and>
     ac_pc c = AT_sleep ten_alarm 10000000000 19000000001 \<and> al_time ten_alarm < ac_now c \<and>
     ac_handled c = [] \<and> alarm_thread_step Timed_out False c = None \<and>
     alarm_thread_step Woken False c = None"
  by (simp add: ten_state_def ten_alarm_def alarm_eval)

text \<open>
  \<open>--wait\<close> can stop the program too early.  \<open>last\<close> is the time of the last alarm of the
  list, and the alarm the thread has taken is not in the list: in the run of the statement an
  alarm in five seconds comes while the thread waits for the one in ten; after five seconds
  \<open>main\<close> does not wait any longer, stops the program, and the alarm in ten seconds is never
  handled.
\<close>
theorem alarm_wait_stops_early:
  "\<exists>c c'. run_steps alarm_step ten_state
       (AL_insert 5 ''B'' # replicate 8 (AL_thread Woken False) @
        [AL_tick 5000000000, AL_thread Timed_out False, AL_thread Woken False,
         AL_thread Woken False]) = Some c \<and>
     \<not> wait_before_stop c \<and>
     run_steps alarm_step c (replicate 5 (AL_thread Woken False) @
        AL_stop # replicate 3 (AL_thread Woken False)) = Some c' \<and>
     ac_pc c' = AT_end \<and> map (al_seconds \<circ> fst) (ac_handled c') = [5] \<and>
     ac_dropped c' = {#ten_alarm#}"
  by (simp add: ten_state_def ten_alarm_def replicate_few alarm_eval wait_before_stop_def)

text \<open>
  The alarm thread ends.  Once the program is disabled, from every reachable state the
  thread alone, without a spurious wake-up, comes to its end, so \<open>scheduler.join()\<close> returns.
\<close>
theorem alarm_thread_ends:
  assumes "reach alarm_step (alarm_start now) c" and "\<not> ac_enabled c"
  shows "\<exists>k c'. run_steps alarm_step c (replicate k (AL_thread Woken False)) = Some c' \<and>
    ac_pc c' = AT_end"
proof -
  have inv: "alarm_inv c" by (rule alarm_reach_inv [OF assms(1)])
  have go: "\<exists>k c'. run_steps alarm_step c (replicate k (AL_thread Woken False)) = Some c' \<and>
      ac_pc c' = AT_end"
    if "run_steps alarm_step c (replicate m (AL_thread Woken False)) = Some d" "ac_pc d = AT_end"
    for m d using that by blast
  show ?thesis
  proof (cases "ac_pc c")
    case AT_start
    then show ?thesis by (intro go [of 3]) (auto simp: alarm_eval assms(2) replicate_few)
  next
    case AT_loop
    then show ?thesis by (intro go [of 2]) (auto simp: alarm_eval assms(2) numeral_eq_Suc)
  next
    case AT_empty
    then show ?thesis by (intro go [of 1]) (auto simp: alarm_eval assms(2))
  next
    case AT_wait
    then show ?thesis
      using inv by (intro go [of 2]) (auto simp: alarm_eval assms(2) numeral_eq_Suc alarm_inv_def)
  next
    case AT_take
    then show ?thesis using inv assms(2) by (simp add: alarm_inv_def)
  next
    case (AT_check al left)
    then show ?thesis by (intro go [of 2]) (auto simp: alarm_eval assms(2) numeral_eq_Suc)
  next
    case (AT_sleep al left till)
    then show ?thesis
      using inv by (intro go [of 3]) (auto simp: alarm_eval assms(2) replicate_few alarm_inv_def)
  next
    case (AT_decide al expired)
    then show ?thesis by (intro go [of 1]) (auto simp: alarm_eval assms(2))
  next
    case (AT_handle al)
    then show ?thesis by (intro go [of 2]) (auto simp: alarm_eval assms(2) numeral_eq_Suc)
  next
    case AT_while
    then show ?thesis by (intro go [of 1]) (auto simp: alarm_eval assms(2))
  next
    case AT_end
    then show ?thesis by (intro go [of 0]) simp_all
  qed
qed

text \<open>The program is stopped while the thread waits for its alarm.\<close>
definition ten_stopped :: alarm_clock where
  "ten_stopped = ten_state\<lparr>ac_enabled := False, ac_notified := True\<rparr>"

theorem alarm_thread_ends_witness:
  "\<exists>k c'. run_steps alarm_step ten_stopped (replicate k (AL_thread Woken False)) = Some c' \<and>
    ac_pc c' = AT_end"
proof -
  have "alarm_step ten_state AL_stop = Some ten_stopped"
    by (simp add: ten_state_def ten_stopped_def alarm_eval)
  from reach_step [of alarm_step, OF ten_reached this] show ?thesis
    by (rule alarm_thread_ends) (simp add: ten_stopped_def)
qed

section \<open>Reading a line\<close>

text \<open>The decimal digits of a number.\<close>
fun decimal :: "nat \<Rightarrow> string" where
  "decimal n = (if n < 10 then [char_of (48 + n)] else decimal (n div 10) @ [char_of (48 + n mod 10)])"

declare decimal.simps [simp del]

lemma digit_value:
  assumes "d < (10 :: nat)"
  shows "is_digit (char_of (48 + d))" and "(of_char (char_of (48 + d)) :: int) = 48 + int d"
proof -
  have code: "(of_char (char_of (48 + d)) :: nat) = 48 + d" using assms by simp
  then show "is_digit (char_of (48 + d))" using assms by (simp add: is_digit_def)
  have "(of_char (char_of (48 + d)) :: int) = int (of_char (char_of (48 + d)))"
    by (simp only: of_nat_of_char)
  with code show "(of_char (char_of (48 + d)) :: int) = 48 + int d" by simp
qed

lemma decimal_digits: "decimal n \<noteq> [] \<and> (\<forall>ch \<in> set (decimal n). is_digit ch)"
proof (induction n rule: decimal.induct)
  case (1 n)
  then show ?case by (subst (1 2) decimal.simps) (auto simp: digit_value(1))
qed

lemma decimal_value_snoc: "decimal_value (ds @ [ch]) = 10 * decimal_value ds + (of_char ch - 48)"
  by (simp add: decimal_value_def)

lemma decimal_value_decimal: "decimal_value (decimal n) = int n"
proof (induction n rule: decimal.induct)
  case (1 n)
  show ?case
  proof (cases "n < 10")
    case True
    then show ?thesis by (subst decimal.simps) (simp add: decimal_value_def digit_value(2))
  next
    case False
    then have "decimal_value (decimal n) = 10 * int (n div 10) + int (n mod 10)"
      using 1 by (subst decimal.simps) (simp add: decimal_value_snoc digit_value(2))
    then show ?thesis by (metis mult_div_mod_eq of_nat_add of_nat_mult of_nat_numeral)
  qed
qed

text \<open>
  C17: reading a line gives back what was written.  A line made of a number that fits
  \<open>time_t\<close>, a blank and a message is read as that number and that message, where \<open>trim\<close> removes
  the blank, and a line with nothing after the number is refused.
\<close>
theorem parse_line_roundtrip:
  assumes "n < 2 ^ 63" and "trim ('' '' @ msg) = msg"
  shows "(3 < length (decimal n @ '' '' @ msg) \<longrightarrow>
      parse_line trim (decimal n @ '' '' @ msg) = Some (int n, msg)) \<and>
    parse_line trim (decimal n) = None"
proof -
  obtain d ds where dec: "decimal n = d # ds" and digits: "is_digit d" "\<forall>ch \<in> set ds. is_digit ch"
    using decimal_digits [of n] by (cases "decimal n") auto
  have blank: "is_space (CHR '' '')" "\<not> is_digit (CHR '' '')" by (simp_all add: is_space_def is_digit_def)
  have nonspace: "\<not> is_space d" "d \<noteq> CHR ''-''" "d \<noteq> CHR ''+''"
    using digits(1) by (auto simp: is_space_def is_digit_def)
  have take: "takeWhile is_digit (decimal n @ '' '' @ msg) = decimal n"
    "dropWhile is_digit (decimal n @ '' '' @ msg) = '' '' @ msg"
    using decimal_digits [of n] blank by (simp_all add: takeWhile_append dropWhile_append)
  have all: "takeWhile is_digit (decimal n) = decimal n" "dropWhile is_digit (decimal n) = []"
    using decimal_digits [of n] by (simp_all add: takeWhile_eq_all_conv dropWhile_eq_Nil_conv)
  have "int n < 2 ^ 63" using assms(1) by (metis of_nat_less_iff of_nat_numeral of_nat_power)
  then show ?thesis
    using assms(2) nonspace take all decimal_value_decimal [of n] decimal_digits [of n] dec
    by (auto simp: parse_line_def Let_def)
qed

theorem parse_line_roundtrip_witness:
  "parse_line (dropWhile is_space) (decimal 90 @ '' '' @ ''tea'') = Some (90, ''tea'')"
proof -
  have "(90::nat) < 2 ^ 63" and "dropWhile is_space ('' '' @ ''tea'') = ''tea''"
    by (simp_all add: is_space_def)
  from parse_line_roundtrip [of 90 "dropWhile is_space" "''tea''", OF this] show ?thesis by simp
qed

end
