(* ===== verification/Priority_Scheduler.thy ===== *)
theory Priority_Scheduler
  imports Prelude
begin

text \<open>
  \<open>priority_scheduler.cpp\<close>: an execution context with a priority queue of items, a mutex, a
  condition variable and the flag \<open>stopped_\<close>.  Any thread may post an item or stop the
  scheduler; any number of threads, the runners, are inside \<open>run()\<close>.  \<open>post\<close> and \<open>stop\<close> are
  critical sections and one step each.  \<open>run\<close> is cut where its lock is taken, and between the test
  of its wait and the test of \<open>stopped_\<close>, because the constructor of \<open>executor_type\<close> writes
  \<open>stopped_\<close> without the lock.
\<close>

section \<open>State\<close>

text \<open>An item: \<open>priority_\<close> and the function it executes.\<close>
type_synonym item = "int \<times> nat"

text \<open>
  Where a runner is: it wants the lock at the start of \<open>run\<close>, is at the test of the wait, sleeps
  in it, was woken, is past the wait, executes an item without the lock, wants the lock again,
  has returned, or has taken the top of an empty queue, which is undefined.
\<close>
datatype runner =
  R_enter | R_test | R_asleep | R_woken | R_work | R_execute item | R_relock | R_returned
| R_undefined

record psched =
  ps_mutex :: "nat option"
  ps_queue :: "item list"
  ps_stopped :: bool
  ps_runners :: "runner list"
  ps_posted :: "item multiset"
  ps_started :: "item list"
  ps_finished :: "item multiset"

text \<open>The constructor does not set \<open>stopped_\<close>: its value is an argument.\<close>
definition psched_new :: "bool \<Rightarrow> nat \<Rightarrow> psched" where
  "psched_new stopped n =
     \<lparr>ps_mutex = None, ps_queue = [], ps_stopped = stopped, ps_runners = replicate n R_enter,
      ps_posted = {#}, ps_started = [], ps_finished = {#}\<rparr>"

definition set_runner :: "nat \<Rightarrow> runner \<Rightarrow> psched \<Rightarrow> psched" where
  "set_runner r pc s = s\<lparr>ps_runners := (ps_runners s)[r := pc]\<rparr>"

section \<open>The operations of a client\<close>

text \<open>\<open>executor_type(ctx, pri)\<close>\<close>
definition psched_executor :: "psched \<Rightarrow> psched" where
  "psched_executor s = s\<lparr>ps_stopped := False\<rparr>"

text \<open>
  \<open>notify_one()\<close> wakes one sleeper, which one is the argument \<open>who\<close>; it wakes none only when
  there is none.
\<close>
definition ps_notify_one :: "nat option \<Rightarrow> psched \<Rightarrow> psched option" where
  "ps_notify_one who s =
     (case who of
        None \<Rightarrow> if R_asleep \<in> set (ps_runners s) then None else Some s
      | Some r \<Rightarrow> if r < length (ps_runners s) \<and> ps_runners s ! r = R_asleep
                  then Some (set_runner r R_woken s) else None)"

definition ps_notify_all :: "psched \<Rightarrow> psched" where
  "ps_notify_all s =
     s\<lparr>ps_runners := map (\<lambda>pc. if pc = R_asleep then R_woken else pc) (ps_runners s)\<rparr>"

text \<open>\<open>post(f, a)\<close>, which \<open>dispatch\<close> and \<open>defer\<close> call\<close>
definition psched_post :: "int \<Rightarrow> nat \<Rightarrow> nat option \<Rightarrow> psched \<Rightarrow> psched option" where
  "psched_post pri f who s =
     (if ps_mutex s = None
      then ps_notify_one who
             (s\<lparr>ps_queue := ps_queue s @ [(pri, f)], ps_posted := add_mset (pri, f) (ps_posted s)\<rparr>)
      else None)"

definition psched_stop :: "psched \<Rightarrow> psched option" where
  "psched_stop s =
     (if ps_mutex s = None then Some (ps_notify_all (s\<lparr>ps_stopped := True\<rparr>)) else None)"

section \<open>The loop of a runner\<close>

definition has_work :: "psched \<Rightarrow> bool" where
  "has_work s \<longleftrightarrow> ps_stopped s \<or> ps_queue s \<noteq> []"

definition item_comp :: "item \<Rightarrow> item \<Rightarrow> bool" where
  "item_comp a b \<longleftrightarrow> fst a < fst b"

text \<open>
  \<open>std::priority_queue\<close>: the top is an element that is not less than any other; which one of
  several is not said, so it is the argument \<open>k\<close>.
\<close>
definition pq_top :: "nat \<Rightarrow> item list \<Rightarrow> bool" where
  "pq_top k q \<longleftrightarrow> k < length q \<and> (\<forall>x \<in> set q. \<not> item_comp (q ! k) x)"

text \<open>Runner \<open>r\<close> takes the lock when it is free and goes on at \<open>pc\<close>.\<close>
definition ps_lock :: "nat \<Rightarrow> runner \<Rightarrow> psched \<Rightarrow> psched option" where
  "ps_lock r pc s =
     (if ps_mutex s = None then Some (set_runner r pc (s\<lparr>ps_mutex := Some r\<rparr>)) else None)"

text \<open>Runner \<open>r\<close> gives the lock back and goes on at \<open>pc\<close>.\<close>
definition ps_unlock :: "nat \<Rightarrow> runner \<Rightarrow> psched \<Rightarrow> psched" where
  "ps_unlock r pc s = set_runner r pc (s\<lparr>ps_mutex := None\<rparr>)"

fun run_step :: "nat \<Rightarrow> nat \<Rightarrow> runner \<Rightarrow> psched \<Rightarrow> psched option" where
  "run_step r k R_enter s = ps_lock r R_test s"
| "run_step r k R_test s =
     Some (if has_work s then set_runner r R_work s else ps_unlock r R_asleep s)"
| "run_step r k R_asleep s = None"
| "run_step r k R_woken s = ps_lock r R_test s"
| "run_step r k R_work s =
     (if ps_stopped s then Some (ps_unlock r R_returned s)
      else if ps_queue s = [] then Some (ps_unlock r R_undefined s)
      else if pq_top k (ps_queue s)
      then Some (ps_unlock r (R_execute (ps_queue s ! k))
             (s\<lparr>ps_queue := remove_at k (ps_queue s),
                ps_started := ps_started s @ [ps_queue s ! k]\<rparr>))
      else None)"
| "run_step r k (R_execute p) s =
     Some (set_runner r R_relock (s\<lparr>ps_finished := add_mset p (ps_finished s)\<rparr>))"
| "run_step r k R_relock s = ps_lock r R_test s"
| "run_step r k R_returned s = None"
| "run_step r k R_undefined s = None"

section \<open>The program\<close>

text \<open>
  A step of the program: a client constructs an executor, posts, or stops (a client may be an
  item that is being executed), a runner takes its next step, or a sleeper wakes spuriously.
\<close>
datatype ps_label =
  PS_executor | PS_post int nat "nat option" | PS_stop | PS_run nat nat | PS_spurious nat

fun psched_step :: "psched \<Rightarrow> ps_label \<Rightarrow> psched option" where
  "psched_step s PS_executor = Some (psched_executor s)"
| "psched_step s (PS_post pri f who) = psched_post pri f who s"
| "psched_step s PS_stop = psched_stop s"
| "psched_step s (PS_run r k) =
     (if r < length (ps_runners s) then run_step r k (ps_runners s ! r) s else None)"
| "psched_step s (PS_spurious r) =
     (if r < length (ps_runners s) \<and> ps_runners s ! r = R_asleep
      then Some (set_runner r R_woken s) else None)"

text \<open>The program after its executors have been made.\<close>
definition psched_go :: "psched \<Rightarrow> ps_label \<Rightarrow> psched option" where
  "psched_go s l = (if l = PS_executor then None else psched_step s l)"

end
