(* ===== verification/Scheduler_Runs.thy ===== *)
theory Scheduler_Runs
  imports Scheduler_Properties
begin

text \<open>
  The properties of the priority scheduler: the account of its items, the order in which they
  are started, no lost wakeup, the end of all runners after \<open>stop\<close>, and two runs in which an
  executor that is made late breaks the scheduler.
\<close>

section \<open>Without late executors\<close>

text \<open>A runner past the wait has work, and no runner has taken from an empty queue.\<close>
definition ps_work_ok :: "psched \<Rightarrow> bool" where
  "ps_work_ok s \<longleftrightarrow>
     (R_work \<in> set (ps_runners s) \<longrightarrow> has_work s) \<and> R_undefined \<notin> set (ps_runners s)"

lemma set_runners: "pc \<in> set (xs[r := x]) \<Longrightarrow> pc = x \<or> pc \<in> set xs"
  using set_update_subset_insert [of xs r x] by blast

lemma only_holder_works:
  assumes "ps_lock_ok s" and "r < length (ps_runners s)" and "ps_runners s ! r = R_work"
    and "pc \<noteq> R_work"
  shows "R_work \<notin> set ((ps_runners s)[r := pc])"
proof
  assume "R_work \<in> set ((ps_runners s)[r := pc])"
  then obtain u where "u < length (ps_runners s)" "(ps_runners s)[r := pc] ! u = R_work"
    by (auto simp: in_set_conv_nth)
  with assms have "u \<noteq> r" "ps_runners s ! u = R_work" by (auto simp: nth_list_update split: if_splits)
  with assms \<open>u < length (ps_runners s)\<close> show False
    by (metis holds_lock_def option.inject ps_lock_ok_def)
qed

lemma work_ok_step:
  assumes "ps_lock_ok s" and "ps_work_ok s" and "psched_go s l = Some s'"
  shows "ps_work_ok s'"
proof (cases l)
  case (PS_run r k)
  with assms have r: "r < length (ps_runners s)"
    and step: "run_step r k (ps_runners s ! r) s = Some s'"
    by (auto simp: psched_go_def split: if_splits)
  show ?thesis
  proof (cases "ps_runners s ! r")
    case R_work
    then have "has_work s" using assms(2) r by (metis nth_mem ps_work_ok_def)
    with R_work step assms(2) only_holder_works [OF assms(1) r R_work] show ?thesis
      by (auto simp: ps_work_ok_def has_work_def ps_unlock_def set_runner_def dest!: set_runners
          split: if_splits)
  qed (use step assms(2) in \<open>auto simp: ps_work_ok_def has_work_def ps_lock_def ps_unlock_def
      set_runner_def dest!: set_runners split: if_splits\<close>)
qed (use assms in \<open>auto simp: psched_go_def psched_post_def ps_notify_one_def psched_stop_def
      ps_notify_all_def set_runner_def ps_work_ok_def has_work_def dest!: set_runners
      split: if_splits option.splits\<close>)

lemma go_inv:
  "ps_inv s \<and> ps_work_ok s \<Longrightarrow> psched_go s l = Some s' \<Longrightarrow> ps_inv s' \<and> ps_work_ok s'"
  using work_ok_step [of s l s'] ps.inv_step [of s l s']
  by (auto simp: psched_go_def ps_inv_def split: if_splits)

interpretation psg: step_invariant psched_go "\<lambda>s. ps_inv s \<and> ps_work_ok s"
  by unfold_locales (rule go_inv)

lemma go_new: "ps_inv (psched_new b n) \<and> ps_work_ok (psched_new b n)"
  using ps_inv_new [of b n] by (auto simp: ps_work_ok_def psched_new_def)

section \<open>The account of the items\<close>

text \<open>
  C26: whatever clients and runners do, also with executors made at any time, at most one runner
  is inside the lock, and every item that was posted is in the queue, being executed by exactly
  one runner, or finished: none is lost and none is executed twice.
\<close>
theorem psched_items_accounted:
  assumes "reach psched_step (psched_new b n) s"
  shows "ps_posted s = mset (ps_queue s) + owned executing (ps_runners s) + ps_finished s \<and>
    (\<forall>r u. r < length (ps_runners s) \<and> u < length (ps_runners s) \<and>
       holds_lock (ps_runners s ! r) \<and> holds_lock (ps_runners s ! u) \<longrightarrow> r = u)"
proof -
  have "ps_inv s" by (rule ps.inv_reach [OF assms ps_inv_new])
  then show ?thesis
    unfolding ps_inv_def ps_accounted_def ps_lock_ok_def
    by (metis add.assoc option.inject)
qed

text \<open>Two items posted, the one of higher priority executed.\<close>
definition two_items :: psched where
  "two_items = the (run_steps psched_step (psched_new False 1)
     [PS_post 0 1 None, PS_post 2 3 None, PS_run 0 0, PS_run 0 0, PS_run 0 1])"

lemma two_items_eq:
  "run_steps psched_step (psched_new False 1)
     [PS_post 0 1 None, PS_post 2 3 None, PS_run 0 0, PS_run 0 0, PS_run 0 1] = Some two_items"
  "two_items = \<lparr>ps_mutex = None, ps_queue = [(0, 1)], ps_stopped = False,
     ps_runners = [R_execute (2, 3)], ps_posted = {#(0, 1), (2, 3)#}, ps_started = [(2, 3)],
     ps_finished = {#}\<rparr>"
  by (simp_all add: two_items_def psched_new_def psched_post_def ps_notify_one_def ps_lock_def
      set_runner_def has_work_def pq_top_def item_comp_def ps_unlock_def remove_at_def)

lemma psched_items_accounted_witness:
  "ps_posted two_items =
     mset (ps_queue two_items) + owned executing (ps_runners two_items) + ps_finished two_items \<and>
   ps_queue two_items = [(0, 1)]"
  using psched_items_accounted [OF run_steps_reach [OF two_items_eq(1)]]
  by (simp add: two_items_eq(2))

section \<open>The order of the items\<close>

text \<open>The program when nothing more is posted.\<close>
fun psched_drain :: "psched \<Rightarrow> ps_label \<Rightarrow> psched option" where
  "psched_drain s (PS_post pri f who) = None"
| "psched_drain s l = psched_step s l"

definition drained :: "psched \<Rightarrow> psched \<Rightarrow> bool" where
  "drained s0 s \<longleftrightarrow>
     (\<exists>new. ps_started s = ps_started s0 @ new \<and>
        mset new + mset (ps_queue s) = mset (ps_queue s0) \<and>
        sorted_wrt (\<lambda>a b. fst b \<le> fst a) new \<and>
        (\<forall>a \<in> set new. \<forall>b \<in> set (ps_queue s). fst b \<le> fst a))"

lemma drain_step:
  assumes "psched_drain s l = Some s'"
  shows "(ps_queue s' = ps_queue s \<and> ps_started s' = ps_started s) \<or>
    (\<exists>k. pq_top k (ps_queue s) \<and> ps_queue s' = remove_at k (ps_queue s) \<and>
         ps_started s' = ps_started s @ [ps_queue s ! k])"
proof (cases l)
  case (PS_run r k)
  with assms show ?thesis
    by (cases "ps_runners s ! r")
      (auto simp: ps_lock_def ps_unlock_def set_runner_def split: if_splits)
qed (use assms in \<open>auto simp: psched_executor_def psched_stop_def ps_notify_all_def set_runner_def
      split: if_splits\<close>)

lemma drained_step:
  assumes "drained s0 s" and "psched_drain s l = Some s'"
  shows "drained s0 s'"
  using drain_step [OF assms(2)]
proof (elim disjE conjE exE)
  assume "ps_queue s' = ps_queue s" "ps_started s' = ps_started s"
  with assms(1) show ?thesis by (simp add: drained_def)
next
  fix k
  assume k: "pq_top k (ps_queue s)" and q: "ps_queue s' = remove_at k (ps_queue s)"
    and st: "ps_started s' = ps_started s @ [ps_queue s ! k]"
  obtain new where new: "ps_started s = ps_started s0 @ new"
    "mset new + mset (ps_queue s) = mset (ps_queue s0)"
    "sorted_wrt (\<lambda>a b. fst b \<le> fst a) new"
    "\<forall>a \<in> set new. \<forall>b \<in> set (ps_queue s). fst b \<le> fst a"
    using assms(1) by (auto simp: drained_def)
  have len: "k < length (ps_queue s)" using k by (simp add: pq_top_def)
  have "\<forall>b \<in> set (ps_queue s). fst b \<le> fst (ps_queue s ! k)"
    using k by (auto simp: pq_top_def item_comp_def not_less)
  moreover have "set (ps_queue s') \<subseteq> set (ps_queue s)"
    using q set_remove_at_subset by metis
  moreover have "mset (new @ [ps_queue s ! k]) + mset (ps_queue s') = mset (ps_queue s0)"
    by (simp add: q new(2) [symmetric] mset_remove_at [OF len, symmetric])
  ultimately show ?thesis
    unfolding drained_def using st new len
    by (intro exI [of _ "new @ [ps_queue s ! k]"]) (auto simp: sorted_wrt_append)
qed

lemma drained_refl: "drained s s"
  unfolding drained_def by (intro exI [of _ "[]"]) simp

lemma drained_inv: "step_invariant psched_drain (drained s0)"
  by unfold_locales (rule drained_step)

text \<open>
  C27: from any moment on, as long as nothing more is posted, the items leave the queue in the
  order of descending priority, whichever runners take them: those started since are sorted,
  none that is still in the queue has a higher priority than one of them, and together they are
  what was in the queue.
\<close>
theorem psched_priority_order:
  assumes "reach psched_drain s0 s"
  shows "\<exists>new. ps_started s = ps_started s0 @ new \<and>
    mset new + mset (ps_queue s) = mset (ps_queue s0) \<and>
    sorted_wrt (\<lambda>a b. fst b \<le> fst a) new \<and>
    (\<forall>a \<in> set new. \<forall>b \<in> set (ps_queue s). fst b \<le> fst a)"
  using step_invariant.inv_reach [OF drained_inv assms drained_refl] by (simp add: drained_def)

definition three_posted :: psched where
  "three_posted = (psched_new False 1)\<lparr>ps_queue := [(0, 1), (2, 3), (0, 11)],
     ps_posted := {#(0, 1), (2, 3), (0, 11)#}\<rparr>"

lemma psched_priority_order_witness:
  "\<exists>s. run_steps psched_drain three_posted [PS_run 0 0, PS_run 0 0, PS_run 0 1] = Some s \<and>
     ps_started s = [(2, 3)] \<and>
     (\<forall>a \<in> set (ps_started s). \<forall>b \<in> set (ps_queue s). fst b \<le> fst a)"
proof -
  have run: "run_steps psched_drain three_posted [PS_run 0 0, PS_run 0 0, PS_run 0 1] =
      Some (three_posted\<lparr>ps_queue := [(0, 1), (0, 11)], ps_runners := [R_execute (2, 3)],
        ps_started := [(2, 3)]\<rparr>)"
    by (simp add: three_posted_def psched_new_def ps_lock_def set_runner_def has_work_def
        pq_top_def item_comp_def ps_unlock_def remove_at_def)
  from psched_priority_order [OF run_steps_reach [OF run]] run show ?thesis
    by (simp add: three_posted_def psched_new_def)
qed

section \<open>No item is slept over\<close>

text \<open>
  C28: no wakeup is lost.  A runner sleeps only when the scheduler is not stopped, and then for
  every item in the queue some other runner is on its way to the queue and not busy executing.
\<close>
theorem psched_no_sleep_over_items:
  assumes "reach psched_step (psched_new b n) s" and "R_asleep \<in> set (ps_runners s)"
  shows "\<not> ps_stopped s \<and> length (ps_queue s) \<le> length (filter heading (ps_runners s))"
  using ps.inv_reach [OF assms(1) ps_inv_new] assms(2) by (simp add: ps_inv_def ps_awake_def)

text \<open>Two runners asleep, one item posted.\<close>
definition one_woken :: psched where
  "one_woken = (psched_new False 2)\<lparr>ps_queue := [(0, 1)], ps_runners := [R_asleep, R_woken],
     ps_posted := {#(0, 1)#}\<rparr>"

lemma one_woken_run:
  "run_steps psched_step (psched_new False 2)
     [PS_run 0 0, PS_run 0 0, PS_run 1 0, PS_run 1 0, PS_post 0 1 (Some 1)] = Some one_woken"
  by (simp add: one_woken_def psched_new_def psched_post_def ps_notify_one_def ps_lock_def
      set_runner_def has_work_def ps_unlock_def numeral_2_eq_2)

lemma psched_no_sleep_over_items_witness:
  "length (ps_queue one_woken) = 1 \<and> length (filter heading (ps_runners one_woken)) \<ge> 1"
  using psched_no_sleep_over_items [OF run_steps_reach [OF one_woken_run]]
  by (simp add: one_woken_def)

section \<open>Stopping\<close>

text \<open>How many steps a runner of a stopped scheduler still takes.\<close>
fun steps_left :: "runner \<Rightarrow> nat" where
  "steps_left (R_execute p) = 4"
| "steps_left R_test = 2"
| "steps_left R_work = 1"
| "steps_left R_returned = 0"
| "steps_left R_undefined = 0"
| "steps_left pc = 3"

lemma sum_update_less:
  "r < length xs \<Longrightarrow> f x < f (xs ! r) \<Longrightarrow> sum_list (map f (xs[r := x])) < (sum_list (map f xs) :: nat)"
proof (induction xs arbitrary: r)
  case (Cons y ys)
  then show ?case by (cases r) auto
qed simp

text \<open>Some runner can go on, and the rest of the scheduler stays as it is.\<close>
lemma stopped_progress:
  assumes "ps_inv s" and "ps_stopped s" and "ps_work_ok s"
    and "\<exists>pc \<in> set (ps_runners s). pc \<noteq> R_returned"
  obtains r s' where "psched_go s (PS_run r 0) = Some s'" and "ps_stopped s'"
    and "ps_queue s' = ps_queue s" and "ps_started s' = ps_started s"
    and "sum_list (map steps_left (ps_runners s')) < sum_list (map steps_left (ps_runners s))"
proof -
  have lock: "ps_lock_ok s" using assms(1) by (simp add: ps_inv_def)
  have awake: "R_asleep \<notin> set (ps_runners s)" "R_undefined \<notin> set (ps_runners s)"
    using assms(1,2,3) by (auto simp: ps_inv_def ps_awake_def ps_work_ok_def)
  obtain r where r: "r < length (ps_runners s)" "ps_runners s ! r \<noteq> R_returned"
    "ps_mutex s = None \<or> holds_lock (ps_runners s ! r)"
  proof (cases "ps_mutex s")
    case None
    with assms(4) that show ?thesis by (auto simp: in_set_conv_nth)
  next
    case (Some u)
    with lock that [of u] show ?thesis by (auto simp: ps_lock_ok_def holds_lock_def)
  qed
  have pc: "ps_runners s ! r \<noteq> R_asleep" "ps_runners s ! r \<noteq> R_undefined"
    using awake r(1) by (metis nth_mem)+
  have "\<exists>s'. run_step r 0 (ps_runners s ! r) s = Some s' \<and> ps_stopped s' \<and>
      ps_queue s' = ps_queue s \<and> ps_started s' = ps_started s \<and>
      (\<exists>x. ps_runners s' = (ps_runners s)[r := x] \<and> steps_left x < steps_left (ps_runners s ! r))"
    using r pc assms(2)
    by (cases "ps_runners s ! r")
      (auto simp: ps_lock_def ps_unlock_def set_runner_def has_work_def holds_lock_def)
  then obtain u x where u: "run_step r 0 (ps_runners s ! r) s = Some u" "ps_stopped u"
      "ps_queue u = ps_queue s" "ps_started u = ps_started s"
      "ps_runners u = (ps_runners s)[r := x]" "steps_left x < steps_left (ps_runners s ! r)"
    by blast
  from r(1) u(1) have "psched_go s (PS_run r 0) = Some u" by (simp add: psched_go_def)
  from that [OF this u(2,3,4)] sum_update_less [OF r(1), of steps_left, OF u(6)] u(5)
  show ?thesis by simp
qed

lemma stopped_ends:
  assumes "ps_inv s \<and> ps_work_ok s" and "ps_stopped s"
  shows "\<exists>s'. reach psched_go s s' \<and> (\<forall>pc \<in> set (ps_runners s'). pc = R_returned) \<and>
    ps_queue s' = ps_queue s \<and> ps_started s' = ps_started s"
  using assms
proof (induction "sum_list (map steps_left (ps_runners s))" arbitrary: s rule: less_induct)
  case less
  show ?case
  proof (cases "\<exists>pc \<in> set (ps_runners s). pc \<noteq> R_returned")
    case False
    then show ?thesis by (intro exI [of _ s]) auto
  next
    case True
    from less.prems have "ps_inv s" "ps_work_ok s" by auto
    from stopped_progress [OF this(1) less.prems(2) this(2) True]
    obtain r u where u: "psched_go s (PS_run r 0) = Some u" "ps_stopped u"
      "ps_queue u = ps_queue s" "ps_started u = ps_started s"
      "sum_list (map steps_left (ps_runners u)) < sum_list (map steps_left (ps_runners s))" .
    from less.hyps [OF u(5) psg.inv_step [OF less.prems(1) u(1)] u(2)] u
    show ?thesis by (metis reach_one reach_trans)
  qed
qed

text \<open>
  Without late executors, a stopped scheduler ends: from every state in which \<open>stopped_\<close> is
  set, the items being executed can be finished and every runner returns, none of them has ever
  taken from an empty queue, and the items still in the queue stay there unexecuted.
\<close>
theorem psched_stop_ends:
  assumes "reach psched_go (psched_new b n) s" and "ps_stopped s"
  shows "\<exists>s'. reach psched_go s s' \<and> (\<forall>pc \<in> set (ps_runners s'). pc = R_returned) \<and>
    ps_queue s' = ps_queue s \<and> ps_started s' = ps_started s"
  by (rule stopped_ends [OF psg.inv_reach [OF assms(1) go_new] assms(2)])

text \<open>One runner asleep, the scheduler stopped.\<close>
definition one_stopped :: psched where
  "one_stopped = (psched_new False 1)\<lparr>ps_stopped := True, ps_runners := [R_woken]\<rparr>"

lemma one_stopped_run:
  "run_steps psched_go (psched_new False 1) [PS_run 0 0, PS_run 0 0, PS_stop] = Some one_stopped"
  by (simp add: one_stopped_def psched_go_def psched_new_def psched_stop_def ps_notify_all_def
      ps_lock_def set_runner_def has_work_def ps_unlock_def)

lemma psched_stop_ends_witness:
  "\<exists>s'. reach psched_go one_stopped s' \<and> (\<forall>pc \<in> set (ps_runners s'). pc = R_returned)"
  using psched_stop_ends [OF run_steps_reach [OF one_stopped_run]]
  by (auto simp: one_stopped_def)

section \<open>Late executors\<close>

text \<open>
  \<open>get_executor\<close> clears \<open>stopped_\<close>, without the lock.  Made after \<open>stop()\<close> and before the
  runner has seen the flag, an executor undoes the stop: the runner sleeps and \<open>run()\<close> does not
  return.  Made between the two tests of a runner, it lets the runner take the top of an empty
  queue, which is undefined.
\<close>
theorem psched_late_executor:
  "\<exists>s. run_steps psched_step (psched_new False 1)
       [PS_run 0 0, PS_run 0 0, PS_stop, PS_executor, PS_run 0 0, PS_run 0 0] = Some s \<and>
     ps_runners s = [R_asleep] \<and>
   (\<exists>u. run_steps psched_step (psched_new False 1)
       [PS_stop, PS_run 0 0, PS_run 0 0, PS_executor, PS_run 0 0] = Some u \<and>
     ps_runners u = [R_undefined])"
  by (simp add: psched_new_def psched_stop_def psched_executor_def ps_notify_all_def ps_lock_def
      set_runner_def has_work_def ps_unlock_def)

end
