(* ===== verification/Spsc_Program.thy ===== *)
theory Spsc_Program
  imports Prelude
begin

text \<open>
  \<open>lockfree_spsc_queue.cpp\<close>: a producer pushes the numbers from 1 to \<open>iterations\<close> into a bounded
  queue, a consumer pops until the flag \<open>done\<close> is set and then until the queue is empty; the main
  thread joins the producer, sets the flag, joins the consumer and asserts that both counted the
  same.  The queue, \<open>boost::lockfree::spsc_queue\<close>, is a parameter.
\<close>

section \<open>The queue\<close>

record 'q spsc =
  sq_push :: "nat \<Rightarrow> 'q \<Rightarrow> 'q option"
  sq_pop :: "'q \<Rightarrow> (nat \<times> 'q) option"

text \<open>
  What boost documents: \<open>push\<close> appends unless the queue is full (\<open>false\<close> is \<open>None\<close>), \<open>pop\<close> takes
  the first element unless there is none; there is room for at least one element.
\<close>
definition spsc_contract :: "'q spsc \<Rightarrow> ('q \<Rightarrow> nat list) \<Rightarrow> bool" where
  "spsc_contract Q items \<longleftrightarrow>
     (\<forall>v q q'. sq_push Q v q = Some q' \<longrightarrow> items q' = items q @ [v]) \<and>
     (\<forall>v q. sq_push Q v q = None \<longrightarrow> items q \<noteq> []) \<and>
     (\<forall>q. sq_pop Q q = None \<longleftrightarrow> items q = []) \<and>
     (\<forall>v q q'. sq_pop Q q = Some (v, q') \<longrightarrow> items q = v # items q')"

text \<open>A list with a capacity.\<close>
definition bounded_list :: "nat \<Rightarrow> nat list spsc" where
  "bounded_list capacity =
     \<lparr>sq_push = (\<lambda>v q. if length q < capacity then Some (q @ [v]) else None),
      sq_pop = (\<lambda>q. case q of [] \<Rightarrow> None | v # q' \<Rightarrow> Some (v, q'))\<rparr>"

lemma bounded_list_contract: "0 < capacity \<Longrightarrow> spsc_contract (bounded_list capacity) (\<lambda>q. q)"
  by (auto simp: spsc_contract_def bounded_list_def split: if_splits list.splits)

section \<open>The threads\<close>

text \<open>
  The producer is at the test of its loop with \<open>i\<close>, at \<open>push(value)\<close>, or has ended; the consumer
  at \<open>while (!done)\<close>, in the loop of pops inside it, in the one behind it, or has ended; the main
  thread joins the producer, joins the consumer, or has come to the assertion.
\<close>
datatype p_pc = P_loop nat | P_push nat nat | P_end
datatype c_pc = C_test | C_pop | C_drain | C_end
datatype m_pc = M_producer | M_consumer | M_assert

record 'q spsc_program =
  sp_queue :: 'q
  sp_done :: bool
  sp_producer_count :: nat
  sp_consumer_count :: nat
  sp_producer :: p_pc
  sp_consumer :: c_pc
  sp_main :: m_pc
  sp_consumed :: "nat list"

definition spsc_start :: "'q \<Rightarrow> 'q spsc_program" where
  "spsc_start q =
     \<lparr>sp_queue = q, sp_done = False, sp_producer_count = 0, sp_consumer_count = 0,
      sp_producer = P_loop 0, sp_consumer = C_test, sp_main = M_producer, sp_consumed = []\<rparr>"

fun producer_step :: "nat \<Rightarrow> 'q spsc \<Rightarrow> 'q spsc_program \<Rightarrow> 'q spsc_program option" where
  "producer_step iterations Q s =
     (case sp_producer s of
        P_loop i \<Rightarrow>
          (if i \<noteq> iterations
           then Some (s\<lparr>sp_producer_count := Suc (sp_producer_count s),
                        sp_producer := P_push i (Suc (sp_producer_count s))\<rparr>)
           else Some (s\<lparr>sp_producer := P_end\<rparr>))
      | P_push i value \<Rightarrow>
          (case sq_push Q value (sp_queue s) of
             None \<Rightarrow> Some s
           | Some q \<Rightarrow> Some (s\<lparr>sp_queue := q, sp_producer := P_loop (Suc i)\<rparr>))
      | P_end \<Rightarrow> None)"

text \<open>One \<open>pop\<close> of the consumer: it counts, or goes on at \<open>pc\<close> when the queue is empty.\<close>
definition consumer_pop :: "'q spsc \<Rightarrow> c_pc \<Rightarrow> 'q spsc_program \<Rightarrow> 'q spsc_program" where
  "consumer_pop Q pc s =
     (case sq_pop Q (sp_queue s) of
        None \<Rightarrow> s\<lparr>sp_consumer := pc\<rparr>
      | Some (v, q) \<Rightarrow> s\<lparr>sp_queue := q, sp_consumer_count := Suc (sp_consumer_count s),
                         sp_consumed := sp_consumed s @ [v]\<rparr>)"

fun consumer_step :: "'q spsc \<Rightarrow> 'q spsc_program \<Rightarrow> 'q spsc_program option" where
  "consumer_step Q s =
     (case sp_consumer s of
        C_test \<Rightarrow> Some (s\<lparr>sp_consumer := (if \<not> sp_done s then C_pop else C_drain)\<rparr>)
      | C_pop \<Rightarrow> Some (consumer_pop Q C_test s)
      | C_drain \<Rightarrow> Some (consumer_pop Q C_end s)
      | C_end \<Rightarrow> None)"

fun main_step :: "'q spsc_program \<Rightarrow> 'q spsc_program option" where
  "main_step s =
     (case sp_main s of
        M_producer \<Rightarrow> if sp_producer s = P_end
                      then Some (s\<lparr>sp_done := True, sp_main := M_consumer\<rparr>) else None
      | M_consumer \<Rightarrow> if sp_consumer s = C_end then Some (s\<lparr>sp_main := M_assert\<rparr>) else None
      | M_assert \<Rightarrow> None)"

datatype sp_label = SP_producer | SP_consumer | SP_main

fun spsc_step :: "nat \<Rightarrow> 'q spsc \<Rightarrow> 'q spsc_program \<Rightarrow> sp_label \<Rightarrow> 'q spsc_program option" where
  "spsc_step iterations Q s SP_producer = producer_step iterations Q s"
| "spsc_step iterations Q s SP_consumer = consumer_step Q s"
| "spsc_step iterations Q s SP_main = main_step s"

section \<open>The invariant\<close>

text \<open>How many numbers have been pushed.\<close>
fun pushed :: "nat \<Rightarrow> p_pc \<Rightarrow> nat" where
  "pushed iterations (P_loop i) = i"
| "pushed iterations (P_push i v) = i"
| "pushed iterations P_end = iterations"

text \<open>What the producer's counter says.\<close>
fun counts :: "nat \<Rightarrow> nat \<Rightarrow> p_pc \<Rightarrow> bool" where
  "counts iterations k (P_loop i) \<longleftrightarrow> k = i"
| "counts iterations k (P_push i v) \<longleftrightarrow> k = Suc i \<and> v = Suc i \<and> i < iterations"
| "counts iterations k P_end \<longleftrightarrow> k = iterations"

definition spsc_inv :: "nat \<Rightarrow> ('q \<Rightarrow> nat list) \<Rightarrow> 'q spsc_program \<Rightarrow> bool" where
  "spsc_inv iterations items s \<longleftrightarrow>
     sp_consumed s @ items (sp_queue s) = map Suc [0..<pushed iterations (sp_producer s)] \<and>
     counts iterations (sp_producer_count s) (sp_producer s) \<and>
     pushed iterations (sp_producer s) \<le> iterations \<and>
     sp_consumer_count s = length (sp_consumed s) \<and>
     (sp_done s \<longrightarrow> sp_producer s = P_end) \<and> (sp_done s \<longleftrightarrow> sp_main s \<noteq> M_producer) \<and>
     (sp_consumer s = C_drain \<or> sp_consumer s = C_end \<longrightarrow> sp_done s) \<and>
     (sp_consumer s = C_end \<longrightarrow> items (sp_queue s) = []) \<and>
     (sp_main s = M_assert \<longrightarrow> sp_consumer s = C_end)"

lemma spsc_contractD:
  assumes "spsc_contract Q items"
  shows "sq_push Q v q = Some q' \<Longrightarrow> items q' = items q @ [v]"
    and "sq_push Q v q = None \<Longrightarrow> items q \<noteq> []"
    and "sq_pop Q q = None \<longleftrightarrow> items q = []"
    and "sq_pop Q q = Some (v, q') \<Longrightarrow> items q = v # items q'"
  using assms by (auto simp: spsc_contract_def)

lemma spsc_inv_step:
  assumes Q: "spsc_contract Q items" and inv: "spsc_inv n items s"
    and step: "spsc_step n Q s l = Some s'"
  shows "spsc_inv n items s'"
proof (cases l)
  case SP_producer
  then show ?thesis
    using inv step spsc_contractD(1) [OF Q, of _ "sp_queue s"]
    by (cases "sp_producer s")
      (auto simp: spsc_inv_def simp flip: append_assoc split: if_splits option.splits)
next
  case SP_consumer
  then show ?thesis
    using inv step spsc_contractD(3,4) [OF Q, of "sp_queue s"]
    by (cases "sp_consumer s"; cases "sq_pop Q (sp_queue s)")
      (auto simp: spsc_inv_def consumer_pop_def split: if_splits)
next
  case SP_main
  then show ?thesis
    using inv step by (cases "sp_main s") (auto simp: spsc_inv_def split: if_splits)
qed

section \<open>The end\<close>

text \<open>What is left to do; the consumer spins while \<open>done\<close> is not set.\<close>
fun consumer_left :: "bool \<Rightarrow> c_pc \<Rightarrow> nat" where
  "consumer_left False C_test = 1"
| "consumer_left True C_test = 2"
| "consumer_left True C_pop = 3"
| "consumer_left True C_drain = 1"
| "consumer_left _ _ = 0"

fun producer_left :: "nat \<Rightarrow> p_pc \<Rightarrow> nat" where
  "producer_left n (P_loop i) = 2 * (n - i) + 1"
| "producer_left n (P_push i v) = 2 * (n - i)"
| "producer_left n P_end = 0"

fun main_left :: "m_pc \<Rightarrow> nat" where
  "main_left M_producer = 9"
| "main_left M_consumer = 1"
| "main_left M_assert = 0"

definition spsc_left :: "nat \<Rightarrow> 'q spsc_program \<Rightarrow> nat" where
  "spsc_left n s = producer_left n (sp_producer s) + (n - length (sp_consumed s)) +
     consumer_left (sp_done s) (sp_consumer s) + main_left (sp_main s)"

lemma spsc_progress:
  assumes Q: "spsc_contract Q items" and inv: "spsc_inv n items s" and "sp_main s \<noteq> M_assert"
  obtains l s' where "spsc_step n Q s l = Some s'" and "spsc_left n s' < spsc_left n s"
proof -
  have len: "length (sp_consumed s) + length (items (sp_queue s)) =
      pushed n (sp_producer s)" and le: "pushed n (sp_producer s) \<le> n"
    using inv by (auto simp: spsc_inv_def dest!: arg_cong [of _ _ length])
  have pop: "\<exists>s'. spsc_step n Q s SP_consumer = Some s' \<and> spsc_left n s' < spsc_left n s"
    if c: "sp_consumer s = C_pop \<or> sp_consumer s = C_drain" and "items (sp_queue s) \<noteq> []"
  proof -
    from that(2) spsc_contractD(3) [OF Q] obtain v q where
      vq: "sq_pop Q (sp_queue s) = Some (v, q)" by fastforce
    moreover from len le that(2) have "length (sp_consumed s) < n" by (cases "items (sp_queue s)") auto
    ultimately show ?thesis using c by (auto simp: spsc_left_def consumer_pop_def)
  qed
  show ?thesis
  proof (cases "sp_done s")
    case True
    have "\<exists>l s'. spsc_step n Q s l = Some s' \<and> spsc_left n s' < spsc_left n s"
    proof (cases "sp_consumer s = C_end \<or> sp_consumer s = C_test")
      case idle: True
      with True inv assms(3) show ?thesis
        by (intro exI [of _ "if sp_consumer s = C_end then SP_main else SP_consumer"])
          (cases "sp_main s"; auto simp: spsc_inv_def spsc_left_def)
    next
      case False
      then have c: "sp_consumer s = C_pop \<or> sp_consumer s = C_drain"
        by (cases "sp_consumer s") auto
      show ?thesis
      proof (cases "items (sp_queue s) = []")
        case empty: True
        with c True spsc_contractD(3) [OF Q, of "sp_queue s"] show ?thesis
          by (intro exI [of _ SP_consumer]) (auto simp: spsc_left_def consumer_pop_def)
      qed (use pop [OF c] in blast)
    qed
    with that show ?thesis by blast
  next
    case False
    then have m: "sp_main s = M_producer" using inv by (simp add: spsc_inv_def)
    have "\<exists>l s'. spsc_step n Q s l = Some s' \<and> spsc_left n s' < spsc_left n s"
    proof (cases "sp_producer s")
      case (P_loop i)
      with le show ?thesis
        by (intro exI [of _ SP_producer]) (auto simp: spsc_left_def)
    next
      case (P_push i v)
      show ?thesis
      proof (cases "sq_push Q v (sp_queue s)")
        case None
        then have full: "items (sp_queue s) \<noteq> []" using spsc_contractD(2) [OF Q] by blast
        have "sp_consumer s = C_test \<or> sp_consumer s = C_pop"
          using inv False by (cases "sp_consumer s") (auto simp: spsc_inv_def)
        then show ?thesis
        proof
          assume "sp_consumer s = C_test"
          then show ?thesis
            using False by (intro exI [of _ SP_consumer]) (auto simp: spsc_left_def)
        qed (use pop full in blast)
      next
        case (Some q)
        with P_push inv show ?thesis
          by (intro exI [of _ SP_producer]) (auto simp: spsc_left_def spsc_inv_def)
      qed
    next
      case P_end
      with m False show ?thesis
        by (intro exI [of _ SP_main]) (cases "sp_consumer s"; auto simp: spsc_left_def)
    qed
    with that show ?thesis by blast
  qed
qed

lemma spsc_ends:
  assumes Q: "spsc_contract Q items" and "spsc_inv n items s"
  shows "\<exists>s'. reach (spsc_step n Q) s s' \<and> sp_main s' = M_assert"
  using assms(2)
proof (induction "spsc_left n s" arbitrary: s rule: less_induct)
  case less
  show ?case
  proof (cases "sp_main s = M_assert")
    case True
    then show ?thesis by (intro exI [of _ s]) simp
  next
    case False
    from spsc_progress [OF Q less.prems False] obtain l u where
      u: "spsc_step n Q s l = Some u" "spsc_left n u < spsc_left n s" .
    from less.hyps [OF u(2) spsc_inv_step [OF Q less.prems u(1)]]
    show ?thesis using reach_one [of "spsc_step n Q", OF u(1)] reach_trans by metis
  qed
qed

text \<open>
  C29: every number the producer pushed arrives, once and in order.  For every queue that keeps the
  documented contract, in every reachable state what was consumed is a prefix of \<open>1, 2, 3, ...\<close>,
  the program can go on to its end, and at the end all numbers up to \<open>iterations\<close> have been
  consumed and the asserted equality of the counters holds.
\<close>
theorem spsc_all_consumed:
  assumes "spsc_contract Q items" and "items q = []" and "reach (spsc_step n Q) (spsc_start q) s"
  shows "(\<exists>k \<le> n. sp_consumed s = map Suc [0..<k]) \<and>
    (\<exists>s'. reach (spsc_step n Q) s s' \<and> sp_main s' = M_assert) \<and>
    (sp_main s = M_assert \<longrightarrow>
       sp_consumed s = map Suc [0..<n] \<and> sp_producer_count s = sp_consumer_count s)"
proof -
  have inv: "spsc_inv n items s"
  proof (rule step_invariant.inv_reach [OF _ assms(3)])
    show "step_invariant (spsc_step n Q) (spsc_inv n items)"
      by unfold_locales (rule spsc_inv_step [OF assms(1)])
    show "spsc_inv n items (spsc_start q)"
      using assms(2) by (simp add: spsc_inv_def spsc_start_def)
  qed
  then have all: "sp_consumed s @ items (sp_queue s) = map Suc [0..<pushed n (sp_producer s)]"
    and le: "pushed n (sp_producer s) \<le> n" by (simp_all add: spsc_inv_def)
  from all have "sp_consumed s = take (length (sp_consumed s)) (map Suc [0..<pushed n (sp_producer s)])"
    by (metis append_eq_conv_conj)
  moreover from all have "length (sp_consumed s) \<le> pushed n (sp_producer s)"
    by (metis le_add1 length_append length_map length_upt diff_zero)
  ultimately have "sp_consumed s = map Suc [0..<length (sp_consumed s)]"
    by (simp add: take_map)
  with le \<open>length (sp_consumed s) \<le> pushed n (sp_producer s)\<close>
  have prefix: "\<exists>k \<le> n. sp_consumed s = map Suc [0..<k]" by (meson order_trans)
  have "sp_consumed s = map Suc [0..<n] \<and> sp_producer_count s = sp_consumer_count s"
    if "sp_main s = M_assert"
    using that inv by (auto simp: spsc_inv_def)
  with prefix spsc_ends [OF assms(1) inv] show ?thesis by blast
qed

text \<open>A queue with room for one: two numbers, the second pushed after the first is popped.\<close>
lemma spsc_all_consumed_witness:
  "\<exists>s. reach (spsc_step 2 (bounded_list 1)) (spsc_start []) s \<and> sp_main s = M_assert \<and>
     sp_consumed s = [1, 2] \<and> sp_producer_count s = sp_consumer_count s"
proof -
  note all = spsc_all_consumed [OF bounded_list_contract [of 1] refl]
  from all [OF _ reach_refl, of 2] obtain s where
    s: "reach (spsc_step 2 (bounded_list 1)) (spsc_start []) s" "sp_main s = M_assert" by auto
  from all [OF _ s(1)] s(2) have "sp_consumed s = map Suc [0..<2] \<and>
      sp_producer_count s = sp_consumer_count s" by simp
  moreover have "map Suc [0..<2] = [1, 2]" by (simp add: numeral_2_eq_2)
  ultimately show ?thesis using s by auto
qed

end
