(* ===== verification/Stopwatch.thy ===== *)
theory Stopwatch
  imports Prelude
begin

text \<open>
  The stopwatches of \<open>include/boost/chrono/stopwatches\<close>: \<open>simple_stopwatch\<close> and
  \<open>strict_stopwatch\<close>, the collectors of laps, \<open>stopwatch\<close>, \<open>suspendable_stopwatch\<close>, the scope
  guards, and the program's own \<open>simple::simple_stopwatch\<close>.  A time point and a duration are integers, the
  number of ticks of the clock.  The clock is not under this repository: what it answers is an
  argument of the operation that reads it, a time for \<open>clock::now()\<close>, and for \<open>clock::now(ec)\<close>
  a time or \<open>None\<close> when it fails.  The error code is a flag; \<open>now(ec)\<close> sets it when it fails and
  clears it otherwise.
\<close>

section \<open>The collectors\<close>

text \<open>The operations of a template argument \<open>LapsCollector\<close>.\<close>
record 'c collector =
  co_store :: "int \<Rightarrow> 'c \<Rightarrow> 'c"
  co_clear :: "'c \<Rightarrow> 'c"
  co_last :: "'c \<Rightarrow> int"
  co_elapsed :: "'c \<Rightarrow> int"

definition no_memory :: "unit collector" where
  "no_memory = \<lparr>co_store = (\<lambda>d c. c), co_clear = (\<lambda>c. c), co_last = (\<lambda>c. 0),
     co_elapsed = (\<lambda>c. 0)\<rparr>"

definition last_lap :: "int collector" where
  "last_lap = \<lparr>co_store = (\<lambda>d c. d), co_clear = (\<lambda>c. 0), co_last = (\<lambda>c. c),
     co_elapsed = (\<lambda>c. 0)\<rparr>"

text \<open>The loop of \<open>elapsed\<close> of \<open>laps_sequence_container\<close>: \<open>elapsed_\<close> and what is left to add.\<close>
primrec add_laps :: "int \<Rightarrow> int list \<Rightarrow> int" where
  "add_laps elapsed [] = elapsed"
| "add_laps elapsed (d # ds) = add_laps (elapsed + d) ds"

definition laps_sequence_container :: "int list collector" where
  "laps_sequence_container =
     \<lparr>co_store = (\<lambda>d c. d # c), co_clear = (\<lambda>c. []),
      co_last = (\<lambda>c. case c of [] \<Rightarrow> 0 | d # ds \<Rightarrow> d), co_elapsed = add_laps 0\<rparr>"

text \<open>
  \<open>boost::accumulators::accumulator_set\<close> is not under this repository.  What
  \<open>laps_accumulator_set\<close> calls of it is a parameter: a fresh set, adding a sample, and the sum.
\<close>
record 'a accumulators =
  acc_fresh :: 'a
  acc_add :: "int \<Rightarrow> 'a \<Rightarrow> 'a"
  acc_sum :: "'a \<Rightarrow> int"

text \<open>Its documented behaviour: the sum is the sum of the samples.\<close>
definition accumulators_contract :: "'a accumulators \<Rightarrow> bool" where
  "accumulators_contract A \<longleftrightarrow>
     acc_sum A (acc_fresh A) = 0 \<and> (\<forall>r a. acc_sum A (acc_add A r a) = r + acc_sum A a)"

text \<open>The members are \<open>last_\<close> of the base class and \<open>acc_\<close>.\<close>
definition laps_accumulator_set :: "'a accumulators \<Rightarrow> (int \<times> 'a) collector" where
  "laps_accumulator_set A =
     \<lparr>co_store = (\<lambda>d (last, acc). (co_store last_lap d last, acc_add A d acc)),
      co_clear = (\<lambda>(last, acc). (co_clear last_lap last, acc_fresh A)),
      co_last = (\<lambda>(last, acc). co_last last_lap last),
      co_elapsed = (\<lambda>(last, acc). acc_sum A acc)\<rparr>"

text \<open>An accumulator set that keeps the number of samples and their sum.\<close>
definition count_and_sum :: "(nat \<times> int) accumulators" where
  "count_and_sum = \<lparr>acc_fresh = (0, 0), acc_add = (\<lambda>r (n, s). (Suc n, r + s)), acc_sum = snd\<rparr>"

lemma count_and_sum_contract: "accumulators_contract count_and_sum"
  by (auto simp: accumulators_contract_def count_and_sum_def)

section \<open>The stopwatch\<close>

record 'c stopwatch =
  sw_start :: int
  sw_running :: bool
  sw_laps :: 'c

text \<open>The constructors: \<open>stopwatch(acc, dont_start)\<close>, \<open>stopwatch(acc)\<close>.\<close>
definition sw_dont_start :: "'c \<Rightarrow> 'c stopwatch" where
  "sw_dont_start acc = \<lparr>sw_start = 0, sw_running = False, sw_laps = acc\<rparr>"

text \<open>\<open>start()\<close>\<close>
definition sw_begin :: "int \<Rightarrow> 'c stopwatch \<Rightarrow> 'c stopwatch" where
  "sw_begin now w = w\<lparr>sw_start := now, sw_running := True\<rparr>"

definition sw_new :: "int \<Rightarrow> 'c \<Rightarrow> 'c stopwatch" where
  "sw_new now acc = sw_begin now (sw_dont_start acc)"

text \<open>\<open>restart()\<close>\<close>
definition sw_restart :: "'c collector \<Rightarrow> int \<Rightarrow> 'c stopwatch \<Rightarrow> 'c stopwatch" where
  "sw_restart K now w =
     (let w' = (if sw_running w
                then w\<lparr>sw_laps := co_store K (now - sw_start w) (sw_laps w)\<rparr>
                else w\<lparr>sw_running := True\<rparr>)
      in w'\<lparr>sw_start := now\<rparr>)"

text \<open>\<open>stop()\<close>; a call on a stopwatch that does not run does not read the clock.\<close>
definition sw_stop :: "'c collector \<Rightarrow> int \<Rightarrow> 'c stopwatch \<Rightarrow> 'c stopwatch" where
  "sw_stop K now w =
     (if sw_running w
      then w\<lparr>sw_laps := co_store K (now - sw_start w) (sw_laps w), sw_start := 0,
             sw_running := False\<rparr>
      else w)"

text \<open>\<open>reset()\<close>\<close>
definition sw_reset :: "'c collector \<Rightarrow> 'c stopwatch \<Rightarrow> 'c stopwatch" where
  "sw_reset K w = w\<lparr>sw_laps := co_clear K (sw_laps w), sw_running := False, sw_start := 0\<rparr>"

text \<open>\<open>elapsed_current_lap()\<close>, \<open>elapsed()\<close>, \<open>last()\<close>\<close>
definition sw_current_lap :: "int \<Rightarrow> 'c stopwatch \<Rightarrow> int" where
  "sw_current_lap now w = (if sw_running w then now - sw_start w else 0)"

definition sw_elapsed :: "'c collector \<Rightarrow> int \<Rightarrow> 'c stopwatch \<Rightarrow> int" where
  "sw_elapsed K now w = co_elapsed K (sw_laps w) + sw_current_lap now w"

definition sw_last :: "'c collector \<Rightarrow> 'c stopwatch \<Rightarrow> int" where
  "sw_last K w = co_last K (sw_laps w)"

subsection \<open>The overloads with an error code\<close>

text \<open>The state of such a call: the stopwatch and the caller's \<open>ec\<close>.\<close>
type_synonym 'c sw_ec = "'c stopwatch \<times> bool"

definition sw_begin_ec :: "int option \<Rightarrow> 'c sw_ec \<Rightarrow> 'c sw_ec" where
  "sw_begin_ec reading s = (case s of (w, ec) \<Rightarrow>
     (case reading of None \<Rightarrow> (w, True)
      | Some tmp \<Rightarrow> (w\<lparr>sw_start := tmp, sw_running := True\<rparr>, False)))"

definition sw_restart_ec :: "'c collector \<Rightarrow> int option \<Rightarrow> 'c sw_ec \<Rightarrow> 'c sw_ec" where
  "sw_restart_ec K reading s = (case s of (w, ec) \<Rightarrow>
     (case reading of None \<Rightarrow> (w, True)
      | Some tmp \<Rightarrow>
          (let w' = (if sw_running w
                     then w\<lparr>sw_laps := co_store K (tmp - sw_start w) (sw_laps w)\<rparr>
                     else w\<lparr>sw_running := True\<rparr>)
           in (w'\<lparr>sw_start := tmp\<rparr>, False))))"

definition sw_stop_ec :: "'c collector \<Rightarrow> int option \<Rightarrow> 'c sw_ec \<Rightarrow> 'c sw_ec" where
  "sw_stop_ec K reading s = (case s of (w, ec) \<Rightarrow>
     (if sw_running w
      then (case reading of None \<Rightarrow> (w, True)
            | Some tmp \<Rightarrow>
                (w\<lparr>sw_laps := co_store K (tmp - sw_start w) (sw_laps w), sw_start := 0,
                   sw_running := False\<rparr>, False))
      else (w, ec)))"

text \<open>The getters return the duration and what they leave in \<open>ec\<close>.\<close>
definition sw_current_lap_ec :: "int option \<Rightarrow> 'c sw_ec \<Rightarrow> int \<times> bool" where
  "sw_current_lap_ec reading s = (case s of (w, ec) \<Rightarrow>
     (if sw_running w
      then (case reading of None \<Rightarrow> (0, True) | Some tmp \<Rightarrow> (tmp - sw_start w, False))
      else (0, ec)))"

definition sw_elapsed_ec :: "'c collector \<Rightarrow> int option \<Rightarrow> 'c sw_ec \<Rightarrow> int \<times> bool" where
  "sw_elapsed_ec K reading s =
     (case sw_current_lap_ec reading s of (tmp, ec) \<Rightarrow>
        (if ec then (0, True) else (co_elapsed K (sw_laps (fst s)) + tmp, False)))"

section \<open>The suspendable stopwatch\<close>

record 'c suspendable =
  su_start :: int
  su_running :: bool
  su_suspended :: bool
  su_laps :: 'c
  su_partial :: int

definition su_dont_start :: "'c \<Rightarrow> 'c suspendable" where
  "su_dont_start acc =
     \<lparr>su_start = 0, su_running = False, su_suspended = False, su_laps = acc, su_partial = 0\<rparr>"

definition su_begin :: "int \<Rightarrow> 'c suspendable \<Rightarrow> 'c suspendable" where
  "su_begin now w = w\<lparr>su_start := now, su_partial := 0, su_running := True\<rparr>"

definition su_restart :: "'c collector \<Rightarrow> int \<Rightarrow> 'c suspendable \<Rightarrow> 'c suspendable" where
  "su_restart K now w =
     (let w' = (if su_running w
                then w\<lparr>su_laps := co_store K (su_partial w + (now - su_start w)) (su_laps w),
                       su_partial := 0\<rparr>
                else w\<lparr>su_running := True\<rparr>)
      in w'\<lparr>su_start := now\<rparr>)"

definition su_stop :: "'c collector \<Rightarrow> int \<Rightarrow> 'c suspendable \<Rightarrow> 'c suspendable" where
  "su_stop K now w =
     (let lap = su_partial w + (now - su_start w)
      in w\<lparr>su_partial := lap, su_laps := co_store K lap (su_laps w), su_start := 0,
           su_running := False, su_suspended := False\<rparr>)"

definition su_suspend :: "int \<Rightarrow> 'c suspendable \<Rightarrow> 'c suspendable" where
  "su_suspend now w =
     (if su_running w
      then if \<not> su_suspended w
           then w\<lparr>su_partial := su_partial w + (now - su_start w), su_suspended := True\<rparr>
           else w
      else w)"

definition su_resume :: "int \<Rightarrow> 'c suspendable \<Rightarrow> 'c suspendable" where
  "su_resume now w =
     (if su_suspended w then w\<lparr>su_start := now, su_suspended := False\<rparr> else w)"

definition su_elapsed :: "int \<Rightarrow> 'c suspendable \<Rightarrow> int" where
  "su_elapsed now w =
     (if su_running w
      then if su_suspended w then su_partial w else su_partial w + now - su_start w
      else 0)"

definition su_reset :: "'c collector \<Rightarrow> 'c suspendable \<Rightarrow> 'c suspendable" where
  "su_reset K w =
     w\<lparr>su_laps := co_clear K (su_laps w), su_running := False, su_suspended := False,
       su_partial := 0, su_start := 0\<rparr>"

subsection \<open>The overloads with an error code\<close>

type_synonym 'c su_ec = "'c suspendable \<times> bool"

definition su_begin_ec :: "int option \<Rightarrow> 'c su_ec \<Rightarrow> 'c su_ec" where
  "su_begin_ec reading s = (case s of (w, ec) \<Rightarrow>
     (case reading of None \<Rightarrow> (w, True)
      | Some tmp \<Rightarrow> (w\<lparr>su_partial := 0, su_start := tmp, su_running := True\<rparr>, False)))"

definition su_restart_ec :: "'c collector \<Rightarrow> int option \<Rightarrow> 'c su_ec \<Rightarrow> 'c su_ec" where
  "su_restart_ec K reading s = (case s of (w, ec) \<Rightarrow>
     (case reading of None \<Rightarrow> (w, True)
      | Some tmp \<Rightarrow>
          (let w' = (if su_running w
                     then w\<lparr>su_laps := co_store K (su_partial w + (tmp - su_start w)) (su_laps w),
                            su_partial := 0\<rparr>
                     else w\<lparr>su_running := True\<rparr>)
           in (w'\<lparr>su_start := tmp\<rparr>, False))))"

definition su_stop_ec :: "'c collector \<Rightarrow> int option \<Rightarrow> 'c su_ec \<Rightarrow> 'c su_ec" where
  "su_stop_ec K reading s = (case s of (w, ec) \<Rightarrow>
     (case reading of None \<Rightarrow> (w, True)
      | Some tmp \<Rightarrow>
          (let lap = su_partial w + (tmp - su_start w)
           in (w\<lparr>su_partial := lap, su_laps := co_store K lap (su_laps w), su_start := 0,
                 su_running := False, su_suspended := False\<rparr>, False))))"

definition su_suspend_ec :: "int option \<Rightarrow> 'c su_ec \<Rightarrow> 'c su_ec" where
  "su_suspend_ec reading s = (case s of (w, ec) \<Rightarrow>
     (if su_running w
      then if \<not> su_suspended w
           then (case reading of None \<Rightarrow> (w, True)
                 | Some tmp \<Rightarrow>
                     (w\<lparr>su_partial := su_partial w + (tmp - su_start w), su_suspended := True\<rparr>,
                      False))
           else (w, False)
      else (w, False)))"

definition su_resume_ec :: "int option \<Rightarrow> 'c su_ec \<Rightarrow> 'c su_ec" where
  "su_resume_ec reading s = (case s of (w, ec) \<Rightarrow>
     (if su_suspended w
      then (case reading of None \<Rightarrow> (w, True)
            | Some tmp \<Rightarrow> (w\<lparr>su_start := tmp, su_suspended := False\<rparr>, False))
      else (w, False)))"

definition su_elapsed_ec :: "int option \<Rightarrow> 'c su_ec \<Rightarrow> int \<times> bool" where
  "su_elapsed_ec reading s = (case s of (w, ec) \<Rightarrow>
     (if su_running w
      then if su_suspended w then (su_partial w, ec)
           else (case reading of None \<Rightarrow> (0, True)
                 | Some tmp \<Rightarrow> (su_partial w + tmp - su_start w, False))
      else (0, ec)))"

section \<open>Scope guards\<close>

text \<open>
  A guard calls one operation of the stopwatch in its constructor and another in its
  destructor.  \<open>guarded enter leave t0 t1 body\<close> is a block that opens with the guard at \<open>t0\<close> and
  is left at \<open>t1\<close>; \<open>body\<close> is what the statements of the block do to the stopwatch.
\<close>
definition guarded ::
  "(int \<Rightarrow> 'w \<Rightarrow> 'w) \<Rightarrow> (int \<Rightarrow> 'w \<Rightarrow> 'w) \<Rightarrow> int \<Rightarrow> int \<Rightarrow> ('w \<Rightarrow> 'w) \<Rightarrow> 'w \<Rightarrow> 'w" where
  "guarded enter leave t0 t1 body w = leave t1 (body (enter t0 w))"

definition stopwatch_runner where
  "stopwatch_runner K = guarded sw_begin (sw_stop K)"

definition stopwatch_stopper where
  "stopwatch_stopper K = guarded (sw_stop K) sw_begin"

definition stopwatch_suspender where
  "stopwatch_suspender = guarded su_suspend su_resume"

definition stopwatch_resumer where
  "stopwatch_resumer = guarded su_resume su_suspend"

section \<open>Simple stopwatches\<close>

text \<open>
  \<open>simple_stopwatch\<close> and \<open>strict_stopwatch\<close> have one member, the time of construction; the
  constructor with an error code leaves it at zero when the clock fails.
\<close>
definition simple_new :: "int \<Rightarrow> int" where
  "simple_new now = now"

definition simple_new_ec :: "int option \<Rightarrow> int \<times> bool" where
  "simple_new_ec reading = (case reading of None \<Rightarrow> (0, True) | Some tmp \<Rightarrow> (tmp, False))"

definition simple_elapsed :: "int \<Rightarrow> int \<Rightarrow> int" where
  "simple_elapsed now start = now - start"

definition simple_elapsed_ec :: "int option \<Rightarrow> int \<Rightarrow> int \<times> bool" where
  "simple_elapsed_ec reading start =
     (case reading of None \<Rightarrow> (0, True) | Some tmp \<Rightarrow> (tmp - start, False))"

definition strict_new_ec :: "int option \<Rightarrow> int \<times> bool" where
  "strict_new_ec reading = (case reading of None \<Rightarrow> (0, True) | Some tmp \<Rightarrow> (tmp, False))"

definition strict_elapsed_ec :: "int option \<Rightarrow> int \<Rightarrow> int \<times> bool" where
  "strict_elapsed_ec reading start =
     (case reading of None \<Rightarrow> (0, True) | Some tmp \<Rightarrow> (tmp - start, False))"

text \<open>
  \<open>seconds()\<close> of the program's own \<open>simple::simple_stopwatch\<close>: \<open>num\<close> and \<open>den\<close> are those of the
  clock's period, and the quotient of the two integers is taken first.
\<close>
definition simple_seconds :: "int \<Rightarrow> int \<Rightarrow> int \<Rightarrow> int \<Rightarrow> int" where
  "simple_seconds num den now start = simple_elapsed now start * (num div den)"

end
