(* ===== verification/Stopwatch_Properties.thy ===== *)
theory Stopwatch_Properties
  imports Stopwatch
begin

text \<open>
  What the stopwatches measure.  The contracts of the collectors are locales; the account of a
  sequence of calls is compared with a specification that does not follow the code: it adds up
  the distances between the times of the calls, each counted when the stopwatch was on over it.
\<close>

section \<open>What a collector promises\<close>

text \<open>A collector that knows the last lap.\<close>
locale remembers_last =
  fixes K :: "'c collector"
  assumes last_store: "co_last K (co_store K d c) = d"
    and last_clear: "co_last K (co_clear K c) = 0"

text \<open>A collector that keeps no sum: \<open>elapsed()\<close> is the current lap.\<close>
locale keeps_no_sum =
  fixes K :: "'c collector"
  assumes no_sum: "co_elapsed K c = 0"
begin

lemma elapsed_is_current_lap: "sw_elapsed K now w = sw_current_lap now w"
  by (simp add: sw_elapsed_def no_sum)

end

text \<open>A collector that adds up the laps.\<close>
locale sums_laps =
  fixes K :: "'c collector"
  assumes sum_store: "co_elapsed K (co_store K d c) = d + co_elapsed K c"
    and sum_clear: "co_elapsed K (co_clear K c) = 0"

lemma add_laps_sum: "add_laps e ds = e + sum_list ds"
  by (induction ds arbitrary: e) simp_all

interpretation nm: keeps_no_sum no_memory
  by unfold_locales (simp add: no_memory_def)

interpretation ll: keeps_no_sum last_lap
  by unfold_locales (simp add: last_lap_def)

interpretation ll: remembers_last last_lap
  by unfold_locales (simp_all add: last_lap_def)

interpretation sq: remembers_last laps_sequence_container
  by unfold_locales (simp_all add: laps_sequence_container_def)

interpretation sq: sums_laps laps_sequence_container
  by unfold_locales (simp_all add: laps_sequence_container_def add_laps_sum)

lemma accumulators_sum_laps: "accumulators_contract A \<Longrightarrow> sums_laps (laps_accumulator_set A)"
  by unfold_locales
    (auto simp: laps_accumulator_set_def accumulators_contract_def split: prod.splits)

interpretation ac: sums_laps "laps_accumulator_set count_and_sum"
  by (rule accumulators_sum_laps [OF count_and_sum_contract])

interpretation ac: remembers_last "laps_accumulator_set count_and_sum"
  by unfold_locales (auto simp: laps_accumulator_set_def last_lap_def split: prod.splits)

section \<open>Sequences of calls\<close>

datatype sw_op = Sw_start | Sw_stop | Sw_restart | Sw_reset

text \<open>A call, with what the clock answers should the call ask it.\<close>
fun sw_call :: "'c collector \<Rightarrow> sw_op \<times> int option \<Rightarrow> 'c sw_ec \<Rightarrow> 'c sw_ec" where
  "sw_call K (Sw_start, reading) s = sw_begin_ec reading s"
| "sw_call K (Sw_stop, reading) s = sw_stop_ec K reading s"
| "sw_call K (Sw_restart, reading) s = sw_restart_ec K reading s"
| "sw_call K (Sw_reset, reading) s = (sw_reset K (fst s), snd s)"

definition sw_calls :: "'c collector \<Rightarrow> (sw_op \<times> int option) list \<Rightarrow> 'c sw_ec \<Rightarrow> 'c sw_ec" where
  "sw_calls K h s = fold (sw_call K) h s"

lemma sw_calls_Nil [simp]: "sw_calls K [] s = s"
  by (simp add: sw_calls_def)

lemma sw_calls_snoc [simp]: "sw_calls K (h @ [c]) s = sw_call K c (sw_calls K h s)"
  by (simp add: sw_calls_def)

text \<open>With a clock that answers, an overload with an error code does what the other one does.\<close>
lemma sw_ec_answered:
  "sw_begin_ec (Some t) (w, ec) = (sw_begin t w, False)"
  "sw_restart_ec K (Some t) (w, ec) = (sw_restart K t w, False)"
  "fst (sw_stop_ec K (Some t) (w, ec)) = sw_stop K t w"
  "fst (sw_current_lap_ec (Some t) (w, ec)) = sw_current_lap t w"
  by (simp_all add: sw_begin_ec_def sw_begin_def sw_restart_ec_def sw_restart_def sw_stop_ec_def
      sw_stop_def sw_current_lap_ec_def sw_current_lap_def)

text \<open>With a clock that fails, it leaves the stopwatch as it was.\<close>
lemma sw_ec_failed:
  "sw_begin_ec None (w, ec) = (w, True)"
  "sw_restart_ec K None (w, ec) = (w, True)"
  "fst (sw_stop_ec K None (w, ec)) = w"
  by (simp_all add: sw_begin_ec_def sw_restart_ec_def sw_stop_ec_def)

section \<open>The specification\<close>

text \<open>The calls that had an effect, with their times; a reset has none.\<close>
fun answered :: "(sw_op \<times> int option) list \<Rightarrow> (sw_op \<times> int) list" where
  "answered [] = []"
| "answered ((Sw_reset, reading) # h) = (Sw_reset, 0) # answered h"
| "answered ((c, None) # h) = answered h"
| "answered ((c, Some t) # h) = (c, t) # answered h"

lemma answered_append [simp]: "answered (h @ h') = answered h @ answered h'"
  by (induction h rule: answered.induct) simp_all

definition since_reset :: "(sw_op \<times> int) list \<Rightarrow> (sw_op \<times> int) list" where
  "since_reset h = rev (takeWhile (\<lambda>c. fst c \<noteq> Sw_reset) (rev h))"

lemma since_reset_Nil [simp]: "since_reset [] = []"
  by (simp add: since_reset_def)

lemma since_reset_snoc [simp]:
  "since_reset (h @ [c]) = (if fst c = Sw_reset then [] else since_reset h @ [c])"
  by (simp add: since_reset_def)

text \<open>Whether the stopwatch is on after a call.\<close>
definition turns_on :: "sw_op \<Rightarrow> bool" where
  "turns_on c \<longleftrightarrow> c = Sw_start \<or> c = Sw_restart"

text \<open>The time up to \<open>now\<close> over which the stopwatch was on.\<close>
fun time_on :: "bool \<Rightarrow> int \<Rightarrow> (sw_op \<times> int) list \<Rightarrow> int \<Rightarrow> int" where
  "time_on on since [] now = (if on then now - since else 0)"
| "time_on on since ((c, t) # h) now =
     (if on then t - since else 0) + time_on (turns_on c) t h now"

text \<open>A client does not start a stopwatch that is on.\<close>
fun starts_when_off :: "bool \<Rightarrow> (sw_op \<times> int) list \<Rightarrow> bool" where
  "starts_when_off on [] \<longleftrightarrow> True"
| "starts_when_off on ((c, t) # h) \<longleftrightarrow> \<not> (on \<and> c = Sw_start) \<and> starts_when_off (turns_on c) h"

definition on_after :: "bool \<Rightarrow> (sw_op \<times> int) list \<Rightarrow> bool" where
  "on_after on h = (if h = [] then on else turns_on (fst (last h)))"

lemma on_after_snoc [simp]: "on_after on (h @ [c]) = turns_on (fst c)"
  by (simp add: on_after_def)

text \<open>
  The laps: a lap goes from a call that leaves the stopwatch on to the next call, which ends it,
  unless that is a second start, which discards it.
\<close>
fun laps_of :: "bool \<Rightarrow> int \<Rightarrow> (sw_op \<times> int) list \<Rightarrow> int list" where
  "laps_of on since [] = []"
| "laps_of on since ((c, t) # h) =
     (if on \<and> c \<noteq> Sw_start then [t - since] else []) @ laps_of (turns_on c) t h"

text \<open>The lap that is open at \<open>now\<close>.\<close>
definition open_lap :: "(sw_op \<times> int) list \<Rightarrow> int \<Rightarrow> int" where
  "open_lap h now = (if on_after False h then now - snd (last h) else 0)"

lemma laps_of_snoc:
  "laps_of on since (h @ [(c, t)]) = laps_of on since h @
     (if on_after on h \<and> c \<noteq> Sw_start then [t - (if h = [] then since else snd (last h))] else [])"
proof (induction h arbitrary: on since)
  case Nil
  then show ?case by (simp add: on_after_def)
next
  case (Cons x h)
  then show ?case by (cases x; cases h) (auto simp: on_after_def)
qed

lemma since_reset_on: "on_after False (since_reset h) = on_after False h"
proof (cases h rule: rev_cases)
  case (snoc h' c)
  then show ?thesis by (cases c) (auto simp: on_after_def turns_on_def)
qed simp

lemma since_reset_last:
  "on_after False h \<Longrightarrow> since_reset h \<noteq> [] \<and> last (since_reset h) = last h"
  by (cases h rule: rev_cases) (auto simp: on_after_def turns_on_def)

text \<open>No lap is discarded when the client starts the stopwatch only when it is off.\<close>
lemma laps_are_time_on:
  "starts_when_off on h \<Longrightarrow>
   sum_list (laps_of on since h) +
     (if on_after on h then now - (if h = [] then since else snd (last h)) else 0) =
   time_on on since h now"
proof (induction h arbitrary: on since)
  case Nil
  then show ?case by (simp add: on_after_def)
next
  case (Cons x h)
  obtain c t where x: "x = (c, t)" by fastforce
  from Cons.IH [of "turns_on c" t] Cons.prems x show ?case
    by (cases h) (auto simp: on_after_def)
qed

section \<open>Running time\<close>

lemma sw_running_on:
  "sw_running (fst (sw_calls K h (sw_dont_start c, ec))) = on_after False (answered h)"
proof (induction h rule: rev_induct)
  case Nil
  then show ?case by (simp add: sw_dont_start_def on_after_def)
next
  case (snoc x h)
  obtain w e where s: "sw_calls K h (sw_dont_start c, ec) = (w, e)" by fastforce
  obtain a r where x: "x = (a, r)" by fastforce
  from snoc s show ?case
    by (cases a; cases r)
      (auto simp: x turns_on_def sw_begin_ec_def sw_stop_ec_def sw_restart_ec_def sw_reset_def)
qed

context sums_laps begin

lemma laps_account:
  assumes "co_elapsed K c = 0"
  shows "let w = fst (sw_calls K h (sw_dont_start c, ec)) in
    co_elapsed K (sw_laps w) = sum_list (laps_of False 0 (since_reset (answered h))) \<and>
    (sw_running w \<longrightarrow> sw_start w = snd (last (answered h)))"
proof (induction h rule: rev_induct)
  case Nil
  then show ?case using assms by (simp add: sw_dont_start_def)
next
  case (snoc x h)
  obtain w e where s: "sw_calls K h (sw_dont_start c, ec) = (w, e)" by fastforce
  obtain a r where x: "x = (a, r)" by fastforce
  have on: "sw_running w = on_after False (answered h)"
    using sw_running_on [of K h c ec] s by simp
  show ?case
    using snoc s on since_reset_last [of "answered h"]
    by (cases a; cases r)
      (auto simp: x Let_def sw_begin_ec_def sw_stop_ec_def sw_restart_ec_def sw_reset_def
        sum_store sum_clear laps_of_snoc since_reset_on split: if_splits)
qed

lemma elapsed_is_laps:
  assumes "co_elapsed K c = 0"
  shows "sw_elapsed K now (fst (sw_calls K h (sw_dont_start c, ec))) =
    sum_list (laps_of False 0 (since_reset (answered h))) + open_lap (since_reset (answered h)) now"
  using laps_account [OF assms, of h ec] sw_running_on [of K h c ec]
    since_reset_last [of "answered h"]
  by (auto simp: Let_def sw_elapsed_def sw_current_lap_def open_lap_def since_reset_on)

text \<open>
  With a clock that does not go back, whatever the client does, the elapsed time is not
  negative and not longer than the time that has passed.
\<close>
lemma elapsed_within:
  assumes "sorted (t0 # [t. (a, t) \<leftarrow> answered h, a \<noteq> Sw_reset] @ [now])"
    and "co_elapsed K c = 0"
  shows "0 \<le> sw_elapsed K now (fst (sw_calls K h (sw_dont_start c, ec)))"
    and "sw_elapsed K now (fst (sw_calls K h (sw_dont_start c, ec))) \<le> now - t0"
proof -
  have "let w = fst (sw_calls K h (sw_dont_start c, ec)) in
      0 \<le> co_elapsed K (sw_laps w) \<and> co_elapsed K (sw_laps w) \<le> now - t0 \<and>
      (sw_running w \<longrightarrow> t0 \<le> sw_start w \<and> sw_start w \<le> now \<and>
         co_elapsed K (sw_laps w) \<le> sw_start w - t0)"
    using assms(1)
  proof (induction h arbitrary: now rule: rev_induct)
    case Nil
    then show ?case using assms(2) by (simp add: sw_dont_start_def)
  next
    case (snoc x h)
    obtain w e where s: "sw_calls K h (sw_dont_start c, ec) = (w, e)" by fastforce
    obtain a r where x: "x = (a, r)" by fastforce
    show ?case
    proof (cases "a \<noteq> Sw_reset \<and> r \<noteq> None")
      case False
      then have "sorted (t0 # [t. (a, t) \<leftarrow> answered h, a \<noteq> Sw_reset] @ [now])"
        using snoc.prems x by (cases a; cases r) auto
      from snoc.IH [OF this] False s x show ?thesis
        by (cases a; cases r) (auto simp: Let_def sw_reset_def sum_clear sw_begin_ec_def
            sw_stop_ec_def sw_restart_ec_def)
    next
      case True
      then obtain t where r: "r = Some t" by blast
      with True snoc.prems x
      have "sorted (t0 # [t. (a, t) \<leftarrow> answered h, a \<noteq> Sw_reset] @ [t])" and "t \<le> now" "t0 \<le> t"
        by (cases a; auto simp: sorted_append)+
      from snoc.IH [OF this(1)] this(2,3) True s x r show ?thesis
        by (cases a) (auto simp: Let_def sum_store sw_begin_ec_def sw_stop_ec_def
            sw_restart_ec_def)
    qed
  qed
  moreover have "t0 \<le> now" using assms(1) by (simp add: sorted_append)
  ultimately show "0 \<le> sw_elapsed K now (fst (sw_calls K h (sw_dont_start c, ec)))"
    and "sw_elapsed K now (fst (sw_calls K h (sw_dont_start c, ec))) \<le> now - t0"
    by (auto simp: Let_def sw_elapsed_def sw_current_lap_def)
qed

end

section \<open>The properties of a stopwatch\<close>

lemma container_holds_laps:
  "sw_laps (fst (sw_calls laps_sequence_container h (sw_dont_start [], ec))) =
   rev (laps_of False 0 (since_reset (answered h)))"
proof (induction h rule: rev_induct)
  case Nil
  then show ?case by (simp add: sw_dont_start_def)
next
  case (snoc x h)
  let ?K = laps_sequence_container
  obtain w e where s: "sw_calls ?K h (sw_dont_start [], ec) = (w, e)" by fastforce
  obtain a r where x: "x = (a, r)" by fastforce
  have on: "sw_running w = on_after False (answered h)"
    using sw_running_on [of ?K h "[]" ec] s by simp
  have "sw_running w \<Longrightarrow> sw_start w = snd (last (answered h))"
    using sq.laps_account [of "[]" h ec] s by (simp add: laps_sequence_container_def Let_def)
  then show ?case
    using snoc s on since_reset_last [of "answered h"]
    by (cases a; cases r)
      (auto simp: x Let_def sw_begin_ec_def sw_stop_ec_def sw_restart_ec_def sw_reset_def
        laps_sequence_container_def laps_of_snoc since_reset_on split: if_splits)
qed

text \<open>
  C24: what a stopwatch that starts off measures, for every sequence of calls, some of which the
  clock may refuse.  The laps since the last reset go from a start or restart to the next call; a
  second start discards the lap that is open.  The container holds these laps, last first, and
  \<open>elapsed()\<close> is their sum and the lap that is open, with a container of laps and with a set of
  accumulators alike.  When the client starts the stopwatch only when it is off, that is the whole
  time over which it was on.
\<close>
theorem stopwatch_elapsed_is_running_time:
  assumes "accumulators_contract A" and "calls = since_reset (answered h)"
  shows "sw_laps (fst (sw_calls laps_sequence_container h (sw_dont_start [], ec))) =
           rev (laps_of False 0 calls) \<and>
         sw_elapsed laps_sequence_container now
           (fst (sw_calls laps_sequence_container h (sw_dont_start [], ec))) =
         sum_list (laps_of False 0 calls) + open_lap calls now \<and>
         sw_elapsed (laps_accumulator_set A) now
           (fst (sw_calls (laps_accumulator_set A) h (sw_dont_start (0, acc_fresh A), ec))) =
         sum_list (laps_of False 0 calls) + open_lap calls now \<and>
         (starts_when_off False calls \<longrightarrow>
            sum_list (laps_of False 0 calls) + open_lap calls now = time_on False 0 calls now)"
proof (intro conjI)
  show "sw_laps (fst (sw_calls laps_sequence_container h (sw_dont_start [], ec))) =
      rev (laps_of False 0 calls)"
    by (simp add: container_holds_laps assms(2))
  show "sw_elapsed laps_sequence_container now
      (fst (sw_calls laps_sequence_container h (sw_dont_start [], ec))) =
    sum_list (laps_of False 0 calls) + open_lap calls now"
    unfolding assms(2) by (rule sq.elapsed_is_laps) (simp add: laps_sequence_container_def)
  show "sw_elapsed (laps_accumulator_set A) now
      (fst (sw_calls (laps_accumulator_set A) h (sw_dont_start (0, acc_fresh A), ec))) =
    sum_list (laps_of False 0 calls) + open_lap calls now"
    using assms(1) unfolding assms(2)
    by (intro sums_laps.elapsed_is_laps [OF accumulators_sum_laps])
      (simp_all add: laps_accumulator_set_def accumulators_contract_def)
  show "starts_when_off False calls \<longrightarrow>
      sum_list (laps_of False 0 calls) + open_lap calls now = time_on False 0 calls now"
    using laps_are_time_on [of False calls 0 now]
    by (cases "calls = []") (auto simp: open_lap_def on_after_def)
qed

text \<open>On from 10 to 14, a lap to 20, off, on from 25 and again from 27: 11 ticks by 28.\<close>
lemma stopwatch_elapsed_is_running_time_witness:
  "let w = fst (sw_calls laps_sequence_container
       [(Sw_start, Some 10), (Sw_restart, Some 14), (Sw_restart, None), (Sw_stop, Some 20),
        (Sw_start, Some 25), (Sw_start, Some 27)] (sw_dont_start [], False))
   in sw_laps w = [6, 4] \<and> sw_elapsed laps_sequence_container 28 w = 11"
  using stopwatch_elapsed_is_running_time [OF count_and_sum_contract refl, where now = 28 and
    ec = False and h = "[(Sw_start, Some 10), (Sw_restart, Some 14), (Sw_restart, None),
      (Sw_stop, Some 20), (Sw_start, Some 25), (Sw_start, Some 27)]"]
  by (simp add: turns_on_def since_reset_def open_lap_def on_after_def Let_def)

text \<open>
  With a clock that does not go back, the elapsed time is neither negative nor longer than
  the time that has passed since \<open>t0\<close>, a time before all calls; this holds for every sequence of
  calls, also when the stopwatch is started while it runs.
\<close>
theorem stopwatch_elapsed_within:
  assumes "sorted (t0 # [t. (a, t) \<leftarrow> answered h, a \<noteq> Sw_reset] @ [now])"
  shows "0 \<le> sw_elapsed laps_sequence_container now
           (fst (sw_calls laps_sequence_container h (sw_dont_start [], ec))) \<and>
         sw_elapsed laps_sequence_container now
           (fst (sw_calls laps_sequence_container h (sw_dont_start [], ec))) \<le> now - t0"
  by (rule conjI; rule sq.elapsed_within [OF assms]; simp add: laps_sequence_container_def)

text \<open>The lap from 10 to 14 is lost by the second start: 5 ticks by 19.\<close>
lemma stopwatch_elapsed_within_witness:
  "sw_elapsed laps_sequence_container 19
     (fst (sw_calls laps_sequence_container [(Sw_start, Some 10), (Sw_start, Some 14)]
       (sw_dont_start [], False))) = 5 \<and> (5::int) \<le> 19 - 10"
  using stopwatch_elapsed_within [of 10 "[(Sw_start, Some 10), (Sw_start, Some 14)]" 19 False]
  by (simp add: sw_elapsed_def sw_current_lap_def sw_calls_def sw_begin_ec_def sw_dont_start_def
      laps_sequence_container_def)

text \<open>
  \<open>restart()\<close> is \<open>stop()\<close> followed by \<open>start()\<close> at one and the same time, on a stopwatch in any
  state and with any collector, and so is the overload with an error code.
\<close>
theorem stopwatch_restart_is_stop_start:
  "sw_restart K now w = sw_begin now (sw_stop K now w) \<and>
   sw_restart_ec K reading (w, ec) = sw_begin_ec reading (sw_stop_ec K reading (w, ec))"
  by (auto simp: sw_restart_def sw_begin_def sw_stop_def sw_restart_ec_def sw_begin_ec_def
      sw_stop_ec_def Let_def split: option.splits)

text \<open>
  An error is reported again when there is none.  On a stopwatch that does not run
  \<open>elapsed(ec)\<close> does not ask the clock and does not touch \<open>ec\<close>, but tests it: with an error left
  over from an earlier call it returns zero for whatever laps have been collected.
\<close>
theorem stopwatch_stale_error:
  assumes "\<not> sw_running w"
  shows "sw_elapsed_ec K reading (w, True) = (0, True) \<and>
         sw_elapsed_ec K reading (w, False) = (co_elapsed K (sw_laps w), False)"
  using assms by (simp_all add: sw_elapsed_ec_def sw_current_lap_ec_def)

text \<open>A stopwatch that ran from 1 to 8, and a clock that failed afterwards.\<close>
lemma stopwatch_stale_error_witness:
  "let s = sw_calls laps_sequence_container
       [(Sw_start, Some 1), (Sw_stop, Some 8), (Sw_start, None)] (sw_dont_start [], False)
   in sw_elapsed_ec laps_sequence_container (Some 9) s = (0, True) \<and>
      sw_elapsed laps_sequence_container 9 (fst s) = 7"
  using stopwatch_stale_error
    [of "\<lparr>sw_start = 0, sw_running = False, sw_laps = [7]\<rparr>" laps_sequence_container "Some 9"]
  by (simp add: sw_calls_def sw_begin_ec_def sw_stop_ec_def sw_dont_start_def sw_elapsed_def
      sw_current_lap_def laps_sequence_container_def)

section \<open>Simple stopwatches\<close>

text \<open>
  A stopwatch of the program's own class gives no seconds.  With a clock that ticks
  \<open>den\<close> times in \<open>num\<close> seconds, \<open>num < den\<close>, the quotient is zero, whatever has elapsed.
\<close>
theorem simple_seconds_zero:
  assumes "0 \<le> num" and "num < den"
  shows "simple_seconds num den now start = 0"
  using assms by (simp add: simple_seconds_def)

lemma simple_seconds_zero_witness:
  "simple_seconds 1 1000000000 5000000000 0 = 0"
  by (rule simple_seconds_zero) simp_all

text \<open>The simple and the strict stopwatch have the same constructor and the same getter.\<close>
lemma strict_is_simple:
  "strict_new_ec = simple_new_ec" "strict_elapsed_ec = simple_elapsed_ec"
  by (simp_all add: fun_eq_iff strict_new_ec_def simple_new_ec_def strict_elapsed_ec_def
      simple_elapsed_ec_def)

text \<open>A constructor whose clock failed measures from the epoch of the clock.\<close>
lemma simple_failed_counts_from_epoch:
  "simple_elapsed_ec (Some now) (fst (simple_new_ec None)) = (now, False)"
  by (simp add: simple_elapsed_ec_def simple_new_ec_def)

end
