(* ===== verification/Suspendable_Properties.thy ===== *)
theory Suspendable_Properties
  imports Stopwatch_Properties
begin

text \<open>
  What \<open>suspendable_stopwatch\<close> measures, for every sequence of calls: the laps and the elapsed time
  are the time the stopwatch was on and not suspended, except for the calls the code counts
  otherwise, whose account is exact as well; and what the scope guards measure.
\<close>

section \<open>Sequences of calls\<close>

datatype su_op = Su_start | Su_stop | Su_restart | Su_suspend | Su_resume | Su_reset

fun su_call :: "'c collector \<Rightarrow> su_op \<times> int option \<Rightarrow> 'c su_ec \<Rightarrow> 'c su_ec" where
  "su_call K (Su_start, reading) s = su_begin_ec reading s"
| "su_call K (Su_stop, reading) s = su_stop_ec K reading s"
| "su_call K (Su_restart, reading) s = su_restart_ec K reading s"
| "su_call K (Su_suspend, reading) s = su_suspend_ec reading s"
| "su_call K (Su_resume, reading) s = su_resume_ec reading s"
| "su_call K (Su_reset, reading) s = (su_reset K (fst s), snd s)"

definition su_calls :: "'c collector \<Rightarrow> (su_op \<times> int option) list \<Rightarrow> 'c su_ec \<Rightarrow> 'c su_ec" where
  "su_calls K h s = fold (su_call K) h s"

lemma su_calls_Nil [simp]: "su_calls K [] s = s"
  by (simp add: su_calls_def)

lemma su_calls_snoc [simp]: "su_calls K (h @ [c]) s = su_call K c (su_calls K h s)"
  by (simp add: su_calls_def)

text \<open>With a clock that answers, an overload with an error code does what the other one does.\<close>
lemma su_ec_answered:
  "su_begin_ec (Some t) (w, ec) = (su_begin t w, False)"
  "su_restart_ec K (Some t) (w, ec) = (su_restart K t w, False)"
  "su_stop_ec K (Some t) (w, ec) = (su_stop K t w, False)"
  "su_suspend_ec (Some t) (w, ec) = (su_suspend t w, False)"
  "su_resume_ec (Some t) (w, ec) = (su_resume t w, False)"
  "fst (su_elapsed_ec (Some t) (w, ec)) = su_elapsed t w"
  by (simp_all add: su_begin_ec_def su_begin_def su_restart_ec_def su_restart_def su_stop_ec_def
      su_stop_def su_suspend_ec_def su_suspend_def su_resume_ec_def su_resume_def su_elapsed_ec_def
      su_elapsed_def Let_def)

text \<open>With a clock that fails, it leaves the stopwatch as it was.\<close>
lemma su_ec_failed:
  "fst (su_begin_ec None (w, ec)) = w"
  "fst (su_restart_ec K None (w, ec)) = w"
  "fst (su_stop_ec K None (w, ec)) = w"
  "fst (su_suspend_ec None (w, ec)) = w"
  "fst (su_resume_ec None (w, ec)) = w"
  by (simp_all add: su_begin_ec_def su_restart_ec_def su_stop_ec_def su_suspend_ec_def
      su_resume_ec_def)

section \<open>The specification\<close>

datatype mode = Off | Active | Paused

text \<open>
  A tally of the calls: the mode, the time of the last call, the active time of the current lap
  and the laps, last first.  The distance to the previous call counts when it was active over it.
\<close>
type_synonym tally = "mode \<times> int \<times> int \<times> int list"

fun tally_call :: "su_op \<times> int option \<Rightarrow> tally \<Rightarrow> tally" where
  "tally_call (Su_reset, reading) (m, prev, lap, laps) = (Off, prev, 0, [])"
| "tally_call (c, None) (m, prev, lap, laps) = (m, prev, lap, laps)"
| "tally_call (c, Some t) (m, prev, lap, laps) =
     (let lap' = lap + (if m = Active then t - prev else 0)
      in if c = Su_start then (Active, t, 0, laps)
         else if c = Su_stop then (Off, t, 0, lap' # laps)
         else if c = Su_restart then (Active, t, 0, lap' # laps)
         else if c = Su_suspend then (if m = Active then Paused else m, t, lap', laps)
         else (if m = Paused then Active else m, t, lap', laps))"

definition tally_calls :: "(su_op \<times> int option) list \<Rightarrow> tally" where
  "tally_calls h = fold tally_call h (Off, 0, 0, [])"

lemma tally_calls_snoc [simp]: "tally_calls (h @ [c]) = tally_call c (tally_calls h)"
  by (simp add: tally_calls_def)

lemma tally_calls_Nil [simp]: "tally_calls [] = (Off, 0, 0, [])"
  by (simp add: tally_calls_def)

text \<open>
  The calls after which the stopwatch differs from the tally: a start, stop or restart while it is
  suspended, a stop or restart while it is off.
\<close>
fun counted :: "mode \<Rightarrow> su_op \<Rightarrow> bool" where
  "counted m Su_start \<longleftrightarrow> m \<noteq> Paused"
| "counted m Su_stop \<longleftrightarrow> m = Active"
| "counted m Su_restart \<longleftrightarrow> m = Active"
| "counted m _ \<longleftrightarrow> True"

fun counted_calls :: "tally \<Rightarrow> (su_op \<times> int option) list \<Rightarrow> bool" where
  "counted_calls s [] \<longleftrightarrow> True"
| "counted_calls s (c # h) \<longleftrightarrow> counted (fst s) (fst c) \<and> counted_calls (tally_call c s) h"

text \<open>
  What the stopwatch counts instead, for every sequence of calls.  The tally has one time more, that
  of the call since which it has been active, or was before it was suspended (zero when it is
  off), and its lap survives a stop.  A lap that is ended while the stopwatch is suspended gets
  the time since then once more; one that is ended by a stop while it is off is the last lap and
  the time since the epoch of the clock; a restart while it is off continues the last lap; and a
  start or restart does not end a suspension.
\<close>
type_synonym actual = "mode \<times> int \<times> int \<times> int \<times> int list"

fun ended :: "mode \<Rightarrow> int \<Rightarrow> int \<Rightarrow> int \<Rightarrow> int \<Rightarrow> int" where
  "ended Active t prev since lap = lap + (t - prev)"
| "ended Paused t prev since lap = lap + (t - since)"
| "ended Off t prev since lap = lap + t"

fun actual_call :: "su_op \<times> int option \<Rightarrow> actual \<Rightarrow> actual" where
  "actual_call (Su_reset, reading) (m, prev, since, lap, laps) = (Off, prev, 0, 0, [])"
| "actual_call (c, None) s = s"
| "actual_call (Su_start, Some t) (m, prev, since, lap, laps) =
     (if m = Paused then Paused else Active, t, t, 0, laps)"
| "actual_call (Su_stop, Some t) (m, prev, since, lap, laps) =
     (Off, t, 0, ended m t prev since lap, ended m t prev since lap # laps)"
| "actual_call (Su_restart, Some t) (m, prev, since, lap, laps) =
     (if m = Off then (Active, t, t, lap, laps) else (m, t, t, 0, ended m t prev since lap # laps))"
| "actual_call (Su_suspend, Some t) (m, prev, since, lap, laps) =
     (if m = Active then (Paused, t, since, lap + (t - prev), laps) else (m, t, since, lap, laps))"
| "actual_call (Su_resume, Some t) (m, prev, since, lap, laps) =
     (if m = Active then (Active, t, since, lap + (t - prev), laps)
      else if m = Paused then (Active, t, t, lap, laps) else (m, t, since, lap, laps))"

definition actual_calls :: "(su_op \<times> int option) list \<Rightarrow> actual" where
  "actual_calls h = fold actual_call h (Off, 0, 0, 0, [])"

lemma actual_calls_snoc [simp]: "actual_calls (h @ [c]) = actual_call c (actual_calls h)"
  by (simp add: actual_calls_def)

lemma actual_calls_Nil [simp]: "actual_calls [] = (Off, 0, 0, 0, [])"
  by (simp add: actual_calls_def)

text \<open>The stopwatch and this account agree.\<close>
definition tallies :: "int list suspendable \<Rightarrow> actual \<Rightarrow> bool" where
  "tallies w s \<longleftrightarrow> (case s of (m, prev, since, lap, laps) \<Rightarrow>
     su_laps w = laps \<and> su_running w = (m \<noteq> Off) \<and> su_suspended w = (m = Paused) \<and>
     su_start w = since \<and> (m = Off \<longrightarrow> since = 0) \<and>
     su_partial w = (if m = Active then lap - (prev - since) else lap))"

lemma tallies_call:
  assumes "tallies w s"
  shows "tallies (fst (su_call laps_sequence_container (c, reading) (w, ec)))
           (actual_call (c, reading) s)"
proof -
  obtain m prev since lap laps where s: "s = (m, prev, since, lap, laps)" by (cases s) auto
  show ?thesis
    using assms unfolding s
    by (cases c; cases reading; cases m)
      (auto simp: tallies_def su_ec_failed su_ec_answered su_begin_def su_stop_def su_restart_def
        su_suspend_def su_resume_def su_reset_def Let_def laps_sequence_container_def)
qed

lemma tallies_calls:
  "tallies (fst (su_calls laps_sequence_container h (su_dont_start [], ec))) (actual_calls h)"
proof (induction h rule: rev_induct)
  case Nil
  then show ?case by (simp add: tallies_def su_dont_start_def)
next
  case (snoc x h)
  from tallies_call [OF snoc, of "fst x" "snd x" "snd (su_calls laps_sequence_container h
      (su_dont_start [], ec))"]
  show ?case by simp
qed

text \<open>Calls that are counted: the account is the tally of the active times.\<close>
lemma counted_is_tally:
  assumes "counted_calls (m, prev, lap, laps) h"
    and "(m', prev', since', lap', laps') = fold actual_call h (m, prev, since, lap0, laps)"
    and "m \<noteq> Off \<longrightarrow> lap0 = lap"
  shows "\<exists>x. fold tally_call h (m, prev, lap, laps) = (m', prev', x, laps') \<and>
    (m' \<noteq> Off \<longrightarrow> x = lap')"
  using assms
proof (induction h arbitrary: m prev since lap lap0 laps)
  case (Cons c h)
  obtain a r where c: "c = (a, r)" by fastforce
  obtain m2 p2 l2 ls2 where t: "tally_call c (m, prev, lap, laps) = (m2, p2, l2, ls2)"
    by (metis prod_cases4)
  obtain s2 l0 where u: "actual_call c (m, prev, since, lap0, laps) = (m2, p2, s2, l0, ls2)"
    and l: "m2 \<noteq> Off \<longrightarrow> l0 = l2"
    using Cons.prems(1,3) t unfolding c by (cases a; cases r; cases m) (auto simp: Let_def)
  have "counted_calls (m2, p2, l2, ls2) h" using Cons.prems(1) t by simp
  from Cons.IH [OF this _ l, of s2] Cons.prems(2) t u show ?case by simp
qed simp

section \<open>The properties\<close>



text \<open>
  What is stored otherwise.  \<open>stop()\<close> on a suspended stopwatch adds to the lap the time since
  the last start or resume once more, the suspended time included.  \<open>restart()\<close> on a stopped
  one carries the last lap over into the new one.  \<open>stop()\<close> on a stopped one (the destructor
  calls it always) stores the last lap plus the time since the epoch of the clock.
\<close>
theorem suspendable_miscounts:
  assumes "su_running w"
  shows "(su_suspended w \<longrightarrow>
            su_laps (su_stop laps_sequence_container t w) =
            (su_elapsed t w + (t - su_start w)) # su_laps w) \<and>
         (\<not> su_suspended w \<longrightarrow>
            su_elapsed u (su_restart K t (su_stop K s w)) = su_elapsed s w + (u - t) \<and>
            su_laps (su_stop laps_sequence_container u (su_stop laps_sequence_container s w)) =
            [su_elapsed s w + u, su_elapsed s w] @ su_laps w)"
  using assms
  by (auto simp: su_stop_def su_elapsed_def su_restart_def Let_def laps_sequence_container_def)

text \<open>On from 0 to 10 and stopped at 15 when suspended: a lap of 25 ticks within 15.\<close>
lemma suspendable_miscounts_witness:
  "su_laps (fst (su_calls laps_sequence_container
     [(Su_start, Some 0), (Su_suspend, Some 10), (Su_stop, Some 15)] (su_dont_start [], False))) =
   [25]"
  using suspendable_miscounts [of "su_suspend 10 (su_begin 0 (su_dont_start []))" 15]
  by (simp add: su_calls_def su_ec_answered su_begin_def su_dont_start_def su_suspend_def
      su_elapsed_def)

text \<open>A start does not end a suspension: the stopwatch stands still until it is resumed.\<close>
lemma start_keeps_suspension:
  "su_suspended w \<Longrightarrow> su_elapsed now (su_begin t w) = 0"
  by (simp add: su_begin_def su_elapsed_def)

section \<open>Scope guards\<close>

context sums_laps begin

text \<open>
  The time within a \<open>stopwatch_runner\<close> is a lap of the stopwatch, when it was off before and the
  block does not touch it.
\<close>
lemma runner_adds_scope:
  assumes "\<not> sw_running w"
  shows "sw_elapsed K now (stopwatch_runner K t0 t1 (\<lambda>w. w) w) = sw_elapsed K now w + (t1 - t0)"
  using assms
  by (simp add: stopwatch_runner_def guarded_def sw_begin_def sw_stop_def sw_elapsed_def
      sw_current_lap_def sum_store)

end

text \<open>
  The time within a \<open>stopwatch_suspender\<close> does not count, when the stopwatch was active before;
  but the destructor of a second one inside resumes it for the rest of the outer block.
\<close>
lemma suspender_excludes_scope:
  assumes "su_running w" and "\<not> su_suspended w"
  shows "su_elapsed now (stopwatch_suspender t0 t1 (\<lambda>w. w) w) = su_elapsed t0 w + (now - t1)"
    and "su_elapsed now (stopwatch_suspender t0 t3 (stopwatch_suspender t1 t2 (\<lambda>w. w)) w) =
      su_elapsed t0 w + (now - t2)"
  using assms
  by (simp_all add: stopwatch_suspender_def guarded_def su_suspend_def su_resume_def
      su_elapsed_def)

text \<open>A \<open>stopwatch_stopper\<close> leaves the stopwatch running, whether it ran before or not.\<close>
lemma stopper_leaves_running: "sw_running (stopwatch_stopper K t0 t1 body w)"
  by (simp add: stopwatch_stopper_def guarded_def sw_begin_def)

end
