(* ===== verification/Testable_Mutex.thy ===== *)
theory Testable_Mutex
  imports Prelude
begin

text \<open>
  \<open>boost/testable_mutex.hpp\<close>: a wrapper that stores next to a mutex the id of the thread that
  holds it, so that a thread can ask whether it holds the mutex.  The mutex and the id are two
  members and are not changed together: \<open>lock\<close> takes the mutex and then stores the id, \<open>unlock\<close>
  clears the id and then gives the mutex back.  The wrapped mutex is a parameter only in that it
  may refuse a \<open>try_lock\<close>.  The assertions are on.
\<close>

text \<open>A thread is outside, between the two halves of a lock, holds it, between the two halves of
  \<open>unlock\<close>, or was ended by an assertion.\<close>
datatype tm_pc = T_out | T_got | T_held | T_cleared | T_aborted

record testable =
  tx_owner :: "nat option"
  tx_id :: "nat option"
  tx_pc :: "nat \<Rightarrow> tm_pc"

definition testable_new :: testable where
  "testable_new = \<lparr>tx_owner = None, tx_id = None, tx_pc = (\<lambda>t. T_out)\<rparr>"

definition is_locked_by_this_thread :: "nat \<Rightarrow> testable \<Rightarrow> bool" where
  "is_locked_by_this_thread t x \<longleftrightarrow> tx_id x = Some t"

definition is_locked :: "testable \<Rightarrow> bool" where
  "is_locked x \<longleftrightarrow> tx_id x \<noteq> None"

definition at_pc :: "nat \<Rightarrow> tm_pc \<Rightarrow> testable \<Rightarrow> testable" where
  "at_pc t pc x = x\<lparr>tx_pc := (tx_pc x)(t := pc)\<rparr>"

text \<open>\<open>lock()\<close> up to the return of \<open>mtx_.lock()\<close>; \<open>None\<close> while the mutex is taken.\<close>
definition tx_lock :: "nat \<Rightarrow> testable \<Rightarrow> testable option" where
  "tx_lock t x =
     (if is_locked_by_this_thread t x then Some (at_pc t T_aborted x)
      else if tx_owner x = None then Some (at_pc t T_got (x\<lparr>tx_owner := Some t\<rparr>)) else None)"

text \<open>
  \<open>try_lock()\<close>, \<open>try_lock_for\<close> and \<open>try_lock_until\<close> up to the return of the mutex's function;
  \<open>refused\<close> when that returns false.
\<close>
definition tx_try_lock :: "bool \<Rightarrow> nat \<Rightarrow> testable \<Rightarrow> testable option" where
  "tx_try_lock refused t x =
     (if is_locked_by_this_thread t x then Some (at_pc t T_aborted x)
      else if refused then Some x
      else if tx_owner x = None then Some (at_pc t T_got (x\<lparr>tx_owner := Some t\<rparr>)) else None)"

text \<open>\<open>id_ = this_thread::get_id()\<close>\<close>
definition tx_store_id :: "nat \<Rightarrow> testable \<Rightarrow> testable" where
  "tx_store_id t x = at_pc t T_held (x\<lparr>tx_id := Some t\<rparr>)"

text \<open>\<open>unlock()\<close> up to the assignment of the id, and \<open>mtx_.unlock()\<close>.\<close>
definition tx_clear_id :: "nat \<Rightarrow> testable \<Rightarrow> testable" where
  "tx_clear_id t x =
     (if is_locked_by_this_thread t x then at_pc t T_cleared (x\<lparr>tx_id := None\<rparr>)
      else at_pc t T_aborted x)"

definition tx_release :: "nat \<Rightarrow> testable \<Rightarrow> testable" where
  "tx_release t x = at_pc t T_out (x\<lparr>tx_owner := None\<rparr>)"

datatype tx_label = TX_lock nat | TX_try nat bool | TX_unlock nat | TX_go nat

text \<open>A thread that is outside or holds the mutex may call any of the functions.\<close>
definition may_call :: "nat \<Rightarrow> testable \<Rightarrow> bool" where
  "may_call t x \<longleftrightarrow> tx_pc x t = T_out \<or> tx_pc x t = T_held"

fun tx_step :: "testable \<Rightarrow> tx_label \<Rightarrow> testable option" where
  "tx_step x (TX_lock t) = (if may_call t x then tx_lock t x else None)"
| "tx_step x (TX_try t refused) = (if may_call t x then tx_try_lock refused t x else None)"
| "tx_step x (TX_unlock t) = (if may_call t x then Some (tx_clear_id t x) else None)"
| "tx_step x (TX_go t) =
     (case tx_pc x t of
        T_got \<Rightarrow> Some (tx_store_id t x)
      | T_cleared \<Rightarrow> Some (tx_release t x)
      | _ \<Rightarrow> None)"

text \<open>An aborted thread keeps what it had; the program has ended then.\<close>
definition tx_inv :: "testable \<Rightarrow> bool" where
  "tx_inv x \<longleftrightarrow> (\<exists>t. tx_pc x t = T_aborted) \<or>
     (\<forall>t. (tx_pc x t = T_held \<longleftrightarrow> tx_id x = Some t) \<and>
          (tx_pc x t \<noteq> T_out \<longleftrightarrow> tx_owner x = Some t))"

lemma tx_inv_step:
  assumes "tx_inv x" and "tx_step x l = Some x'"
  shows "tx_inv x'"
proof (cases "\<exists>t. tx_pc x t = T_aborted")
  case True
  then obtain t where "tx_pc x t = T_aborted" by blast
  with assms(2) have "tx_pc x' t = T_aborted"
    by (cases l) (auto simp: may_call_def tx_lock_def tx_try_lock_def tx_clear_id_def
        tx_store_id_def tx_release_def at_pc_def split: if_splits tm_pc.splits)
  then show ?thesis by (auto simp: tx_inv_def)
next
  case False
  with assms(1) have inv: "(tx_pc x t = T_held \<longleftrightarrow> tx_id x = Some t) \<and>
      (tx_pc x t \<noteq> T_out \<longleftrightarrow> tx_owner x = Some t)" for t
    by (auto simp: tx_inv_def)
  then have id: "tx_owner x = Some t" if "tx_id x = Some t" for t
    using that by (metis tm_pc.distinct(3))
  show ?thesis
  proof (cases l)
    case (TX_go t)
    then have busy: "tx_pc x t = T_got \<or> tx_pc x t = T_cleared"
      using assms(2) by (auto split: tm_pc.splits)
    then have others: "tx_pc x u = T_out" "tx_id x \<noteq> Some u" if "u \<noteq> t" for u
      using that inv [of t] inv [of u] by auto
    have mine: "tx_owner x = Some t" "tx_id x \<noteq> Some t" using busy inv [of t] by auto
    have "(tx_pc x' u = T_held \<longleftrightarrow> tx_id x' = Some u) \<and>
        (tx_pc x' u \<noteq> T_out \<longleftrightarrow> tx_owner x' = Some u)" for u
      using TX_go assms(2) busy others [of u] mine
      by (cases "u = t") (auto simp: tx_store_id_def tx_release_def at_pc_def)
    then show ?thesis by (simp add: tx_inv_def)
  qed (use assms(2) inv id in \<open>auto simp: tx_inv_def may_call_def tx_lock_def tx_try_lock_def
      tx_clear_id_def at_pc_def is_locked_by_this_thread_def split: if_splits\<close>)
qed

interpretation tx: step_invariant tx_step tx_inv
  by unfold_locales (rule tx_inv_step)

text \<open>
  \<open>is_locked_by_this_thread()\<close> is exact.  In every state that is reached without a failed
  assertion, a thread that asks gets the answer true exactly when it has returned from a lock and
  not called \<open>unlock\<close> since, it then owns the mutex, and no other thread gets the same answer;
  the mutex can be owned while \<open>is_locked()\<close> answers false, but not the other way round.
\<close>
theorem testable_mutex_exact:
  assumes "reach tx_step testable_new x" and "\<forall>t. tx_pc x t \<noteq> T_aborted"
  shows "(is_locked_by_this_thread t x \<longleftrightarrow> tx_pc x t = T_held) \<and>
    (is_locked_by_this_thread t x \<longrightarrow> tx_owner x = Some t) \<and>
    (is_locked_by_this_thread t x \<and> is_locked_by_this_thread u x \<longrightarrow> t = u) \<and>
    (is_locked x \<longrightarrow> tx_owner x \<noteq> None)"
proof -
  have "tx_inv x"
    by (rule tx.inv_reach [OF assms(1)]) (simp add: tx_inv_def testable_new_def)
  with assms(2) have held: "tx_pc x t = T_held \<longleftrightarrow> tx_id x = Some t"
    and own: "tx_id x = Some t \<Longrightarrow> tx_owner x = Some t" for t
    by (auto simp: tx_inv_def dest!: spec [of _ t])
  show ?thesis
    by (cases "tx_id x") (auto simp: is_locked_by_this_thread_def is_locked_def held own)
qed

definition half_locked :: testable where
  "half_locked = at_pc 1 T_got (testable_new\<lparr>tx_owner := Some 1\<rparr>)"

text \<open>Thread 1 is between the two halves of \<open>lock\<close>.\<close>
lemma testable_mutex_exact_witness:
  "\<not> is_locked_by_this_thread 1 half_locked \<and> tx_owner half_locked = Some 1"
proof -
  have "run_steps tx_step testable_new [TX_lock 1] = Some half_locked"
    by (simp add: half_locked_def testable_new_def may_call_def tx_lock_def
        is_locked_by_this_thread_def)
  from testable_mutex_exact [OF run_steps_reach [OF this], of 1] show ?thesis
    by (simp add: half_locked_def at_pc_def testable_new_def)
qed

text \<open>An assertion fails only where the caller is wrong: it locks what it holds, or unlocks what
  it does not hold.\<close>
lemma testable_aborts_exactly:
  assumes "tx_inv x" and "\<forall>t. tx_pc x t \<noteq> T_aborted" and "tx_step x l = Some x'"
  shows "tx_pc x' t = T_aborted \<longleftrightarrow>
    l = TX_unlock t \<and> tx_pc x t = T_out \<or>
    (l = TX_lock t \<or> (\<exists>b. l = TX_try t b)) \<and> tx_pc x t = T_held"
proof -
  from assms(1,2) have "is_locked_by_this_thread u x \<longleftrightarrow> tx_pc x u = T_held" for u
    by (auto simp: tx_inv_def is_locked_by_this_thread_def)
  with assms(2,3) show ?thesis
    by (cases l)
      (auto simp: may_call_def tx_lock_def tx_try_lock_def tx_clear_id_def tx_store_id_def
        tx_release_def at_pc_def split: if_splits tm_pc.splits)
qed

end
