(* ===== verification/Parallel_Sort.thy ===== *)
theory Parallel_Sort
  imports Prelude
begin

text \<open>
  \<open>parallel_quick_sort.cpp\<close>: \<open>sorter::do_sort\<close> splits a list at its first element and sorts the
  two parts, the lower one through \<open>boost::async\<close> on the thread pool.  The two calls share no
  data (each owns the list it was given), so the future's value is the value of the call.
  \<open>std::partition\<close> leaves the order within the two parts open: it is an argument.  The recursion
  takes fuel; \<open>None\<close> means that it did not return.
\<close>

text \<open>What the standard says of \<open>std::partition\<close>: the two parts of the reordered range.\<close>
definition partitions :: "(('a \<Rightarrow> bool) \<Rightarrow> 'a list \<Rightarrow> 'a list \<times> 'a list) \<Rightarrow> bool" where
  "partitions part \<longleftrightarrow>
     (\<forall>p xs. mset (fst (part p xs)) + mset (snd (part p xs)) = mset xs \<and>
        (\<forall>x \<in> set (fst (part p xs)). p x) \<and> (\<forall>x \<in> set (snd (part p xs)). \<not> p x))"

text \<open>
  \<open>do_sort(chunk_data)\<close>: the first element goes to \<open>result\<close>, the higher part is sorted by this
  thread and spliced in behind it, the lower part, sorted by the pool, in front of it.
\<close>
fun do_sort ::
  "(('a::linorder \<Rightarrow> bool) \<Rightarrow> 'a list \<Rightarrow> 'a list \<times> 'a list) \<Rightarrow> nat \<Rightarrow> 'a list \<Rightarrow> 'a list option"
where
  "do_sort part 0 chunk = None"
| "do_sort part (Suc fuel) [] = Some []"
| "do_sort part (Suc fuel) (partition_val # chunk) =
     (let (lower_chunk, rest) = part (\<lambda>val. val < partition_val) chunk;
          new_lower = do_sort part fuel lower_chunk;
          new_higher = do_sort part fuel rest
      in case new_higher of None \<Rightarrow> None
         | Some higher \<Rightarrow>
             (let result = [partition_val] @ higher
              in case new_lower of None \<Rightarrow> None | Some lower \<Rightarrow> Some (lower @ result)))"

definition parallel_quick_sort ::
  "(('a::linorder \<Rightarrow> bool) \<Rightarrow> 'a list \<Rightarrow> 'a list \<times> 'a list) \<Rightarrow> nat \<Rightarrow> 'a list \<Rightarrow> 'a list option"
where
  "parallel_quick_sort part fuel input = (if input = [] then Some input else do_sort part fuel input)"

lemma partitions_length:
  assumes "partitions part"
  shows "length (fst (part p xs)) \<le> length xs" and "length (snd (part p xs)) \<le> length xs"
proof -
  have "size (mset (fst (part p xs)) + mset (snd (part p xs))) = size (mset xs)"
    using assms by (simp add: partitions_def)
  then show "length (fst (part p xs)) \<le> length xs" and "length (snd (part p xs)) \<le> length xs"
    by simp_all
qed

lemma do_sort_sorts:
  assumes "partitions part" and "length xs < fuel"
  shows "\<exists>ys. do_sort part fuel xs = Some ys \<and> mset ys = mset xs \<and> sorted ys"
  using assms(2)
proof (induction fuel arbitrary: xs)
  case 0
  then show ?case by simp
next
  case (Suc fuel)
  show ?case
  proof (cases xs)
    case Nil
    then show ?thesis by simp
  next
    case (Cons x chunk)
    obtain lo hi where parts: "part (\<lambda>val. val < x) chunk = (lo, hi)" by fastforce
    with assms(1) have split: "mset lo + mset hi = mset chunk" "\<forall>y \<in> set lo. y < x"
      "\<forall>y \<in> set hi. x \<le> y"
      unfolding partitions_def by (metis fst_conv not_less snd_conv)+
    have "length lo < fuel" "length hi < fuel"
      using partitions_length [OF assms(1), of "\<lambda>val. val < x" chunk] parts Suc.prems Cons by auto
    from Suc.IH [OF this(1)] Suc.IH [OF this(2)] obtain ls hs where
      ls: "do_sort part fuel lo = Some ls" "mset ls = mset lo" "sorted ls" and
      hs: "do_sort part fuel hi = Some hs" "mset hs = mset hi" "sorted hs" by blast
    from ls(2) hs(2) split have "\<forall>y \<in> set ls. y < x" "\<forall>y \<in> set hs. x \<le> y"
      using mset_eq_setD by blast+
    moreover from this have "\<forall>y \<in> set ls. \<forall>z \<in> set hs. y \<le> z" by fastforce
    ultimately show ?thesis
      using ls hs split parts Cons by (auto simp: Let_def sorted_append intro: less_imp_le)
  qed
qed

text \<open>
  The parallel quick sort returns, and returns the sorted list, for every list of a totally
  ordered type and every partition algorithm the standard allows; the depth of the recursion is
  at most the length of the list.
\<close>
theorem parallel_quick_sort_sorts:
  assumes "partitions part" and "length xs < fuel"
  shows "parallel_quick_sort part fuel xs = Some (sort xs)"
  using do_sort_sorts [OF assms]
  by (auto simp: parallel_quick_sort_def dest: properties_for_sort)

text \<open>A partition that keeps the order, and one that reverses both parts.\<close>
lemma partitions_instances:
  "partitions (\<lambda>p xs. (filter p xs, filter (\<lambda>x. \<not> p x) xs))"
  "partitions (\<lambda>p xs. (rev (filter p xs), rev (filter (\<lambda>x. \<not> p x) xs)))"
  by (simp_all add: partitions_def multiset_partition [symmetric])

lemma parallel_quick_sort_sorts_witness:
  "parallel_quick_sort (\<lambda>p xs. (rev (filter p xs), rev (filter (\<lambda>x. \<not> p x) xs))) 5
     [3, 1, 2, 1 :: int] = Some [1, 1, 2, 3]"
  using parallel_quick_sort_sorts [OF partitions_instances(2), of "[3, 1, 2, 1 :: int]" 5]
  by simp

end
