(* ===== verification/Guarded_Objects.thy ===== *)
theory Guarded_Objects
  imports Prelude "HOL-Library.Word"
begin

text \<open>
  The accounts of \<open>ba_externallly_locked.cpp\<close> and \<open>bank_account.cpp\<close>, objects guarded by a lock.
  A balance is a \<open>32 word\<close>.  A critical section is one definition; what can go wrong in it is the use of the
  lock object itself, so \<open>unique_lock\<close> is modelled with its owner flag.
\<close>

section \<open>The account manager\<close>

record accounts =
  am_locked :: bool
  am_checking :: "32 word"
  am_savings :: "32 word"

definition bank_deposit :: "32 word \<Rightarrow> 32 word \<Rightarrow> 32 word" where
  "bank_deposit amount balance = balance + amount"

definition bank_withdraw :: "32 word \<Rightarrow> 32 word \<Rightarrow> 32 word" where
  "bank_withdraw amount balance = balance - amount"

text \<open>The two calls of a transfer, on the accounts a guard gives access to.\<close>
definition transfer :: "32 word \<Rightarrow> accounts \<Rightarrow> accounts" where
  "transfer amount m =
     (let m1 = m\<lparr>am_checking := bank_withdraw amount (am_checking m)\<rparr>
      in m1\<lparr>am_savings := bank_deposit amount (am_savings m1)\<rparr>)"

text \<open>\<open>strict_lock\<close>: locks in its constructor, waits while another thread has the lock.\<close>
definition checking2savings :: "32 word \<Rightarrow> accounts \<Rightarrow> accounts outcome" where
  "checking2savings amount m =
     (if am_locked m then Blocked else Returns ((transfer amount (m\<lparr>am_locked := True\<rparr>))\<lparr>am_locked := False\<rparr>))"

text \<open>
  \<open>unique_lock::lock()\<close> on the manager: throws when the lock object owns the mutex already, waits
  when another thread has it.  The state is the owner flag of the lock object and the manager.
\<close>
definition unique_lock_lock :: "bool \<times> accounts \<Rightarrow> (bool \<times> accounts) outcome" where
  "unique_lock_lock g = (case g of (owns, m) \<Rightarrow>
     if owns then Throws ''boost unique_lock owns already the mutex''
     else if am_locked m then Blocked else Returns (True, m\<lparr>am_locked := True\<rparr>))"

text \<open>\<open>unlock()\<close>, which the destructor calls for an owner.\<close>
definition unique_lock_destroy :: "bool \<times> accounts \<Rightarrow> accounts" where
  "unique_lock_destroy g = (case g of (owns, m) \<Rightarrow> if owns then m\<lparr>am_locked := False\<rparr> else m)"

definition some_condition :: bool where
  "some_condition \<longleftrightarrow> True"

text \<open>
  \<open>AMoreComplicatedChecking2Savings\<close>: the result of the call and the manager after it.  The
  constructor of \<open>guard1\<close> locks, the condition holds and \<open>guard1.lock()\<close> is called.
\<close>
definition more_complicated :: "32 word \<Rightarrow> accounts \<Rightarrow> unit outcome \<times> accounts" where
  "more_complicated amount m =
     (case unique_lock_lock (False, m) of
        Returns guard1 \<Rightarrow>
          (case (if some_condition then unique_lock_lock guard1 else Returns guard1) of
             Returns (owns, m1) \<Rightarrow>
               (Returns (), unique_lock_destroy (owns, transfer amount m1))
           | Throws e \<Rightarrow> (Throws e, unique_lock_destroy guard1)
           | Blocked \<Rightarrow> (Blocked, snd guard1))
      | Throws e \<Rightarrow> (Throws e, m)
      | Blocked \<Rightarrow> (Blocked, m))"

text \<open>A transfer moves the amount and keeps the sum of the two accounts.\<close>
lemma checking2savings_keeps_sum:
  assumes "checking2savings amount m = Returns m'"
  shows "am_checking m' + am_savings m' = am_checking m + am_savings m \<and>
    am_savings m' = am_savings m + amount \<and> \<not> am_locked m'"
  using assms
  by (auto simp: checking2savings_def transfer_def bank_withdraw_def bank_deposit_def Let_def
      split: if_splits)

text \<open>
  The other one always throws and transfers nothing: the lock object that its constructor has
  locked is locked a second time.
\<close>
theorem more_complicated_throws:
  assumes "\<not> am_locked m"
  shows "more_complicated amount m = (Throws ''boost unique_lock owns already the mutex'', m)"
  using assms
  by (simp add: more_complicated_def unique_lock_lock_def some_condition_def
      unique_lock_destroy_def)

section \<open>The active object\<close>

text \<open>The functions a \<open>bank_account\<close> posts to its one thread, which executes them one by one.\<close>
datatype account_request = Deposit "32 word" | Withdraw "32 word"

text \<open>The comparison \<open>balance_ >= amount\<close> is one of \<open>int\<close>s.\<close>
definition account_execute :: "account_request \<Rightarrow> 32 word \<Rightarrow> 32 word" where
  "account_execute r balance =
     (case r of Deposit amount \<Rightarrow> balance + amount
      | Withdraw amount \<Rightarrow> if sint amount \<le> sint balance then balance - amount else balance)"

end
