(* ===== verification/Pool_Quiet.thy ===== *)
theory Pool_Quiet
  imports Pool_Properties
begin

text \<open>
  What the steps of a posix pool keep when nobody gives it a task: slots that are empty stay
  empty, a pool in use stays in use, and a query of such a pool can give one answer only.  The
  tests of both kinds of pool rest on these lemmas.
\<close>

section \<open>What a step of the pool keeps\<close>

definition slots_empty :: "nat \<Rightarrow> pool \<Rightarrow> bool" where
  "slots_empty m p \<longleftrightarrow> (\<forall>i < m. i < length (p_tasks p) \<longrightarrow> tm_task (p_tasks p ! i) = None)"

lemma slots_empty_0 [simp]: "slots_empty 0 p"
  by (simp add: slots_empty_def)

definition all_empty :: "pool \<Rightarrow> bool" where
  "all_empty p \<longleftrightarrow> slots_empty (length (p_tasks p)) p"

definition others_out :: "pool \<Rightarrow> bool" where
  "others_out p \<longleftrightarrow> (\<forall>j. 0 < j \<longrightarrow> j < length (p_clients p) \<longrightarrow> (\<exists>r. p_clients p ! j = C_outside r))"

definition in_execute :: "client_pc \<Rightarrow> bool" where
  "in_execute pc \<longleftrightarrow> (\<exists>t x. pc = C_execute t x)"

text \<open>The pool is in use: it has threads, they all exist, and nobody has terminated it.\<close>
definition in_use :: "pool \<Rightarrow> bool" where
  "in_use p \<longleftrightarrow> p_tasks p \<noteq> [] \<and> \<not> p_terminating p \<and> (\<forall>tm \<in> set (p_tasks p). is_alive (tm_thread tm))"

lemma worker_step_thread: "worker_step w e tm = Some (tm', ev) \<Longrightarrow> tm_thread tm' = tm_thread tm"
  by (cases "tm_pc tm")
    (auto simp: worker_step_def split: if_splits option.splits run_end.splits outcome.splits)

lemma worker_step_empty:
  "worker_step w e tm = Some (tm', ev) \<Longrightarrow> tm_task tm = None \<Longrightarrow>
     tm_task tm' = None \<and> ev_discarded ev = {#} \<and> ev_finished ev = {#}"
  by (cases "tm_pc tm")
    (auto simp: worker_step_def split: if_splits option.splits run_end.splits outcome.splits)

fun is_call :: "pool_label \<Rightarrow> bool" where
  "is_call (L_call j c) = True"
| "is_call _ = False"

text \<open>The steps of the pool that are no calls: of a client, of a worker, and spurious wake-ups.\<close>
lemma internal_cases:
  assumes "pool_step p l = Some p'" and "\<not> is_call l"
  obtains (client) j k where "j < length (p_clients p)" "client_step j k p = Some p'"
  | (worker) i e tm ev where "i < length (p_tasks p)"
      "worker_step (Worker i) e (p_tasks p ! i) = Some (tm, ev)"
      "p_tasks p' = (p_tasks p)[i := tm]" "p_clients p' = p_clients p"
      "p_submitted p' = p_submitted p" "p_terminating p' = p_terminating p"
      "p_discarded p' = p_discarded p + ev_discarded ev"
      "p_finished p' = p_finished p + ev_finished ev"
  | (spurious) i where "p_clients p' = p_clients p" "p_submitted p' = p_submitted p"
      "p_terminating p' = p_terminating p" "p_discarded p' = p_discarded p"
      "p_finished p' = p_finished p"
      "p_tasks p' = p_tasks p \<or> p_tasks p' = (p_tasks p)[i := worker_spurious (Worker i) (p_tasks p ! i)]"
proof (cases l)
  case (L_client j k)
  with assms(1) show ?thesis by (intro client) (auto simp: pool_step_def split: if_splits)
next
  case (L_worker i e k)
  with assms(1) obtain tm ev where i: "i < length (p_tasks p)"
    and w: "worker_step (Worker i) e (p_tasks p ! i) = Some (tm, ev)"
    and p': "p' = record_event ev ((if ev = Ev_idle then idle_notification k else id)
        (set_manager i tm p))"
    by (auto simp: pool_step_def split: if_splits option.splits)
  from i w show ?thesis
    by (rule worker) (auto simp: p' pool_upd record_event_def idle_notification_def)
next
  case (L_client_spurious i)
  with assms(1) show ?thesis
    by (intro spurious) (auto simp: pool_step_def pool_upd split: if_splits)
next
  case (L_worker_spurious i)
  with assms(1) show ?thesis
    by (intro spurious [of i]) (auto simp: pool_step_def pool_upd split: if_splits)
qed (use assms in simp)

lemma spurious_task [simp]:
  "tm_task (worker_spurious w tm) = tm_task tm" "tm_thread (worker_spurious w tm) = tm_thread tm"
  by (simp_all add: worker_spurious_def)

lemma client_step_fields:
  assumes "client_step j k p = Some p'"
  shows "p_submitted p' = p_submitted p \<and> p_finished p' = p_finished p \<and>
    p_terminating p' = p_terminating p \<and> length (p_clients p') = length (p_clients p) \<and>
    (\<forall>i. i \<noteq> j \<longrightarrow> p_clients p' ! i = p_clients p ! i) \<and>
    (in_execute (p_clients p' ! j) \<longrightarrow> j < length (p_clients p) \<longrightarrow> in_execute (p_clients p ! j))"
proof (cases "p_clients p ! j")
  case (C_execute t x)
  with assms show ?thesis
    by (cases x) (auto simp: client_step_def pool_step_defs pool_upd in_execute_def
        split: outcome.splits bool.splits prod.splits if_splits)
next
  case (C_query q x)
  with assms show ?thesis
    by (cases q; cases x) (auto simp: client_step_def pool_step_defs pool_upd in_execute_def
        split: outcome.splits bool.splits if_splits)
next
  case (C_terminate x)
  with assms show ?thesis
    by (cases x) (auto simp: client_step_def pool_step_defs pool_upd in_execute_def
        split: outcome.splits prod.splits if_splits)
qed (use assms in \<open>auto simp: client_step_def\<close>)

lemma query_step_fields:
  assumes "client_step j k p = Some p'" and "p_clients p ! j = C_query q x"
  shows "p_tasks p' = p_tasks p \<and> p_discarded p' = p_discarded p"
  using assms
  by (auto simp: client_step_def pool_step_defs pool_upd
      split: query.splits query_pc.splits outcome.splits bool.splits if_splits)

lemma task_update:
  "i < length tms \<Longrightarrow> tm_task (tms[n := tm] ! i) = (if i = n then tm_task tm else tm_task (tms ! i))"
  by (cases "i = n") auto

lemma terminate_step_empty:
  assumes "terminate_step j k x p = Some p'" and "all_empty p"
  shows "all_empty p' \<and> p_discarded p' = p_discarded p"
  using assms
  by (auto simp: terminate_step_def client_enter_def client_return_def pool_upd all_empty_def
      slots_empty_def tm_stop_def tm_destroy_begin_def tm_destroy_join_def task_update
      split: term_pc.splits outcome.splits prod.splits if_splits)

text \<open>What \<open>tm_is_idle\<close> answers.\<close>
lemma tm_is_idle_answer:
  "tm_is_idle c tm = Returns b \<Longrightarrow> b = (tm_task tm = None \<and> is_alive (tm_thread tm))"
  by (auto simp: tm_is_idle_def locked_def split: outcome.splits prod.splits)

lemma clients_at [simp]:
  "j < length (p_clients p) \<Longrightarrow> p_clients (client_return j r p) ! j = C_outside r"
  "j < length (p_clients p) \<Longrightarrow> p_clients (set_client j pc p) ! j = pc"
  by (simp_all add: client_return_def pool_upd)

lemma client_no_throw:
  assumes "pool_inv p" and "j < length (p_clients p)" and "client_step j k p = Some p'"
  shows "p_clients p' ! j \<noteq> C_threw"
proof -
  have "j < length (p_clients p')" using assms(2) client_step_fields [OF assms(3)] by simp
  from pool_inv_client [OF pool_inv_client_step [OF assms] this] show ?thesis
    by (auto simp: client_ok_def)
qed

text \<open>A query that finds every slot empty and every thread alive can give one answer only.\<close>
lemma query_step_quiet:
  assumes "client_step j k p = Some p'" and "p_clients p ! j = C_query q x"
    and "j < length (p_clients p)" and "in_use p" and "all_empty p" and "pool_inv p"
  shows "(\<exists>y. p_clients p' ! j = C_query q y) \<or> p_clients p' ! j = C_outside (Some (q = Q_is_idle))"
proof -
  have ok: "p_clients p' ! j \<noteq> C_threw" by (rule client_no_throw [OF assms(6,3,1)])
  have idle: "i < length (p_tasks p) \<Longrightarrow> tm_is_idle c (p_tasks p ! i) = Returns b \<Longrightarrow> b" for i c b
    using assms(4,5) tm_is_idle_answer [of c "p_tasks p ! i" b]
    by (auto simp: in_use_def all_empty_def slots_empty_def)
  show ?thesis
    using assms(1-4) ok idle
    by (cases x; cases q)
      (auto simp: client_step_def is_idle_step_def is_busy_step_def client_enter_def in_use_def
        pool_upd split: outcome.splits bool.splits if_splits)
qed

lemma outside_no_step: "p_clients p ! j = C_outside r \<Longrightarrow> client_step j k p = None"
  by (simp add: client_step_def)

lemma internal_clients:
  assumes "pool_step p l = Some p'" and "\<not> is_call l" and "others_out p"
  shows "others_out p' \<and> length (p_clients p') = length (p_clients p) \<and>
    (p_clients p' = p_clients p \<or>
     (\<exists>k. client_step 0 k p = Some p' \<and> 0 < length (p_clients p)))"
  using assms(1,2)
proof (cases rule: internal_cases)
  case (client j k)
  then have "j = 0"
    using assms(3) outside_no_step [of p j] unfolding others_out_def by (metis gr0I option.distinct(1))
  with client assms(3) client_step_fields [OF client(2)] show ?thesis
    by (auto simp: others_out_def)
qed (use assms(3) in \<open>auto simp: others_out_def\<close>)

text \<open>Nobody executes a task or hands one over.\<close>
definition still :: "pool \<Rightarrow> bool" where
  "still p \<longleftrightarrow> others_out p \<and> \<not> in_execute (p_clients p ! 0) \<and> all_empty p"

lemma still_step:
  assumes "pool_step p l = Some p'" and "\<not> is_call l" and "still p"
  shows "still p' \<and> p_discarded p' = p_discarded p"
proof -
  have out: "others_out p" and empty: "all_empty p" using assms(3) by (simp_all add: still_def)
  note step = internal_clients [OF assms(1,2) out]
  have "\<not> in_execute (p_clients p' ! 0)"
    using step assms(3) client_step_fields [of 0 _ p p'] by (auto simp: still_def)
  moreover from assms(1,2) have "all_empty p' \<and> p_discarded p' = p_discarded p"
  proof (cases rule: internal_cases)
    case (client j k)
    then have j: "j = 0" using out outside_no_step [of p j] unfolding others_out_def
      by (metis gr0I option.distinct(1))
    show ?thesis
    proof (cases "p_clients p ! 0")
      case (C_query q x)
      with client j query_step_fields [of 0 k p p' q x] empty show ?thesis
        by (simp add: all_empty_def slots_empty_def)
    next
      case (C_terminate x)
      with client j terminate_step_empty [of 0 k x p p'] empty show ?thesis
        by (simp add: client_step_def)
    qed (use client j assms(3) in \<open>auto simp: client_step_def still_def in_execute_def\<close>)
  next
    case (worker i e tm ev)
    have "tm_task (p_tasks p ! i) = None"
      using empty worker(1) by (simp add: all_empty_def slots_empty_def)
    from worker_step_empty [OF worker(2) this] empty show ?thesis
      by (simp add: worker all_empty_def slots_empty_def task_update)
  next
    case (spurious i)
    with empty show ?thesis by (auto simp: all_empty_def slots_empty_def task_update)
  qed
  ultimately show ?thesis using step by (simp add: still_def)
qed

lemma thread_update:
  "tm_thread tm = tm_thread (tms ! i) \<Longrightarrow>
     (\<forall>x \<in> set (tms[i := tm]). is_alive (tm_thread x)) = (\<forall>x \<in> set tms. is_alive (tm_thread x))"
  by (cases "i < length tms")
    (metis (no_types, lifting) in_set_conv_nth length_list_update nth_list_update,
     simp add: list_update_beyond)

lemma set_task_thread: "tm_set_task k c t tm = Returns (b, tm') \<Longrightarrow> tm_thread tm' = tm_thread tm"
  by (auto simp: tm_set_task_def split: outcome.splits prod.splits)

lemma in_use_step:
  assumes "pool_step p l = Some p'" and "\<not> is_call l" and "in_use p" and "pool_good p"
  shows "in_use p'"
  using assms(1,2)
proof (cases rule: internal_cases)
  case (client j k)
  have "settled p" and "\<not> p_terminating p"
    using assms(3,4) by (simp_all add: pool_good_def in_use_def)
  then have "\<not> is_terminate (p_clients p ! j)" using client(1) by (simp add: settled_def)
  moreover have "in_use p'" if "execute_step j k t x p = Some p'" for t x
    using that assms(3)
    by (auto simp: execute_step_def client_enter_def client_return_def pool_upd
        split: execute_pc.splits outcome.splits bool.splits prod.splits if_splits
        dest!: set_task_thread) (simp_all add: in_use_def thread_update)
  moreover have "in_use p'" if "p_clients p ! j = C_query q x" for q x
    using assms(3) query_step_fields [OF client(2) that] client_step_fields [OF client(2)]
    by (simp add: in_use_def)
  ultimately show ?thesis
    using client(2) by (cases "p_clients p ! j") (auto simp: client_step_def)
next
  case (worker i e tm ev)
  with assms(3) worker_step_thread [OF worker(2)] show ?thesis by (auto simp: in_use_def thread_update)
next
  case (spurious i)
  from spurious(6) show ?thesis
    by (rule disjE) (use assms(3) spurious(3) in \<open>simp_all add: in_use_def thread_update\<close>)
qed

lemma internal_outside:
  assumes "pool_step p l = Some p'" and "\<not> is_call l" and "p_clients p ! j = C_outside r"
  shows "p_clients p' ! j = C_outside r"
  using assms(1,2)
proof (cases rule: internal_cases)
  case (client i k)
  then have "i \<noteq> j" using assms(3) outside_no_step [of p j] by auto
  with client_step_fields [OF client(2)] assms(3) show ?thesis by metis
qed (use assms(3) in simp_all)

lemma query_slots:
  assumes "pool_step p l = Some p'" and "\<not> is_call l" and "others_out p"
    and "p_clients p ! 0 = C_query q x" and "slots_empty m p"
  shows "slots_empty m p'"
  using assms(1,2)
proof (cases rule: internal_cases)
  case (client j k)
  then have "j = 0" using assms(3) outside_no_step [of p j] unfolding others_out_def
    by (metis gr0I option.distinct(1))
  with client query_step_fields [of 0 k p p' q x] assms(4,5) show ?thesis
    by (simp add: slots_empty_def)
next
  case (worker i e tm ev)
  show ?thesis
  proof (cases "i < m")
    case True
    then have "tm_task (p_tasks p ! i) = None" using assms(5) worker(1) by (simp add: slots_empty_def)
    from worker_step_empty [OF worker(2) this] assms(5) show ?thesis
      by (simp add: worker slots_empty_def task_update)
  qed (use assms(5) worker in \<open>simp add: slots_empty_def\<close>)
next
  case (spurious i)
  with assms(5) show ?thesis by (auto simp: slots_empty_def task_update)
qed

text \<open>What a scan has seen is still so when it goes on, and what it answers at its end.\<close>
lemma scan_step:
  assumes "client_step 0 k p = Some p'" and "p_clients p ! 0 = C_query Q_is_idle x"
    and "0 < length (p_clients p)" and "p_tasks p \<noteq> []" and "\<forall>i. x = Q_scan i \<longrightarrow> slots_empty i p"
    and "pool_inv p"
  shows "(\<exists>y. p_clients p' ! 0 = C_query Q_is_idle y \<and> (\<forall>i. y = Q_scan i \<longrightarrow> slots_empty i p')) \<or>
    p_clients p' ! 0 = C_outside (Some False) \<or>
    p_clients p' ! 0 = C_outside (Some True) \<and> all_empty p'"
proof -
  have ok: "p_clients p' ! 0 \<noteq> C_threw" by (rule client_no_throw [OF assms(6,3,1)])
  have tasks: "p_tasks p' = p_tasks p" using query_step_fields [OF assms(1,2)] by simp
  have next_slot: "slots_empty (Suc i) p"
    if "slots_empty i p" "tm_is_idle c (p_tasks p ! i) = Returns True" for i c
    using that tm_is_idle_answer [OF that(2)] by (auto simp: slots_empty_def less_Suc_eq)
  have last: "all_empty p" if "slots_empty i p" "\<not> i < length (p_tasks p)" for i
    using that by (simp add: all_empty_def slots_empty_def)
  have same: "slots_empty i p' = slots_empty i p" "all_empty p' = all_empty p" for i
    using tasks by (simp_all add: slots_empty_def all_empty_def)
  show ?thesis unfolding same
    using assms(1-5) ok
    by (cases x)
      (auto simp: client_step_def is_idle_step_def client_enter_def
        pool_upd split: outcome.splits bool.splits if_splits intro: next_slot last)
qed

text \<open>A quiet pool that is in use has discarded nothing.\<close>
lemma in_use_discarded: "pool_good p \<Longrightarrow> in_use p \<Longrightarrow> p_discarded p = {#}"
  by (simp add: pool_good_def ledger_def in_use_def)

lemma any_call_fields:
  "p_tasks (client_call j c p) = p_tasks p" "p_finished (client_call j c p) = p_finished p"
  "p_discarded (client_call j c p) = p_discarded p"
  "length (p_clients (client_call j c p)) = length (p_clients p)"
  "i \<noteq> j \<Longrightarrow> p_clients (client_call j c p) ! i = p_clients p ! i"
  "p_stack (client_call j c p) = p_stack p"
  "p_terminating (client_call j c p) = (p_terminating p \<or> c = Do_terminate)"
  "p_submitted (client_call j c p) =
     p_submitted p + (case c of Do_execute t \<Rightarrow> ptr_tasks t | _ \<Rightarrow> {#})"
  by (auto simp: client_call_def pool_upd split: pool_call.splits)

lemma client_call_at:
  "j < length (p_clients p) \<Longrightarrow> p_clients (client_call j c p) ! j =
     (case c of Do_execute t \<Rightarrow> C_execute t X_enter | Do_query q \<Rightarrow> C_query q Q_enter
      | Do_terminate \<Rightarrow> C_terminate T_enter)"
  by (auto simp: client_call_def pool_upd split: pool_call.splits)

lemma in_use_call: "in_use p \<Longrightarrow> c \<noteq> Do_terminate \<Longrightarrow> in_use (client_call j c p)"
  by (simp add: in_use_def any_call_fields)

lemma client_step_shape:
  "client_step j k p = Some p' \<Longrightarrow> p_stack p' = p_stack p \<and>
     (p_tasks p' = [] \<or> length (p_tasks p') = length (p_tasks p))"
  by (auto simp: client_step_def pool_step_defs pool_upd
      split: client_pc.splits execute_pc.splits query.splits query_pc.splits term_pc.splits
        outcome.splits bool.splits prod.splits if_splits)

end
