(* ===== verification/Pool_Errors.thy ===== *)
theory Pool_Errors
  imports Pool_Quiet
begin

text \<open>
  What the pool of \<open>posix/threadpool.cpp\<close> does when the system refuses threads.  The
  constructor of a \<open>TaskManager\<close> starts its thread, and \<open>Thread::start\<close> only logs a failure of
  \<open>pthread_create\<close>: the pool is built all the same, with a manager whose thread is
  \<open>FINISHED\<close>.  Here is what becomes of such a manager and of a pool that has no other.  First
  the shape of a pool: the list of managers never grows, and no step indexes past its end.
\<close>

section \<open>The list of managers\<close>

text \<open>The index a client is about to use the list of managers at.\<close>
fun index_used :: "client_pc \<Rightarrow> nat option" where
  "index_used (C_execute t (X_set i)) = Some i"
| "index_used (C_terminate (T_join i)) = Some i"
| "index_used _ = None"

lemma client_sees_index: "client_sees tms pc \<Longrightarrow> index_used pc = Some i \<Longrightarrow> i < length tms"
  by (induction pc rule: index_used.induct) auto

lemma client_step_length:
  assumes "client_step j k p = Some p'"
  shows "length (p_tasks p') = length (p_tasks p) \<or> p_tasks p' = []"
  using assms
  by (auto simp: client_step_def pool_step_defs
      split: client_pc.splits execute_pc.splits query.splits query_pc.splits term_pc.splits
        outcome.splits bool.splits prod.splits if_splits)

lemma client_step_clients:
  assumes "client_step j k p = Some p'"
  shows "length (p_clients p') = length (p_clients p)"
  using assms
  by (auto simp: client_step_def pool_step_defs
      split: client_pc.splits execute_pc.splits query.splits query_pc.splits term_pc.splits
        outcome.splits bool.splits prod.splits if_splits)

lemma client_call_lengths [simp]:
  "p_tasks (client_call j c p) = p_tasks p"
  "length (p_clients (client_call j c p)) = length (p_clients p)"
  by (simp_all add: client_call_def split: pool_call.splits)

definition pool_shape :: "nat \<Rightarrow> nat \<Rightarrow> pool \<Rightarrow> bool" where
  "pool_shape n m p \<longleftrightarrow>
     (length (p_tasks p) = n \<or> p_tasks p = []) \<and> length (p_clients p) = m"

lemma pool_shape_step:
  assumes shape: "pool_shape n m p" and step: "pool_step p l = Some p'"
  shows "pool_shape n m p'"
proof (cases l)
  case (L_client j k)
  then have "client_step j k p = Some p'"
    using step by (auto simp: pool_step_def split: if_splits)
  from client_step_length [OF this] client_step_clients [OF this] client_step_empty [OF _ this]
  show ?thesis using shape unfolding pool_shape_def by metis
qed (use assms in
    \<open>auto simp: pool_step_def pool_shape_def split: if_splits client_pc.splits option.splits\<close>)

interpretation shape: step_invariant pool_step "pool_shape n m"
  by unfold_locales (rule pool_shape_step)

lemma pool_shape_construct: "pool_shape n m (pool_construct_stack errs n stack m)"
  by (simp add: pool_shape_def pool_construct_stack_def)

text \<open>
  C30: every state of the pool is well formed.  The list of managers has its first length, or is
  empty after \<open>terminate\<close>; no client has been thrown out of a call; whenever a client is about
  to use a manager by its index, in \<open>execute\<close> or while it joins, the manager exists; and every
  worker is in its function, with its lock held by nobody or by itself.
\<close>
theorem pool_well_formed:
  assumes "reach pool_step (pool_construct_stack errs n stack m) p"
  shows "(length (p_tasks p) = n \<or> p_tasks p = []) \<and> length (p_clients p) = m \<and>
    (\<forall>pc \<in> set (p_clients p). pc \<noteq> C_threw \<and>
       (\<forall>i. index_used pc = Some i \<longrightarrow> i < length (p_tasks p))) \<and>
    (\<forall>i < length (p_tasks p). tm_pc (p_tasks p ! i) \<noteq> W_threw \<and>
       monitor (tm_sync (p_tasks p ! i)) \<in> {None, Some (Worker i)})"
proof -
  have "pool_shape n m p" by (rule shape.inv_reach [OF assms pool_shape_construct])
  moreover have inv: "pool_inv p" using pool_reach_good [OF assms] by (simp add: pool_good_def)
  moreover have "pc \<noteq> C_threw \<and> (\<forall>i. index_used pc = Some i \<longrightarrow> i < length (p_tasks p))"
    if "pc \<in> set (p_clients p)" for pc
  proof -
    from that obtain j where "j < length (p_clients p)" and "pc = p_clients p ! j"
      by (auto simp: in_set_conv_nth)
    with pool_inv_client [OF inv] have sees: "client_sees (p_tasks p) pc"
      by (auto simp: client_ok_def)
    then have "pc \<noteq> C_threw" by auto
    with sees show ?thesis by (auto intro: client_sees_index)
  qed
  moreover have "tm_pc (p_tasks p ! i) \<noteq> W_threw \<and>
      monitor (tm_sync (p_tasks p ! i)) \<in> {None, Some (Worker i)}"
    if "i < length (p_tasks p)" for i
    using managers_ok_nth [OF pool_inv_managers [OF inv] that] by (simp add: tm_inv_def)
  ultimately show ?thesis by (auto simp: pool_shape_def)
qed

theorem pool_well_formed_witness:
  "length (p_tasks lost_state) = 1 \<and> C_threw \<notin> set (p_clients lost_state)"
  using pool_well_formed [OF lost_reached] by (auto simp: lost_state_def)

section \<open>A thread that does not exist\<close>

lemma alive_of_joined [simp]: "\<not> is_alive (thread_join e th)"
  by (simp add: thread_defs split: option.splits)

text \<open>No operation brings a thread of the pool to life.\<close>
definition alive_at :: "nat \<Rightarrow> pool \<Rightarrow> bool" where
  "alive_at i p \<longleftrightarrow> i < length (p_tasks p) \<and> is_alive (tm_thread (p_tasks p ! i))"

lemma alive_at_manager:
  "alive_at i (set_manager n tm p) \<Longrightarrow>
   (n < length (p_tasks p) \<Longrightarrow> is_alive (tm_thread tm) \<Longrightarrow>
      is_alive (tm_thread (p_tasks p ! n))) \<Longrightarrow> alive_at i p"
  by (cases "i = n") (auto simp: alive_at_def)

lemma alive_at_fields [simp]:
  "alive_at i (set_client j pc p) = alive_at i p" "alive_at i (set_sync s p) = alive_at i p"
  "alive_at i (client_return j r p) = alive_at i p" "alive_at i (record_event ev p) = alive_at i p"
  "alive_at i (idle_notification k p) = alive_at i p" "alive_at i (client_call j c p) = alive_at i p"
  "alive_at i (p\<lparr>p_discarded := d\<rparr>) = alive_at i p" "\<not> alive_at i (p\<lparr>p_tasks := []\<rparr>)"
  by (simp_all add: alive_at_def)

lemma execute_step_alive: "execute_step j k t x p = Some p' \<Longrightarrow> alive_at i p' \<Longrightarrow> alive_at i p"
  by (auto simp: execute_step_def client_enter_def tm_set_task_Returns_iff
      split: execute_pc.splits outcome.splits bool.splits prod.splits if_splits
      dest!: alive_at_manager)

lemma terminate_step_alive: "terminate_step j k x p = Some p' \<Longrightarrow> alive_at i p' \<Longrightarrow> alive_at i p"
  by (auto simp: terminate_step_def client_enter_def tm_stop_Returns_iff
      tm_destroy_begin_Returns_iff tm_destroy_join_Returns_iff
      split: term_pc.splits outcome.splits if_splits dest!: alive_at_manager)

lemma client_step_alive: "client_step j k p = Some p' \<Longrightarrow> alive_at i p' \<Longrightarrow> alive_at i p"
  by (auto simp: client_step_def is_idle_step_def is_busy_step_def client_enter_def
      dest: execute_step_alive terminate_step_alive
      split: client_pc.splits query.splits query_pc.splits outcome.splits bool.splits if_splits)

lemma pool_step_alive:
  assumes "pool_step p l = Some p'" and "alive_at i p'"
  shows "alive_at i p"
proof (cases l)
  case (L_worker n e k)
  then obtain tm ev where "worker_step (Worker n) e (p_tasks p ! n) = Some (tm, ev)"
    and "alive_at i (set_manager n tm p)"
    using assms by (auto simp: pool_step_def split: if_splits option.splits)
  then show ?thesis by (auto simp: worker_step_thread dest!: alive_at_manager)
next
  case (L_worker_spurious n)
  then show ?thesis
    using assms by (auto simp: pool_step_def worker_spurious_def split: if_splits
        dest!: alive_at_manager)
qed (use assms client_step_alive [of _ _ p p' i] in
    \<open>auto simp: pool_step_def split: if_splits client_pc.splits\<close>)

definition dead_at :: "nat \<Rightarrow> pool \<Rightarrow> bool" where
  "dead_at i p \<longleftrightarrow> \<not> alive_at i p"

interpretation dead: step_invariant pool_step "dead_at i"
  by unfold_locales (auto simp: dead_at_def dest: pool_step_alive)

lemma dead_from_start:
  "errs i = Some e \<Longrightarrow> dead_at i (pool_construct_stack errs n stack m)"
  by (auto simp: dead_at_def alive_at_def pool_construct_stack_def tm_construct_def)

lemma dead_manager:
  assumes "pool_good p" and "dead_at i p" and "i < length (p_tasks p)"
  shows "tm_task (p_tasks p ! i) = None \<and> tm_pc (p_tasks p ! i) = W_done \<and>
    \<not> is_alive (tm_thread (p_tasks p ! i)) \<and>
    (\<forall>pc \<in> set (p_clients p). \<forall>t. pc \<noteq> C_execute t (X_set i))"
proof -
  have sett: "settled p" using assms(1) by (simp add: pool_good_def)
  have "\<not> is_alive (tm_thread (p_tasks p ! i))"
    using assms(2,3) by (simp add: dead_at_def alive_at_def)
  moreover from this settledD(1) [OF sett] assms(3)
  have "tm_pc (p_tasks p ! i) = W_done" "tm_task (p_tasks p ! i) = None"
    by (auto simp: managers_settled_def manager_settled_def)
  moreover have "pc \<noteq> C_execute t (X_set i)" if pc: "pc \<in> set (p_clients p)" for pc t
  proof
    assume "pc = C_execute t (X_set i)"
    with pc settledD(2) [OF sett] have "client_knows (p_tasks p) (C_execute t (X_set i))"
      by (metis in_set_conv_nth)
    then show False using calculation(1) by (simp add: client_knows_def)
  qed
  ultimately show ?thesis by blast
qed

text \<open>A pool none of whose threads exists.\<close>
definition no_threads :: "pool \<Rightarrow> bool" where
  "no_threads p \<longleftrightarrow> pool_good p \<and> (\<forall>i. dead_at i p) \<and> p_started p = {#}"

lemma client_step_started: "client_step j k p = Some p' \<Longrightarrow> p_started p' = p_started p"
  by (auto simp: client_step_def pool_step_defs pool_upd
      split: client_pc.splits execute_pc.splits query.splits query_pc.splits term_pc.splits
        outcome.splits bool.splits prod.splits if_splits)

lemma no_threads_step:
  assumes "no_threads p" and step: "pool_step p l = Some p'"
  shows "no_threads p'"
proof -
  have "pool_good p'" and "\<forall>i. dead_at i p'"
    using assms pool_good_step [of p l p'] pool_step_alive [OF step]
    by (auto simp: no_threads_def dead_at_def)
  moreover have "p_started p' = p_started p"
  proof (cases l)
    case (L_worker i e k)
    then obtain tm ev where "i < length (p_tasks p)"
      and "worker_step (Worker i) e (p_tasks p ! i) = Some (tm, ev)"
      using step by (auto simp: pool_step_def split: if_splits option.splits)
    with dead_manager [of p i] assms(1) worker_step_not_done show ?thesis
      by (auto simp: no_threads_def)
  next
    case (L_call j c)
    then show ?thesis
      using step by (auto simp: pool_step_def client_call_def pool_upd
          split: if_splits client_pc.splits pool_call.splits)
  next
    case (L_client j k)
    then show ?thesis
      using step client_step_started by (auto simp: pool_step_def split: if_splits)
  qed (use step in \<open>auto simp: pool_step_def pool_upd split: if_splits\<close>)
  ultimately show ?thesis using assms(1) by (simp add: no_threads_def)
qed

interpretation threadless: step_invariant pool_step no_threads
  by unfold_locales (rule no_threads_step)

text \<open>
  C31: a thread the system refused never gets a task.  In a pool built when \<open>pthread_create\<close>
  failed for some of the threads, the manager of such a thread has an empty slot and is not
  alive in every state, and no client ever decides to hand it a task.  When it failed for all of
  them, no task is ever started, and until somebody terminates the pool every task submitted is
  still with the client that submitted it: no call of \<open>execute\<close> has returned.
\<close>
theorem pool_failed_threads:
  assumes "reach pool_step (pool_construct_stack errs n stack m) p"
  shows "(\<forall>i < length (p_tasks p). errs i \<noteq> None \<longrightarrow>
       tm_task (p_tasks p ! i) = None \<and> \<not> is_alive (tm_thread (p_tasks p ! i)) \<and>
       (\<forall>pc \<in> set (p_clients p). \<forall>t. pc \<noteq> C_execute t (X_set i))) \<and>
    ((\<forall>i < n. errs i \<noteq> None) \<longrightarrow> p_started p = {#} \<and>
       (p_terminating p \<or> p_tasks p = [] \<or> p_submitted p = owned in_flight (p_clients p)))"
proof -
  note good = pool_reach_good [OF assms]
  have dead: "dead_at i p" if "errs i \<noteq> None" for i
    using that dead.inv_reach [OF assms dead_from_start] by auto
  have "p_started p = {#} \<and>
      (p_terminating p \<or> p_tasks p = [] \<or> p_submitted p = owned in_flight (p_clients p))"
    if all: "\<forall>i < n. errs i \<noteq> None"
  proof -
    have "no_threads (pool_construct_stack errs n stack m)"
      using all pool_good_construct
      by (auto simp: no_threads_def dead_at_def alive_at_def pool_construct_stack_def
          tm_construct_def)
    from threadless.inv_reach [OF assms this] have none: "no_threads p" .
    then have "owned tm_held (p_tasks p) = {#}"
      by (intro owned_all_empty) (simp add: no_threads_def tm_held_def dead_manager)
    with none show ?thesis by (auto simp: no_threads_def pool_good_def ledger_def)
  qed
  with dead_manager [OF good dead] show ?thesis by blast
qed

definition refused_start :: pool where
  "refused_start = pool_construct (\<lambda>i. Some EAGAIN) 1 1"

theorem pool_failed_threads_witness:
  "\<exists>p. run_steps pool_step refused_start
       [L_call 0 (Do_execute (Some 5)), L_client 0 0, L_client 0 0, L_client 0 0, L_client 0 0,
        L_client 0 0] = Some p \<and>
     p_clients p = [C_execute (Some 5) X_asleep] \<and> p_started p = {#} \<and> p_submitted p = {#5#}"
proof -
  obtain p where run: "run_steps pool_step refused_start
       [L_call 0 (Do_execute (Some 5)), L_client 0 0, L_client 0 0, L_client 0 0, L_client 0 0,
        L_client 0 0] = Some p"
    and p: "p_clients p = [C_execute (Some 5) X_asleep]" "p_terminating p = False" "p_tasks p \<noteq> []"
    by (simp add: refused_start_def pool_construct_def pool_construct_stack_def tm_construct_def
        thread_defs run_eval)
  from run_steps_reach [OF run] have "reach pool_step
      (pool_construct_stack (\<lambda>i. Some EAGAIN) 1 default_stacksize 1) p"
    by (simp add: refused_start_def pool_construct_def)
  from pool_failed_threads [OF this] p run show ?thesis by auto
qed

end
