(* ===== verification/Ping_Pong.thy ===== *)
theory Ping_Pong
  imports Prelude "HOL-Library.Word"
begin

text \<open>
  \<open>perf_condition_variable.cpp\<close>: one producer and any number of consumers play ping-pong over a
  mutex and one condition variable.  The producer waits until every consumer has signalled,
  clears the semaphore and raises the counter; a consumer waits until the counter differs from
  the one it has seen and raises the semaphore; each notifies after it has left the mutex.  The
  condition variable is the list of the threads asleep on it; a thread may be woken by nobody.
  The numbers are \<open>unsigned\<close>, that is \<open>32 word\<close>.
\<close>

section \<open>State\<close>

text \<open>
  The producer: at the read of the semaphore before its loop, at the test of the loop, before
  the lock, at the test inside the lock, asleep, after the test, before \<open>notify_all\<close>, returned.
  A consumer: the same without the first.
\<close>
datatype pp_pc = PP_read | PP_loop | PP_lock | PP_test | PP_asleep | PP_set | PP_notify | PP_done

datatype pp_thread = Producer | Consumer nat

text \<open>The main thread joins the producer, then the consumers.\<close>
datatype pp_main = J_producer | J_consumer nat | J_done

record ping_pong =
  pp_iterations :: "32 word"
  pp_counter :: "32 word"
  pp_semaphore :: "32 word"
  pp_mtx :: "pp_thread option"
  pp_cnd :: "pp_thread list"
  pp_producer :: pp_pc
  pp_consumers :: "32 word"
  pp_i :: "32 word"
  pp_seen :: "(pp_pc \<times> 32 word) list"
  pp_main :: pp_main

text \<open>\<open>SharedData(iterations, consumers)\<close>, and all threads created.\<close>
definition pp_start :: "32 word \<Rightarrow> nat \<Rightarrow> ping_pong" where
  "pp_start iterations n =
     \<lparr>pp_iterations = iterations, pp_counter = 0, pp_semaphore = of_nat n, pp_mtx = None,
      pp_cnd = [], pp_producer = PP_read, pp_consumers = 0, pp_i = 0,
      pp_seen = replicate n (PP_loop, 0), pp_main = J_producer\<rparr>"

section \<open>The threads\<close>

text \<open>A thread that waits gives up the mutex; it goes on when it is woken and the mutex is free.\<close>
definition cnd_wait :: "pp_thread \<Rightarrow> ping_pong \<Rightarrow> ping_pong" where
  "cnd_wait t s = s\<lparr>pp_mtx := None, pp_cnd := pp_cnd s @ [t]\<rparr>"

definition may_lock :: "pp_thread \<Rightarrow> ping_pong \<Rightarrow> bool" where
  "may_lock t s \<longleftrightarrow> pp_mtx s = None \<and> t \<notin> set (pp_cnd s)"

text \<open>\<open>producer_thread\<close>\<close>
definition pp_producer_step :: "ping_pong \<Rightarrow> ping_pong option" where
  "pp_producer_step s =
     (case pp_producer s of
        PP_read \<Rightarrow> Some (s\<lparr>pp_consumers := pp_semaphore s, pp_i := pp_iterations s,
                           pp_producer := PP_loop\<rparr>)
      | PP_loop \<Rightarrow> Some (s\<lparr>pp_i := pp_i s - 1,
                           pp_producer := (if pp_i s \<noteq> 0 then PP_lock else PP_done)\<rparr>)
      | PP_lock \<Rightarrow> (if may_lock Producer s
                    then Some (s\<lparr>pp_mtx := Some Producer, pp_producer := PP_test\<rparr>) else None)
      | PP_test \<Rightarrow> (if pp_consumers s \<noteq> pp_semaphore s
                    then Some (cnd_wait Producer (s\<lparr>pp_producer := PP_asleep\<rparr>))
                    else Some (s\<lparr>pp_producer := PP_set\<rparr>))
      | PP_asleep \<Rightarrow> (if may_lock Producer s
                      then Some (s\<lparr>pp_mtx := Some Producer, pp_producer := PP_test\<rparr>) else None)
      | PP_set \<Rightarrow> Some (s\<lparr>pp_semaphore := 0, pp_counter := pp_counter s + 1, pp_mtx := None,
                          pp_producer := PP_notify\<rparr>)
      | PP_notify \<Rightarrow> Some (s\<lparr>pp_cnd := [], pp_producer := PP_loop\<rparr>)
      | PP_done \<Rightarrow> None)"

definition set_seen :: "nat \<Rightarrow> pp_pc \<Rightarrow> 32 word \<Rightarrow> ping_pong \<Rightarrow> ping_pong" where
  "set_seen j pc c s = s\<lparr>pp_seen := (pp_seen s)[j := (pc, c)]\<rparr>"

text \<open>\<open>consumer_thread\<close>\<close>
definition pp_consumer_step :: "nat \<Rightarrow> ping_pong \<Rightarrow> ping_pong option" where
  "pp_consumer_step j s =
     (case pp_seen s ! j of (pc, counter) \<Rightarrow>
        (case pc of
           PP_loop \<Rightarrow> Some (set_seen j (if counter \<noteq> pp_iterations s then PP_lock else PP_done)
                              counter s)
         | PP_lock \<Rightarrow> (if may_lock (Consumer j) s
                       then Some (set_seen j PP_test counter (s\<lparr>pp_mtx := Some (Consumer j)\<rparr>))
                       else None)
         | PP_test \<Rightarrow> (if counter = pp_counter s
                       then Some (set_seen j PP_asleep counter (cnd_wait (Consumer j) s))
                       else Some (set_seen j PP_set counter s))
         | PP_asleep \<Rightarrow> (if may_lock (Consumer j) s
                         then Some (set_seen j PP_test counter (s\<lparr>pp_mtx := Some (Consumer j)\<rparr>))
                         else None)
         | PP_set \<Rightarrow> Some (set_seen j PP_notify (pp_counter s)
                             (s\<lparr>pp_semaphore := pp_semaphore s + 1, pp_mtx := None\<rparr>))
         | PP_notify \<Rightarrow> Some (set_seen j PP_loop counter (s\<lparr>pp_cnd := []\<rparr>))
         | _ \<Rightarrow> None))"

text \<open>The joins of \<open>benchmark_ping_pong\<close>.\<close>
definition pp_main_step :: "ping_pong \<Rightarrow> ping_pong option" where
  "pp_main_step s =
     (case pp_main s of
        J_producer \<Rightarrow> (if pp_producer s = PP_done then Some (s\<lparr>pp_main := J_consumer 0\<rparr>) else None)
      | J_consumer j \<Rightarrow>
          (if j < length (pp_seen s) then
             (if fst (pp_seen s ! j) = PP_done then Some (s\<lparr>pp_main := J_consumer (Suc j)\<rparr>)
              else None)
           else Some (s\<lparr>pp_main := J_done\<rparr>))
      | J_done \<Rightarrow> None)"

datatype pp_label = PL_producer | PL_consumer nat | PL_main | PL_spurious pp_thread

fun pp_step :: "ping_pong \<Rightarrow> pp_label \<Rightarrow> ping_pong option" where
  "pp_step s PL_producer = pp_producer_step s"
| "pp_step s (PL_consumer j) = (if j < length (pp_seen s) then pp_consumer_step j s else None)"
| "pp_step s PL_main = pp_main_step s"
| "pp_step s (PL_spurious t) = Some (s\<lparr>pp_cnd := removeAll t (pp_cnd s)\<rparr>)"

text \<open>The best time of the ten repetitions.\<close>
fun best_time :: "int \<Rightarrow> int list \<Rightarrow> int" where
  "best_time best [] = best"
| "best_time best (t # ts) = best_time (min best t) ts"

lemmas pp_defs = pp_producer_step_def pp_consumer_step_def pp_main_step_def set_seen_def
  cnd_wait_def may_lock_def

section \<open>The invariant\<close>

text \<open>Where a thread has the mutex, and where the producer still has to raise the counter.\<close>
definition pp_inside :: "pp_pc \<Rightarrow> bool" where
  "pp_inside pc \<longleftrightarrow> pc = PP_test \<or> pc = PP_set"

definition pp_turn :: "pp_pc \<Rightarrow> bool" where
  "pp_turn pc \<longleftrightarrow> pc \<in> {PP_lock, PP_test, PP_asleep, PP_set}"

abbreviation pp_count :: "ping_pong \<Rightarrow> nat" where
  "pp_count s \<equiv> unat (pp_counter s)"

abbreviation seen_count :: "ping_pong \<Rightarrow> nat \<Rightarrow> nat" where
  "seen_count s j \<equiv> unat (snd (pp_seen s ! j))"

abbreviation cons_pc :: "ping_pong \<Rightarrow> nat \<Rightarrow> pp_pc" where
  "cons_pc s j \<equiv> fst (pp_seen s ! j)"

definition caught_up :: "ping_pong \<Rightarrow> nat set" where
  "caught_up s = {j. j < length (pp_seen s) \<and> snd (pp_seen s ! j) = pp_counter s}"

text \<open>The producer: its own variables, the mutex, and why it sleeps.\<close>
definition producer_ok :: "nat \<Rightarrow> ping_pong \<Rightarrow> bool" where
  "producer_ok n s \<longleftrightarrow>
     (case pp_producer s of
        PP_read \<Rightarrow> pp_counter s = 0
      | PP_done \<Rightarrow> pp_counter s = pp_iterations s
      | pc \<Rightarrow> unat (pp_i s) + pp_count s + (if pp_turn pc then 1 else 0) = unat (pp_iterations s)) \<and>
     (pp_producer s \<noteq> PP_read \<longrightarrow> pp_consumers s = of_nat n) \<and>
     (pp_producer s = PP_set \<longrightarrow> pp_semaphore s = of_nat n) \<and>
     (pp_mtx s = Some Producer \<longleftrightarrow> pp_inside (pp_producer s)) \<and>
     (Producer \<in> set (pp_cnd s) \<longrightarrow> pp_producer s = PP_asleep)"

definition consumer_ok :: "ping_pong \<Rightarrow> nat \<Rightarrow> bool" where
  "consumer_ok s j \<longleftrightarrow>
     (seen_count s j = pp_count s \<or> Suc (seen_count s j) = pp_count s) \<and>
     (pp_turn (cons_pc s j) \<longrightarrow> snd (pp_seen s ! j) \<noteq> pp_iterations s) \<and>
     (cons_pc s j = PP_set \<longrightarrow> snd (pp_seen s ! j) \<noteq> pp_counter s) \<and>
     (cons_pc s j = PP_done \<longrightarrow> snd (pp_seen s ! j) = pp_iterations s) \<and>
     cons_pc s j \<noteq> PP_read \<and>
     (pp_mtx s = Some (Consumer j) \<longleftrightarrow> pp_inside (cons_pc s j)) \<and>
     (Consumer j \<in> set (pp_cnd s) \<longrightarrow> cons_pc s j = PP_asleep)"

text \<open>Somebody is about to notify.\<close>
definition notifying :: "ping_pong \<Rightarrow> bool" where
  "notifying s \<longleftrightarrow> pp_producer s = PP_notify \<or> (\<exists>j < length (pp_seen s). cons_pc s j = PP_notify)"

definition main_ok :: "ping_pong \<Rightarrow> bool" where
  "main_ok s \<longleftrightarrow>
     (case pp_main s of J_producer \<Rightarrow> True
      | J_consumer k \<Rightarrow> pp_producer s = PP_done \<and> (\<forall>j < length (pp_seen s). j < k \<longrightarrow> cons_pc s j = PP_done)
      | J_done \<Rightarrow> pp_producer s = PP_done \<and> (\<forall>j < length (pp_seen s). cons_pc s j = PP_done))"

text \<open>
  The semaphore counts the consumers that have seen the counter; and whoever sleeps and is not
  woken has a reason to sleep, or a notification is on its way.
\<close>
definition pp_inv :: "nat \<Rightarrow> ping_pong \<Rightarrow> bool" where
  "pp_inv n s \<longleftrightarrow>
     length (pp_seen s) = n \<and> n < 2 ^ 32 \<and> pp_count s \<le> unat (pp_iterations s) \<and>
     unat (pp_semaphore s) = card (caught_up s) \<and>
     producer_ok n s \<and> (\<forall>j < n. consumer_ok s j) \<and>
     (\<forall>j. pp_mtx s = Some (Consumer j) \<longrightarrow> j < n) \<and>
     (Producer \<in> set (pp_cnd s) \<longrightarrow> card (caught_up s) < n \<or> notifying s) \<and>
     (\<forall>j < n. Consumer j \<in> set (pp_cnd s) \<longrightarrow>
        snd (pp_seen s ! j) = pp_counter s \<or> notifying s) \<and>
     main_ok s"

end
