(* ===== verification/Ping_Pong_Runs.thy ===== *)
theory Ping_Pong_Runs
  imports Ping_Pong
begin

text \<open>
  What is proved of the ping-pong of \<open>Ping_Pong\<close>: the invariant is kept by every step, so every
  consumer sees every value of the counter; nobody sleeps for ever; and without spurious wakeups
  every execution ends, after a number of steps that the potential at the start bounds.
\<close>

section \<open>Unsigned numbers\<close>

lemma word_up:
  fixes w v :: "32 word"
  assumes "unat w < unat v"
  shows "unat (w + 1) = Suc (unat w)"
proof -
  have "w < v" using assms by (simp add: word_less_nat_alt)
  then have "w \<noteq> - 1" using word_order.extremum_strict by blast
  then have "1 + w \<noteq> 0" by (metis add.commute eq_neg_iff_add_eq_0)
  then show ?thesis using unatSuc [of w] by (simp add: add.commute)
qed

lemma word_of_count: "n < 2 ^ 32 \<Longrightarrow> unat (of_nat n :: 32 word) = n"
  by (simp add: unat_of_nat take_bit_eq_mod)

lemma word_down: "(w :: 32 word) \<noteq> 0 \<Longrightarrow> Suc (unat (w - 1)) = unat w"
  by (simp add: unat_minus_one unat_gt_0)

lemma word_next: "(w :: 32 word) + 1 \<noteq> w"
  by simp

section \<open>The invariant is kept\<close>

lemma pp_invD:
  assumes "pp_inv n s"
  shows "length (pp_seen s) = n" and "n < 2 ^ 32" and "pp_count s \<le> unat (pp_iterations s)"
    and "unat (pp_semaphore s) = card (caught_up s)" and "producer_ok n s"
    and "j < n \<Longrightarrow> consumer_ok s j" and "main_ok s"
  using assms by (auto simp: pp_inv_def)

lemma pp_invI:
  assumes "length (pp_seen s) = n" and "n < 2 ^ 32" and "pp_count s \<le> unat (pp_iterations s)"
    and "unat (pp_semaphore s) = card (caught_up s)" and "producer_ok n s"
    and "\<And>j. j < n \<Longrightarrow> consumer_ok s j"
    and "\<And>j. pp_mtx s = Some (Consumer j) \<Longrightarrow> j < n"
    and "Producer \<in> set (pp_cnd s) \<Longrightarrow> card (caught_up s) < n \<or> notifying s"
    and "\<And>j. j < n \<Longrightarrow> Consumer j \<in> set (pp_cnd s) \<Longrightarrow>
      snd (pp_seen s ! j) = pp_counter s \<or> notifying s"
    and "main_ok s"
  shows "pp_inv n s"
  using assms by (simp add: pp_inv_def)

text \<open>Why a thread that sleeps and is not woken sleeps.\<close>
lemma pp_inv_asleep:
  assumes "pp_inv n s"
  shows "Producer \<in> set (pp_cnd s) \<Longrightarrow> card (caught_up s) < n \<or> notifying s"
    and "j < n \<Longrightarrow> Consumer j \<in> set (pp_cnd s) \<Longrightarrow>
      snd (pp_seen s ! j) = pp_counter s \<or> notifying s"
    and "pp_mtx s = Some (Consumer j) \<Longrightarrow> j < n"
  using assms by (simp_all add: pp_inv_def)

lemma producer_keep:
  assumes "producer_ok n s"
    and same: "pp_producer s' = pp_producer s" "pp_counter s' = pp_counter s"
      "pp_iterations s' = pp_iterations s" "pp_i s' = pp_i s" "pp_consumers s' = pp_consumers s"
    and "pp_producer s \<noteq> PP_set \<or> pp_semaphore s' = pp_semaphore s"
    and "pp_mtx s' = Some Producer \<longleftrightarrow> pp_mtx s = Some Producer"
    and "Producer \<in> set (pp_cnd s') \<Longrightarrow> Producer \<in> set (pp_cnd s)"
  shows "producer_ok n s'"
  using assms(1,7-) unfolding producer_ok_def same by metis

lemma consumer_keep:
  assumes "consumer_ok s j"
    and same: "pp_seen s' ! j = pp_seen s ! j" "pp_counter s' = pp_counter s"
      "pp_iterations s' = pp_iterations s"
    and "pp_mtx s' = Some (Consumer j) \<longleftrightarrow> pp_mtx s = Some (Consumer j)"
    and "Consumer j \<in> set (pp_cnd s') \<Longrightarrow> Consumer j \<in> set (pp_cnd s)"
  shows "consumer_ok s' j"
  using assms(1,5-) unfolding consumer_ok_def same by blast

lemma caught_up_finite [simp]: "finite (caught_up s)"
  by (simp add: caught_up_def)

lemma caught_up_all: "card (caught_up s) = length (pp_seen s) \<longleftrightarrow> caught_up s = {..<length (pp_seen s)}"
proof -
  have "caught_up s \<subseteq> {..<length (pp_seen s)}" by (auto simp: caught_up_def)
  then show ?thesis by (metis card_lessThan card_subset_eq finite_lessThan)
qed

lemma caught_up_le: "card (caught_up s) \<le> length (pp_seen s)"
proof -
  have "caught_up s \<subseteq> {..<length (pp_seen s)}" by (auto simp: caught_up_def)
  then show ?thesis by (metis card_lessThan card_mono finite_lessThan)
qed

lemma pp_inv_start:
  "n < 2 ^ 32 \<Longrightarrow> pp_inv n (pp_start iterations n)"
proof -
  assume n: "n < 2 ^ 32"
  have "caught_up (pp_start iterations n) = {..<n}"
    by (auto simp: caught_up_def pp_start_def)
  then show ?thesis
    using n by (auto simp: pp_inv_def pp_start_def producer_ok_def consumer_ok_def main_ok_def
        pp_inside_def pp_turn_def word_of_count)
qed

text \<open>The counter, the semaphore and the consumers stay; only the producer moves.\<close>
lemma producer_move:
  assumes inv: "pp_inv n s"
    and same: "pp_seen s' = pp_seen s" "pp_counter s' = pp_counter s"
      "pp_semaphore s' = pp_semaphore s" "pp_iterations s' = pp_iterations s"
      "pp_main s' = pp_main s"
    and ok: "producer_ok n s'" and before: "pp_producer s \<noteq> PP_done"
    and mtx: "\<And>j. pp_mtx s' = Some (Consumer j) \<longleftrightarrow> pp_mtx s = Some (Consumer j)"
    and cnd: "\<And>j. Consumer j \<in> set (pp_cnd s') \<Longrightarrow> Consumer j \<in> set (pp_cnd s)"
    and told: "pp_producer s = PP_notify \<Longrightarrow> pp_cnd s' = []"
    and asleep: "Producer \<in> set (pp_cnd s') \<Longrightarrow>
      Producer \<in> set (pp_cnd s) \<or> card (caught_up s) < n"
  shows "pp_inv n s'"
proof -
  have "caught_up s' = caught_up s" by (simp add: caught_up_def same)
  moreover have "consumer_ok s' j" if "j < n" for j
    using pp_invD(6) [OF inv that] mtx [of j] cnd [of j] by (auto simp: consumer_ok_def same)
  moreover have "notifying s' \<or> pp_cnd s' = []" if "notifying s"
    using that told by (auto simp: notifying_def same)
  moreover have "main_ok s'"
    using pp_invD(7) [OF inv] before by (auto simp: main_ok_def same split: pp_main.splits)
  ultimately show ?thesis
    using inv ok mtx cnd asleep unfolding pp_inv_def same by (metis empty_iff list.set(1))
qed

lemma producer_clear:
  assumes inv: "pp_inv n s" and pc: "pp_producer s = PP_set"
    and step: "pp_producer_step s = Some s'"
  shows "pp_inv n s'"
proof -
  note inv' = pp_invD [OF inv]
  have sem: "pp_semaphore s = of_nat n"
    and i: "unat (pp_i s) + Suc (pp_count s) = unat (pp_iterations s)"
    and out: "Producer \<notin> set (pp_cnd s)" "pp_consumers s = of_nat n"
      "pp_mtx s = Some Producer"
    using inv'(5) pc by (auto simp: producer_ok_def pp_turn_def pp_inside_def)
  have up: "unat (pp_counter s + 1) = Suc (pp_count s)"
    using i by (intro word_up [of _ "pp_iterations s"]) simp
  have "card (caught_up s) = n" using inv'(2,4) sem by (simp add: word_of_count)
  then have all: "j < n \<Longrightarrow> snd (pp_seen s ! j) = pp_counter s" for j
    using caught_up_all [of s] inv'(1) by (auto simp: caught_up_def)
  have s': "s' = s\<lparr>pp_semaphore := 0, pp_counter := pp_counter s + 1, pp_mtx := None,
                   pp_producer := PP_notify\<rparr>"
    using step pc by (simp add: pp_producer_step_def)
  have none: "caught_up s' = {}"
    using all inv'(1) by (auto simp: caught_up_def s')
  have cons: "consumer_ok s' j" if "j < n" for j
    using inv'(6) [OF that] all [OF that] up out
    by (auto simp: consumer_ok_def s' pp_inside_def)
  have "main_ok s'" using inv'(7) pc by (auto simp: main_ok_def s' split: pp_main.splits)
  moreover have "producer_ok n s'"
    using i up out by (auto simp: producer_ok_def s' pp_turn_def pp_inside_def)
  ultimately show ?thesis
    using inv'(1,2) cons none i up by (auto simp: pp_inv_def s' notifying_def)
qed

lemma pp_inv_producer:
  assumes inv: "pp_inv n s" and step: "pp_producer_step s = Some s'"
  shows "pp_inv n s'"
proof (cases "pp_producer s")
  case PP_set
  then show ?thesis using producer_clear [OF inv _ step] by simp
next
  case PP_test
  note ok = pp_invD(2,4,5) [OF inv] caught_up_le [of s] pp_invD(1) [OF inv]
  have "pp_mtx s = Some Producer"
    using ok(3) PP_test by (auto simp: producer_ok_def pp_inside_def)
  show ?thesis
  proof (cases "pp_consumers s = pp_semaphore s")
    case True
    then have "s' = s\<lparr>pp_producer := PP_set\<rparr>"
      using step PP_test by (simp add: pp_producer_step_def)
    then show ?thesis
      using True PP_test ok
      by (intro producer_move [OF inv]) (auto simp: producer_ok_def pp_turn_def pp_inside_def)
  next
    case False
    then have s': "s' = cnd_wait Producer (s\<lparr>pp_producer := PP_asleep\<rparr>)"
      using step PP_test by (simp add: pp_producer_step_def)
    have "card (caught_up s) \<noteq> n"
    proof
      assume "card (caught_up s) = n"
      then have "pp_semaphore s = of_nat n"
        using ok(1,2) by (simp add: word_unat_eq_iff word_of_count)
      then show False using False ok(3) PP_test by (simp add: producer_ok_def)
    qed
    then show ?thesis
      using PP_test ok \<open>pp_mtx s = Some Producer\<close>
      by (intro producer_move [OF inv])
        (auto simp: s' cnd_wait_def producer_ok_def pp_turn_def pp_inside_def)
  qed
next
  case PP_read
  have "n = unat (pp_semaphore s)"
  proof -
    have "pp_count s = 0" using pp_invD(5) [OF inv] PP_read by (simp add: producer_ok_def)
    then have "caught_up s = {..<n}"
      using pp_invD(1,6) [OF inv] by (auto simp: caught_up_def consumer_ok_def unat_eq_0)
    then show ?thesis using pp_invD(4) [OF inv] by simp
  qed
  then show ?thesis
    using step PP_read pp_invD(3,5) [OF inv]
    by (intro producer_move [OF inv])
      (auto simp: pp_producer_step_def producer_ok_def pp_turn_def pp_inside_def)
next
  case PP_loop
  then show ?thesis
    using step pp_invD(5) [OF inv] word_down [of "pp_i s"]
    by (intro producer_move [OF inv])
      (auto simp: pp_producer_step_def producer_ok_def pp_turn_def pp_inside_def word_unat_eq_iff
        split: if_splits)
next
  case PP_notify
  then show ?thesis
    using step pp_invD(5) [OF inv]
    by (intro producer_move [OF inv])
      (auto simp: pp_producer_step_def producer_ok_def pp_turn_def pp_inside_def)
next
  case PP_lock
  then show ?thesis
    using step pp_invD(5) [OF inv]
    by (intro producer_move [OF inv])
      (auto simp: pp_producer_step_def may_lock_def producer_ok_def pp_turn_def pp_inside_def
        split: if_splits)
next
  case PP_asleep
  then show ?thesis
    using step pp_invD(5) [OF inv]
    by (intro producer_move [OF inv])
      (auto simp: pp_producer_step_def may_lock_def producer_ok_def pp_turn_def pp_inside_def
        split: if_splits)
qed (use step in \<open>simp add: pp_producer_step_def\<close>)

text \<open>One consumer moves; the counter, the semaphore and the producer stay.\<close>
lemma consumer_move:
  assumes inv: "pp_inv n s" and j: "j < n"
    and seen: "pp_seen s' = (pp_seen s)[j := (pc, snd (pp_seen s ! j))]"
    and same: "pp_counter s' = pp_counter s" "pp_semaphore s' = pp_semaphore s"
      "pp_iterations s' = pp_iterations s" "pp_main s' = pp_main s"
      "pp_producer s' = pp_producer s" "pp_consumers s' = pp_consumers s" "pp_i s' = pp_i s"
    and ok: "consumer_ok s' j" and before: "cons_pc s j \<noteq> PP_done"
    and mtx: "\<And>t. t \<noteq> Consumer j \<Longrightarrow> pp_mtx s' = Some t \<longleftrightarrow> pp_mtx s = Some t"
    and cnd: "\<And>t. t \<noteq> Consumer j \<Longrightarrow> t \<in> set (pp_cnd s') \<Longrightarrow> t \<in> set (pp_cnd s)"
    and told: "cons_pc s j = PP_notify \<Longrightarrow> pp_cnd s' = []"
    and asleep: "Consumer j \<in> set (pp_cnd s') \<Longrightarrow>
      Consumer j \<in> set (pp_cnd s) \<or> snd (pp_seen s ! j) = pp_counter s"
  shows "pp_inv n s'"
proof -
  note len = pp_invD(1) [OF inv]
  have at: "pp_seen s' ! i = (if i = j then (pc, snd (pp_seen s ! j)) else pp_seen s ! i)"
    if "i < n" for i using that j len by (simp add: seen)
  have caught: "caught_up s' = caught_up s"
    using at len by (auto simp: caught_up_def same seen split: if_splits)
  have told': "notifying s' \<or> pp_cnd s' = []" if "notifying s"
  proof (cases "cons_pc s j = PP_notify")
    case False
    have "cons_pc s' i = PP_notify" if "cons_pc s i = PP_notify" "i < n" for i
      using that False at by auto
    then show ?thesis using \<open>notifying s\<close> len by (auto simp: notifying_def same seen)
  qed (simp add: told)
  have ended: "cons_pc s' i = PP_done" if "cons_pc s i = PP_done" "i < n" for i
    using that before at by auto
  have main: "main_ok s'"
    using pp_invD(7) [OF inv] len ended
    by (auto simp: main_ok_def same seen split: pp_main.splits)
  have prod: "producer_ok n s'"
    by (rule producer_keep [OF pp_invD(5) [OF inv]]) (auto simp: same mtx cnd)
  have cons: "consumer_ok s' i" if "i < n" for i
    using pp_invD(6) [OF inv that] mtx [of "Consumer i"] cnd [of "Consumer i"] ok at [OF that]
    by (cases "i = j") (auto simp: consumer_ok_def same)
  have own: "i < n" if "pp_mtx s' = Some (Consumer i)" for i
    using that j pp_inv_asleep(3) [OF inv, of i] mtx [of "Consumer i"] by (cases "i = j") auto
  have sleeper: "snd (pp_seen s' ! i) = pp_counter s' \<or> notifying s'"
    if "i < n" "Consumer i \<in> set (pp_cnd s')" for i
    using that cnd [of "Consumer i"] asleep pp_inv_asleep(2) [OF inv that(1)] told' at [OF that(1)]
    by (cases "i = j") (auto simp: same)
  have "card (caught_up s') < n \<or> notifying s'" if "Producer \<in> set (pp_cnd s')"
    using that cnd [of Producer] pp_inv_asleep(1) [OF inv] told' by (auto simp: caught)
  then show ?thesis
    using pp_invD(2-4) [OF inv] len caught
    by (intro pp_invI prod cons sleeper main) (simp_all add: own same seen)
qed

lemma consumer_signal:
  assumes inv: "pp_inv n s" and j: "j < n" and pc: "cons_pc s j = PP_set"
    and step: "pp_consumer_step j s = Some s'"
  shows "pp_inv n s'"
proof -
  note inv' = pp_invD [OF inv]
  have behind: "snd (pp_seen s ! j) \<noteq> pp_counter s" "Suc (seen_count s j) = pp_count s"
    and own: "pp_mtx s = Some (Consumer j)" "Consumer j \<notin> set (pp_cnd s)"
    using inv'(6) [OF j] pc by (auto simp: consumer_ok_def pp_inside_def word_unat_eq_iff)
  have s': "s' = set_seen j PP_notify (pp_counter s)
              (s\<lparr>pp_semaphore := pp_semaphore s + 1, pp_mtx := None\<rparr>)"
    using step pc by (cases "pp_seen s ! j") (simp add: pp_consumer_step_def)
  have at: "pp_seen s' ! i = (if i = j then (PP_notify, pp_counter s) else pp_seen s ! i)"
    if "i < n" for i using that j inv'(1) by (simp add: s' set_seen_def)
  have caught: "caught_up s' = insert j (caught_up s)" and new: "j \<notin> caught_up s"
    using at j inv'(1) behind by (auto simp: caught_up_def s' set_seen_def)
  have "card (insert j (caught_up s)) \<le> n"
    using caught_up_le [of s'] inv'(1) unfolding caught by (simp add: s' set_seen_def)
  then have "unat (pp_semaphore s) < unat (of_nat n :: 32 word)"
    using inv'(2,4) new by (simp add: word_of_count)
  then have sem: "unat (pp_semaphore s + 1) = Suc (unat (pp_semaphore s))" by (rule word_up)
  have noset: "pp_producer s \<noteq> PP_set"
    using inv'(5) own unfolding producer_ok_def pp_inside_def by fastforce
  have cons: "consumer_ok s' i" if "i < n" for i
    using inv'(6) [OF that] own at [OF that]
    by (cases "i = j") (auto simp: consumer_ok_def s' set_seen_def pp_inside_def pp_turn_def)
  have prod: "producer_ok n s'"
    by (rule producer_keep [OF inv'(5)]) (auto simp: s' set_seen_def noset own)
  have "cons_pc s' i = PP_done" if "cons_pc s i = PP_done" "i < n" for i
    using that pc at by auto
  then have main: "main_ok s'"
    using inv'(1,7) by (auto simp: main_ok_def s' set_seen_def split: pp_main.splits)
  have "cons_pc s' j = PP_notify" and len: "length (pp_seen s') = n"
    using j inv'(1) at by (simp_all add: s' set_seen_def)
  then have "notifying s'" using j by (auto simp: notifying_def)
  then show ?thesis
    using inv'(2-4) new sem caught len
    by (intro pp_invI prod cons main) (simp_all add: s' set_seen_def)
qed

lemma pp_inv_consumer:
  assumes inv: "pp_inv n s" and j: "j < n" and step: "pp_consumer_step j s = Some s'"
  shows "pp_inv n s'"
proof -
  note len = pp_invD(1) [OF inv]
  obtain pc c where entry: "pp_seen s ! j = (pc, c)" by (cases "pp_seen s ! j")
  note ok = pp_invD(6) [OF inv j]
  note defs = pp_consumer_step_def set_seen_def cnd_wait_def may_lock_def
  have move: "pp_inv n s'" if "s' = set_seen j pc' c t" "pc \<noteq> PP_done"
    "t = s \<or> t = s\<lparr>pp_mtx := Some (Consumer j)\<rparr> \<and> may_lock (Consumer j) s \<or>
     t = cnd_wait (Consumer j) s \<and> c = pp_counter s \<and> pp_mtx s = Some (Consumer j) \<or>
     t = s\<lparr>pp_cnd := []\<rparr>"
    "consumer_ok s' j" "pc = PP_notify \<Longrightarrow> t = s\<lparr>pp_cnd := []\<rparr>" for pc' t
    using that entry j len
    by (intro consumer_move [OF inv j, where pc = pc'])
      (auto simp: set_seen_def cnd_wait_def may_lock_def)
  show ?thesis
  proof (cases pc)
    case PP_set
    then show ?thesis using consumer_signal [OF inv j _ step] entry by simp
  next
    case PP_loop
    then show ?thesis
      using step entry ok j len
      by (intro move [where t = s
            and pc' = "if c \<noteq> pp_iterations s then PP_lock else PP_done"])
        (auto simp: defs consumer_ok_def pp_inside_def pp_turn_def split: if_splits)
  next
    case PP_lock
    then show ?thesis
      using step entry ok j len
      by (intro move [where t = "s\<lparr>pp_mtx := Some (Consumer j)\<rparr>"])
        (auto simp: defs consumer_ok_def pp_inside_def pp_turn_def split: if_splits)
  next
    case PP_asleep
    then show ?thesis
      using step entry ok j len
      by (intro move [where t = "s\<lparr>pp_mtx := Some (Consumer j)\<rparr>"])
        (auto simp: defs consumer_ok_def pp_inside_def pp_turn_def split: if_splits)
  next
    case PP_test
    then show ?thesis
      using step entry ok j len
      by (cases "c = pp_counter s";
          intro move [where t = "if c = pp_counter s then cnd_wait (Consumer j) s else s"])
        (auto simp: defs consumer_ok_def pp_inside_def pp_turn_def)
  next
    case PP_notify
    then show ?thesis
      using step entry ok j len
      by (intro move [where t = "s\<lparr>pp_cnd := []\<rparr>"])
        (auto simp: defs consumer_ok_def pp_inside_def pp_turn_def)
  qed (use step entry in \<open>simp_all add: pp_consumer_step_def\<close>)
qed

text \<open>Threads may be woken and the main thread may go on.\<close>
lemma pp_inv_woken:
  assumes inv: "pp_inv n s" and "set c \<subseteq> set (pp_cnd s)" and "main_ok (s\<lparr>pp_main := m\<rparr>)"
  shows "pp_inv n (s\<lparr>pp_cnd := c, pp_main := m\<rparr>)"
proof -
  let ?s = "s\<lparr>pp_cnd := c, pp_main := m\<rparr>"
  have same: "caught_up ?s = caught_up s" "notifying ?s = notifying s"
    by (simp_all add: caught_up_def notifying_def)
  have "consumer_ok ?s j" if "j < n" for j
    using assms(2) by (intro consumer_keep [OF pp_invD(6) [OF inv that]]) auto
  moreover have "producer_ok n ?s"
    using assms(2) by (intro producer_keep [OF pp_invD(5) [OF inv]]) auto
  moreover have "main_ok ?s" using assms(3) by (simp add: main_ok_def split: pp_main.splits)
  ultimately show ?thesis
    using pp_invD(1-4) [OF inv] pp_inv_asleep [OF inv] assms(2)
    by (intro pp_invI) (auto simp: same)
qed

lemma pp_inv_step:
  assumes inv: "pp_inv n s" and step: "pp_step s l = Some s'"
  shows "pp_inv n s'"
proof (cases l)
  case PL_producer
  then show ?thesis using pp_inv_producer [OF inv] step by simp
next
  case (PL_consumer j)
  then show ?thesis
    using pp_inv_consumer [OF inv] step pp_invD(1) [OF inv] by (auto split: if_splits)
next
  case PL_main
  then obtain m where s': "s' = s\<lparr>pp_main := m\<rparr>"
    using step by (auto simp: pp_main_step_def split: pp_main.splits if_splits)
  have "main_ok s'"
    using PL_main step pp_invD(7) [OF inv]
    by (auto simp: pp_main_step_def main_ok_def less_Suc_eq split: pp_main.splits if_splits)
  then show ?thesis using pp_inv_woken [OF inv, of "pp_cnd s" m] by (simp add: s')
next
  case (PL_spurious t)
  then have s': "s' = s\<lparr>pp_cnd := removeAll t (pp_cnd s)\<rparr>" using step by simp
  then show ?thesis
    using pp_inv_woken [OF inv, of "removeAll t (pp_cnd s)" "pp_main s"] pp_invD(7) [OF inv]
    by auto
qed

interpretation ping_pong: step_invariant pp_step "pp_inv n"
  by unfold_locales (rule pp_inv_step)

section \<open>Nobody is stuck\<close>

lemma producer_stuck:
  "pp_producer_step s = None \<Longrightarrow>
   pp_producer s = PP_done \<or> \<not> pp_inside (pp_producer s) \<and> \<not> may_lock Producer s"
  by (auto simp: pp_producer_step_def pp_inside_def split: pp_pc.splits if_splits)

lemma consumer_stuck:
  "pp_consumer_step j s = None \<Longrightarrow> cons_pc s j \<noteq> PP_read \<Longrightarrow>
   cons_pc s j = PP_done \<or> \<not> pp_inside (cons_pc s j) \<and> \<not> may_lock (Consumer j) s"
  by (cases "pp_seen s ! j")
    (auto simp: pp_consumer_step_def pp_inside_def split: pp_pc.splits if_splits)

lemma not_notifying:
  assumes "pp_producer_step s = None" and "\<And>j. j < length (pp_seen s) \<Longrightarrow> pp_consumer_step j s = None"
  shows "\<not> notifying s"
proof
  assume "notifying s"
  then consider "pp_producer s = PP_notify"
    | j where "j < length (pp_seen s)" "cons_pc s j = PP_notify"
    by (auto simp: notifying_def)
  then show False
  proof cases
    case 1
    then show ?thesis using assms(1) by (simp add: pp_producer_step_def)
  next
    case (2 j)
    then show ?thesis
      using assms(2) [OF 2(1)] by (cases "pp_seen s ! j") (simp add: pp_consumer_step_def)
  qed
qed

lemma all_done:
  assumes inv: "pp_inv n s" and prod: "pp_producer_step s = None"
    and cons: "\<And>j. j < n \<Longrightarrow> pp_consumer_step j s = None"
  shows "pp_producer s = PP_done \<and> (\<forall>j < n. cons_pc s j = PP_done)"
proof -
  note inv' = pp_invD [OF inv]
  have quiet: "\<not> notifying s" using not_notifying [OF prod] cons inv'(1) by simp
  have c: "cons_pc s j = PP_done \<or> \<not> pp_inside (cons_pc s j) \<and> \<not> may_lock (Consumer j) s"
    if "j < n" for j
    using consumer_stuck [OF cons [OF that]] inv'(6) [OF that] by (simp add: consumer_ok_def)
  have free: "pp_mtx s = None"
  proof (cases "pp_mtx s")
    case (Some t)
    show ?thesis
    proof (cases t)
      case Producer
      then have "pp_inside (pp_producer s)"
        using Some inv'(5) unfolding producer_ok_def by blast
      then show ?thesis using producer_stuck [OF prod] by (auto simp: pp_inside_def)
    next
      case (Consumer j)
      then have "j < n" using Some pp_inv_asleep(3) [OF inv] by simp
      then show ?thesis
        using c [of j] inv'(6) [of j] Some Consumer by (auto simp: consumer_ok_def pp_inside_def)
    qed
  qed
  have asleep: "cons_pc s j = PP_done \<or> Consumer j \<in> set (pp_cnd s)" if "j < n" for j
    using c [OF that] free by (auto simp: may_lock_def)
  have sleeper: "snd (pp_seen s ! j) = pp_counter s \<and> snd (pp_seen s ! j) \<noteq> pp_iterations s"
    if "j < n" "Consumer j \<in> set (pp_cnd s)" for j
    using pp_inv_asleep(2) [OF inv that] quiet inv'(6) [OF that(1)] that
    by (auto simp: consumer_ok_def pp_turn_def)
  have "Producer \<notin> set (pp_cnd s)"
  proof
    assume "Producer \<in> set (pp_cnd s)"
    then have "card (caught_up s) < n" using pp_inv_asleep(1) [OF inv] quiet by simp
    then have "caught_up s \<noteq> {..<n}" by (metis card_lessThan less_irrefl)
    then obtain j where j: "j < n" "snd (pp_seen s ! j) \<noteq> pp_counter s"
      using inv'(1) by (auto simp: caught_up_def)
    then have "Suc (seen_count s j) = pp_count s"
      using inv'(6) [OF j(1)] by (auto simp: consumer_ok_def word_unat_eq_iff)
    moreover have "cons_pc s j = PP_done" using asleep [OF j(1)] sleeper [OF j(1)] j(2) by blast
    then have "snd (pp_seen s ! j) = pp_iterations s"
      using inv'(6) [OF j(1)] unfolding consumer_ok_def by blast
    ultimately show False using inv'(3) by simp
  qed
  then have prod_done: "pp_producer s = PP_done"
    using producer_stuck [OF prod] free by (auto simp: may_lock_def)
  then have "pp_counter s = pp_iterations s"
    using inv'(5) unfolding producer_ok_def by simp
  then have "Consumer j \<notin> set (pp_cnd s)" if "j < n" for j
    using sleeper [OF that] by metis
  with asleep prod_done show ?thesis by blast
qed

lemma pp_can_go:
  assumes inv: "pp_inv n s" and "pp_main s \<noteq> J_done"
  shows "\<exists>l s'. (\<forall>t. l \<noteq> PL_spurious t) \<and> pp_step s l = Some s'"
proof (rule ccontr)
  assume stuck: "\<not> ?thesis"
  have none: "pp_step s l = None" if "\<forall>t. l \<noteq> PL_spurious t" for l
    using stuck that by (cases "pp_step s l") auto
  have "pp_consumer_step j s = None" if "j < n" for j
    using none [of "PL_consumer j"] that pp_invD(1) [OF inv] by simp
  moreover have "pp_producer_step s = None" using none [of PL_producer] by simp
  ultimately have ended: "pp_producer s = PP_done" "\<And>j. j < n \<Longrightarrow> cons_pc s j = PP_done"
    using all_done [OF inv] by blast+
  have "pp_main_step s = None" using none [of PL_main] by simp
  then show False
    using ended assms(2) pp_invD(1) [OF inv]
    by (auto simp: pp_main_step_def split: pp_main.splits if_splits)
qed

section \<open>Every execution without spurious wakeups ends\<close>

text \<open>
  What a thread still does before its next change of the counters, plus what a notification may
  cost the others; a thread that sleeps and is not woken does nothing.
\<close>
definition pp_weight :: "nat \<Rightarrow> bool \<Rightarrow> pp_pc \<Rightarrow> nat" where
  "pp_weight n asleep pc =
     (case pc of PP_read \<Rightarrow> 5 | PP_loop \<Rightarrow> 4 | PP_lock \<Rightarrow> 3 | PP_test \<Rightarrow> 2
      | PP_asleep \<Rightarrow> if asleep then 0 else 3 | PP_set \<Rightarrow> 1 | PP_notify \<Rightarrow> 3 * n + 8 | PP_done \<Rightarrow> 0)"

definition producer_left :: "nat \<Rightarrow> ping_pong \<Rightarrow> nat" where
  "producer_left n s =
     pp_weight n (Producer \<in> set (pp_cnd s)) (pp_producer s)
       + (3 * n + 8) * (unat (pp_iterations s) - pp_count s)"

definition consumer_left :: "nat \<Rightarrow> ping_pong \<Rightarrow> nat \<Rightarrow> nat" where
  "consumer_left n s j =
     pp_weight n (Consumer j \<in> set (pp_cnd s)) (cons_pc s j)
       + (3 * n + 8) * (unat (pp_iterations s) - seen_count s j)"

definition main_left :: "nat \<Rightarrow> ping_pong \<Rightarrow> nat" where
  "main_left n s =
     (case pp_main s of J_producer \<Rightarrow> n + 2 | J_consumer k \<Rightarrow> Suc (n - k) | J_done \<Rightarrow> 0)"

definition pp_left :: "nat \<Rightarrow> ping_pong \<Rightarrow> nat" where
  "pp_left n s = main_left n s + producer_left n s + (\<Sum>j < n. consumer_left n s j)"

lemma weight_woken: "pp_weight n False pc \<le> pp_weight n b pc + 3"
  by (auto simp: pp_weight_def split: pp_pc.splits)

lemma sum_one_less:
  fixes f g :: "nat \<Rightarrow> nat"
  assumes "j < n" and "g j < f j" and "\<And>i. i < n \<Longrightarrow> i \<noteq> j \<Longrightarrow> g i = f i"
  shows "(\<Sum>i < n. g i) < (\<Sum>i < n. f i)"
  using assms by (intro sum_strict_mono_ex1) (auto, metis order_refl less_imp_le)

lemma producer_left_less:
  assumes inv: "pp_inv n s" and step: "pp_producer_step s = Some s'"
  shows "pp_left n s' < pp_left n s"
proof (cases "pp_producer s = PP_notify")
  case True
  then have s': "s' = s\<lparr>pp_cnd := [], pp_producer := PP_loop\<rparr>"
    using step by (simp add: pp_producer_step_def)
  have "consumer_left n s' j \<le> consumer_left n s j + 3" for j
    using weight_woken [of n "cons_pc s j"] by (simp add: consumer_left_def s')
  then have "(\<Sum>j < n. consumer_left n s' j) \<le> (\<Sum>j < n. consumer_left n s j + 3)"
    by (intro sum_mono) simp
  also have "\<dots> = (\<Sum>j < n. consumer_left n s j) + 3 * n" by (simp add: sum.distrib)
  finally show ?thesis
    using True by (simp add: pp_left_def main_left_def producer_left_def s' pp_weight_def
        split: pp_main.splits)
next
  case False
  have len: "unat (pp_counter s + 1) = Suc (pp_count s)" "pp_count s < unat (pp_iterations s)"
    if "pp_producer s = PP_set"
  proof -
    show "pp_count s < unat (pp_iterations s)"
      using pp_invD(5) [OF inv] that by (simp add: producer_ok_def pp_turn_def)
    then show "unat (pp_counter s + 1) = Suc (pp_count s)" by (rule word_up)
  qed
  have "pp_main s' = pp_main s" "pp_seen s' = pp_seen s" "pp_iterations s' = pp_iterations s"
    "\<And>j. Consumer j \<in> set (pp_cnd s') \<longleftrightarrow> Consumer j \<in> set (pp_cnd s)"
    using step False
    by (auto simp: pp_producer_step_def cnd_wait_def split: pp_pc.splits if_splits)
  then have "pp_left n s' + producer_left n s = pp_left n s + producer_left n s'"
    by (simp add: pp_left_def main_left_def consumer_left_def)
  moreover have "producer_left n s' < producer_left n s"
  proof (cases "pp_producer s = PP_set")
    case True
    then have "s' = s\<lparr>pp_semaphore := 0, pp_counter := pp_counter s + 1, pp_mtx := None,
                     pp_producer := PP_notify\<rparr>"
      using step by (simp add: pp_producer_step_def)
    moreover obtain d where "unat (pp_iterations s) - pp_count s = Suc d"
      using len(2) [OF True] by (metis Suc_diff_Suc)
    moreover from this have "unat (pp_iterations s) - Suc (pp_count s) = d" by simp
    ultimately show ?thesis using True len(1) by (simp add: producer_left_def pp_weight_def)
  next
    case not_set: False
    then show ?thesis
      using step False pp_invD(5) [OF inv]
      by (cases "pp_producer s") (auto simp: pp_producer_step_def cnd_wait_def may_lock_def
          producer_left_def pp_weight_def producer_ok_def split: if_splits)
  qed
  ultimately show ?thesis by simp
qed

lemma consumer_left_less:
  assumes inv: "pp_inv n s" and j: "j < n" and step: "pp_consumer_step j s = Some s'"
  shows "pp_left n s' < pp_left n s"
proof -
  obtain pc c where entry: "pp_seen s ! j = (pc, c)" by (cases "pp_seen s ! j")
  note len = pp_invD(1) [OF inv]
  have ok: "consumer_ok s j" by (rule pp_invD(6) [OF inv j])
  have others: "pp_main s' = pp_main s" "pp_producer s' = pp_producer s"
    "pp_iterations s' = pp_iterations s" "pp_counter s' = pp_counter s"
    "\<And>i. i \<noteq> j \<Longrightarrow> pp_seen s' ! i = pp_seen s ! i"
    using step entry
    by (auto simp: pp_consumer_step_def set_seen_def cnd_wait_def split: pp_pc.splits if_splits)
  show ?thesis
  proof (cases "pc = PP_notify")
    case True
    then have s': "s' = set_seen j PP_loop c (s\<lparr>pp_cnd := []\<rparr>)"
      using step entry by (simp add: pp_consumer_step_def)
    have rest: "consumer_left n s' i \<le> consumer_left n s i + 3" if "i \<noteq> j" for i
      using weight_woken [of n "cons_pc s i"] that others(5) [OF that]
      by (simp add: consumer_left_def s' set_seen_def)
    have own: "consumer_left n s' j + (3 * n + 4) = consumer_left n s j"
      using True entry j len by (simp add: consumer_left_def s' set_seen_def pp_weight_def)
    have prod: "producer_left n s' \<le> producer_left n s + 3"
      using weight_woken [of n "pp_producer s"]
      by (simp add: producer_left_def s' set_seen_def)
    have split: "(\<Sum>i < n. f i) = f j + (\<Sum>i \<in> {..<n} - {j}. f i)" for f :: "nat \<Rightarrow> nat"
      using j by (simp add: sum.remove)
    have "(\<Sum>i \<in> {..<n} - {j}. consumer_left n s' i) \<le>
        (\<Sum>i \<in> {..<n} - {j}. consumer_left n s i + 3)"
      using rest by (intro sum_mono) simp
    also have "\<dots> = (\<Sum>i \<in> {..<n} - {j}. consumer_left n s i) + 3 * (n - 1)"
      using j by (simp add: sum.distrib)
    finally show ?thesis
      using own prod others(1)
      by (simp add: pp_left_def main_left_def split [of "consumer_left n s'"]
          split [of "consumer_left n s"])
  next
    case False
    have cnd: "t \<noteq> Consumer j \<Longrightarrow> t \<in> set (pp_cnd s') \<longleftrightarrow> t \<in> set (pp_cnd s)" for t
      using step entry False
      by (auto simp: pp_consumer_step_def set_seen_def cnd_wait_def split: pp_pc.splits if_splits)
    have "consumer_left n s' j < consumer_left n s j"
    proof (cases "pc = PP_set")
      case True
      then have behind: "Suc (unat c) = pp_count s"
        using ok entry by (auto simp: consumer_ok_def word_unat_eq_iff)
      then obtain d where "unat (pp_iterations s) - unat c = Suc d"
        using pp_invD(3) [OF inv] by (metis Suc_diff_Suc Suc_le_lessD)
      moreover from this behind have "unat (pp_iterations s) - pp_count s = d" by simp
      moreover have "s' = set_seen j PP_notify (pp_counter s)
          (s\<lparr>pp_semaphore := pp_semaphore s + 1, pp_mtx := None\<rparr>)"
        using step entry True by (simp add: pp_consumer_step_def)
      ultimately show ?thesis
        using entry True j len by (simp add: consumer_left_def set_seen_def pp_weight_def)
    next
      case not_set: False
      then show ?thesis
        using step entry False j len ok
        by (cases pc) (auto simp: pp_consumer_step_def set_seen_def cnd_wait_def may_lock_def
            consumer_left_def pp_weight_def consumer_ok_def split: if_splits)
    qed
    moreover have "consumer_left n s' i = consumer_left n s i" if "i \<noteq> j" for i
      using others(3,5) that cnd [of "Consumer i"] by (simp add: consumer_left_def)
    ultimately have "(\<Sum>i < n. consumer_left n s' i) < (\<Sum>i < n. consumer_left n s i)"
      by (intro sum_one_less [OF j])
    then show ?thesis
      using others(1-4) cnd [of Producer]
      by (simp add: pp_left_def main_left_def producer_left_def)
  qed
qed

lemma pp_left_less:
  assumes inv: "pp_inv n s" and "pp_step s l = Some s'" and "\<And>t. l \<noteq> PL_spurious t"
  shows "pp_left n s' < pp_left n s"
proof (cases l)
  case PL_producer
  then show ?thesis using producer_left_less [OF inv] assms(2) by simp
next
  case (PL_consumer j)
  then show ?thesis
    using consumer_left_less [OF inv] assms(2) pp_invD(1) [OF inv] by (auto split: if_splits)
next
  case PL_main
  then show ?thesis
    using assms(2) pp_invD(1) [OF inv]
    by (auto simp: pp_main_step_def pp_left_def main_left_def producer_left_def consumer_left_def
        split: pp_main.splits if_splits)
qed (use assms(3) in simp)

lemma pp_run_length:
  assumes "run_steps pp_step s ls = Some s'" and "pp_inv n s" and "\<And>t. PL_spurious t \<notin> set ls"
  shows "length ls + pp_left n s' \<le> pp_left n s"
  using assms
proof (induction ls arbitrary: s)
  case (Cons l ls)
  then obtain u where u: "pp_step s l = Some u" "run_steps pp_step u ls = Some s'"
    by (auto split: option.splits)
  have "pp_left n u < pp_left n s"
    using pp_left_less [OF Cons.prems(2) u(1)] Cons.prems(3) by fastforce
  moreover have "length ls + pp_left n s' \<le> pp_left n u"
    using Cons.IH [OF u(2) pp_inv_step [OF Cons.prems(2) u(1)]] Cons.prems(3) by auto
  ultimately show ?case by simp
qed simp

lemma pp_left_start:
  "pp_left n (pp_start iterations n) = (n + 1) * ((3 * n + 8) * unat iterations) + 5 * n + 7"
  by (simp add: pp_left_def main_left_def producer_left_def consumer_left_def pp_start_def
      pp_weight_def algebra_simps)

section \<open>The properties\<close>

text \<open>
  C32: the ping-pong always comes to its end.  Whatever the order of the threads, an execution in
  which nobody is woken without a notification has at most the stated number of steps, and it can
  only stop because the main thread has joined all threads.
\<close>
theorem ping_pong_completes:
  assumes "n < 2 ^ 32" and "run_steps pp_step (pp_start iterations n) ls = Some s"
    and "\<And>t. PL_spurious t \<notin> set ls"
  shows "length ls \<le> (n + 1) * ((3 * n + 8) * unat iterations) + 5 * n + 7 \<and>
    (pp_main s = J_done \<or> (\<exists>l s'. (\<forall>t. l \<noteq> PL_spurious t) \<and> pp_step s l = Some s'))"
  using pp_run_length [OF assms(2) pp_inv_start [OF assms(1)] assms(3)]
    pp_can_go [OF ping_pong.inv_run [OF assms(2) pp_inv_start [OF assms(1)]]]
  by (auto simp: pp_left_start)

theorem ping_pong_completes_witness:
  "\<exists>s. run_steps pp_step (pp_start 0 1) [PL_producer, PL_consumer 0, PL_producer] = Some s \<and>
     (\<exists>l s'. (\<forall>t. l \<noteq> PL_spurious t) \<and> pp_step s l = Some s')"
proof -
  obtain s where run: "run_steps pp_step (pp_start 0 1) [PL_producer, PL_consumer 0, PL_producer] = Some s"
    and main: "pp_main s = J_producer"
    by (simp add: pp_start_def pp_defs)
  have "pp_main s = J_done \<or> (\<exists>l s'. (\<forall>t. l \<noteq> PL_spurious t) \<and> pp_step s l = Some s')"
    using ping_pong_completes [OF _ run] by simp
  with run main show ?thesis by auto
qed

text \<open>
  No round is missed.  In every state, also after spurious wakeups, at most one thread is
  between its lock and the release of it; no consumer is more than one value of the counter
  behind; the semaphore is the number of consumers that have seen the counter; and somebody can
  move until the main thread has joined all.  In the end the producer and every consumer have
  counted to the number of iterations.
\<close>
theorem ping_pong_rounds:
  assumes "n < 2 ^ 32" and "reach pp_step (pp_start iterations n) s"
  shows "(pp_inside (pp_producer s) \<longrightarrow> (\<forall>j < n. \<not> pp_inside (cons_pc s j))) \<and>
    (\<forall>i < n. \<forall>j < n. pp_inside (cons_pc s i) \<longrightarrow> pp_inside (cons_pc s j) \<longrightarrow> i = j) \<and>
    (\<forall>j < n. seen_count s j = pp_count s \<or> Suc (seen_count s j) = pp_count s) \<and>
    unat (pp_semaphore s) = card (caught_up s) \<and>
    (pp_main s = J_done \<or> (\<exists>l s'. (\<forall>t. l \<noteq> PL_spurious t) \<and> pp_step s l = Some s')) \<and>
    (pp_main s = J_done \<longrightarrow> pp_counter s = iterations \<and> (\<forall>j < n. snd (pp_seen s ! j) = iterations))"
proof -
  have inv: "pp_inv n s" by (rule ping_pong.inv_reach [OF assms(2) pp_inv_start [OF assms(1)]])
  note inv' = pp_invD [OF inv]
  have mtx: "pp_inside (pp_producer s) \<Longrightarrow> pp_mtx s = Some Producer"
    using inv'(5) unfolding producer_ok_def by blast
  have mtx': "j < n \<Longrightarrow> pp_inside (cons_pc s j) \<Longrightarrow> pp_mtx s = Some (Consumer j)" for j
    using inv'(6) unfolding consumer_ok_def by blast
  have iterations: "pp_iterations s = iterations"
    using assms(2)
  proof (induction rule: reach.induct)
    case (reach_step u l v)
    then show ?case
      by (cases l) (auto simp: pp_defs split: pp_pc.splits pp_main.splits if_splits prod.splits)
  qed (simp add: pp_start_def)
  have "pp_counter s = iterations \<and> (\<forall>j < n. snd (pp_seen s ! j) = iterations)"
    if "pp_main s = J_done"
    using inv'(1,5-7) that iterations by (auto simp: main_ok_def producer_ok_def consumer_ok_def)
  moreover have "\<forall>i < n. \<forall>j < n. pp_inside (cons_pc s i) \<longrightarrow> pp_inside (cons_pc s j) \<longrightarrow> i = j"
    by (metis mtx' option.inject pp_thread.inject)
  moreover have "pp_inside (pp_producer s) \<longrightarrow> (\<forall>j < n. \<not> pp_inside (cons_pc s j))"
    by (metis mtx mtx' option.inject pp_thread.distinct(1))
  moreover have "\<forall>j < n. seen_count s j = pp_count s \<or> Suc (seen_count s j) = pp_count s"
    using inv'(6) by (simp add: consumer_ok_def)
  ultimately show ?thesis using pp_can_go [OF inv] inv'(4) by blast
qed

theorem ping_pong_rounds_witness:
  "\<exists>s. run_steps pp_step (pp_start 1 1)
       [PL_producer, PL_producer, PL_producer, PL_producer, PL_producer, PL_consumer 0] = Some s \<and>
     pp_counter s = 1 \<and> card (caught_up s) = 0"
proof -
  obtain s where run: "run_steps pp_step (pp_start 1 1)
       [PL_producer, PL_producer, PL_producer, PL_producer, PL_producer, PL_consumer 0] = Some s"
    and s: "pp_counter s = 1" "pp_semaphore s = 0"
    by (simp add: pp_start_def pp_defs)
  have "unat (pp_semaphore s) = card (caught_up s)"
    using ping_pong_rounds [OF _ run_steps_reach [OF run]] by simp
  with run s show ?thesis by auto
qed

end
