(* ===== verification/Counter_Programs.thy ===== *)
theory Counter_Programs
  imports Shared_Mutex_Properties
begin

text \<open>
  Three programs whose threads share one counter: \<open>test_atomic_counter.cpp\<close>, where it is an
  atomic and nothing else protects it; \<open>test_shared_mutex.cpp\<close>, where a shared mutex does, the
  parameter \<open>rw_mutex\<close> of \<open>Shared_Mutex\<close>; and \<open>trylock_test.cpp\<close>, where one thread watches it
  with \<open>try_lock\<close>.  What they print is left out.  No counter leaves the range of \<open>int\<close>: each
  starts at zero or at a few million and the bounds proved here are far from the limits, so
  they are integers.
\<close>

section \<open>An atomic counter\<close>

text \<open>A writer tests the counter and decrements it in two accesses; a reader only tests it.\<close>
datatype ac_pc = AC_test | AC_dec | AC_end

record atomic_counter =
  ac_count :: int
  ac_writers :: "ac_pc list"
  ac_readers :: "bool list"

definition atomic_start :: "int \<Rightarrow> nat \<Rightarrow> nat \<Rightarrow> atomic_counter" where
  "atomic_start initial writers readers =
     \<lparr>ac_count = initial, ac_writers = replicate writers AC_test, ac_readers = replicate readers False\<rparr>"

definition atomic_writer :: "nat \<Rightarrow> atomic_counter \<Rightarrow> atomic_counter option" where
  "atomic_writer i s =
     (case ac_writers s ! i of
        AC_test \<Rightarrow>
          Some (s\<lparr>ac_writers := (ac_writers s)[i := (if 0 < ac_count s then AC_dec else AC_end)]\<rparr>)
      | AC_dec \<Rightarrow>
          Some (s\<lparr>ac_count := ac_count s - 1, ac_writers := (ac_writers s)[i := AC_test]\<rparr>)
      | AC_end \<Rightarrow> None)"

definition atomic_reader :: "nat \<Rightarrow> atomic_counter \<Rightarrow> atomic_counter option" where
  "atomic_reader i s =
     (if ac_readers s ! i then None
      else Some (s\<lparr>ac_readers := (ac_readers s)[i := ac_count s \<le> 0]\<rparr>))"

datatype ac_label = AC_writer nat | AC_reader nat

fun atomic_step :: "atomic_counter \<Rightarrow> ac_label \<Rightarrow> atomic_counter option" where
  "atomic_step s (AC_writer i) = (if i < length (ac_writers s) then atomic_writer i s else None)"
| "atomic_step s (AC_reader i) = (if i < length (ac_readers s) then atomic_reader i s else None)"

text \<open>The writers that have found the counter positive and not yet decremented it.\<close>
definition about_to_dec :: "ac_pc list \<Rightarrow> nat set" where
  "about_to_dec ws = {i. i < length ws \<and> ws ! i = AC_dec}"

definition atomic_inv :: "nat \<Rightarrow> atomic_counter \<Rightarrow> bool" where
  "atomic_inv w s \<longleftrightarrow> length (ac_writers s) = w \<and>
     1 - int w \<le> ac_count s - int (card (about_to_dec (ac_writers s))) \<and>
     (AC_end \<in> set (ac_writers s) \<or> True \<in> set (ac_readers s) \<longrightarrow> ac_count s \<le> 0)"

lemma about_to_dec_le: "finite (about_to_dec ws) \<and> card (about_to_dec ws) \<le> length ws"
proof -
  have "about_to_dec ws \<subseteq> {..<length ws}" by (auto simp: about_to_dec_def)
  then show ?thesis using card_mono [of "{..<length ws}"] finite_subset by fastforce
qed

lemma about_to_dec_update:
  "i < length ws \<Longrightarrow> about_to_dec (ws[i := pc]) =
   (if pc = AC_dec then insert i (about_to_dec ws) else about_to_dec ws - {i})"
  by (auto simp: about_to_dec_def nth_list_update)

lemma atomic_inv_step:
  assumes inv: "atomic_inv w s" and step: "atomic_step s l = Some s'"
  shows "atomic_inv w s'"
proof (cases l)
  case (AC_writer i)
  then have i: "i < length (ac_writers s)" using step by (simp split: if_splits)
  have fin: "finite (about_to_dec (ac_writers s))" using about_to_dec_le by simp
  show ?thesis
  proof (cases "ac_writers s ! i")
    case AC_test
    then have new: "i \<notin> about_to_dec (ac_writers s)" by (simp add: about_to_dec_def)
    have le: "card (about_to_dec ((ac_writers s)[i := AC_dec])) \<le> w"
      using about_to_dec_le [of "(ac_writers s)[i := AC_dec]"] inv by (simp add: atomic_inv_def)
    show ?thesis
    proof (cases "0 < ac_count s")
      case True
      then have s': "s' = s\<lparr>ac_writers := (ac_writers s)[i := AC_dec]\<rparr>"
        using step AC_writer i AC_test by (simp add: atomic_writer_def)
      have "AC_end \<notin> set ((ac_writers s)[i := AC_dec])"
        using True inv set_update_subset_insert [of "ac_writers s" i AC_dec]
        by (auto simp: atomic_inv_def)
      then show ?thesis using True inv le by (auto simp: atomic_inv_def s')
    next
      case False
      then have "s' = s\<lparr>ac_writers := (ac_writers s)[i := AC_end]\<rparr>"
        using step AC_writer i AC_test by (simp add: atomic_writer_def)
      then show ?thesis
        using False inv new i by (simp add: atomic_inv_def about_to_dec_update)
    qed
  next
    case AC_dec
    then have s': "s' = s\<lparr>ac_count := ac_count s - 1, ac_writers := (ac_writers s)[i := AC_test]\<rparr>"
      using step AC_writer i by (simp add: atomic_writer_def)
    have "i \<in> about_to_dec (ac_writers s)" using AC_dec i by (simp add: about_to_dec_def)
    then have less: "card (about_to_dec ((ac_writers s)[i := AC_test])) + 1 =
        card (about_to_dec (ac_writers s))"
      using fin i by (metis Suc_eq_plus1 about_to_dec_update ac_pc.distinct(1) card_Suc_Diff1)
    have "AC_end \<in> set (ac_writers s)" if "AC_end \<in> set ((ac_writers s)[i := AC_test])"
      using that set_update_subset_insert [of "ac_writers s" i AC_test] by auto
    then show ?thesis
      using inv less by (auto simp: atomic_inv_def s')
  next
    case AC_end
    then show ?thesis using step AC_writer i by (simp add: atomic_writer_def)
  qed
next
  case (AC_reader i)
  then show ?thesis
    using inv step
    by (auto simp: atomic_inv_def atomic_reader_def split: if_splits
        dest!: set_update_subset_insert [THEN subsetD])
qed

interpretation atomic: step_invariant atomic_step "atomic_inv w"
  by unfold_locales (rule atomic_inv_step)

lemma atomic_inv_start: "0 \<le> initial \<Longrightarrow> 0 < w \<Longrightarrow> atomic_inv w (atomic_start initial w r)"
proof -
  assume "0 \<le> initial" and "0 < w"
  moreover have "about_to_dec (replicate w AC_test) = {}" by (auto simp: about_to_dec_def)
  ultimately show ?thesis by (simp add: atomic_inv_def atomic_start_def)
qed

text \<open>
  The atomic counter may end below zero, by less than the number of writers.  A writer tests
  the counter and decrements it in two steps, so two writers can both find it at one.  It never
  falls below one minus the number of writers, and whoever has ended has left it at zero or
  below.
\<close>
theorem atomic_counter_bounds:
  assumes "0 \<le> initial" and "0 < w" and "reach atomic_step (atomic_start initial w r) s"
  shows "1 - int w \<le> ac_count s \<and>
    (AC_end \<in> set (ac_writers s) \<or> True \<in> set (ac_readers s) \<longrightarrow> ac_count s \<le> 0)"
  using atomic.inv_reach [OF assms(3) atomic_inv_start [OF assms(1,2)]]
  by (auto simp: atomic_inv_def)

theorem atomic_counter_bounds_witness:
  "\<exists>s. run_steps atomic_step (atomic_start 1 2 1)
       [AC_writer 0, AC_writer 1, AC_writer 0, AC_writer 1, AC_writer 0, AC_writer 1] = Some s \<and>
     ac_writers s = [AC_end, AC_end] \<and> ac_count s = - 1 \<and> 1 - int 2 \<le> ac_count s"
proof -
  obtain s where run: "run_steps atomic_step (atomic_start 1 2 1)
       [AC_writer 0, AC_writer 1, AC_writer 0, AC_writer 1, AC_writer 0, AC_writer 1] = Some s"
    and s: "ac_writers s = [AC_end, AC_end]" "ac_count s = - 1"
    by (simp add: atomic_start_def atomic_writer_def numeral_2_eq_2)
  with atomic_counter_bounds [OF _ _ run_steps_reach [OF run]] show ?thesis by auto
qed

section \<open>A counter behind a shared mutex\<close>

text \<open>
  The functions \<open>writer\<close>, \<open>reader\<close> and \<open>unique_locker\<close>, and where they are: before the lock, with
  upgrade ownership, at the test, before the destructor of \<open>writelock\<close>, before the one of the
  lock (both with the flag whether the loop is left), returned.
\<close>
datatype kc_kind = K_writer | K_reader | K_unique

datatype kc_pc = K_lock | K_convert | K_body | K_reduce bool | K_unlock bool | K_end

record 'm counter_data =
  kc_mut :: 'm
  kc_count :: int
  kc_threads :: "(kc_kind \<times> kc_pc) list"

definition kc_start :: "'m \<Rightarrow> int \<Rightarrow> kc_kind list \<Rightarrow> 'm counter_data" where
  "kc_start m initial kinds =
     \<lparr>kc_mut = m, kc_count = initial, kc_threads = map (\<lambda>k. (k, K_lock)) kinds\<rparr>"

definition kc_access :: "kc_kind \<Rightarrow> access" where
  "kc_access k = (case k of K_writer \<Rightarrow> Upgrade | K_reader \<Rightarrow> Shared | K_unique \<Rightarrow> Exclusive)"

definition kc_go :: "nat \<Rightarrow> kc_kind \<Rightarrow> kc_pc \<Rightarrow> 'm counter_data \<Rightarrow> 'm counter_data" where
  "kc_go t k pc s = s\<lparr>kc_threads := (kc_threads s)[t := (k, pc)]\<rparr>"

text \<open>The body of the loop: the test, and the decrement of the two kinds that write.\<close>
definition kc_body :: "nat \<Rightarrow> kc_kind \<Rightarrow> 'm counter_data \<Rightarrow> 'm counter_data" where
  "kc_body t k s =
     (case k of
        K_reader \<Rightarrow> kc_go t k (K_unlock (kc_count s \<le> 0)) s
      | K_writer \<Rightarrow>
          (if 0 < kc_count s then kc_go t k (K_reduce False) (s\<lparr>kc_count := kc_count s - 1\<rparr>)
           else kc_go t k (K_reduce True) s)
      | K_unique \<Rightarrow>
          (if 0 < kc_count s then kc_go t k (K_unlock False) (s\<lparr>kc_count := kc_count s - 1\<rparr>)
           else kc_go t k (K_unlock True) s))"

definition kc_step :: "'m rw_mutex \<Rightarrow> 'm counter_data \<Rightarrow> nat \<Rightarrow> 'm counter_data option" where
  "kc_step M s t =
     (if t < length (kc_threads s) then
        (case kc_threads s ! t of (k, pc) \<Rightarrow>
           (case pc of
              K_lock \<Rightarrow>
                map_option (\<lambda>m. kc_go t k (if k = K_writer then K_convert else K_body)
                                  (s\<lparr>kc_mut := m\<rparr>))
                  (rm_lock M (kc_access k) t (kc_mut s))
            | K_convert \<Rightarrow>
                map_option (\<lambda>m. kc_go t k K_body (s\<lparr>kc_mut := m\<rparr>))
                  (rm_convert M Upgrade Exclusive t (kc_mut s))
            | K_body \<Rightarrow> Some (kc_body t k s)
            | K_reduce leave \<Rightarrow>
                map_option (\<lambda>m. kc_go t k (K_unlock leave) (s\<lparr>kc_mut := m\<rparr>))
                  (rm_convert M Exclusive Upgrade t (kc_mut s))
            | K_unlock leave \<Rightarrow>
                Some (kc_go t k (if leave then K_end else K_lock)
                        (s\<lparr>kc_mut := rm_unlock M (kc_access k) t (kc_mut s)\<rparr>))
            | K_end \<Rightarrow> None))
      else None)"

text \<open>What a thread owns at each location.\<close>
fun kc_owns :: "kc_kind \<times> kc_pc \<Rightarrow> access option" where
  "kc_owns (k, K_lock) = None"
| "kc_owns (k, K_convert) = Some Upgrade"
| "kc_owns (k, K_body) = Some (if k = K_reader then Shared else Exclusive)"
| "kc_owns (k, K_reduce b) = Some Exclusive"
| "kc_owns (k, K_unlock b) = Some (kc_access k)"
| "kc_owns (k, K_end) = None"

text \<open>Only a writer converts, and who leaves has seen the counter at zero.\<close>
fun kc_fits :: "int \<Rightarrow> kc_kind \<times> kc_pc \<Rightarrow> bool" where
  "kc_fits c (k, K_convert) \<longleftrightarrow> k = K_writer"
| "kc_fits c (k, K_reduce b) \<longleftrightarrow> k = K_writer \<and> (b \<longrightarrow> c = 0)"
| "kc_fits c (k, K_unlock b) \<longleftrightarrow> (b \<longrightarrow> c = 0)"
| "kc_fits c (k, K_end) \<longleftrightarrow> c = 0"
| "kc_fits c (k, _) \<longleftrightarrow> True"

definition kc_inv :: "('m \<Rightarrow> nat \<Rightarrow> access option) \<Rightarrow> 'm counter_data \<Rightarrow> bool" where
  "kc_inv held s \<longleftrightarrow>
     (\<forall>t. held (kc_mut s) t =
        (if t < length (kc_threads s) then kc_owns (kc_threads s ! t) else None)) \<and>
     consistent (held (kc_mut s)) \<and> 0 \<le> kc_count s \<and>
     (\<forall>t < length (kc_threads s). kc_fits (kc_count s) (kc_threads s ! t))"

lemma kc_fits_later: "kc_fits c th \<Longrightarrow> c = 0 \<longrightarrow> c' = 0 \<Longrightarrow> kc_fits c' th"
  by (induction c th rule: kc_fits.induct) auto

lemma kc_inv_move:
  assumes inv: "kc_inv held s" and t: "t < length (kc_threads s)"
    and held: "held m = (held (kc_mut s))(t := kc_owns (k, pc))"
    and may: "\<And>a. kc_owns (k, pc) = Some a \<Longrightarrow> may_own (held (kc_mut s)) t a"
    and c: "0 \<le> c" "kc_count s = 0 \<longrightarrow> c = 0" and fits: "kc_fits c (k, pc)"
  shows "kc_inv held (kc_go t k pc (s\<lparr>kc_mut := m, kc_count := c\<rparr>))"
proof -
  have "consistent (held m)"
    unfolding held using inv may by (intro consistent_update) (auto simp: kc_inv_def)
  moreover have "kc_fits c (((kc_threads s)[t := (k, pc)]) ! u)" if "u < length (kc_threads s)" for u
    using inv that fits kc_fits_later [OF _ c(2)] by (cases "u = t") (auto simp: kc_inv_def)
  ultimately show ?thesis
    using inv t c(1) by (auto simp: kc_inv_def kc_go_def held nth_list_update)
qed

lemma kc_inv_step:
  assumes M: "rw_contract M held" and inv: "kc_inv held s" and step: "kc_step M s t = Some s'"
  shows "kc_inv held s'"
proof -
  have t: "t < length (kc_threads s)" using step by (simp add: kc_step_def split: if_splits)
  obtain k pc where th: "kc_threads s ! t = (k, pc)" by (cases "kc_threads s ! t")
  have own: "held (kc_mut s) t = kc_owns (k, pc)" and cons: "consistent (held (kc_mut s))"
    and fits: "kc_fits (kc_count s) (k, pc)" and pos: "0 \<le> kc_count s"
    using inv t th by (auto simp: kc_inv_def)
  have keep: "may_own (held (kc_mut s)) t a" if "kc_owns (k, pc) = Some a" for a
    using cons own that by (simp add: consistent_def)
  have same: "held (kc_mut s) = (held (kc_mut s))(t := kc_owns (k, pc))"
    using own by (simp add: fun_eq_iff)
  note move = kc_inv_move [OF inv t, where c = "kc_count s", simplified]
  note move_same = kc_inv_move [OF inv t, where m = "kc_mut s" and c = "kc_count s", simplified]
  note move_count = kc_inv_move [OF inv t, where m = "kc_mut s", simplified]
  show ?thesis
  proof (cases pc)
    case K_lock
    then obtain m where m: "rm_lock M (kc_access k) t (kc_mut s) = Some m"
      and s': "s' = kc_go t k (if k = K_writer then K_convert else K_body) (s\<lparr>kc_mut := m\<rparr>)"
      using step t th by (auto simp: kc_step_def)
    have "held m = (held (kc_mut s))(t := Some (kc_access k)) \<and>
        may_own (held (kc_mut s)) t (kc_access k)"
      using rw_contractD(1) [OF M _ m] own K_lock by simp
    then show ?thesis
      using pos unfolding s' by (cases k) (auto simp: kc_access_def intro!: move)
  next
    case K_convert
    then obtain m where m: "rm_convert M Upgrade Exclusive t (kc_mut s) = Some m"
      and s': "s' = kc_go t k K_body (s\<lparr>kc_mut := m\<rparr>)"
      using step t th by (auto simp: kc_step_def)
    have "held m = (held (kc_mut s))(t := Some Exclusive) \<and>
        may_own (held (kc_mut s)) t Exclusive"
      using rw_contractD(5) [OF M cons _ _ m] own K_convert by (simp add: convertible_def)
    then show ?thesis using pos fits K_convert unfolding s' by (auto intro!: move)
  next
    case (K_reduce leave)
    then obtain m where m: "rm_convert M Exclusive Upgrade t (kc_mut s) = Some m"
      and s': "s' = kc_go t k (K_unlock leave) (s\<lparr>kc_mut := m\<rparr>)"
      using step t th by (auto simp: kc_step_def)
    have "held m = (held (kc_mut s))(t := Some Upgrade) \<and> may_own (held (kc_mut s)) t Upgrade"
      using rw_contractD(5) [OF M cons _ _ m] own K_reduce by (simp add: convertible_def)
    then show ?thesis
      using pos fits K_reduce unfolding s' by (auto simp: kc_access_def intro!: move)
  next
    case (K_unlock leave)
    then have s': "s' = kc_go t k (if leave then K_end else K_lock)
        (s\<lparr>kc_mut := rm_unlock M (kc_access k) t (kc_mut s)\<rparr>)"
      using step t th by (simp add: kc_step_def)
    have "held (rm_unlock M (kc_access k) t (kc_mut s)) = (held (kc_mut s))(t := None)"
      using rw_contractD(4) [OF M] own K_unlock by simp
    then show ?thesis using pos fits K_unlock unfolding s' by (cases leave) (auto intro!: move)
  next
    case K_body
    then have s': "s' = kc_body t k s" using step t th by (simp add: kc_step_def)
    show ?thesis
      using pos keep same K_body unfolding s' kc_body_def
      by (cases k) (auto simp: kc_access_def intro!: move_same move_count)
  qed (use step t th in \<open>simp add: kc_step_def\<close>)
qed

lemma kc_step_threads: "kc_step M s t = Some s' \<Longrightarrow> length (kc_threads s') = length (kc_threads s)"
  by (auto simp: kc_step_def kc_go_def kc_body_def
      split: if_splits prod.splits kc_pc.splits kc_kind.splits)

lemma kc_reach_inv:
  assumes M: "rw_contract M held" and "held m = (\<lambda>t. None)" and "0 \<le> initial"
    and "reach (kc_step M) (kc_start m initial kinds) s"
  shows "kc_inv held s \<and> length (kc_threads s) = length kinds"
  using assms(4)
proof (induction rule: reach.induct)
  case reach_refl
  then show ?case using assms(2,3) by (simp add: kc_inv_def kc_start_def consistent_def)
next
  case (reach_step a l b)
  then show ?case using kc_inv_step [OF M] kc_step_threads by metis
qed

text \<open>A thread that has not returned, or another one, can go on.\<close>
lemma kc_can_step:
  assumes M: "rw_contract M held" and inv: "kc_inv held s"
    and t: "t < length (kc_threads s)" and live: "snd (kc_threads s ! t) \<noteq> K_end"
  shows "\<exists>u s'. kc_step M s u = Some s'"
proof (rule ccontr)
  assume "\<not> ?thesis"
  then have stuck: "kc_step M s u = None" for u by (cases "kc_step M s u") auto
  have own: "held (kc_mut s) u = (if u < length (kc_threads s) then kc_owns (kc_threads s ! u) else None)"
    and cons: "consistent (held (kc_mut s))" for u
    using inv by (auto simp: kc_inv_def)
  have owner: "u < length (kc_threads s) \<and> snd (kc_threads s ! u) = K_convert \<and> a = Upgrade"
    if a: "held (kc_mut s) u = Some a" for u a
  proof -
    have u: "u < length (kc_threads s)" and o: "kc_owns (kc_threads s ! u) = Some a"
      using a own [of u] by (auto split: if_splits)
    obtain k pc where th: "kc_threads s ! u = (k, pc)" by (cases "kc_threads s ! u")
    show ?thesis
    proof (cases pc)
      case (K_reduce leave)
      then have "rm_convert M Exclusive Upgrade u (kc_mut s) = None"
        using stuck [of u] u th by (simp add: kc_step_def)
      then show ?thesis
        using rw_contractD(7) [OF M, of Exclusive Upgrade u "kc_mut s"]
        by (simp add: convertible_def)
    qed (use stuck [of u] u o th in \<open>simp_all add: kc_step_def\<close>)
  qed
  have nobody: "held (kc_mut s) u = None" for u
  proof (rule ccontr)
    assume "held (kc_mut s) u \<noteq> None"
    then obtain a where a: "held (kc_mut s) u = Some a" by blast
    obtain k where "kc_threads s ! u = (k, K_convert)"
      using owner [OF a] by (cases "kc_threads s ! u") simp
    then have "rm_convert M Upgrade Exclusive u (kc_mut s) = None"
      using stuck [of u] owner [OF a] by (simp add: kc_step_def)
    then obtain v b where "v \<noteq> u" "held (kc_mut s) v = Some b"
      using rw_contractD(7) [OF M, of Upgrade Exclusive u "kc_mut s"]
      by (auto simp: convertible_def)
    moreover from this a have "compatible a b" using cons by (auto simp: consistent_def may_own_def)
    ultimately show False using owner [OF a] owner [of v b] by (simp add: compatible_def)
  qed
  obtain k pc where th: "kc_threads s ! t = (k, pc)" by (cases "kc_threads s ! t")
  moreover have "kc_owns (k, pc) = None" using own [of t] nobody [of t] t th by simp
  ultimately have "pc = K_lock" using live by (cases pc) auto
  then have "rm_lock M (kc_access k) t (kc_mut s) = None"
    using stuck [of t] t th by (simp add: kc_step_def)
  then show False using rw_contractD(3) [OF M, of "kc_access k" t "kc_mut s"] nobody by simp
qed

text \<open>
  The counter of \<open>test_shared_mutex.cpp\<close> ends at zero and nowhere else.  For every mutex that
  keeps the documented contract and every mix of the three kinds of threads, the counter is never
  negative; while a thread is about to decrement it or has just done so before it gives up
  exclusive ownership, no other thread owns the mutex; a thread that has returned has left the
  counter at zero; and as long as some thread has not returned, some thread can go on.
\<close>
theorem shared_counter_exact:
  assumes M: "rw_contract M held" and "held m = (\<lambda>t. None)" and "0 \<le> initial"
    and "reach (kc_step M) (kc_start m initial kinds) s"
  shows "0 \<le> kc_count s \<and>
    (\<forall>t < length kinds. kc_owns (kc_threads s ! t) = Some Exclusive \<longrightarrow>
       (\<forall>u < length kinds. u \<noteq> t \<longrightarrow> kc_owns (kc_threads s ! u) = None)) \<and>
    (\<forall>t < length kinds. snd (kc_threads s ! t) = K_end \<longrightarrow> kc_count s = 0) \<and>
    ((\<forall>t < length kinds. snd (kc_threads s ! t) = K_end) \<or> (\<exists>u s'. kc_step M s u = Some s'))"
proof -
  note inv = kc_reach_inv [OF assms, THEN conjunct1]
    and len = kc_reach_inv [OF assms, THEN conjunct2]
  have alone: "kc_owns (kc_threads s ! u) = None"
    if "t < length kinds" "kc_owns (kc_threads s ! t) = Some Exclusive" "u < length kinds" "u \<noteq> t"
    for t u
  proof (rule ccontr)
    assume "kc_owns (kc_threads s ! u) \<noteq> None"
    then obtain b where "kc_owns (kc_threads s ! u) = Some b" by blast
    then have "held (kc_mut s) u = Some b" "held (kc_mut s) t = Some Exclusive"
      using inv len that by (simp_all add: kc_inv_def)
    moreover have "consistent (held (kc_mut s))" using inv by (simp add: kc_inv_def)
    ultimately have "compatible Exclusive b"
      using that(4) unfolding consistent_def may_own_def by blast
    then show False by (simp add: compatible_def)
  qed
  have "kc_count s = 0" if "t < length kinds" "snd (kc_threads s ! t) = K_end" for t
  proof -
    have "kc_fits (kc_count s) (kc_threads s ! t)" using inv len that(1) by (simp add: kc_inv_def)
    with that(2) show ?thesis by (cases "kc_threads s ! t") simp
  qed
  moreover have "(\<forall>t < length kinds. snd (kc_threads s ! t) = K_end) \<or> (\<exists>u s'. kc_step M s u = Some s')"
    using kc_can_step [OF M inv] len by auto
  ultimately show ?thesis using inv alone by (simp add: kc_inv_def)
qed

theorem shared_counter_exact_witness:
  "\<exists>s. run_steps (kc_step list_mutex) (kc_start [] 1 [K_writer, K_reader, K_unique])
       [1, 0, 1, 1, 0, 0, 0, 0] = Some s \<and>
     kc_count s = 0 \<and> (\<exists>u s'. kc_step list_mutex s u = Some s')"
proof -
  obtain s where run: "run_steps (kc_step list_mutex) (kc_start [] 1 [K_writer, K_reader, K_unique])
       [1, 0, 1, 1, 0, 0, 0, 0] = Some s" and s: "kc_count s = 0" "snd (kc_threads s ! 0) = K_lock"
    by (simp add: kc_start_def kc_step_def kc_go_def kc_body_def kc_access_def list_mutex_def
        list_own_def compatible_def numeral_2_eq_2 eval_nat_numeral)
  have "(\<forall>t < 3. snd (kc_threads s ! t) = K_end) \<or> (\<exists>u s'. kc_step list_mutex s u = Some s')"
    using shared_counter_exact [OF list_mutex_contract _ _ run_steps_reach [OF run]]
    by (simp add: numeral_3_eq_3)
  with s run show ?thesis by fastforce
qed

section \<open>A counter watched with \<open>try_lock\<close>\<close>

text \<open>
  \<open>unique\<close>: at the test of its loop, before the lock, inside it, returned; with the variable
  \<open>cycle\<close>.  \<open>monitor\<close>: asleep for its fifty nanoseconds, before \<open>try_lock\<close>, at the test inside the
  lock, returned.
\<close>
datatype tk_pc = TK_loop nat | TK_lock nat | TK_count nat | TK_end

datatype tk_monitor = TM_sleep | TM_try | TM_test | TM_end

datatype tk_thread = TK_unique nat | TK_monitor

text \<open>The counter is global: the rounds of \<open>main\<close> start new threads and do not reset it.\<close>
record trylock =
  tk_mtx :: "tk_thread option"
  tk_counter :: nat
  tk_uniques :: "tk_pc list"
  tk_watch :: tk_monitor
  tk_round :: nat

definition tk_start :: "nat \<Rightarrow> trylock" where
  "tk_start worker =
     \<lparr>tk_mtx = None, tk_counter = 0, tk_uniques = replicate worker (TK_loop 0),
      tk_watch = TM_sleep, tk_round = 0\<rparr>"

definition tk_unique :: "nat \<Rightarrow> nat \<Rightarrow> trylock \<Rightarrow> trylock option" where
  "tk_unique cycles i s =
     (case tk_uniques s ! i of
        TK_loop cycle \<Rightarrow>
          Some (s\<lparr>tk_uniques := (tk_uniques s)
                   [i := (if Suc cycle \<le> cycles then TK_lock (Suc cycle) else TK_end)]\<rparr>)
      | TK_lock cycle \<Rightarrow>
          (if tk_mtx s = None
           then Some (s\<lparr>tk_mtx := Some (TK_unique i),
                        tk_uniques := (tk_uniques s)[i := TK_count cycle]\<rparr>)
           else None)
      | TK_count cycle \<Rightarrow>
          Some (s\<lparr>tk_counter := Suc (tk_counter s), tk_mtx := None,
                  tk_uniques := (tk_uniques s)[i := TK_loop cycle]\<rparr>)
      | TK_end \<Rightarrow> None)"

text \<open>A failed \<open>try_lock\<close> only goes back to sleep.\<close>
definition tk_monitor_step :: "nat \<Rightarrow> trylock \<Rightarrow> trylock option" where
  "tk_monitor_step enough s =
     (case tk_watch s of
        TM_sleep \<Rightarrow> Some (s\<lparr>tk_watch := TM_try\<rparr>)
      | TM_try \<Rightarrow>
          (if tk_mtx s = None then Some (s\<lparr>tk_mtx := Some TK_monitor, tk_watch := TM_test\<rparr>)
           else Some (s\<lparr>tk_watch := TM_sleep\<rparr>))
      | TM_test \<Rightarrow>
          Some (s\<lparr>tk_mtx := None,
                  tk_watch := (if enough \<le> tk_counter s then TM_end else TM_sleep)\<rparr>)
      | TM_end \<Rightarrow> None)"

text \<open>The joins of \<open>main\<close>, and the next round while there is one.\<close>
definition tk_main :: "nat \<Rightarrow> trylock \<Rightarrow> trylock option" where
  "tk_main rounds s =
     (if set (tk_uniques s) \<subseteq> {TK_end} \<and> tk_watch s = TM_end \<and> Suc (tk_round s) < rounds
      then Some (s\<lparr>tk_uniques := replicate (length (tk_uniques s)) (TK_loop 0),
                   tk_watch := TM_sleep, tk_round := Suc (tk_round s)\<rparr>)
      else None)"

datatype tk_label = TL_unique nat | TL_monitor | TL_main

fun tk_step :: "nat \<Rightarrow> nat \<Rightarrow> nat \<Rightarrow> trylock \<Rightarrow> tk_label \<Rightarrow> trylock option" where
  "tk_step cycles worker rounds s (TL_unique i) =
     (if i < length (tk_uniques s) then tk_unique cycles i s else None)"
| "tk_step cycles worker rounds s TL_monitor = tk_monitor_step (worker * cycles) s"
| "tk_step cycles worker rounds s TL_main = tk_main rounds s"

text \<open>How often a \<open>unique\<close> has counted in its round.\<close>
fun tk_counted :: "nat \<Rightarrow> tk_pc \<Rightarrow> nat" where
  "tk_counted cycles (TK_loop c) = c"
| "tk_counted cycles (TK_lock c) = c - 1"
| "tk_counted cycles (TK_count c) = c - 1"
| "tk_counted cycles TK_end = cycles"

fun tk_fits :: "nat \<Rightarrow> tk_pc \<Rightarrow> bool" where
  "tk_fits cycles (TK_loop c) \<longleftrightarrow> c \<le> cycles"
| "tk_fits cycles (TK_lock c) \<longleftrightarrow> 0 < c \<and> c \<le> cycles"
| "tk_fits cycles (TK_count c) \<longleftrightarrow> 0 < c \<and> c \<le> cycles"
| "tk_fits cycles TK_end \<longleftrightarrow> True"

definition tk_sum :: "nat \<Rightarrow> tk_pc list \<Rightarrow> nat" where
  "tk_sum cycles us = sum_list (map (tk_counted cycles) us)"

definition tk_inv :: "nat \<Rightarrow> nat \<Rightarrow> trylock \<Rightarrow> bool" where
  "tk_inv cycles worker s \<longleftrightarrow>
     length (tk_uniques s) = worker \<and>
     tk_counter s = tk_round s * (worker * cycles) + tk_sum cycles (tk_uniques s) \<and>
     (\<forall>u \<in> set (tk_uniques s). tk_fits cycles u) \<and>
     (\<forall>i < worker. (\<exists>c. tk_uniques s ! i = TK_count c) \<longleftrightarrow> tk_mtx s = Some (TK_unique i)) \<and>
     (\<forall>i. tk_mtx s = Some (TK_unique i) \<longrightarrow> i < worker) \<and>
     (tk_mtx s = Some TK_monitor \<longleftrightarrow> tk_watch s = TM_test) \<and>
     (tk_watch s = TM_end \<longrightarrow> worker * cycles \<le> tk_counter s)"

lemma tk_sum_update:
  "i < length us \<Longrightarrow> tk_sum cycles (us[i := u]) + tk_counted cycles (us ! i) =
   tk_sum cycles us + tk_counted cycles u"
  by (simp add: tk_sum_def sum_list_at)

lemma tk_invD:
  assumes "tk_inv cycles worker s"
  shows "length (tk_uniques s) = worker"
    and "tk_counter s = tk_round s * (worker * cycles) + tk_sum cycles (tk_uniques s)"
    and "tk_watch s = TM_end \<Longrightarrow> worker * cycles \<le> tk_counter s"
    and "u \<in> set (tk_uniques s) \<Longrightarrow> tk_fits cycles u"
  using assms by (simp_all add: tk_inv_def)

lemma tk_inv_unique:
  assumes inv: "tk_inv cycles worker s" and i: "i < worker"
    and step: "tk_unique cycles i s = Some s'"
  shows "tk_inv cycles worker s'"
proof -
  have len: "length (tk_uniques s) = worker" using inv by (simp add: tk_inv_def)
  obtain u c mx where s': "s' = s\<lparr>tk_uniques := (tk_uniques s)[i := u], tk_counter := c, tk_mtx := mx\<rparr>"
    and new: "tk_fits cycles u"
      "tk_counter s + tk_counted cycles u = c + tk_counted cycles (tk_uniques s ! i)"
      "tk_counter s \<le> c"
      "(\<exists>c. u = TK_count c) \<longleftrightarrow> mx = Some (TK_unique i)"
      "mx = tk_mtx s \<or> mx = Some (TK_unique i) \<and> tk_mtx s = None \<or>
       mx = None \<and> tk_mtx s = Some (TK_unique i)"
  proof -
    have fit: "tk_fits cycles (tk_uniques s ! i)" and own: "(\<exists>c. tk_uniques s ! i = TK_count c) \<longleftrightarrow>
        tk_mtx s = Some (TK_unique i)"
      using inv i len by (auto simp: tk_inv_def)
    show thesis
    proof (cases "tk_uniques s ! i")
      case (TK_loop n)
      then show ?thesis
        using step own fit
        by (intro that [where c = "tk_counter s" and mx = "tk_mtx s"
              and u = "if Suc n \<le> cycles then TK_lock (Suc n) else TK_end"])
          (auto simp: tk_unique_def)
    next
      case (TK_lock n)
      then show ?thesis
        using step own fit
        by (intro that [where u = "TK_count n" and c = "tk_counter s"
              and mx = "Some (TK_unique i)"])
          (auto simp: tk_unique_def split: if_splits)
    next
      case (TK_count n)
      then show ?thesis
        using step own fit
        by (intro that [where u = "TK_loop n" and c = "Suc (tk_counter s)" and mx = None])
          (auto simp: tk_unique_def split: if_splits)
    qed (use step in \<open>simp add: tk_unique_def\<close>)
  qed
  have "c = tk_round s * (worker * cycles) + tk_sum cycles ((tk_uniques s)[i := u])"
    using inv new(2) tk_sum_update [of i "tk_uniques s" cycles u] i len by (simp add: tk_inv_def)
  moreover have "\<forall>v \<in> set ((tk_uniques s)[i := u]). tk_fits cycles v"
    using inv new(1) set_update_subset_insert [of "tk_uniques s" i u]
    by (auto simp: tk_inv_def)
  moreover have "(\<exists>c. (tk_uniques s)[i := u] ! j = TK_count c) \<longleftrightarrow> mx = Some (TK_unique j)"
    if "j < worker" for j
    using inv that new(4,5) i len by (cases "j = i") (auto simp: tk_inv_def)
  ultimately show ?thesis
    using inv new(3,5) i len by (auto simp: tk_inv_def s')
qed

lemma tk_inv_step:
  assumes inv: "tk_inv cycles worker s" and step: "tk_step cycles worker rounds s l = Some s'"
  shows "tk_inv cycles worker s'"
proof (cases l)
  case (TL_unique i)
  then show ?thesis
    using tk_inv_unique [OF inv] tk_invD(1) [OF inv] step by (simp split: if_splits)
next
  case TL_monitor
  then obtain w mx where s': "s' = s\<lparr>tk_watch := w, tk_mtx := mx\<rparr>"
    and w: "w = TM_end \<longrightarrow> worker * cycles \<le> tk_counter s"
      "mx = Some TK_monitor \<longleftrightarrow> w = TM_test"
      "\<And>i. mx = Some (TK_unique i) \<longleftrightarrow> tk_mtx s = Some (TK_unique i)"
  proof -
    have own: "tk_mtx s = Some TK_monitor \<longleftrightarrow> tk_watch s = TM_test"
      using inv by (simp add: tk_inv_def)
    show thesis
    proof (cases "tk_watch s")
      case TM_sleep
      then show ?thesis
        using step TL_monitor own
        by (intro that [where w = TM_try and mx = "tk_mtx s"]) (auto simp: tk_monitor_step_def)
    next
      case TM_try
      then show ?thesis
        using step TL_monitor own
        by (intro that [where w = "if tk_mtx s = None then TM_test else TM_sleep"
              and mx = "if tk_mtx s = None then Some TK_monitor else tk_mtx s"])
          (auto simp: tk_monitor_step_def)
    next
      case TM_test
      then show ?thesis
        using step TL_monitor own
        by (intro that [where mx = None
              and w = "if worker * cycles \<le> tk_counter s then TM_end else TM_sleep"])
          (auto simp: tk_monitor_step_def)
    qed (use step TL_monitor in \<open>simp add: tk_monitor_step_def\<close>)
  qed
  show ?thesis using inv w by (simp add: tk_inv_def s')
next
  case TL_main
  then have ended: "set (tk_uniques s) \<subseteq> {TK_end}" "tk_watch s = TM_end"
    and s': "s' = s\<lparr>tk_uniques := replicate (length (tk_uniques s)) (TK_loop 0),
                   tk_watch := TM_sleep, tk_round := Suc (tk_round s)\<rparr>"
    using step by (auto simp: tk_main_def split: if_splits)
  have "tk_uniques s = replicate worker TK_end"
    using ended(1) inv by (intro replicate_eqI) (auto simp: tk_inv_def)
  then show ?thesis
    using inv ended(2) by (auto simp: tk_inv_def s' tk_sum_def sum_list_replicate)
qed

interpretation watched: step_invariant "tk_step cycles worker rounds" "tk_inv cycles worker"
  by unfold_locales (rule tk_inv_step)

lemma tk_inv_start: "tk_inv cycles worker (tk_start worker)"
  by (auto simp: tk_inv_def tk_start_def tk_sum_def sum_list_replicate)

text \<open>
  No increment of \<open>trylock_test.cpp\<close> is lost.  In every state the counter is the number of
  increments of the rounds before and of this one; the threads that count are never inside the
  lock together with one another or with the monitor; when the monitor of the first round has
  returned, every thread of the round has finished its cycles; and while a thread of the round
  has not returned, some thread can go on.
\<close>
theorem trylock_counts:
  assumes "reach (tk_step cycles worker rounds) (tk_start worker) s"
  shows "tk_counter s = tk_round s * (worker * cycles) + tk_sum cycles (tk_uniques s) \<and>
    (\<forall>i < worker. \<forall>c. tk_uniques s ! i = TK_count c \<longrightarrow> tk_watch s \<noteq> TM_test \<and>
       (\<forall>j < worker. j \<noteq> i \<longrightarrow> (\<forall>d. tk_uniques s ! j \<noteq> TK_count d))) \<and>
    (tk_watch s = TM_end \<and> tk_round s = 0 \<longrightarrow>
       (\<forall>u \<in> set (tk_uniques s). tk_counted cycles u = cycles)) \<and>
    (tk_watch s \<noteq> TM_end \<or> set (tk_uniques s) \<subseteq> {TK_end} \<or>
       (\<exists>l s'. tk_step cycles worker rounds s l = Some s'))"
proof -
  have inv: "tk_inv cycles worker s" by (rule watched.inv_reach [OF assms tk_inv_start])
  have all: "tk_counted cycles u = cycles"
    if "worker * cycles \<le> tk_sum cycles us" "length us = worker" "\<forall>v \<in> set us. tk_fits cycles v"
      "u \<in> set us" for u us worker
    using that
  proof (induction us arbitrary: worker)
    case (Cons v us)
    have le: "tk_counted cycles w \<le> cycles" if "tk_fits cycles w" for w
      using that by (cases w) auto
    have "tk_sum cycles us \<le> length us * cycles"
      using Cons.prems(3) le by (induction us) (auto simp: tk_sum_def intro: add_mono)
    then have "tk_counted cycles v = cycles" and "length us * cycles \<le> tk_sum cycles us"
      using Cons.prems(1-3) le [of v] by (auto simp: tk_sum_def)
    then show ?case using Cons.IH [of "length us"] Cons.prems(3,4) by auto
  qed simp
  have go: "\<exists>l s'. tk_step cycles worker rounds s l = Some s'"
    if watch: "tk_watch s = TM_end" and u: "u \<in> set (tk_uniques s)" "u \<noteq> TK_end" for u
  proof -
    obtain i where i: "i < worker" "tk_uniques s ! i = u"
      using u(1) inv by (auto simp: tk_inv_def in_set_conv_nth)
    show ?thesis
    proof (cases "tk_mtx s")
      case None
      then have "tk_step cycles worker rounds s (TL_unique i) \<noteq> None"
        using i u(2) inv by (cases u) (auto simp: tk_unique_def tk_inv_def)
      then show ?thesis by blast
    next
      case (Some t)
      then obtain j where "j < worker" "tk_mtx s = Some (TK_unique j)"
        using inv watch by (cases t) (auto simp: tk_inv_def)
      then have "tk_step cycles worker rounds s (TL_unique j) \<noteq> None"
        using inv by (auto simp: tk_inv_def tk_unique_def)
      then show ?thesis by blast
    qed
  qed
  have "\<forall>i < worker. \<forall>c. tk_uniques s ! i = TK_count c \<longrightarrow> tk_watch s \<noteq> TM_test \<and>
      (\<forall>j < worker. j \<noteq> i \<longrightarrow> (\<forall>d. tk_uniques s ! j \<noteq> TK_count d))"
  proof (intro allI impI)
    fix i c assume i: "i < worker" "tk_uniques s ! i = TK_count c"
    then have own: "tk_mtx s = Some (TK_unique i)" using inv by (auto simp: tk_inv_def)
    then have "\<forall>j < worker. j \<noteq> i \<longrightarrow> (\<forall>d. tk_uniques s ! j \<noteq> TK_count d)"
      using inv by (auto simp: tk_inv_def)
    then show "tk_watch s \<noteq> TM_test \<and> (\<forall>j < worker. j \<noteq> i \<longrightarrow> (\<forall>d. tk_uniques s ! j \<noteq> TK_count d))"
      using inv own by (auto simp: tk_inv_def)
  qed
  moreover have "\<forall>u \<in> set (tk_uniques s). tk_counted cycles u = cycles"
    if "tk_watch s = TM_end \<and> tk_round s = 0"
    using all [of worker "tk_uniques s"] tk_invD [OF inv] that by simp
  moreover have "tk_watch s \<noteq> TM_end \<or> set (tk_uniques s) \<subseteq> {TK_end} \<or>
      (\<exists>l s'. tk_step cycles worker rounds s l = Some s')"
    using go by blast
  ultimately show ?thesis using tk_invD(2) [OF inv] by blast
qed

theorem trylock_counts_witness:
  "\<exists>s. run_steps (tk_step 1 1 2) (tk_start 1)
       [TL_unique 0, TL_unique 0, TL_monitor, TL_monitor, TL_unique 0, TL_unique 0, TL_monitor,
        TL_monitor, TL_monitor, TL_main, TL_monitor, TL_monitor, TL_monitor] = Some s \<and>
     tk_watch s = TM_end \<and> tk_uniques s = [TK_loop 0] \<and> tk_counter s = 1"
proof -
  obtain s where run: "run_steps (tk_step 1 1 2) (tk_start 1)
       [TL_unique 0, TL_unique 0, TL_monitor, TL_monitor, TL_unique 0, TL_unique 0, TL_monitor,
        TL_monitor, TL_monitor, TL_main, TL_monitor, TL_monitor, TL_monitor] = Some s"
    and s: "tk_watch s = TM_end" "tk_uniques s = [TK_loop 0]" "tk_round s = 1"
    by (simp add: tk_start_def tk_unique_def tk_monitor_step_def tk_main_def)
  with trylock_counts [OF run_steps_reach [OF run]] show ?thesis by (simp add: tk_sum_def)
qed

end
