(* ===== verification/Shared_Monitor.thy ===== *)
theory Shared_Monitor
  imports Shared_Mutex_Properties
begin

text \<open>
  \<open>shared_monitor.cpp\<close>: objects with a vector and a shared mutex each.  Copying an object takes
  its mutex shared; \<open>operator=\<close> takes the mutex of the object exclusively and that of the other
  one shared, \<open>compute\<close> that of the object exclusively and those of its two arguments shared, all
  at once with \<open>boost::lock\<close>, which is one step, enabled when all can be had.  The mutex is the
  parameter \<open>rw_mutex\<close> of \<open>Shared_Mutex\<close>, one value for each object.  The components of a vector
  are \<open>double\<close>s: their type and the expression \<open>(x + y) / 2\<close> are parameters.
\<close>

section \<open>The class\<close>

datatype mo_call = Mo_copy nat nat | Mo_assign nat nat | Mo_compute nat nat nat

text \<open>The locks of a call, in the order of the code: the object and how it is taken.\<close>
fun mo_locks :: "mo_call \<Rightarrow> (nat \<times> access) list" where
  "mo_locks (Mo_copy x a) = [(a, Shared)]"
| "mo_locks (Mo_assign x a) = (if x = a then [] else [(x, Exclusive), (a, Shared)])"
| "mo_locks (Mo_compute x y z) = [(x, Exclusive), (y, Shared), (z, Shared)]"

text \<open>The loop of \<open>compute\<close> over the indices of the vector.\<close>
fun mo_means :: "('d \<Rightarrow> 'd \<Rightarrow> 'd) \<Rightarrow> 'd list \<Rightarrow> 'd list \<Rightarrow> 'd list" where
  "mo_means mean (x # xs) (y # ys) = mean x y # mo_means mean xs ys"
| "mo_means mean _ _ = []"

text \<open>
  The body of a call once it has its locks; \<open>None\<close> when an assertion of \<open>compute\<close> fails.  A copy
  writes to the object that is being constructed, which no other thread can see.
\<close>
fun mo_body :: "('d \<Rightarrow> 'd \<Rightarrow> 'd) \<Rightarrow> mo_call \<Rightarrow> (nat \<Rightarrow> 'd list) \<Rightarrow> (nat \<Rightarrow> 'd list) option" where
  "mo_body mean (Mo_copy x a) d = Some (d(x := d a))"
| "mo_body mean (Mo_assign x a) d = (if x = a then Some d else Some (d(x := d a)))"
| "mo_body mean (Mo_compute x y z) d =
     (if length (d x) = length (d y) \<and> length (d x) = length (d z)
      then Some (d(x := mo_means mean (d y) (d z))) else None)"

text \<open>The objects the body of a call writes and reads, whatever it has locked.\<close>
fun mo_writes :: "mo_call \<Rightarrow> nat set" where
  "mo_writes (Mo_copy x a) = {x}"
| "mo_writes (Mo_assign x a) = (if x = a then {} else {x})"
| "mo_writes (Mo_compute x y z) = {x}"

fun mo_reads :: "mo_call \<Rightarrow> nat set" where
  "mo_reads (Mo_copy x a) = {a}"
| "mo_reads (Mo_assign x a) = (if x = a then {} else {a})"
| "mo_reads (Mo_compute x y z) = {x, y, z}"

lemma mo_body_writes:
  "mo_body mean c d = Some d' \<Longrightarrow> x \<notin> mo_writes c \<Longrightarrow> d' x = d x"
  by (cases c) (auto split: if_splits)

lemma mo_body_reads:
  assumes "\<And>x. x \<in> mo_reads c \<Longrightarrow> d x = e x"
  shows "(mo_body mean c d = None \<longleftrightarrow> mo_body mean c e = None) \<and>
    (\<forall>d' e' x. mo_body mean c d = Some d' \<longrightarrow> mo_body mean c e = Some e' \<longrightarrow> x \<in> mo_writes c \<longrightarrow>
       d' x = e' x)"
  using assms by (cases c) auto

fun lock_all ::
  "'m rw_mutex \<Rightarrow> nat \<Rightarrow> (nat \<times> access) list \<Rightarrow> (nat \<Rightarrow> 'm) \<Rightarrow> (nat \<Rightarrow> 'm) option" where
  "lock_all M t [] mut = Some mut"
| "lock_all M t ((x, a) # ls) mut =
     (case rm_lock M a t (mut x) of None \<Rightarrow> None | Some m \<Rightarrow> lock_all M t ls (mut(x := m)))"

fun unlock_all ::
  "'m rw_mutex \<Rightarrow> nat \<Rightarrow> (nat \<times> access) list \<Rightarrow> (nat \<Rightarrow> 'm) \<Rightarrow> (nat \<Rightarrow> 'm)" where
  "unlock_all M t [] mut = mut"
| "unlock_all M t ((x, a) # ls) mut = unlock_all M t ls (mut(x := rm_unlock M a t (mut x)))"

section \<open>The threads\<close>

text \<open>
  The calls of \<open>test_s\<close> and \<open>test_w\<close>; objects 0 and 1 are \<open>a1\<close> and \<open>a2\<close>, the local \<open>la3\<close> of the
  thread \<open>t\<close> is object \<open>t + 2\<close>.
\<close>
definition test_s :: "nat \<Rightarrow> mo_call list" where
  "test_s t = Mo_copy (t + 2) 0 # replicate 150 (Mo_compute (t + 2) 0 1)"

definition test_w :: "nat \<Rightarrow> mo_call list" where
  "test_w t = Mo_copy (t + 2) 0 #
     concat (replicate 10 [Mo_compute (t + 2) 0 1, Mo_assign 0 (t + 2), Mo_assign 1 (t + 2)])"

text \<open>A thread: the calls it still has to make, and whether it has the locks of the first.\<close>
record ('m, 'd) monitored =
  mo_mut :: "nat \<Rightarrow> 'm"
  mo_data :: "nat \<Rightarrow> 'd list"
  mo_threads :: "(mo_call list \<times> bool) list"
  mo_failed :: bool

definition mo_start :: "'m \<Rightarrow> 'd list \<Rightarrow> mo_call list list \<Rightarrow> ('m, 'd) monitored" where
  "mo_start m d ps =
     \<lparr>mo_mut = (\<lambda>x. m), mo_data = (\<lambda>x. if x < 2 then d else []),
      mo_threads = map (\<lambda>p. (p, False)) ps, mo_failed = False\<rparr>"

text \<open>\<open>main\<close> starts five writers and joins them.\<close>
definition mo_main :: "mo_call list list" where
  "mo_main = map test_w [0..<5]"

definition mo_step ::
  "('d \<Rightarrow> 'd \<Rightarrow> 'd) \<Rightarrow> 'm rw_mutex \<Rightarrow> ('m, 'd) monitored \<Rightarrow> nat \<Rightarrow> ('m, 'd) monitored option" where
  "mo_step mean M s t =
     (if t < length (mo_threads s) \<and> \<not> mo_failed s then
        (case mo_threads s ! t of
           ([], b) \<Rightarrow> None
         | (c # cs, False) \<Rightarrow>
             map_option (\<lambda>mut. s\<lparr>mo_mut := mut, mo_threads := (mo_threads s)[t := (c # cs, True)]\<rparr>)
               (lock_all M t (mo_locks c) (mo_mut s))
         | (c # cs, True) \<Rightarrow>
             (case mo_body mean c (mo_data s) of
                None \<Rightarrow> Some (s\<lparr>mo_failed := True\<rparr>)
              | Some d \<Rightarrow>
                  Some (s\<lparr>mo_data := d, mo_mut := unlock_all M t (mo_locks c) (mo_mut s),
                          mo_threads := (mo_threads s)[t := (cs, False)]\<rparr>)))
      else None)"

section \<open>The invariant\<close>

text \<open>What a thread owns of an object.\<close>
definition mo_owns :: "mo_call list \<times> bool \<Rightarrow> nat \<Rightarrow> access option" where
  "mo_owns th = (case th of (c # cs, True) \<Rightarrow> map_of (mo_locks c) | _ \<Rightarrow> Map.empty)"

text \<open>
  A call the thread \<open>t\<close> makes: its objects are different, and only the thread itself writes to
  its own object.
\<close>
fun mo_call_ok :: "nat \<Rightarrow> mo_call \<Rightarrow> bool" where
  "mo_call_ok t (Mo_copy x a) \<longleftrightarrow> x = t + 2 \<and> a < 2"
| "mo_call_ok t (Mo_assign x a) \<longleftrightarrow> x < 2 \<and> a = t + 2"
| "mo_call_ok t (Mo_compute x y z) \<longleftrightarrow> x = t + 2 \<and> y < 2 \<and> z < 2 \<and> y \<noteq> z"

text \<open>The vectors that have been constructed, and their common length.\<close>
definition mo_sized :: "nat \<Rightarrow> nat \<Rightarrow> (nat \<Rightarrow> 'd list) \<Rightarrow> mo_call list \<Rightarrow> bool" where
  "mo_sized n t d cs \<longleftrightarrow>
     length (d (t + 2)) = n \<or> (\<exists>x a cs'. cs = Mo_copy x a # cs') \<or> cs = []"

definition mo_inv :: "('m \<Rightarrow> nat \<Rightarrow> access option) \<Rightarrow> nat \<Rightarrow> 'd set \<Rightarrow> ('m, 'd) monitored \<Rightarrow> bool" where
  "mo_inv held n V s \<longleftrightarrow>
     (\<forall>x t. held (mo_mut s x) t =
        (if t < length (mo_threads s) then mo_owns (mo_threads s ! t) x else None)) \<and>
     (\<forall>x. consistent (held (mo_mut s x))) \<and>
     (\<forall>t < length (mo_threads s). (\<forall>c \<in> set (fst (mo_threads s ! t)). mo_call_ok t c) \<and>
        mo_sized n t (mo_data s) (fst (mo_threads s ! t))) \<and>
     length (mo_data s 0) = n \<and> length (mo_data s 1) = n \<and>
     (\<forall>x. set (mo_data s x) \<subseteq> V) \<and> \<not> mo_failed s"

lemma mo_locks_distinct: "mo_call_ok t c \<Longrightarrow> distinct (map fst (mo_locks c))"
  by (cases c) auto

text \<open>A call has locked what its body uses of the objects 0 and 1; the others are its own.\<close>
lemma mo_uses:
  assumes "mo_call_ok t c"
  shows "x \<in> mo_writes c \<Longrightarrow> x = t + 2 \<or> map_of (mo_locks c) x = Some Exclusive \<and> x < 2"
    and "x \<in> mo_reads c \<union> mo_writes c \<Longrightarrow> x = t + 2 \<or> map_of (mo_locks c) x \<noteq> None \<and> x < 2"
  using assms by (cases c; auto split: if_splits)+

lemma lock_all_Some:
  assumes M: "rw_contract M held"
  shows "lock_all M t ls mut = Some mut' \<Longrightarrow> distinct (map fst ls) \<Longrightarrow>
    (\<And>x. x \<in> fst ` set ls \<Longrightarrow> held (mut x) t = None) \<Longrightarrow>
    (\<forall>x. held (mut' x) = (case map_of ls x of None \<Rightarrow> held (mut x)
       | Some a \<Rightarrow> (held (mut x))(t := Some a))) \<and>
    (\<forall>x a. map_of ls x = Some a \<longrightarrow> may_own (held (mut x)) t a)"
proof (induction ls arbitrary: mut)
  case (Cons l ls)
  obtain x a where l: "l = (x, a)" by (cases l)
  obtain m where m: "rm_lock M a t (mut x) = Some m"
    and rest: "lock_all M t ls (mut(x := m)) = Some mut'"
    using Cons.prems(1) l by (auto split: option.splits)
  have own: "held m = (held (mut x))(t := Some a)" "may_own (held (mut x)) t a"
    using rw_contractD(1) [OF M _ m] Cons.prems(3) [of x] l by simp_all
  have new: "x \<notin> fst ` set ls" using Cons.prems(2) l by simp
  then have "held ((mut(x := m)) y) t = None" if "y \<in> fst ` set ls" for y
    using that Cons.prems(3) [of y] by auto
  from Cons.IH [OF rest _ this] Cons.prems(2)
  have IH: "held (mut' y) = (case map_of ls y of None \<Rightarrow> held ((mut(x := m)) y)
       | Some b \<Rightarrow> (held ((mut(x := m)) y))(t := Some b))"
    "map_of ls y = Some b \<Longrightarrow> may_own (held ((mut(x := m)) y)) t b" for y b
    by simp_all
  have none: "map_of ls x = None" using new by (simp add: map_of_eq_None_iff)
  show ?case
  proof (intro conjI allI impI)
    fix y
    show "held (mut' y) = (case map_of (l # ls) y of None \<Rightarrow> held (mut y)
       | Some b \<Rightarrow> (held (mut y))(t := Some b))"
      using IH(1) [of y] own(1) none l by (cases "y = x") (auto split: option.splits)
  next
    fix y b assume "map_of (l # ls) y = Some b"
    then show "may_own (held (mut y)) t b"
      using IH(2) [of y b] own(2) none l by (cases "y = x") auto
  qed
qed simp

lemma lock_all_free:
  assumes M: "rw_contract M held"
  shows "distinct (map fst ls) \<Longrightarrow> (\<And>x. x \<in> fst ` set ls \<Longrightarrow> held (mut x) = (\<lambda>t. None)) \<Longrightarrow>
    lock_all M t ls mut \<noteq> None"
proof (induction ls arbitrary: mut)
  case (Cons l ls)
  obtain x a where l: "l = (x, a)" by (cases l)
  have "rm_lock M a t (mut x) \<noteq> None"
    using rw_contractD(3) [OF M, of a t "mut x"] Cons.prems(2) [of x] l by auto
  then obtain m where "rm_lock M a t (mut x) = Some m" by blast
  moreover have "lock_all M t ls (mut(x := m)) \<noteq> None"
    using Cons.prems l by (intro Cons.IH) auto
  ultimately show ?case by (simp add: l)
qed simp

lemma unlock_all_held:
  assumes M: "rw_contract M held"
  shows "distinct (map fst ls) \<Longrightarrow> (\<And>x a. map_of ls x = Some a \<Longrightarrow> held (mut x) t = Some a) \<Longrightarrow>
    held (unlock_all M t ls mut x) =
      (if x \<in> fst ` set ls then (held (mut x))(t := None) else held (mut x))"
proof (induction ls arbitrary: mut)
  case (Cons l ls)
  obtain y a where l: "l = (y, a)" by (cases l)
  have new: "y \<notin> fst ` set ls" using Cons.prems(1) l by simp
  have "held (mut y) t = Some a" using Cons.prems(2) [of y] l by simp
  then have own: "held (rm_unlock M a t (mut y)) = (held (mut y))(t := None)"
    by (rule rw_contractD(4) [OF M])
  obtain mut' where mut': "mut' = mut(y := rm_unlock M a t (mut y))" by blast
  have kept: "held (mut' z) t = Some b" if "map_of ls z = Some b" for z b
  proof -
    have "z \<noteq> y" using that new by (auto dest!: map_of_SomeD simp: image_iff)
    then show ?thesis using that Cons.prems(2) [of z b] l by (simp add: mut')
  qed
  have "held (unlock_all M t ls mut' x) =
      (if x \<in> fst ` set ls then (held (mut' x))(t := None) else held (mut' x))"
    using Cons.prems(1) l by (intro Cons.IH kept) auto
  moreover have "unlock_all M t (l # ls) mut = unlock_all M t ls mut'" by (simp add: l mut')
  ultimately show ?case using own new l by (cases "x = y") (auto simp: mut')
qed simp

lemma mo_means_length: "length (mo_means mean xs ys) = min (length xs) (length ys)"
  by (induction mean xs ys rule: mo_means.induct) auto

lemma mo_means_set:
  "(\<And>a b. a \<in> V \<Longrightarrow> b \<in> V \<Longrightarrow> mean a b \<in> V) \<Longrightarrow> set xs \<subseteq> V \<Longrightarrow> set ys \<subseteq> V \<Longrightarrow>
   set (mo_means mean xs ys) \<subseteq> V"
  by (induction mean xs ys rule: mo_means.induct) auto

lemma mo_invD:
  assumes "mo_inv held n V s"
  shows "held (mo_mut s x) t =
      (if t < length (mo_threads s) then mo_owns (mo_threads s ! t) x else None)"
    and "consistent (held (mo_mut s x))"
    and "t < length (mo_threads s) \<Longrightarrow> c \<in> set (fst (mo_threads s ! t)) \<Longrightarrow> mo_call_ok t c"
    and "t < length (mo_threads s) \<Longrightarrow> mo_sized n t (mo_data s) (fst (mo_threads s ! t))"
    and "x < 2 \<Longrightarrow> length (mo_data s x) = n"
    and "set (mo_data s x) \<subseteq> V" and "\<not> mo_failed s"
  using assms by (auto simp: mo_inv_def numeral_2_eq_2 less_Suc_eq)

text \<open>The body of a call writes vectors of the common length only, and to its own objects only.\<close>
lemma mo_body_ok:
  assumes mean: "\<And>a b. a \<in> V \<Longrightarrow> b \<in> V \<Longrightarrow> mean a b \<in> V"
    and ok: "mo_call_ok t c" and sized: "mo_sized n t d (c # cs)"
    and d: "\<And>x. x < 2 \<Longrightarrow> length (d x) = n" "\<And>x. set (d x) \<subseteq> V"
  shows "\<exists>d'. mo_body mean c d = Some d' \<and> length (d' (t + 2)) = n \<and>
    (\<forall>x. x < 2 \<longrightarrow> length (d' x) = n) \<and> (\<forall>x. set (d' x) \<subseteq> V) \<and>
    (\<forall>u. u \<noteq> t \<longrightarrow> d' (u + 2) = d (u + 2))"
proof (cases c)
  case (Mo_compute x y z)
  then have "length (d (t + 2)) = n" using sized by (simp add: mo_sized_def)
  then show ?thesis
    using Mo_compute ok d mo_means_set [OF mean d(2) d(2)] by (auto simp: mo_means_length)
next
  case (Mo_assign x a)
  then have "length (d (t + 2)) = n" using sized by (simp add: mo_sized_def)
  then show ?thesis using Mo_assign ok d by auto
qed (use ok d in auto)

lemma mo_inv_step:
  assumes M: "rw_contract M held" and mean: "\<And>a b. a \<in> V \<Longrightarrow> b \<in> V \<Longrightarrow> mean a b \<in> V"
    and inv: "mo_inv held n V s" and step: "mo_step mean M s t = Some s'"
  shows "mo_inv held n V s'"
proof -
  note inv' = mo_invD [OF inv]
  have t: "t < length (mo_threads s)" using step by (simp add: mo_step_def split: if_splits)
  obtain c cs b where th: "mo_threads s ! t = (c # cs, b)"
    using step t by (auto simp: mo_step_def split: prod.splits list.splits)
  have ok: "mo_call_ok t c" and sized: "mo_sized n t (mo_data s) (c # cs)"
    using inv'(3,4) [OF t] th by simp_all
  note dist = mo_locks_distinct [OF ok]
  show ?thesis
  proof (cases b)
    case False
    then obtain mut where lock: "lock_all M t (mo_locks c) (mo_mut s) = Some mut"
      and s': "s' = s\<lparr>mo_mut := mut, mo_threads := (mo_threads s)[t := (c # cs, True)]\<rparr>"
      using step t th inv'(7) by (auto simp: mo_step_def)
    have none: "held (mo_mut s x) t = None" for x
      using inv'(1) [of x t] t th False by (simp add: mo_owns_def)
    note got = lock_all_Some [OF M lock dist none]
    have held: "held (mut x) = (held (mo_mut s x))(t := map_of (mo_locks c) x)" for x
      using got none [of x] by (auto simp: fun_eq_iff split: option.splits)
    have "consistent (held (mut x))" for x
      unfolding held using inv'(2) got by (intro consistent_update) auto
    moreover have "held (mut x) u = (if u < length (mo_threads s)
        then mo_owns ((mo_threads s)[t := (c # cs, True)] ! u) x else None)" for x u
      using inv'(1) [of x u] t by (cases "u = t") (auto simp: held mo_owns_def)
    moreover have "(\<forall>k \<in> set (fst ((mo_threads s)[t := (c # cs, True)] ! u)). mo_call_ok u k) \<and>
        mo_sized n u (mo_data s) (fst ((mo_threads s)[t := (c # cs, True)] ! u))"
      if "u < length (mo_threads s)" for u
      using inv'(3,4) [OF that] th t by (cases "u = t") auto
    ultimately show ?thesis
      using inv'(5-7) by (simp add: mo_inv_def s')
  next
    case True
    obtain d where d: "mo_body mean c (mo_data s) = Some d" "length (d (t + 2)) = n"
      "\<And>x. x < 2 \<Longrightarrow> length (d x) = n" "\<And>x. set (d x) \<subseteq> V"
      "\<And>u. u \<noteq> t \<Longrightarrow> d (u + 2) = mo_data s (u + 2)"
      using mo_body_ok [of V mean t c n "mo_data s" cs, OF mean ok sized inv'(5,6)] by blast
    let ?mut = "unlock_all M t (mo_locks c) (mo_mut s)"
    have s': "s' = s\<lparr>mo_data := d, mo_mut := ?mut, mo_threads := (mo_threads s)[t := (cs, False)]\<rparr>"
      using step t th True inv'(7) d(1) by (simp add: mo_step_def)
    have own: "held (mo_mut s x) t = map_of (mo_locks c) x" for x
      using inv'(1) [of x t] t th True by (simp add: mo_owns_def)
    have held: "held (?mut x) = (held (mo_mut s x))(t := None)" for x
      using unlock_all_held [OF M dist, of "mo_mut s" t x] own
      by (auto simp: fun_eq_iff map_of_eq_None_iff [symmetric])
    have "consistent (held (?mut x))" for x
      unfolding held using inv'(2) by (intro consistent_update) auto
    moreover have "held (?mut x) u = (if u < length (mo_threads s)
        then mo_owns ((mo_threads s)[t := (cs, False)] ! u) x else None)" for x u
      using inv'(1) [of x u] t by (cases "u = t") (auto simp: held mo_owns_def split: list.splits)
    moreover have "(\<forall>k \<in> set (fst ((mo_threads s)[t := (cs, False)] ! u)). mo_call_ok u k) \<and>
        mo_sized n u d (fst ((mo_threads s)[t := (cs, False)] ! u))"
      if "u < length (mo_threads s)" for u
      using inv'(3,4) [OF that] th d(2,5) t by (cases "u = t") (auto simp: mo_sized_def)
    ultimately show ?thesis using d(3,4) inv'(7) by (simp add: mo_inv_def s')
  qed
qed

section \<open>Every thread comes to its end\<close>

text \<open>The steps that are left: two for each call, one when its locks are taken.\<close>
definition mo_left :: "('m, 'd) monitored \<Rightarrow> nat" where
  "mo_left s = sum_list (map (\<lambda>(cs, b). 2 * length cs - (if b then 1 else 0)) (mo_threads s))"

lemma mo_left_step:
  assumes inv: "mo_inv held n V s" and mean: "\<And>a b. a \<in> V \<Longrightarrow> b \<in> V \<Longrightarrow> mean a b \<in> V"
    and step: "mo_step mean M s t = Some s'"
  shows "Suc (mo_left s') = mo_left s"
proof -
  note inv' = mo_invD [OF inv]
  have t: "t < length (mo_threads s)" using step by (simp add: mo_step_def split: if_splits)
  obtain c cs b where th: "mo_threads s ! t = (c # cs, b)"
    using step t by (auto simp: mo_step_def split: prod.splits list.splits)
  obtain d where "mo_body mean c (mo_data s) = Some d"
    using mo_body_ok [of V mean t c n "mo_data s" cs, OF mean] inv'(3,4) [OF t] inv'(5,6) th
    by auto
  then have s': "mo_threads s' = (mo_threads s)[t := (if b then (cs, False) else (c # cs, True))]"
    using step t th inv'(7) by (cases b) (auto simp: mo_step_def)
  show ?thesis
    using sum_list_at [OF t, of "\<lambda>(cs, b). 2 * length cs - (if b then 1 else 0)"
        "if b then (cs, False) else (c # cs, True)"] th
    by (cases b) (simp_all add: mo_left_def s')
qed

lemma mo_can_step:
  assumes M: "rw_contract M held" and inv: "mo_inv held n V s"
    and t: "t < length (mo_threads s)" and live: "fst (mo_threads s ! t) \<noteq> []"
  shows "\<exists>u s'. mo_step mean M s u = Some s'"
proof (cases "\<exists>u < length (mo_threads s). fst (mo_threads s ! u) \<noteq> [] \<and> snd (mo_threads s ! u)")
  case True
  then obtain u c cs where "u < length (mo_threads s)" "mo_threads s ! u = (c # cs, True)"
    by (metis list.exhaust prod.collapse)
  then have "mo_step mean M s u \<noteq> None"
    using mo_invD(7) [OF inv] by (auto simp: mo_step_def split: option.splits)
  then show ?thesis by blast
next
  case False
  have "mo_owns (mo_threads s ! u) x = None" if "u < length (mo_threads s)" for u x
    using False that by (cases "mo_threads s ! u") (auto simp: mo_owns_def split: list.splits)
  then have none: "held (mo_mut s x) = (\<lambda>t. None)" for x
    using mo_invD(1) [OF inv, of x] by (auto simp: fun_eq_iff)
  obtain c cs where th: "mo_threads s ! t = (c # cs, False)"
    using False t live by (metis (full_types) list.exhaust prod.collapse)
  have "lock_all M t (mo_locks c) (mo_mut s) \<noteq> None"
    using mo_invD(3) [OF inv t, of c] th none
    by (intro lock_all_free [OF M] mo_locks_distinct [of t]) auto
  then have "mo_step mean M s t \<noteq> None"
    using t th mo_invD(7) [OF inv] by (auto simp: mo_step_def)
  then show ?thesis by blast
qed

lemma mo_run:
  assumes M: "rw_contract M held" and mean: "\<And>a b. a \<in> V \<Longrightarrow> b \<in> V \<Longrightarrow> mean a b \<in> V"
  shows "run_steps (mo_step mean M) s ls = Some s' \<Longrightarrow> mo_inv held n V s \<Longrightarrow>
    mo_inv held n V s' \<and> length ls + mo_left s' = mo_left s"
proof (induction ls arbitrary: s)
  case (Cons l ls)
  then obtain u where u: "mo_step mean M s l = Some u" "run_steps (mo_step mean M) u ls = Some s'"
    by (auto split: option.splits)
  have "mo_inv held n V u" by (rule mo_inv_step [OF M mean Cons.prems(2) u(1)])
  from Cons.IH [OF u(2) this] mo_left_step [OF Cons.prems(2) mean u(1)] show ?case by simp
qed simp

lemma mo_inv_start:
  assumes "held m = (\<lambda>t. None)" and "set d \<subseteq> V"
    and "\<And>t. t < length ps \<Longrightarrow> ps ! t = test_s t \<or> ps ! t = test_w t"
  shows "mo_inv held (length d) V (mo_start m d ps)"
proof -
  have "(\<forall>c \<in> set (ps ! t). mo_call_ok t c) \<and> mo_sized n t d' (ps ! t)" if "t < length ps" for t n d'
    using assms(3) [OF that] by (auto simp: test_s_def test_w_def mo_sized_def)
  moreover have "mo_owns (p, False) x = None" for p x
    by (simp add: mo_owns_def split: list.splits)
  ultimately show ?thesis
    using assms(1,2) by (auto simp: mo_inv_def mo_start_def consistent_def)
qed

text \<open>
  C33: the threads of \<open>shared_monitor.cpp\<close> come to their end.  For every mutex that keeps the
  documented contract, every number of threads that run \<open>test_s\<close> or \<open>test_w\<close> and every schedule:
  no assertion of \<open>compute\<close> fails; no thread owns a mutex that another one owns exclusively, and
  two threads are never inside calls of which the body of one writes an object the body of the
  other one reads or writes; every component of every vector stays in any set that holds the
  first components and their means; each step leaves one step less to do; and while a thread has
  calls to make some thread can go on.
\<close>
theorem shared_monitor_ends:
  assumes M: "rw_contract M held" and m: "held m = (\<lambda>t. None)"
    and mean: "\<And>a b. a \<in> V \<Longrightarrow> b \<in> V \<Longrightarrow> mean a b \<in> V" and d: "set d \<subseteq> V"
    and ps: "\<And>t. t < length ps \<Longrightarrow> ps ! t = test_s t \<or> ps ! t = test_w t"
    and run: "run_steps (mo_step mean M) (mo_start m d ps) ls = Some s"
  shows "\<not> mo_failed s \<and> (\<forall>x. set (mo_data s x) \<subseteq> V) \<and>
    (\<forall>t < length ps. \<forall>u < length ps. \<forall>x. t \<noteq> u \<longrightarrow> mo_owns (mo_threads s ! t) x = Some Exclusive \<longrightarrow>
       mo_owns (mo_threads s ! u) x = None) \<and>
    (\<forall>t < length ps. \<forall>u < length ps. \<forall>c cs c' cs'. t \<noteq> u \<longrightarrow> mo_threads s ! t = (c # cs, True) \<longrightarrow>
       mo_threads s ! u = (c' # cs', True) \<longrightarrow> mo_writes c \<inter> (mo_reads c' \<union> mo_writes c') = {}) \<and>
    length ls + mo_left s = 2 * sum_list (map length ps) \<and>
    ((\<forall>t < length ps. fst (mo_threads s ! t) = []) \<or> (\<exists>u s'. mo_step mean M s u = Some s'))"
proof -
  have inv: "mo_inv held (length d) V s"
    and left: "length ls + mo_left s = mo_left (mo_start m d ps)"
    using mo_run [OF M mean run mo_inv_start [of held m d V ps, OF m d ps]] by blast+
  have len: "length (mo_threads s) = length ps"
    using run_steps_reach [OF run]
  proof (induction rule: reach.induct)
    case (reach_step a l b)
    then show ?case
      by (auto simp: mo_step_def split: if_splits prod.splits list.splits bool.splits option.splits)
  qed (simp add: mo_start_def)
  have "mo_left (mo_start m d ps) = 2 * sum_list (map length ps)"
    by (simp add: mo_left_def mo_start_def comp_def sum_list_const_mult)
  moreover have alone: "mo_owns (mo_threads s ! u) x = None"
    if tu: "t < length ps" "u < length ps" "t \<noteq> u" "mo_owns (mo_threads s ! t) x = Some Exclusive"
    for t u x
  proof (rule ccontr)
    assume "mo_owns (mo_threads s ! u) x \<noteq> None"
    then obtain a where "held (mo_mut s x) u = Some a"
      using mo_invD(1) [OF inv, of x u] tu(2) len by auto
    moreover have "held (mo_mut s x) t = Some Exclusive"
      using mo_invD(1) [OF inv, of x t] tu(1,4) len by simp
    ultimately have "compatible Exclusive a"
      using mo_invD(2) [OF inv, of x] tu(3) unfolding consistent_def may_own_def by metis
    then show False by (simp add: compatible_def)
  qed
  moreover have "mo_writes c \<inter> (mo_reads c' \<union> mo_writes c') = {}"
    if tu: "t < length ps" "u < length ps" "t \<noteq> u" "mo_threads s ! t = (c # cs, True)"
      "mo_threads s ! u = (c' # cs', True)" for t u c cs c' cs'
  proof (rule ccontr)
    assume "mo_writes c \<inter> (mo_reads c' \<union> mo_writes c') \<noteq> {}"
    then obtain x where x: "x \<in> mo_writes c" "x \<in> mo_reads c' \<union> mo_writes c'" by blast
    have ok: "mo_call_ok t c" "mo_call_ok u c'"
      using mo_invD(3) [OF inv, of t c] mo_invD(3) [OF inv, of u c'] tu len by simp_all
    from mo_uses(1) [OF ok(1) x(1)] mo_uses(2) [OF ok(2) x(2)] show False
      using alone [OF tu(1-3), of x] tu(3-5) by (auto simp: mo_owns_def)
  qed
  moreover have "(\<forall>t < length ps. fst (mo_threads s ! t) = []) \<or> (\<exists>u s'. mo_step mean M s u = Some s')"
  proof (cases "\<forall>t < length ps. fst (mo_threads s ! t) = []")
    case False
    then obtain t where "t < length (mo_threads s)" "fst (mo_threads s ! t) \<noteq> []"
      using len by auto
    from mo_can_step [OF M inv this, of mean] show ?thesis by simp
  qed simp
  ultimately show ?thesis using left mo_invD(6,7) [OF inv] by auto
qed

theorem shared_monitor_ends_witness:
  "\<exists>s. run_steps (mo_step (\<lambda>a b. (a + b) div 2) list_mutex) (mo_start [] [0, 0 :: int] mo_main)
       [0, 1, 0, 1, 0] = Some s \<and>
     mo_data s 3 = [0, 0] \<and> mo_left s = 305 \<and>
     (\<exists>u s'. mo_step (\<lambda>a b. (a + b) div 2) list_mutex s u = Some s')"
proof -
  have main: "mo_main ! t = test_s t \<or> mo_main ! t = test_w t" if "t < length mo_main" for t
    using that by (simp add: mo_main_def)
  have len: "map length mo_main = [31, 31, 31, 31, 31]"
    by (simp add: mo_main_def test_w_def upt_rec numeral_eq_Suc)
  obtain s where run: "run_steps (mo_step (\<lambda>a b. (a + b) div 2) list_mutex)
      (mo_start [] [0, 0 :: int] mo_main) [0, 1, 0, 1, 0] = Some s"
    and s: "mo_data s 3 = [0, 0]" "fst (mo_threads s ! 0) \<noteq> []"
    by (simp add: mo_start_def mo_main_def test_w_def mo_step_def list_mutex_def list_own_def
        compatible_def upt_rec numeral_eq_Suc)
  have "length mo_main = 5" by (simp add: mo_main_def)
  with shared_monitor_ends [OF list_mutex_contract _ _ _ main run, of "{0}"] run s len
  show ?thesis by (auto intro!: exI [of _ s])
qed

end
