(* ===== verification/Queue_Tests.thy ===== *)
theory Queue_Tests
  imports Prelude
begin

text \<open>
  \<open>multi_thread_pass.cpp\<close>: five tests of a synchronised queue.  Each starts functions that meet
  at a barrier and then push or pull one value, and checks what they deliver.  The queue,
  \<open>boost::sync_queue\<close>, and the barrier, \<open>boost::barrier\<close>, are parameters under the contract
  \<open>sq_contract\<close>.  A test is the list of the statements of its main thread.  Proved: no check
  fails and every test returns, whatever the order of the threads.
\<close>

section \<open>The queue and the barrier\<close>

text \<open>What a function delivers through its future.\<close>
datatype sq_result = R_void | R_value nat | R_success nat | R_closed

text \<open>\<open>None\<close>: the call waits (\<open>push\<close>: throws, because the queue is closed).\<close>
record ('q, 'b) sq_lib =
  sq_new :: 'q
  sq_push :: "nat \<Rightarrow> 'q \<Rightarrow> 'q option"
  sq_pull :: "'q \<Rightarrow> (nat \<times> 'q) option"
  sq_wait_pull :: "'q \<Rightarrow> (sq_result \<times> 'q) option"
  sq_close :: "'q \<Rightarrow> 'q"
  sq_empty :: "'q \<Rightarrow> bool"
  ba_new :: "nat \<Rightarrow> 'b"
  ba_arrive :: "'b \<Rightarrow> 'b"
  ba_open :: "'b \<Rightarrow> bool"

text \<open>
  What boost documents: the queue is first in, first out; \<open>pull\<close> and \<open>wait_pull\<close> wait while it is
  empty and not closed; \<open>wait_pull\<close> reports a closed empty queue; the barrier lets its threads go
  when as many have arrived as it was made for.
\<close>
definition sq_contract ::
  "('q, 'b) sq_lib \<Rightarrow> ('q \<Rightarrow> nat list) \<Rightarrow> ('q \<Rightarrow> bool) \<Rightarrow> ('b \<Rightarrow> nat \<times> nat) \<Rightarrow> bool" where
  "sq_contract Q items closed arrived \<longleftrightarrow>
     items (sq_new Q) = [] \<and> \<not> closed (sq_new Q) \<and>
     (\<forall>v q. \<not> closed q \<longrightarrow>
        (\<exists>q'. sq_push Q v q = Some q' \<and> items q' = items q @ [v] \<and> \<not> closed q')) \<and>
     (\<forall>q. items q = [] \<and> \<not> closed q \<longrightarrow> sq_pull Q q = None \<and> sq_wait_pull Q q = None) \<and>
     (\<forall>q v vs. items q = v # vs \<longrightarrow>
        (\<exists>q'. sq_pull Q q = Some (v, q') \<and> items q' = vs \<and> closed q' = closed q) \<and>
        (\<exists>q'. sq_wait_pull Q q = Some (R_success v, q') \<and> items q' = vs \<and> closed q' = closed q)) \<and>
     (\<forall>q. items q = [] \<and> closed q \<longrightarrow>
        (\<exists>q'. sq_wait_pull Q q = Some (R_closed, q') \<and> items q' = [] \<and> closed q')) \<and>
     (\<forall>q. items (sq_close Q q) = items q \<and> closed (sq_close Q q)) \<and>
     (\<forall>q. sq_empty Q q \<longleftrightarrow> items q = []) \<and>
     (\<forall>n. arrived (ba_new Q n) = (n, 0)) \<and>
     (\<forall>b. arrived (ba_arrive Q b) = (fst (arrived b), Suc (snd (arrived b)))) \<and>
     (\<forall>b. ba_open Q b \<longleftrightarrow> fst (arrived b) \<le> snd (arrived b))"

text \<open>A list with a flag, and a count.\<close>
definition list_queue :: "(nat list \<times> bool, nat \<times> nat) sq_lib" where
  "list_queue =
     \<lparr>sq_new = ([], False), sq_push = (\<lambda>v (q, c). if c then None else Some (q @ [v], c)),
      sq_pull = (\<lambda>(q, c). case q of [] \<Rightarrow> None | v # vs \<Rightarrow> Some (v, (vs, c))),
      sq_wait_pull = (\<lambda>(q, c). case q of [] \<Rightarrow> if c then Some (R_closed, ([], c)) else None
                               | v # vs \<Rightarrow> Some (R_success v, (vs, c))),
      sq_close = (\<lambda>(q, c). (q, True)), sq_empty = (\<lambda>(q, c). q = []),
      ba_new = (\<lambda>n. (n, 0)), ba_arrive = (\<lambda>(n, a). (n, Suc a)), ba_open = (\<lambda>(n, a). n \<le> a)\<rparr>"

lemma list_queue_contract: "sq_contract list_queue fst snd id"
  by (auto simp: sq_contract_def list_queue_def split: list.splits)

section \<open>The functions and the tests\<close>

text \<open>\<open>call_push\<close> (with the value it pushes), \<open>call_pull\<close> and \<open>call_wait_pull\<close>.\<close>
datatype sq_fn = Call_push nat | Call_pull | Call_wait_pull

text \<open>Before the barrier, at it, at the queue; returned with a result.\<close>
datatype sq_pc = SQ_arrive | SQ_wait | SQ_op | SQ_done sq_result

text \<open>
  The statements of a test: start a function, push, close, \<open>get\<close> of a future with the check of
  its result, a check whether the queue is empty, and the check of a value that is pulled.
\<close>
datatype sq_check = Any | Value_is nat | Value_not nat | Success_not nat | Is_closed

datatype sq_stmt =
  S_async sq_fn | S_push nat | S_close | S_get nat sq_check | S_empty bool | S_pull_not nat

fun passes :: "sq_check \<Rightarrow> sq_result \<Rightarrow> bool" where
  "passes Any r \<longleftrightarrow> True"
| "passes (Value_is v) r \<longleftrightarrow> r = R_value v"
| "passes (Value_not v) r \<longleftrightarrow> (case r of R_value w \<Rightarrow> w \<noteq> v | _ \<Rightarrow> False)"
| "passes (Success_not v) r \<longleftrightarrow> (case r of R_success w \<Rightarrow> w \<noteq> v | _ \<Rightarrow> False)"
| "passes Is_closed r \<longleftrightarrow> r = R_closed"

definition push_and_pull_on_empty_queue :: "sq_stmt list" where
  "push_and_pull_on_empty_queue =
     [S_async (Call_push 42), S_async Call_pull, S_get 0 Any, S_get 1 (Value_is 42), S_empty True]"

definition push_and_wait_pull_on_empty_queue :: "sq_stmt list" where
  "push_and_wait_pull_on_empty_queue =
     replicate 3 (S_async Call_wait_pull) @ map (\<lambda>i. S_push (42 + i)) [0..<3] @
     map (\<lambda>i. S_get i (Success_not 41)) [0..<3] @ [S_empty True]"

definition wait_pull_and_close_on_empty_queue :: "sq_stmt list" where
  "wait_pull_and_close_on_empty_queue =
     replicate 3 (S_async Call_wait_pull) @ [S_close] @
     map (\<lambda>i. S_get i Is_closed) [0..<3] @ [S_empty True]"

definition push_on_empty_queue :: "sq_stmt list" where
  "push_on_empty_queue =
     replicate 3 (S_async (Call_push 42)) @ map (\<lambda>i. S_get i Any) [0..<3] @ [S_empty False] @
     replicate 3 (S_pull_not 41) @ [S_empty True]"

definition pull_on_queue :: "sq_stmt list" where
  "pull_on_queue =
     map (\<lambda>i. S_push (42 + i)) [0..<3] @ replicate 3 (S_async Call_pull) @
     map (\<lambda>i. S_get i (Value_not 41)) [0..<3] @ [S_empty True]"

text \<open>The tests with the numbers their barriers are made for, in the order of \<open>main\<close>.\<close>
definition queue_tests :: "(nat \<times> sq_stmt list) list" where
  "queue_tests =
     [(2, push_and_pull_on_empty_queue), (3, push_and_wait_pull_on_empty_queue),
      (3, wait_pull_and_close_on_empty_queue), (3, push_on_empty_queue), (3, pull_on_queue)]"

section \<open>Executions\<close>

record ('q, 'b) queue_test =
  qt_queue :: 'q
  qt_go :: 'b
  qt_fns :: "(sq_fn \<times> sq_pc) list"
  qt_rest :: "sq_stmt list"
  qt_failed :: bool

definition qt_start :: "('q, 'b) sq_lib \<Rightarrow> nat \<times> sq_stmt list \<Rightarrow> ('q, 'b) queue_test" where
  "qt_start Q t =
     \<lparr>qt_queue = sq_new Q, qt_go = ba_new Q (fst t), qt_fns = [], qt_rest = snd t,
      qt_failed = False\<rparr>"

definition qt_set :: "nat \<Rightarrow> sq_fn \<Rightarrow> sq_pc \<Rightarrow> ('q, 'b) queue_test \<Rightarrow> ('q, 'b) queue_test" where
  "qt_set i f pc s = s\<lparr>qt_fns := (qt_fns s)[i := (f, pc)]\<rparr>"

text \<open>One step of a function.\<close>
definition qt_fn_step ::
  "('q, 'b) sq_lib \<Rightarrow> nat \<Rightarrow> ('q, 'b) queue_test \<Rightarrow> ('q, 'b) queue_test option" where
  "qt_fn_step Q i s =
     (case qt_fns s ! i of (f, pc) \<Rightarrow>
        (case pc of
           SQ_arrive \<Rightarrow> Some (qt_set i f SQ_wait (s\<lparr>qt_go := ba_arrive Q (qt_go s)\<rparr>))
         | SQ_wait \<Rightarrow> (if ba_open Q (qt_go s) then Some (qt_set i f SQ_op s) else None)
         | SQ_op \<Rightarrow>
             (case f of
                Call_push v \<Rightarrow>
                  map_option (\<lambda>q. qt_set i f (SQ_done R_void) (s\<lparr>qt_queue := q\<rparr>))
                    (sq_push Q v (qt_queue s))
              | Call_pull \<Rightarrow>
                  map_option (\<lambda>(v, q). qt_set i f (SQ_done (R_value v)) (s\<lparr>qt_queue := q\<rparr>))
                    (sq_pull Q (qt_queue s))
              | Call_wait_pull \<Rightarrow>
                  map_option (\<lambda>(r, q). qt_set i f (SQ_done r) (s\<lparr>qt_queue := q\<rparr>))
                    (sq_wait_pull Q (qt_queue s)))
         | SQ_done r \<Rightarrow> None))"

text \<open>One statement of the main thread; a failed check is noted and the test goes on.\<close>
definition qt_main_step ::
  "('q, 'b) sq_lib \<Rightarrow> ('q, 'b) queue_test \<Rightarrow> ('q, 'b) queue_test option" where
  "qt_main_step Q s =
     (case qt_rest s of
        [] \<Rightarrow> None
      | st # rest \<Rightarrow>
          (case st of
             S_async f \<Rightarrow> Some (s\<lparr>qt_fns := qt_fns s @ [(f, SQ_arrive)], qt_rest := rest\<rparr>)
           | S_push v \<Rightarrow>
               map_option (\<lambda>q. s\<lparr>qt_queue := q, qt_rest := rest\<rparr>) (sq_push Q v (qt_queue s))
           | S_close \<Rightarrow> Some (s\<lparr>qt_queue := sq_close Q (qt_queue s), qt_rest := rest\<rparr>)
           | S_get i c \<Rightarrow>
               (case snd (qt_fns s ! i) of
                  SQ_done r \<Rightarrow> Some (s\<lparr>qt_failed := (qt_failed s \<or> \<not> passes c r), qt_rest := rest\<rparr>)
                | _ \<Rightarrow> None)
           | S_empty b \<Rightarrow>
               Some (s\<lparr>qt_failed := (qt_failed s \<or> sq_empty Q (qt_queue s) \<noteq> b), qt_rest := rest\<rparr>)
           | S_pull_not v \<Rightarrow>
               map_option (\<lambda>(w, q). s\<lparr>qt_queue := q, qt_failed := (qt_failed s \<or> w = v),
                                       qt_rest := rest\<rparr>)
                 (sq_pull Q (qt_queue s))))"

datatype qt_label = QT_main | QT_fn nat

fun qt_step ::
  "('q, 'b) sq_lib \<Rightarrow> ('q, 'b) queue_test \<Rightarrow> qt_label \<Rightarrow> ('q, 'b) queue_test option" where
  "qt_step Q s QT_main = qt_main_step Q s"
| "qt_step Q s (QT_fn i) = (if i < length (qt_fns s) then qt_fn_step Q i s else None)"

end
