(* ===== verification/Queue_Test_Runs.thy ===== *)
theory Queue_Test_Runs
  imports Queue_Tests
begin

text \<open>
  Every execution of the tests of \<open>Queue_Tests\<close>: a condition on the text of a test that can be
  computed, the invariant it gives, and the theorem that no check fails and the test returns.
\<close>

section \<open>What the text of a test says\<close>

text \<open>The functions a test starts, in order, and the values it pushes.\<close>
fun asyncs :: "sq_stmt list \<Rightarrow> sq_fn list" where
  "asyncs [] = []"
| "asyncs (S_async f # r) = f # asyncs r"
| "asyncs (_ # r) = asyncs r"

fun pushes :: "sq_stmt list \<Rightarrow> nat set" where
  "pushes [] = {}"
| "pushes (S_async (Call_push v) # r) = insert v (pushes r)"
| "pushes (S_push v # r) = insert v (pushes r)"
| "pushes (_ # r) = pushes r"

text \<open>How many values a function, or a statement, pushes and pulls.\<close>
fun fn_push :: "sq_fn \<Rightarrow> nat" where
  "fn_push (Call_push v) = 1"
| "fn_push _ = 0"

definition fn_pull :: "sq_fn \<Rightarrow> nat" where
  "fn_pull f = 1 - fn_push f"

fun stmt_push :: "sq_stmt \<Rightarrow> nat" where
  "stmt_push (S_async f) = fn_push f"
| "stmt_push (S_push v) = 1"
| "stmt_push _ = 0"

fun stmt_pull :: "sq_stmt \<Rightarrow> nat" where
  "stmt_pull (S_async f) = fn_pull f"
| "stmt_pull (S_pull_not v) = 1"
| "stmt_pull _ = 0"

text \<open>Statements that only wait for results and check.\<close>
fun late :: "sq_stmt \<Rightarrow> bool" where
  "late (S_get i c) \<longleftrightarrow> True"
| "late (S_empty b) \<longleftrightarrow> True"
| "late (S_pull_not v) \<longleftrightarrow> True"
| "late _ \<longleftrightarrow> False"

fun is_get :: "nat \<Rightarrow> sq_stmt \<Rightarrow> bool" where
  "is_get i (S_get j c) \<longleftrightarrow> i = j"
| "is_get i _ \<longleftrightarrow> False"

text \<open>The result of a function, given the values pushed and whether the test closes the queue.\<close>
fun result_ok :: "nat set \<Rightarrow> bool \<Rightarrow> sq_fn \<Rightarrow> sq_result \<Rightarrow> bool" where
  "result_ok V cl (Call_push v) r \<longleftrightarrow> r = R_void"
| "result_ok V cl Call_pull r \<longleftrightarrow> (\<exists>v \<in> V. r = R_value v)"
| "result_ok V cl Call_wait_pull r \<longleftrightarrow> (if cl then r = R_closed else \<exists>v \<in> V. r = R_success v)"

fun check_ok :: "nat set \<Rightarrow> bool \<Rightarrow> sq_fn \<Rightarrow> sq_check \<Rightarrow> bool" where
  "check_ok V cl f Any \<longleftrightarrow> True"
| "check_ok V cl f (Value_is v) \<longleftrightarrow> f = Call_pull \<and> V \<subseteq> {v}"
| "check_ok V cl f (Value_not v) \<longleftrightarrow> f = Call_pull \<and> v \<notin> V"
| "check_ok V cl f (Success_not v) \<longleftrightarrow> f = Call_wait_pull \<and> \<not> cl \<and> v \<notin> V"
| "check_ok V cl f Is_closed \<longleftrightarrow> f = Call_wait_pull \<and> cl"

lemma check_passes: "check_ok V cl f c \<Longrightarrow> result_ok V cl f r \<Longrightarrow> passes c r"
  by (cases c) auto

fun stmts_ok :: "sq_fn list \<Rightarrow> nat set \<Rightarrow> bool \<Rightarrow> sq_stmt list \<Rightarrow> bool" where
  "stmts_ok fs V cl [] \<longleftrightarrow> True"
| "stmts_ok fs V cl (S_async f # r) \<longleftrightarrow> stmts_ok fs V cl r"
| "stmts_ok fs V cl (S_push v # r) \<longleftrightarrow> \<not> cl \<and> stmts_ok fs V cl r"
| "stmts_ok fs V cl (S_close # r) \<longleftrightarrow> cl \<and> S_close \<notin> set r \<and> stmts_ok fs V cl r"
| "stmts_ok fs V cl (S_get i c # r) \<longleftrightarrow>
     list_all late r \<and> i < length fs \<and> check_ok V cl (fs ! i) c \<and> stmts_ok fs V cl r"
| "stmts_ok fs V cl (S_empty b # r) \<longleftrightarrow>
     list_all late r \<and> list_all (\<lambda>st. \<forall>i < length fs. \<not> is_get i st) r \<and>
     (cl \<longrightarrow> b) \<and> (b \<longleftrightarrow> sum_list (map stmt_pull r) = 0) \<and> stmts_ok fs V cl r"
| "stmts_ok fs V cl (S_pull_not v # r) \<longleftrightarrow> list_all late r \<and> \<not> cl \<and> v \<notin> V \<and> stmts_ok fs V cl r"

text \<open>
  The condition on a test: the barrier is made for as many functions as are started, each result
  is asked for, as many values are pushed as pulled, or the queue is closed and nothing is
  pushed.
\<close>
definition test_ok :: "nat \<times> sq_stmt list \<Rightarrow> bool" where
  "test_ok t \<longleftrightarrow>
     (let p = snd t; fs = asyncs p; cl = (S_close \<in> set p) in
      fst t = length fs \<and> stmts_ok fs (pushes p) cl p \<and>
      (\<forall>i < length fs. \<exists>st \<in> set p. is_get i st) \<and>
      (if cl then set fs \<subseteq> {Call_wait_pull}
       else sum_list (map stmt_push p) = sum_list (map stmt_pull p)))"

lemma queue_tests_ok: "t \<in> set queue_tests \<Longrightarrow> test_ok t"
  by (auto simp: queue_tests_def test_ok_def push_and_pull_on_empty_queue_def
      push_and_wait_pull_on_empty_queue_def wait_pull_and_close_on_empty_queue_def
      push_on_empty_queue_def pull_on_queue_def numeral_eq_Suc upt_rec fn_pull_def less_Suc_eq)

section \<open>The invariant\<close>

fun is_done :: "sq_pc \<Rightarrow> bool" where
  "is_done (SQ_done r) \<longleftrightarrow> True"
| "is_done _ \<longleftrightarrow> False"

definition arrivals :: "(sq_fn \<times> sq_pc) list \<Rightarrow> nat" where
  "arrivals fns = sum_list (map (\<lambda>(f, pc). if pc = SQ_arrive then 0 else 1) fns)"

text \<open>What the functions that have not returned still push, or pull.\<close>
definition open_push :: "(sq_fn \<times> sq_pc) list \<Rightarrow> nat" where
  "open_push fns = sum_list (map (\<lambda>(f, pc). if is_done pc then 0 else fn_push f) fns)"

definition open_pull :: "(sq_fn \<times> sq_pc) list \<Rightarrow> nat" where
  "open_pull fns = sum_list (map (\<lambda>(f, pc). if is_done pc then 0 else fn_pull f) fns)"

text \<open>A function behind the barrier, and one that has returned.\<close>
fun fn_ok :: "nat set \<Rightarrow> bool \<Rightarrow> bool \<Rightarrow> sq_fn \<times> sq_pc \<Rightarrow> bool" where
  "fn_ok V cl opened (f, SQ_op) \<longleftrightarrow> opened"
| "fn_ok V cl opened (f, SQ_done r) \<longleftrightarrow> opened \<and> result_ok V cl f r"
| "fn_ok V cl opened (f, _) \<longleftrightarrow> True"

definition qt_inv ::
  "('q \<Rightarrow> nat list) \<Rightarrow> ('q \<Rightarrow> bool) \<Rightarrow> ('b \<Rightarrow> nat \<times> nat) \<Rightarrow> sq_fn list \<Rightarrow> nat set \<Rightarrow> bool \<Rightarrow>
   ('q, 'b) queue_test \<Rightarrow> bool"
where
  "qt_inv items closed arrived fs V cl s \<longleftrightarrow>
     map fst (qt_fns s) @ asyncs (qt_rest s) = fs \<and> stmts_ok fs V cl (qt_rest s) \<and>
     arrived (qt_go s) = (length fs, arrivals (qt_fns s)) \<and>
     (\<forall>x \<in> set (qt_fns s). fn_ok V cl (length fs \<le> arrivals (qt_fns s)) x) \<and>
     pushes (qt_rest s) \<subseteq> V \<and> set (items (qt_queue s)) \<subseteq> V \<and>
     (\<forall>x \<in> set (qt_fns s). case x of (Call_push v, pc) \<Rightarrow> v \<in> V | _ \<Rightarrow> True) \<and>
     (if cl then items (qt_queue s) = []
      else length (items (qt_queue s)) + sum_list (map stmt_push (qt_rest s)) + open_push (qt_fns s)
         = sum_list (map stmt_pull (qt_rest s)) + open_pull (qt_fns s)) \<and>
     (\<forall>i < length fs. (i < length (qt_fns s) \<and> is_done (snd (qt_fns s ! i))) \<or>
        (\<exists>st \<in> set (qt_rest s). is_get i st)) \<and>
     (closed (qt_queue s) \<longleftrightarrow> cl \<and> S_close \<notin> set (qt_rest s)) \<and>
     (S_close \<in> set (qt_rest s) \<longrightarrow> cl) \<and> \<not> qt_failed s"

lemma sq_contractD:
  assumes "sq_contract Q items closed arrived"
  shows "\<not> closed q \<Longrightarrow> \<exists>q'. sq_push Q v q = Some q' \<and> items q' = items q @ [v] \<and> \<not> closed q'"
    and "items q = [] \<Longrightarrow> \<not> closed q \<Longrightarrow> sq_pull Q q = None"
    and "items q = [] \<Longrightarrow> \<not> closed q \<Longrightarrow> sq_wait_pull Q q = None"
    and "items q = w # ws \<Longrightarrow>
      \<exists>q'. sq_pull Q q = Some (w, q') \<and> items q' = ws \<and> closed q' = closed q"
    and "items q = w # ws \<Longrightarrow>
      \<exists>q'. sq_wait_pull Q q = Some (R_success w, q') \<and> items q' = ws \<and> closed q' = closed q"
    and "items q = [] \<Longrightarrow> closed q \<Longrightarrow>
      \<exists>q'. sq_wait_pull Q q = Some (R_closed, q') \<and> items q' = [] \<and> closed q'"
    and "items (sq_close Q q) = items q" "closed (sq_close Q q)"
    and "sq_empty Q q \<longleftrightarrow> items q = []"
    and "arrived (ba_arrive Q b) = (fst (arrived b), Suc (snd (arrived b)))"
    and "ba_open Q b \<longleftrightarrow> fst (arrived b) \<le> snd (arrived b)"
  using assms unfolding sq_contract_def by meson+

lemma qt_invD:
  assumes "qt_inv items closed arrived fs V cl s"
  shows "map fst (qt_fns s) @ asyncs (qt_rest s) = fs" and "stmts_ok fs V cl (qt_rest s)"
    and "arrived (qt_go s) = (length fs, arrivals (qt_fns s))"
    and "x \<in> set (qt_fns s) \<Longrightarrow> fn_ok V cl (length fs \<le> arrivals (qt_fns s)) x"
    and "pushes (qt_rest s) \<subseteq> V" and "set (items (qt_queue s)) \<subseteq> V"
    and "(Call_push v, pc) \<in> set (qt_fns s) \<Longrightarrow> v \<in> V"
    and "cl \<Longrightarrow> items (qt_queue s) = []"
    and "\<not> cl \<Longrightarrow> length (items (qt_queue s)) + sum_list (map stmt_push (qt_rest s)) +
        open_push (qt_fns s) = sum_list (map stmt_pull (qt_rest s)) + open_pull (qt_fns s)"
    and "i < length fs \<Longrightarrow> (i < length (qt_fns s) \<and> is_done (snd (qt_fns s ! i))) \<or>
        (\<exists>st \<in> set (qt_rest s). is_get i st)"
    and "closed (qt_queue s) \<longleftrightarrow> cl \<and> S_close \<notin> set (qt_rest s)"
    and "S_close \<in> set (qt_rest s) \<Longrightarrow> cl" and "\<not> qt_failed s"
  using assms unfolding qt_inv_def by (auto split: if_splits)

lemma fn_ok_opened: "fn_ok V cl a x \<Longrightarrow> a \<longrightarrow> b \<Longrightarrow> fn_ok V cl b x"
  by (cases x; cases "snd x") auto

lemma sums_update:
  assumes "i < length fns" and "fns ! i = (f, pc)"
  shows "arrivals (fns[i := (f, pc')]) + (if pc = SQ_arrive then 0 else 1) =
      arrivals fns + (if pc' = SQ_arrive then 0 else 1)"
    and "open_push (fns[i := (f, pc')]) + (if is_done pc then 0 else fn_push f) =
      open_push fns + (if is_done pc' then 0 else fn_push f)"
    and "open_pull (fns[i := (f, pc')]) + (if is_done pc then 0 else fn_pull f) =
      open_pull fns + (if is_done pc' then 0 else fn_pull f)"
  using sum_list_at [OF assms(1), of "\<lambda>(f, pc). if pc = SQ_arrive then 0 else 1" "(f, pc')"]
    sum_list_at [OF assms(1), of "\<lambda>(f, pc). if is_done pc then 0 else fn_push f" "(f, pc')"]
    sum_list_at [OF assms(1), of "\<lambda>(f, pc). if is_done pc then 0 else fn_pull f" "(f, pc')"] assms(2)
  unfolding arrivals_def open_push_def open_pull_def by simp_all

text \<open>A function moves on; the queue changes by what it does.\<close>
lemma qt_inv_fn:
  assumes inv: "qt_inv items closed arrived fs V cl s" and i: "i < length (qt_fns s)" and fn: "qt_fns s ! i = (f, pc)"
    and pc: "\<not> is_done pc" "pc = SQ_arrive \<or> pc' \<noteq> SQ_arrive"
    and go: "arrived b = (length fs, arrivals ((qt_fns s)[i := (f, pc')]))"
    and ok: "fn_ok V cl (length fs \<le> arrivals ((qt_fns s)[i := (f, pc')])) (f, pc')"
    and q: "set (items q) \<subseteq> V" "closed q = closed (qt_queue s)"
      "cl \<Longrightarrow> items q = []"
      "\<not> cl \<Longrightarrow> length (items q) + (if is_done pc' then 0 else fn_push f) + fn_pull f =
        length (items (qt_queue s)) + fn_push f + (if is_done pc' then 0 else fn_pull f)"
  shows "qt_inv items closed arrived fs V cl (qt_set i f pc' (s\<lparr>qt_go := b, qt_queue := q\<rparr>))"
proof -
  let ?fns = "(qt_fns s)[i := (f, pc')]"
  note sums = sums_update [OF i fn, of pc']
  have grow: "arrivals (qt_fns s) \<le> arrivals ?fns" using sums(1) pc(2) by (auto split: if_splits)
  have old: "fn_ok V cl (length fs \<le> arrivals ?fns) x" if "x \<in> set (qt_fns s)" for x
    using qt_invD(4) [OF inv that] grow by (auto elim!: fn_ok_opened)
  have mem: "x \<in> set (qt_fns s) \<or> x = (f, pc')" if "x \<in> set ?fns" for x
    using that set_update_subset_insert [of "qt_fns s" i "(f, pc')"] by auto
  have "fn_ok V cl (length fs \<le> arrivals ?fns) x" if "x \<in> set ?fns" for x
    using mem [OF that] old ok by metis
  moreover have "case x of (Call_push v, pc) \<Rightarrow> v \<in> V | _ \<Rightarrow> True" if "x \<in> set ?fns" for x
    using mem [OF that] qt_invD(7) [OF inv] fn i
    by (auto split: prod.splits sq_fn.splits dest: nth_mem)
  moreover have "map fst ?fns = map fst (qt_fns s)"
    using fn i by (simp add: map_update list_update_same_conv)
  moreover have "(j < length ?fns \<and> is_done (snd (?fns ! j))) \<or> (\<exists>st \<in> set (qt_rest s). is_get j st)"
    if "j < length fs" for j
    using qt_invD(10) [OF inv that] fn pc(1) by (cases "j = i") auto
  moreover have "length (items q) + sum_list (map stmt_push (qt_rest s)) + open_push ?fns =
      sum_list (map stmt_pull (qt_rest s)) + open_pull ?fns" if "\<not> cl"
    using qt_invD(9) [OF inv that] sums(2,3) q(4) [OF that] pc(1) by (auto split: if_splits)
  ultimately show ?thesis
    using qt_invD [OF inv] go q(1-3) unfolding qt_inv_def qt_set_def by simp
qed

lemma qt_fn_step_inv:
  assumes Q: "sq_contract Q items closed arrived" and cl: "cl \<Longrightarrow> set fs \<subseteq> {Call_wait_pull}"
    and inv: "qt_inv items closed arrived fs V cl s" and i: "i < length (qt_fns s)"
    and step: "qt_fn_step Q i s = Some s'"
  shows "qt_inv items closed arrived fs V cl s'"
proof -
  obtain f pc where fn: "qt_fns s ! i = (f, pc)" by (cases "qt_fns s ! i")
  note inv' = qt_invD [OF inv]
  have mem: "(f, pc) \<in> set (qt_fns s)" using i fn by (metis nth_mem)
  then have fs: "f \<in> set fs" using inv'(1) by (metis Un_iff fst_conv image_eqI list.set_map set_append)
  note move = qt_inv_fn [OF inv i fn, where b = "qt_go s"]
  have full: "length fs \<le> arrivals ((qt_fns s)[i := (f, pc')])"
    if "pc = SQ_op \<or> pc = SQ_wait \<and> ba_open Q (qt_go s)" "pc' \<noteq> SQ_arrive" for pc'
    using that inv'(3) inv'(4) [OF mem] sums_update(1) [OF i fn, of pc'] sq_contractD(11) [OF Q]
    by auto
  have go: "arrived (qt_go s) = (length fs, arrivals ((qt_fns s)[i := (f, pc')]))"
    if "pc \<noteq> SQ_arrive" "pc' \<noteq> SQ_arrive" for pc'
    using that inv'(3) sums_update(1) [OF i fn, of pc'] by simp
  show ?thesis
  proof (cases pc)
    case SQ_arrive
    then have s': "s' = qt_set i f SQ_wait (s\<lparr>qt_go := ba_arrive Q (qt_go s), qt_queue := qt_queue s\<rparr>)"
      using step fn by (simp add: qt_fn_step_def)
    show ?thesis
      unfolding s' using SQ_arrive inv' sums_update(1) [OF i fn, of SQ_wait] sq_contractD(10) [OF Q]
      by (intro qt_inv_fn [OF inv i fn]) auto
  next
    case SQ_wait
    then have opened: "ba_open Q (qt_go s)"
      and s': "s' = qt_set i f SQ_op (s\<lparr>qt_go := qt_go s, qt_queue := qt_queue s\<rparr>)"
      using step fn by (auto simp: qt_fn_step_def split: if_splits)
    show ?thesis
      unfolding s' using SQ_wait opened inv' full go by (intro move) auto
  next
    case SQ_op
    note con = sq_contractD [OF Q]
    have closed: "closed (qt_queue s) \<Longrightarrow> cl" using inv'(11) by simp
    obtain r q where s': "s' = qt_set i f (SQ_done r) (s\<lparr>qt_go := qt_go s, qt_queue := q\<rparr>)"
      and r: "result_ok V cl f r" "set (items q) \<subseteq> V" "closed q = closed (qt_queue s)"
        "cl \<Longrightarrow> items q = []"
        "\<not> cl \<Longrightarrow> length (items q) + fn_pull f = length (items (qt_queue s)) + fn_push f"
    proof (cases f)
      case (Call_push v)
      then have "\<not> cl" "v \<in> V" using cl fs inv'(7) mem by auto
      moreover from this obtain q where "sq_push Q v (qt_queue s) = Some q"
        "items q = items (qt_queue s) @ [v]" "\<not> closed q"
        using con(1) closed by blast
      ultimately show ?thesis
        using step fn SQ_op Call_push inv'(6) closed
        by (intro that [of R_void q]) (auto simp: qt_fn_step_def fn_pull_def)
    next
      case Call_pull
      then have "\<not> cl" using cl fs by auto
      then have "\<not> closed (qt_queue s)" using closed by blast
      then obtain w ws where "items (qt_queue s) = w # ws"
        using con(2) [of "qt_queue s"] step fn SQ_op Call_pull
        by (cases "items (qt_queue s)") (auto simp: qt_fn_step_def)
      moreover from con(4) [OF this] obtain q where "sq_pull Q (qt_queue s) = Some (w, q)"
        "items q = ws" "closed q = closed (qt_queue s)" by blast
      ultimately show ?thesis
        using step fn SQ_op Call_pull inv'(6) \<open>\<not> cl\<close>
        by (intro that [of "R_value w" q]) (auto simp: qt_fn_step_def fn_pull_def)
    next
      case Call_wait_pull
      show ?thesis
      proof (cases "items (qt_queue s)")
        case Nil
        have "closed (qt_queue s)"
          by (rule ccontr)
            (use con(3) [OF Nil] step fn SQ_op Call_wait_pull in \<open>auto simp: qt_fn_step_def\<close>)
        moreover from con(6) [OF Nil this] obtain q where
          "sq_wait_pull Q (qt_queue s) = Some (R_closed, q)" "items q = []" "closed q" by blast
        ultimately show ?thesis
          using step fn SQ_op Call_wait_pull closed
          by (intro that [of R_closed q]) (auto simp: qt_fn_step_def)
      next
        case (Cons w ws)
        then have "\<not> cl" using inv'(8) by auto
        moreover from con(5) [OF Cons] obtain q where
          "sq_wait_pull Q (qt_queue s) = Some (R_success w, q)" "items q = ws"
          "closed q = closed (qt_queue s)" by blast
        ultimately show ?thesis
          using step fn SQ_op Call_wait_pull inv'(6) Cons
          by (intro that [of "R_success w" q]) (auto simp: qt_fn_step_def fn_pull_def)
      qed
    qed
    show ?thesis
      unfolding s' using SQ_op full [of "SQ_done r"] go [of "SQ_done r"] r by (intro move) auto
  qed (use step fn in \<open>simp add: qt_fn_step_def\<close>)
qed

text \<open>The statements of the main thread.\<close>
lemma late_quiet:
  "list_all late r \<Longrightarrow>
   asyncs r = [] \<and> pushes r = {} \<and> sum_list (map stmt_push r) = 0 \<and> S_close \<notin> set r"
proof (induction r)
  case (Cons st r)
  then show ?case by (cases st) auto
qed simp

lemma open_none:
  "\<forall>x \<in> set fns. is_done (snd x) \<Longrightarrow> open_push fns = 0 \<and> open_pull fns = 0"
  by (induction fns) (auto simp: open_push_def open_pull_def)

lemma all_returned:
  assumes inv: "qt_inv items closed arrived fs V cl s" and "list_all late (qt_rest s)"
    and "list_all (\<lambda>st. \<forall>i < length fs. \<not> is_get i st) (qt_rest s)"
  shows "open_push (qt_fns s) = 0 \<and> open_pull (qt_fns s) = 0"
proof -
  have "length (qt_fns s) = length fs"
    using qt_invD(1) [OF inv] late_quiet [OF assms(2)] by (metis append_Nil2 length_map)
  then have "is_done (snd (qt_fns s ! i))" if "i < length (qt_fns s)" for i
    using qt_invD(10) [OF inv, of i] assms(3) that by (auto simp: list_all_iff)
  then have "is_done (snd x)" if "x \<in> set (qt_fns s)" for x
    using that by (auto simp: in_set_conv_nth)
  then show ?thesis using open_none by blast
qed

lemma qt_main_step_inv:
  assumes Q: "sq_contract Q items closed arrived" and cl: "cl \<Longrightarrow> set fs \<subseteq> {Call_wait_pull}"
    and inv: "qt_inv items closed arrived fs V cl s" and step: "qt_main_step Q s = Some s'"
  shows "qt_inv items closed arrived fs V cl s'"
proof -
  obtain st rest where st: "qt_rest s = st # rest"
    using step by (cases "qt_rest s") (auto simp: qt_main_step_def)
  note inv' = qt_invD [OF inv, unfolded st] and con = sq_contractD [OF Q]
  have gets: "(i < length (qt_fns s) \<and> is_done (snd (qt_fns s ! i))) \<or> (\<exists>st \<in> set rest. is_get i st)"
    if "i < length fs" "\<not> is_get i st" for i
    using inv'(10) [OF that(1)] that(2) by auto
  show ?thesis
  proof (cases st)
    case (S_async f)
    have s': "s' = s\<lparr>qt_fns := qt_fns s @ [(f, SQ_arrive)], qt_rest := rest\<rparr>"
      using step st S_async by (simp add: qt_main_step_def)
    have "arrivals (qt_fns s @ [(f, SQ_arrive)]) = arrivals (qt_fns s)"
      "open_push (qt_fns s @ [(f, SQ_arrive)]) = open_push (qt_fns s) + fn_push f"
      "open_pull (qt_fns s @ [(f, SQ_arrive)]) = open_pull (qt_fns s) + fn_pull f"
      by (simp_all add: arrivals_def open_push_def open_pull_def)
    moreover have "case f of Call_push v \<Rightarrow> v \<in> V | _ \<Rightarrow> True" "pushes rest \<subseteq> V"
      using inv'(5) S_async by (cases f; simp)+
    moreover have "(i < length (qt_fns s @ [(f, SQ_arrive)]) \<and>
        is_done (snd ((qt_fns s @ [(f, SQ_arrive)]) ! i))) \<or> (\<exists>st \<in> set rest. is_get i st)"
      if "i < length fs" for i
      using gets [OF that] S_async by (auto simp: nth_append)
    ultimately show ?thesis
      using inv' S_async unfolding qt_inv_def s'
      by (auto split: sq_fn.splits prod.splits)
  next
    case (S_push v)
    then have "\<not> cl" using inv'(2) by simp
    then obtain q where "sq_push Q v (qt_queue s) = Some q" "items q = items (qt_queue s) @ [v]"
      "\<not> closed q" using con(1) [of "qt_queue s" v] inv'(11) by auto
    moreover from this have "s' = s\<lparr>qt_queue := q, qt_rest := rest\<rparr>"
      using step st S_push by (simp add: qt_main_step_def)
    ultimately show ?thesis
      using inv' gets S_push \<open>\<not> cl\<close> unfolding qt_inv_def
      by (auto split: sq_fn.splits prod.splits)
  next
    case S_close
    then have "s' = s\<lparr>qt_queue := sq_close Q (qt_queue s), qt_rest := rest\<rparr>"
      using step st by (simp add: qt_main_step_def)
    then show ?thesis
      using inv' gets S_close con(7,8) unfolding qt_inv_def
      by (auto split: sq_fn.splits prod.splits)
  next
    case (S_get i c)
    then obtain r where r: "snd (qt_fns s ! i) = SQ_done r"
      and s': "s' = s\<lparr>qt_failed := (qt_failed s \<or> \<not> passes c r), qt_rest := rest\<rparr>"
      using step st by (auto simp: qt_main_step_def split: sq_pc.splits)
    have late: "list_all late rest" and i: "i < length fs" and ok: "check_ok V cl (fs ! i) c"
      using inv'(2) S_get by simp_all
    have fs: "map fst (qt_fns s) = fs" using inv'(1) late_quiet [OF late] S_get by simp
    then have len: "i < length (qt_fns s)" using i by auto
    then obtain f where f: "qt_fns s ! i = (f, SQ_done r)" using r by (cases "qt_fns s ! i") simp
    then have "fs ! i = f" using fs len by (metis fst_conv nth_map)
    moreover have "result_ok V cl f r" using inv'(4) [of "(f, SQ_done r)"] f len by (metis fn_ok.simps(2) nth_mem)
    ultimately have "passes c r" using ok check_passes by metis
    moreover have "(j < length (qt_fns s) \<and> is_done (snd (qt_fns s ! j))) \<or> (\<exists>st \<in> set rest. is_get j st)"
      if "j < length fs" for j
      using gets [OF that] S_get r len by (cases "j = i") auto
    ultimately show ?thesis
      using inv' S_get unfolding qt_inv_def s' by (auto split: sq_fn.splits prod.splits)
  next
    case (S_empty b)
    then have s': "s' = s\<lparr>qt_failed := (qt_failed s \<or> sq_empty Q (qt_queue s) \<noteq> b), qt_rest := rest\<rparr>"
      using step st by (simp add: qt_main_step_def)
    have ok: "list_all late (qt_rest s)" "list_all (\<lambda>st. \<forall>i < length fs. \<not> is_get i st) (qt_rest s)"
      using inv'(2) S_empty st by simp_all
    have b: "b \<longleftrightarrow> sum_list (map stmt_pull rest) = 0" "cl \<longrightarrow> b"
      using inv'(2) unfolding S_empty stmts_ok.simps by blast+
    have "items (qt_queue s) = [] \<longleftrightarrow> b"
    proof (cases cl)
      case False
      have "sum_list (map stmt_push rest) = 0"
        using late_quiet [OF ok(1)] unfolding st S_empty by simp
      moreover have "length (items (qt_queue s)) + sum_list (map stmt_push rest) +
          open_push (qt_fns s) = sum_list (map stmt_pull rest) + open_pull (qt_fns s)"
        using inv'(9) [OF False] S_empty by simp
      ultimately have "length (items (qt_queue s)) = sum_list (map stmt_pull rest)"
        using all_returned [OF inv ok(1,2)] by linarith
      then show ?thesis using b(1) by (metis length_0_conv)
    qed (use inv'(8) b(2) in simp)
    then show ?thesis
      using inv' gets S_empty con(9) unfolding qt_inv_def s'
      by (auto split: sq_fn.splits prod.splits)
  next
    case (S_pull_not v)
    then have ncl: "\<not> cl" and v: "v \<notin> V" using inv'(2) by simp_all
    then obtain w ws where items: "items (qt_queue s) = w # ws"
      using con(2) [of "qt_queue s"] inv'(11) step st S_pull_not
      by (cases "items (qt_queue s)") (auto simp: qt_main_step_def)
    from con(4) [OF this] obtain q where "sq_pull Q (qt_queue s) = Some (w, q)"
      "items q = ws" "closed q = closed (qt_queue s)" by blast
    moreover from this have "s' = s\<lparr>qt_queue := q, qt_failed := (qt_failed s \<or> w = v), qt_rest := rest\<rparr>"
      using step st S_pull_not by (simp add: qt_main_step_def)
    moreover have "w \<noteq> v" using inv'(6) items v by auto
    ultimately show ?thesis
      using inv' gets S_pull_not ncl items unfolding qt_inv_def
      by (auto split: sq_fn.splits prod.splits)
  qed
qed

lemma qt_inv_step:
  assumes "sq_contract Q items closed arrived" and "cl \<Longrightarrow> set fs \<subseteq> {Call_wait_pull}"
    and "qt_inv items closed arrived fs V cl s" and "qt_step Q s l = Some s'"
  shows "qt_inv items closed arrived fs V cl s'"
  using assms qt_main_step_inv [OF assms(1-3)] qt_fn_step_inv [OF assms(1-3)]
  by (cases l) (auto split: if_splits)

lemma qt_inv_start:
  assumes Q: "sq_contract Q items closed arrived" and t: "test_ok t"
  shows "qt_inv items closed arrived (asyncs (snd t)) (pushes (snd t)) (S_close \<in> set (snd t))
    (qt_start Q t)"
  using assms
  by (auto simp: qt_inv_def qt_start_def test_ok_def Let_def sq_contract_def arrivals_def
      open_push_def open_pull_def split: if_splits)

section \<open>Every test returns\<close>

lemma arrivals_all: "\<forall>x \<in> set fns. snd x \<noteq> SQ_arrive \<Longrightarrow> arrivals fns = length fns"
  by (induction fns) (auto simp: arrivals_def)

text \<open>A function behind the barrier that has a value to push, or to pull from a queue, can go on.\<close>
lemma fn_can_step:
  assumes Q: "sq_contract Q items closed arrived" and cl: "cl \<Longrightarrow> set fs \<subseteq> {Call_wait_pull}"
    and inv: "qt_inv items closed arrived fs V cl s" and late: "list_all late (qt_rest s)"
    and i: "i < length (qt_fns s)" and open_i: "\<not> is_done (snd (qt_fns s ! i))"
  shows "\<exists>l s'. qt_step Q s l = Some s'"
proof (rule ccontr)
  assume "\<not> ?thesis"
  then have stuck: "qt_fn_step Q j s = None" if "j < length (qt_fns s)" for j
    using that by (cases "qt_fn_step Q j s") (force dest: spec [of _ "QT_fn j"])+
  note inv' = qt_invD [OF inv] and con = sq_contractD [OF Q] and quiet = late_quiet [OF late]
  have len: "length (qt_fns s) = length fs"
    using inv'(1) quiet by (metis append_Nil2 length_map)
  have "snd (qt_fns s ! j) \<noteq> SQ_arrive" if "j < length (qt_fns s)" for j
    using stuck [OF that] by (cases "qt_fns s ! j") (auto simp: qt_fn_step_def)
  then have "\<forall>x \<in> set (qt_fns s). snd x \<noteq> SQ_arrive" by (metis in_set_conv_nth)
  then have "arrivals (qt_fns s) = length (qt_fns s)" by (rule arrivals_all)
  then have opened: "ba_open Q (qt_go s)" using inv'(3) con(11) len by simp
  have member: "f \<in> set fs" if "qt_fns s ! j = (f, pc)" "j < length (qt_fns s)" for j f pc
    using that inv'(1) by (metis Un_iff fst_conv image_eqI list.set_map nth_mem set_append)
  have no_push: "\<not> cl" "sq_push Q v (qt_queue s) \<noteq> None"
    if "qt_fns s ! j = (Call_push v, pc)" "j < length (qt_fns s)" for j v pc
  proof -
    show "\<not> cl" using member [OF that] cl by auto
    then show "sq_push Q v (qt_queue s) \<noteq> None" using con(1) [of "qt_queue s" v] inv'(11) by auto
  qed
  have at: "is_done (snd (qt_fns s ! j)) \<or> snd (qt_fns s ! j) = SQ_op \<and> fn_push (fst (qt_fns s ! j)) = 0"
    if "j < length (qt_fns s)" for j
  proof -
    obtain f pc where fn: "qt_fns s ! j = (f, pc)" by (cases "qt_fns s ! j")
    then show ?thesis
      using stuck [OF that] opened no_push(2) [OF _ that]
      by (cases pc; cases f) (auto simp: qt_fn_step_def split: if_splits)
  qed
  obtain f where fn: "qt_fns s ! i = (f, SQ_op)" "fn_push f = 0"
    using at [OF i] open_i by (cases "qt_fns s ! i") auto
  have fail: "f = Call_pull \<Longrightarrow> sq_pull Q (qt_queue s) = None"
    "f = Call_wait_pull \<Longrightarrow> sq_wait_pull Q (qt_queue s) = None"
    using stuck [OF i] fn(1) by (auto simp: qt_fn_step_def)
  show False
  proof (cases cl)
    case True
    then have "f = Call_wait_pull" using member [OF fn(1) i] cl by auto
    moreover have "closed (qt_queue s)" using True inv'(11) quiet by simp
    ultimately show False using fail(2) con(6) [OF inv'(8) [OF True]] by auto
  next
    case False
    have zero: "(\<lambda>(f, pc). if is_done pc then 0 else fn_push f) x = 0" if "x \<in> set (qt_fns s)" for x
      using at that by (auto simp: in_set_conv_nth split: prod.splits) (metis fst_conv snd_conv)+
    then have "open_push (qt_fns s) = 0"
      unfolding open_push_def by (simp add: sum_list_eq_0_iff)
    moreover have "fn_pull f \<le> open_pull (qt_fns s)"
      using nth_mem [OF i] fn(1) unfolding open_pull_def
      by (intro member_le_sum_list) (force, simp)
    then have "0 < open_pull (qt_fns s)" using fn(2) by (simp add: fn_pull_def)
    moreover have "sum_list (map stmt_push (qt_rest s)) = 0" using quiet by blast
    ultimately have "length (items (qt_queue s)) \<noteq> 0" using inv'(9) [OF False] by linarith
    then have "items (qt_queue s) \<noteq> []" by simp
    then obtain w ws where "items (qt_queue s) = w # ws" by (cases "items (qt_queue s)") auto
    then show False using fail fn(2) con(4,5) by (cases f) fastforce+
  qed
qed

text \<open>The steps that are left; every step is one of them.\<close>
fun pc_left :: "sq_pc \<Rightarrow> nat" where
  "pc_left SQ_arrive = 3"
| "pc_left SQ_wait = 2"
| "pc_left SQ_op = 1"
| "pc_left (SQ_done r) = 0"

fun stmt_left :: "sq_stmt \<Rightarrow> nat" where
  "stmt_left (S_async f) = 4"
| "stmt_left _ = 1"

definition qt_left :: "('q, 'b) queue_test \<Rightarrow> nat" where
  "qt_left s = sum_list (map stmt_left (qt_rest s)) + sum_list (map (pc_left \<circ> snd) (qt_fns s))"

lemma qt_left_step: "qt_step Q s l = Some s' \<Longrightarrow> Suc (qt_left s') = qt_left s"
proof (cases l)
  case QT_main
  assume "qt_step Q s l = Some s'"
  with QT_main show ?thesis
    by (auto simp: qt_main_step_def qt_left_def split: list.splits sq_stmt.splits sq_pc.splits)
next
  case (QT_fn i)
  assume step: "qt_step Q s l = Some s'"
  then have i: "i < length (qt_fns s)" using QT_fn by (simp split: if_splits)
  obtain f pc where fn: "qt_fns s ! i = (f, pc)" by (cases "qt_fns s ! i")
  obtain pc' where "qt_fns s' = (qt_fns s)[i := (f, pc')]" "qt_rest s' = qt_rest s"
    and "Suc (pc_left pc') = pc_left pc"
    using step QT_fn i fn
    by (auto simp: qt_fn_step_def qt_set_def split: sq_pc.splits sq_fn.splits if_splits)
  then show ?thesis
    using sum_list_at [OF i, of "pc_left \<circ> snd" "(f, pc')"] fn by (simp add: qt_left_def)
qed

lemma qt_can_step:
  assumes Q: "sq_contract Q items closed arrived" and cl: "cl \<Longrightarrow> set fs \<subseteq> {Call_wait_pull}"
    and inv: "qt_inv items closed arrived fs V cl s" and "qt_rest s \<noteq> []"
  shows "\<exists>l s'. qt_step Q s l = Some s'"
proof (rule ccontr)
  assume none: "\<not> ?thesis"
  then have stuck: "qt_main_step Q s = None" by (cases "qt_main_step Q s") (force dest: spec [of _ QT_main])+
  obtain st rest where st: "qt_rest s = st # rest" using assms(4) by (cases "qt_rest s") auto
  note inv' = qt_invD [OF inv] and con = sq_contractD [OF Q]
  have returned: "is_done (snd (qt_fns s ! i))" if "list_all late (qt_rest s)" "i < length (qt_fns s)" for i
    using fn_can_step [OF Q cl inv that] none by blast
  show False
  proof (cases st)
    case (S_push v)
    then have "\<not> closed (qt_queue s)" using inv'(2,11) st by simp
    then show ?thesis using stuck st S_push con(1) [of "qt_queue s" v] by (auto simp: qt_main_step_def)
  next
    case (S_get i c)
    then have late: "list_all late (qt_rest s)" and i: "i < length fs" using inv'(2) st by simp_all
    then have "i < length (qt_fns s)"
      using inv'(1) late_quiet by (metis append_Nil2 length_map)
    then show ?thesis
      using returned [OF late, of i] stuck st S_get
      by (cases "snd (qt_fns s ! i)") (auto simp: qt_main_step_def)
  next
    case (S_pull_not v)
    then have late: "list_all late (qt_rest s)" and ncl: "\<not> cl" using inv'(2) st by simp_all
    have "\<forall>x \<in> set (qt_fns s). is_done (snd x)"
      using returned [OF late] by (metis in_set_conv_nth)
    then have "open_push (qt_fns s) = 0 \<and> open_pull (qt_fns s) = 0" by (rule open_none)
    moreover have "0 < sum_list (map stmt_pull (qt_rest s))" using st S_pull_not by simp
    moreover have "sum_list (map stmt_push (qt_rest s)) = 0" using late_quiet [OF late] by blast
    ultimately have "length (items (qt_queue s)) \<noteq> 0" using inv'(9) [OF ncl] by linarith
    then have "items (qt_queue s) \<noteq> []" by simp
    then obtain w ws where "items (qt_queue s) = w # ws" by (cases "items (qt_queue s)") auto
    then show ?thesis using stuck st S_pull_not con(4) by (fastforce simp: qt_main_step_def)
  qed (use stuck st in \<open>simp_all add: qt_main_step_def\<close>)
qed

lemma qt_run:
  assumes Q: "sq_contract Q items closed arrived" and cl: "cl \<Longrightarrow> set fs \<subseteq> {Call_wait_pull}"
  shows "run_steps (qt_step Q) s ls = Some s' \<Longrightarrow> qt_inv items closed arrived fs V cl s \<Longrightarrow>
    qt_inv items closed arrived fs V cl s' \<and> length ls + qt_left s' = qt_left s"
proof (induction ls arbitrary: s)
  case (Cons l ls)
  then obtain u where u: "qt_step Q s l = Some u" "run_steps (qt_step Q) u ls = Some s'"
    by (auto split: option.splits)
  from Cons.IH [OF u(2) qt_inv_step [OF Q cl Cons.prems(2) u(1)]] qt_left_step [OF u(1)]
  show ?case by simp
qed simp

text \<open>
  C34: every test of \<open>multi_thread_pass.cpp\<close> passes and returns.  For every queue and barrier that
  keep the documented contract, every test of the file and every order of its threads, no check
  has failed; each step brings the test one step nearer to its end; and as long as its main
  thread has statements left, some thread can go on.
\<close>
theorem queue_tests_pass:
  assumes Q: "sq_contract Q items closed arrived" and t: "t \<in> set queue_tests"
    and run: "run_steps (qt_step Q) (qt_start Q t) ls = Some s"
  shows "\<not> qt_failed s \<and> length ls + qt_left s = sum_list (map stmt_left (snd t)) \<and>
    (qt_rest s = [] \<or> (\<exists>l s'. qt_step Q s l = Some s'))"
proof -
  note ok = queue_tests_ok [OF t]
  have cl: "S_close \<in> set (snd t) \<Longrightarrow> set (asyncs (snd t)) \<subseteq> {Call_wait_pull}"
    using ok by (simp add: test_ok_def Let_def)
  from qt_run [OF Q cl run qt_inv_start [OF Q ok]]
  have inv: "qt_inv items closed arrived (asyncs (snd t)) (pushes (snd t)) (S_close \<in> set (snd t)) s"
    and left: "length ls + qt_left s = qt_left (qt_start Q t)" by blast+
  have "qt_left (qt_start Q t) = sum_list (map stmt_left (snd t))"
    by (simp add: qt_left_def qt_start_def)
  then show ?thesis using left qt_can_step [OF Q cl inv] qt_invD(13) [OF inv] by auto
qed

theorem queue_tests_pass_witness:
  "\<exists>s. run_steps (qt_step list_queue) (qt_start list_queue (2, push_and_pull_on_empty_queue))
       [QT_main, QT_main, QT_fn 1, QT_fn 0, QT_fn 1, QT_fn 0, QT_fn 0, QT_main] = Some s \<and>
     qt_left s = 3 \<and> (\<exists>l s'. qt_step list_queue s l = Some s')"
proof -
  obtain s where run: "run_steps (qt_step list_queue)
      (qt_start list_queue (2, push_and_pull_on_empty_queue))
      [QT_main, QT_main, QT_fn 1, QT_fn 0, QT_fn 1, QT_fn 0, QT_fn 0, QT_main] = Some s"
    and s: "qt_rest s \<noteq> []"
    by (simp add: qt_start_def push_and_pull_on_empty_queue_def qt_main_step_def qt_fn_step_def
        qt_set_def list_queue_def)
  have "(2, push_and_pull_on_empty_queue) \<in> set queue_tests" by (simp add: queue_tests_def)
  from queue_tests_pass [OF list_queue_contract this run] run s show ?thesis
    by (auto simp: push_and_pull_on_empty_queue_def)
qed

end
