(* ===== verification/Laps_Stopwatch.thy ===== *)
theory Laps_Stopwatch
  imports Stopwatch_Properties
begin

text \<open>
  \<open>laps_stopwatch.hpp\<close>, the class that \<open>stopwatch.hpp\<close> was copied from, translated for itself.
  Proved: the two classes cannot be told apart by any sequence of calls, with any collector and
  any answers of the clock.
\<close>

section \<open>The class\<close>

record 'c laps_stopwatch =
  lw_start :: int
  lw_running :: bool
  lw_laps :: 'c

definition lw_dont_start :: "'c \<Rightarrow> 'c laps_stopwatch" where
  "lw_dont_start acc = \<lparr>lw_start = 0, lw_running = False, lw_laps = acc\<rparr>"

text \<open>\<open>start()\<close>, and the constructor that calls it\<close>
definition lw_begin :: "int \<Rightarrow> 'c laps_stopwatch \<Rightarrow> 'c laps_stopwatch" where
  "lw_begin now w = w\<lparr>lw_start := now, lw_running := True\<rparr>"

definition lw_new :: "int \<Rightarrow> 'c \<Rightarrow> 'c laps_stopwatch" where
  "lw_new now acc = lw_begin now \<lparr>lw_start = 0, lw_running = False, lw_laps = acc\<rparr>"

definition lw_restart :: "'c collector \<Rightarrow> int \<Rightarrow> 'c laps_stopwatch \<Rightarrow> 'c laps_stopwatch" where
  "lw_restart K tmp w =
     (if lw_running w
      then w\<lparr>lw_laps := co_store K (tmp - lw_start w) (lw_laps w), lw_start := tmp\<rparr>
      else w\<lparr>lw_running := True, lw_start := tmp\<rparr>)"

definition lw_stop :: "'c collector \<Rightarrow> int \<Rightarrow> 'c laps_stopwatch \<Rightarrow> 'c laps_stopwatch" where
  "lw_stop K now w =
     (if lw_running w
      then \<lparr>lw_start = 0, lw_running = False,
            lw_laps = co_store K (now - lw_start w) (lw_laps w)\<rparr>
      else w)"

definition lw_reset :: "'c collector \<Rightarrow> 'c laps_stopwatch \<Rightarrow> 'c laps_stopwatch" where
  "lw_reset K w = \<lparr>lw_start = 0, lw_running = False, lw_laps = co_clear K (lw_laps w)\<rparr>"

definition lw_current_lap :: "int \<Rightarrow> 'c laps_stopwatch \<Rightarrow> int" where
  "lw_current_lap now w = (if lw_running w then now - lw_start w else 0)"

definition lw_elapsed :: "'c collector \<Rightarrow> int \<Rightarrow> 'c laps_stopwatch \<Rightarrow> int" where
  "lw_elapsed K now w = co_elapsed K (lw_laps w) + lw_current_lap now w"

definition lw_last :: "'c collector \<Rightarrow> 'c laps_stopwatch \<Rightarrow> int" where
  "lw_last K w = co_last K (lw_laps w)"

subsection \<open>The overloads with an error code\<close>

text \<open>\<open>clock::now(ec)\<close>: the time, if there is one, and the \<open>ec\<close> it leaves.\<close>
definition lw_begin_ec ::
  "int option \<Rightarrow> 'c laps_stopwatch \<times> bool \<Rightarrow> 'c laps_stopwatch \<times> bool" where
  "lw_begin_ec reading s =
     (case reading of None \<Rightarrow> (fst s, True) | Some tmp \<Rightarrow> (lw_begin tmp (fst s), False))"

definition lw_new_ec :: "int option \<Rightarrow> 'c \<Rightarrow> bool \<Rightarrow> 'c laps_stopwatch \<times> bool" where
  "lw_new_ec reading acc ec =
     lw_begin_ec reading (\<lparr>lw_start = 0, lw_running = False, lw_laps = acc\<rparr>, ec)"

definition lw_restart_ec ::
  "'c collector \<Rightarrow> int option \<Rightarrow> 'c laps_stopwatch \<times> bool \<Rightarrow> 'c laps_stopwatch \<times> bool" where
  "lw_restart_ec K reading s =
     (case reading of None \<Rightarrow> (fst s, True) | Some tmp \<Rightarrow> (lw_restart K tmp (fst s), False))"

text \<open>A stopwatch that does not run neither reads the clock nor touches \<open>ec\<close>.\<close>
definition lw_stop_ec ::
  "'c collector \<Rightarrow> int option \<Rightarrow> 'c laps_stopwatch \<times> bool \<Rightarrow> 'c laps_stopwatch \<times> bool" where
  "lw_stop_ec K reading s =
     (if lw_running (fst s)
      then (case reading of None \<Rightarrow> (fst s, True) | Some tmp \<Rightarrow> (lw_stop K tmp (fst s), False))
      else s)"

definition lw_current_lap_ec :: "int option \<Rightarrow> 'c laps_stopwatch \<times> bool \<Rightarrow> int \<times> bool" where
  "lw_current_lap_ec reading s =
     (if lw_running (fst s)
      then (case reading of None \<Rightarrow> (0, True) | Some tmp \<Rightarrow> (tmp - lw_start (fst s), False))
      else (0, snd s))"

definition lw_elapsed_ec ::
  "'c collector \<Rightarrow> int option \<Rightarrow> 'c laps_stopwatch \<times> bool \<Rightarrow> int \<times> bool" where
  "lw_elapsed_ec K reading s =
     (let (tmp, ec) = lw_current_lap_ec reading s
      in if ec then (0, ec) else (co_elapsed K (lw_laps (fst s)) + tmp, ec))"

text \<open>What a client may call: an overload with an error code, or one without.\<close>
datatype sw_request = With_ec sw_op "int option" | Without_ec sw_op int

fun lw_call :: "'c collector \<Rightarrow> sw_request \<Rightarrow> 'c laps_stopwatch \<times> bool \<Rightarrow> 'c laps_stopwatch \<times> bool"
where
  "lw_call K (With_ec Sw_start reading) s = lw_begin_ec reading s"
| "lw_call K (With_ec Sw_stop reading) s = lw_stop_ec K reading s"
| "lw_call K (With_ec Sw_restart reading) s = lw_restart_ec K reading s"
| "lw_call K (With_ec Sw_reset reading) s = (lw_reset K (fst s), snd s)"
| "lw_call K (Without_ec Sw_start now) s = (lw_begin now (fst s), snd s)"
| "lw_call K (Without_ec Sw_stop now) s = (lw_stop K now (fst s), snd s)"
| "lw_call K (Without_ec Sw_restart now) s = (lw_restart K now (fst s), snd s)"
| "lw_call K (Without_ec Sw_reset now) s = (lw_reset K (fst s), snd s)"

text \<open>The same calls of \<open>stopwatch\<close>.\<close>
fun sw_request_call :: "'c collector \<Rightarrow> sw_request \<Rightarrow> 'c sw_ec \<Rightarrow> 'c sw_ec" where
  "sw_request_call K (With_ec op reading) s = sw_call K (op, reading) s"
| "sw_request_call K (Without_ec Sw_start now) s = (sw_begin now (fst s), snd s)"
| "sw_request_call K (Without_ec Sw_stop now) s = (sw_stop K now (fst s), snd s)"
| "sw_request_call K (Without_ec Sw_restart now) s = (sw_restart K now (fst s), snd s)"
| "sw_request_call K (Without_ec Sw_reset now) s = (sw_reset K (fst s), snd s)"

section \<open>The two classes\<close>

definition as_stopwatch :: "'c laps_stopwatch \<Rightarrow> 'c stopwatch" where
  "as_stopwatch w = \<lparr>sw_start = lw_start w, sw_running = lw_running w, sw_laps = lw_laps w\<rparr>"

lemmas lw_defs = as_stopwatch_def lw_dont_start_def lw_begin_def lw_new_def lw_restart_def
  lw_stop_def lw_reset_def lw_current_lap_def lw_elapsed_def lw_last_def lw_begin_ec_def
  lw_new_ec_def lw_restart_ec_def lw_stop_ec_def lw_current_lap_ec_def lw_elapsed_ec_def

lemmas sw_defs = sw_dont_start_def sw_begin_def sw_new_def sw_restart_def sw_stop_def
  sw_reset_def sw_current_lap_def sw_elapsed_def sw_last_def sw_begin_ec_def sw_restart_ec_def
  sw_stop_ec_def sw_current_lap_ec_def sw_elapsed_ec_def

lemma as_stopwatch_call:
  "map_prod as_stopwatch id (lw_call K c s) = sw_request_call K c (map_prod as_stopwatch id s)"
  by (cases "(K, c, s)" rule: lw_call.cases; cases s)
    (auto simp: lw_defs sw_defs Let_def split: option.splits)

lemma as_stopwatch_calls:
  "map_prod as_stopwatch id (fold (lw_call K) h s) =
     fold (sw_request_call K) h (map_prod as_stopwatch id s)"
  by (induction h arbitrary: s) (simp_all add: as_stopwatch_call)

text \<open>
  C36: C38: \<open>laps_stopwatch\<close> and \<open>stopwatch\<close> are one class under two names.  Whatever is called on two
  of them, made with the same collector, by whatever mixture of calls with and without an error
  code and whatever the clock answers, every getter gives the same time and the same error.
\<close>
theorem laps_stopwatch_equivalent:
  "let s = fold (lw_call K) h (lw_dont_start c, ec);
       s' = fold (sw_request_call K) h (sw_dont_start c, ec)
   in snd s = snd s' \<and> lw_running (fst s) = sw_running (fst s') \<and>
      lw_last K (fst s) = sw_last K (fst s') \<and>
      lw_elapsed K now (fst s) = sw_elapsed K now (fst s') \<and>
      lw_current_lap now (fst s) = sw_current_lap now (fst s') \<and>
      lw_elapsed_ec K reading s = sw_elapsed_ec K reading s' \<and>
      lw_current_lap_ec reading s = sw_current_lap_ec reading s'"
proof -
  obtain w e where s: "fold (lw_call K) h (lw_dont_start c, ec) = (w, e)" by fastforce
  have "sw_dont_start c = as_stopwatch (lw_dont_start c)" by (simp add: lw_defs sw_defs)
  with as_stopwatch_calls [of K h "(lw_dont_start c, ec)"] s
  have s': "fold (sw_request_call K) h (sw_dont_start c, ec) = (as_stopwatch w, e)" by simp
  show ?thesis unfolding s s' Let_def
    by (simp add: lw_defs sw_defs split: option.splits)
qed

text \<open>
  A stopwatch that is made running and one that is made and started are the same; \<open>restart\<close> is
  \<open>stop\<close> and \<open>start\<close> at one time, as its comment promises.
\<close>
lemma lw_new_is_begin:
  "lw_new now acc = lw_begin now (lw_dont_start acc)"
  "lw_new_ec reading acc ec = lw_begin_ec reading (lw_dont_start acc, ec)"
  "lw_restart K now w = lw_begin now (lw_stop K now w)"
  by (simp_all add: lw_defs)

end
