(* ===== verification/Stopwatch_Reporters.thy ===== *)
theory Stopwatch_Reporters
  imports Complex_Main Stopwatch_Properties "HOL-Library.Word"
begin

text \<open>
  The formatters and reporters of the stopwatches.  A formatter decides what is printed: it puts
  its precision, its style and the numbers of one measurement together and gives them, with its
  format string, to \<open>boost::format\<close>, which is a parameter.  A \<open>duration<double, Ratio>\<close> is a real
  number; \<open>per\<close> is the number of ticks in one unit of \<open>Ratio\<close>.  A reporter is a stopwatch that
  prints once, at the latest in its destructor.
\<close>

section \<open>The base of the formatters\<close>

text \<open>The members of \<open>base_formatter\<close> and the format string; \<open>os_\<close> is what has been written to it.\<close>
record 'y formatter =
  fm_precision :: nat
  fm_style :: 'y
  fm_format :: string
  fm_os :: string

definition formatter_new :: "'y \<Rightarrow> string \<Rightarrow> string \<Rightarrow> 'y formatter" where
  "formatter_new symbol fmt os =
     \<lparr>fm_precision = 3, fm_style = symbol, fm_format = fmt, fm_os = os\<rparr>"

definition set_precision :: "nat \<Rightarrow> 'y formatter \<Rightarrow> 'y formatter" where
  "set_precision n f =
     (let f = f\<lparr>fm_precision := n\<rparr>
      in if 9 < fm_precision f then f\<lparr>fm_precision := 9\<rparr> else f)"

definition set_duration_style :: "'y \<Rightarrow> 'y formatter \<Rightarrow> 'y formatter" where
  "set_duration_style style f = f\<lparr>fm_style := style\<rparr>"

text \<open>
  What a formatter feeds to \<open>boost::format\<close>: a duration with its group of manipulators, a plain
  number with a fixed precision, or a count.
\<close>
datatype 'y format_arg = A_duration nat 'y real | A_fixed nat real | A_count "64 word"

definition duration_arg :: "'y formatter \<Rightarrow> real \<Rightarrow> int \<Rightarrow> 'y format_arg" where
  "duration_arg f per d = A_duration (fm_precision f) (fm_style f) (of_int d / per)"

definition write_line ::
  "(string \<Rightarrow> 'y format_arg list \<Rightarrow> string) \<Rightarrow> 'y format_arg list \<Rightarrow> 'y formatter \<Rightarrow> 'y formatter"
where
  "write_line boost_format args f = f\<lparr>fm_os := fm_os f @ boost_format (fm_format f) args\<rparr>"

section \<open>The three formatters\<close>

definition elapsed_formatter ::
  "(string \<Rightarrow> 'y format_arg list \<Rightarrow> string) \<Rightarrow> real \<Rightarrow> int \<Rightarrow> 'y formatter \<Rightarrow> 'y formatter" where
  "elapsed_formatter boost_format per d f =
     (if d < 0 then f else write_line boost_format [duration_arg f per d] f)"

text \<open>\<open>process_times\<close>, the representation of a time of the process clock, in nanoseconds.\<close>
record times =
  t_real :: int
  t_user :: int
  t_system :: int

definition times_percentage :: "times \<Rightarrow> real" where
  "times_percentage t =
     (if 0 < t_real t then of_int (t_user t + t_system t) * 100 / of_int (t_real t) else 0)"

definition times_formatter ::
  "(string \<Rightarrow> 'y format_arg list \<Rightarrow> string) \<Rightarrow> real \<Rightarrow> times \<Rightarrow> 'y formatter \<Rightarrow> 'y formatter" where
  "times_formatter boost_format per t f =
     (if t_real t < 0 then f
      else write_line boost_format
        [duration_arg f per (t_real t), duration_arg f per (t_user t), duration_arg f per (t_system t),
         duration_arg f per (t_user t + t_system t), A_fixed 2 (times_percentage t)] f)"

text \<open>What the formatter reads of an accumulator set, beyond what the collector uses.\<close>
record 'a statistics = "'a accumulators" +
  acc_count :: "'a \<Rightarrow> 64 word"
  acc_min :: "'a \<Rightarrow> int"
  acc_max :: "'a \<Rightarrow> int"

text \<open>
  \<open>sum / count\<close>: the sum is a signed number of 64 bits, the count an unsigned one, so the sum is
  converted and the division is unsigned; the constructor of the duration converts the quotient
  back.
\<close>
definition mean_of :: "int \<Rightarrow> 64 word \<Rightarrow> int" where
  "mean_of s n = sint ((of_int s :: 64 word) div n)"

definition accumulator_set_formatter ::
  "(string \<Rightarrow> 'y format_arg list \<Rightarrow> string) \<Rightarrow> 'a statistics \<Rightarrow> real \<Rightarrow> 'a \<Rightarrow> 'y formatter \<Rightarrow> 'y formatter"
where
  "accumulator_set_formatter boost_format S per acc f =
     (let n = acc_count S acc
      in write_line boost_format
        [A_count n,
         duration_arg f per (if n = 0 then 0 else acc_sum S acc),
         duration_arg f per (if n = 0 then 0 else acc_min S acc),
         duration_arg f per (if n = 0 then 0 else acc_max S acc),
         duration_arg f per (if 0 < n then mean_of (acc_sum S acc) n else 0)] f)"

section \<open>Reporters\<close>

text \<open>\<open>basic_stopwatch_reporter\<close> adds a formatter and the flag \<open>reported_\<close> to a stopwatch.\<close>
record ('w, 'f) reporter =
  rp_base :: 'w
  rp_formatter :: 'f
  rp_reported :: bool

definition reporter_new :: "'w \<Rightarrow> 'f \<Rightarrow> ('w, 'f) reporter" where
  "reporter_new w fmt = \<lparr>rp_base = w, rp_formatter = fmt, rp_reported = False\<rparr>"

text \<open>\<open>report()\<close>, with the formatter's operator and the time the clock answers it.\<close>
definition reporter_report ::
  "(int \<Rightarrow> 'w \<Rightarrow> 'f \<Rightarrow> 'f) \<Rightarrow> int \<Rightarrow> ('w, 'f) reporter \<Rightarrow> ('w, 'f) reporter" where
  "reporter_report show_it now r =
     r\<lparr>rp_formatter := show_it now (rp_base r) (rp_formatter r), rp_reported := True\<rparr>"

definition reporter_destroy ::
  "(int \<Rightarrow> 'w \<Rightarrow> 'f \<Rightarrow> 'f) \<Rightarrow> int \<Rightarrow> ('w, 'f) reporter \<Rightarrow> ('w, 'f) reporter" where
  "reporter_destroy show_it now r =
     (if \<not> rp_reported r then reporter_report show_it now r else r)"

text \<open>\<open>stopclock\<close> and \<open>strict_stopclock\<close>: the constructors pass their arguments on.\<close>
definition stopclock_new :: "int \<Rightarrow> 'c \<Rightarrow> 'f \<Rightarrow> ('c stopwatch, 'f) reporter" where
  "stopclock_new now fresh fmt = reporter_new (sw_new now fresh) fmt"

definition stopclock_new_ec ::
  "int option \<Rightarrow> 'c \<Rightarrow> 'f \<Rightarrow> bool \<Rightarrow> ('c stopwatch, 'f) reporter \<times> bool" where
  "stopclock_new_ec reading fresh fmt ec =
     (case sw_begin_ec reading (sw_dont_start fresh, ec) of (w, ec') \<Rightarrow> (reporter_new w fmt, ec'))"

definition stopclock_dont_start :: "'c \<Rightarrow> 'f \<Rightarrow> ('c stopwatch, 'f) reporter" where
  "stopclock_dont_start fresh fmt = reporter_new (sw_dont_start fresh) fmt"

definition strict_stopclock_new :: "int \<Rightarrow> 'f \<Rightarrow> (int, 'f) reporter" where
  "strict_stopclock_new now fmt = reporter_new (simple_new now) fmt"

definition strict_stopclock_new_ec :: "int option \<Rightarrow> 'f \<Rightarrow> (int, 'f) reporter \<times> bool" where
  "strict_stopclock_new_ec reading fmt =
     (case strict_new_ec reading of (w, ec) \<Rightarrow> (reporter_new w fmt, ec))"

text \<open>The operator of a stopclock with the elapsed formatter.\<close>
definition show_elapsed ::
  "(string \<Rightarrow> 'y format_arg list \<Rightarrow> string) \<Rightarrow> real \<Rightarrow> 'c collector \<Rightarrow> int \<Rightarrow> 'c stopwatch \<Rightarrow>
     'y formatter \<Rightarrow> 'y formatter" where
  "show_elapsed boost_format per K now w = elapsed_formatter boost_format per (sw_elapsed K now w)"

section \<open>The precision\<close>

datatype 'y setting = Set_precision nat | Set_style 'y

fun apply_setting :: "'y setting \<Rightarrow> 'y formatter \<Rightarrow> 'y formatter" where
  "apply_setting (Set_precision n) f = set_precision n f"
| "apply_setting (Set_style y) f = set_duration_style y f"

text \<open>What was last asked for, or the default.\<close>
fun last_precision :: "nat \<Rightarrow> 'y setting list \<Rightarrow> nat" where
  "last_precision p [] = p"
| "last_precision p (Set_precision n # ss) = last_precision n ss"
| "last_precision p (Set_style y # ss) = last_precision p ss"

lemma set_precision_min: "set_precision n f = f\<lparr>fm_precision := min n 9\<rparr>"
  by (simp add: set_precision_def Let_def min_def)

lemma settings_precision:
  "fm_precision f = min p 9 \<Longrightarrow>
     fm_precision (fold apply_setting ss f) = min (last_precision p ss) 9 \<and>
     fm_os (fold apply_setting ss f) = fm_os f \<and> fm_format (fold apply_setting ss f) = fm_format f"
  by (induction p ss arbitrary: f rule: last_precision.induct)
    (simp_all add: set_precision_min set_duration_style_def)

text \<open>
  The precision of a formatter is the one last set, at most nine, and three before any is set;
  the settings print nothing.
\<close>
theorem formatter_precision:
  "fm_precision (fold apply_setting ss (formatter_new symbol fmt os)) = min (last_precision 3 ss) 9 \<and>
   fm_os (fold apply_setting ss (formatter_new symbol fmt os)) = os"
  using settings_precision [of "formatter_new symbol fmt os" 3 ss] by (simp add: formatter_new_def)

section \<open>The times\<close>

text \<open>
  With a clock whose real time has passed and whose processor times are not negative, on \<open>k\<close>
  processors, the percentage lies between zero and \<open>k\<close> hundred and is exact.
\<close>
theorem times_percentage_bounds:
  assumes "0 < t_real t" and "0 \<le> t_user t" and "0 \<le> t_system t"
    and "t_user t + t_system t \<le> k * t_real t"
  shows "0 \<le> times_percentage t \<and> times_percentage t \<le> 100 * of_int k \<and>
    times_percentage t * of_int (t_real t) = 100 * of_int (t_user t + t_system t)"
proof -
  have "of_int (t_user t + t_system t) \<le> (of_int k * of_int (t_real t) :: real)"
    using assms(4) of_int_le_iff [of "t_user t + t_system t" "k * t_real t", where 'a = real]
    by simp
  with assms(1-3) show ?thesis by (auto simp: times_percentage_def field_simps)
qed

section \<open>The statistics of the laps\<close>

text \<open>
  What boost documents of an accumulator set with the features count, sum, min and max: they are
  those of the samples it was given.
\<close>
definition statistics_contract :: "'a statistics \<Rightarrow> ('a \<Rightarrow> int list) \<Rightarrow> bool" where
  "statistics_contract S samples \<longleftrightarrow>
     samples (acc_fresh S) = [] \<and> (\<forall>r a. samples (acc_add S r a) = r # samples a) \<and>
     (\<forall>a. acc_sum S a = sum_list (samples a) \<and> acc_count S a = of_nat (length (samples a))) \<and>
     (\<forall>a. samples a \<noteq> [] \<longrightarrow> acc_min S a = Min (set (samples a)) \<and> acc_max S a = Max (set (samples a)))"

definition list_statistics :: "int list statistics" where
  "list_statistics =
     \<lparr>acc_fresh = [], acc_add = Cons, acc_sum = sum_list, acc_count = (\<lambda>a. of_nat (length a)),
      acc_min = (\<lambda>a. fold min a (hd a)), acc_max = (\<lambda>a. fold max a (hd a))\<rparr>"

lemma fold_min: "fold min ds d = Min (insert d (set ds))" for d :: int
  by (simp add: Min.set_eq_fold [symmetric])

lemma fold_max: "fold max ds d = Max (insert d (set ds))" for d :: int
  by (simp add: Max.set_eq_fold [symmetric])

lemma list_statistics_contract: "statistics_contract list_statistics id"
  by (simp add: statistics_contract_def list_statistics_def fold_min fold_max insert_absorb)

abbreviation statistics_collector :: "'a statistics \<Rightarrow> (int \<times> 'a) collector" where
  "statistics_collector S \<equiv> laps_accumulator_set (accumulators.truncate S)"

text \<open>A stopwatch that keeps statistics beside one that keeps the laps.\<close>
definition same_laps :: "('a \<Rightarrow> int list) \<Rightarrow> (int \<times> 'a) sw_ec \<Rightarrow> int list sw_ec \<Rightarrow> bool" where
  "same_laps samples s s' \<longleftrightarrow> snd s = snd s' \<and> sw_start (fst s) = sw_start (fst s') \<and>
     sw_running (fst s) = sw_running (fst s') \<and> samples (snd (sw_laps (fst s))) = sw_laps (fst s')"

lemma same_laps_call:
  assumes "statistics_contract S samples" and "same_laps samples s s'"
  shows "same_laps samples (sw_call (statistics_collector S) c s)
    (sw_call laps_sequence_container c s')"
  using assms
  by (cases c; cases "fst c"; cases s; cases s'; cases "sw_laps (fst s)")
    (auto simp: same_laps_def statistics_contract_def sw_begin_ec_def sw_stop_ec_def sw_restart_ec_def
      sw_reset_def laps_accumulator_set_def laps_sequence_container_def accumulators.truncate_def
      Let_def split: option.splits)

lemma same_laps_calls:
  assumes "statistics_contract S samples" and "same_laps samples s s'"
  shows "same_laps samples (sw_calls (statistics_collector S) h s)
    (sw_calls laps_sequence_container h s')"
  using assms(2)
proof (induction h arbitrary: s s')
  case (Cons c h)
  from Cons.IH [OF same_laps_call [OF assms(1) Cons.prems]] show ?case by (simp add: sw_calls_def)
qed (simp add: sw_calls_def)

text \<open>The unsigned division is the right one as long as the sum is not negative.\<close>
lemma mean_of_exact:
  assumes "0 \<le> s" and "s < 2 ^ 63" and "n < 2 ^ 64"
  shows "mean_of s (of_nat n) = s div int n"
proof -
  have s: "uint (of_int s :: 64 word) = s" and n: "uint (of_nat n :: 64 word) = int n"
    using assms by (simp_all add: uint_word_of_int uint_word_of_int_eq take_bit_int_eq_self_iff
        take_bit_nat_eq_self_iff unsigned_of_nat of_nat_take_bit)
  have u: "uint ((of_int s :: 64 word) div of_nat n) = s div int n" by (simp add: uint_div s n)
  obtain m where m: "s = int m" using assms(1) nonneg_int_cases by blast
  then have "0 \<le> s div int n" and "s div int n < 2 ^ 63"
    using assms(2) le_less_trans [OF div_le_dividend, of m "2 ^ 63" n] by (simp_all flip: of_nat_div)
  then show ?thesis unfolding mean_of_def
    by (simp add: sint_uint u signed_take_bit_int_eq_self)
qed

text \<open>The mean that is printed: a negative sum is divided as the unsigned number it is read as.\<close>
definition printed_mean :: "int \<Rightarrow> nat \<Rightarrow> int" where
  "printed_mean s n =
     (if 0 \<le> s then s div int n else if n = 1 then s else (2 ^ 64 + s) div int n)"

lemma mean_of_printed:
  assumes "- (2 ^ 63) \<le> s" and "s < 2 ^ 63" and "n < 2 ^ 64" and "0 < n"
  shows "mean_of s (of_nat n) = printed_mean s n"
proof (cases "0 \<le> s")
  case True
  then show ?thesis using assms(2,3) by (simp add: mean_of_exact printed_mean_def)
next
  case neg: False
  have n: "uint (of_nat n :: 64 word) = int n"
    using assms(3) by (simp add: unsigned_of_nat of_nat_take_bit take_bit_nat_eq_self_iff take_bit_int_eq_self_iff)
  have "s mod 2 ^ 64 = 2 ^ 64 + s"
    using neg assms(1) mod_pos_pos_trivial [of "2 ^ 64 + s" "2 ^ 64"] by simp
  then have s: "uint (of_int s :: 64 word) = 2 ^ 64 + s"
    by (simp add: uint_word_of_int)
  have u: "uint ((of_int s :: 64 word) div of_nat n) = (2 ^ 64 + s) div int n"
    by (simp add: uint_div s n)
  show ?thesis
  proof (cases "n = 1")
    case True
    then show ?thesis
      using neg assms(1)
      by (simp add: mean_of_def printed_mean_def sint_sbintrunc' signed_take_bit_int_eq_self)
  next
    case False
    with assms(4) have "2 \<le> int n" by simp
    then have "(2 ^ 64 + s) div int n \<le> (2 ^ 64 + s) div 2"
      using neg assms(1) by (intro zdiv_mono2) auto
    also have "\<dots> < 2 ^ 63" using neg by auto
    finally have "(2 ^ 64 + s) div int n < 2 ^ 63" .
    moreover have "0 \<le> (2 ^ 64 + s) div int n"
      using assms(1,4) by (intro div_int_pos_iff [THEN iffD2]) auto
    ultimately show ?thesis
      using neg False unfolding mean_of_def printed_mean_def
      by (simp add: sint_uint u signed_take_bit_int_eq_self)
  qed
qed

lemma sum_list_between:
  "\<forall>d \<in> set ds. lo \<le> d \<and> d \<le> hi \<Longrightarrow>
     int (length ds) * lo \<le> sum_list ds \<and> sum_list ds \<le> int (length ds) * hi" for lo :: int
  by (induction ds) (auto simp: algebra_simps)

lemma mean_between:
  assumes "ds \<noteq> []"
  shows "Min (set ds) \<le> sum_list ds div int (length ds) \<and>
    sum_list ds div int (length ds) \<le> Max (set ds)"
proof -
  have "int (length ds) * Min (set ds) \<le> sum_list ds"
    and "sum_list ds \<le> int (length ds) * Max (set ds)"
    using sum_list_between [of ds "Min (set ds)" "Max (set ds)"] by auto
  then show ?thesis
    using assms zdiv_mono1 [of "int (length ds) * Min (set ds)" "sum_list ds" "int (length ds)"]
      zdiv_mono1 [of "sum_list ds" "int (length ds) * Max (set ds)" "int (length ds)"]
    by simp
qed

lemma mean_of_negative: "mean_of (- 2) 2 = 2 ^ 63 - 1"
  by (simp add: mean_of_def)

text \<open>
  C37: the line a stopwatch with an accumulator set prints is that of its laps.  After any
  sequence of calls, with any answers of the clock, let \<open>ds\<close> be the laps that a stopwatch with a
  container would hold.  As long as their sum is a number of 64 bits and there are fewer than
  \<open>2 ^ 64\<close>, the line shows their number, their sum, the least, the greatest and the mean; without a
  lap it shows zeros.  The mean is the quotient of sum and number when the sum is not negative, and
  lies between the least and the greatest when no lap is negative; a negative sum of two or more
  laps is taken for an unsigned number, \<open>2 ^ 64\<close> greater.
\<close>
theorem statistics_line_exact:
  assumes S: "statistics_contract S samples"
    and ds: "ds = sw_laps (fst (sw_calls laps_sequence_container h (sw_dont_start [], ec)))"
    and range: "- (2 ^ 63) \<le> sum_list ds" "sum_list ds < 2 ^ 63" "length ds < 2 ^ 64"
  shows "(let acc = snd (sw_laps (fst (sw_calls (laps_accumulator_set (accumulators.truncate S)) h
                                         (sw_dont_start (0, acc_fresh S), ec))));
              least = (if ds = [] then 0 else Min (set ds));
              greatest = (if ds = [] then 0 else Max (set ds));
              mean = (if ds = [] then 0
                      else if 0 \<le> sum_list ds then sum_list ds div int (length ds)
                      else if length ds = 1 then sum_list ds
                      else (2 ^ 64 + sum_list ds) div int (length ds))
          in ((\<forall>d \<in> set ds. 0 \<le> d) \<longrightarrow> least \<le> mean \<and> mean \<le> greatest) \<and>
             accumulator_set_formatter boost_format S per acc f =
               write_line boost_format
                 [A_count (of_nat (length ds)), duration_arg f per (sum_list ds),
                  duration_arg f per least, duration_arg f per greatest, duration_arg f per mean] f)"
proof -
  define acc where "acc = snd (sw_laps (fst (sw_calls (statistics_collector S) h
    (sw_dont_start (0, acc_fresh S), ec))))"
  have "same_laps samples (sw_dont_start (0, acc_fresh S), ec) (sw_dont_start [], ec)"
    using S by (simp add: same_laps_def sw_dont_start_def statistics_contract_def)
  from same_laps_calls [OF S this, of h] have samples: "samples acc = ds"
    by (simp add: same_laps_def acc_def ds)
  then have n: "acc_count S acc = of_nat (length ds)" and s: "acc_sum S acc = sum_list ds"
    and mm: "ds \<noteq> [] \<Longrightarrow> acc_min S acc = Min (set ds) \<and> acc_max S acc = Max (set ds)"
    using S by (auto simp: statistics_contract_def)
  have zero: "acc_count S acc = 0 \<longleftrightarrow> ds = []"
    using range(3) by (auto simp: n word_of_nat_eq_0_iff dest: nat_dvd_not_less)
  show ?thesis
  proof (cases "ds = []")
    case True
    with zero show ?thesis
      by (simp add: acc_def [symmetric] accumulator_set_formatter_def Let_def)
  next
    case False
    have mean: "mean_of (sum_list ds) (of_nat (length ds)) = printed_mean (sum_list ds) (length ds)"
      using range False by (intro mean_of_printed) auto
    have "0 \<le> sum_list ds" if "\<forall>d \<in> set ds. 0 \<le> d" using that by (auto intro: sum_list_nonneg)
    moreover have "0 < (of_nat (length ds) :: 64 word)" "(of_nat (length ds) :: 64 word) \<noteq> 0"
      using zero False n by (simp_all add: word_gt_0)
    ultimately show ?thesis
      using False mean_between [OF False] mm [OF False] mean
      by (simp add: acc_def [symmetric] accumulator_set_formatter_def Let_def n s printed_mean_def)
  qed
qed

theorem statistics_line_exact_witness:
  "snd (sw_laps (fst (sw_calls (laps_accumulator_set (accumulators.truncate list_statistics))
     [(Sw_start, Some 1), (Sw_stop, Some 5), (Sw_start, Some 7), (Sw_stop, Some 14)]
     (sw_dont_start (0, acc_fresh list_statistics), False)))) = [7, 4] \<and>
   accumulator_set_formatter (\<lambda>fmt args. fmt) list_statistics 1 [7, 4]
     (formatter_new () ''line'' []) = (formatter_new () ''line'' [])\<lparr>fm_os := ''line''\<rparr>"
proof -
  let ?h = "[(Sw_start, Some 1), (Sw_stop, Some 5), (Sw_start, Some 7), (Sw_stop, Some (14 :: int))]"
  have ds: "[7, 4] = sw_laps (fst (sw_calls laps_sequence_container ?h (sw_dont_start [], False)))"
    by (simp add: sw_calls_def sw_dont_start_def sw_begin_ec_def sw_stop_ec_def
        laps_sequence_container_def)
  have acc: "snd (sw_laps (fst (sw_calls (statistics_collector list_statistics) ?h
      (sw_dont_start (0, acc_fresh list_statistics), False)))) = [7, 4]"
    by (simp add: sw_calls_def sw_dont_start_def sw_begin_ec_def sw_stop_ec_def
        laps_accumulator_set_def list_statistics_def accumulators.truncate_def)
  show ?thesis
    using statistics_line_exact [OF list_statistics_contract ds, of "\<lambda>fmt args. fmt" 1
        "formatter_new () ''line'' []"] acc
    by (simp add: Let_def write_line_def formatter_new_def)
qed

text \<open>
  The conversion to an unsigned number is wrong for a negative sum, which a clock that is set
  back can bring about: the mean of two laps of minus one is the greatest duration.
\<close>
theorem negative_mean:
  "mean_of (sum_list [- 1, - 1]) 2 = 2 ^ 63 - 1"
  using mean_of_negative by simp

section \<open>A reporter prints once\<close>

text \<open>What the owner of a reporter does with it: anything to the stopwatch, or a report.\<close>
datatype 'w rp_use = Rp_stopwatch "'w \<Rightarrow> 'w" | Rp_report int

fun rp_step :: "(int \<Rightarrow> 'w \<Rightarrow> 'f \<Rightarrow> 'f) \<Rightarrow> 'w rp_use \<Rightarrow> ('w, 'f) reporter \<Rightarrow> ('w, 'f) reporter" where
  "rp_step show_it (Rp_stopwatch g) r = r\<lparr>rp_base := g (rp_base r)\<rparr>"
| "rp_step show_it (Rp_report now) r = reporter_report show_it now r"

fun asks_report :: "'w rp_use \<Rightarrow> bool" where
  "asks_report (Rp_stopwatch g) = False"
| "asks_report (Rp_report now) = True"

text \<open>A formatter that keeps what it is shown.\<close>
definition keep_shown :: "int \<Rightarrow> 'w \<Rightarrow> (int \<times> 'w) list \<Rightarrow> (int \<times> 'w) list" where
  "keep_shown now w out = out @ [(now, w)]"

lemma rp_uses:
  "length (rp_formatter (fold (rp_step keep_shown) us r)) =
     length (rp_formatter r) + length (filter asks_report us) \<and>
   rp_reported (fold (rp_step keep_shown) us r) = (rp_reported r \<or> filter asks_report us \<noteq> [])"
proof (induction us arbitrary: r)
  case (Cons u us)
  show ?case
    using Cons.IH [of "rp_step keep_shown u r"]
    by (cases u) (auto simp: reporter_report_def keep_shown_def)
qed simp

text \<open>
  A reporter prints as often as it is asked to, and once if it is not asked: its destructor then
  prints the stopwatch as it is at that time.
\<close>
theorem reporter_prints:
  "let r = fold (rp_step keep_shown) us (reporter_new w []);
       printed = rp_formatter (reporter_destroy keep_shown t r)
   in length printed = max 1 (length (filter asks_report us)) \<and>
      (filter asks_report us = [] \<longrightarrow> printed = [(t, rp_base r)])"
proof -
  define r where "r = fold (rp_step keep_shown) us (reporter_new w [])"
  from rp_uses [of us "reporter_new w []"]
  have "length (rp_formatter r) = length (filter asks_report us)"
    and "rp_reported r = (filter asks_report us \<noteq> [])"
    by (simp_all add: r_def reporter_new_def)
  then show ?thesis
    by (cases "filter asks_report us") (auto simp: r_def [symmetric] Let_def reporter_destroy_def
        reporter_report_def keep_shown_def)
qed

end
