(* ===== verification/Persons.thy ===== *)
theory Persons
  imports Prelude "HOL-Library.Word"
begin

text \<open>
  The persons of \<open>synchronized_person.cpp\<close>: six classes with a name behind a lock, and the blocks of
  \<open>main\<close> that lock three persons together.  \<open>boost::synchronized_value\<close> is a value with a mutex;
  \<open>boost::lock\<close> of several is one step.  Proved: what a block that sets several names leaves
  behind, also when one of the persons refuses.
\<close>

section \<open>Persons and values behind a lock\<close>

text \<open>The member \<open>Member\<close> of \<open>SafeMemberPerson\<close> and \<open>HelperPerson\<close>; \<open>Person2\<close> and \<open>Person3\<close>.\<close>
record person =
  pn_name :: string
  pn_age :: "32 word"

definition person_new :: "32 word \<Rightarrow> person" where
  "person_new age = \<lparr>pn_name = [], pn_age = age\<rparr>"

text \<open>\<open>synchronized_value<T>\<close>; a call through it locks, calls, and unlocks, also when it throws.\<close>
record 'a sync_value =
  sv_locked :: bool
  sv_value :: 'a

definition sv_new :: "'a \<Rightarrow> 'a sync_value" where
  "sv_new v = \<lparr>sv_locked = False, sv_value = v\<rparr>"

definition sv_call :: "('a \<Rightarrow> ('b \<times> 'a) outcome) \<Rightarrow> 'a sync_value \<Rightarrow> 'b outcome \<times> 'a sync_value" where
  "sv_call f s =
     (if sv_locked s then (Blocked, s)
      else let locked = s\<lparr>sv_locked := True\<rparr>
           in case f (sv_value locked) of
                Returns (b, v) \<Rightarrow> (Returns b, locked\<lparr>sv_value := v, sv_locked := False\<rparr>)
              | Throws e \<Rightarrow> (Throws e, locked\<lparr>sv_locked := False\<rparr>)
              | Blocked \<Rightarrow> (Blocked, locked))"

section \<open>The classes\<close>

text \<open>\<open>SafePerson\<close>, and \<open>Person\<close> in a \<open>synchronized_value\<close>: nothing but a name.\<close>
definition safe_get_name :: "string \<Rightarrow> (string \<times> string) outcome" where
  "safe_get_name name = Returns (name, name)"

definition safe_set_name :: "string \<Rightarrow> string \<Rightarrow> (unit \<times> string) outcome" where
  "safe_set_name new_name name = Returns ((), new_name)"

text \<open>\<open>SafeMemberPerson\<close> and \<open>Person2\<close>: a name and an age that nobody looks at.\<close>
definition member_get_name :: "person \<Rightarrow> (string \<times> person) outcome" where
  "member_get_name p = Returns (pn_name p, p)"

definition member_set_name :: "string \<Rightarrow> person \<Rightarrow> (unit \<times> person) outcome" where
  "member_set_name new_name p = Returns ((), p\<lparr>pn_name := new_name\<rparr>)"

definition member_get_age :: "person \<Rightarrow> (32 word \<times> person) outcome" where
  "member_get_age p = Returns (pn_age p, p)"

text \<open>\<open>HelperPerson\<close> and \<open>Person3\<close> test their invariant before they read or write the name.\<close>
definition person_invariant :: "person \<Rightarrow> unit outcome" where
  "person_invariant p =
     (if pn_age p < 1 then Throws ''Age cannot be negative'' else Returns ())"

definition person_get_name :: "person \<Rightarrow> (string \<times> person) outcome" where
  "person_get_name p =
     (case person_invariant p of Returns u \<Rightarrow> Returns (pn_name p, p) | Throws e \<Rightarrow> Throws e
      | Blocked \<Rightarrow> Blocked)"

definition person_set_name :: "string \<Rightarrow> person \<Rightarrow> (unit \<times> person) outcome" where
  "person_set_name new_name p =
     (case person_invariant p of Returns u \<Rightarrow> Returns ((), p\<lparr>pn_name := new_name\<rparr>)
      | Throws e \<Rightarrow> Throws e | Blocked \<Rightarrow> Blocked)"

section \<open>Several persons at once\<close>

text \<open>
  \<open>boost::lock\<close> of the lock objects of all persons, or \<open>boost::synchronize\<close>; it waits while one of
  them is locked.  The lock objects unlock at the end of the block, however it is left.
\<close>
definition lock_together :: "'a sync_value list \<Rightarrow> 'a sync_value list option" where
  "lock_together ps =
     (if \<exists>p \<in> set ps. sv_locked p then None else Some (map (\<lambda>p. p\<lparr>sv_locked := True\<rparr>) ps))"

definition unlock_together :: "'a sync_value list \<Rightarrow> 'a sync_value list" where
  "unlock_together ps = map (\<lambda>p. p\<lparr>sv_locked := False\<rparr>) ps"

text \<open>The calls of \<open>SetName\<close> through the lock objects, in their order; \<open>None\<close> stands for no call.\<close>
fun set_names ::
  "string option list \<Rightarrow> person sync_value list \<Rightarrow> unit outcome \<times> person sync_value list" where
  "set_names (Some n # ns) (p # ps) =
     (case person_set_name n (sv_value p) of
        Returns (u, v) \<Rightarrow> (case set_names ns ps of (r, ps') \<Rightarrow> (r, p\<lparr>sv_value := v\<rparr> # ps'))
      | Throws e \<Rightarrow> (Throws e, p # ps)
      | Blocked \<Rightarrow> (Blocked, p # ps))"
| "set_names (None # ns) (p # ps) = (case set_names ns ps of (r, ps') \<Rightarrow> (r, p # ps'))"
| "set_names ns ps = (Returns (), ps)"

definition name_together ::
  "string option list \<Rightarrow> person sync_value list \<Rightarrow> unit outcome \<times> person sync_value list" where
  "name_together ns ps =
     (case lock_together ps of None \<Rightarrow> (Blocked, ps)
      | Some locked \<Rightarrow> (case set_names ns locked of (r, ps') \<Rightarrow> (r, unlock_together ps')))"

text \<open>The blocks of \<open>main\<close>: what its calls return, and the values they leave.\<close>
definition main_single :: "unit outcome list" where
  "main_single =
     [fst (sv_call (safe_set_name ''Vicente'') (sv_new '''')),
      fst (sv_call (safe_set_name ''Vicente'') (sv_new '''')),
      fst (sv_call (member_set_name ''Vicente'') (sv_new (person_new 1))),
      fst (sv_call (member_set_name ''Vicente'') (sv_new (person_new 1))),
      fst (sv_call (person_set_name ''Vicente'') (sv_new (person_new 1))),
      fst (sv_call (person_set_name ''Vicente'') (sv_new (person_new 1)))]"

definition main_three :: "unit outcome \<times> person sync_value list" where
  "main_three =
     name_together [Some ''Carmen'', Some ''Javier'', Some ''Matias'']
       (map (\<lambda>a. sv_new (person_new a)) [1, 2, 3])"

text \<open>The last block, whose first and third person are constant.\<close>
definition main_const :: "unit outcome \<times> person sync_value list" where
  "main_const =
     name_together [None, Some ''Javier'', None] (map (\<lambda>a. sv_new (person_new a)) [1, 2, 3])"

section \<open>What a call leaves behind\<close>

text \<open>The age is unsigned, so the only age that is refused is zero.\<close>
lemma person_set_name_cases:
  "person_set_name n p =
     (if pn_age p = 0 then Throws ''Age cannot be negative'' else Returns ((), p\<lparr>pn_name := n\<rparr>))"
  by (simp add: person_set_name_def person_invariant_def word_less_1)

lemma person_get_name_cases:
  "person_get_name p =
     (if pn_age p = 0 then Throws ''Age cannot be negative'' else Returns (pn_name p, p))"
  by (simp add: person_get_name_def person_invariant_def word_less_1)

text \<open>
  A call never leaves the lock taken unless it found it taken, and a name that was set is the one
  that is read next.
\<close>
lemma sv_call_unlocks:
  assumes "\<not> sv_locked s" and "\<And>v. f v \<noteq> Blocked"
  shows "\<not> sv_locked (snd (sv_call f s))"
  using assms by (auto simp: sv_call_def Let_def split: outcome.splits)

lemma person_name_roundtrip:
  assumes "\<not> sv_locked s" and "pn_age (sv_value s) \<noteq> 0"
  shows "fst (sv_call person_get_name (snd (sv_call (person_set_name n) s))) = Returns n"
  using assms by (simp add: sv_call_def person_set_name_cases person_get_name_cases)

lemma set_names_exact:
  assumes "length ns = length ps"
  shows "length (snd (set_names ns ps)) = length ps \<and>
    (fst (set_names ns ps) =
       (if \<exists>i < length ps. ns ! i \<noteq> None \<and> pn_age (sv_value (ps ! i)) = 0
        then Throws ''Age cannot be negative'' else Returns ())) \<and>
    (\<forall>i < length ps. sv_locked (snd (set_names ns ps) ! i) = sv_locked (ps ! i) \<and>
       sv_value (snd (set_names ns ps) ! i) =
         (case ns ! i of
            Some n \<Rightarrow> if \<exists>j \<le> i. ns ! j \<noteq> None \<and> pn_age (sv_value (ps ! j)) = 0
                      then sv_value (ps ! i) else (sv_value (ps ! i))\<lparr>pn_name := n\<rparr>
          | None \<Rightarrow> sv_value (ps ! i)))"
  using assms
proof (induction ns ps rule: list_induct2)
  case (Cons n ns p ps)
  obtain r ps' where rest: "set_names ns ps = (r, ps')" by fastforce
  note IH = Cons.IH [unfolded rest fst_conv snd_conv]
  have ex: "(\<exists>i < length (p # ps). P i) \<longleftrightarrow> P 0 \<or> (\<exists>i < length ps. P (Suc i))" for P
    by (auto simp: less_Suc_eq_0_disj)
  have le: "(\<exists>j \<le> Suc i. P j) \<longleftrightarrow> P 0 \<or> (\<exists>j \<le> i. P (Suc j))" for P and i :: nat
    by (metis Suc_le_mono le0 not0_implies_Suc)
  show ?case
  proof (cases n)
    case None
    with IH rest show ?thesis
      by (auto simp: ex le less_Suc_eq_0_disj nth_Cons split: nat.splits option.splits)
  next
    case (Some m)
    with IH rest show ?thesis
      by (auto simp: ex le person_set_name_cases nth_Cons less_Suc_eq_0_disj
          split: nat.splits option.splits)
  qed
qed simp

text \<open>
  C38: naming several persons under one lock is all right or stops at the first bad one.  When
  nobody holds one of the locks, the block returns exactly if no person that is to be named has
  the age zero; otherwise it throws, the persons before that one have their new names, and it and
  the ones behind it keep the old ones.  In each case all locks are given back and no age changes.
\<close>
theorem name_together_exact:
  assumes "length ns = length ps" and "\<forall>p \<in> set ps. \<not> sv_locked p"
  shows "fst (name_together ns ps) =
      (if \<exists>i < length ps. ns ! i \<noteq> None \<and> pn_age (sv_value (ps ! i)) = 0
       then Throws ''Age cannot be negative'' else Returns ()) \<and>
    length (snd (name_together ns ps)) = length ps \<and>
    (\<forall>i < length ps. \<not> sv_locked (snd (name_together ns ps) ! i) \<and>
       pn_age (sv_value (snd (name_together ns ps) ! i)) = pn_age (sv_value (ps ! i)) \<and>
       pn_name (sv_value (snd (name_together ns ps) ! i)) =
         (case ns ! i of
            Some n \<Rightarrow> if \<exists>j \<le> i. ns ! j \<noteq> None \<and> pn_age (sv_value (ps ! j)) = 0
                      then pn_name (sv_value (ps ! i)) else n
          | None \<Rightarrow> pn_name (sv_value (ps ! i))))"
proof -
  define locked where "locked = map (\<lambda>p. p\<lparr>sv_locked := True\<rparr>) ps"
  have len: "length locked = length ps" and val: "i < length ps \<Longrightarrow> sv_value (locked ! i) = sv_value (ps ! i)"
    for i by (simp_all add: locked_def)
  have bad: "(\<exists>j \<le> i. ns ! j \<noteq> None \<and> pn_age (sv_value (locked ! j)) = 0) \<longleftrightarrow>
      (\<exists>j \<le> i. ns ! j \<noteq> None \<and> pn_age (sv_value (ps ! j)) = 0)" if "i < length ps" for i
    using val [OF le_less_trans [OF _ that]] by auto
  obtain r ps' where r: "set_names ns locked = (r, ps')" by fastforce
  have together: "name_together ns ps = (r, unlock_together ps')"
    using assms(2) r by (auto simp: name_together_def lock_together_def locked_def)
  note exact = set_names_exact [of ns locked, unfolded r fst_conv snd_conv len, OF assms(1)]
  have "r = (if \<exists>i < length ps. ns ! i \<noteq> None \<and> pn_age (sv_value (ps ! i)) = 0
          then Throws ''Age cannot be negative'' else Returns ())"
    using exact by (simp add: val cong: conj_cong)
  moreover have new_value: "sv_value (ps' ! i) =
         (case ns ! i of
            Some n \<Rightarrow> if \<exists>j \<le> i. ns ! j \<noteq> None \<and> pn_age (sv_value (ps ! j)) = 0
                      then sv_value (ps ! i) else (sv_value (ps ! i))\<lparr>pn_name := n\<rparr>
          | None \<Rightarrow> sv_value (ps ! i))" if "i < length ps" for i
    using exact that by (cases "ns ! i") (simp_all only: val bad option.case)
  moreover have "length ps' = length ps" using exact by simp
  ultimately show ?thesis
    by (auto simp: together unlock_together_def new_value split: option.splits)
qed

theorem name_together_exact_witness:
  "\<exists>r. name_together [Some ''Carmen'', Some ''Javier''] (map (\<lambda>a. sv_new (person_new a)) [1, 0]) = r \<and>
     fst r = Throws ''Age cannot be negative'' \<and> \<not> sv_locked (snd r ! 0) \<and>
     pn_name (sv_value (snd r ! 0)) = ''Carmen''"
proof -
  let ?ns = "[Some ''Carmen'', Some ''Javier'']" and ?ps = "map (\<lambda>a. sv_new (person_new a)) [1, 0]"
  have "\<exists>i < length ?ps. ?ns ! i \<noteq> None \<and> pn_age (sv_value (?ps ! i)) = 0"
    by (rule exI [of _ 1]) (simp add: sv_new_def person_new_def)
  then show ?thesis
    using name_together_exact [of ?ns ?ps] by (simp add: sv_new_def person_new_def)
qed

text \<open>\<open>main\<close> itself never throws, and names only the person of the last block that is not constant.\<close>
lemma main_returns:
  "set main_single = {Returns ()}"
  "fst main_three = Returns ()"
  "map (\<lambda>p. pn_name (sv_value p)) (snd main_three) = [''Carmen'', ''Javier'', ''Matias'']"
  "fst main_const = Returns ()"
  "map (\<lambda>p. pn_name (sv_value p)) (snd main_const) = [[], ''Javier'', []]"
  by (simp_all add: main_single_def main_three_def main_const_def sv_call_def sv_new_def safe_set_name_def
      member_set_name_def person_new_def person_set_name_def person_invariant_def
      name_together_def lock_together_def unlock_together_def)

end
