(* ===== verification/Pool_Tests.thy ===== *)
theory Pool_Tests
  imports Pool_Quiet
begin

text \<open>
  The tests of \<open>threads_test.cpp\<close> for the class \<open>ThreadPool\<close>, over the posix variant of the pool.
  A test is the list of the statements of its main thread, which is client 0 of the pool; the
  threads of \<open>push_task\<close> are the clients behind it.  The state of a test is the pool, the two
  latches, the pushers and what is left of the test; a step is one of the main thread, of a
  pusher, or of the pool.  \<open>TestTask\<close> is a task that counts itself: \<open>counter\<close> is the number of
  tasks constructed and not yet deleted, \<open>run_cnt\<close> the number of tasks whose \<open>run\<close> is over.
  Messages, the result queue and the delays have no effect on the checks and are left out, and so
  are the results of checks that only warn.
\<close>

section \<open>Statements\<close>

text \<open>What \<open>run_count()\<close> is compared with: zero, \<open>MAX_LOAD\<close>, or the variable \<open>i\<close>.\<close>
datatype expected = None_run | Load_run | Counted_run

text \<open>
  The checks of \<open>size()\<close> and \<open>stack_size()\<close>; a query of the pool; a check of its answer; \<open>start_latch.count_down()\<close>;
  \<open>completion_latch.wait()\<close>; \<open>execute\<close> of a new task; the loop that polls \<open>is_idle\<close> until it is
  true, and that loop behind its query; the loop that executes tasks while \<open>is_idle\<close> is true,
  that loop before and behind its query; \<open>terminate\<close>; and the final checks.
\<close>
datatype test_stmt =
  T_size | T_stack_size | T_query query | T_expect bool | T_count_down | T_await | T_execute
| T_poll | T_polled | T_load | T_load_ask | T_loaded | T_terminate | T_counts expected

text \<open>The destructor of the pool, at the end of its block, is a second \<open>terminate\<close>.\<close>
definition interface_test :: "test_stmt list" where
  "interface_test =
     [T_query Q_is_busy, T_expect True, T_query Q_is_idle, T_expect False, T_execute,
      T_counts None_run, T_terminate, T_terminate]"

definition busy_test :: "test_stmt list" where
  "busy_test =
     [T_size, T_stack_size, T_query Q_is_idle, T_expect True, T_count_down, T_await,
      T_query Q_is_busy, T_poll, T_query Q_is_idle, T_expect True, T_query Q_is_busy, T_terminate,
      T_terminate, T_counts Load_run]"

definition pool_test :: "test_stmt list" where
  "pool_test =
     [T_size, T_query Q_is_idle, T_expect True, T_query Q_is_busy, T_execute, T_query Q_is_busy,
      T_execute, T_query Q_is_busy, T_load, T_execute, T_execute, T_poll, T_query Q_is_busy,
      T_terminate, T_terminate, T_counts Counted_run]"

section \<open>The state of a test\<close>

text \<open>
  A thread of \<open>push_task\<close>: at the start latch, in \<open>execute\<close>, returned.  The first two members of
  the state are the constants \<open>threadCount\<close> and \<open>stacksize\<close> of the test.
\<close>
datatype pusher = PU_latch | PU_execute | PU_end

record pool_test_state =
  pt_threads :: nat
  pt_stack :: nat
  pt_pool :: pool
  pt_start :: nat
  pt_completion :: nat
  pt_pushers :: "pusher list"
  pt_i :: nat
  pt_rest :: "test_stmt list"
  pt_failed :: bool

definition pt_begin :: "test_stmt list \<Rightarrow> nat \<Rightarrow> nat \<Rightarrow> nat \<Rightarrow> pool_test_state" where
  "pt_begin prog threads stack load =
     \<lparr>pt_threads = threads, pt_stack = stack,
      pt_pool = pool_construct_stack (\<lambda>i. None) threads stack (Suc load),
      pt_start = 1, pt_completion = load, pt_pushers = replicate load PU_latch, pt_i = 0,
      pt_rest = prog, pt_failed = False\<rparr>"

text \<open>\<open>TestTask::run_count()\<close> and \<open>TestTask::task_count()\<close>; each pusher makes one task.\<close>
definition run_count :: "pool_test_state \<Rightarrow> nat" where
  "run_count s = size (p_finished (pt_pool s))"

definition constructed :: "pool_test_state \<Rightarrow> nat" where
  "constructed s = pt_i s + length (filter (\<lambda>u. u \<noteq> PU_latch) (pt_pushers s))"

definition task_count :: "pool_test_state \<Rightarrow> nat" where
  "task_count s =
     constructed s - size (p_finished (pt_pool s)) - size (p_discarded (pt_pool s))"

definition expected_count :: "expected \<Rightarrow> pool_test_state \<Rightarrow> nat" where
  "expected_count e s =
     (case e of None_run \<Rightarrow> 0 | Load_run \<Rightarrow> length (pt_pushers s) | Counted_run \<Rightarrow> pt_i s)"

section \<open>Steps\<close>

text \<open>The main thread makes a call, as client 0, and goes on with \<open>rest\<close> when it has returned.\<close>
definition main_call :: "pool_call \<Rightarrow> test_stmt list \<Rightarrow> pool_test_state \<Rightarrow> pool_test_state" where
  "main_call c rest s = s\<lparr>pt_pool := client_call 0 c (pt_pool s), pt_rest := rest\<rparr>"

text \<open>\<open>execute(new TestTask(...)); ++i;\<close> the tasks of the main thread have the numbers of \<open>i\<close>.\<close>
definition main_execute :: "test_stmt list \<Rightarrow> pool_test_state \<Rightarrow> pool_test_state" where
  "main_execute rest s = (main_call (Do_execute (Some (pt_i s))) rest s)\<lparr>pt_i := Suc (pt_i s)\<rparr>"

text \<open>One statement, when the last call has returned with the answer \<open>r\<close>.\<close>
fun main_stmt :: "bool option \<Rightarrow> test_stmt list \<Rightarrow> pool_test_state \<Rightarrow> pool_test_state option" where
  "main_stmt r (T_query q # rest) s = Some (main_call (Do_query q) rest s)"
| "main_stmt r (T_expect b # rest) s =
     Some (s\<lparr>pt_failed := (pt_failed s \<or> r \<noteq> Some b), pt_rest := rest\<rparr>)"
| "main_stmt r (T_count_down # rest) s = Some (s\<lparr>pt_start := pt_start s - 1, pt_rest := rest\<rparr>)"
| "main_stmt r (T_await # rest) s =
     (if pt_completion s = 0 then Some (s\<lparr>pt_rest := rest\<rparr>) else None)"
| "main_stmt r (T_execute # rest) s = Some (main_execute rest s)"
| "main_stmt r (T_poll # rest) s = Some (main_call (Do_query Q_is_idle) (T_polled # rest) s)"
| "main_stmt r (T_polled # rest) s =
     (if r = Some True then Some (s\<lparr>pt_rest := rest\<rparr>)
      else Some (main_call (Do_query Q_is_idle) (T_polled # rest) s))"
| "main_stmt r (T_load # rest) s = Some (main_execute (T_load_ask # rest) s)"
| "main_stmt r (T_load_ask # rest) s = Some (main_call (Do_query Q_is_idle) (T_loaded # rest) s)"
| "main_stmt r (T_loaded # rest) s =
     (if r = Some True then Some (main_execute (T_load_ask # rest) s)
      else Some (s\<lparr>pt_rest := rest\<rparr>))"
| "main_stmt r (T_terminate # rest) s = Some (main_call Do_terminate rest s)"
| "main_stmt r (T_counts e # rest) s =
     Some (s\<lparr>pt_failed := (pt_failed s \<or> task_count s \<noteq> 0 \<or> run_count s \<noteq> expected_count e s),
             pt_rest := rest\<rparr>)"
| "main_stmt r (T_size # rest) s =
     Some (s\<lparr>pt_failed := (pt_failed s \<or> length (p_tasks (pt_pool s)) \<noteq> pt_threads s),
             pt_rest := rest\<rparr>)"
| "main_stmt r (T_stack_size # rest) s =
     Some (s\<lparr>pt_failed := (pt_failed s \<or> p_stack (pt_pool s) \<noteq> pt_stack s), pt_rest := rest\<rparr>)"
| "main_stmt r [] s = None"

definition main_thread_step :: "pool_test_state \<Rightarrow> pool_test_state option" where
  "main_thread_step s =
     (case p_clients (pt_pool s) ! 0 of
        C_outside r \<Rightarrow> main_stmt r (pt_rest s) s
      | _ \<Rightarrow> None)"

text \<open>\<open>push_task\<close> on the thread \<open>j\<close>, client \<open>Suc j\<close>; its tasks get numbers of their own.\<close>
definition pusher_step :: "nat \<Rightarrow> pool_test_state \<Rightarrow> pool_test_state option" where
  "pusher_step j s =
     (case pt_pushers s ! j of
        PU_latch \<Rightarrow>
          (if pt_start s = 0
           then Some (s\<lparr>pt_pool := client_call (Suc j) (Do_execute (Some j)) (pt_pool s),
                        pt_pushers := (pt_pushers s)[j := PU_execute]\<rparr>)
           else None)
      | PU_execute \<Rightarrow>
          (case p_clients (pt_pool s) ! Suc j of
             C_outside r \<Rightarrow> Some (s\<lparr>pt_completion := pt_completion s - 1,
                                    pt_pushers := (pt_pushers s)[j := PU_end]\<rparr>)
           | _ \<Rightarrow> None)
      | PU_end \<Rightarrow> None)"

datatype test_label = T_main | T_pusher nat | T_pool pool_label

definition test_step :: "pool_test_state \<Rightarrow> test_label \<Rightarrow> pool_test_state option" where
  "test_step s l =
     (case l of
        T_main \<Rightarrow> main_thread_step s
      | T_pusher j \<Rightarrow> if j < length (pt_pushers s) then pusher_step j s else None
      | T_pool pl \<Rightarrow>
          if is_call pl then None
          else map_option (\<lambda>p. s\<lparr>pt_pool := p\<rparr>) (pool_step (pt_pool s) pl))"

end
