(* ===== verification/Pool_Test_Runs.thy ===== *)
theory Pool_Test_Runs
  imports Pool_Tests Pool_Errors
begin

text \<open>
  No check of the tests of \<open>Pool_Tests\<close> ever fails.  The proof follows the main thread: a value of
  \<open>know\<close> says what it can rely on at a statement, \<open>checks\<close> computes from the statements whether
  that is enough for every check, and the invariant is that what is left of the test is checked
  from something the state satisfies.
\<close>

section \<open>What the main thread knows\<close>

text \<open>
  Of the pool: it has no threads; nobody uses it yet; the pushers may use it; the main thread is
  alone with it, and tasks may be under way; alone, and no task is under way; it is terminated.
\<close>
datatype know = K_none | K_fresh | K_load | K_alone | K_quiet | K_ended

text \<open>Of the answer of its last query: nothing; what it is; that a true one is right.\<close>
datatype answer = A_any | A_is bool | A_exact

definition idle_answer :: "know \<Rightarrow> query \<Rightarrow> answer" where
  "idle_answer k q =
     (if k \<in> {K_fresh, K_quiet} then A_is (q = Q_is_idle)
      else if k = K_none then A_is (q = Q_is_busy) else A_any)"

fun checks :: "nat \<Rightarrow> know \<Rightarrow> answer \<Rightarrow> test_stmt list \<Rightarrow> bool" where
  "checks n k a (T_query q # rest) = checks n k (idle_answer k q) rest"
| "checks n k a (T_expect b # rest) = (a = A_is b \<and> checks n k a rest)"
| "checks n k a (T_count_down # rest) = (k = K_fresh \<and> checks n K_load A_any rest)"
| "checks n k a (T_await # rest) = (k = K_load \<and> checks n K_alone A_any rest)"
| "checks n k a (T_execute # rest) =
     (n = 0 \<and> k \<in> {K_none, K_alone, K_quiet} \<and>
      checks n (if k = K_none then K_none else K_alone) A_any rest)"
| "checks n k a (T_poll # rest) = (k \<in> {K_alone, K_quiet} \<and> checks n K_quiet (A_is True) rest)"
| "checks n k a (T_polled # rest) =
     (k = K_alone \<and> a = A_exact \<and> checks n K_quiet (A_is True) rest)"
| "checks n k a (T_load # rest) =
     (n = 0 \<and> k \<in> {K_alone, K_quiet} \<and> checks n K_alone A_any rest)"
| "checks n k a (T_load_ask # rest) = (n = 0 \<and> k = K_alone \<and> checks n K_alone A_any rest)"
| "checks n k a (T_loaded # rest) = (n = 0 \<and> k = K_alone \<and> checks n K_alone A_any rest)"
| "checks n k a (T_terminate # rest) =
     (k \<in> {K_none, K_quiet, K_ended} \<and>
      checks n (if k = K_none then K_none else K_ended) A_any rest)"
| "checks n k a (T_counts e # rest) =
     ((k = K_none \<and> e = None_run \<or> k = K_ended \<and> (e = Load_run \<and> 0 < n \<or> e = Counted_run \<and> n = 0)) \<and>
      checks n k A_any rest)"
| "checks n k a (T_size # rest) = (k \<in> {K_fresh, K_quiet} \<and> checks n k a rest)"
| "checks n k a (T_stack_size # rest) = checks n k a rest"
| "checks n k a [] = True"

text \<open>The tests are checked, for every load.\<close>
lemma tests_checked:
  "checks 0 K_none A_any interface_test"
  "0 < n \<Longrightarrow> checks n K_fresh A_any busy_test"
  "checks 0 K_quiet A_any pool_test"
  by (simp_all add: interface_test_def busy_test_def pool_test_def idle_answer_def)

text \<open>What each of them means.\<close>
definition phase :: "know \<Rightarrow> pool_test_state \<Rightarrow> bool" where
  "phase k s \<longleftrightarrow>
     (case k of
        K_none \<Rightarrow> p_tasks (pt_pool s) = [] \<and> p_finished (pt_pool s) = {#} \<and> pt_pushers s = []
      | K_fresh \<Rightarrow> pt_start s = 1 \<and> (\<forall>u \<in> set (pt_pushers s). u = PU_latch) \<and> in_use (pt_pool s) \<and> still (pt_pool s)
      | K_load \<Rightarrow> pt_start s = 0 \<and> in_use (pt_pool s)
      | K_alone \<Rightarrow> (\<forall>u \<in> set (pt_pushers s). u = PU_end) \<and> in_use (pt_pool s)
      | K_quiet \<Rightarrow> (\<forall>u \<in> set (pt_pushers s). u = PU_end) \<and> in_use (pt_pool s) \<and> still (pt_pool s)
      | K_ended \<Rightarrow> (\<forall>u \<in> set (pt_pushers s). u = PU_end) \<and> still (pt_pool s) \<and> p_discarded (pt_pool s) = {#})"

definition answered_by :: "know \<Rightarrow> answer \<Rightarrow> pool \<Rightarrow> bool" where
  "answered_by k a p \<longleftrightarrow>
     (case a of
        A_any \<Rightarrow> True
      | A_is b \<Rightarrow>
          (case p_clients p ! 0 of
             C_outside r \<Rightarrow> r = Some b
           | C_query q x \<Rightarrow> idle_answer k q = A_is b \<and> (k = K_none \<longrightarrow> (\<forall>i. x \<noteq> Q_scan i))
           | _ \<Rightarrow> False)
      | A_exact \<Rightarrow> k = K_alone \<and>
          (case p_clients p ! 0 of
             C_outside r \<Rightarrow> r = Some True \<longrightarrow> all_empty p
           | C_query q x \<Rightarrow> q = Q_is_idle \<and> (\<forall>i. x = Q_scan i \<longrightarrow> slots_empty i p)
           | _ \<Rightarrow> False))"

text \<open>What holds at every statement.\<close>
definition test_ok :: "nat \<Rightarrow> pool_test_state \<Rightarrow> bool" where
  "test_ok n s \<longleftrightarrow>
     pool_good (pt_pool s) \<and> length (p_clients (pt_pool s)) = Suc n \<and> length (pt_pushers s) = n \<and>
     p_tasks (pt_pool s) \<in> {[]} \<union> {tms. length tms = pt_threads s} \<and>
     p_stack (pt_pool s) = pt_stack s \<and>
     (\<forall>j < n. pt_pushers s ! j \<noteq> PU_execute \<longrightarrow> (\<exists>r. p_clients (pt_pool s) ! Suc j = C_outside r)) \<and>
     pt_completion s = length (filter (\<lambda>u. u \<noteq> PU_end) (pt_pushers s)) \<and>
     size (p_submitted (pt_pool s)) = constructed s \<and> (n = 0 \<or> pt_i s = 0) \<and> \<not> pt_failed s"

definition test_inv :: "nat \<Rightarrow> pool_test_state \<Rightarrow> bool" where
  "test_inv n s \<longleftrightarrow> test_ok n s \<and>
     (\<exists>k a. checks n k a (pt_rest s) \<and> phase k s \<and> answered_by k a (pt_pool s))"

lemma test_invI:
  "test_ok n s \<Longrightarrow> checks n k a (pt_rest s) \<Longrightarrow> phase k s \<Longrightarrow> answered_by k a (pt_pool s) \<Longrightarrow>
     test_inv n s"
  by (auto simp: test_inv_def)

lemma test_okD:
  assumes "test_ok n s"
  shows "pool_good (pt_pool s)" and "length (p_clients (pt_pool s)) = Suc n"
    and "length (pt_pushers s) = n"
    and "j < n \<Longrightarrow> pt_pushers s ! j \<noteq> PU_execute \<Longrightarrow> \<exists>r. p_clients (pt_pool s) ! Suc j = C_outside r"
    and "pt_completion s = length (filter (\<lambda>u. u \<noteq> PU_end) (pt_pushers s))"
    and "size (p_submitted (pt_pool s)) = constructed s" and "n = 0 \<or> pt_i s = 0"
    and "\<not> pt_failed s"
    and "p_tasks (pt_pool s) = [] \<or> length (p_tasks (pt_pool s)) = pt_threads s"
    and "p_stack (pt_pool s) = pt_stack s"
  using assms by (simp_all add: test_ok_def)

lemma still_pushers_out:
  assumes "test_ok n s" and "PU_execute \<notin> set (pt_pushers s)"
  shows "others_out (pt_pool s)"
proof -
  have "\<exists>r. p_clients (pt_pool s) ! j = C_outside r" if "0 < j" "j < Suc n" for j
  proof -
    from that obtain i where "j = Suc i" "i < n" by (cases j) auto
    moreover have "pt_pushers s ! i \<noteq> PU_execute"
      using \<open>i < n\<close> assms(2) nth_mem [of i "pt_pushers s"] test_okD(3) [OF assms(1)] by metis
    ultimately show ?thesis using test_okD(4) [OF assms(1)] by simp
  qed
  with test_okD(2) [OF assms(1)] show ?thesis by (simp add: others_out_def)
qed

section \<open>The steps of the pool\<close>

lemma pool_step_stack: "pool_step p l = Some p' \<Longrightarrow> p_stack p' = p_stack p"
  by (cases l) (auto simp: pool_step_def client_call_def record_event_def idle_notification_def pool_upd
      split: if_splits client_pc.splits pool_call.splits option.splits dest: client_step_shape)

lemma internal_fields:
  assumes "pool_step p l = Some p'" and "\<not> is_call l"
  shows "p_submitted p' = p_submitted p \<and> length (p_clients p') = length (p_clients p) \<and>
    p_stack p' = p_stack p \<and> (p_tasks p' = [] \<or> length (p_tasks p') = length (p_tasks p))"
proof -
  from assms have "p_submitted p' = p_submitted p \<and> length (p_clients p') = length (p_clients p) \<and>
    (p_tasks p' = [] \<or> length (p_tasks p') = length (p_tasks p))"
  proof (cases rule: internal_cases)
    case (client j k)
    with client_step_fields [OF client(2)] client_step_shape [OF client(2)] show ?thesis by simp
  qed auto
  with pool_step_stack [OF assms(1)] show ?thesis by simp
qed

lemma test_ok_pool:
  assumes "test_ok n s" and "pool_step (pt_pool s) l = Some p" and "\<not> is_call l"
  shows "test_ok n (s\<lparr>pt_pool := p\<rparr>)"
proof -
  note ok = test_okD [OF assms(1)]
  have "\<exists>r. p_clients p ! Suc j = C_outside r" if "j < n" "pt_pushers s ! j \<noteq> PU_execute" for j
    using ok(4) [OF that] internal_outside [OF assms(2,3)] by metis
  then show ?thesis
    using ok internal_fields [OF assms(2,3)] pool_good_step [OF ok(1) assms(2)]
    by (auto simp: test_ok_def constructed_def)
qed

lemma phase_pool:
  assumes "test_ok n s" and "phase k s" and "pool_step (pt_pool s) l = Some p" and "\<not> is_call l"
  shows "phase k (s\<lparr>pt_pool := p\<rparr>)"
proof (cases k)
  case K_none
  then have empty: "p_tasks (pt_pool s) = []" "p_finished (pt_pool s) = {#}" "pt_pushers s = []"
    using assms(2) by (simp_all add: phase_def)
  from assms(3,4) have "p_finished p = {#}"
  proof (cases rule: internal_cases)
    case (client j k)
    with empty client_step_fields [OF client(2)] show ?thesis by simp
  qed (use empty in simp_all)
  with K_none empty pool_step_empty [OF empty(1) assms(3)] show ?thesis by (simp add: phase_def)
next
  case K_ended
  with assms(2) still_step [OF assms(3,4)] show ?thesis by (simp add: phase_def)
qed (use assms(2) still_step [OF assms(3,4)] in_use_step [OF assms(3,4) _ test_okD(1) [OF assms(1)]]
    in \<open>simp_all add: phase_def\<close>)

lemma query_step_none:
  assumes "client_step j k p = Some p'" and "p_clients p ! j = C_query q x"
    and "j < length (p_clients p)" and "p_tasks p = []" and "pool_inv p" and "\<forall>i. x \<noteq> Q_scan i"
  shows "p_clients p' ! j = C_query q Q_head \<or> p_clients p' ! j = C_outside (Some (q = Q_is_busy))"
proof -
  have "p_clients p' ! j \<noteq> C_threw" by (rule client_no_throw [OF assms(5,3,1)])
  with assms(1-4,6) show ?thesis
    by (cases x; cases q)
      (auto simp: client_step_def is_idle_step_def is_busy_step_def client_enter_def
        pool_upd split: outcome.splits bool.splits if_splits)
qed

lemma answered_pool:
  assumes ok: "test_ok n s" and ph: "phase k s" and ans: "answered_by k a (pt_pool s)"
    and step: "pool_step (pt_pool s) l = Some p" and l: "\<not> is_call l"
  shows "answered_by k a p"
proof (cases "p_clients (pt_pool s) ! 0")
  case (C_outside r)
  then have out: "p_clients p ! 0 = C_outside r" by (rule internal_outside [OF step l])
  have "all_empty p" if "k = K_alone" and "all_empty (pt_pool s)"
  proof -
    have "PU_execute \<notin> set (pt_pushers s)" using ph that(1) by (auto simp: phase_def)
    from still_pushers_out [OF ok this] that C_outside have "still (pt_pool s)"
      by (simp add: still_def in_execute_def)
    from still_step [OF step l this] show ?thesis by (simp add: still_def)
  qed
  with ans C_outside out show ?thesis by (auto simp: answered_by_def split: answer.splits)
next
  case (C_query q x)
  have inv: "pool_inv (pt_pool s)" using test_okD(1) [OF ok] by (simp add: pool_good_def)
  show ?thesis
  proof (cases a)
    case (A_is b)
    then have k: "idle_answer k q = A_is b" and x: "k = K_none \<Longrightarrow> \<forall>i. x \<noteq> Q_scan i"
      using ans C_query by (simp_all add: answered_by_def)
    then have "PU_execute \<notin> set (pt_pushers s)"
      using ph by (auto simp: idle_answer_def phase_def split: if_splits know.splits)
    note moved = internal_clients [OF step l still_pushers_out [OF ok this]]
    show ?thesis
    proof (cases "p_clients p = p_clients (pt_pool s)")
      case False
      with moved obtain j where j: "client_step 0 j (pt_pool s) = Some p"
        "0 < length (p_clients (pt_pool s))" by blast
      show ?thesis
      proof (cases "k = K_none")
        case True
        then have "p_tasks (pt_pool s) = []" using ph by (simp add: phase_def)
        from query_step_none [OF j(1) C_query j(2) this inv x [OF True]] True k A_is show ?thesis
          by (auto simp: answered_by_def idle_answer_def)
      next
        case False
        then have "k \<in> {K_fresh, K_quiet}" using k by (auto simp: idle_answer_def split: if_splits)
        then have "in_use (pt_pool s)" "all_empty (pt_pool s)" and b: "b = (q = Q_is_idle)"
          using ph k by (auto simp: phase_def still_def idle_answer_def)
        from query_step_quiet [OF j(1) C_query j(2) this(1,2) inv] k b A_is False show ?thesis
          by (auto simp: answered_by_def)
      qed
    qed (use ans A_is C_query in \<open>simp add: answered_by_def\<close>)
  next
    case A_exact
    then have k: "k = K_alone" and q: "q = Q_is_idle" "\<forall>i. x = Q_scan i \<longrightarrow> slots_empty i (pt_pool s)"
      using ans C_query by (simp_all add: answered_by_def)
    then have "PU_execute \<notin> set (pt_pushers s)" and use: "p_tasks (pt_pool s) \<noteq> []"
      using ph by (auto simp: phase_def in_use_def)
    note out = still_pushers_out [OF ok this(1)]
    show ?thesis
    proof (cases "p_clients p = p_clients (pt_pool s)")
      case True
      with A_exact k q C_query query_slots [OF step l out C_query] show ?thesis
        by (auto simp: answered_by_def)
    next
      case False
      with internal_clients [OF step l out] obtain j where j: "client_step 0 j (pt_pool s) = Some p"
        "0 < length (p_clients (pt_pool s))" by blast
      from scan_step [OF j(1) C_query [unfolded q(1)] j(2) use q(2) inv] A_exact k show ?thesis
        by (auto simp: answered_by_def)
    qed
  qed (simp add: answered_by_def)
qed (use ans in \<open>auto simp: answered_by_def split: answer.splits\<close>)

section \<open>The steps of the threads of a test\<close>

lemma client_call_good:
  "pool_good p \<Longrightarrow> p_clients p ! j = C_outside r \<Longrightarrow> j < length (p_clients p) \<Longrightarrow>
     pool_good (client_call j c p)"
  using pool_good_step [of p "L_call j c" "client_call j c p"] by (simp add: pool_step_def)

lemma still_call:
  "still p \<Longrightarrow> p_clients p \<noteq> [] \<Longrightarrow> \<forall>t. c \<noteq> Do_execute t \<Longrightarrow> still (client_call 0 c p)"
  by (cases c) (auto simp: still_def others_out_def all_empty_def slots_empty_def any_call_fields
      client_call_at in_execute_def)

text \<open>A call of the main thread.\<close>
lemma test_ok_main_call:
  assumes "test_ok n s" and "p_clients (pt_pool s) ! 0 = C_outside r"
    and "\<forall>t. c \<noteq> Do_execute t"
  shows "test_ok n (main_call c rest s)"
  using test_okD [OF assms(1)] assms(2,3) client_call_good [of "pt_pool s" 0 r c]
  by (auto simp: test_ok_def main_call_def any_call_fields constructed_def split: pool_call.splits)

lemma test_ok_main_execute:
  assumes "test_ok 0 s" and "p_clients (pt_pool s) ! 0 = C_outside r"
  shows "test_ok 0 (main_execute rest s)"
  using test_okD [OF assms(1)] assms(2) client_call_good [of "pt_pool s" 0 r]
  by (auto simp: test_ok_def main_execute_def main_call_def any_call_fields constructed_def)

text \<open>Where the tasks are when nothing goes on.\<close>
lemma ledger_still:
  assumes "pool_good p" and "still p" and "p_clients p ! 0 = C_outside r" and "p_discarded p = {#}"
  shows "p_submitted p = p_finished p"
proof -
  have "owned tm_held (p_tasks p) = {#}"
    using assms(2) by (intro owned_all_empty)
      (auto simp: still_def all_empty_def slots_empty_def tm_held_def in_set_conv_nth)
  moreover have "owned in_flight (p_clients p) = {#}"
  proof (rule owned_all_empty)
    fix j assume "j < length (p_clients p)"
    then have "\<exists>r'. p_clients p ! j = C_outside r'"
      using assms(2,3) by (cases "j = 0") (simp_all add: still_def others_out_def)
    then show "in_flight (p_clients p ! j) = {#}" by auto
  qed
  ultimately show ?thesis using assms(1,4) by (simp add: pool_good_def ledger_def)
qed

text \<open>The final checks.\<close>
lemma counts_ended:
  assumes ok: "test_ok n s" and ph: "phase K_ended s" and out: "p_clients (pt_pool s) ! 0 = C_outside r"
    and e: "e = Load_run \<and> 0 < n \<or> e = Counted_run \<and> n = 0"
  shows "task_count s = 0 \<and> run_count s = expected_count e s"
proof -
  have still: "still (pt_pool s)" and none: "p_discarded (pt_pool s) = {#}"
    and ended: "(\<forall>u \<in> set (pt_pushers s). u = PU_end)"
    using ph by (simp_all add: phase_def)
  have "p_submitted (pt_pool s) = p_finished (pt_pool s)"
    by (rule ledger_still [OF test_okD(1) [OF ok] still out none])
  then have run: "run_count s = constructed s" using test_okD(6) [OF ok] by (simp add: run_count_def)
  moreover have "filter (\<lambda>u. u \<noteq> PU_latch) (pt_pushers s) = pt_pushers s"
    using ended by (auto intro!: filter_True)
  ultimately show ?thesis
    using e test_okD(3,7) [OF ok]
    by (auto simp: task_count_def run_count_def expected_count_def constructed_def)
qed

lemma counts_none:
  assumes ok: "test_ok n s" and ph: "phase K_none s" and out: "p_clients (pt_pool s) ! 0 = C_outside r"
  shows "task_count s = 0 \<and> run_count s = expected_count None_run s"
proof -
  have p: "p_tasks (pt_pool s) = []" "p_finished (pt_pool s) = {#}" "pt_pushers s = []"
    using ph by (simp_all add: phase_def)
  then have "length (p_clients (pt_pool s)) = 1" using test_okD(2,3) [OF ok] by simp
  then have "p_clients (pt_pool s) = [C_outside r]" using out by (cases "p_clients (pt_pool s)") auto
  then have "p_submitted (pt_pool s) = p_discarded (pt_pool s)"
    using test_okD(1) [OF ok] p by (simp add: pool_good_def ledger_def)
  then show ?thesis
    using test_okD(6) [OF ok] p
    by (simp add: task_count_def run_count_def expected_count_def)
qed

lemma main_call_fields [simp]:
  "pt_pool (main_call c rest s) = client_call 0 c (pt_pool s)" "pt_rest (main_call c rest s) = rest"
  "pt_start (main_call c rest s) = pt_start s" "pt_pushers (main_call c rest s) = pt_pushers s"
  "pt_pool (main_execute rest s) = client_call 0 (Do_execute (Some (pt_i s))) (pt_pool s)"
  "pt_rest (main_execute rest s) = rest" "pt_start (main_execute rest s) = pt_start s"
  "pt_pushers (main_execute rest s) = pt_pushers s"
  by (simp_all add: main_call_def main_execute_def)

lemma test_ok_fields:
  "test_ok n s \<Longrightarrow> test_ok n (s\<lparr>pt_rest := rest\<rparr>)" "test_ok n s \<Longrightarrow> test_ok n (s\<lparr>pt_start := m\<rparr>)"
  "test_ok n s \<Longrightarrow> \<not> b \<Longrightarrow> test_ok n (s\<lparr>pt_failed := b\<rparr>)"
  by (simp_all add: test_ok_def constructed_def)

lemma phase_rest [simp]: "phase k (s\<lparr>pt_rest := rest\<rparr>) = phase k s"
  "phase k (s\<lparr>pt_failed := b\<rparr>) = phase k s"
  by (cases k; simp add: phase_def)+

lemma idle_answer_not_exact [simp]: "idle_answer k q \<noteq> A_exact"
  by (simp add: idle_answer_def)

text \<open>A query keeps the phase, and the answer will be what the phase lets expect.\<close>
lemma query_call:
  assumes "test_ok n s" and "phase k s" and "p_clients (pt_pool s) ! 0 = C_outside r"
  shows "phase k (main_call (Do_query q) rest s) \<and>
    answered_by k (idle_answer k q) (pt_pool (main_call (Do_query q) rest s)) \<and>
    answered_by K_alone A_exact (pt_pool (main_call (Do_query Q_is_idle) rest s))"
proof -
  have "0 < length (p_clients (pt_pool s))" using test_okD(2) [OF assms(1)] by simp
  with assms(2) show ?thesis
    by (auto simp: phase_def answered_by_def any_call_fields client_call_at in_use_call still_call
        split: know.splits answer.splits)
qed

lemma main_inv:
  assumes inv: "test_inv n s" and out: "p_clients (pt_pool s) ! 0 = C_outside r"
    and step: "main_stmt r (pt_rest s) s = Some s'"
  shows "test_inv n s'"
proof -
  from inv obtain k a where ok: "test_ok n s" and c: "checks n k a (pt_rest s)"
    and ph: "phase k s" and ans: "answered_by k a (pt_pool s)" by (auto simp: test_inv_def)
  have len: "0 < length (p_clients (pt_pool s))" using test_okD(2) [OF ok] by simp
  have alone: "phase K_alone s" if "k \<in> {K_alone, K_quiet}"
    using that ph by (auto simp: phase_def)
  have quiet: "phase K_quiet s" if "phase K_alone s" "all_empty (pt_pool s)"
  proof -
    have "PU_execute \<notin> set (pt_pushers s)" using that by (auto simp: phase_def)
    from still_pushers_out [OF ok this] that out show ?thesis
      by (simp add: phase_def still_def in_execute_def)
  qed
  note query = query_call [OF ok _ out]
  have ok_query: "test_ok n (main_call (Do_query q) rest s)" for q rest
    by (rule test_ok_main_call [OF ok out]) simp
  have any: "answered_by k' A_any p" for k' p by (simp add: answered_by_def)
  show ?thesis
  proof (cases "(r, pt_rest s, s)" rule: main_stmt.cases)
    case (1 r1 q rest s1)
    with step c ph query [of k q rest] ok_query show ?thesis
      by (intro test_invI [of _ _ k "idle_answer k q"]) auto
  next
    case (2 r1 b rest s1)
    with step c ok ph ans out show ?thesis
      by (intro test_invI [of _ _ k a]) (auto simp: answered_by_def test_ok_def constructed_def)
  next
    case (3 r1 rest s1)
    with step c ok ph any show ?thesis
      by (intro test_invI [of _ _ K_load A_any]) (auto simp: phase_def test_ok_def constructed_def)
  next
    case (4 r1 rest s1)
    then have rest: "pt_rest s = T_await # rest" by auto
    then have "filter (\<lambda>u. u \<noteq> PU_end) (pt_pushers s) = []"
      using step test_okD(5) [OF ok] by (auto split: if_splits)
    then have "(\<forall>u \<in> set (pt_pushers s). u = PU_end)" by (auto simp: filter_empty_conv)
    moreover have "s' = s\<lparr>pt_rest := rest\<rparr>" using step rest by (simp split: if_splits)
    ultimately show ?thesis using rest c ok ph any
      by (intro test_invI [of _ _ K_alone A_any]) (simp_all add: test_ok_fields phase_def)
  next
    case (5 r1 rest s1)
    with step c ok ph any out show ?thesis
      by (intro test_invI [of _ _ "if k = K_none then K_none else K_alone" A_any])
        (auto intro: test_ok_main_execute simp: phase_def any_call_fields in_use_call)
  next
    case (6 r1 rest s1)
    with step c alone query [of K_alone Q_is_idle "T_polled # rest"] ok_query show ?thesis
      by (intro test_invI [of _ _ K_alone A_exact]) auto
  next
    case (7 r1 rest s1)
    show ?thesis
    proof (cases "r = Some True")
      case True
      with 7 c ans out have "all_empty (pt_pool s)" by (auto simp: answered_by_def)
      with 7 True step c ok quiet alone out show ?thesis
        by (intro test_invI [of _ _ K_quiet "A_is True"])
          (auto intro: test_ok_fields simp: answered_by_def)
    next
      case False
      with 7 step c alone query [of K_alone Q_is_idle "T_polled # rest"] ok_query show ?thesis
        by (intro test_invI [of _ _ K_alone A_exact]) auto
    qed
  next
    case (8 r1 rest s1)
    with step c ok alone any out show ?thesis
      by (intro test_invI [of _ _ K_alone A_any])
        (auto intro: test_ok_main_execute simp: phase_def any_call_fields in_use_call)
  next
    case (9 r1 rest s1)
    with step c alone query [of K_alone Q_is_idle "T_loaded # rest"] ok_query any show ?thesis
      by (intro test_invI [of _ _ K_alone A_any]) auto
  next
    case (10 r1 rest s1)
    with step c ok alone any out show ?thesis
      by (intro test_invI [of _ _ K_alone A_any])
        (auto intro: test_ok_main_execute test_ok_fields split: if_splits
          simp: phase_def any_call_fields in_use_call)
  next
    case (11 r1 rest s1)
    have "test_ok n (main_call Do_terminate rest s)" by (rule test_ok_main_call [OF ok out]) simp
    moreover have "p_discarded (pt_pool s) = {#}" if "in_use (pt_pool s)"
      by (rule in_use_discarded [OF test_okD(1) [OF ok] that])
    ultimately show ?thesis
      using 11 step c ph any len
      by (intro test_invI [of _ _ "if k = K_none then K_none else K_ended" A_any])
        (auto simp: phase_def any_call_fields still_call)
  next
    case (12 r1 e rest s1)
    have "task_count s = 0 \<and> run_count s = expected_count e s"
    proof -
      have "k = K_none \<and> e = None_run \<or>
          k = K_ended \<and> (e = Load_run \<and> 0 < n \<or> e = Counted_run \<and> n = 0)"
        using 12 c by auto
      then show ?thesis using counts_ended [OF ok _ out, of e] counts_none [OF ok _ out] ph by blast
    qed
    with 12 step c ok ph any show ?thesis
      by (intro test_invI [of _ _ k A_any]) (auto simp: test_ok_def constructed_def)
  next
    case (13 r1 rest s1)
    moreover have "length (p_tasks (pt_pool s)) = pt_threads s" if "k \<in> {K_fresh, K_quiet}"
      using ph that test_okD(9) [OF ok] by (auto simp: phase_def in_use_def)
    ultimately show ?thesis
      using step c ok ph ans by (intro test_invI [of _ _ k a]) (auto simp: test_ok_def constructed_def)
  next
    case (14 r1 rest s1)
    with step c ok ph ans test_okD(10) [OF ok] show ?thesis
      by (intro test_invI [of _ _ k a]) (auto simp: test_ok_def constructed_def)
  next
    case (15 r1 s1)
    with step show ?thesis by auto
  qed
qed

lemma pusher_inv:
  assumes inv: "test_inv n s" and j: "j < length (pt_pushers s)" and step: "pusher_step j s = Some s'"
  shows "test_inv n s'"
proof -
  from inv obtain k a where ok: "test_ok n s" and c: "checks n k a (pt_rest s)"
    and ph: "phase k s" and ans: "answered_by k a (pt_pool s)" by (auto simp: test_inv_def)
  have n: "n \<noteq> 0" "j < n" using j test_okD(3) [OF ok] by auto
  have mem: "pt_pushers s ! j \<in> set (pt_pushers s)" using j by simp
  show ?thesis
  proof (cases "pt_pushers s ! j")
    case PU_latch
    obtain r where r: "p_clients (pt_pool s) ! Suc j = C_outside r"
      using test_okD(4) [OF ok n(2)] PU_latch by auto
    have k: "k = K_load" using ph mem PU_latch step by (auto simp: phase_def pusher_step_def split: know.splits if_splits)
    have s': "s' = s\<lparr>pt_pool := client_call (Suc j) (Do_execute (Some j)) (pt_pool s),
        pt_pushers := (pt_pushers s)[j := PU_execute]\<rparr>"
      using step PU_latch by (auto simp: pusher_step_def split: if_splits)
    have "test_ok n s'"
      using test_okD [OF ok] client_call_good [OF test_okD(1) [OF ok] r] n(2) j PU_latch
        filter_one [OF j, of "\<lambda>u. u \<noteq> PU_end" PU_execute] filter_one [OF j, of "\<lambda>u. u \<noteq> PU_latch" PU_execute]
      by (auto simp: s' test_ok_def constructed_def any_call_fields nth_list_update)
    moreover have "phase k s'" using ph k by (simp add: s' phase_def in_use_call)
    moreover have "answered_by k a (pt_pool s')"
      using ans k by (auto simp: s' answered_by_def any_call_fields split: answer.splits)
    ultimately show ?thesis using c s' by (auto intro: test_invI)
  next
    case PU_execute
    obtain r where r: "p_clients (pt_pool s) ! Suc j = C_outside r"
      using step PU_execute by (auto simp: pusher_step_def split: client_pc.splits)
    have k: "k = K_load" using ph mem PU_execute by (auto simp: phase_def split: know.splits)
    have s': "s' = s\<lparr>pt_completion := pt_completion s - 1, pt_pushers := (pt_pushers s)[j := PU_end]\<rparr>"
      using step PU_execute r by (simp add: pusher_step_def)
    have "test_ok n s'"
      using test_okD [OF ok] r n(2) j PU_execute
        filter_one [OF j, of "\<lambda>u. u \<noteq> PU_end" PU_end] filter_one [OF j, of "\<lambda>u. u \<noteq> PU_latch" PU_end]
      by (auto simp: s' test_ok_def constructed_def nth_list_update)
    moreover have "phase k s'" using ph k by (simp add: s' phase_def)
    ultimately show ?thesis using c ans by (auto simp: s' intro: test_invI)
  next
    case PU_end
    with step show ?thesis by (simp add: pusher_step_def)
  qed
qed

lemma test_inv_step:
  assumes inv: "test_inv n s" and step: "test_step s l = Some s'"
  shows "test_inv n s'"
proof (cases l)
  case T_main
  with step obtain r where "p_clients (pt_pool s) ! 0 = C_outside r" "main_stmt r (pt_rest s) s = Some s'"
    by (auto simp: test_step_def main_thread_step_def split: client_pc.splits)
  with inv show ?thesis by (rule main_inv)
next
  case (T_pusher j)
  with step inv show ?thesis by (auto simp: test_step_def split: if_splits intro: pusher_inv)
next
  case (T_pool pl)
  with step obtain p where p: "pool_step (pt_pool s) pl = Some p" "\<not> is_call pl"
    and s': "s' = s\<lparr>pt_pool := p\<rparr>" by (auto simp: test_step_def split: if_splits)
  from inv obtain k a where "test_ok n s" "checks n k a (pt_rest s)" "phase k s"
    "answered_by k a (pt_pool s)" by (auto simp: test_inv_def)
  with test_ok_pool [OF _ p] phase_pool [OF _ _ p] answered_pool [OF _ _ _ p] show ?thesis
    by (intro test_invI [of _ _ k a]) (simp_all add: s')
qed

interpretation tested: step_invariant test_step "test_inv n"
  by unfold_locales (rule test_inv_step)

text \<open>Where the tests start.\<close>
lemma alive_constructed: "is_alive (tm_thread (tm_construct None n))"
  by (simp add: tm_construct_def thread_defs)

lemma test_begin:
  assumes "k = K_none \<and> threads = 0 \<and> n = 0 \<or> k = K_fresh \<and> 0 < threads \<or>
    k = K_quiet \<and> 0 < threads \<and> n = 0"
    and "checks n k A_any prog"
  shows "test_inv n (pt_begin prog threads stack n)"
proof (rule test_invI)
  let ?s = "pt_begin prog threads stack n"
  show "checks n k A_any (pt_rest ?s)" using assms(2) by (simp add: pt_begin_def)
  show "answered_by k A_any (pt_pool ?s)" by (simp add: answered_by_def)
  show "test_ok n ?s"
    using pool_good_construct [of "\<lambda>i. None" threads stack "Suc n"]
    by (simp add: test_ok_def pt_begin_def constructed_def pool_construct_stack_def nth_Cons')
  have "p_tasks (pt_pool ?s) ! i = tm_construct None stack" if "i < threads" for i
    using that by (simp add: pt_begin_def pool_construct_stack_def)
  then show "phase k ?s"
    using assms(1) alive_constructed
    by (auto simp: phase_def pt_begin_def pool_construct_stack_def in_use_def still_def others_out_def
        all_empty_def slots_empty_def in_execute_def tm_construct_def Let_def nth_Cons')
qed

section \<open>The tests\<close>

text \<open>
  C35: no check of a test of the class \<open>ThreadPool\<close> ever fails.  Whatever the order of the main
  thread, of the threads that push tasks and of the threads of the pool, in the test without
  threads (\<open>ThreadPoolInterface_test\<close>), in the one under load with any number of threads and
  pushers (\<open>ThreadPool_busy_test\<close>) and in the one that fills the pool itself
  (\<open>ThreadPool_test\<close>): \<open>is_idle\<close> answers as the test expects, and at the end every task has been
  deleted and every task has been run, or none in the pool without threads.
\<close>
theorem pool_tests_never_fail:
  assumes "reach test_step (pt_begin prog threads stack load) s"
    and "prog = interface_test \<and> threads = 0 \<and> load = 0 \<or>
      prog = busy_test \<and> 0 < threads \<and> 0 < load \<or> prog = pool_test \<and> 0 < threads \<and> load = 0"
  shows "\<not> pt_failed s"
proof -
  have "test_inv load (pt_begin prog threads stack load)"
    using assms(2) test_begin [of K_none threads load prog stack]
      test_begin [of K_fresh threads load prog stack] test_begin [of K_quiet threads load prog stack]
      tests_checked by auto
  from tested.inv_reach [OF assms(1) this] show ?thesis by (auto simp: test_inv_def test_ok_def)
qed

text \<open>One thread and one pusher, up to the end of the test.\<close>
definition busy_run :: "test_label list" where
  "busy_run =
     replicate 3 (T_pool (L_worker 0 Run_returns 0)) @
     replicate 3 T_main @ replicate 4 (T_pool (L_client 0 0)) @ [T_main, T_main, T_pusher 0] @
     replicate 4 (T_pool (L_client 1 0)) @ replicate 6 (T_pool (L_worker 0 Run_returns 0)) @
     [T_pusher 0, T_main, T_main] @ replicate 4 (T_pool (L_client 0 0)) @
     T_main # replicate 4 (T_pool (L_client 0 0)) @ [T_main, T_main] @
     replicate 4 (T_pool (L_client 0 0)) @ [T_main, T_main] @ replicate 4 (T_pool (L_client 0 0)) @
     T_main # replicate 4 (T_pool (L_client 0 0)) @ replicate 4 (T_pool (L_worker 0 Run_returns 0)) @
     replicate 3 (T_pool (L_client 0 0)) @ T_main # replicate 4 (T_pool (L_client 0 0)) @ [T_main]"

lemmas test_eval = test_step_def main_thread_step_def pusher_step_def main_call_def pt_begin_def
  busy_test_def pool_construct_stack_def granted_thread is_idle_step_def is_busy_step_def
  task_count_def run_count_def constructed_def expected_count_def thread_join_def

lemma busy_run_ends:
  "\<exists>s. run_steps test_step (pt_begin busy_test 1 default_stacksize 1) busy_run = Some s \<and> pt_rest s = [] \<and>
     size (p_finished (pt_pool s)) = 1"
  by (simp add: busy_run_def numeral_eq_Suc test_eval run_eval)

theorem pool_tests_never_fail_witness:
  "\<exists>s. run_steps test_step (pt_begin busy_test 1 default_stacksize 1) busy_run = Some s \<and>
     pt_rest s = [] \<and> \<not> pt_failed s"
proof -
  obtain s where run: "run_steps test_step (pt_begin busy_test 1 default_stacksize 1) busy_run = Some s"
    and s: "pt_rest s = []" using busy_run_ends by blast
  from pool_tests_never_fail [OF run_steps_reach [OF run]] run s show ?thesis by simp
qed

text \<open>
  One thread and two pushers: the notification of the worker is lost between the scan of the
  second pusher and its wait.
\<close>
definition hang_run :: "test_label list" where
  "hang_run =
     replicate 3 (T_pool (L_worker 0 Run_returns 0)) @
     replicate 3 T_main @ replicate 4 (T_pool (L_client 0 0)) @ [T_main, T_main] @
     T_pusher 0 # replicate 4 (T_pool (L_client 1 0)) @
     T_pusher 1 # replicate 3 (T_pool (L_client 2 0)) @
     replicate 6 (T_pool (L_worker 0 Run_returns 0)) @
     replicate 2 (T_pool (L_client 2 0)) @ [T_pusher 0]"

definition hang_state :: pool_test_state where
  "hang_state =
     \<lparr>pt_threads = 1, pt_stack = default_stacksize,
      pt_pool = \<lparr>p_sync = \<lparr>monitor = None, cond = [Client 2]\<rparr>,
        p_tasks = [\<lparr>tm_sync = \<lparr>monitor = None, cond = [Worker 0]\<rparr>, tm_thread = granted_thread,
                    tm_task = None, tm_go = True, tm_pc = W_asleep\<rparr>],
        p_stack = default_stacksize,
        p_clients = [C_outside (Some True), C_outside None, C_execute (Some 1) X_asleep],
        p_submitted = {#0, 1#}, p_started = {#0#}, p_finished = {#0#}, p_discarded = {#},
        p_terminating = False\<rparr>,
      pt_start = 0, pt_completion = 1, pt_pushers = [PU_end, PU_execute], pt_i = 0,
      pt_rest = drop 5 busy_test, pt_failed = False\<rparr>"

lemma hang_run: "run_steps test_step (pt_begin busy_test 1 default_stacksize 2) hang_run = Some hang_state"
  by (simp add: hang_run_def hang_state_def numeral_eq_Suc test_eval run_eval)

text \<open>
  The test under load may hang.  From this state only a spurious wake-up leads on: the worker is
  idle, a pusher sleeps beside it with its task, and the main thread waits for the latch.
\<close>
theorem busy_test_can_hang:
  "reach test_step (pt_begin busy_test 1 default_stacksize 2) hang_state \<and> pt_rest hang_state \<noteq> [] \<and>
   (\<forall>l s'. test_step hang_state l = Some s' \<longrightarrow>
      (\<exists>i. l = T_pool (L_client_spurious i) \<or> l = T_pool (L_worker_spurious i)))"
proof -
  have two: "j < Suc (Suc (Suc 0)) \<Longrightarrow> j = 0 \<or> j = 1 \<or> j = 2" for j :: nat by auto
  have client: "client_step j k (pt_pool hang_state) = None" if "j < 3" for j k
    using two [of j] that
    by (auto simp: hang_state_def client_step_def execute_step_def sync_resume_cases numeral_eq_Suc)
  have worker: "worker_step (Worker 0) e (p_tasks (pt_pool hang_state) ! 0) = None" for e
    by (simp add: hang_state_def worker_step_def sync_resume_cases)
  have pusher: "pusher_step j hang_state = None" if "j < 2" for j
    using that by (auto simp: less_Suc_eq numeral_2_eq_2 pusher_step_def hang_state_def)
  have "main_thread_step hang_state = None"
    by (simp add: main_thread_step_def hang_state_def busy_test_def)
  moreover have "pool_step (pt_pool hang_state) l = None"
    if "\<not> is_call l" "\<forall>i. l \<noteq> L_client_spurious i \<and> l \<noteq> L_worker_spurious i" for l
    using that client worker
    by (cases l) (auto simp: pool_step_def hang_state_def)
  moreover have "length (pt_pushers hang_state) = 2" by (simp add: hang_state_def)
  ultimately have "\<exists>i. l = T_pool (L_client_spurious i) \<or> l = T_pool (L_worker_spurious i)"
    if "test_step hang_state l = Some s'" for l s'
    using that pusher
    by (cases l) (fastforce simp: test_step_def split: if_splits)+
  then show ?thesis
    using run_steps_reach [OF hang_run] by (auto simp: hang_state_def busy_test_def)
qed

end
