(* ===== verification/Queued_Quiet.thy ===== *)
theory Queued_Quiet
  imports Pool_Quiet Queued_Properties
begin

text \<open>
  What the steps of a queued pool keep when nobody gives it a task: an empty queue and empty slots
  stay empty, and a client that holds the lock of the pool holds up the dispatcher.
\<close>

section \<open>The base pool in the background\<close>

text \<open>A step of a worker or its spurious wake-up, seen from the pool.\<close>
definition background :: "pool \<Rightarrow> pool \<Rightarrow> bool" where
  "background p p' \<longleftrightarrow>
     p_clients p' = p_clients p \<and> p_terminating p' = p_terminating p \<and> p_stack p' = p_stack p \<and>
     (\<exists>i tm. p_tasks p' = (p_tasks p)[i := tm] \<and> tm_thread tm = tm_thread (p_tasks p ! i) \<and>
        (tm_task (p_tasks p ! i) = None \<longrightarrow> tm_task tm = None) \<and>
        (i < length (p_tasks p) \<and> tm_task (p_tasks p ! i) \<noteq> None \<or>
         p_discarded p' = p_discarded p \<and> p_finished p' = p_finished p))"

lemma backgroundE:
  assumes "background p p'"
  obtains i tm where "p_clients p' = p_clients p" "p_terminating p' = p_terminating p"
    "p_stack p' = p_stack p" "p_tasks p' = (p_tasks p)[i := tm]"
    "tm_thread tm = tm_thread (p_tasks p ! i)"
    "tm_task (p_tasks p ! i) = None \<longrightarrow> tm_task tm = None"
    "i < length (p_tasks p) \<and> tm_task (p_tasks p ! i) \<noteq> None \<or>
     p_discarded p' = p_discarded p \<and> p_finished p' = p_finished p"
  using assms unfolding background_def by (elim conjE exE) (rule that)

lemma background_refl: "background p p"
  unfolding background_def by (intro conjI exI [of _ 0] exI [of _ "p_tasks p ! 0"]) auto

lemma background_worker:
  assumes "i < length (p_tasks p)" and "worker_step w e (p_tasks p ! i) = Some (tm, ev)"
  shows "background p (record_event ev (set_manager i tm p))"
  unfolding background_def
  using assms(1) worker_step_empty [OF assms(2)] worker_step_thread [OF assms(2)]
  by (intro conjI exI [of _ i] exI [of _ tm]) (auto simp: record_event_def pool_upd)

lemma background_spurious:
  assumes "pool_step p (L_worker_spurious i) = Some p'"
  shows "background p p'"
proof -
  have "p' = set_manager i (worker_spurious (Worker i) (p_tasks p ! i)) p"
    using assms by (simp add: pool_step_def split: if_splits)
  then show ?thesis unfolding background_def
    by (intro conjI exI [of _ i] exI [of _ "worker_spurious (Worker i) (p_tasks p ! i)"])
      (auto simp: pool_upd)
qed

lemma background_slots: "background p p' \<Longrightarrow> slots_empty m p \<Longrightarrow> slots_empty m p'"
  by (erule backgroundE) (auto simp: slots_empty_def task_update)

lemma background_length: "background p p' \<Longrightarrow> length (p_tasks p') = length (p_tasks p)"
  by (erule backgroundE) simp

lemma background_empty:
  assumes "background p p'" and "all_empty p"
  shows "all_empty p' \<and> p_discarded p' = p_discarded p"
proof -
  have "all_empty p'"
    using background_slots [OF assms(1)] background_length [OF assms(1)] assms(2)
    by (simp add: all_empty_def)
  moreover from assms(1) have "p_discarded p' = p_discarded p"
    by (rule backgroundE) (use assms(2) in \<open>auto simp: all_empty_def slots_empty_def\<close>)
  ultimately show ?thesis ..
qed

lemma background_in_use: "background p p' \<Longrightarrow> in_use p \<Longrightarrow> in_use p'"
  by (erule backgroundE) (simp add: in_use_def thread_update)

text \<open>The steps of the queued pool that are no calls.\<close>
fun is_qcall :: "qpool_label \<Rightarrow> bool" where
  "is_qcall (QL_call j c) = True"
| "is_qcall _ = False"

lemma qinternal_cases:
  assumes "qpool_step q l = Some q'" and "\<not> is_qcall l"
  obtains (client) j k where "j < length (q_clients q)" "qclient_step j k q = Some q'"
  | (dispatcher) k where "dispatcher_step k q = Some q'"
  | (background) s p where "q' = set_qsync s (set_base p q)" "background (q_base q) p"
      "p_submitted p = p_submitted (q_base q)" "monitor s = monitor (q_sync q)"
proof (cases l)
  case (QL_client j k)
  with assms(1) show ?thesis by (intro client) (auto simp: qpool_step_def split: if_splits)
next
  case (QL_worker i e k)
  with assms(1) obtain tm ev where i: "i < length (p_tasks (q_base q))"
    and w: "worker_step (Worker i) e (p_tasks (q_base q) ! i) = Some (tm, ev)"
    and q': "q' = (if ev = Ev_idle then queue_idle_notification k else id)
                    (set_base (record_event ev (set_manager i tm (q_base q))) q)"
    by (auto simp: qpool_step_def split: if_splits option.splits)
  have "q' = set_qsync (if ev = Ev_idle then sync_notify k (q_sync q) else q_sync q)
      (set_base (record_event ev (set_manager i tm (q_base q))) q)"
    by (simp add: q' queue_idle_notification_def set_qsync_def set_base_def)
  then show ?thesis
    using background_worker [OF i w]
    by (rule background) (simp_all add: record_event_def pool_upd)
next
  case (QL_dispatcher k)
  with assms(1) show ?thesis by (intro dispatcher) (simp add: qpool_step_def)
next
  case QL_dispatcher_spurious
  with assms(1) have "q' = set_qsync (sync_spurious (q_sync q) Dispatcher) (set_base (q_base q) q)"
    by (simp add: qpool_step_def set_base_def)
  then show ?thesis by (rule background) (simp_all add: background_refl sync_spurious_def)
next
  case (QL_worker_spurious i)
  with assms(1) obtain p where p: "pool_step (q_base q) (L_worker_spurious i) = Some p"
    and q': "q' = set_qsync (q_sync q) (set_base p q)"
    by (auto simp: qpool_step_def set_qsync_def set_base_def)
  have "p = set_manager i (worker_spurious (Worker i) (p_tasks (q_base q) ! i)) (q_base q)"
    using p by (simp add: pool_step_def split: if_splits)
  with q' background_spurious [OF p] show ?thesis by (intro background [of "q_sync q" p]) simp_all
qed (use assms in simp)

section \<open>The clients\<close>

definition executing :: "qclient_pc \<Rightarrow> bool" where
  "executing pc \<longleftrightarrow> (\<exists>t. pc = Z_execute t)"

definition terminating :: "qclient_pc \<Rightarrow> bool" where
  "terminating pc \<longleftrightarrow> (\<exists>d x. pc = Z_terminate d x)"

lemma base_step_frame: "base_step j k q = Some q' \<Longrightarrow>
    \<exists>p. client_step j k (q_base q) = Some p \<and> q' = set_base p q"
  by (auto simp: base_step_def)

lemma qclient_frame:
  assumes "qclient_step j k q = Some q'" and "j < length (q_clients q)"
  shows "length (q_clients q') = length (q_clients q) \<and> q_submitted q' = q_submitted q \<and>
    (\<forall>i. i \<noteq> j \<longrightarrow> q_clients q' ! i = q_clients q ! i) \<and>
    (executing (q_clients q' ! j) \<longrightarrow> executing (q_clients q ! j)) \<and>
    (terminating (q_clients q' ! j) \<longrightarrow> terminating (q_clients q ! j))"
proof (cases "q_clients q ! j")
  case (Z_query qu x)
  with assms show ?thesis
    by (cases x) (auto simp: qclient_step_def qquery_step_def qclient_return_def executing_def
        terminating_def dest!: base_step_frame
        split: outcome.splits client_pc.splits option.splits if_splits)
next
  case (Z_terminate d x)
  with assms show ?thesis
    by (cases x) (auto simp: qclient_step_def qterminate_step_def qclient_return_def executing_def
        empty_queue_def terminating_def dest!: base_step_frame
        split: outcome.splits client_pc.splits if_splits)
qed (use assms in \<open>auto simp: qclient_step_def qexecute_step_def queue_length_step_def
    qclient_return_def executing_def terminating_def split: outcome.splits\<close>)

text \<open>Where a client is in the base pool, when it takes a step there.\<close>
lemma base_query:
  assumes "qpool_inv q" and "j < length (q_clients q)" and "q_clients q ! j = Z_query qu Zq_base"
    and "qclient_step j k q = Some q'"
  obtains (returned) b where "p_clients (q_base q) ! j = C_outside (Some b)"
      "q' = qclient_return j (Some (A_bool (query_answer qu b))) q"
  | (inside) x p where "p_clients (q_base q) ! j = C_query Q_is_idle x"
      "client_step j k (q_base q) = Some p" "q' = set_base p q"
proof -
  have "base_inner (Z_query qu Zq_base) (p_clients (q_base q) ! j)"
    using client_facts(1) [OF assms(1,2)] assms(3) by simp
  then show ?thesis
    using assms(3,4) returned inside
    by (cases "p_clients (q_base q) ! j")
      (auto simp: qclient_step_def qquery_step_def base_step_def split: option.splits)
qed

section \<open>Quiet and live\<close>

text \<open>No task is anywhere, and all that came have been executed.\<close>
definition q_quiet :: "qpool \<Rightarrow> bool" where
  "q_quiet q \<longleftrightarrow> q_queue q = [] \<and> all_empty (q_base q) \<and>
     (\<forall>j < length (q_clients q). \<not> executing (q_clients q ! j)) \<and>
     p_discarded (q_base q) = {#} \<and> q_dropped q = {#}"

text \<open>Nobody has terminated the pool, and all its threads exist.\<close>
definition q_live :: "qpool \<Rightarrow> bool" where
  "q_live q \<longleftrightarrow> q_go q \<and> is_alive (q_thread q) \<and> in_use (q_base q) \<and> q_dropped q = {#} \<and>
     (\<forall>j < length (q_clients q). \<not> terminating (q_clients q ! j))"

lemma all_empty_call [simp]: "all_empty (client_call j c p) = all_empty p"
  by (simp add: all_empty_def slots_empty_def any_call_fields)

lemma all_empty_tasks: "p_tasks p' = p_tasks p \<Longrightarrow> all_empty p' = all_empty p"
  by (simp add: all_empty_def slots_empty_def)

lemma in_use_fields:
  "p_tasks p' = p_tasks p \<Longrightarrow> p_terminating p' = p_terminating p \<Longrightarrow> in_use p' = in_use p"
  by (simp add: in_use_def)

text \<open>What a step of \<open>terminate\<close> does to a pool whose slots are empty.\<close>
lemma quiet_terminate_base:
  assumes "qpool_inv q" and "j < length (q_clients q)"
    and "q_clients q ! j = Z_terminate d x" and "base_step j k q = Some q'" and "q_quiet q"
  shows "q_quiet q'"
proof -
  obtain p where p: "client_step j k (q_base q) = Some p" and q': "q' = set_base p q"
    using base_step_frame [OF assms(4)] by blast
  have "base_inner (Z_terminate d x) (p_clients (q_base q) ! j)"
    using client_facts(1) [OF assms(1,2)] assms(3) by simp
  then obtain y where "p_clients (q_base q) ! j = C_terminate y"
    using p by (cases "p_clients (q_base q) ! j") (auto simp: client_step_def)
  then have "terminate_step j k y (q_base q) = Some p" using p by (simp add: client_step_def)
  from terminate_step_empty [OF this] assms(5) show ?thesis by (simp add: q' q_quiet_def)
qed

lemma q_quiet_client:
  assumes inv: "qpool_inv q" and j: "j < length (q_clients q)"
    and step: "qclient_step j k q = Some q'" and quiet: "q_quiet q"
  shows "q_quiet q'"
proof -
  note frame = qclient_frame [OF step j]
  have "\<not> executing (q_clients q' ! i)" if "i < length (q_clients q')" for i
    using frame quiet that by (cases "i = j") (auto simp: q_quiet_def)
  moreover have "q_queue q' = [] \<and> all_empty (q_base q') \<and> p_discarded (q_base q') = {#} \<and>
      q_dropped q' = {#}"
  proof (cases "q_clients q ! j")
    case (Z_query qu x)
    show ?thesis
    proof (cases "x = Zq_base")
      case True
      with Z_query have pc: "q_clients q ! j = Z_query qu Zq_base" by simp
      from inv j pc step show ?thesis
      proof (cases rule: base_query)
        case (returned b)
        with quiet show ?thesis by (simp add: q_quiet_def qclient_return_def)
      next
        case (inside y p)
        with quiet query_step_fields [OF inside(2,1)] all_empty_tasks [of p "q_base q"]
        show ?thesis by (simp add: q_quiet_def)
      qed
    qed (use Z_query step quiet in \<open>auto simp: qclient_step_def qquery_step_def qclient_return_def
        q_quiet_def any_call_fields split: outcome.splits qquery_pc.splits if_splits\<close>)
  next
    case (Z_terminate d x)
    show ?thesis
    proof (cases "base_step j k q = Some q'")
      case True
      from quiet_terminate_base [OF inv j Z_terminate True quiet] show ?thesis
        by (simp add: q_quiet_def)
    qed (use Z_terminate step quiet in \<open>auto simp: qclient_step_def qterminate_step_def
        qclient_return_def q_quiet_def any_call_fields empty_queue_def
        split: outcome.splits qterm_pc.splits client_pc.splits if_splits\<close>)
  qed (use step quiet j in \<open>auto simp: qclient_step_def queue_length_step_def qclient_return_def
      q_quiet_def executing_def split: outcome.splits\<close>)
  ultimately show ?thesis by (simp add: q_quiet_def)
qed

lemma quiet_dispatcher:
  assumes inv: "qpool_inv q" and step: "dispatcher_step k q = Some q'" and quiet: "q_quiet q"
  shows "q_quiet q'"
proof -
  have "dispatcher_knows (q_go q) (q_queue q) (p_tasks (q_base q)) (q_dispatcher q)"
    using qpool_invD(3) [OF inv] .
  with step quiet show ?thesis
    by (cases "q_dispatcher q")
      (auto simp: dispatcher_step_def dispatcher_wait_def dispatcher_resume_def q_quiet_def
        split: outcome.splits prod.splits if_splits)
qed

lemma quiet_step:
  assumes "qpool_inv q" and "qpool_step q l = Some q'" and "\<not> is_qcall l" and "q_quiet q"
  shows "q_quiet q'"
  using assms(2,3)
proof (cases rule: qinternal_cases)
  case (client j k)
  show ?thesis by (rule q_quiet_client [OF assms(1) client assms(4)])
next
  case (dispatcher k)
  show ?thesis by (rule quiet_dispatcher [OF assms(1) dispatcher assms(4)])
next
  case (background s p)
  with assms(4) background_empty [OF background(2)] show ?thesis by (simp add: q_quiet_def)
qed

lemma live_client:
  assumes inv: "qpool_inv q" and j: "j < length (q_clients q)"
    and step: "qclient_step j k q = Some q'" and live: "q_live q"
  shows "q_live q'"
proof -
  note frame = qclient_frame [OF step j]
  have none: "\<not> terminating (q_clients q ! j)" using live j by (simp add: q_live_def)
  have "\<not> terminating (q_clients q' ! i)" if "i < length (q_clients q')" for i
    using frame live that by (cases "i = j") (auto simp: q_live_def)
  moreover have "q_go q' \<and> is_alive (q_thread q') \<and> in_use (q_base q') \<and> q_dropped q' = {#}"
  proof (cases "q_clients q ! j")
    case (Z_query qu x)
    show ?thesis
    proof (cases "x = Zq_base")
      case True
      with Z_query have pc: "q_clients q ! j = Z_query qu Zq_base" by simp
      from inv j pc step show ?thesis
      proof (cases rule: base_query)
        case (returned b)
        with live show ?thesis by (simp add: q_live_def qclient_return_def)
      next
        case (inside y p)
        with live query_step_fields [OF inside(2,1)] client_step_frame [OF inside(2)]
          in_use_fields [of p "q_base q"] show ?thesis by (simp add: q_live_def)
      qed
    qed (use Z_query step live in \<open>auto simp: qclient_step_def qquery_step_def qclient_return_def
        q_live_def in_use_call split: outcome.splits qquery_pc.splits if_splits\<close>)
  qed (use step live none in \<open>auto simp: qclient_step_def queue_length_step_def qexecute_step_def
      qclient_return_def q_live_def terminating_def split: outcome.splits\<close>)
  ultimately show ?thesis by (simp add: q_live_def)
qed

lemma live_dispatcher:
  assumes step: "dispatcher_step k q = Some q'" and live: "q_live q"
  shows "q_live q'"
proof -
  have base: "in_use (set_manager i tm (q_base q\<lparr>p_submitted := m\<rparr>))"
    "in_use (set_manager i tm (q_base q))"
    if "tm_set_task k Dispatcher t (p_tasks (q_base q) ! i) = Returns (b, tm)" for i t b tm m
    using live set_task_thread [OF that] by (simp_all add: q_live_def in_use_def thread_update)
  show ?thesis
  proof (cases "q_dispatcher q")
    case (D_scan t i)
    with step live show ?thesis
      by (auto simp: dispatcher_step_def assign_scan_def q_live_def
          split: outcome.splits bool.splits if_splits)
  next
    case (D_set t i)
    then have "assign_set k t i q = Some q'" using step by (simp add: dispatcher_step_def)
    then consider (take) tm where "tm_set_task k Dispatcher t (p_tasks (q_base q) ! i) = Returns (True, tm)"
        "q_base q' = set_manager i tm (q_base q\<lparr>p_submitted := p_submitted (q_base q) + ptr_tasks t\<rparr>)"
        "q_go q' = q_go q" "q_thread q' = q_thread q" "q_dropped q' = q_dropped q" "q_clients q' = q_clients q"
      | (refuse) tm where "tm_set_task k Dispatcher t (p_tasks (q_base q) ! i) = Returns (False, tm)"
        "q' = set_dispatcher (D_scan t (Suc i)) (set_base (set_manager i tm (q_base q)) q)"
      | (threw) "q' = set_dispatcher D_threw q"
      by (auto simp: assign_set_def Let_def split: outcome.splits bool.splits prod.splits)
    then show ?thesis
      using live base by cases (simp_all add: q_live_def)
  qed (use step live in \<open>auto simp: dispatcher_step_def dispatcher_wait_def dispatcher_resume_def
      q_live_def split: outcome.splits prod.splits list.splits if_splits\<close>)
qed

lemma live_step:
  assumes "qpool_inv q" and "qpool_step q l = Some q'" and "\<not> is_qcall l" and "q_live q"
  shows "q_live q'"
  using assms(2,3)
proof (cases rule: qinternal_cases)
  case (client j k)
  show ?thesis by (rule live_client [OF assms(1) client assms(4)])
next
  case (dispatcher k)
  show ?thesis by (rule live_dispatcher [OF dispatcher assms(4)])
next
  case (background s p)
  with assms(4) background_in_use [OF background(2)] show ?thesis by (simp add: q_live_def)
qed

section \<open>The lock\<close>

text \<open>The dispatcher can take no step while a client holds the lock.\<close>
lemma dispatcher_blocked:
  assumes "qpool_inv q" and "monitor (q_sync q) = Some (Client j)"
  shows "dispatcher_step k q = None"
proof -
  have "\<not> dispatcher_holds (q_dispatcher q)" using dispatcher_out [OF assms(1)] assms(2) by simp
  moreover have "q_dispatcher q \<noteq> D_threw" using qpool_invD(2) [OF assms(1)] by (simp add: qlock_ok_def)
  ultimately show ?thesis using assms(2)
    by (cases "q_dispatcher q")
      (auto simp: dispatcher_step_def dispatcher_resume_def lock_enter_cases sync_resume_cases)
qed

section \<open>What every step keeps\<close>

text \<open>The base pool after a step: of a client, and of the dispatcher.\<close>
lemma qclient_base:
  assumes "qclient_step j k q = Some q'"
  shows "q_base q' = q_base q \<or> (\<exists>c. q_base q' = client_call j c (q_base q)) \<or>
    client_step j k (q_base q) = Some (q_base q')"
proof (cases "q_clients q ! j")
  case (Z_query qu x)
  with assms show ?thesis
    by (cases x) (auto simp: qclient_step_def qquery_step_def qclient_return_def
        dest!: base_step_frame split: outcome.splits client_pc.splits option.splits if_splits)
next
  case (Z_terminate d x)
  with assms show ?thesis
    by (cases x) (auto simp: qclient_step_def qterminate_step_def qclient_return_def
        empty_queue_def dest!: base_step_frame split: outcome.splits client_pc.splits if_splits)
qed (use assms in \<open>auto simp: qclient_step_def qexecute_step_def queue_length_step_def
    qclient_return_def split: outcome.splits\<close>)

lemma dispatcher_base:
  assumes "dispatcher_step k q = Some q'"
  shows "q_clients q' = q_clients q \<and> q_submitted q' = q_submitted q \<and>
    (q_base q' = q_base q \<or> (\<exists>i tm m. q_base q' = set_manager i tm (q_base q\<lparr>p_submitted := m\<rparr>)))"
proof (cases "q_dispatcher q")
  case (D_set t i)
  have same: "q_base q = q_base q\<lparr>p_submitted := p_submitted (q_base q)\<rparr>" by simp
  from D_set have "assign_set k t i q = Some q'" using assms by (simp add: dispatcher_step_def)
  then show ?thesis
    by (auto simp: assign_set_def Let_def split: outcome.splits bool.splits prod.splits)
      (metis same)+
next
  case (D_scan t i)
  with assms show ?thesis
    by (auto simp: dispatcher_step_def assign_scan_def split: outcome.splits bool.splits if_splits)
qed (use assms in \<open>auto simp: dispatcher_step_def dispatcher_wait_def dispatcher_resume_def
    split: outcome.splits prod.splits list.splits if_splits\<close>)

lemma qinternal_frame:
  assumes "qpool_step q l = Some q'" and "\<not> is_qcall l"
  shows "length (q_clients q') = length (q_clients q) \<and> q_submitted q' = q_submitted q \<and>
    p_stack (q_base q') = p_stack (q_base q) \<and>
    (p_tasks (q_base q') = [] \<or> length (p_tasks (q_base q')) = length (p_tasks (q_base q))) \<and>
    (p_tasks (q_base q) = [] \<longrightarrow> p_finished (q_base q') = p_finished (q_base q))"
  using assms
proof (cases rule: qinternal_cases)
  case (client j k)
  from qclient_base [OF client(2)]
  have "p_stack (q_base q') = p_stack (q_base q) \<and>
    (p_tasks (q_base q') = [] \<or> length (p_tasks (q_base q')) = length (p_tasks (q_base q))) \<and>
    p_finished (q_base q') = p_finished (q_base q)"
    by (elim disjE exE)
      (use client_step_shape [of j k "q_base q"] client_step_fields [of j k "q_base q"] in
        \<open>auto simp: any_call_fields\<close>)
  with qclient_frame [OF client(2,1)] show ?thesis by simp
next
  case (dispatcher k)
  from dispatcher_base [OF this] show ?thesis by (auto simp: pool_upd)
next
  case (background s p)
  from background(2) have "p_tasks (q_base q) = [] \<longrightarrow> p_finished p = p_finished (q_base q)"
    and "p_stack p = p_stack (q_base q)"
    by (auto elim: backgroundE)
  with background(1) background_length [OF background(2)] show ?thesis by simp
qed

text \<open>A client that is outside stays there, and \<open>execute\<close> is one step.\<close>
lemma qinternal_client:
  assumes "qpool_step q l = Some q'" and "\<not> is_qcall l" and "j < length (q_clients q)"
  shows "q_clients q' ! j = q_clients q ! j \<or> (\<exists>k. qclient_step j k q = Some q')"
  using assms(1,2)
proof (cases rule: qinternal_cases)
  case (client i k)
  with qclient_frame [OF client(2,1)] show ?thesis by (cases "i = j") auto
next
  case (dispatcher k)
  from dispatcher_base [OF this] show ?thesis by simp
next
  case (background s p)
  then show ?thesis by simp
qed

lemma outside_no_qstep [simp]: "q_clients q ! j = Z_outside r \<Longrightarrow> qclient_step j k q = None"
  by (simp add: qclient_step_def)

lemma execute_returns:
  assumes "qpool_inv q" and "j < length (q_clients q)" and "q_clients q ! j = Z_execute t"
    and "qclient_step j k q = Some q'"
  shows "q_clients q' ! j = Z_outside None"
proof -
  have "q_clients q' ! j \<noteq> Z_threw"
    using client_facts(4) [OF qpool_inv_client_step [OF assms(1,2,4)], of j] assms(2)
      qclient_frame [OF assms(4,2)] by simp
  with assms(2-4) show ?thesis
    by (auto simp: qclient_step_def qexecute_step_def qclient_return_def split: outcome.splits)
qed

end
