(* ===== verification/Queued_Pool_Tests.thy ===== *)
theory Queued_Pool_Tests
  imports Pool_Tests Queued_Quiet
begin

text \<open>
  The tests of \<open>threads_test.cpp\<close> for the class \<open>QueuedThreadPool\<close>, over the posix variant and
  with its settings: \<open>USE_BUSY_TEST\<close> and \<open>TEST_USAGE_AFTER_TERMINATE\<close> are set, and a pool starts
  with its constructor.  As in \<open>Pool_Tests\<close> a test is the list of the statements of its main
  thread, which is client 0 of every pool, and the threads of \<open>push_task\<close> are the clients behind
  it.  A test may construct several pools; a pool that has been destroyed stays in the list.
\<close>

section \<open>Statements\<close>

text \<open>
  The constructor (threads and stack size), checks of \<open>size()\<close> and \<open>stack_size()\<close>, a query of a
  pool, \<open>queue_length()\<close>, a check of the last answer, the latches, \<open>execute\<close> of a new task, the
  condition of a loop, \<open>terminate\<close>, the destructor, and the checks of \<open>task_count()\<close> and
  \<open>run_count()\<close>.  \<open>QX_loop b m qu body\<close> stands behind the query \<open>qu\<close> of the pool \<open>m\<close>: while the
  answer is \<open>b\<close>, the body and the query are repeated.
\<close>
datatype qx_stmt =
  QX_new nat nat | QX_size nat nat | QX_stack_size nat nat | QX_query nat query | QX_length nat
| QX_expect bool | QX_count_down | QX_await | QX_execute nat
| QX_loop bool nat query "qx_stmt list"
| QX_terminate nat | QX_destroy nat | QX_task_count | QX_run_count nat

text \<open>\<open>do body while (!is_idle());\<close>\<close>
definition until_idle :: "nat \<Rightarrow> qx_stmt list \<Rightarrow> qx_stmt list" where
  "until_idle m body = body @ [QX_query m Q_is_idle, QX_loop False m Q_is_idle body]"

definition queued_busy_test :: "nat \<Rightarrow> nat \<Rightarrow> nat \<Rightarrow> qx_stmt list" where
  "queued_busy_test threads stack load =
     [QX_new threads stack, QX_size 0 threads, QX_stack_size 0 stack,
      QX_query 0 Q_is_idle, QX_expect True, QX_count_down, QX_await, QX_query 0 Q_is_busy] @
     until_idle 0 [] @
     [QX_query 0 Q_is_idle, QX_expect True, QX_query 0 Q_is_busy, QX_terminate 0, QX_destroy 0,
      QX_run_count load, QX_task_count]"

text \<open>The second loop is a \<open>do\<close> loop from 4 to 9.\<close>
definition queued_test :: "qx_stmt list" where
  "queued_test =
     [QX_new 1 default_stacksize, QX_size 0 1, QX_query 0 Q_is_idle, QX_expect True] @
     replicate 3 (QX_execute 0) @ replicate 6 (QX_execute 0) @
     until_idle 0 [QX_length 0] @
     [QX_query 0 Q_is_busy, QX_terminate 0, QX_destroy 0, QX_task_count, QX_run_count 9]"

text \<open>The loop runs from 20 down to 1, and executes a task while its variable is above 5.\<close>
definition queued_load_test :: "qx_stmt list" where
  "queued_load_test =
     [QX_new 1 default_stacksize, QX_query 0 Q_is_idle, QX_expect True, QX_execute 0] @
     concat (replicate 15 [QX_execute 0, QX_query 0 Q_is_busy, QX_length 0]) @
     replicate 5 (QX_length 0) @ until_idle 0 [] @
     [QX_query 0 Q_is_busy, QX_destroy 0, QX_task_count]"

definition queued_interface_test :: "qx_stmt list" where
  "queued_interface_test =
     [QX_new 0 131072, QX_size 0 0, QX_execute 0, QX_query 0 Q_is_busy] @
     concat (replicate 5 [QX_execute 0, QX_length 0]) @ replicate 5 (QX_length 0) @
     [QX_destroy 0, QX_task_count, QX_run_count 0]"

text \<open>Two pools; the tasks executed behind \<open>terminate\<close> are not counted.\<close>
definition independency_test :: "qx_stmt list" where
  "independency_test =
     [QX_new 1 default_stacksize, QX_size 0 1, QX_execute 0, QX_query 0 Q_is_busy,
      QX_new 4 default_stacksize, QX_query 1 Q_is_idle, QX_expect True, QX_execute 1,
      QX_query 1 Q_is_busy, QX_loop True 1 Q_is_busy [],
      QX_query 1 Q_is_busy, QX_expect False, QX_terminate 1] @
     replicate 6 (QX_execute 1) @
     [QX_run_count 2, QX_destroy 1, QX_execute 0, QX_length 0,
      QX_query 0 Q_is_busy, QX_loop True 0 Q_is_busy [QX_query 0 Q_is_idle, QX_expect False],
      QX_query 0 Q_is_idle, QX_expect True, QX_terminate 0, QX_run_count 3, QX_destroy 0]"

section \<open>The state of a test\<close>

text \<open>\<open>qx_at\<close> is the pool of the last call of the main thread, \<open>qx_i\<close> the number of its tasks.\<close>
record queued_test_state =
  qx_pools :: "qpool list"
  qx_at :: nat
  qx_start :: nat
  qx_completion :: nat
  qx_pushers :: "pusher list"
  qx_i :: nat
  qx_rest :: "qx_stmt list"
  qx_failed :: bool

definition qx_begin :: "qx_stmt list \<Rightarrow> nat \<Rightarrow> queued_test_state" where
  "qx_begin prog load =
     \<lparr>qx_pools = [], qx_at = 0, qx_start = 1, qx_completion = load,
      qx_pushers = replicate load PU_latch, qx_i = 0, qx_rest = prog, qx_failed = False\<rparr>"

text \<open>\<open>run_count()\<close> and \<open>task_count()\<close> count the tasks of all pools.\<close>
definition qx_run_count :: "queued_test_state \<Rightarrow> nat" where
  "qx_run_count s = (\<Sum>q \<leftarrow> qx_pools s. size (p_finished (q_base q)))"

definition qx_constructed :: "queued_test_state \<Rightarrow> nat" where
  "qx_constructed s = qx_i s + length (filter (\<lambda>u. u \<noteq> PU_latch) (qx_pushers s))"

definition qx_task_count :: "queued_test_state \<Rightarrow> nat" where
  "qx_task_count s =
     qx_constructed s -
     (\<Sum>q \<leftarrow> qx_pools s. size (p_finished (q_base q)) + size (p_discarded (q_base q)) + size (q_dropped q))"

section \<open>Steps\<close>

text \<open>A call of the main thread to the pool \<open>m\<close>.\<close>
definition qx_call :: "nat \<Rightarrow> qpool_call \<Rightarrow> qx_stmt list \<Rightarrow> queued_test_state \<Rightarrow> queued_test_state" where
  "qx_call m c rest s =
     s\<lparr>qx_pools := (qx_pools s)[m := qclient_call 0 c (qx_pools s ! m)], qx_at := m, qx_rest := rest\<rparr>"

definition qx_check :: "bool \<Rightarrow> qx_stmt list \<Rightarrow> queued_test_state \<Rightarrow> queued_test_state" where
  "qx_check b rest s = s\<lparr>qx_failed := (qx_failed s \<or> \<not> b), qx_rest := rest\<rparr>"

text \<open>One statement, when the last call has returned with the answer \<open>r\<close>; the threads of a pool exist.\<close>
fun qx_main_stmt :: "answer option \<Rightarrow> qx_stmt list \<Rightarrow> queued_test_state \<Rightarrow> queued_test_state option" where
  "qx_main_stmt r (QX_new n st # rest) s =
     Some (s\<lparr>qx_pools := qx_pools s @
               [qpool_construct_stack None (\<lambda>i. None) n st (Suc (length (qx_pushers s)))],
             qx_rest := rest\<rparr>)"
| "qx_main_stmt r (QX_size m n # rest) s =
     Some (qx_check (length (p_tasks (q_base (qx_pools s ! m))) = n) rest s)"
| "qx_main_stmt r (QX_stack_size m n # rest) s =
     Some (qx_check (p_stack (q_base (qx_pools s ! m)) = n) rest s)"
| "qx_main_stmt r (QX_query m qu # rest) s = Some (qx_call m (Qdo_query qu) rest s)"
| "qx_main_stmt r (QX_length m # rest) s = Some (qx_call m Qdo_length rest s)"
| "qx_main_stmt r (QX_expect b # rest) s = Some (qx_check (r = Some (A_bool b)) rest s)"
| "qx_main_stmt r (QX_count_down # rest) s = Some (s\<lparr>qx_start := qx_start s - 1, qx_rest := rest\<rparr>)"
| "qx_main_stmt r (QX_await # rest) s =
     (if qx_completion s = 0 then Some (s\<lparr>qx_rest := rest\<rparr>) else None)"
| "qx_main_stmt r (QX_execute m # rest) s =
     Some ((qx_call m (Qdo_execute (Some (qx_i s))) rest s)\<lparr>qx_i := Suc (qx_i s)\<rparr>)"
| "qx_main_stmt r (QX_loop b m qu body # rest) s =
     (if r = Some (A_bool b)
      then Some (s\<lparr>qx_rest := body @ QX_query m qu # QX_loop b m qu body # rest\<rparr>)
      else Some (s\<lparr>qx_rest := rest\<rparr>))"
| "qx_main_stmt r (QX_terminate m # rest) s = Some (qx_call m Qdo_terminate rest s)"
| "qx_main_stmt r (QX_destroy m # rest) s = Some (qx_call m Qdo_destroy rest s)"
| "qx_main_stmt r (QX_task_count # rest) s = Some (qx_check (qx_task_count s = 0) rest s)"
| "qx_main_stmt r (QX_run_count n # rest) s = Some (qx_check (qx_run_count s = n) rest s)"
| "qx_main_stmt r [] s = None"

text \<open>Whether the main thread is outside the pools, with the answer of its last call.\<close>
definition qx_answer :: "queued_test_state \<Rightarrow> answer option option" where
  "qx_answer s =
     (if qx_pools s = [] then Some None
      else case q_clients (qx_pools s ! qx_at s) ! 0 of Z_outside r \<Rightarrow> Some r | _ \<Rightarrow> None)"

definition qx_main_step :: "queued_test_state \<Rightarrow> queued_test_state option" where
  "qx_main_step s =
     (case qx_answer s of Some r \<Rightarrow> qx_main_stmt r (qx_rest s) s | None \<Rightarrow> None)"

text \<open>\<open>push_task\<close> on the thread \<open>j\<close>, client \<open>Suc j\<close> of the first pool.\<close>
definition qx_pusher_step :: "nat \<Rightarrow> queued_test_state \<Rightarrow> queued_test_state option" where
  "qx_pusher_step j s =
     (case qx_pushers s ! j of
        PU_latch \<Rightarrow>
          (if qx_start s = 0
           then Some (s\<lparr>qx_pools :=
                          (qx_pools s)[0 := qclient_call (Suc j) (Qdo_execute (Some j)) (qx_pools s ! 0)],
                        qx_pushers := (qx_pushers s)[j := PU_execute]\<rparr>)
           else None)
      | PU_execute \<Rightarrow>
          (case q_clients (qx_pools s ! 0) ! Suc j of
             Z_outside r \<Rightarrow> Some (s\<lparr>qx_completion := qx_completion s - 1,
                                    qx_pushers := (qx_pushers s)[j := PU_end]\<rparr>)
           | _ \<Rightarrow> None)
      | PU_end \<Rightarrow> None)"

datatype qx_label = QX_main | QX_pusher nat | QX_pool nat qpool_label

definition qx_step :: "queued_test_state \<Rightarrow> qx_label \<Rightarrow> queued_test_state option" where
  "qx_step s l =
     (case l of
        QX_main \<Rightarrow> qx_main_step s
      | QX_pusher j \<Rightarrow> if j < length (qx_pushers s) then qx_pusher_step j s else None
      | QX_pool m ql \<Rightarrow>
          if is_qcall ql \<or> \<not> m < length (qx_pools s) then None
          else map_option (\<lambda>q. s\<lparr>qx_pools := (qx_pools s)[m := q]\<rparr>) (qpool_step (qx_pools s ! m) ql))"

end
