(* ===== verification/Queued_Pool_Test_Runs.thy ===== *)
theory Queued_Pool_Test_Runs
  imports Queued_Pool_Tests Queued_Runs
begin

text \<open>
  No check of the tests of \<open>Queued_Pool_Tests\<close> that use one pool ever fails.  The proof follows
  the main thread as \<open>Pool_Test_Runs\<close> does for the pool without a queue; here \<open>is_idle\<close> asks under
  the lock of the dispatcher, so a true answer says that no task is left anywhere.  The test with
  two pools can fail, and a run shows how.
\<close>

section \<open>Queries of the main thread\<close>

text \<open>A quiet pool that is live answers as the test expects.\<close>
lemma quiet_query:
  assumes inv: "qpool_inv q" and j: "0 < length (q_clients q)" and live: "q_live q"
    and quiet: "q_quiet q" and pc: "q_clients q ! 0 = Z_query qu x"
    and inner: "x = Zq_base \<longrightarrow> p_clients (q_base q) ! 0 \<noteq> C_outside (Some False)"
    and step: "qclient_step 0 k q = Some q'"
  shows "(\<exists>y. q_clients q' ! 0 = Z_query qu y \<and>
      (y = Zq_base \<longrightarrow> p_clients (q_base q') ! 0 \<noteq> C_outside (Some False))) \<or>
    q_clients q' ! 0 = Z_outside (Some (A_bool (qu = Q_is_idle)))"
proof -
  have j': "0 < length (q_clients q')" using qclient_frame [OF step j] j by simp
  have ok: "q_clients q' ! 0 \<noteq> Z_threw"
    using client_facts(4) [OF qpool_inv_client_step [OF inv j step] j'] .
  have base: "0 < length (p_clients (q_base q))" by (rule client_facts(3) [OF inv j])
  have answer: "query_answer qu True = (qu = Q_is_idle)"
    by (cases qu) (simp_all add: query_answer_def)
  show ?thesis
  proof (cases x)
    case Zq_base
    with pc have "q_clients q ! 0 = Z_query qu Zq_base" by simp
    from inv j this step show ?thesis
    proof (cases rule: base_query)
      case (returned b)
      with inner Zq_base j answer show ?thesis by (cases b) (auto simp: qclient_return_def)
    next
      case (inside y p)
      have "in_use (q_base q)" "all_empty (q_base q)" "pool_inv (q_base q)"
        using live quiet qpool_invD(1) [OF inv] by (simp_all add: q_live_def q_quiet_def pool_good_def)
      from query_step_quiet [OF inside(2,1) base this] inside(3) pc Zq_base show ?thesis by auto
    qed
  qed (use pc step ok j base live quiet in \<open>auto simp: qclient_step_def qquery_step_def
      qclient_return_def q_live_def q_quiet_def client_call_at split: outcome.splits if_splits\<close>)
qed

text \<open>What the scan of the slots has seen, while the client holds the lock of the dispatcher.\<close>
definition scanned :: "qpool \<Rightarrow> bool" where
  "scanned q \<longleftrightarrow> q_queue q = [] \<and>
     (\<forall>i. p_clients (q_base q) ! 0 = C_query Q_is_idle (Q_scan i) \<longrightarrow> slots_empty i (q_base q)) \<and>
     (p_clients (q_base q) ! 0 = C_outside (Some True) \<longrightarrow> all_empty (q_base q))"

lemma scan_query:
  assumes inv: "qpool_inv q" and j: "0 < length (q_clients q)" and live: "q_live q"
    and pc: "q_clients q ! 0 = Z_query Q_is_idle x" and seen: "x = Zq_base \<longrightarrow> scanned q"
    and step: "qclient_step 0 k q = Some q'"
  shows "(\<exists>y. q_clients q' ! 0 = Z_query Q_is_idle y \<and> (y = Zq_base \<longrightarrow> scanned q')) \<or>
    q_clients q' ! 0 = Z_outside (Some (A_bool False)) \<or>
    q_clients q' ! 0 = Z_outside (Some (A_bool True)) \<and> q_queue q' = [] \<and> all_empty (q_base q')"
proof -
  have j': "0 < length (q_clients q')" using qclient_frame [OF step j] j by simp
  have ok: "q_clients q' ! 0 \<noteq> Z_threw"
    using client_facts(4) [OF qpool_inv_client_step [OF inv j step] j'] .
  have base: "0 < length (p_clients (q_base q))" by (rule client_facts(3) [OF inv j])
  show ?thesis
  proof (cases x)
    case Zq_base
    with pc have pc': "q_clients q ! 0 = Z_query Q_is_idle Zq_base" by simp
    from inv j pc' step show ?thesis
    proof (cases rule: base_query)
      case (returned b)
      with seen Zq_base j show ?thesis
        by (cases b) (auto simp: qclient_return_def scanned_def query_answer_def)
    next
      case (inside y p)
      have "p_tasks (q_base q) \<noteq> []" "pool_inv (q_base q)"
        using live qpool_invD(1) [OF inv] by (simp_all add: q_live_def in_use_def pool_good_def)
      moreover have "\<forall>i. y = Q_scan i \<longrightarrow> slots_empty i (q_base q)"
        using seen Zq_base inside(1) by (simp add: scanned_def)
      ultimately show ?thesis
        using scan_step [OF inside(2,1) base] inside(3) pc Zq_base seen
        by (auto simp: scanned_def)
    qed
  qed (use pc step ok j base live in \<open>auto simp: qclient_step_def qquery_step_def
      qclient_return_def q_live_def client_call_at scanned_def query_answer_def
      split: outcome.splits if_splits\<close>)
qed

section \<open>What the main thread knows\<close>

text \<open>
  Of the pool: there is none yet; it has no threads; it has none and is being destroyed; nobody
  uses it yet; the pushers may use it; the main thread is alone with it; alone, and no task is
  left; it may be terminated, and no task is left.
\<close>
datatype qknow =
  QK_before | QK_none | QK_gone | QK_fresh | QK_load | QK_alone | QK_quiet | QK_ended

text \<open>Of the answer of the last query: nothing; what it is; that a true one is right.\<close>
datatype qknown = QA_any | QA_is bool | QA_exact

definition qx_known :: "qknow \<Rightarrow> query \<Rightarrow> qknown" where
  "qx_known k qu =
     (if k \<in> {QK_fresh, QK_quiet} then QA_is (qu = Q_is_idle)
      else if k = QK_alone \<and> qu = Q_is_idle then QA_exact else QA_any)"

text \<open>The parameters are the threads and the stack size, the pushers, and the tasks made so far.\<close>
fun qx_checks :: "nat \<Rightarrow> nat \<Rightarrow> nat \<Rightarrow> nat \<Rightarrow> qknow \<Rightarrow> qknown \<Rightarrow> qx_stmt list \<Rightarrow> bool" where
  "qx_checks t st n i k a (QX_new t' st' # rest) =
     (k = QK_before \<and> t' = t \<and> st' = st \<and> (t = 0 \<longrightarrow> n = 0) \<and>
      qx_checks t st n i (if t = 0 then QK_none else if n = 0 then QK_quiet else QK_fresh) QA_any rest)"
| "qx_checks t st n i k a (QX_size m t' # rest) =
     (m = 0 \<and> t' = (if k = QK_none then 0 else t) \<and> k \<in> {QK_none, QK_fresh, QK_quiet} \<and>
      qx_checks t st n i k a rest)"
| "qx_checks t st n i k a (QX_stack_size m st' # rest) =
     (m = 0 \<and> st' = st \<and> k \<noteq> QK_before \<and> qx_checks t st n i k a rest)"
| "qx_checks t st n i k a (QX_query m qu # rest) =
     (m = 0 \<and> k \<notin> {QK_before, QK_gone} \<and> qx_checks t st n i k (qx_known k qu) rest)"
| "qx_checks t st n i k a (QX_length m # rest) =
     (m = 0 \<and> k \<notin> {QK_before, QK_gone} \<and> qx_checks t st n i k QA_any rest)"
| "qx_checks t st n i k a (QX_expect b # rest) = (a = QA_is b \<and> qx_checks t st n i k a rest)"
| "qx_checks t st n i k a (QX_count_down # rest) = (k = QK_fresh \<and> qx_checks t st n i QK_load QA_any rest)"
| "qx_checks t st n i k a (QX_await # rest) = (k = QK_load \<and> qx_checks t st n i QK_alone QA_any rest)"
| "qx_checks t st n i k a (QX_execute m # rest) =
     (m = 0 \<and> k \<in> {QK_none, QK_alone, QK_quiet} \<and>
      qx_checks t st n (Suc i) (if k = QK_none then QK_none else QK_alone) QA_any rest)"
| "qx_checks t st n i k a (QX_loop b m qu body # rest) =
     (\<not> b \<and> m = 0 \<and> qu = Q_is_idle \<and> (\<forall>x \<in> set body. x = QX_length 0) \<and> k = QK_alone \<and>
      a = QA_exact \<and> qx_checks t st n i QK_quiet (QA_is True) rest)"
| "qx_checks t st n i k a (QX_terminate m # rest) =
     (m = 0 \<and> k = QK_quiet \<and> qx_checks t st n i QK_ended QA_any rest)"
| "qx_checks t st n i k a (QX_destroy m # rest) =
     (m = 0 \<and> k \<in> {QK_none, QK_quiet, QK_ended} \<and>
      qx_checks t st n i (if k = QK_none then QK_gone else QK_ended) QA_any rest)"
| "qx_checks t st n i k a (QX_task_count # rest) =
     (k \<in> {QK_quiet, QK_ended, QK_gone} \<and> qx_checks t st n i k QA_any rest)"
| "qx_checks t st n i k a (QX_run_count e # rest) =
     ((k \<in> {QK_quiet, QK_ended} \<and> e = i + n \<or> k \<in> {QK_none, QK_gone} \<and> e = 0) \<and>
      qx_checks t st n i k QA_any rest)"
| "qx_checks t st n i k a [] = True"

lemma replicate_numeral: "replicate (numeral m) x = x # replicate (pred_numeral m) x"
  by (simp add: numeral_eq_Suc)

text \<open>The tests with one pool are checked.\<close>
lemma queued_tests_checked:
  "0 < t \<Longrightarrow> 0 < n \<Longrightarrow> qx_checks t st n 0 QK_before QA_any (queued_busy_test t st n)"
  "qx_checks 1 default_stacksize 0 0 QK_before QA_any queued_test"
  "qx_checks 1 default_stacksize 0 0 QK_before QA_any queued_load_test"
  "qx_checks 0 131072 0 0 QK_before QA_any queued_interface_test"
  by (simp_all add: queued_busy_test_def queued_test_def queued_load_test_def
      queued_interface_test_def until_idle_def qx_known_def replicate_numeral)

text \<open>The body of a loop, which only asks for the length of the queue.\<close>
lemma checks_body:
  "\<forall>x \<in> set body. x = QX_length 0 \<Longrightarrow> k \<notin> {QK_before, QK_gone} \<Longrightarrow>
     qx_checks t st n i k QA_any rest \<Longrightarrow> qx_checks t st n i k QA_any (body @ rest)"
  by (induction body) auto

section \<open>What it means\<close>

text \<open>The pool of a test: its shape, the tasks it has been given, and where the pushers are.\<close>
definition pool_fits :: "nat \<Rightarrow> nat \<Rightarrow> nat \<Rightarrow> pusher list \<Rightarrow> qpool \<Rightarrow> bool" where
  "pool_fits t st i us q \<longleftrightarrow> qpool_inv q \<and> length (q_clients q) = Suc (length us) \<and>
     (p_tasks (q_base q) = [] \<or> length (p_tasks (q_base q)) = t) \<and> p_stack (q_base q) = st \<and>
     size (q_submitted q) = i + length (filter (\<lambda>u. u \<noteq> PU_latch) us) \<and>
     (\<forall>j < length us. (\<exists>r. q_clients q ! Suc j = Z_outside r) \<or>
        us ! j = PU_execute \<and> (\<exists>x. q_clients q ! Suc j = Z_execute x))"

lemma pool_fitsD:
  assumes "pool_fits t st i us q"
  shows "qpool_inv q" and "length (q_clients q) = Suc (length us)"
    and "p_tasks (q_base q) = [] \<or> length (p_tasks (q_base q)) = t" and "p_stack (q_base q) = st"
    and "size (q_submitted q) = i + length (filter (\<lambda>u. u \<noteq> PU_latch) us)"
    and "j < length us \<Longrightarrow> (\<exists>r. q_clients q ! Suc j = Z_outside r) \<or>
        us ! j = PU_execute \<and> (\<exists>x. q_clients q ! Suc j = Z_execute x)"
  using assms by (simp_all add: pool_fits_def)

text \<open>What \<open>qx_checks\<close> has found out about the pool and the pushers.\<close>
definition pool_phase :: "qknow \<Rightarrow> nat \<Rightarrow> pusher list \<Rightarrow> qpool \<Rightarrow> bool" where
  "pool_phase k start us q \<longleftrightarrow>
     (case k of
        QK_before \<Rightarrow> False
      | QK_none \<Rightarrow> us = [] \<and> p_tasks (q_base q) = [] \<and> p_finished (q_base q) = {#}
      | QK_gone \<Rightarrow> us = [] \<and> p_tasks (q_base q) = [] \<and> p_finished (q_base q) = {#} \<and>
          (case q_clients q ! 0 of
             Z_outside r \<Rightarrow> q_queue q = []
           | Z_terminate d x \<Rightarrow> d \<and> (x = Z_last \<longrightarrow> q_queue q = [])
           | _ \<Rightarrow> False)
      | QK_fresh \<Rightarrow> start = 1 \<and> (\<forall>u \<in> set us. u = PU_latch) \<and> q_live q \<and> q_quiet q
      | QK_load \<Rightarrow> start = 0 \<and> q_live q
      | QK_alone \<Rightarrow> (\<forall>u \<in> set us. u = PU_end) \<and> q_live q
      | QK_quiet \<Rightarrow> (\<forall>u \<in> set us. u = PU_end) \<and> q_live q \<and> q_quiet q
      | QK_ended \<Rightarrow> (\<forall>u \<in> set us. u = PU_end) \<and> q_quiet q)"

definition pool_answers :: "qknow \<Rightarrow> qknown \<Rightarrow> qpool \<Rightarrow> bool" where
  "pool_answers k a q \<longleftrightarrow>
     (case a of
        QA_any \<Rightarrow> True
      | QA_is b \<Rightarrow> k \<in> {QK_fresh, QK_quiet} \<and>
          (case q_clients q ! 0 of
             Z_outside r \<Rightarrow> r = Some (A_bool b)
           | Z_query qu x \<Rightarrow> b = (qu = Q_is_idle) \<and>
               (x = Zq_base \<longrightarrow> p_clients (q_base q) ! 0 \<noteq> C_outside (Some False))
           | _ \<Rightarrow> False)
      | QA_exact \<Rightarrow> k = QK_alone \<and>
          (case q_clients q ! 0 of
             Z_outside r \<Rightarrow> r = Some (A_bool False) \<or> r = Some (A_bool True) \<and> q_quiet q
           | Z_query qu x \<Rightarrow> qu = Q_is_idle \<and> (x = Zq_base \<longrightarrow> scanned q)
           | _ \<Rightarrow> False))"

definition qx_inv :: "nat \<Rightarrow> nat \<Rightarrow> nat \<Rightarrow> queued_test_state \<Rightarrow> bool" where
  "qx_inv t st n s \<longleftrightarrow> \<not> qx_failed s \<and> length (qx_pushers s) = n \<and> qx_at s = 0 \<and>
     qx_completion s = length (filter (\<lambda>u. u \<noteq> PU_end) (qx_pushers s)) \<and>
     (\<exists>k a. qx_checks t st n (qx_i s) k a (qx_rest s) \<and>
        (k = QK_before \<and> a = QA_any \<and> qx_pools s = [] \<and> qx_i s = 0 \<and> qx_start s = 1 \<and>
           (\<forall>u \<in> set (qx_pushers s). u = PU_latch) \<or>
         (\<exists>q. qx_pools s = [q] \<and> pool_fits t st (qx_i s) (qx_pushers s) q \<and>
            pool_phase k (qx_start s) (qx_pushers s) q \<and> pool_answers k a q)))"

section \<open>The steps of the pool\<close>

lemma fits_step:
  assumes fits: "pool_fits t st i us q" and step: "qpool_step q l = Some q'" and l: "\<not> is_qcall l"
  shows "pool_fits t st i us q'"
proof -
  note D = pool_fitsD [OF fits]
  have "(\<exists>r. q_clients q' ! Suc j = Z_outside r) \<or>
        us ! j = PU_execute \<and> (\<exists>x. q_clients q' ! Suc j = Z_execute x)" if j: "j < length us" for j
  proof -
    have len: "Suc j < length (q_clients q)" using D(2) j by simp
    from qinternal_client [OF step l len] show ?thesis
    proof
      assume "\<exists>k. qclient_step (Suc j) k q = Some q'"
      then obtain k where k: "qclient_step (Suc j) k q = Some q'" ..
      then obtain x where "q_clients q ! Suc j = Z_execute x" using D(6) [OF j] by auto
      from execute_returns [OF D(1) len this k] show ?thesis by simp
    qed (use D(6) [OF j] in simp)
  qed
  then show ?thesis
    using D(2-5) qpool_inv_step [OF D(1) step] qinternal_frame [OF step l]
    by (auto simp: pool_fits_def)
qed

text \<open>The client that is alone with a pool without threads and destroys it.\<close>
lemma gone_step:
  assumes fits: "pool_fits t st i [] q" and gone: "pool_phase QK_gone start [] q"
    and step: "qpool_step q l = Some q'" and l: "\<not> is_qcall l"
  shows "pool_phase QK_gone start [] q'"
proof -
  note D = pool_fitsD [OF fits]
  have j: "0 < length (q_clients q)" using D(2) by simp
  have none: "p_tasks (q_base q) = []" "p_finished (q_base q) = {#}"
    using gone by (simp_all add: pool_phase_def)
  have j': "0 < length (q_clients q')" using qinternal_frame [OF step l] j by simp
  have ok: "q_clients q' ! 0 \<noteq> Z_threw"
    by (rule client_facts(4) [OF qpool_inv_step [OF D(1) step] j'])
  have "case q_clients q' ! 0 of Z_outside r \<Rightarrow> q_queue q' = []
           | Z_terminate d x \<Rightarrow> d \<and> (x = Z_last \<longrightarrow> q_queue q' = []) | _ \<Rightarrow> False"
    using step l
  proof (cases rule: qinternal_cases)
    case (client i k)
    then have i: "i = 0" using D(2) by simp
    from client gone obtain d x where pc: "q_clients q ! 0 = Z_terminate d x" "d"
        "x = Z_last \<longrightarrow> q_queue q = []"
      by (auto simp: i pool_phase_def qclient_step_def split: qclient_pc.splits)
    have "qterminate_step 0 k d x q = Some q'" using client(2) pc(1) by (simp add: i qclient_step_def)
    then show ?thesis
      using pc ok j
      by (cases x) (auto simp: qterminate_step_def qclient_return_def empty_queue_def
          dest!: base_step_frame split: outcome.splits client_pc.splits if_splits)
  next
    case (dispatcher k)
    have "q_queue q' = [] \<or> q_queue q \<noteq> []"
      using dispatcher qpool_invD(3) [OF D(1)]
      by (cases "q_dispatcher q")
        (auto simp: dispatcher_step_def dispatcher_wait_def dispatcher_resume_def
          split: outcome.splits prod.splits if_splits)
    then show ?thesis
      using dispatcher_base [OF dispatcher] gone
      by (auto simp: pool_phase_def split: qclient_pc.splits)
  next
    case (background s p)
    then show ?thesis using gone by (auto simp: pool_phase_def split: qclient_pc.splits)
  qed
  then show ?thesis
    using none qinternal_frame [OF step l] by (auto simp: pool_phase_def)
qed

lemma phase_step:
  assumes fits: "pool_fits t st i us q" and ph: "pool_phase k start us q"
    and step: "qpool_step q l = Some q'" and l: "\<not> is_qcall l"
  shows "pool_phase k start us q'"
proof (cases "k = QK_gone")
  case True
  then have "us = []" using ph by (simp add: pool_phase_def)
  with True gone_step [OF _ _ step l] fits ph show ?thesis by blast
next
  case False
  note inv = pool_fitsD(1) [OF fits]
  show ?thesis
    using ph False qinternal_frame [OF step l] live_step [OF inv step l] quiet_step [OF inv step l]
    by (cases k) (auto simp: pool_phase_def)
qed

text \<open>A pusher that is not in \<open>execute\<close> is outside the pool.\<close>
lemma pusher_out:
  assumes fits: "pool_fits t st i us q" and ended: "\<forall>u \<in> set us. u = PU_end"
    and j: "j < length (q_clients q)" "j \<noteq> 0"
  shows "\<exists>r. q_clients q ! j = Z_outside r"
proof -
  obtain m where m: "j = Suc m" "m < length us" using j pool_fitsD(2) [OF fits] by (cases j) auto
  have "us ! m = PU_end" using ended nth_mem [OF m(2)] by blast
  with pool_fitsD(6) [OF fits m(2)] m(1) show ?thesis by simp
qed

lemma qinternal_at:
  assumes "qpool_step q l = Some q'" and "\<not> is_qcall l" and "j < length (q_clients q)"
  shows "(\<exists>k. qclient_step j k q = Some q') \<or>
    q_clients q' ! j = q_clients q ! j \<and> p_clients (q_base q') ! j = p_clients (q_base q) ! j"
  using assms(1,2)
proof (cases rule: qinternal_cases)
  case (client i k)
  show ?thesis
  proof (cases "i = j")
    case False
    from qclient_base [OF client(2)]
    have "p_clients (q_base q') ! j = p_clients (q_base q) ! j"
      by (elim disjE exE) (use False client_step_fields [of i k "q_base q"] in
        \<open>auto simp: any_call_fields\<close>)
    with False qclient_frame [OF client(2,1)] show ?thesis by simp
  qed (use client in blast)
next
  case (dispatcher k)
  from dispatcher_base [OF this] show ?thesis by (auto simp: pool_upd)
next
  case (background s p)
  from background(2) have "p_clients p = p_clients (q_base q)" by (auto elim: backgroundE)
  with background(1) show ?thesis by simp
qed

text \<open>Nothing is left when the main thread is alone with the pool and finds it empty.\<close>
lemma alone_quiet:
  assumes fits: "pool_fits t st i us q" and ended: "\<forall>u \<in> set us. u = PU_end" and live: "q_live q"
    and out: "\<not> executing (q_clients q ! 0)" and empty: "q_queue q = []" "all_empty (q_base q)"
  shows "q_quiet q"
proof -
  note D = pool_fitsD [OF fits]
  have "\<not> executing (q_clients q ! j)" if "j < length (q_clients q)" for j
    using pusher_out [OF fits ended that] out by (cases "j = 0") (auto simp: executing_def)
  moreover have "p_discarded (q_base q) = {#}"
    using in_use_discarded qpool_invD(1) [OF D(1)] live by (simp add: q_live_def)
  ultimately show ?thesis using live empty by (simp add: q_quiet_def q_live_def)
qed

text \<open>What a scan has seen stays so while its client holds the lock and the others are outside.\<close>
lemma scanned_step:
  assumes fits: "pool_fits t st i us q" and ended: "\<forall>u \<in> set us. u = PU_end"
    and pc: "q_clients q ! 0 = Z_query qu Zq_base" and seen: "scanned q"
    and step: "qpool_step q l = Some q'" and l: "\<not> is_qcall l"
    and still: "\<And>k. qclient_step 0 k q \<noteq> Some q'"
  shows "scanned q'"
  using step l
proof (cases rule: qinternal_cases)
  case (client j k)
  have "j \<noteq> 0" using client(2) still by metis
  with pusher_out [OF fits ended client(1)] obtain r where "q_clients q ! j = Z_outside r" by blast
  with client(2) show ?thesis by simp
next
  case (dispatcher k)
  note D = pool_fitsD [OF fits]
  have "monitor (q_sync q) = Some (Client 0)" using client_lock [OF D(1), of 0] D(2) pc by simp
  with dispatcher dispatcher_blocked [OF D(1)] show ?thesis by simp
next
  case (background s p)
  have "all_empty p" if "all_empty (q_base q)" using background_empty [OF background(2) that] by simp
  moreover have "p_clients p = p_clients (q_base q)" using background(2) by (auto elim: backgroundE)
  ultimately show ?thesis
    using seen background(1) background_slots [OF background(2)] by (auto simp: scanned_def)
qed

lemma answers_step:
  assumes fits: "pool_fits t st i us q" and ph: "pool_phase k start us q"
    and ans: "pool_answers k a q" and step: "qpool_step q l = Some q'" and l: "\<not> is_qcall l"
  shows "pool_answers k a q'"
proof (cases "a = QA_any")
  case False
  note D = pool_fitsD [OF fits]
  have j: "0 < length (q_clients q)" using D(2) by simp
  note fits' = fits_step [OF fits step l]
  show ?thesis
  proof (cases "q_clients q ! 0")
    case (Z_outside r)
    then have "q_clients q' ! 0 = Z_outside r" using qinternal_client [OF step l j] by simp
    with ans Z_outside quiet_step [OF D(1) step l] show ?thesis
      by (auto simp: pool_answers_def split: qknown.splits)
  next
    case (Z_query qu x)
    show ?thesis
    proof (cases "\<exists>m. qclient_step 0 m q = Some q'")
      case True
      then obtain m where m: "qclient_step 0 m q = Some q'" ..
      show ?thesis
      proof (cases a)
        case (QA_is b)
        with ans Z_query have k: "k \<in> {QK_fresh, QK_quiet}" and b: "b = (qu = Q_is_idle)"
          and x: "x = Zq_base \<longrightarrow> p_clients (q_base q) ! 0 \<noteq> C_outside (Some False)"
          by (auto simp: pool_answers_def)
        have "q_live q" "q_quiet q" using ph k by (auto simp: pool_phase_def)
        from quiet_query [OF D(1) j this Z_query x m] k b QA_is show ?thesis
          by (auto simp: pool_answers_def)
      next
        case QA_exact
        with ans Z_query have k: "k = QK_alone" and qu: "qu = Q_is_idle"
          and x: "x = Zq_base \<longrightarrow> scanned q" by (auto simp: pool_answers_def)
        have live: "q_live q" "\<forall>u \<in> set us. u = PU_end" using ph k by (auto simp: pool_phase_def)
        have "q_quiet q'" if "q_clients q' ! 0 = Z_outside r'" "q_queue q' = []" "all_empty (q_base q')"
          for r' using alone_quiet [OF fits' live(2) live_step [OF D(1) step l live(1)]] that
          by (simp add: executing_def)
        with scan_query [OF D(1) j live(1) Z_query [unfolded qu] x m] k QA_exact show ?thesis
          by (auto simp: pool_answers_def)
      qed (use False in simp)
    next
      case False
      with qinternal_at [OF step l j] have same: "q_clients q' ! 0 = q_clients q ! 0"
        "p_clients (q_base q') ! 0 = p_clients (q_base q) ! 0" by blast+
      show ?thesis
      proof (cases "a = QA_exact \<and> x = Zq_base")
        case True
        with ans Z_query have k: "k = QK_alone" and seen: "scanned q" by (auto simp: pool_answers_def)
        have "\<forall>u \<in> set us. u = PU_end" using ph k by (auto simp: pool_phase_def)
        from scanned_step [OF fits this _ seen step l] False Z_query True
        have "scanned q'" by blast
        with ans same Z_query True show ?thesis by (auto simp: pool_answers_def)
      qed (use ans same Z_query False in \<open>auto simp: pool_answers_def split: qknown.splits\<close>)
    qed
  qed (use ans False in \<open>auto simp: pool_answers_def split: qknown.splits\<close>)
qed (simp add: pool_answers_def)

section \<open>The steps of the threads of a test\<close>

lemma call_fields [simp]:
  "q_base (qclient_call j c q) = q_base q" "q_queue (qclient_call j c q) = q_queue q"
  "q_go (qclient_call j c q) = q_go q" "q_thread (qclient_call j c q) = q_thread q"
  "q_dropped (qclient_call j c q) = q_dropped q"
  "q_submitted (qclient_call j c q) =
     q_submitted q + (case c of Qdo_execute t \<Rightarrow> ptr_tasks t | _ \<Rightarrow> {#})"
  "q_clients (qclient_call j c q) = (q_clients q)[j :=
     (case c of Qdo_execute t \<Rightarrow> Z_execute t | Qdo_length \<Rightarrow> Z_length
      | Qdo_query qu \<Rightarrow> Z_query qu Zq_enter | Qdo_terminate \<Rightarrow> Z_terminate False Z_enter
      | Qdo_destroy \<Rightarrow> Z_terminate True Z_enter)]"
  by (auto simp: qclient_call_def split: qpool_call.splits)

lemma fits_main_call:
  assumes "pool_fits t st i us q" and "q_clients q ! 0 = Z_outside r"
  shows "pool_fits t st (i + (case c of Qdo_execute (Some x) \<Rightarrow> 1 | _ \<Rightarrow> 0)) us (qclient_call 0 c q)"
  using pool_fitsD [OF assms(1)] qinv_call [OF pool_fitsD(1) [OF assms(1)] _ assms(2)]
  by (auto simp: pool_fits_def nth_Cons' nth_list_update split: qpool_call.splits option.splits)

lemma live_call:
  "q_live q \<Longrightarrow> j < length (q_clients q) \<Longrightarrow> c \<noteq> Qdo_terminate \<Longrightarrow> c \<noteq> Qdo_destroy \<Longrightarrow>
     q_live (qclient_call j c q)"
  by (auto simp: q_live_def terminating_def nth_list_update split: qpool_call.splits)

lemma quiet_call:
  "q_quiet q \<Longrightarrow> j < length (q_clients q) \<Longrightarrow> \<forall>x. c \<noteq> Qdo_execute x \<Longrightarrow>
     q_quiet (qclient_call j c q)"
  by (auto simp: q_quiet_def executing_def nth_list_update split: qpool_call.splits)

text \<open>Where the tasks are when none is left.\<close>
lemma nothing_left:
  assumes fits: "pool_fits t st i us q" and ended: "\<forall>u \<in> set us. u = PU_end"
    and out: "q_clients q ! 0 = Z_outside r" and queue: "q_queue q = []"
    and slots: "all_empty (q_base q) \<or> p_tasks (q_base q) = []"
  shows "q_submitted q = p_finished (q_base q) + p_discarded (q_base q) + q_dropped q"
proof -
  have "owned tm_held (p_tasks (q_base q)) = {#}"
    using slots by (intro owned_all_empty)
      (auto simp: all_empty_def slots_empty_def tm_held_def in_set_conv_nth)
  moreover have "owned q_in_flight (q_clients q) = {#}"
  proof (rule owned_all_empty)
    fix j assume j: "j < length (q_clients q)"
    show "q_in_flight (q_clients q ! j) = {#}"
      using pusher_out [OF fits ended j] out by (cases "j = 0") auto
  qed
  ultimately show ?thesis
    using qpool_inv_accounted [OF pool_fitsD(1) [OF fits]] queue by simp
qed

lemma counts_left:
  assumes s: "qx_pools s = [q]" and fits: "pool_fits t st (qx_i s) (qx_pushers s) q"
    and ph: "pool_phase k start (qx_pushers s) q" and out: "q_clients q ! 0 = Z_outside r"
  shows "k \<in> {QK_quiet, QK_ended, QK_gone} \<Longrightarrow> qx_task_count s = 0"
    and "k \<in> {QK_quiet, QK_ended} \<Longrightarrow> qx_run_count s = qx_i s + length (qx_pushers s)"
    and "k \<in> {QK_none, QK_gone} \<Longrightarrow> qx_run_count s = 0"
proof -
  note left = nothing_left [OF fits _ out]
  note made = pool_fitsD(5) [OF fits]
  show "qx_task_count s = 0" if "k \<in> {QK_quiet, QK_ended, QK_gone}"
  proof -
    have "q_submitted q = p_finished (q_base q) + p_discarded (q_base q) + q_dropped q"
      using that ph out by (intro left) (auto simp: pool_phase_def q_quiet_def)
    then have "qx_constructed s = size (p_finished (q_base q) + p_discarded (q_base q) + q_dropped q)"
      using made by (simp add: qx_constructed_def)
    then show ?thesis using s by (simp add: qx_task_count_def)
  qed
  show "qx_run_count s = qx_i s + length (qx_pushers s)" if "k \<in> {QK_quiet, QK_ended}"
  proof -
    have ended: "\<forall>u \<in> set (qx_pushers s). u = PU_end" and quiet: "q_quiet q"
      using that ph by (auto simp: pool_phase_def)
    then have "q_submitted q = p_finished (q_base q)"
      using left [OF ended] by (auto simp: q_quiet_def)
    moreover have "filter (\<lambda>u. u \<noteq> PU_latch) (qx_pushers s) = qx_pushers s"
      using ended by (auto intro!: filter_True)
    ultimately show ?thesis using made s by (simp add: qx_run_count_def)
  qed
  show "qx_run_count s = 0" if "k \<in> {QK_none, QK_gone}"
    using that ph s by (auto simp: qx_run_count_def pool_phase_def)
qed

lemma qx_invI:
  assumes "\<not> qx_failed s" and "length (qx_pushers s) = n" and "qx_at s = 0"
    and "qx_completion s = length (filter (\<lambda>u. u \<noteq> PU_end) (qx_pushers s))"
    and "qx_pools s = [q]" and "qx_checks t st n (qx_i s) k a (qx_rest s)"
    and "pool_fits t st (qx_i s) (qx_pushers s) q"
    and "pool_phase k (qx_start s) (qx_pushers s) q" and "pool_answers k a q"
  shows "qx_inv t st n s"
  using assms unfolding qx_inv_def by blast

lemma qx_pool_inv:
  assumes inv: "qx_inv t st n s" and step: "qx_step s (QX_pool m l) = Some s'"
  shows "qx_inv t st n s'"
proof -
  from step obtain q' where l: "\<not> is_qcall l" and m: "m < length (qx_pools s)"
    and q': "qpool_step (qx_pools s ! m) l = Some q'" and s': "s' = s\<lparr>qx_pools := (qx_pools s)[m := q']\<rparr>"
    by (auto simp: qx_step_def split: if_splits)
  from inv m obtain k a q where c: "qx_checks t st n (qx_i s) k a (qx_rest s)" and s: "qx_pools s = [q]"
    and fits: "pool_fits t st (qx_i s) (qx_pushers s) q"
    and ph: "pool_phase k (qx_start s) (qx_pushers s) q" and ans: "pool_answers k a q"
    by (auto simp: qx_inv_def)
  have q: "qpool_step q l = Some q'" and pools: "qx_pools s' = [q']" using m q' s by (simp_all add: s')
  show ?thesis
    by (rule qx_invI [of _ _ q' t st k a])
      (use inv c pools fits_step [OF fits q l] phase_step [OF fits ph q l]
          answers_step [OF fits ph ans q l] in \<open>simp_all add: s' qx_inv_def\<close>)
qed

text \<open>What is known behind a call of the main thread.\<close>
lemma phase_call:
  assumes ph: "pool_phase k start us q" and out: "q_clients q ! 0 = Z_outside r"
    and j: "0 < length (q_clients q)"
  shows "k \<notin> {QK_before, QK_gone} \<Longrightarrow> pool_phase k start us (qclient_call 0 (Qdo_query qu) q)"
    and "k \<notin> {QK_before, QK_gone} \<Longrightarrow> pool_phase k start us (qclient_call 0 Qdo_length q)"
    and "k \<in> {QK_none, QK_alone, QK_quiet} \<Longrightarrow>
      pool_phase (if k = QK_none then QK_none else QK_alone) start us (qclient_call 0 (Qdo_execute x) q)"
    and "k = QK_quiet \<Longrightarrow> pool_phase QK_ended start us (qclient_call 0 Qdo_terminate q)"
    and "k \<in> {QK_none, QK_quiet, QK_ended} \<Longrightarrow>
      pool_phase (if k = QK_none then QK_gone else QK_ended) start us (qclient_call 0 Qdo_destroy q)"
  using ph out j by (cases k; simp add: pool_phase_def live_call quiet_call)+

lemma answers_call:
  assumes "0 < length (q_clients q)"
  shows "pool_answers k (qx_known k qu) (qclient_call 0 (Qdo_query qu) q)"
  using assms by (auto simp: pool_answers_def qx_known_def)

lemma answers_any [simp]: "pool_answers k QA_any q"
  by (simp add: pool_answers_def)

lemma qx_main_inv:
  assumes inv: "qx_inv t st n s" and q: "qx_pools s = [q]" and out: "q_clients q ! 0 = Z_outside r"
    and step: "qx_main_stmt r (qx_rest s) s = Some s'"
  shows "qx_inv t st n s'"
proof -
  from inv q obtain k a where c: "qx_checks t st n (qx_i s) k a (qx_rest s)"
    and fits: "pool_fits t st (qx_i s) (qx_pushers s) q"
    and ph: "pool_phase k (qx_start s) (qx_pushers s) q" and ans: "pool_answers k a q"
    and ok: "\<not> qx_failed s" "length (qx_pushers s) = n" "qx_at s = 0"
      "qx_completion s = length (filter (\<lambda>u. u \<noteq> PU_end) (qx_pushers s))"
    by (auto simp: qx_inv_def)
  have j: "0 < length (q_clients q)" using pool_fitsD(2) [OF fits] by simp
  have call: "qx_inv t st n ((qx_call 0 c rest s)\<lparr>qx_i := i\<rparr>)"
    if "qx_checks t st n i k' a' rest"
      "i = qx_i s + (case c of Qdo_execute (Some x) \<Rightarrow> 1 | _ \<Rightarrow> 0)"
      "pool_phase k' (qx_start s) (qx_pushers s) (qclient_call 0 c q)"
      "pool_answers k' a' (qclient_call 0 c q)" for c rest i k' a'
    by (rule qx_invI [of _ _ "qclient_call 0 c q" t st k' a'])
      (use that ok q fits_main_call [OF fits out, of c] in \<open>simp_all add: qx_call_def\<close>)
  have plain: "qx_inv t st n ((qx_call 0 c rest s))"
    if "qx_checks t st n (qx_i s) k' a' rest" "\<forall>x. c \<noteq> Qdo_execute x"
      "pool_phase k' (qx_start s) (qx_pushers s) (qclient_call 0 c q)"
      "pool_answers k' a' (qclient_call 0 c q)" for c rest k' a'
    using call [OF that(1) _ that(3,4)] that(2) by (cases c) (simp_all add: qx_call_def)
  have quietly: "qx_inv t st n s'"
    if "qx_pools s' = qx_pools s" "qx_at s' = qx_at s" "qx_completion s' = qx_completion s"
      "qx_pushers s' = qx_pushers s" "qx_i s' = qx_i s" "\<not> qx_failed s'"
      "qx_checks t st n (qx_i s) k' a' (qx_rest s')"
      "pool_phase k' (qx_start s') (qx_pushers s) q" "pool_answers k' a' q" for k' a'
    by (rule qx_invI [of _ _ q t st k' a']) (use that ok q fits in simp_all)
  note calls = phase_call [OF ph out j]
  note counts = counts_left [OF q fits ph out]
  show ?thesis
  proof (cases "(r, qx_rest s, s)" rule: qx_main_stmt.cases)
    case (1 r1 n1 st1 rest s1)
    with c ph show ?thesis by (auto simp: pool_phase_def)
  next
    case (2 r1 m n1 rest s1)
    moreover have "length (p_tasks (q_base q)) = (if k = QK_none then 0 else t)"
      if "k \<in> {QK_none, QK_fresh, QK_quiet}"
      using that ph pool_fitsD(3) [OF fits] by (auto simp: pool_phase_def q_live_def in_use_def)
    ultimately show ?thesis using c step ok q ph ans
      by (intro quietly [of k a]) (auto simp: qx_check_def)
  next
    case (3 r1 m st1 rest s1)
    with c step ok q pool_fitsD(4) [OF fits] ph ans show ?thesis
      by (intro quietly [of k a]) (auto simp: qx_check_def)
  next
    case (4 r1 m qu rest s1)
    with c have "s' = qx_call 0 (Qdo_query qu) rest s" "k \<notin> {QK_before, QK_gone}"
      "qx_checks t st n (qx_i s) k (qx_known k qu) rest" using step by auto
    with calls(1) [of qu] answers_call [OF j, of k qu] plain [of k "qx_known k qu" rest "Qdo_query qu"]
    show ?thesis by simp
  next
    case (5 r1 m rest s1)
    with c have "s' = qx_call 0 Qdo_length rest s" "k \<notin> {QK_before, QK_gone}"
      "qx_checks t st n (qx_i s) k QA_any rest" using step by auto
    with calls(2) plain [of k QA_any rest Qdo_length] show ?thesis by simp
  next
    case (6 r1 b rest s1)
    with c step ok q ph ans out show ?thesis
      by (intro quietly [of k a]) (auto simp: qx_check_def pool_answers_def)
  next
    case (7 r1 rest s1)
    with c step ok ph show ?thesis
      by (intro quietly [of QK_load QA_any]) (auto simp: pool_phase_def)
  next
    case (8 r1 rest s1)
    then have rest: "qx_rest s = QX_await # rest" by auto
    then have "filter (\<lambda>u. u \<noteq> PU_end) (qx_pushers s) = []" using step ok by (auto split: if_splits)
    then have "\<forall>u \<in> set (qx_pushers s). u = PU_end" by (auto simp: filter_empty_conv)
    moreover have "s' = s\<lparr>qx_rest := rest\<rparr>" using step rest by (simp split: if_splits)
    ultimately show ?thesis using rest c ok ph
      by (intro quietly [of QK_alone QA_any]) (auto simp: pool_phase_def)
  next
    case (9 r1 m rest s1)
    let ?k = "if k = QK_none then QK_none else QK_alone"
    from 9 c have s': "s' = (qx_call 0 (Qdo_execute (Some (qx_i s))) rest s)\<lparr>qx_i := Suc (qx_i s)\<rparr>"
      and k: "k \<in> {QK_none, QK_alone, QK_quiet}" and checked: "qx_checks t st n (Suc (qx_i s)) ?k QA_any rest"
      using step by auto
    show ?thesis unfolding s' by (rule call [OF checked _ calls(3) [OF k]]) simp_all
  next
    case (10 r1 b m qu body rest s1)
    then have rest: "qx_rest s = QX_loop b m qu body # rest" by auto
    with c have loop: "\<not> b" "m = 0" "qu = Q_is_idle" "\<forall>x \<in> set body. x = QX_length 0"
      "k = QK_alone" "a = QA_exact" "qx_checks t st n (qx_i s) QK_quiet (QA_is True) rest" by auto
    have ended: "\<forall>u \<in> set (qx_pushers s). u = PU_end" and live: "q_live q"
      using ph loop(5) by (auto simp: pool_phase_def)
    show ?thesis
    proof (cases "r = Some (A_bool False)")
      case True
      have "qx_checks t st n (qx_i s) QK_alone QA_any (body @ QX_query 0 Q_is_idle # QX_loop b m qu body # rest)"
        using loop by (intro checks_body) (simp_all add: qx_known_def)
      with True rest step loop ph ok show ?thesis
        by (intro quietly [of QK_alone QA_any]) auto
    next
      case False
      then have "q_quiet q \<and> r = Some (A_bool True)"
        using ans out loop(6) by (auto simp: pool_answers_def)
      with False rest step loop ended live ok out show ?thesis
        by (intro quietly [of QK_quiet "QA_is True"]) (auto simp: pool_phase_def pool_answers_def)
    qed
  next
    case (11 r1 m rest s1)
    with c have "s' = qx_call 0 Qdo_terminate rest s" "k = QK_quiet"
      "qx_checks t st n (qx_i s) QK_ended QA_any rest" using step by auto
    with calls(4) plain [of QK_ended QA_any rest Qdo_terminate] show ?thesis by simp
  next
    case (12 r1 m rest s1)
    let ?k = "if k = QK_none then QK_gone else QK_ended"
    from 12 c have s': "s' = qx_call 0 Qdo_destroy rest s" and k: "k \<in> {QK_none, QK_quiet, QK_ended}"
      and checked: "qx_checks t st n (qx_i s) ?k QA_any rest" using step by auto
    show ?thesis unfolding s' by (rule plain [OF checked _ calls(5) [OF k]]) simp_all
  next
    case (13 r1 rest s1)
    with c step ok ph counts(1) show ?thesis
      by (intro quietly [of k QA_any]) (auto simp: qx_check_def)
  next
    case (14 r1 e rest s1)
    with c step ok ph counts(2,3) show ?thesis
      by (intro quietly [of k QA_any]) (auto simp: qx_check_def)
  next
    case (15 r1 s1)
    with step show ?thesis by auto
  qed
qed

lemma phase_pushers:
  "pool_phase k start us q \<Longrightarrow> k = QK_load \<and> start = 0 \<and> q_live q \<or>
     start = 1 \<and> (\<forall>u \<in> set us. u = PU_latch) \<or> (\<forall>u \<in> set us. u = PU_end)"
  by (cases k) (simp_all add: pool_phase_def)

lemma qx_pusher_inv:
  assumes inv: "qx_inv t st n s" and step: "qx_step s (QX_pusher j) = Some s'"
  shows "qx_inv t st n s'"
proof -
  from step have j: "j < length (qx_pushers s)" and step': "qx_pusher_step j s = Some s'"
    by (auto simp: qx_step_def split: if_splits)
  have mem: "qx_pushers s ! j \<in> set (qx_pushers s)" using j by simp
  have start: "qx_start s = 0" if "qx_pushers s ! j = PU_latch"
    using that step' by (auto simp: qx_pusher_step_def split: if_splits)
  have not_end: "qx_pushers s ! j \<noteq> PU_end" using step' by (auto simp: qx_pusher_step_def)
  from inv obtain k a where c: "qx_checks t st n (qx_i s) k a (qx_rest s)"
    and ok: "\<not> qx_failed s" "length (qx_pushers s) = n" "qx_at s = 0"
      "qx_completion s = length (filter (\<lambda>u. u \<noteq> PU_end) (qx_pushers s))"
    and pools: "k = QK_before \<and> a = QA_any \<and> qx_pools s = [] \<and> qx_i s = 0 \<and> qx_start s = 1 \<and>
           (\<forall>u \<in> set (qx_pushers s). u = PU_latch) \<or>
         (\<exists>q. qx_pools s = [q] \<and> pool_fits t st (qx_i s) (qx_pushers s) q \<and>
            pool_phase k (qx_start s) (qx_pushers s) q \<and> pool_answers k a q)"
    by (auto simp: qx_inv_def)
  have "\<not> (\<forall>u \<in> set (qx_pushers s). u = PU_latch) \<or> qx_start s = 0" using mem start by metis
  then obtain q where q: "qx_pools s = [q]" and fits: "pool_fits t st (qx_i s) (qx_pushers s) q"
    and ph: "pool_phase k (qx_start s) (qx_pushers s) q" and ans: "pool_answers k a q"
    using pools by auto
  have "k = QK_load \<and> qx_start s = 0 \<and> q_live q"
    using phase_pushers [OF ph] mem not_end start by (metis zero_neq_one)
  then have k: "k = QK_load" and live: "q_live q" "qx_start s = 0" by simp_all
  then have a: "a = QA_any" using ans by (auto simp: pool_answers_def split: qknown.splits)
  note D = pool_fitsD [OF fits]
  have len: "Suc j < length (q_clients q)" using D(2) j by simp
  show ?thesis
  proof (cases "qx_pushers s ! j")
    case PU_latch
    let ?q = "qclient_call (Suc j) (Qdo_execute (Some j)) q"
    obtain r where r: "q_clients q ! Suc j = Z_outside r" using D(6) [OF j] PU_latch by auto
    have s': "s' = s\<lparr>qx_pools := [?q], qx_pushers := (qx_pushers s)[j := PU_execute]\<rparr>"
      using step' PU_latch q by (simp add: qx_pusher_step_def split: if_splits)
    have "pool_fits t st (qx_i s) ((qx_pushers s)[j := PU_execute]) ?q"
      using D qinv_call [OF D(1) len r] j PU_latch
        filter_one [OF j, of "\<lambda>u. u \<noteq> PU_latch" PU_execute]
      by (auto simp: pool_fits_def nth_list_update)
    moreover have "q_live ?q" by (rule live_call [OF live(1) len]) simp_all
    ultimately show ?thesis
      using ok c k a live(2) PU_latch filter_one [OF j, of "\<lambda>u. u \<noteq> PU_end" PU_execute]
      by (intro qx_invI [of _ _ ?q t st QK_load QA_any]) (auto simp: s' pool_phase_def)
  next
    case PU_execute
    obtain r where r: "q_clients q ! Suc j = Z_outside r"
      and s': "s' = s\<lparr>qx_completion := qx_completion s - 1, qx_pushers := (qx_pushers s)[j := PU_end]\<rparr>"
      using step' PU_execute q by (auto simp: qx_pusher_step_def split: qclient_pc.splits)
    have "pool_fits t st (qx_i s) ((qx_pushers s)[j := PU_end]) q"
      using D r j PU_execute filter_one [OF j, of "\<lambda>u. u \<noteq> PU_latch" PU_end]
      by (auto simp: pool_fits_def nth_list_update)
    then show ?thesis
      using ok c q k a live PU_execute filter_one [OF j, of "\<lambda>u. u \<noteq> PU_end" PU_end]
      by (intro qx_invI [of _ _ q t st QK_load QA_any]) (auto simp: s' pool_phase_def)
  qed (use not_end in simp)
qed

text \<open>The constructor, which comes first.\<close>
lemma fresh_pool:
  fixes t st m :: nat
  defines "q \<equiv> qpool_construct_stack None (\<lambda>i. None) t st (Suc m)"
  shows "pool_fits t st 0 (replicate m PU_latch) q"
    and "p_tasks (q_base q) = [] \<longleftrightarrow> t = 0" and "p_finished (q_base q) = {#}"
    and "q_quiet q" and "0 < t \<Longrightarrow> q_live q"
proof -
  have tasks: "p_tasks (q_base q) ! i = tm_construct None st" if "i < t" for i
    using that by (simp add: q_def qpool_construct_stack_def qpool_with_base_def Let_def pool_construct_stack_def)
  have alive: "is_alive (tm_thread (tm_construct None st))" "is_alive (q_thread q)"
    by (simp_all add: q_def qpool_construct_stack_def qpool_with_base_def Let_def tm_construct_def thread_defs)
  have simps: "length (p_tasks (q_base q)) = t" "p_stack (q_base q) = st" "q_submitted q = {#}"
    "q_clients q = replicate (Suc m) (Z_outside None)" "p_discarded (q_base q) = {#}" "q_dropped q = {#}"
    "q_queue q = []" "q_go q" "\<not> p_terminating (q_base q)" "p_finished (q_base q) = {#}"
    by (simp_all add: q_def qpool_construct_stack_def qpool_with_base_def Let_def pool_construct_stack_def)
  show "pool_fits t st 0 (replicate m PU_latch) q"
    using qpool_inv_construct [of None "\<lambda>i. None" t st "Suc m"] simps
    by (auto simp: pool_fits_def q_def [symmetric])
  show "p_tasks (q_base q) = [] \<longleftrightarrow> t = 0" using simps(1) by auto
  show "p_finished (q_base q) = {#}" by (rule simps(10))
  show "q_quiet q" using simps tasks
    by (simp add: q_quiet_def all_empty_def slots_empty_def executing_def nth_Cons' tm_construct_def Let_def)
  show "q_live q" if "0 < t" using simps tasks alive that
    by (auto simp: q_live_def in_use_def terminating_def nth_Cons' in_set_conv_nth)
qed

lemma main_step_inv:
  assumes inv: "qx_inv t st n s" and step: "qx_step s QX_main = Some s'"
  shows "qx_inv t st n s'"
proof -
  from step obtain r where r: "qx_answer s = Some r" and main: "qx_main_stmt r (qx_rest s) s = Some s'"
    by (auto simp: qx_step_def qx_main_step_def split: option.splits)
  from inv consider q where "qx_pools s = [q]" "qx_at s = 0"
    | "qx_pools s = []" "qx_checks t st n 0 QK_before QA_any (qx_rest s)" "qx_start s = 1" "qx_i s = 0"
      "\<forall>u \<in> set (qx_pushers s). u = PU_latch"
    by (auto simp: qx_inv_def)
  then show ?thesis
  proof cases
    case (1 q)
    then have "q_clients q ! 0 = Z_outside r"
      using r by (auto simp: qx_answer_def split: qclient_pc.splits)
    from qx_main_inv [OF inv 1(1) this main] show ?thesis .
  next
    case 2
    have us: "qx_pushers s = replicate n PU_latch"
      using 2(5) inv by (auto simp: qx_inv_def intro: replicate_eqI)
    let ?q = "qpool_construct_stack None (\<lambda>i. None) t st (Suc n)"
    show ?thesis
    proof (cases "(r, qx_rest s, s)" rule: qx_main_stmt.cases)
      case (1 r1 t' st' rest s1)
      let ?k = "if t = 0 then QK_none else if n = 0 then QK_quiet else QK_fresh"
      have "t' = t" "st' = st" "t = 0 \<longrightarrow> n = 0" and checked: "qx_checks t st n 0 ?k QA_any rest"
        and s': "s' = s\<lparr>qx_pools := [?q], qx_rest := rest\<rparr>"
        using 1 2 main us by auto
      moreover have "pool_phase ?k 1 (replicate n PU_latch) ?q"
        using fresh_pool [of t st n] \<open>t = 0 \<longrightarrow> n = 0\<close> by (auto simp: pool_phase_def)
      ultimately show ?thesis
        using inv us 2 fresh_pool(1) [of t st n]
        by (intro qx_invI [of _ _ ?q t st ?k QA_any]) (simp_all add: qx_inv_def)
    qed (use 2 main in auto)
  qed
qed

lemma qx_inv_step: "qx_inv t st n s \<Longrightarrow> qx_step s l = Some s' \<Longrightarrow> qx_inv t st n s'"
  by (cases l) (auto intro: main_step_inv qx_pusher_inv qx_pool_inv)

interpretation queue_tested: step_invariant qx_step "qx_inv t st n"
  by unfold_locales (rule qx_inv_step)

lemma qx_inv_begin:
  "qx_checks t st n 0 QK_before QA_any prog \<Longrightarrow> qx_inv t st n (qx_begin prog n)"
  by (auto simp: qx_inv_def qx_begin_def)

section \<open>The tests\<close>

text \<open>
  C39: no check of a test of the class \<open>QueuedThreadPool\<close> that uses one pool ever fails.  Whatever
  the order of the main thread, the threads that push tasks, the dispatcher and the workers, in
  the test under load with any number of threads and pushers, in the two tests that queue tasks
  before one worker and in the test of a pool without threads: \<open>is_idle\<close> answers as the test
  expects, after its loop every task has been run, and in the end every task is deleted.
\<close>
theorem queued_tests_never_fail:
  assumes "reach qx_step (qx_begin prog load) s"
    and "prog = queued_busy_test threads stack load \<and> 0 < threads \<and> 0 < load \<or>
      prog \<in> {queued_test, queued_load_test, queued_interface_test} \<and> load = 0"
  shows "\<not> qx_failed s"
proof -
  obtain t st where "qx_checks t st load 0 QK_before QA_any prog"
    using assms(2) queued_tests_checked(1) [of threads load stack] queued_tests_checked(2-4) by auto
  from queue_tested.inv_reach [OF assms(1) qx_inv_begin [OF this]] show ?thesis
    by (simp add: qx_inv_def)
qed

text \<open>A run with the number of times each step is taken.\<close>
definition repeated :: "(nat \<times> 'l) list \<Rightarrow> 'l list" where
  "repeated xs = concat (map (\<lambda>(n, l). replicate n l) xs)"

text \<open>The test under load with one worker and one pusher, up to its end.\<close>
definition queued_busy_run :: "qx_label list" where
  "queued_busy_run = repeated
     [(1, QX_main), (3, QX_pool 0 (QL_worker 0 Run_returns 0)), (3, QX_pool 0 (QL_dispatcher 0)),
      (3, QX_main), (7, QX_pool 0 (QL_client 0 0)), (2, QX_main), (1, QX_pusher 0),
      (1, QX_pool 0 (QL_client 1 0)), (7, QX_pool 0 (QL_dispatcher 0)),
      (6, QX_pool 0 (QL_worker 0 Run_returns 0)), (2, QX_pool 0 (QL_dispatcher 0)), (1, QX_pusher 0),
      (2, QX_main), (7, QX_pool 0 (QL_client 0 0)), (1, QX_main), (7, QX_pool 0 (QL_client 0 0)),
      (2, QX_main), (7, QX_pool 0 (QL_client 0 0)), (2, QX_main), (7, QX_pool 0 (QL_client 0 0)),
      (1, QX_main), (6, QX_pool 0 (QL_client 0 0)), (4, QX_pool 0 (QL_worker 0 Run_returns 0)),
      (4, QX_pool 0 (QL_client 0 0)), (3, QX_pool 0 (QL_dispatcher 0)), (1, QX_main),
      (14, QX_pool 0 (QL_client 0 0)), (2, QX_main)]"

lemmas qx_eval = qx_step_def qx_main_step_def qx_answer_def qx_call_def qx_check_def
  qx_pusher_step_def qx_begin_def qx_task_count_def qx_run_count_def qx_constructed_def
  until_idle_def repeated_def qpool_construct_stack_def qpool_with_base_def
  pool_construct_stack_def granted_thread qthread is_idle_step_def is_busy_step_def thread_join_def
  query_answer_def

lemma queued_busy_run_ends:
  "\<exists>s. run_steps qx_step (qx_begin (queued_busy_test 1 default_stacksize 1) 1) queued_busy_run = Some s \<and>
     qx_rest s = [] \<and> qx_run_count s = 1"
  by (simp add: queued_busy_run_def queued_busy_test_def numeral_eq_Suc qx_eval queued_eval)

theorem queued_tests_never_fail_witness:
  "\<exists>s. run_steps qx_step (qx_begin (queued_busy_test 1 default_stacksize 1) 1) queued_busy_run = Some s \<and>
     qx_rest s = [] \<and> \<not> qx_failed s"
proof -
  obtain s where run: "run_steps qx_step (qx_begin (queued_busy_test 1 default_stacksize 1) 1)
      queued_busy_run = Some s" and s: "qx_rest s = []"
    using queued_busy_run_ends by blast
  from queued_tests_never_fail [OF run_steps_reach [OF run], of 1 default_stacksize] run s
  show ?thesis by simp
qed

text \<open>
  The test with two pools compares \<open>run_count()\<close> with the tasks given to both, when only the
  second one has been asked whether it is idle.  In this run the worker of the first pool has not
  started its task yet, and the check fails.
\<close>
definition independency_run :: "qx_label list" where
  "independency_run = repeated
     ([(1, QX_main), (3, QX_pool 0 (QL_dispatcher 0)), (2, QX_main), (1, QX_pool 0 (QL_client 0 0)),
       (9, QX_pool 0 (QL_dispatcher 0)), (1, QX_main), (6, QX_pool 0 (QL_client 0 0)), (1, QX_main),
       (3, QX_pool 1 (QL_worker 1 Run_returns 0)), (3, QX_pool 1 (QL_worker 2 Run_returns 0)),
       (3, QX_pool 1 (QL_worker 3 Run_returns 0)), (3, QX_pool 1 (QL_worker 0 Run_returns 0)),
       (3, QX_pool 1 (QL_dispatcher 0)), (1, QX_main), (10, QX_pool 1 (QL_client 0 0)), (2, QX_main),
       (1, QX_pool 1 (QL_client 0 0)), (7, QX_pool 1 (QL_dispatcher 0)),
       (6, QX_pool 1 (QL_worker 0 Run_returns 0)), (2, QX_pool 1 (QL_dispatcher 0)), (1, QX_main),
       (10, QX_pool 1 (QL_client 0 0)), (2, QX_main), (10, QX_pool 1 (QL_client 0 0)), (2, QX_main),
       (9, QX_pool 1 (QL_client 0 0)), (4, QX_pool 1 (QL_worker 0 Run_returns 0)),
       (2, QX_pool 1 (QL_client 0 0)), (4, QX_pool 1 (QL_worker 1 Run_returns 0)),
       (2, QX_pool 1 (QL_client 0 0)), (4, QX_pool 1 (QL_worker 2 Run_returns 0)),
       (2, QX_pool 1 (QL_client 0 0)), (4, QX_pool 1 (QL_worker 3 Run_returns 0)),
       (4, QX_pool 1 (QL_client 0 0)), (3, QX_pool 1 (QL_dispatcher 0))] @
      concat (replicate 6 [(1, QX_main), (1, QX_pool 1 (QL_client 0 0))]) @ [(1, QX_main)])"

theorem independency_test_can_fail:
  "\<exists>s. run_steps qx_step (qx_begin independency_test 0) independency_run = Some s \<and> qx_failed s \<and>
     qx_run_count s = 1"
  by (simp add: independency_run_def independency_test_def numeral_eq_Suc qx_eval queued_eval)

end
