(* ===== verification/Thread_Tests.thy ===== *)
theory Thread_Tests
  imports Posix_Thread Boost_Synchronized
begin

text \<open>
  The tests of \<open>threads_test.cpp\<close> for \<open>Synchronized\<close> and \<open>Thread\<close>: the three tests of locking in
  one thread, and the tests that run a \<open>BadTask\<close> in a thread, as a state machine of two threads
  over the posix monitor.  Proved: the checks hold, the two threads never block each other, and
  every step that is no spurious wake-up brings the test nearer to its end.
\<close>

section \<open>Locking in one thread\<close>

text \<open>
  The results of the checks, in their order; an exception that nobody catches ends the test.  The
  checks of a second \<open>unlock\<close> are left out on Linux; \<open>SyncTrylock_test\<close> is taken as built for this
  variant, where it expects \<open>BUSY\<close>.
\<close>
definition synchronized_test :: "bool \<Rightarrow> 't sync \<Rightarrow> 't \<Rightarrow> bool list outcome" where
  "synchronized_test linux s t =
     (case sync_lock s t of
        Returns (locked, s1) \<Rightarrow>
          (let (unlocked, s2) = sync_unlock s1 t; (again, s3) = sync_unlock s2 t
           in Returns ([locked, unlocked] @
                (if linux then [] else [\<not> again, \<not> fst (sync_unlock s3 t)])))
      | Throws msg \<Rightarrow> Throws msg
      | Blocked \<Rightarrow> Blocked)"

definition sync_trylock_test :: "bool \<Rightarrow> 't sync \<Rightarrow> 't \<Rightarrow> bool list outcome" where
  "sync_trylock_test linux s t =
     (case sync_trylock s t of
        Returns (r, s1) \<Rightarrow>
          (case lock_enter (snd (sync_unlock s1 t)) t of
             Returns s2 \<Rightarrow>
               (case sync_trylock s2 t of
                  Returns (r', s3) \<Rightarrow>
                    Returns ([r = LOCKED, r' = BUSY] @
                      (if linux then [] else [\<not> fst (sync_unlock (lock_leave s3 t) t)]))
                | Throws msg \<Rightarrow> Throws msg
                | Blocked \<Rightarrow> Blocked)
           | Throws msg \<Rightarrow> Throws msg
           | Blocked \<Rightarrow> Blocked)
      | Throws msg \<Rightarrow> Throws msg
      | Blocked \<Rightarrow> Blocked)"

text \<open>The exception is caught; the scoped lock unlocks in either case.\<close>
definition sync_deadlock_test :: "'t sync \<Rightarrow> 't \<Rightarrow> bool list outcome" where
  "sync_deadlock_test s t =
     (case lock_enter s t of
        Returns s1 \<Rightarrow>
          (let (inside, s2) = (case sync_lock s1 t of Returns (b, s') \<Rightarrow> ([b], s') | _ \<Rightarrow> ([], s1))
           in case sync_lock (lock_leave s2 t) t of
                Returns (locked, s3) \<Rightarrow> Returns (inside @ [locked, fst (sync_unlock s3 t)])
              | Throws msg \<Rightarrow> Throws msg
              | Blocked \<Rightarrow> Blocked)
      | Throws msg \<Rightarrow> Throws msg
      | Blocked \<Rightarrow> Blocked)"

text \<open>The same test over the boost monitor, with and without \<open>NDEBUG\<close>.\<close>
definition b_deadlock_test :: "bool \<Rightarrow> 't bsync \<Rightarrow> 't \<Rightarrow> bool list outcome" where
  "b_deadlock_test ndebug s t =
     (case b_enter ndebug s t of
        Returns s1 \<Rightarrow>
          (let (inside, s2) = (case b_lock ndebug s1 t of Returns (b, s') \<Rightarrow> ([b], s') | _ \<Rightarrow> ([], s1))
           in case b_lock ndebug (b_leave s2 t) t of
                Returns (locked, s3) \<Rightarrow> Returns (inside @ [locked, fst (b_unlock s3 t)])
              | Throws msg \<Rightarrow> Throws msg
              | Blocked \<Rightarrow> Blocked)
      | Throws msg \<Rightarrow> Throws msg
      | Blocked \<Rightarrow> Blocked)"

text \<open>\<open>Thread\<close> without a task, started and joined, and its clone: the three checks.\<close>
definition livetime_test :: "thread \<Rightarrow> bool list" where
  "livetime_test th =
     (let copy = clone_thread th; started = thread_start None th
      in [is_alive started, \<not> is_alive copy, \<not> is_alive (thread_join None copy)])"

lemma lock_tests_pass:
  "synchronized_test linux new_sync t = Returns (replicate (if linux then 2 else 4) True)"
  "sync_trylock_test linux new_sync t = Returns (replicate (if linux then 2 else 3) True)"
  "sync_deadlock_test new_sync t = Returns [True, True]"
  "b_deadlock_test False bsync_new t = Returns [True, True]"
  "livetime_test (thread_new n) = [True, True, True]"
  by (simp_all add: synchronized_test_def sync_trylock_test_def sync_deadlock_test_def
      b_deadlock_test_def livetime_test_def sync_defs bsync_defs bsync_new_def thread_defs
      clone_thread_def mutex_trylock_def numeral_eq_Suc)

text \<open>With \<open>NDEBUG\<close> the boost monitor does not throw, and the check inside the block fails.\<close>
theorem deadlock_test_can_fail:
  "b_deadlock_test True bsync_new t = Returns [False, True, True]"
  by (simp add: b_deadlock_test_def bsync_defs bsync_new_def)

section \<open>A task in a thread\<close>

datatype bk_tid = BK_main | BK_thread

text \<open>
  The thread in \<open>BadTask::run\<close>: not started, before the lock, at the latch, at the loop, in its
  wait, before the unlock, returned.
\<close>
datatype bk_pc =
  BK_idle | BK_enter | BK_latch | BK_loop | BK_asleep | BK_leave | BK_end

text \<open>
  The statements of the main thread: \<open>thread.start()\<close>, \<open>start_latch.count_down()\<close>, \<open>task.stop()\<close>,
  the check of \<open>is_alive()\<close>, the destructor of the thread, which joins it, and that of the task.
\<close>
datatype bk_stmt = BS_start | BS_count_down | BS_stop | BS_alive | BS_join | BS_destroy

definition throw_test :: "bk_stmt list" where
  "throw_test = [BS_start, BS_count_down, BS_alive, BS_join, BS_destroy]"

definition join_test :: "bk_stmt list" where
  "join_test = [BS_start, BS_count_down, BS_stop, BS_alive, BS_join, BS_destroy]"

text \<open>\<open>bk_doit\<close> is the flag of the constructor that makes the task throw.\<close>
record bad_task =
  bk_sync :: "bk_tid sync"
  bk_stopped :: bool
  bk_doit :: bool
  bk_start_latch :: nat
  bk_thread :: thread
  bk_pc :: bk_pc
  bk_rest :: "bk_stmt list"
  bk_failed :: bool

definition bk_begin :: "bool \<Rightarrow> bk_stmt list \<Rightarrow> bad_task" where
  "bk_begin doit prog =
     \<lparr>bk_sync = new_sync, bk_stopped = False, bk_doit = doit, bk_start_latch = 1,
      bk_thread = thread_new_for 0, bk_pc = BK_idle, bk_rest = prog, bk_failed = False\<rparr>"

text \<open>A task that throws leaves its scoped lock at once; \<open>thread_starter\<close> catches the exception.\<close>
definition bk_run_step :: "bad_task \<Rightarrow> bad_task option" where
  "bk_run_step s =
     (case bk_pc s of
        BK_enter \<Rightarrow>
          (case lock_enter (bk_sync s) BK_thread of
             Returns y \<Rightarrow> Some (s\<lparr>bk_sync := y, bk_pc := BK_latch\<rparr>)
           | _ \<Rightarrow> None)
      | BK_latch \<Rightarrow>
          (if bk_start_latch s = 0
           then Some (s\<lparr>bk_pc := (if bk_doit s then BK_leave else BK_loop)\<rparr>) else None)
      | BK_loop \<Rightarrow>
          (if \<not> bk_stopped s
           then (case sync_wait None (bk_sync s) BK_thread of
                   Returns (b, y) \<Rightarrow> Some (s\<lparr>bk_sync := y, bk_pc := BK_asleep\<rparr>)
                 | _ \<Rightarrow> None)
           else Some (s\<lparr>bk_pc := BK_leave\<rparr>))
      | BK_asleep \<Rightarrow>
          (case sync_resume (bk_sync s) BK_thread of
             Returns y \<Rightarrow> Some (s\<lparr>bk_sync := y, bk_pc := BK_loop\<rparr>)
           | _ \<Rightarrow> None)
      | BK_leave \<Rightarrow> Some (s\<lparr>bk_sync := lock_leave (bk_sync s) BK_thread, bk_pc := BK_end\<rparr>)
      | _ \<Rightarrow> None)"

text \<open>\<open>BadTask::stop\<close> and \<open>~BadTask\<close>; the number \<open>k\<close> says whom a notification wakes.\<close>
definition bk_stop :: "nat \<Rightarrow> bad_task \<Rightarrow> bad_task option" where
  "bk_stop k s =
     (case lock_enter (bk_sync s) BK_main of
        Returns y \<Rightarrow> Some (s\<lparr>bk_stopped := True, bk_sync := lock_leave (sync_notify k y) BK_main\<rparr>)
      | _ \<Rightarrow> None)"

definition bk_destroy :: "bad_task \<Rightarrow> bad_task" where
  "bk_destroy s = s\<lparr>bk_stopped := True, bk_sync := sync_notify_all (bk_sync s)\<rparr>"

fun bk_main_step :: "nat \<Rightarrow> bad_task \<Rightarrow> bk_stmt list \<Rightarrow> bad_task option" where
  "bk_main_step k s (BS_start # rest) =
     Some (s\<lparr>bk_thread := thread_start None (bk_thread s), bk_pc := BK_enter, bk_rest := rest\<rparr>)"
| "bk_main_step k s (BS_count_down # rest) =
     Some (s\<lparr>bk_start_latch := bk_start_latch s - 1, bk_rest := rest\<rparr>)"
| "bk_main_step k s (BS_stop # rest) = map_option (\<lambda>u. u\<lparr>bk_rest := rest\<rparr>) (bk_stop k s)"
| "bk_main_step k s (BS_alive # rest) =
     Some (s\<lparr>bk_failed := (bk_failed s \<or> \<not> is_alive (bk_thread s)), bk_rest := rest\<rparr>)"
| "bk_main_step k s (BS_join # rest) =
     (if is_alive (bk_thread s) \<and> bk_pc s \<noteq> BK_end then None
      else Some (s\<lparr>bk_thread := thread_destroy None (bk_thread s), bk_rest := rest\<rparr>))"
| "bk_main_step k s (BS_destroy # rest) = Some ((bk_destroy s)\<lparr>bk_rest := rest\<rparr>)"
| "bk_main_step k s [] = None"

datatype bk_label = BL_main nat | BL_thread | BL_spurious

definition bk_step :: "bad_task \<Rightarrow> bk_label \<Rightarrow> bad_task option" where
  "bk_step s l =
     (case l of
        BL_main k \<Rightarrow> bk_main_step k s (bk_rest s)
      | BL_thread \<Rightarrow> bk_run_step s
      | BL_spurious \<Rightarrow> Some (s\<lparr>bk_sync := sync_spurious (bk_sync s) BK_thread\<rparr>))"

section \<open>The tests end\<close>

text \<open>Which statements are left, and what that says of the state.\<close>
definition bk_inv :: "bool \<Rightarrow> bad_task \<Rightarrow> bool" where
  "bk_inv doit s \<longleftrightarrow>
     (\<exists>k. bk_rest s = drop k (if doit then throw_test else join_test)) \<and>
     bk_doit s = doit \<and> \<not> bk_failed s \<and>
     (bk_pc s = BK_idle \<longleftrightarrow> BS_start \<in> set (bk_rest s)) \<and>
     (bk_start_latch s = (if BS_count_down \<in> set (bk_rest s) then 1 else 0)) \<and>
     (is_alive (bk_thread s) \<longleftrightarrow> bk_pc s \<noteq> BK_idle \<and> BS_join \<in> set (bk_rest s)) \<and>
     status (bk_thread s) \<noteq> FINISHED \<and>
     (\<not> doit \<longrightarrow> BS_stop \<notin> set (bk_rest s) \<longrightarrow> bk_stopped s) \<and>
     (BS_join \<notin> set (bk_rest s) \<longrightarrow> bk_pc s = BK_end) \<and>
     (doit \<longrightarrow> bk_pc s \<notin> {BK_loop, BK_asleep}) \<and>
     monitor (bk_sync s) = (if bk_pc s \<in> {BK_latch, BK_loop, BK_leave} then Some BK_thread else None) \<and>
     cond (bk_sync s) \<in> {[], [BK_thread]} \<and>
     (cond (bk_sync s) \<noteq> [] \<longrightarrow> bk_pc s = BK_asleep \<and> \<not> bk_stopped s)"

text \<open>What is left of the test; a notification moves a sleeper up.\<close>
definition bk_left :: "bad_task \<Rightarrow> nat" where
  "bk_left s = 10 * length (bk_rest s) +
     (case bk_pc s of
        BK_idle \<Rightarrow> 0 | BK_enter \<Rightarrow> 6 | BK_latch \<Rightarrow> 5 | BK_loop \<Rightarrow> 3
      | BK_asleep \<Rightarrow> (if cond (bk_sync s) = [] then 4 else 2) | BK_leave \<Rightarrow> 1 | BK_end \<Rightarrow> 0)"

lemma drop_cases:
  "(\<exists>k. rest = drop k (x # xs)) \<longleftrightarrow> rest = x # xs \<or> (\<exists>k. rest = drop k xs)"
  by (metis drop0 drop_Suc_Cons not0_implies_Suc)

lemma rest_cases:
  "(\<exists>k. rest = drop k throw_test) \<longleftrightarrow>
     rest \<in> {[BS_start, BS_count_down, BS_alive, BS_join, BS_destroy],
       [BS_count_down, BS_alive, BS_join, BS_destroy], [BS_alive, BS_join, BS_destroy],
       [BS_join, BS_destroy], [BS_destroy], []}"
  "(\<exists>k. rest = drop k join_test) \<longleftrightarrow>
     rest \<in> {[BS_start, BS_count_down, BS_stop, BS_alive, BS_join, BS_destroy],
       [BS_count_down, BS_stop, BS_alive, BS_join, BS_destroy],
       [BS_stop, BS_alive, BS_join, BS_destroy], [BS_alive, BS_join, BS_destroy],
       [BS_join, BS_destroy], [BS_destroy], []}"
  by (simp_all add: throw_test_def join_test_def drop_cases)

lemma rest_drop: "xs = drop k ys \<Longrightarrow> xs = x # xs' \<Longrightarrow> \<exists>k. xs' = drop k ys"
  by (metis drop_Suc list.sel(3) tl_drop)

lemma bk_invD:
  assumes "bk_inv doit s"
  shows "\<exists>k. bk_rest s = drop k (if doit then throw_test else join_test)"
    and "bk_doit s = doit" and "\<not> bk_failed s"
    and "bk_pc s = BK_idle \<longleftrightarrow> BS_start \<in> set (bk_rest s)"
    and "bk_start_latch s = (if BS_count_down \<in> set (bk_rest s) then 1 else 0)"
    and "is_alive (bk_thread s) \<longleftrightarrow> bk_pc s \<noteq> BK_idle \<and> BS_join \<in> set (bk_rest s)"
    and "status (bk_thread s) \<noteq> FINISHED"
    and "\<not> doit \<longrightarrow> BS_stop \<notin> set (bk_rest s) \<longrightarrow> bk_stopped s"
    and "BS_join \<notin> set (bk_rest s) \<longrightarrow> bk_pc s = BK_end"
    and "doit \<longrightarrow> bk_pc s \<notin> {BK_loop, BK_asleep}"
    and "monitor (bk_sync s) = (if bk_pc s \<in> {BK_latch, BK_loop, BK_leave} then Some BK_thread else None)"
    and "cond (bk_sync s) \<in> {[], [BK_thread]}"
    and "cond (bk_sync s) \<noteq> [] \<longrightarrow> bk_pc s = BK_asleep \<and> \<not> bk_stopped s"
  using assms unfolding bk_inv_def by blast+

lemma notify_one: "cond y \<in> {[], [u]} \<Longrightarrow> sync_notify k y = y\<lparr>cond := []\<rparr>"
  by (auto simp: sync_notify_def cond_signal_def remove_at_def)

text \<open>A step of the thread keeps the invariant and comes nearer to the end.\<close>
lemma bk_run_inv:
  assumes inv: "bk_inv doit s" and step: "bk_run_step s = Some s'"
  shows "bk_inv doit s' \<and> bk_left s' < bk_left s"
proof -
  note D = bk_invD [OF inv]
  have more: "bk_rest s' = bk_rest s" "bk_doit s' = bk_doit s" "bk_failed s' = bk_failed s"
    "bk_start_latch s' = bk_start_latch s" "bk_thread s' = bk_thread s"
    "bk_stopped s' = bk_stopped s"
    using step by (auto simp: bk_run_step_def split: bk_pc.splits outcome.splits prod.splits if_splits)
  have pc: "bk_pc s \<noteq> BK_idle" "bk_pc s \<noteq> BK_end" "bk_pc s' \<noteq> BK_idle"
    using step by (auto simp: bk_run_step_def split: bk_pc.splits outcome.splits prod.splits if_splits)
  then have join: "BS_join \<in> set (bk_rest s)" using D(9) by blast
  have "(doit \<longrightarrow> bk_pc s' \<notin> {BK_loop, BK_asleep}) \<and>
     monitor (bk_sync s') = (if bk_pc s' \<in> {BK_latch, BK_loop, BK_leave} then Some BK_thread else None) \<and>
     cond (bk_sync s') \<in> {[], [BK_thread]} \<and>
     (cond (bk_sync s') \<noteq> [] \<longrightarrow> bk_pc s' = BK_asleep \<and> \<not> bk_stopped s') \<and>
     bk_left s' < bk_left s"
    using step pc(1,2) D(2,10-13)
    by (cases "bk_pc s"; clarsimp simp: bk_run_step_def bk_left_def sync_wait_own lock_leave_own
        split: if_splits outcome.splits)
  then show ?thesis
    unfolding bk_inv_def more using D(1-8) pc join by blast
qed

lemma bk_main_inv:
  assumes inv: "bk_inv doit s" and step: "bk_main_step k s (bk_rest s) = Some s'"
  shows "bk_inv doit s' \<and> bk_left s' < bk_left s"
proof -
  note D = bk_invD [OF inv]
  obtain x xs where rest: "bk_rest s = x # xs" using step by (cases "bk_rest s") auto
  have drop: "\<exists>j. xs = drop j (if doit then throw_test else join_test)"
    using D(1) rest by (metis rest_drop)
  have next_rest: "bk_rest s' = xs"
    using step rest by (cases x) (auto simp: bk_stop_def bk_destroy_def split: if_splits outcome.splits)
  have shape: "(doit \<longrightarrow> bk_rest s \<in> {[BS_start, BS_count_down, BS_alive, BS_join, BS_destroy],
       [BS_count_down, BS_alive, BS_join, BS_destroy], [BS_alive, BS_join, BS_destroy],
       [BS_join, BS_destroy], [BS_destroy]}) \<and>
    (\<not> doit \<longrightarrow> bk_rest s \<in> {[BS_start, BS_count_down, BS_stop, BS_alive, BS_join, BS_destroy],
       [BS_count_down, BS_stop, BS_alive, BS_join, BS_destroy],
       [BS_stop, BS_alive, BS_join, BS_destroy], [BS_alive, BS_join, BS_destroy],
       [BS_join, BS_destroy], [BS_destroy]})"
    using D(1) rest by (cases doit) (auto simp only: rest_cases if_True if_False)
  have notified: "sync_notify k (bk_sync s\<lparr>monitor := m\<rparr>) = bk_sync s\<lparr>monitor := m, cond := []\<rparr>" for m
    using D(12) by (auto intro: notify_one)
  show ?thesis
  proof (cases x)
    case BS_start
    have "status (bk_thread s) = IDLE"
      using D(4,6,7) rest BS_start by (cases "status (bk_thread s)") (auto simp: is_alive_def)
    with BS_start show ?thesis
      using step rest shape D(2-13) drop next_rest
      by (auto simp: bk_inv_def bk_left_def thread_defs split: if_splits)
  next
    case BS_count_down
    then have s': "s' = s\<lparr>bk_start_latch := bk_start_latch s - 1, bk_rest := xs\<rparr>"
      using step rest by simp
    have "BS_count_down \<notin> set xs" "BS_start \<notin> set xs" "x \<noteq> BS_start"
      using shape rest BS_count_down by auto
    then show ?thesis
      using D(2-13) drop rest BS_count_down unfolding s' by (simp add: bk_inv_def bk_left_def)
  next
    case BS_stop
    then have s': "monitor (bk_sync s) = None"
      "s' = s\<lparr>bk_stopped := True, bk_sync := bk_sync s\<lparr>monitor := None, cond := []\<rparr>, bk_rest := xs\<rparr>"
      using step rest notified [of "Some BK_main"]
      by (auto simp: bk_stop_def lock_leave_own split: outcome.splits)
    have "\<not> doit" "BS_count_down \<notin> set xs" "BS_start \<notin> set xs"
      using shape rest BS_stop by auto
    moreover have "bk_pc s \<notin> {BK_latch, BK_loop, BK_leave}" using D(11) s'(1) by (simp split: if_splits)
    ultimately show ?thesis
      using D(2-13) drop rest BS_stop unfolding s'(2)
      by (simp add: bk_inv_def bk_left_def split: bk_pc.splits)
  next
    case BS_alive
    then have s': "s' = s\<lparr>bk_failed := bk_failed s \<or> \<not> is_alive (bk_thread s), bk_rest := xs\<rparr>"
      using step rest by simp
    have here: "BS_count_down \<notin> set xs" "BS_start \<notin> set xs" "BS_stop \<notin> set xs" "BS_join \<in> set xs"
      using shape rest BS_alive by auto
    then have "is_alive (bk_thread s)" using D(4,6) rest BS_alive by simp
    then show ?thesis
      using D(2-13) drop rest BS_alive here unfolding s' by (simp add: bk_inv_def bk_left_def)
  next
    case BS_join
    then have alive: "is_alive (bk_thread s)" using D(4,6) rest shape by auto
    then have s': "bk_pc s = BK_end" "s' = s\<lparr>bk_thread := thread_destroy None (bk_thread s), bk_rest := xs\<rparr>"
      using step rest BS_join by (auto split: if_splits)
    have "xs = [BS_destroy]" using shape rest BS_join by (cases doit) auto
    moreover have "status (thread_destroy None (bk_thread s)) = IDLE"
      using alive by (simp add: thread_defs)
    ultimately show ?thesis
      using D(2-13) drop rest BS_join s'(1) unfolding s'(2)
      by (simp add: bk_inv_def bk_left_def is_alive_def)
  next
    case BS_destroy
    then have s': "s' = s\<lparr>bk_stopped := True, bk_sync := bk_sync s\<lparr>cond := []\<rparr>, bk_rest := xs\<rparr>"
      using step rest by (simp add: bk_destroy_def sync_notify_all_def cond_broadcast_def)
    have "xs = []" using shape rest BS_destroy by (cases doit) auto
    then show ?thesis
      using D(2-13) drop rest BS_destroy unfolding s' by (simp add: bk_inv_def bk_left_def)
  qed
qed

text \<open>A spurious wake-up keeps the invariant.\<close>
lemma bk_spurious_inv:
  "bk_inv doit s \<Longrightarrow> bk_inv doit (s\<lparr>bk_sync := sync_spurious (bk_sync s) BK_thread\<rparr>)"
  by (frule bk_invD(12)) (auto simp: bk_inv_def sync_spurious_def cond_spurious_def)

lemma bk_step_inv:
  assumes "bk_inv doit s" and "bk_step s l = Some s'"
  shows "bk_inv doit s'" and "l \<noteq> BL_spurious \<Longrightarrow> bk_left s' < bk_left s"
proof -
  have *: "bk_inv doit s' \<and> (l \<noteq> BL_spurious \<longrightarrow> bk_left s' < bk_left s)"
  proof (cases l)
    case (BL_main k)
    then show ?thesis using bk_main_inv [OF assms(1)] assms(2) by (simp add: bk_step_def)
  next
    case BL_thread
    then show ?thesis using bk_run_inv [OF assms(1)] assms(2) by (simp add: bk_step_def)
  next
    case BL_spurious
    then show ?thesis using bk_spurious_inv [OF assms(1)] assms(2) by (auto simp: bk_step_def)
  qed
  then show "bk_inv doit s'" and "l \<noteq> BL_spurious \<Longrightarrow> bk_left s' < bk_left s" by simp_all
qed

interpretation bk: step_invariant bk_step "bk_inv doit"
  by unfold_locales (rule bk_step_inv(1))

lemma bk_inv_begin: "bk_inv doit (bk_begin doit (if doit then throw_test else join_test))"
  by (auto simp: bk_inv_def bk_begin_def thread_defs throw_test_def join_test_def
      intro: exI [of _ "0::nat"])

lemma bk_progress:
  assumes inv: "bk_inv doit s" and left: "bk_rest s \<noteq> []"
  shows "\<exists>l. l \<noteq> BL_spurious \<and> bk_step s l \<noteq> None"
proof (cases "bk_run_step s = None")
  case False
  then show ?thesis by (intro exI [of _ BL_thread]) (simp add: bk_step_def)
next
  case True
  note D = bk_invD [OF inv]
  obtain x xs where rest: "bk_rest s = x # xs" using left by (cases "bk_rest s") auto
  have "bk_pc s \<in> {BK_idle, BK_end} \<or> bk_pc s = BK_latch \<and> bk_start_latch s \<noteq> 0 \<or>
      bk_pc s = BK_asleep \<and> cond (bk_sync s) \<noteq> []"
    using True D(11) by (cases "bk_pc s")
      (auto simp: bk_run_step_def sync_wait_own lock_enter_free sync_resume_def split: if_splits outcome.splits)
  then have at: "bk_pc s \<in> {BK_idle, BK_end} \<or> bk_pc s = BK_latch \<and> BS_count_down \<in> set (x # xs) \<or>
      bk_pc s = BK_asleep \<and> \<not> doit \<and> BS_stop \<in> set (x # xs)"
    using D(5,8,10,13) rest by (auto split: if_splits)
  have late: "BS_count_down \<notin> set (x # xs)" if "x \<in> {BS_stop, BS_join}"
    using D(1) rest that by (cases doit) (auto simp only: rest_cases if_True if_False list.inject set_simps)
  have stop: "BS_stop \<notin> set (x # xs)" if "x = BS_join"
    using D(1) rest that by (cases doit) (auto simp only: rest_cases if_True if_False list.inject set_simps)
  have join: "bk_pc s \<in> {BK_idle, BK_end}" if "x = BS_join"
    using at late stop that by blast
  have free: "monitor (bk_sync s) = None" if "x = BS_stop"
    using at late D(11) that by auto
  have "bk_main_step 0 s (bk_rest s) \<noteq> None"
    using rest join free D(6) by (cases x) (auto simp: bk_stop_def lock_enter_free)
  then show ?thesis by (intro exI [of _ "BL_main 0"]) (simp add: bk_step_def)
qed

text \<open>
  C40: the tests that run a \<open>BadTask\<close> in a thread end, and their check holds.  At any time of
  \<open>ThreadTaskThrow_test\<close> and of \<open>ThreadTaskJoin_test\<close>, whatever the scheduler did and however often
  the wait of the task woke without a notification: the check of \<open>is_alive()\<close> has not failed; every
  step of the two threads brings the test nearer to its end; one of the two threads can take a
  step unless the last statement is executed; and then the thread of the task has returned and
  is joined.\<close>
theorem thread_task_tests_end:
  assumes "reach bk_step (bk_begin doit (if doit then throw_test else join_test)) s"
  shows "\<not> bk_failed s \<and>
    (\<forall>l s'. l \<noteq> BL_spurious \<longrightarrow> bk_step s l = Some s' \<longrightarrow> bk_left s' < bk_left s) \<and>
    (bk_rest s \<noteq> [] \<longrightarrow> (\<exists>l. l \<noteq> BL_spurious \<and> bk_step s l \<noteq> None)) \<and>
    (bk_rest s = [] \<longrightarrow> bk_pc s = BK_end \<and> \<not> is_alive (bk_thread s))"
proof -
  have inv: "bk_inv doit s" by (rule bk.inv_reach [OF assms bk_inv_begin])
  have "bk_rest s = [] \<Longrightarrow> bk_pc s = BK_end \<and> \<not> is_alive (bk_thread s)"
    using bk_invD(6,9) [OF inv] by simp
  then show ?thesis
    using bk_invD(3) [OF inv] bk_step_inv(2) [OF inv] bk_progress [OF inv] by blast
qed

theorem thread_task_tests_end_witness:
  "\<exists>s. run_steps bk_step (bk_begin False join_test)
      [BL_main 0, BL_thread, BL_main 0, BL_thread, BL_thread, BL_spurious, BL_thread, BL_thread,
       BL_main 0, BL_main 0, BL_thread, BL_thread, BL_thread, BL_main 0, BL_main 0] = Some s \<and>
     bk_rest s = [] \<and> bk_pc s = BK_end \<and> \<not> bk_failed s"
proof -
  let ?ls = "[BL_main 0, BL_thread, BL_main 0, BL_thread, BL_thread, BL_spurious, BL_thread,
    BL_thread, BL_main 0, BL_main 0, BL_thread, BL_thread, BL_thread, BL_main 0, BL_main 0]"
  obtain s where s: "run_steps bk_step (bk_begin False join_test) ?ls = Some s" "bk_rest s = []"
    by (simp add: bk_step_def bk_begin_def bk_run_step_def bk_stop_def bk_destroy_def join_test_def
        sync_defs thread_defs cond_spurious_def cond_signal_def)
  have "reach bk_step (bk_begin False (if False then throw_test else join_test)) s"
    using run_steps_reach [OF s(1)] by simp
  from thread_task_tests_end [OF this] show ?thesis using s by blast
qed

end
