(* ===== verification/Spec2Isabelle.thy ===== *)
theory Spec2Isabelle
  imports Sync_Exclusion Sync_Contract Queued_Runs
    Boost_Synchronized Boost_Pool Boost_Invariant Boost_Runs Boost_Queued
    Agent_Exclusion Lock_Queue_Runs Agent_Queued_Runs
    Shared_Mutex_Properties Shared_Assignment Alarm_Runs Scheduler_Runs Spsc_Program
    Suspendable_Properties Testable_Mutex Parallel_Sort Guarded_Objects
    Pool_Errors Ping_Pong_Runs Counter_Programs Shared_Monitor Queue_Test_Runs
    Laps_Stopwatch Stopwatch_Reporters Persons Pool_Test_Runs Queued_Pool_Test_Runs Thread_Tests
begin

text \<open>
  A verification development for the thread pools of this repository and the programs beside
  them.

  \<^bold>\<open>The program.\<close>  The library exists in three variants that share their class names: one over
  POSIX threads (\<open>posix/threadpool.hpp\<close>, \<open>posix/threadpool.cpp\<close>), one over boost
  (\<open>threadpool.hpp\<close>, \<open>threadpool.cpp\<close>), and the one of agent++ both descend from
  (\<open>agent_pp/threads.h\<close>, \<open>threads.cpp\<close>).  In each of them \<open>Synchronized\<close> is a monitor (a mutex
  with a condition variable), \<open>Thread\<close> a thread object with a status, \<open>TaskManager\<close> a worker:
  a thread with a slot for one task, \<open>ThreadPool\<close> a list of task managers whose \<open>execute\<close> hands
  a task to the first idle one and waits for \<open>idle_notification\<close> when there is none, and
  \<open>QueuedThreadPool\<close> a pool with a queue in front of it.  Clients, workers and the dispatcher of
  a queued pool interact through the monitors of the pool and of its task managers only.  The
  agent++ variant has two classes more: \<open>ThreadManager\<close>, a monitor for the objects of an agent,
  and \<open>LockQueue\<close>, a thread that locks monitors on behalf of others.

  Beside the library stand programs of their own: readers and writers around a shared mutex and
  objects with a mutex each (\<open>shared_mutex.cpp\<close>), an alarm clock (\<open>alarm_cond.cpp\<close>), a scheduler
  with priorities (\<open>priority_scheduler.cpp\<close>), a producer and a consumer
  (\<open>lockfree_spsc_queue.cpp\<close>), a parallel quick sort, a mutex that knows its owner
  (\<open>boost/testable_mutex.hpp\<close>), accounts and persons behind locks (\<open>bank_account.cpp\<close>,
  \<open>ba_externallly_locked.cpp\<close>, \<open>synchronized_person.cpp\<close>), objects that are copied under a shared
  lock (\<open>shared_monitor.cpp\<close>), programs whose threads share a counter
  (\<open>test_atomic_counter.cpp\<close>, \<open>test_shared_mutex.cpp\<close>, \<open>trylock_test.cpp\<close>), a ping-pong over a
  condition variable (\<open>perf_condition_variable.cpp\<close>), and the stopwatches of
  \<open>include/boost/chrono/stopwatches\<close> with their reporters and formatters.  The tests of the pools
  (\<open>threads_test.cpp\<close>) and of a synchronised queue (\<open>multi_thread_pass.cpp\<close>) are programs too.

  \<^bold>\<open>How the code is modelled.\<close>  A class is a record of its members.  A function that other
  threads cannot interleave with (a critical section, or a call that touches no shared state) is
  one definition; a function that gives up a lock, waits, or calls into another lock is a state
  machine: a datatype of locations (\<open>worker_pc\<close>, \<open>client_pc\<close>, \<open>dispatcher_pc\<close>, \<open>bworker_pc\<close>,
  \<open>alarm_pc\<close>, \<open>runner\<close> and others) and a step function that performs the code between two
  locations.  A program is then a step function on the record of everything shared and the
  locations of all threads, and a schedule is a list of labels; \<open>reach\<close> is the set of states some
  schedule leads to.  A call has an \<open>outcome\<close>: it returns, throws, or blocks.  Where the system
  has a choice or may fail (which sleeper a signal wakes, whether a wait wakes spuriously, what
  \<open>pthread_create\<close> or a clock answers) the choice is an argument or part of the label, so that
  the theorems hold for every choice.  Ghost fields record what a theorem speaks of and no
  function reads them: the events of a pool (submitted, started, finished, discarded), the number
  of system threads made and joined, the alarms handled and dropped, the items posted and started.

  \<^bold>\<open>The theories.\<close>

  \<^item> \<open>Prelude\<close>: outcomes, schedules, the locales \<open>step_invariant\<close> and \<open>step_simulation\<close> that lift
    a fact about one step to all executions, and facts on lists and multisets.
  \<^item> \<open>Pthread\<close>, \<open>Timespec\<close>: error-checking mutex and condition variable of POSIX; the deadline
    arithmetic of \<open>Synchronized::wait(timeout)\<close> and \<open>lock(timeout)\<close> at its machine width.
  \<^item> \<open>Synchronized\<close>, \<open>Sync_Exclusion\<close>, \<open>Sync_Contract\<close>: the posix monitor and \<open>Lock\<close>; mutual
    exclusion for any number of threads; the bounds of a timed wait, the results of every
    locking call, and that the destructor ends.
  \<^item> \<open>Posix_Thread\<close>: \<open>start\<close>, \<open>join\<close>, the list of threads, \<open>sleep\<close>, \<open>nsleep\<close>.
  \<^item> \<open>Task_Host\<close>, \<open>Task_Manager\<close>: the contract \<open>task_host\<close> between a pool and a task manager,
    and the posix task manager, which is an interpretation of it.
  \<^item> \<open>Thread_Pool\<close>, \<open>Pool_Invariant\<close>, \<open>Pool_Tasks\<close>, \<open>Pool_Progress\<close>, \<open>Pool_Properties\<close>: the posix
    pool; its invariant; the account of its tasks; a measure that decreases until a worker is out
    of its lock; the properties.
  \<^item> \<open>Queued_Pool\<close>, \<open>Queued_Invariant\<close>, \<open>Queued_Properties\<close>, \<open>Queued_Runs\<close>: the posix queued pool
    in the same order, and its queue as a refinement of an abstract FIFO queue.
  \<^item> \<open>Boost_Synchronized\<close>, \<open>Boost_Thread\<close>, \<open>Boost_Pool\<close>, \<open>Boost_Invariant\<close>,
    \<open>Boost_Properties\<close>, \<open>Boost_Runs\<close>, \<open>Boost_Queued\<close>: the boost variant.  Its task manager is a
    second interpretation of \<open>task_host\<close>, so the account of the tasks is proved by the same
    lemmas.
  \<^item> \<open>Agent_Synchronized\<close>, \<open>Agent_Exclusion\<close>, \<open>Agent_Thread\<close>: the agent++ monitor with its flag
    \<open>isLocked\<close>, \<open>ThreadManager\<close>, one access to the flag or the mutex at a time, and the thread
    class, which agrees with the posix one but for the scheduling attributes, which are left out.
  \<^item> \<open>Agent_Pool\<close>, \<open>Agent_Invariant\<close>, \<open>Agent_Properties\<close>, \<open>Agent_Runs\<close>, \<open>Agent_Queued\<close>,
    \<open>Agent_Queued_Properties\<close>, \<open>Agent_Queued_Runs\<close>: the agent++ pools; their task manager is the
    third interpretation of \<open>task_host\<close>.
  \<^item> \<open>Lock_Queue\<close>, \<open>Lock_Queue_Properties\<close>, \<open>Lock_Queue_Runs\<close>: \<open>LockRequest\<close> and \<open>LockQueue\<close>.
    The monitors the queue locks are those of \<open>Agent_Exclusion\<close>: mutex and flag are accessed in two
    steps, and other threads may use a monitor in between.  Who is inside a monitor, that nobody
    blocks, the order of service over schedules, and the run in which the assertion of \<open>trylock\<close>
    stops the queue (\<open>lockqueue_can_abort\<close>).
  \<^item> \<open>Shared_Mutex\<close>, \<open>Shared_Mutex_Properties\<close>, \<open>Shared_Assignment\<close>: \<open>shared_mutex.cpp\<close>, its
    threads and its class \<open>Assignment::A\<close>.
  \<^item> \<open>Alarm_Clock\<close>, \<open>Alarm_Properties\<close>, \<open>Alarm_Runs\<close>: \<open>alarm_cond.cpp\<close>.
  \<^item> \<open>Priority_Scheduler\<close>, \<open>Scheduler_Properties\<close>, \<open>Scheduler_Runs\<close>: \<open>priority_scheduler.cpp\<close>.
  \<^item> \<open>Stopwatch\<close>, \<open>Stopwatch_Properties\<close>, \<open>Suspendable_Properties\<close>: the stopwatches; the locales
    \<open>remembers_last\<close>, \<open>sums_laps\<close> and \<open>keeps_no_sum\<close> are the contracts of their collectors.
  \<^item> \<open>Laps_Stopwatch\<close>, \<open>Stopwatch_Reporters\<close>: the older class \<open>laps_stopwatch\<close>, step by step equal
    to \<open>stopwatch\<close>; what the reporters hand to \<open>boost::format\<close>.
  \<^item> \<open>Spsc_Program\<close>, \<open>Testable_Mutex\<close>, \<open>Parallel_Sort\<close>, \<open>Guarded_Objects\<close>, \<open>Persons\<close>,
    \<open>Counter_Programs\<close>, \<open>Shared_Monitor\<close>: the small programs.
  \<^item> \<open>Ping_Pong\<close>, \<open>Ping_Pong_Runs\<close>: \<open>perf_condition_variable.cpp\<close> for any number of consumers.
  \<^item> \<open>Pool_Errors\<close>: the posix pool when the system refuses threads.
  \<^item> \<open>Pool_Quiet\<close>, \<open>Pool_Tests\<close>, \<open>Pool_Test_Runs\<close> and \<open>Queued_Quiet\<close>, \<open>Queued_Pool_Tests\<close>,
    \<open>Queued_Pool_Test_Runs\<close>: the tests of \<open>threads_test.cpp\<close> for \<open>ThreadPool\<close> and
    \<open>QueuedThreadPool\<close> as lists of statements of a main thread over the step functions of the
    posix pools; what a pool that is given no task keeps; and that no check of a test fails.
  \<^item> \<open>Thread_Tests\<close>: its tests for \<open>Synchronized\<close> and \<open>Thread\<close>.
  \<^item> \<open>Queue_Tests\<close>, \<open>Queue_Test_Runs\<close>: the tests of \<open>multi_thread_pass.cpp\<close>.

  \<^bold>\<open>What the lemmas show.\<close>  The invariants say who holds which lock at which location, that no call
  throws, that a task is in one place (a slot, a queue, a client, finished or discarded) and is
  executed at most once.  Progress lemmas give a schedule that leads out of every reachable
  state that is not the end.  Refinements compare a queue with an abstract one and a stopwatch
  with a sum over the times of its calls, for every sequence of calls.  The runs (\<open>*_run\<close>, and the theorems about one schedule)
  show what the code does not promise: lost notifications, clients left waiting, tasks that are
  never executed, early or late alarms, checks of a test that can fail (\<open>independency_test_can_fail\<close>,
  \<open>deadlock_test_can_fail\<close>).

  \<^bold>\<open>Configuration.\<close>  The posix variant is taken as built on Linux with \<open>NO_FAST_MUTEXES\<close>,
  \<open>_POSIX_TIMEOUTS\<close> and \<open>_POSIX_TIMERS\<close>, without \<open>AGENTPP_USE_YIELD\<close> and without logging; the
  boost variant with \<open>AGENTPP_SET_TASK_USE_TRY_LOCK\<close>, which its header defines, and without
  \<open>POSIX_THREADS\<close>; both with and without \<open>NDEBUG\<close> where an assertion matters.  The agent++ variant
  is taken with pthreads, an error-checking mutex (no \<open>AGENTPP_PTHREAD_RECURSIVE\<close>) and assertions;
  \<open>LockQueue\<close> exists with \<open>NO_FAST_MUTEXES\<close> only.  The stopwatches have their overloads with an
  error code.

  \<^bold>\<open>Bounds.\<close>  No bound is put on threads, tasks or the length of a schedule.  A loop that polls
  the system (the destructor of \<open>Synchronized\<close>, \<open>nsleep\<close>, the timed \<open>lock\<close>) takes the list of
  the system's answers and is total; the retry limit of the destructor is the constant of the
  code.  Loops of the pools are not run with fuel: each iteration is a step.  The recursion of the
  quick sort has fuel, and more than the length of the list is enough.

  \<^bold>\<open>Parameters.\<close>  Code that is not under this repository is an argument: the executor
  \<open>boost::basic_thread_pool\<close> (\<open>executor_contract\<close>), the shared and upgrade mutex of boost
  (\<open>rw_contract\<close>), the list of agent++ (\<open>list_contract\<close>), the lock-free queue of boost
  (\<open>spsc_contract\<close>), the accumulators of boost (\<open>accumulators_contract\<close>), the order
  \<open>std::partition\<close> leaves open (\<open>partitions\<close>), the synchronised queue and the barrier of boost
  (\<open>sq_contract\<close>), what the formatters read of the accumulators (\<open>statistics_contract\<close>),
  \<open>boost::format\<close> and \<open>boost::trim\<close>.  Each contract states documented
  behaviour and is shown to hold of a concrete instance.

  \<^bold>\<open>Abstractions.\<close>  A task is a number; \<open>Runnable::run\<close> of a task touches no state of the pool and
  its end is a step.  A task manager is created with status \<open>RUNNING\<close>: its thread cannot end
  before the constructor has returned.  The \<open>Array\<close> of task managers of the agent++ pools is the
  list their constructor fills, and a task given to the agent++ queue is not null.  Times of the
  alarm program and of the stopwatches are integers, and the conversion to \<open>duration<double>\<close> is
  exact.  Real time is not modelled: a timed wait may end by a notification, spuriously or by its
  timeout at any step, and a task that does not return is a schedule in which its worker takes no
  more steps.  \<open>boost::lock\<close> of two locks is one step; a future has the value of its call.  The test of a
  condition and the wait after it are one step where the mutex is held over both.  An item of the
  priority scheduler that throws ends the program and is not modelled.  A critical section of a
  lock request or of the lock queue is one step: nobody asks them by \<open>trylock\<close>.

  \<^bold>\<open>Not modelled.\<close>  Logging and printing; the \<open>MibTask\<close> of agent++, which calls a member function
  once, \<open>TaskManager::clone\<close>, and the destructor of its \<open>Array\<close>; \<open>laps_stopclock.hpp\<close>, which opens
  with \<open>#error\<close>; the programs that only call boost or the standard library (asio servers and
  clients, executors, futures, \<open>perf_shared_mutex.cpp\<close>, \<open>test_wait_for.cpp\<close>,
  \<open>chrono_io_ex1.cpp\<close>, \<open>volatile.cpp\<close>, \<open>shared_ptr.cpp\<close>); and in \<open>threads_test.cpp\<close> the tests that
  measure times, those that destroy a monitor in use, and those that lock several mutexes by
  \<open>boost::lock\<close>.
\<close>

end
